(* ===== verification/Prelude.thy ===== *)
theory Prelude
  imports Main "HOL-Library.Word"
begin

text \<open>
  Shared vocabulary of the development: the machine words of the 32-bit kernel, its
  byte-addressed memory with little-endian loads and stores, the faults a kernel routine can
  end in, and the generic lemmas on memory, words and lists that the components share.
\<close>

unbundle bit_operations_syntax

section \<open>Words, memory, faults\<close>

text \<open>The integer types of \<open>include/ctype.h\<close>; \<open>unsigned long\<close> and pointers have 32 bits.\<close>

type_synonym u8 = "8 word"
type_synonym u16 = "16 word"
type_synonym u32 = "32 word"
type_synonym addr = u32
type_synonym memory = "addr \<Rightarrow> u8"

text \<open>
  How a kernel routine can fail to return: \<open>BUG\<close> and \<open>BUG_MSG\<close> print and then spin forever,
  a null pointer is dereferenced, an array is indexed out of its range, or a loop of the code
  does not end.
\<close>

datatype fault = Bug string | NullDeref | OutOfRange | Diverges

definition bindE :: "'e + 'a \<Rightarrow> ('a \<Rightarrow> 'e + 'b) \<Rightarrow> 'e + 'b" where
  "bindE r f = (case r of Inl e \<Rightarrow> Inl e | Inr x \<Rightarrow> f x)"

lemma bindE_simps [simp]:
  "bindE (Inl e) f = Inl e"
  "bindE (Inr x) f = f x"
  by (simp_all add: bindE_def)

lemma bindE_Inr_iff: "bindE r f = Inr y \<longleftrightarrow> (\<exists>x. r = Inr x \<and> f x = Inr y)"
  by (cases r) auto

text \<open>Sequencing of routines whose loops may run on: \<open>None\<close> is a run that does not end.\<close>

definition bindR :: "('e + 'a) option \<Rightarrow> ('a \<Rightarrow> ('e + 'b) option) \<Rightarrow> ('e + 'b) option" where
  "bindR r f = Option.bind r (\<lambda>x. case x of Inl e \<Rightarrow> Some (Inl e) | Inr y \<Rightarrow> f y)"

lemma bindR_simps [simp]:
  "bindR (Some (Inl e)) f = Some (Inl e)" "bindR (Some (Inr x)) f = f x" "bindR None f = None"
  by (simp_all add: bindR_def)

lemma bindR_mono [partial_function_mono]:
  assumes "mono_option B" "\<And>y. mono_option (\<lambda>g. C y g)"
  shows "mono_option (\<lambda>g. bindR (B g) (\<lambda>y. C y g))"
  unfolding bindR_def
proof (rule bind_mono [OF assms(1)])
  fix x :: "'c + 'd"
  show "mono_option (\<lambda>g. case x of Inl e \<Rightarrow> Some (Inl e) | Inr y \<Rightarrow> C y g)"
    using assms(2) by (cases x) (simp_all add: option.const_mono)
qed

definition the_res :: "'e + 'a \<Rightarrow> 'a" where
  "the_res r = (case r of Inr x \<Rightarrow> x | Inl e \<Rightarrow> undefined)"

lemma the_res_Inr [simp]: "the_res (Inr x) = x"
  by (simp add: the_res_def)

named_theorems fields \<open>loads of the words of a struct\<close>

named_theorems mem_simps \<open>reading memory after writing it\<close>
named_theorems frame_intros \<open>disjointness of memory regions\<close>

definition ld16 :: "memory \<Rightarrow> addr \<Rightarrow> u16" where
  "ld16 m a = ucast (m a) OR push_bit 8 (ucast (m (a + 1)))"

definition st16 :: "memory \<Rightarrow> addr \<Rightarrow> u16 \<Rightarrow> memory" where
  "st16 m a v = m(a := ucast v, a + 1 := ucast (drop_bit 8 v))"

definition ld32 :: "memory \<Rightarrow> addr \<Rightarrow> u32" where
  "ld32 m a = ucast (m a) OR push_bit 8 (ucast (m (a + 1))) OR
     push_bit 16 (ucast (m (a + 2))) OR push_bit 24 (ucast (m (a + 3)))"

definition st32 :: "memory \<Rightarrow> addr \<Rightarrow> u32 \<Rightarrow> memory" where
  "st32 m a v = m(a := ucast v, a + 1 := ucast (drop_bit 8 v),
     a + 2 := ucast (drop_bit 16 v), a + 3 := ucast (drop_bit 24 v))"

lemma unat_of_nat_32: "n < 2 ^ 32 \<Longrightarrow> unat (of_nat n :: u32) = n"
  by (simp add: unat_of_nat)

lemma unat_uminus_32:
  assumes "(a :: u32) \<noteq> 0"
  shows "unat (- a) = 2 ^ 32 - unat a"
proof -
  have lt: "unat a < 2 ^ 32" by (rule order.strict_trans2 [OF unsigned_less]) simp
  have "of_nat (2 ^ 32 - unat a) + a = (of_nat ((2 ^ 32 - unat a) + unat a) :: u32)"
    by (simp only: of_nat_add of_nat_unat ucast_id)
  also have "\<dots> = of_nat (2 ^ 32)" using lt by (simp only: le_add_diff_inverse2 less_imp_le)
  also have "\<dots> = 0" by simp
  finally have "- a = of_nat (2 ^ 32 - unat a)" by (metis eq_neg_iff_add_eq_0 add.inverse_inverse)
  moreover have "0 < unat a" using assms by (simp add: unat_gt_0)
  then have "unat (of_nat (2 ^ 32 - unat a) :: u32) = 2 ^ 32 - unat a"
    by (intro unat_of_nat_32 diff_less) simp_all
  ultimately show ?thesis by (simp only:)
qed

section \<open>Regions\<close>

text \<open>The \<open>n\<close> bytes from \<open>a\<close> on, wrapping at the end of the address space.\<close>

definition region :: "addr \<Rightarrow> nat \<Rightarrow> addr set" where
  "region a n = {x. unat (x - a) < n}"

lemma in_region: "x \<in> region a n \<longleftrightarrow> unat (x - a) < n"
  by (simp add: region_def)

lemma region_self [simp]: "0 < n \<Longrightarrow> a \<in> region a n"
  by (simp add: region_def)

lemma region_0 [simp]: "region a 0 = {}"
  by (simp add: region_def)

lemma region_mono: "n \<le> k \<Longrightarrow> region a n \<subseteq> region a k"
  by (auto simp: region_def)

lemma region_offset_subset:
  assumes "unat d + k \<le> n"
  shows "region (a + d) k \<subseteq> region a n"
proof
  fix x assume "x \<in> region (a + d) k"
  then have *: "unat (x - (a + d)) < k" by (simp add: region_def)
  have "x - a = (x - (a + d)) + d" by simp
  then have "unat (x - a) \<le> unat (x - (a + d)) + unat d"
    by (metis unat_word_ariths(1) mod_less_eq_dividend)
  with * assms show "x \<in> region a n" by (simp add: region_def)
qed

lemma region_elem:
  assumes "n \<le> 2 ^ 32"
  shows "x \<in> region a n \<longleftrightarrow> (\<exists>i<n. x = a + of_nat i)"
proof
  assume "x \<in> region a n"
  then have "unat (x - a) < n" by (simp add: region_def)
  moreover have "x = a + of_nat (unat (x - a))" by simp
  ultimately show "\<exists>i<n. x = a + of_nat i" by blast
next
  assume "\<exists>i<n. x = a + of_nat i"
  then obtain i where i: "i < n" "x = a + of_nat i" by blast
  then have "unat (x - a) \<le> i"
    by (simp add: unat_of_nat)
  with i show "x \<in> region a n" by (simp add: region_def)
qed

lemma region_apartI:
  assumes "n \<le> unat (b - a)" "k \<le> unat (a - b)"
  shows "region a n \<inter> region b k = {}"
proof -
  have False if x: "unat (x - a) < n" "unat (x - b) < k" for x
  proof (cases "x \<ge> b")
    case True
    with assms x show False by unat_arith
  next
    case False
    with assms x show False by unat_arith
  qed
  then show ?thesis by (auto simp: region_def)
qed

lemma region_Suc:
  assumes "Suc n \<le> 2 ^ 32"
  shows "region a (Suc n) = insert a (region (a + 1) n)"
proof -
  have "unat (x - a) < Suc n \<longleftrightarrow> x = a \<or> unat (x - (a + 1)) < n" for x
  proof (cases "x = a")
    case False
    then have "x - a \<noteq> 0" by simp
    then have "unat (x - a) = Suc (unat (x - a - 1))"
      by (metis Suc_pred' unat_gt_0 unat_minus_one)
    then show ?thesis using False by (simp add: diff_diff_eq)
  qed simp
  then show ?thesis by (auto simp: region_def)
qed

text \<open>A region that does not wrap around is an interval.\<close>

lemma region_linear:
  assumes "unat a + n \<le> 2 ^ 32"
  shows "x \<in> region a n \<longleftrightarrow> unat a \<le> unat x \<and> unat x < unat a + n"
proof (cases "a \<le> x")
  case True
  then have "unat (x - a) = unat x - unat a" "unat a \<le> unat x" by (simp_all add: unat_sub word_le_nat_alt)
  then show ?thesis by (auto simp: in_region)
next
  case False
  then have lt: "unat x < unat a" by (simp add: word_le_nat_alt)
  have "x - a = - (a - x)" by simp
  moreover have "a - x \<noteq> 0" using lt by auto
  moreover have "unat (a - x) = unat a - unat x" using lt by (simp add: unat_sub word_le_nat_alt)
  ultimately have "unat (x - a) = 2 ^ 32 - (unat a - unat x)" by (simp only: unat_uminus_32 not_False_eq_True)
  then show ?thesis using assms lt by (simp add: in_region)
qed

lemma region_ordered:
  assumes "unat a + n \<le> unat b" "unat b + k \<le> 2 ^ 32"
  shows "region a n \<inter> region b k = {}"
proof -
  have "unat a + n \<le> 2 ^ 32" using assms by linarith
  then show ?thesis using assms(1) region_linear [of a n] region_linear [OF assms(2)] by force
qed

lemma unat_add_32: "unat a + n < 2 ^ 32 \<Longrightarrow> unat (a + of_nat n :: u32) = unat a + n"
proof -
  assume l: "unat a + n < 2 ^ 32"
  then have "unat (of_nat n :: u32) = n" by (intro unat_of_nat_32) simp
  then show ?thesis using l by (simp add: unat_word_ariths)
qed

text \<open>Elements of an array do not overlap.\<close>

lemma region_array:
  assumes "i \<noteq> j" "sz * Suc i \<le> 2 ^ 32" "sz * Suc j \<le> 2 ^ 32" "k \<le> sz" "l \<le> sz"
  shows "region (b + of_nat (sz * i)) k \<inter> region (b + of_nat (sz * j)) l = {}"
proof -
  have *: "region (b + of_nat (sz * i)) k \<inter> region (b + of_nat (sz * j)) l = {}"
    if "i < j" "sz * Suc j \<le> 2 ^ 32" "k \<le> sz" "l \<le> sz" for i j k l
  proof -
    obtain d where d: "j = Suc (i + d)" using \<open>i < j\<close> less_imp_Suc_add by blast
    have sz: "sz * Suc (i + d) + sz \<le> 4294967296" using that(2) d by (simp add: algebra_simps)
    have "(of_nat (sz * j) - of_nat (sz * i) :: addr) = of_nat (sz * Suc d)"
      by (simp add: d algebra_simps)
    moreover have b: "sz * Suc d + sz \<le> 4294967296" using sz by (simp add: algebra_simps)
    show ?thesis
    proof (cases "sz = 0")
      case False
      then have "unat (of_nat (sz * Suc d) :: addr) = sz * Suc d"
        using b False by (intro unat_of_nat_32) simp
      moreover have "of_nat (sz * Suc d) \<noteq> (0 :: addr)"
        using calculation False by (metis mult_is_0 nat.distinct(1) unat_0)
      then have "unat (- (of_nat (sz * Suc d)) :: addr) = 2 ^ 32 - sz * Suc d"
        using calculation by (simp only: unat_uminus_32 not_False_eq_True)
      moreover have "b + of_nat (sz * j) - (b + of_nat (sz * i)) = (of_nat (sz * Suc d) :: addr)"
        "b + of_nat (sz * i) - (b + of_nat (sz * j)) = (- of_nat (sz * Suc d) :: addr)"
        by (simp_all add: d algebra_simps)
      moreover have "l \<le> 2 ^ 32 - sz * Suc d" using b that(4) by simp
      moreover have "k \<le> sz * Suc d" using that(3) by simp
      ultimately show ?thesis by (intro region_apartI) (simp_all only:)
    qed (use that in simp)
  qed
  show ?thesis
  proof (cases "i < j")
    case True
    then show ?thesis using assms by (intro *) auto
  next
    case False
    then have "region (b + of_nat (sz * j)) l \<inter> region (b + of_nat (sz * i)) k = {}"
      using assms by (intro *) auto
    then show ?thesis by blast
  qed
qed

lemma region_elem_array:
  assumes "k \<le> sz" "sz * Suc i \<le> n" "n \<le> 2 ^ 32"
  shows "region (b + of_nat (sz * i)) k \<subseteq> region b n"
proof (cases "k = 0")
  case False
  then have "unat (of_nat (sz * i) :: addr) = sz * i"
    using assms by (intro unat_of_nat_32) simp
  then show ?thesis using assms by (intro region_offset_subset) (simp del: of_nat_mult)
qed simp

section \<open>Loads and stores\<close>

lemma st32_out: "x \<notin> region a 4 \<Longrightarrow> st32 m a v x = m x"
proof -
  assume "x \<notin> region a 4"
  then have "x \<noteq> a" "x \<noteq> a + 1" "x \<noteq> a + 2" "x \<noteq> a + 3"
    by (auto simp: region_def)
  then show ?thesis by (simp add: st32_def)
qed

lemma st16_out: "x \<notin> region a 2 \<Longrightarrow> st16 m a v x = m x"
proof -
  assume "x \<notin> region a 2"
  then have "x \<noteq> a" "x \<noteq> a + 1"
    by (auto simp: region_def)
  then show ?thesis by (simp add: st16_def)
qed

lemma ld32_cong:
  assumes "\<And>x. x \<in> region a 4 \<Longrightarrow> m x = m' x"
  shows "ld32 m a = ld32 m' a"
proof -
  have "a \<in> region a 4" "a + 1 \<in> region a 4" "a + 2 \<in> region a 4" "a + 3 \<in> region a 4"
    by (simp_all add: region_def)
  then show ?thesis by (simp add: ld32_def assms)
qed

lemma ld16_cong:
  assumes "\<And>x. x \<in> region a 2 \<Longrightarrow> m x = m' x"
  shows "ld16 m a = ld16 m' a"
proof -
  have "a \<in> region a 2" "a + 1 \<in> region a 2"
    by (simp_all add: region_def)
  then show ?thesis by (simp add: ld16_def assms)
qed

lemma ld32_st32_apart [mem_simps]:
  "region a 4 \<inter> region b 4 = {} \<Longrightarrow> ld32 (st32 m b v) a = ld32 m a"
  by (rule ld32_cong) (auto intro: st32_out)

text \<open>The words of a struct at \<open>a\<close>, by their offsets.\<close>

lemma ld32_field [fields]:
  assumes "4 \<le> e - d" "4 \<le> d - e"
  shows "ld32 (st32 m (a + d) v) (a + e) = ld32 m (a + e)"
proof (rule ld32_st32_apart, rule region_apartI)
  have "a + e - (a + d) = e - d" "a + d - (a + e) = d - e" by simp_all
  then show "4 \<le> unat (a + d - (a + e))" "4 \<le> unat (a + e - (a + d))"
    using assms by (simp_all add: word_le_nat_alt)
qed

lemma ld32_field_head [fields]: "4 \<le> d \<Longrightarrow> 4 \<le> - d \<Longrightarrow> ld32 (st32 m (a + d) v) a = ld32 m a"
  using ld32_field [of 0 d m a v] by simp

lemma ld32_head_field [fields]: "4 \<le> e \<Longrightarrow> 4 \<le> - e \<Longrightarrow> ld32 (st32 m a v) (a + e) = ld32 m (a + e)"
  using ld32_field [of e 0 m a v] by simp

lemma ld32_st32_same [mem_simps, simp]: "ld32 (st32 m a v) a = v"
proof -
  have "a + 1 \<noteq> a" "a + 2 \<noteq> a" "a + 3 \<noteq> a" "a + 2 \<noteq> a + 1" "a + 3 \<noteq> a + 1" "a + 3 \<noteq> a + 2"
    by simp_all
  then have "ld32 (st32 m a v) a = ucast (ucast v :: u8) OR push_bit 8 (ucast (ucast (drop_bit 8 v) :: u8)) OR
     push_bit 16 (ucast (ucast (drop_bit 16 v) :: u8)) OR push_bit 24 (ucast (ucast (drop_bit 24 v) :: u8))"
    by (simp add: ld32_def st32_def)
  also have "\<dots> = v"
  proof (rule bit_word_eqI)
    fix n assume "n < LENGTH(32)"
    then consider "n < 8" | "8 \<le> n" "n < 16" | "16 \<le> n" "n < 24" | "24 \<le> n" "n < 32"
      by fastforce
    then show "bit (ucast (ucast v :: u8) OR push_bit 8 (ucast (ucast (drop_bit 8 v) :: u8)) OR
       push_bit 16 (ucast (ucast (drop_bit 16 v) :: u8)) OR
       push_bit 24 (ucast (ucast (drop_bit 24 v) :: u8)) :: u32) n \<longleftrightarrow> bit v n"
      by cases (auto simp: bit_simps)
  qed
  finally show ?thesis .
qed

lemma ld16_st16_same [mem_simps, simp]: "ld16 (st16 m a v) a = v"
proof -
  have "ld16 (st16 m a v) a = ucast (ucast v :: u8) OR push_bit 8 (ucast (ucast (drop_bit 8 v) :: u8))"
    by (simp add: ld16_def st16_def)
  also have "\<dots> = v"
    by (rule bit_word_eqI) (auto simp: bit_simps)
  finally show ?thesis .
qed

lemma ld16_st16_apart [mem_simps]:
  "region a 2 \<inter> region b 2 = {} \<Longrightarrow> ld16 (st16 m b v) a = ld16 m a"
  by (rule ld16_cong) (auto intro: st16_out)

text \<open>The bytes of a word as numbers.\<close>

lemma uint_ld32:
  "uint (ld32 m a) = uint (m a) + 256 * uint (m (a + 1)) + 65536 * uint (m (a + 2)) + 16777216 * uint (m (a + 3))"
proof -
  let ?b = "\<lambda>i. uint (m (a + i))"
  have p: "uint (push_bit n (ucast x :: u32)) = 2 ^ n * uint x" if "n \<le> 24" for n and x :: u8
  proof -
    have x: "uint x < 256" "0 \<le> uint x" using uint_bounded [of x] by simp_all
    then have "uint x < 2 ^ 8" by simp
    then have "2 ^ n * uint x < 2 ^ n * 2 ^ 8" by simp
    also have "\<dots> = 2 ^ (n + 8)" by (simp only: power_add)
    also have "\<dots> \<le> (2 :: int) ^ 32" using that by (intro power_increasing) simp_all
    finally have "2 ^ n * uint x < 4294967296" by simp
    moreover have "uint (push_bit n (ucast x :: u32)) = (2 ^ n * uint x) mod 4294967296"
    proof -
      have "uint (push_bit n (ucast x :: u32)) = take_bit 32 (push_bit n (uint (ucast x :: u32)))"
        using that by (simp add: unsigned_push_bit_eq)
      moreover have "uint (ucast x :: u32) = uint x"
        using x by (simp add: unsigned_ucast_eq take_bit_int_eq_self_iff)
      ultimately show ?thesis by (simp add: push_bit_eq_mult take_bit_eq_mod mult.commute)
    qed
    ultimately show ?thesis by simp
  qed
  have d: "x OR y = x + y" if "x AND y = 0" for x y :: u32
    using that by (metis add_0 add.right_neutral word_plus_and_or)
  have "ld32 m a = ucast (m a) + push_bit 8 (ucast (m (a + 1))) + push_bit 16 (ucast (m (a + 2)))
      + push_bit 24 (ucast (m (a + 3)))"
    unfolding ld32_def
    by (subst d, (rule bit_word_eqI, auto simp: bit_simps dest: bit_imp_le_length)[1])+ simp
  then have e: "uint (ld32 m a) = (?b 0 + 256 * ?b 1 + 65536 * ?b 2 + 16777216 * ?b 3) mod 4294967296"
    using p [of 0 "m a"] p [of 8 "m (a + 1)"] p [of 16 "m (a + 2)"] p [of 24 "m (a + 3)"]
    by (simp add: uint_word_ariths mod_simps ac_simps)
  have b: "?b i < 256 \<and> 0 \<le> ?b i" for i
    using uint_bounded [of "m (a + i)"] by simp
  have "(?b 0 + 256 * ?b 1 + 65536 * ?b 2 + 16777216 * ?b 3) mod 4294967296
      = ?b 0 + 256 * ?b 1 + 65536 * ?b 2 + 16777216 * ?b 3"
    by (rule mod_pos_pos_trivial) (use b [of 0] b [of 1] b [of 2] b [of 3] in linarith)+
  then show ?thesis using e by simp
qed

section \<open>Byte sequences in memory\<close>

definition bytes :: "memory \<Rightarrow> addr \<Rightarrow> nat \<Rightarrow> u8 list" where
  "bytes m a n = map (\<lambda>i. m (a + of_nat i)) [0..<n]"

lemma length_bytes [simp]: "length (bytes m a n) = n"
  by (simp add: bytes_def)

lemma nth_bytes [simp]: "i < n \<Longrightarrow> bytes m a n ! i = m (a + of_nat i)"
  by (simp add: bytes_def)

lemma bytes_cong: "(\<And>x. x \<in> region a n \<Longrightarrow> m x = m' x) \<Longrightarrow> n \<le> 2 ^ 32 \<Longrightarrow> bytes m a n = bytes m' a n"
  by (rule nth_equalityI) (auto simp: region_elem)

section \<open>Digits of numbers\<close>

text \<open>The decimal digits of a number, as characters.\<close>

fun dec :: "nat \<Rightarrow> u8 list" where
  "dec n = (if n < 10 then [48 + of_nat n] else dec (n div 10) @ [48 + of_nat (n mod 10)])"

declare dec.simps [simp del]

text \<open>The hexadecimal digits of a number, the most significant one first.\<close>

lemma hex_digits_value: "foldl (\<lambda>v j. 16 * v + N div 16 ^ j mod 16) v (rev [0..<k]) = v * 16 ^ k + N mod (16 :: nat) ^ k"
proof (induction k arbitrary: v)
  case (Suc k)
  have "N mod 16 ^ Suc k = 16 ^ k * (N div 16 ^ k mod 16) + N mod 16 ^ k"
    by (simp add: mod_mult2_eq power_Suc2 del: power_Suc)
  moreover have "foldl (\<lambda>v j. 16 * v + N div 16 ^ j mod 16) v (rev [0..<Suc k]) =
      (16 * v + N div 16 ^ k mod 16) * 16 ^ k + N mod 16 ^ k"
    using Suc.IH [of "16 * v + N div 16 ^ k mod 16"] by simp
  ultimately show ?case by (simp add: algebra_simps)
qed simp

end
