(* ===== verification/Machine.thy ===== *)
theory Machine
  imports Prelude "HOL-Library.Signed_Division"
begin

text \<open>
  The machine the kernel runs on: the byte-addressed memory, the trace of port accesses, and an
  oracle for what the devices answer. \<open>dev tr p\<close> is the value a device at port \<open>p\<close> returns after
  the accesses of the trace \<open>tr\<close> (most recent first); nothing is assumed about it here. The port
  instructions of \<open>include/nros/port.h\<close> and \<open>include/nros/asm.h\<close> extend the trace.
\<close>

datatype io_event =
    EvOutb u8 u16 | EvInb u16 u8
  | EvOutw u16 u16 | EvInw u16 u16
  | EvOutl u32 u16 | EvInl u16 u32
  | IoDelay | Cli | Sti

record mach =
  mem :: memory
  io :: "io_event list"
  dev :: "io_event list \<Rightarrow> u16 \<Rightarrow> u32"

definition emit :: "io_event \<Rightarrow> 'a mach_scheme \<Rightarrow> 'a mach_scheme" where
  "emit e s = s\<lparr>io := e # io s\<rparr>"

definition io_delay :: "'a mach_scheme \<Rightarrow> 'a mach_scheme" where
  "io_delay s = emit IoDelay s"

definition outb :: "u8 \<Rightarrow> u16 \<Rightarrow> 'a mach_scheme \<Rightarrow> 'a mach_scheme" where
  "outb v port s = emit (EvOutb v port) s"

definition inb :: "u16 \<Rightarrow> 'a mach_scheme \<Rightarrow> u8 \<times> 'a mach_scheme" where
  "inb port s = (let v = ucast (dev s (io s) port) in (v, emit (EvInb port v) s))"

definition outw :: "u16 \<Rightarrow> u16 \<Rightarrow> 'a mach_scheme \<Rightarrow> 'a mach_scheme" where
  "outw v port s = emit (EvOutw v port) s"

definition inw :: "u16 \<Rightarrow> 'a mach_scheme \<Rightarrow> u16 \<times> 'a mach_scheme" where
  "inw port s = (let v = ucast (dev s (io s) port) in (v, emit (EvInw port v) s))"

definition outl :: "u32 \<Rightarrow> u16 \<Rightarrow> 'a mach_scheme \<Rightarrow> 'a mach_scheme" where
  "outl v port s = emit (EvOutl v port) s"

definition inl :: "u32 \<Rightarrow> 'a mach_scheme \<Rightarrow> u32 \<times> 'a mach_scheme" where
  "inl port s = (let v = dev s (io s) (ucast port) in (v, emit (EvInl (ucast port) v) s))"

definition cli :: "'a mach_scheme \<Rightarrow> 'a mach_scheme" where
  "cli s = emit Cli s"

definition sti :: "'a mach_scheme \<Rightarrow> 'a mach_scheme" where
  "sti s = emit Sti s"

text \<open>Writes to memory through the state.\<close>

definition put32 :: "addr \<Rightarrow> u32 \<Rightarrow> 'a mach_scheme \<Rightarrow> 'a mach_scheme" where
  "put32 a v s = s\<lparr>mem := st32 (mem s) a v\<rparr>"

definition on_mem :: "(memory \<Rightarrow> memory) \<Rightarrow> 'a mach_scheme \<Rightarrow> 'a mach_scheme" where
  "on_mem f s = s\<lparr>mem := f (mem s)\<rparr>"

lemma mem_emit [simp]: "mem (emit e s) = mem s"
  by (simp add: emit_def)

lemma mem_put32 [simp]: "mem (put32 a v s) = st32 (mem s) a v"
  by (simp add: put32_def)

lemma mem_on_mem [simp]: "mem (on_mem f s) = f (mem s)"
  by (simp add: on_mem_def)

section \<open>What a device sees\<close>

fun out_to :: "u16 \<Rightarrow> io_event \<Rightarrow> u8 list" where
  "out_to p (EvOutb v q) = (if q = p then [v] else [])"
| "out_to p e = []"

text \<open>The bytes written to a port, in the order in which they were written.\<close>

definition sent :: "u16 \<Rightarrow> io_event list \<Rightarrow> u8 list" where
  "sent p tr = concat (map (out_to p) (rev tr))"

lemma sent_Cons [simp]: "sent p (e # tr) = sent p tr @ out_to p e"
  by (simp add: sent_def)

lemma outb_simps [simp]:
  "io (outb v p s) = EvOutb v p # io s" "mem (outb v p s) = mem s"
  by (simp_all add: outb_def emit_def)

section \<open>Pointers and pages\<close>

text \<open>\<open>p - q\<close> for pointers to elements of \<open>sz\<close> bytes: the signed byte distance over the size.\<close>

definition ptr_diff :: "addr \<Rightarrow> addr \<Rightarrow> nat \<Rightarrow> u32" where
  "ptr_diff p q sz = word_of_int (sint (p - q) div int sz)"

abbreviation (input) KVM_BASE :: u32 where "KVM_BASE \<equiv> 0xC0000000"
abbreviation (input) PAGE_SIZE :: u32 where "PAGE_SIZE \<equiv> 4096"

definition pa :: "addr \<Rightarrow> addr" where
  "pa x = x - KVM_BASE"

definition ALIGN :: "u32 \<Rightarrow> u32 \<Rightarrow> u32" where
  "ALIGN x a = (x + a - 1) AND NOT (a - 1)"

abbreviation (input) LONG_ALIGN :: "u32 \<Rightarrow> u32" where "LONG_ALIGN x \<equiv> ALIGN x 4"
abbreviation (input) PAGE_ALIGN :: "u32 \<Rightarrow> u32" where "PAGE_ALIGN x \<equiv> ALIGN x 0x1000"

lemma and_NOT_mask: "x AND NOT (mask n) = x - (x AND mask n)" for x :: u32
proof -
  have "x - (x AND mask n) = x AND NOT (x AND mask n)"
    by (rule disjunctive_diff) (simp add: bit_and_iff)
  also have "\<dots> = x AND NOT (mask n)" by (rule bit_word_eqI) (auto simp: bit_simps)
  finally show ?thesis by simp
qed

lemma unat_and_mask: "unat (x AND mask n) = unat x mod 2 ^ n" for x :: u32
  by (simp add: unsigned_take_bit_eq flip: take_bit_eq_mod take_bit_eq_mask)

lemma unat_and_not_mask: "unat (x AND NOT (mask n)) = unat x - unat x mod 2 ^ n" for x :: u32
  by (simp add: and_NOT_mask unat_sub word_and_le2 unat_and_mask)

lemma unat_drop_bit: "unat (drop_bit k x) = unat x div 2 ^ k" for x :: u32
  by (simp only: unat_drop_bit_eq drop_bit_eq_div [where 'a = nat])

lemma drop_bit_of_nat_32: "i < 2 ^ 32 \<Longrightarrow> drop_bit k (of_nat i :: u32) = of_nat (i div 2 ^ k)"
proof -
  assume i: "i < 2 ^ 32"
  moreover from i have "i div 2 ^ k < 2 ^ 32" by (rule le_less_trans [OF div_le_dividend])
  ultimately have "unat (drop_bit k (of_nat i :: u32)) = unat (of_nat (i div 2 ^ k) :: u32)"
    by (simp only: unat_drop_bit unat_of_nat_32)
  then show ?thesis by (simp only: word_unat_eq_iff)
qed

lemma sint_of_nat_32: "n < 2 ^ 31 \<Longrightarrow> sint (of_nat n :: u32) = int n"
  by (simp add: signed_of_nat signed_take_bit_int_eq_self_iff)

lemma small_signed:
  assumes "unat (p :: u32) < 2 ^ 31"
  shows "sint p = int (unat p)"
proof -
  have "p = of_nat (unat p)" by simp
  then have "sint p = sint (of_nat (unat p) :: u32)" by simp
  then show ?thesis using sint_of_nat_32 [OF assms] by simp
qed

lemma sdiv_int: "int a sdiv int b = int (a div b)"
  by (cases "a = 0"; cases "b = 0") (simp_all add: signed_divide_int_def zdiv_int)

lemma smod_int: "int a smod int b = int (a mod b)"
  by (cases "a = 0") (simp_all add: signed_modulo_int_def zmod_int)

lemma ptr_diff_array:
  assumes "sz * i < 2 ^ 31" "0 < sz"
  shows "ptr_diff (b + of_nat (sz * i)) b sz = of_nat i"
proof -
  have "b + of_nat (sz * i) - b = (of_nat (sz * i) :: addr)" by simp
  then have "sint (b + of_nat (sz * i) - b) = int (sz * i)"
    using sint_of_nat_32 [OF assms(1)] by (simp only:)
  then show ?thesis using assms(2) by (simp add: ptr_diff_def)
qed

text \<open>Counting up to a limit terminates.\<close>

lemma count_up_less: "i < n \<Longrightarrow> unat (n - (i + 1)) < unat (n - i)" for i n :: u32
proof -
  assume "i < n"
  then have "n - i \<noteq> 0" by auto
  then have "unat (n - i - 1) = unat (n - i) - 1" "0 < unat (n - i)"
    by (rule unat_minus_one, simp add: unat_gt_0)
  then show ?thesis by (simp add: diff_diff_eq)
qed

end
