(* ===== verification/LinkList.thy ===== *)
theory LinkList
  imports Prelude
begin

text \<open>
  The circular doubly linked lists of \<open>include/list.h\<close>. A \<open>link_t\<close> is eight bytes of memory:
  the \<open>next\<close> pointer at offset 0 and the \<open>prev\<close> pointer at offset 4. The predicate \<open>dll\<close> relates
  a memory and the address of a list head to the sequence of the other links on the ring; the
  operations of the header are shown to be insertion and removal on that sequence, and the
  locale \<open>link_ring\<close> is the interface the allocator, the disk cache and the scheduler use.
\<close>

section \<open>The operations of list.h\<close>

definition nxt :: "memory \<Rightarrow> addr \<Rightarrow> addr" where
  "nxt m l = ld32 m l"

definition prv :: "memory \<Rightarrow> addr \<Rightarrow> addr" where
  "prv m l = ld32 m (l + 4)"

definition set_nxt :: "memory \<Rightarrow> addr \<Rightarrow> addr \<Rightarrow> memory" where
  "set_nxt m l v = st32 m l v"

definition set_prv :: "memory \<Rightarrow> addr \<Rightarrow> addr \<Rightarrow> memory" where
  "set_prv m l v = st32 m (l + 4) v"

definition link_init :: "addr \<Rightarrow> memory \<Rightarrow> memory" where
  "link_init l m = set_prv (set_nxt m l l) l l"

definition list_insert_after :: "addr \<Rightarrow> addr \<Rightarrow> memory \<Rightarrow> memory" where
  "list_insert_after new lst m =
     (let next = nxt m lst;
          m = set_nxt m new next;
          m = set_prv m next new;
          m = set_nxt m lst new
      in set_prv m new lst)"

definition list_insert_before :: "addr \<Rightarrow> addr \<Rightarrow> memory \<Rightarrow> memory" where
  "list_insert_before new lst m =
     (let prev = prv m lst;
          m = set_nxt m new lst;
          m = set_prv m lst new;
          m = set_prv m new prev
      in set_nxt m prev new)"

definition list_remove :: "addr \<Rightarrow> memory \<Rightarrow> memory" where
  "list_remove link m =
     (let prev = prv m link;
          next = nxt m link;
          m = set_nxt m prev next;
          m = set_prv m next prev;
          m = set_nxt m link link
      in set_prv m link link)"

definition list_remove_init :: "addr \<Rightarrow> memory \<Rightarrow> memory" where
  "list_remove_init link m =
     (let prev = prv m link;
          next = nxt m link;
          m = set_nxt m prev next;
          m = set_prv m next prev;
          m = set_nxt m link link
      in set_prv m link link)"

text \<open>\<open>list_detach\<close> returns the first link of the list it cuts off.\<close>

definition list_detach :: "addr \<Rightarrow> memory \<Rightarrow> addr \<times> memory" where
  "list_detach head m =
     (let next = nxt m head
      in (next, list_remove_init head m))"

definition list_empty :: "addr \<Rightarrow> memory \<Rightarrow> bool" where
  "list_empty lst m \<longleftrightarrow> prv m lst = lst \<and> nxt m lst = lst"

section \<open>Separated links\<close>

text \<open>
  No two different links of a set overlap. This is what the structures that embed a \<open>link_t\<close>
  guarantee; overlapping links would let a store to one corrupt another.
\<close>

definition wsep :: "addr set \<Rightarrow> bool" where
  "wsep S \<longleftrightarrow> (\<forall>a\<in>S. \<forall>b\<in>S. a \<noteq> b \<longrightarrow> region a 8 \<inter> region b 8 = {})"

lemma wsep_subset: "wsep S \<Longrightarrow> T \<subseteq> S \<Longrightarrow> wsep T"
  by (auto simp: wsep_def)

lemma region_lo: "region a 4 \<subseteq> region a 8"
  by (rule region_mono) simp

lemma region_hi: "region (a + 4) 4 \<subseteq> region a 8"
  by (rule region_offset_subset) simp

lemma region_lo_hi: "region a 4 \<inter> region (a + 4) 4 = {}"
  by (rule region_apartI) simp_all

lemma wsep_nxt_set_nxt:
  assumes "wsep S" "a \<in> S" "b \<in> S"
  shows "nxt (set_nxt m a v) b = (if b = a then v else nxt m b)"
proof (cases "b = a")
  case False
  with assms have "region b 8 \<inter> region a 8 = {}" by (simp add: wsep_def)
  then have "region b 4 \<inter> region a 4 = {}" using region_lo by blast
  with False show ?thesis by (simp add: nxt_def set_nxt_def mem_simps)
qed (simp add: nxt_def set_nxt_def)

lemma wsep_prv_set_prv:
  assumes "wsep S" "a \<in> S" "b \<in> S"
  shows "prv (set_prv m a v) b = (if b = a then v else prv m b)"
proof (cases "b = a")
  case False
  with assms have "region b 8 \<inter> region a 8 = {}" by (simp add: wsep_def)
  then have "region (b + 4) 4 \<inter> region (a + 4) 4 = {}" using region_hi by blast
  with False show ?thesis by (simp add: prv_def set_prv_def mem_simps)
qed (simp add: prv_def set_prv_def)

lemma wsep_cross:
  assumes "wsep S" "a \<in> S" "b \<in> S"
  shows "region a 4 \<inter> region (b + 4) 4 = {}"
proof (cases "a = b")
  case True
  then show ?thesis by (simp add: region_lo_hi)
next
  case False
  with assms have "region a 8 \<inter> region b 8 = {}" by (simp add: wsep_def)
  then show ?thesis using region_lo region_hi by blast
qed

lemma wsep_nxt_set_prv:
  "wsep S \<Longrightarrow> a \<in> S \<Longrightarrow> b \<in> S \<Longrightarrow> nxt (set_prv m a v) b = nxt m b"
  by (simp add: nxt_def set_prv_def mem_simps wsep_cross)

lemma wsep_prv_set_nxt:
  "wsep S \<Longrightarrow> a \<in> S \<Longrightarrow> b \<in> S \<Longrightarrow> prv (set_nxt m a v) b = prv m b"
  by (metis Int_commute ld32_st32_apart prv_def set_nxt_def wsep_cross)

lemmas wsep_links =
  wsep_nxt_set_nxt wsep_prv_set_prv wsep_nxt_set_prv wsep_prv_set_nxt

section \<open>Rings\<close>

definition linked :: "memory \<Rightarrow> addr \<Rightarrow> addr \<Rightarrow> bool" where
  "linked m a b \<longleftrightarrow> nxt m a = b \<and> prv m b = a"

definition dll :: "memory \<Rightarrow> addr \<Rightarrow> addr list \<Rightarrow> bool" where
  "dll m h xs \<longleftrightarrow> distinct (h # xs) \<and> successively (linked m) (h # xs @ [h])"

lemma successively_weaken:
  assumes "successively P xs"
    and "\<And>x y. x \<in> set (butlast xs) \<Longrightarrow> y \<in> set (tl xs) \<Longrightarrow> P x y \<Longrightarrow> Q x y"
  shows "successively Q xs"
  using assms
proof (induction xs rule: induct_list012)
  case (3 x y zs)
  have "successively Q (y # zs)"
  proof (rule "3.IH"(2))
    show "successively P (y # zs)" using "3.prems"(1) by simp
    fix u v assume "u \<in> set (butlast (y # zs))" "v \<in> set (tl (y # zs))" "P u v"
    then show "Q u v" by (intro "3.prems"(2)) auto
  qed
  moreover have "Q x y" using "3.prems" by simp
  ultimately show ?case by simp
qed simp_all

lemma dll_head: "dll m h xs \<Longrightarrow> nxt m h = hd (xs @ [h]) \<and> prv m h = last (h # xs)"
proof -
  assume d: "dll m h xs"
  then have s: "successively (linked m) (h # xs @ [h])" by (simp add: dll_def)
  have "linked m h (hd (xs @ [h]))"
    using s by (cases xs) auto
  moreover have "linked m (last (h # xs)) h"
    using s by (metis append_Cons last_ConsL list.distinct(1) list.sel(1) successively_append_iff)
  ultimately show ?thesis by (simp add: linked_def)
qed

lemma dll_member:
  assumes "dll m h (as @ x # bs)"
  shows "nxt m x = hd (bs @ [h])" "prv m x = last (h # as)"
proof -
  have s: "successively (linked m) ((h # as) @ x # (bs @ [h]))"
    using assms by (simp add: dll_def)
  then have "linked m (last (h # as)) x" "linked m x (hd (bs @ [h]))"
    by (auto simp: successively_append_iff successively_Cons)
  then show "nxt m x = hd (bs @ [h])" "prv m x = last (h # as)"
    by (auto simp: linked_def)
qed

text \<open>A ring depends only on the links of its own nodes.\<close>

lemma dll_neighbours:
  assumes "dll m h xs" "a \<in> set (h # xs)"
  shows "nxt m a \<in> set (h # xs)" "prv m a \<in> set (h # xs)"
proof -
  have "nxt m a \<in> set (h # xs) \<and> prv m a \<in> set (h # xs)"
  proof (cases "a = h")
    case True
    then show ?thesis using dll_head [OF assms(1)] by (cases xs) auto
  next
    case False
    then obtain as bs where xs: "xs = as @ a # bs" using assms(2) split_list [of a xs] by auto
    show ?thesis using dll_member [of m h as a bs] assms(1) unfolding xs by (cases bs) auto
  qed
  then show "nxt m a \<in> set (h # xs)" "prv m a \<in> set (h # xs)" by simp_all
qed


lemma dll_cong:
  assumes "dll m h xs"
    and "\<And>a. a \<in> set (h # xs) \<Longrightarrow> nxt m' a = nxt m a \<and> prv m' a = prv m a"
  shows "dll m' h xs"
proof -
  have "successively (linked m') (h # xs @ [h])"
  proof (rule successively_weaken)
    show "successively (linked m) (h # xs @ [h])" using assms(1) by (simp add: dll_def)
    fix x y
    assume "x \<in> set (butlast (h # xs @ [h]))" "y \<in> set (tl (h # xs @ [h]))" "linked m x y"
    moreover have "butlast (h # xs @ [h]) = h # xs" by (simp add: butlast_append)
    ultimately show "linked m' x y" using assms(2) by (auto simp: linked_def)
  qed
  with assms(1) show ?thesis by (simp add: dll_def)
qed

lemma dll_byte_cong:
  assumes "dll m h xs"
    and "\<And>a x. a \<in> set (h # xs) \<Longrightarrow> x \<in> region a 8 \<Longrightarrow> m' x = m x"
  shows "dll m' h xs"
proof (rule dll_cong [OF assms(1)])
  fix a assume a: "a \<in> set (h # xs)"
  have "ld32 m' a = ld32 m a"
    using assms(2)[OF a] region_lo by (blast intro: ld32_cong)
  moreover have "ld32 m' (a + 4) = ld32 m (a + 4)"
    using assms(2)[OF a] region_hi by (blast intro: ld32_cong)
  ultimately show "nxt m' a = nxt m a \<and> prv m' a = prv m a"
    by (simp add: nxt_def prv_def)
qed

section \<open>What each operation does to the links\<close>

lemma set_nxt_out: "x \<notin> region a 8 \<Longrightarrow> set_nxt m a v x = m x"
  using region_lo by (auto simp: set_nxt_def intro: st32_out)

lemma set_prv_out: "x \<notin> region a 8 \<Longrightarrow> set_prv m a v x = m x"
  using region_hi by (auto simp: set_prv_def intro: st32_out)

lemma link_init_out: "x \<notin> region l 8 \<Longrightarrow> link_init l m x = m x"
  by (simp add: link_init_def Let_def set_nxt_out set_prv_out)

lemma list_insert_after_out:
  assumes "x \<notin> region new 8" "x \<notin> region lst 8" "x \<notin> region (nxt m lst) 8"
  shows "list_insert_after new lst m x = m x"
  using assms by (simp add: list_insert_after_def Let_def set_nxt_out set_prv_out)

lemma list_insert_before_out:
  assumes "x \<notin> region new 8" "x \<notin> region lst 8" "x \<notin> region (prv m lst) 8"
  shows "list_insert_before new lst m x = m x"
  using assms by (simp add: list_insert_before_def Let_def set_nxt_out set_prv_out)

lemma list_remove_out:
  assumes "x \<notin> region l 8" "x \<notin> region (nxt m l) 8" "x \<notin> region (prv m l) 8"
  shows "list_remove l m x = m x"
  using assms by (simp add: list_remove_def Let_def set_nxt_out set_prv_out)

lemma insert_after_links:
  assumes "wsep S" "new \<in> S" "lst \<in> S" "nxt m lst \<in> S" "a \<in> S" "new \<noteq> lst"
  shows "nxt (list_insert_after new lst m) a
           = (if a = lst then new else if a = new then nxt m lst else nxt m a)"
    and "prv (list_insert_after new lst m) a
           = (if a = new then lst else if a = nxt m lst then new else prv m a)"
  using assms by (simp_all add: list_insert_after_def wsep_links [of S] Let_def)

lemma insert_before_links:
  assumes "wsep S" "new \<in> S" "lst \<in> S" "prv m lst \<in> S" "a \<in> S"
  shows "nxt (list_insert_before new lst m) a
           = (if a = prv m lst then new else if a = new then lst else nxt m a)"
    and "prv (list_insert_before new lst m) a
           = (if a = new then prv m lst else if a = lst then new else prv m a)"
  using assms by (simp_all add: list_insert_before_def wsep_links [of S] Let_def)

lemma remove_links:
  assumes "wsep S" "l \<in> S" "nxt m l \<in> S" "prv m l \<in> S" "a \<in> S"
  shows "nxt (list_remove l m) a
           = (if a = l then l else if a = prv m l then nxt m l else nxt m a)"
    and "prv (list_remove l m) a
           = (if a = l then l else if a = nxt m l then prv m l else prv m a)"
  using assms by (simp_all add: list_remove_def wsep_links [of S] Let_def)

section \<open>The operations on rings\<close>

lemma dll_link_init [simp]: "dll (link_init h m) h []"
proof -
  have "wsep {h}" by (simp add: wsep_def)
  then show ?thesis by (simp add: dll_def linked_def link_init_def wsep_links [of "{h}"])
qed

lemma dll_empty_iff: "dll m h xs \<Longrightarrow> list_empty h m \<longleftrightarrow> xs = []"
  using dll_head [of m h xs] by (cases xs) (auto simp: list_empty_def dll_def)

lemma dll_insert_after_head:
  assumes d: "dll m h xs" and S: "wsep S" "set (h # xs) \<subseteq> S" "n \<in> S" and n: "n \<notin> set (h # xs)"
  shows "dll (list_insert_after n h m) h (n # xs)"
proof -
  let ?m = "list_insert_after n h m" and ?f = "nxt m h"
  have f: "?f = hd (xs @ [h])" using dll_head [OF d] by simp
  then have fS: "?f \<in> S" and fx: "?f \<in> set (h # xs)" using S by (cases xs; auto)+
  note eff = insert_after_links [OF S(1) S(3) _ fS]
  have hS: "h \<in> S" "n \<noteq> h" using S n by auto
  have s: "successively (linked m) (h # xs @ [h])" "distinct (h # xs)"
    using d by (simp_all add: dll_def)
  have "linked ?m h n" "linked ?m n ?f"
    using eff [of h] eff [of n] eff [of ?f] hS S fS fx n by (auto simp: linked_def)
  moreover have "successively (linked ?m) (xs @ [h])"
  proof (rule successively_weaken)
    show "successively (linked m) (xs @ [h])"
      using s by (cases xs) (auto simp: successively_Cons)
    fix u v assume "u \<in> set (butlast (xs @ [h]))" "v \<in> set (tl (xs @ [h]))" "linked m u v"
    then have u: "u \<in> set xs" and v: "v \<in> set (h # xs)" and "v \<noteq> ?f" and l: "linked m u v"
      using s f by (cases xs; auto)+
    have uv: "u \<in> S" "v \<in> S" "u \<noteq> h" "u \<noteq> n" "v \<noteq> n"
      using u v S n s by auto
    show "linked ?m u v"
      using eff(1) [of u] eff(2) [of v] uv hS \<open>v \<noteq> ?f\<close> l by (simp add: linked_def)
  qed
  ultimately have "successively (linked ?m) (h # n # xs @ [h])"
    using f by (cases xs) (auto simp: successively_Cons)
  then show ?thesis using n s by (auto simp: dll_def)
qed

lemma dll_insert_before_head:
  assumes d: "dll m h xs" and S: "wsep S" "set (h # xs) \<subseteq> S" "n \<in> S" and n: "n \<notin> set (h # xs)"
  shows "dll (list_insert_before n h m) h (xs @ [n])"
proof -
  let ?m = "list_insert_before n h m" and ?p = "prv m h"
  have p: "?p = last (h # xs)" using dll_head [OF d] by simp
  then have px: "?p \<in> set (h # xs)" by (metis last_in_set list.distinct(1))
  then have pS: "?p \<in> S" using S by blast
  note eff = insert_before_links [OF S(1) S(3) _ pS]
  have hS: "h \<in> S" "n \<noteq> h" "n \<noteq> ?p" using S n px by auto
  have s: "successively (linked m) ((h # xs) @ [h])" "distinct (h # xs)"
    using d by (simp_all add: dll_def)
  have new: "linked ?m ?p n" "linked ?m n h"
    using eff [of ?p] eff [of n] eff [of h] hS S pS by (auto simp: linked_def)
  moreover have "successively (linked ?m) (h # xs)"
  proof (rule successively_weaken)
    show "successively (linked m) (h # xs)"
      using s(1) by (simp only: successively_append_iff)
    fix u v assume uv: "u \<in> set (butlast (h # xs))" "v \<in> set (tl (h # xs))" and l: "linked m u v"
    then have "u \<in> set (h # xs)" "v \<in> set xs"
      by (auto dest: in_set_butlastD split: if_splits)
    moreover have "u \<noteq> ?p"
    proof
      assume "u = ?p"
      with uv(1) p have "last (h # xs) \<in> set (butlast (h # xs))" by simp
      then show False using s(2)
        by (metis append_butlast_last_id distinct_append disjoint_insert(1) list.distinct(1)
            list.set(2) list.set_intros(1) disjoint_iff)
    qed
    ultimately have "u \<in> S" "v \<in> S" "u \<noteq> n" "v \<noteq> n" "v \<noteq> h" "u \<noteq> ?p"
      using S n s by auto
    then show "linked ?m u v"
      using eff(1) [of u] eff(2) [of v] hS l by (simp add: linked_def)
  qed
  ultimately have "successively (linked ?m) ((h # xs) @ [n, h])"
    using p by (simp only: successively_append_iff successively.simps list.sel) simp
  then show ?thesis using n s by (auto simp: dll_def)
qed

lemma dll_remove:
  assumes d: "dll m h (as @ x # bs)" and S: "wsep S" "set (h # as @ x # bs) \<subseteq> S"
  shows "dll (list_remove x m) h (as @ bs)" "linked (list_remove x m) x x"
proof -
  let ?m = "list_remove x m" and ?p = "prv m x" and ?q = "nxt m x"
  have p: "?p = last (h # as)" and q: "?q = hd (bs @ [h])"
    using dll_member [OF d] by simp_all
  have pq: "?p \<in> set (h # as)" "?q \<in> set (bs @ [h])"
    using p q by (metis last_in_set list.distinct(1), metis hd_in_set snoc_eq_iff_butlast)
  then have S': "?p \<in> S" "?q \<in> S" "x \<in> S" using S by auto
  note eff = remove_links [OF S(1) S'(3) S'(2) S'(1)]
  have dist: "distinct (h # as @ x # bs)"
    and s: "successively (linked m) ((h # as) @ x # (bs @ [h]))"
    using d by (simp_all add: dll_def)
  show "linked ?m x x" using eff [of x] S' by (simp add: linked_def)
  have sA: "successively (linked m) (h # as)" and "successively (linked m) (x # (bs @ [h]))"
    using s by (simp_all only: successively_append_iff)
  moreover have "bs @ [h] \<noteq> []" by simp
  ultimately have sB: "successively (linked m) (bs @ [h])"
    unfolding successively_Cons by blast
  have "successively (linked ?m) (h # as)"
  proof (rule successively_weaken [OF sA])
    fix u v assume uv: "u \<in> set (butlast (h # as))" "v \<in> set (tl (h # as))" and l: "linked m u v"
    have "u \<noteq> ?p"
    proof
      assume "u = ?p"
      with uv(1) p have "last (h # as) \<in> set (butlast (h # as))" by simp
      moreover have "distinct (h # as)" using dist by auto
      ultimately show False
        by (metis append_butlast_last_id distinct_append disjoint_iff list.distinct(1)
            list.set_intros(1))
    qed
    moreover have "u \<in> set (h # as)" "v \<in> set as"
      using uv by (auto dest: in_set_butlastD split: if_splits)
    moreover have "v \<noteq> ?q" using pq(2) \<open>v \<in> set as\<close> dist by auto
    ultimately show "linked ?m u v"
      using eff(1) [of u] eff(2) [of v] l S(2) dist by (auto simp: linked_def)
  qed
  moreover have "successively (linked ?m) (bs @ [h])"
  proof (rule successively_weaken [OF sB])
    fix u v assume uv: "u \<in> set (butlast (bs @ [h]))" "v \<in> set (tl (bs @ [h]))" and l: "linked m u v"
    then have u: "u \<in> set bs" by simp
    have "v \<noteq> ?q" using uv(2) q dist by (cases bs) auto
    moreover have "v \<in> set bs \<or> v = h" using uv(2) by (cases bs) auto
    moreover have "u \<noteq> ?p" using u pq(1) dist by auto
    ultimately show "linked ?m u v"
      using eff(1) [of u] eff(2) [of v] l S(2) dist u by (auto simp: linked_def)
  qed
  moreover have "linked ?m ?p ?q"
  proof -
    have "?p \<noteq> x" "?q \<noteq> x" using pq dist by auto
    then show ?thesis using eff(1) [of ?p] eff(2) [of ?q] S' by (simp add: linked_def)
  qed
  ultimately have "successively (linked ?m) ((h # as) @ (bs @ [h]))"
    using p q by (simp only: successively_append_iff) simp
  then show "dll ?m h (as @ bs)" using dist by (auto simp: dll_def)
qed

text \<open>Rings that share no link with the one an operation works on are left alone.\<close>

lemma dll_insert_after_other:
  assumes "dll m h xs" "dll m k ys" "wsep S" "set (h # xs) \<union> set (k # ys) \<subseteq> S" "n \<in> S"
    "n \<notin> set (k # ys)" "n \<noteq> h" "set (h # xs) \<inter> set (k # ys) = {}"
  shows "dll (list_insert_after n h m) k ys"
proof (rule dll_cong [OF assms(2)])
  fix a assume a: "a \<in> set (k # ys)"
  have f: "nxt m h \<in> set (h # xs)" using dll_head [OF assms(1)] by (cases xs) auto
  have h: "h \<in> set (h # xs)" by simp
  have "h \<in> S" "nxt m h \<in> S" "a \<in> S" "a \<noteq> h" "a \<noteq> nxt m h" "a \<noteq> n"
    using f h a assms(4,6,8) by blast+
  then show "nxt (list_insert_after n h m) a = nxt m a \<and> prv (list_insert_after n h m) a = prv m a"
    using insert_after_links [OF assms(3,5), of h m a] assms(7) by simp
qed

lemma dll_insert_before_other:
  assumes "dll m h xs" "dll m k ys" "wsep S" "set (h # xs) \<union> set (k # ys) \<subseteq> S" "n \<in> S"
    "n \<notin> set (k # ys)" "n \<noteq> h" "set (h # xs) \<inter> set (k # ys) = {}"
  shows "dll (list_insert_before n h m) k ys"
proof (rule dll_cong [OF assms(2)])
  fix a assume a: "a \<in> set (k # ys)"
  have f: "prv m h \<in> set (h # xs)"
    using dll_head [OF assms(1)] by (metis last_in_set list.distinct(1))
  have h: "h \<in> set (h # xs)" by simp
  have "h \<in> S" "prv m h \<in> S" "a \<in> S" "a \<noteq> h" "a \<noteq> prv m h" "a \<noteq> n"
    using f h a assms(4,6,8) by blast+
  then show "nxt (list_insert_before n h m) a = nxt m a \<and> prv (list_insert_before n h m) a = prv m a"
    using insert_before_links [OF assms(3,5), of h m a] by simp
qed

lemma dll_remove_other:
  assumes "dll m h (as @ x # bs)" "dll m k ys" "wsep S" "set (h # as @ x # bs) \<union> set (k # ys) \<subseteq> S"
    "set (h # as @ x # bs) \<inter> set (k # ys) = {}"
  shows "dll (list_remove x m) k ys"
proof (rule dll_cong [OF assms(2)])
  fix a assume a: "a \<in> set (k # ys)"
  let ?X = "set (h # as @ x # bs)"
  have q: "nxt m x \<in> ?X" using dll_member(1) [OF assms(1)] by (cases bs) auto
  have p: "prv m x \<in> ?X" using dll_member(2) [OF assms(1)] by (cases as rule: rev_cases) auto
  have x: "x \<in> ?X" by simp
  have "x \<in> S" "nxt m x \<in> S" "prv m x \<in> S" "a \<in> S" "a \<noteq> x" "a \<noteq> nxt m x" "a \<noteq> prv m x"
    using p q x a assms(4,5) by blast+
  then show "nxt (list_remove x m) a = nxt m a \<and> prv (list_remove x m) a = prv m a"
    using remove_links [OF assms(3), of x m a] by simp
qed

section \<open>The interface\<close>

text \<open>
  What the clients of the list header rely on: \<open>rep m h xs\<close> says that the ring at head \<open>h\<close>
  holds the links \<open>xs\<close>, \<open>sep\<close> that a set of links does not overlap. A family of disjoint rings
  (the free areas of the page allocator, the hash chains of the disk cache, the run queues) is
  then updated at one index at a time.
\<close>

locale link_ring =
  fixes ins_after ins_before :: "'a \<Rightarrow> 'a \<Rightarrow> 'm \<Rightarrow> 'm"
    and rem :: "'a \<Rightarrow> 'm \<Rightarrow> 'm"
    and rep :: "'m \<Rightarrow> 'a \<Rightarrow> 'a list \<Rightarrow> bool"
    and sep :: "'a set \<Rightarrow> bool"
  assumes rep_distinct: "rep m h xs \<Longrightarrow> distinct (h # xs)"
    and ins_after_rep: "rep m h xs \<Longrightarrow> sep S \<Longrightarrow> set (h # xs) \<subseteq> S \<Longrightarrow> n \<in> S \<Longrightarrow> n \<notin> set (h # xs) \<Longrightarrow>
      rep (ins_after n h m) h (n # xs)"
    and ins_before_rep: "rep m h xs \<Longrightarrow> sep S \<Longrightarrow> set (h # xs) \<subseteq> S \<Longrightarrow> n \<in> S \<Longrightarrow> n \<notin> set (h # xs) \<Longrightarrow>
      rep (ins_before n h m) h (xs @ [n])"
    and rem_rep: "rep m h (as @ x # bs) \<Longrightarrow> sep S \<Longrightarrow> set (h # as @ x # bs) \<subseteq> S \<Longrightarrow>
      rep (rem x m) h (as @ bs)"
    and ins_after_other: "rep m h xs \<Longrightarrow> rep m k ys \<Longrightarrow> sep S \<Longrightarrow> set (h # xs) \<union> set (k # ys) \<subseteq> S \<Longrightarrow>
      n \<in> S \<Longrightarrow> n \<notin> set (k # ys) \<Longrightarrow> n \<noteq> h \<Longrightarrow> set (h # xs) \<inter> set (k # ys) = {} \<Longrightarrow>
      rep (ins_after n h m) k ys"
    and ins_before_other: "rep m h xs \<Longrightarrow> rep m k ys \<Longrightarrow> sep S \<Longrightarrow> set (h # xs) \<union> set (k # ys) \<subseteq> S \<Longrightarrow>
      n \<in> S \<Longrightarrow> n \<notin> set (k # ys) \<Longrightarrow> n \<noteq> h \<Longrightarrow> set (h # xs) \<inter> set (k # ys) = {} \<Longrightarrow>
      rep (ins_before n h m) k ys"
    and rem_other: "rep m h (as @ x # bs) \<Longrightarrow> rep m k ys \<Longrightarrow> sep S \<Longrightarrow>
      set (h # as @ x # bs) \<union> set (k # ys) \<subseteq> S \<Longrightarrow>
      set (h # as @ x # bs) \<inter> set (k # ys) = {} \<Longrightarrow> rep (rem x m) k ys"
begin

lemma move_to_front:
  assumes "rep m h (as @ x # bs)" "sep S" "set (h # as @ x # bs) \<subseteq> S"
  shows "rep (ins_after x h (rem x m)) h (x # as @ bs)"
proof (rule ins_after_rep)
  show "rep (rem x m) h (as @ bs)" using assms by (rule rem_rep)
  show "x \<notin> set (h # as @ bs)" using rep_distinct [OF assms(1)] by auto
qed (use assms in auto)

lemma move_to_back:
  assumes "rep m h (as @ x # bs)" "sep S" "set (h # as @ x # bs) \<subseteq> S"
  shows "rep (ins_before x h (rem x m)) h (as @ bs @ [x])"
proof -
  have "rep (ins_before x h (rem x m)) h ((as @ bs) @ [x])"
  proof (rule ins_before_rep)
    show "rep (rem x m) h (as @ bs)" using assms by (rule rem_rep)
    show "x \<notin> set (h # as @ bs)" using rep_distinct [OF assms(1)] by auto
  qed (use assms in auto)
  then show ?thesis by simp
qed

text \<open>One ring of a family changes.\<close>

lemma family_ins_after:
  assumes fam: "\<forall>i<N. rep m (hed i) (R i) \<and> set (hed i # R i) \<subseteq> S"
    "\<forall>i<N. \<forall>j<N. i \<noteq> j \<longrightarrow> set (hed i # R i) \<inter> set (hed j # R j) = {}"
    and n: "sep S" "n \<in> S" "\<forall>i<N. n \<notin> set (hed i # R i)" and i: "i < N"
  shows "\<forall>j<N. rep (ins_after n (hed i) m) (hed j) ((R(i := n # R i)) j) \<and>
      set (hed j # (R(i := n # R i)) j) \<subseteq> S"
    and "\<forall>j<N. \<forall>k<N. j \<noteq> k \<longrightarrow>
      set (hed j # (R(i := n # R i)) j) \<inter> set (hed k # (R(i := n # R i)) k) = {}"
proof -
  show "\<forall>j<N. rep (ins_after n (hed i) m) (hed j) ((R(i := n # R i)) j) \<and>
      set (hed j # (R(i := n # R i)) j) \<subseteq> S"
  proof (intro allI impI)
    fix j assume j: "j < N"
    have Ri: "rep m (hed i) (R i)" "set (hed i # R i) \<subseteq> S" "n \<notin> set (hed i # R i)"
      and Rj: "rep m (hed j) (R j)" "set (hed j # R j) \<subseteq> S" "n \<notin> set (hed j # R j)"
      using fam(1) n(3) i j by blast+
    show "rep (ins_after n (hed i) m) (hed j) ((R(i := n # R i)) j) \<and> set (hed j # (R(i := n # R i)) j) \<subseteq> S"
    proof (cases "j = i")
      case True
      then show ?thesis using ins_after_rep [OF Ri(1) n(1) Ri(2) n(2) Ri(3)] Ri(2) n(2) by auto
    next
      case False
      then have "set (hed i # R i) \<inter> set (hed j # R j) = {}" using fam(2) i j by blast
      moreover have "set (hed i # R i) \<union> set (hed j # R j) \<subseteq> S" using Ri(2) Rj(2) by blast
      moreover have "n \<noteq> hed i" using Ri(3) by auto
      ultimately show ?thesis
        using ins_after_other [OF Ri(1) Rj(1) n(1) _ n(2) Rj(3)] Rj(2) False by simp
    qed
  qed
  show "\<forall>j<N. \<forall>k<N. j \<noteq> k \<longrightarrow>
      set (hed j # (R(i := n # R i)) j) \<inter> set (hed k # (R(i := n # R i)) k) = {}"
  proof (intro allI impI)
    fix j k assume jk: "j < N" "k < N" "j \<noteq> k"
    then have "set (hed j # R j) \<inter> set (hed k # R k) = {}" "n \<notin> set (hed j # R j)" "n \<notin> set (hed k # R k)"
      using fam(2) n(3) by blast+
    then show "set (hed j # (R(i := n # R i)) j) \<inter> set (hed k # (R(i := n # R i)) k) = {}"
      using jk(3) by auto
  qed
qed

lemma family_rem:
  assumes fam: "\<forall>i<N. rep m (hed i) (R i) \<and> set (hed i # R i) \<subseteq> S"
    "\<forall>i<N. \<forall>j<N. i \<noteq> j \<longrightarrow> set (hed i # R i) \<inter> set (hed j # R j) = {}"
    and n: "sep S" and i: "i < N" and Ri: "R i = as @ x # bs"
  shows "\<forall>j<N. rep (rem x m) (hed j) ((R(i := as @ bs)) j) \<and> set (hed j # (R(i := as @ bs)) j) \<subseteq> S"
    and "\<forall>j<N. \<forall>k<N. j \<noteq> k \<longrightarrow>
      set (hed j # (R(i := as @ bs)) j) \<inter> set (hed k # (R(i := as @ bs)) k) = {}"
proof -
  have ri: "rep m (hed i) (as @ x # bs)" "set (hed i # as @ x # bs) \<subseteq> S"
    using fam(1) i Ri by metis+
  show "\<forall>j<N. rep (rem x m) (hed j) ((R(i := as @ bs)) j) \<and> set (hed j # (R(i := as @ bs)) j) \<subseteq> S"
  proof (intro allI impI)
    fix j assume j: "j < N"
    then have rj: "rep m (hed j) (R j)" "set (hed j # R j) \<subseteq> S" using fam(1) by blast+
    show "rep (rem x m) (hed j) ((R(i := as @ bs)) j) \<and> set (hed j # (R(i := as @ bs)) j) \<subseteq> S"
    proof (cases "j = i")
      case True
      then show ?thesis using rem_rep [OF ri(1) n ri(2)] ri(2) by auto
    next
      case False
      then have "set (hed i # as @ x # bs) \<inter> set (hed j # R j) = {}" using fam(2) i j Ri by metis
      moreover have "set (hed i # as @ x # bs) \<union> set (hed j # R j) \<subseteq> S" using ri(2) rj(2) by blast
      ultimately show ?thesis using rem_other [OF ri(1) rj(1) n] rj(2) False by simp
    qed
  qed
  have "set (hed j # (R(i := as @ bs)) j) \<subseteq> set (hed j # R j)" for j
    using Ri by auto
  then show "\<forall>j<N. \<forall>k<N. j \<noteq> k \<longrightarrow>
      set (hed j # (R(i := as @ bs)) j) \<inter> set (hed k # (R(i := as @ bs)) k) = {}"
    using fam(2) by blast
qed

end

interpretation lr: link_ring list_insert_after list_insert_before list_remove dll wsep
proof unfold_locales
  show "dll m h xs \<Longrightarrow> distinct (h # xs)" for m h xs by (simp add: dll_def)
qed (fact dll_insert_after_head dll_insert_before_head dll_remove(1) dll_insert_after_other
    dll_insert_before_other dll_remove_other)+

end
