(* ===== verification/BuddySpec.thy ===== *)
theory BuddySpec
  imports Prelude
begin

text \<open>
  The abstract specification of the page allocator of \<open>kernel/mm.c\<close>. A free-list state \<open>R\<close>
  gives, for each order \<open>o\<close>, the page indices of the free blocks of \<open>2 ^ o\<close> pages. \<open>afree\<close> and
  \<open>aalloc\<close> are the buddy algorithm on this state; they keep the blocks aligned, in range,
  disjoint and fully merged, and change the set of free pages by exactly the block concerned.
  A fully merged state is determined by its set of free pages, and allocation fails only when
  no aligned run of free pages of the requested size is left.
\<close>

type_synonym freelists = "nat \<Rightarrow> nat list"

section \<open>Blocks and buddies\<close>

definition blk :: "nat \<Rightarrow> nat \<Rightarrow> nat set" where
  "blk i k = {i..<i + 2 ^ k}"

definition bud :: "nat \<Rightarrow> nat \<Rightarrow> nat" where
  "bud i k = (if even (i div 2 ^ k) then i + 2 ^ k else i - 2 ^ k)"

definition parent :: "nat \<Rightarrow> nat \<Rightarrow> nat" where
  "parent i k = i - i mod 2 ^ Suc k"

lemma blk_nonempty [simp]: "blk i k \<noteq> {}"
  by (simp add: blk_def)

lemma blk_self [simp]: "i \<in> blk i k"
  by (simp add: blk_def)

lemma blk_bound:
  assumes "\<And>x. x \<in> blk j k \<Longrightarrow> x < n"
  shows "j + 2 ^ k \<le> n"
proof -
  have p: "(0::nat) < 2 ^ k" by simp
  then have "j + (2 ^ k - 1) \<in> blk j k" unfolding blk_def atLeastLessThan_iff by linarith
  then have "j + (2 ^ k - 1) < n" by (rule assms)
  then show ?thesis using p by linarith
qed

text \<open>An aligned block is the lower or the upper half of its parent.\<close>

lemma halves:
  assumes "2 ^ k dvd i"
  obtains j where "i = j * 2 ^ Suc k" "bud i k = i + 2 ^ k" "parent i k = i"
  | j where "i = j * 2 ^ Suc k + 2 ^ k" "bud i k = j * 2 ^ Suc k" "parent i k = j * 2 ^ Suc k"
proof -
  from assms obtain q where q: "i = q * 2 ^ k" by (metis dvd_def mult.commute)
  show ?thesis
  proof (cases "even q")
    case True
    then obtain j where j: "q = 2 * j" by blast
    have "i mod 2 ^ Suc k = 0" by (simp add: q j)
    then show ?thesis using q j by (intro that(1) [of j]) (simp_all add: bud_def parent_def)
  next
    case False
    then obtain j where j: "q = 2 * j + 1" by (metis oddE)
    have i: "i = j * 2 ^ Suc k + 2 ^ k" by (simp add: q j algebra_simps)
    have "i mod 2 ^ Suc k = 2 ^ k" by (simp add: i)
    then show ?thesis using q j i by (intro that(2) [of j]) (simp_all add: bud_def parent_def)
  qed
qed

lemma bud_dvd: "2 ^ k dvd i \<Longrightarrow> 2 ^ k dvd bud i k"
  by (rule halves [of k i]) auto

lemma bud_bud [simp]: "2 ^ k dvd i \<Longrightarrow> bud (bud i k) k = i"
  by (erule halves) (auto simp: bud_def)

lemma bud_neq: "2 ^ k dvd i \<Longrightarrow> bud i k \<noteq> i"
  by (erule halves) auto

lemma parent_dvd: "2 ^ Suc k dvd parent i k"
  by (simp add: parent_def dvd_minus_mod del: power_Suc)

lemma blk_parent:
  assumes "2 ^ k dvd i"
  shows "blk (parent i k) (Suc k) = blk i k \<union> blk (bud i k) k"
  using assms by (cases rule: halves) (auto simp: blk_def)

lemma blk_bud_disjoint: "2 ^ k dvd i \<Longrightarrow> blk i k \<inter> blk (bud i k) k = {}"
  by (erule halves) (auto simp: blk_def)

lemma lower_half:
  assumes "2 ^ Suc k dvd i"
  shows "2 ^ k dvd i" "2 ^ k dvd i + 2 ^ k" "bud i k = i + 2 ^ k"
    "blk i (Suc k) = blk i k \<union> blk (i + 2 ^ k) k" "blk i k \<inter> blk (i + 2 ^ k) k = {}"
proof -
  show al: "2 ^ k dvd i" using assms by (rule dvd_trans [rotated]) (simp add: le_imp_power_dvd)
  then show "2 ^ k dvd i + 2 ^ k" by simp
  have "i mod 2 ^ Suc k = 0" using assms by (simp only: dvd_imp_mod_0)
  then have p: "parent i k = i" by (simp only: parent_def diff_zero)
  show b: "bud i k = i + 2 ^ k"
  proof (cases rule: halves [OF al])
    case (2 j)
    then show ?thesis using p by simp
  qed
  show "blk i (Suc k) = blk i k \<union> blk (i + 2 ^ k) k" using blk_parent [OF al] p b by simp
  show "blk i k \<inter> blk (i + 2 ^ k) k = {}" using blk_bud_disjoint [OF al] b by simp
qed

lemma parent_bound:
  assumes "2 ^ k dvd i" "i + 2 ^ k \<le> n" "bud i k + 2 ^ k \<le> n"
  shows "parent i k + 2 ^ Suc k \<le> n"
  using assms by (cases rule: halves) auto

lemma blk_nest:
  assumes "2 ^ a dvd i" "2 ^ c dvd j" "a \<le> c" "blk i a \<inter> blk j c \<noteq> {}"
  shows "blk i a \<subseteq> blk j c"
proof -
  obtain q where q: "i = q * 2 ^ a" using assms(1) by (metis dvd_def mult.commute)
  have "(2::nat) ^ c = 2 ^ (c - a) * 2 ^ a" using assms(3) by (simp flip: power_add)
  moreover obtain p where "j = p * 2 ^ c" using assms(2) by (metis dvd_def mult.commute)
  ultimately have j: "j = (p * 2 ^ (c - a)) * 2 ^ a" and
    jc: "j + 2 ^ c = (p * 2 ^ (c - a) + 2 ^ (c - a)) * 2 ^ a" by (simp_all add: algebra_simps)
  from assms(4) obtain x where "x \<in> blk i a" "x \<in> blk j c" by blast
  then have x: "i \<le> x" "x < i + 2 ^ a" "j \<le> x" "x < j + 2 ^ c" by (auto simp: blk_def)
  have "p * 2 ^ (c - a) * 2 ^ a < (q + 1) * 2 ^ a" using x q j by simp
  then have 1: "p * 2 ^ (c - a) \<le> q" by (metis Suc_eq_plus1 less_Suc_eq_le mult_less_cancel2)
  have "q * 2 ^ a < (p * 2 ^ (c - a) + 2 ^ (c - a)) * 2 ^ a" using x q jc by linarith
  then have "Suc q \<le> p * 2 ^ (c - a) + 2 ^ (c - a)" by (metis Suc_leI mult_less_cancel2)
  then have "Suc q * 2 ^ a \<le> j + 2 ^ c" unfolding jc by (rule mult_le_mono1)
  moreover have "j \<le> i" using 1 unfolding q j by (rule mult_le_mono1)
  ultimately show ?thesis by (auto simp: blk_def q)
qed

section \<open>Well-formed, fully merged free lists\<close>

definition wf_free :: "nat \<Rightarrow> freelists \<Rightarrow> bool" where
  "wf_free n R \<longleftrightarrow>
     (\<forall>k. distinct (R k)) \<and>
     (\<forall>k. \<forall>i\<in>set (R k). k \<le> 10 \<and> 2 ^ k dvd i \<and> i + 2 ^ k \<le> n) \<and>
     (\<forall>k l i j x. i \<in> set (R k) \<and> j \<in> set (R l) \<and> x \<in> blk i k \<and> x \<in> blk j l \<longrightarrow> k = l \<and> i = j)"

definition merged :: "freelists \<Rightarrow> bool" where
  "merged R \<longleftrightarrow> (\<forall>k<10. \<forall>i\<in>set (R k). bud i k \<notin> set (R k))"

definition free_set :: "freelists \<Rightarrow> nat set" where
  "free_set R = (\<Union>k. \<Union>i\<in>set (R k). blk i k)"

definition free_cnt :: "freelists \<Rightarrow> nat" where
  "free_cnt R = (\<Sum>k\<le>10. 2 ^ k * length (R k))"

lemma wf_freeD:
  assumes "wf_free n R" "i \<in> set (R k)"
  shows "k \<le> 10" "2 ^ k dvd i" "i + 2 ^ k \<le> n" "distinct (R k)"
  using assms by (auto simp: wf_free_def)

lemma wf_free_same:
  "wf_free n R \<Longrightarrow> i \<in> set (R k) \<Longrightarrow> j \<in> set (R l) \<Longrightarrow> x \<in> blk i k \<Longrightarrow> x \<in> blk j l \<Longrightarrow> k = l \<and> i = j"
  unfolding wf_free_def by blast

lemma in_free_set: "x \<in> free_set R \<longleftrightarrow> (\<exists>k i. i \<in> set (R k) \<and> x \<in> blk i k)"
  by (auto simp: free_set_def)

lemma blk_free: "i \<in> set (R k) \<Longrightarrow> blk i k \<subseteq> free_set R"
  by (auto simp: free_set_def)

lemma free_set_bound: "wf_free n R \<Longrightarrow> x \<in> free_set R \<Longrightarrow> x < n"
  by (fastforce simp: free_set_def blk_def dest: wf_freeD(3))

lemma set_upd_remove:
  assumes "distinct (R k)"
  shows "j \<in> set ((R(k := remove1 i (R k))) l) \<longleftrightarrow> j \<in> set (R l) \<and> \<not> (l = k \<and> j = i)"
  using assms by auto

lemma set_upd_insert: "j \<in> set ((R(k := i # R k)) l) \<longleftrightarrow> j \<in> set (R l) \<or> l = k \<and> j = i"
  by auto

lemma wf_free_remove:
  assumes "wf_free n R"
  shows "wf_free n (R(k := remove1 i (R k)))"
proof -
  have "distinct (R k)" using assms by (simp add: wf_free_def)
  note upd = set_upd_remove [where R = R, OF this]
  have "distinct ((R(k := remove1 i (R k))) l)" for l
    using assms by (simp add: wf_free_def)
  then show ?thesis
    using assms unfolding wf_free_def Ball_def upd by blast
qed

lemma merged_remove: "merged R \<Longrightarrow> merged (R(k := remove1 i (R k)))"
  unfolding merged_def by (metis fun_upd_apply notin_set_remove1)

lemma free_set_remove:
  assumes "wf_free n R" "i \<in> set (R k)"
  shows "free_set (R(k := remove1 i (R k))) = free_set R - blk i k"
  unfolding set_eq_iff Diff_iff in_free_set set_upd_remove [where R = R, OF wf_freeD(4) [OF assms]]
  using wf_free_same [OF assms(1)] assms(2) by blast

lemma free_cnt_upd:
  "k \<le> 10 \<Longrightarrow> free_cnt (R(k := xs)) + 2 ^ k * length (R k) = free_cnt R + 2 ^ k * length xs"
proof -
  assume k: "k \<le> 10"
  have "free_cnt (R(k := xs)) = 2 ^ k * length xs + (\<Sum>l\<in>{..10} - {k}. 2 ^ l * length (R l))"
    unfolding free_cnt_def by (subst sum.remove [of _ k]) (use k in \<open>auto intro!: sum.cong\<close>)
  moreover have "free_cnt R = 2 ^ k * length (R k) + (\<Sum>l\<in>{..10} - {k}. 2 ^ l * length (R l))"
    unfolding free_cnt_def by (subst sum.remove [of _ k]) (use k in auto)
  ultimately show ?thesis by simp
qed

lemma free_cnt_remove:
  assumes "wf_free n R" "i \<in> set (R k)"
  shows "free_cnt (R(k := remove1 i (R k))) + 2 ^ k = free_cnt R"
proof -
  have "k \<le> 10" by (rule wf_freeD(1) [OF assms])
  obtain l where "length (R k) = Suc l" using assms(2) by (cases "R k") auto
  then show ?thesis
    using free_cnt_upd [OF \<open>k \<le> 10\<close>, of R "remove1 i (R k)"] assms(2)
    by (simp add: length_remove1)
qed

lemma free_cnt_insert: "k \<le> 10 \<Longrightarrow> free_cnt (R(k := i # R k)) = free_cnt R + 2 ^ k"
  using free_cnt_upd [of k R "i # R k"] by simp

lemma free_set_insert: "free_set (R(k := i # R k)) = free_set R \<union> blk i k"
  unfolding set_eq_iff Un_iff in_free_set set_upd_insert by blast

lemma wf_free_insert:
  assumes "wf_free n R" "k \<le> 10" "2 ^ k dvd i" "i + 2 ^ k \<le> n" "blk i k \<inter> free_set R = {}"
  shows "wf_free n (R(k := i # R k))"
proof -
  have new: "x \<in> blk i k \<Longrightarrow> j \<in> set (R l) \<Longrightarrow> x \<notin> blk j l" for j l x
    using assms(5) blk_free [of j R l] by blast
  have "i \<notin> set (R k)" using new blk_self by blast
  then have "distinct ((R(k := i # R k)) l)" for l
    using assms(1) by (simp add: wf_free_def)
  then show ?thesis
    using assms(1-4) new unfolding wf_free_def Ball_def set_upd_insert by blast
qed

lemma merged_insert:
  assumes "merged R" "wf_free n R" "2 ^ k dvd i" "k < 10 \<Longrightarrow> bud i k \<notin> set (R k)"
  shows "merged (R(k := i # R k))"
  unfolding merged_def
proof (intro allI impI ballI)
  fix l j assume l: "l < 10" and j: "j \<in> set ((R(k := i # R k)) l)"
  then consider "l = k" "j = i" | "j \<in> set (R l)" by (auto split: if_splits)
  then show "bud j l \<notin> set ((R(k := i # R k)) l)"
  proof cases
    case 1
    then show ?thesis using assms(3,4) l by (auto simp: bud_neq)
  next
    case 2
    then have "2 ^ l dvd j" using wf_freeD(2) [OF assms(2)] by blast
    then have "l = k \<Longrightarrow> bud j l \<noteq> i" using assms(4) l 2 by auto
    then show ?thesis using assms(1) l 2 by (auto simp: merged_def)
  qed
qed

text \<open>The counter of \<open>mm.c\<close> is the number of free pages.\<close>

lemma card_free_set:
  assumes w: "wf_free n R"
  shows "card (free_set R) = free_cnt R"
proof -
  have U: "free_set R = (\<Union>k\<in>{..10}. \<Union>i\<in>set (R k). blk i k)"
    using wf_freeD(1) [OF w] unfolding free_set_def by fastforce
  have c: "card (\<Union>i\<in>set (R k). blk i k) = 2 ^ k * length (R k)" for k
  proof -
    have "card (\<Union>i\<in>set (R k). blk i k) = (\<Sum>i\<in>set (R k). card (blk i k))"
    proof (rule card_UN_disjoint)
      show "\<forall>i\<in>set (R k). \<forall>j\<in>set (R k). i \<noteq> j \<longrightarrow> blk i k \<inter> blk j k = {}"
        using wf_free_same [OF w] by blast
    qed (simp_all add: blk_def)
    also have "\<dots> = 2 ^ k * card (set (R k))" by (simp add: blk_def mult.commute)
    also have "card (set (R k)) = length (R k)" using w by (simp add: wf_free_def distinct_card)
    finally show ?thesis .
  qed
  have "card (free_set R) = (\<Sum>k\<in>{..10}. card (\<Union>i\<in>set (R k). blk i k))"
    unfolding U
  proof (rule card_UN_disjoint)
    show "\<forall>k\<in>{..10}. \<forall>l\<in>{..10}. k \<noteq> l \<longrightarrow> (\<Union>i\<in>set (R k). blk i k) \<inter> (\<Union>i\<in>set (R l). blk i l) = {}"
      using wf_free_same [OF w] by blast
  qed (simp_all add: blk_def)
  then show ?thesis by (simp add: c free_cnt_def)
qed

section \<open>Freeing a block\<close>

function afree :: "freelists \<Rightarrow> nat \<Rightarrow> nat \<Rightarrow> freelists" where
  "afree R i k =
     (if k < 10 \<and> bud i k \<in> set (R k)
      then afree (R(k := remove1 (bud i k) (R k))) (parent i k) (Suc k)
      else R(k := i # R k))"
  by pat_completeness auto
termination by (relation "measure (\<lambda>(R, i, k). 10 - k)") auto

declare afree.simps [simp del]

text \<open>A block that may be given back: aligned, in range, and with no page already free.\<close>

definition pending :: "nat \<Rightarrow> freelists \<Rightarrow> nat \<Rightarrow> nat \<Rightarrow> bool" where
  "pending n R i k \<longleftrightarrow> k \<le> 10 \<and> 2 ^ k dvd i \<and> i + 2 ^ k \<le> n \<and> blk i k \<inter> free_set R = {}"

lemma pending_merge:
  assumes "wf_free n R" "pending n R i k" "k < 10" "bud i k \<in> set (R k)"
  shows "pending n (R(k := remove1 (bud i k) (R k))) (parent i k) (Suc k)"
  using assms parent_dvd [of k i] parent_bound [of k i n] wf_freeD(3) [OF assms(1,4)]
  by (auto simp: pending_def blk_parent free_set_remove)

theorem afree_correct:
  assumes "wf_free n R" "merged R" "pending n R i k"
  shows "wf_free n (afree R i k) \<and> merged (afree R i k) \<and>
    free_set (afree R i k) = free_set R \<union> blk i k \<and>
    free_cnt (afree R i k) = free_cnt R + 2 ^ k"
  using assms
proof (induction R i k rule: afree.induct)
  case (1 R i k)
  note p = "1.prems"(3) [unfolded pending_def]
  show ?case
  proof (cases "k < 10 \<and> bud i k \<in> set (R k)")
    case True
    let ?R = "R(k := remove1 (bud i k) (R k))"
    have b: "bud i k \<in> set (R k)" using True by simp
    have ih: "wf_free n (afree ?R (parent i k) (Suc k)) \<and> merged (afree ?R (parent i k) (Suc k)) \<and>
      free_set (afree ?R (parent i k) (Suc k)) = free_set ?R \<union> blk (parent i k) (Suc k) \<and>
      free_cnt (afree ?R (parent i k) (Suc k)) = free_cnt ?R + 2 ^ Suc k"
      using True "1.prems"(3)
      by (intro "1.IH" wf_free_remove merged_remove pending_merge "1.prems"(1,2)) simp_all
    moreover have "free_set ?R \<union> blk (parent i k) (Suc k) = free_set R \<union> blk i k"
      using p free_set_remove [OF "1.prems"(1) b] blk_free [of "bud i k" R k] b
      by (auto simp: blk_parent)
    moreover have "free_cnt ?R + 2 ^ Suc k = free_cnt R + 2 ^ k"
      using free_cnt_remove [OF "1.prems"(1) b] by simp
    ultimately show ?thesis using True by (simp add: afree.simps [of R i k])
  next
    case False
    then have "afree R i k = R(k := i # R k)" unfolding afree.simps [of R i k] by (rule if_not_P)
    moreover have "wf_free n (R(k := i # R k))" using p by (intro wf_free_insert "1.prems"(1)) simp_all
    moreover have "merged (R(k := i # R k))"
      using p False by (intro merged_insert [OF "1.prems"(2,1)]) simp_all
    ultimately show ?thesis using p free_set_insert [of R k i] free_cnt_insert [of k R i] by metis
  qed
qed

section \<open>Allocating a block\<close>

function aexpand :: "freelists \<Rightarrow> nat \<Rightarrow> nat \<Rightarrow> nat \<Rightarrow> nat \<times> freelists" where
  "aexpand R i low high =
     (if low < high
      then aexpand (R(high - 1 := i # R (high - 1))) (i + 2 ^ (high - 1)) low (high - 1)
      else (i, R))"
  by pat_completeness auto
termination by (relation "measure (\<lambda>(R, i, low, high). high)") auto

declare aexpand.simps [simp del]

function aalloc_from :: "freelists \<Rightarrow> nat \<Rightarrow> nat \<Rightarrow> (nat \<times> freelists) option" where
  "aalloc_from R k c =
     (if c \<le> 10
      then (case R c of [] \<Rightarrow> aalloc_from R k (Suc c)
            | i # rest \<Rightarrow> Some (aexpand (R(c := rest)) i k c))
      else None)"
  by pat_completeness auto
termination by (relation "measure (\<lambda>(R, k, c). 11 - c)") auto

declare aalloc_from.simps [simp del]

definition aalloc :: "freelists \<Rightarrow> nat \<Rightarrow> (nat \<times> freelists) option" where
  "aalloc R k = aalloc_from R k k"

text \<open>The steps of an allocation: splitting a block, and taking the first block of a list.\<close>

lemma pending_split:
  assumes w: "wf_free n R" and m: "merged R" and p: "pending n R i (Suc h)"
  shows "wf_free n (R(h := i # R h))" "merged (R(h := i # R h))"
    "pending n (R(h := i # R h)) (i + 2 ^ h) h" "pending n R i h"
proof -
  let ?R = "R(h := i # R h)" and ?i = "i + 2 ^ h"
  note p = p [unfolded pending_def]
  have al: "2 ^ Suc h dvd i" using p by simp
  note lh = lower_half [OF this]
  have disj: "blk i h \<inter> free_set R = {}" "blk ?i h \<inter> free_set R = {}" using p lh(4) by blast+
  have nb: "bud i h \<notin> set (R h)"
    using disj(2) blk_free [of ?i R h] blk_self [of ?i h] unfolding lh(3) by blast
  show "merged ?R" by (rule merged_insert [OF m w lh(1) nb])
  show "wf_free n ?R" using p by (intro wf_free_insert w lh(1) disj(1)) simp_all
  show "pending n ?R ?i h"
    unfolding pending_def free_set_insert using p lh(2,5) disj(2) by auto
  show "pending n R i h" unfolding pending_def using p lh(1) disj(1) by auto
qed

lemma pending_take:
  assumes w: "wf_free n R" and m: "merged R" and R: "R c = i # rest"
  shows "wf_free n (R(c := rest))" "merged (R(c := rest))" "pending n (R(c := rest)) i c"
    "free_set (R(c := rest)) = free_set R - blk i c"
proof -
  have i: "i \<in> set (R c)" and rem: "remove1 i (R c) = rest" using R by simp_all
  show "wf_free n (R(c := rest))" using wf_free_remove [OF w, of c i] rem by simp
  show "merged (R(c := rest))" using merged_remove [OF m, of c i] rem by simp
  show fs: "free_set (R(c := rest)) = free_set R - blk i c"
    using free_set_remove [OF w i] rem by simp
  show "pending n (R(c := rest)) i c" using wf_freeD [OF w i] fs by (auto simp: pending_def)
qed

lemma aexpand_correct:
  assumes "wf_free n R" "merged R" "pending n R i high" "low \<le> high" "aexpand R i low high = (j, R')"
  shows "wf_free n R' \<and> merged R' \<and> 2 ^ low dvd j \<and> blk j low \<subseteq> blk i high \<and>
    free_set R' = free_set R \<union> (blk i high - blk j low) \<and>
    free_cnt R' + 2 ^ low = free_cnt R + 2 ^ high"
  using assms
proof (induction R i low high rule: aexpand.induct)
  case (1 R i low high)
  note p = "1.prems"(3) [unfolded pending_def]
  show ?case
  proof (cases "low < high")
    case False
    then have lh: "low = high" using "1.prems"(4) by simp
    then have "j = i" "R' = R" using "1.prems"(5) by (simp_all add: aexpand.simps [of R i high high])
    with lh show ?thesis using "1.prems"(1,2) p by simp
  next
    case True
    define h where "h = high - 1"
    with True have h: "high = Suc h" by simp
    let ?R = "R(h := i # R h)" and ?i = "i + 2 ^ h"
    note lh = lower_half [OF p [THEN conjunct2, THEN conjunct1, unfolded h]]
    have bd: "blk i high = blk i h \<union> blk ?i h" "blk i h \<inter> blk ?i h = {}"
      by (simp_all only: lh h)
    note sp = pending_split [OF "1.prems"(1,2,3) [unfolded h]]
    have ex: "aexpand ?R ?i low h = (j, R')"
      using "1.prems"(5) True unfolding aexpand.simps [of R i low high] h_def by (simp only: if_True)
    have lo: "low \<le> h" using True h by simp
    have "wf_free n R' \<and> merged R' \<and> 2 ^ low dvd j \<and> blk j low \<subseteq> blk ?i h \<and>
      free_set R' = free_set ?R \<union> (blk ?i h - blk j low) \<and>
      free_cnt R' + 2 ^ low = free_cnt ?R + 2 ^ h"
      by (rule "1.IH" [folded h_def, OF True sp(1-3) lo ex])
    moreover have "free_cnt ?R = free_cnt R + 2 ^ h" using p h by (intro free_cnt_insert) simp
    moreover have "free_set ?R \<union> (blk ?i h - blk j low) = free_set R \<union> (blk i high - blk j low)"
      if "blk j low \<subseteq> blk ?i h"
      using that bd free_set_insert [of R h i] by blast
    ultimately show ?thesis using bd(1) h by auto
  qed
qed

lemma aalloc_from_correct:
  assumes "wf_free n R" "merged R" "k \<le> c" "aalloc_from R k c = Some (j, R')"
  shows "wf_free n R' \<and> merged R' \<and> 2 ^ k dvd j \<and> blk j k \<subseteq> free_set R \<and>
    free_set R' = free_set R - blk j k \<and> free_cnt R' + 2 ^ k = free_cnt R"
  using assms
proof (induction R k c rule: aalloc_from.induct)
  case (1 R k c)
  have c: "c \<le> 10" using "1.prems"(4) by (auto simp: aalloc_from.simps [of R k c] split: if_splits)
  show ?case
  proof (cases "R c")
    case Nil
    then show ?thesis using "1.IH" "1.prems" c by (simp add: aalloc_from.simps [of R k c])
  next
    case (Cons i rest)
    let ?R = "R(c := rest)"
    have i: "i \<in> set (R c)" and rem: "remove1 i (R c) = rest" using Cons by simp_all
    note tk = pending_take [OF "1.prems"(1,2) Cons]
    have "aexpand ?R i k c = (j, R')"
      using "1.prems"(4) c Cons by (simp add: aalloc_from.simps [of R k c])
    then have "wf_free n R' \<and> merged R' \<and> 2 ^ k dvd j \<and> blk j k \<subseteq> blk i c \<and>
      free_set R' = free_set ?R \<union> (blk i c - blk j k) \<and>
      free_cnt R' + 2 ^ k = free_cnt ?R + 2 ^ c"
      using aexpand_correct [OF tk(1-3)] "1.prems"(3) by blast
    moreover have "free_cnt ?R + 2 ^ c = free_cnt R"
      using free_cnt_remove [OF "1.prems"(1) i] rem by simp
    moreover have "blk i c \<subseteq> free_set R" using i by (rule blk_free)
    ultimately show ?thesis using tk(4) by auto
  qed
qed

theorem aalloc_correct:
  assumes "wf_free n R" "merged R" "aalloc R k = Some (j, R')"
  shows "wf_free n R' \<and> merged R' \<and> 2 ^ k dvd j \<and> blk j k \<subseteq> free_set R \<and>
    free_set R' = free_set R - blk j k \<and> free_cnt R' + 2 ^ k = free_cnt R"
  using aalloc_from_correct [OF assms(1,2) order_refl] assms(3) by (simp add: aalloc_def)

lemma aalloc_from_None:
  "aalloc_from R k c = None \<longleftrightarrow> (\<forall>d. c \<le> d \<and> d \<le> 10 \<longrightarrow> R d = [])"
proof (induction R k c rule: aalloc_from.induct)
  case (1 R k c)
  consider "10 < c" | "c \<le> 10" "R c = []" | i rest where "c \<le> 10" "R c = i # rest"
    by (cases "R c") force+
  then show ?case
  proof cases
    case 1
    then show ?thesis by (auto simp: aalloc_from.simps [of R k c])
  next
    case 2
    then have "aalloc_from R k c = aalloc_from R k (Suc c)" by (simp add: aalloc_from.simps [of R k c])
    moreover have "(c \<le> d \<and> d \<le> 10 \<longrightarrow> R d = []) \<longleftrightarrow> (Suc c \<le> d \<and> d \<le> 10 \<longrightarrow> R d = [])" for d
      using 2 by (cases "d = c") auto
    ultimately show ?thesis using "1.IH" 2 by simp
  next
    case 3
    then have "aalloc_from R k c \<noteq> None" by (simp add: aalloc_from.simps [of R k c])
    moreover have "\<not> (c \<le> c \<and> c \<le> 10 \<longrightarrow> R c = [])" using 3 by simp
    ultimately show ?thesis by blast
  qed
qed

section \<open>Completeness and canonicity of merged free lists\<close>

text \<open>Every aligned run of free pages lies inside one free block.\<close>

lemma run_in_block:
  assumes "wf_free n R" "merged R" "k \<le> 10" "2 ^ k dvd i" "blk i k \<subseteq> free_set R"
  shows "\<exists>c j. k \<le> c \<and> j \<in> set (R c) \<and> blk i k \<subseteq> blk j c"
  using assms(3-)
proof (induction k arbitrary: i)
  case 0
  then obtain c j where "j \<in> set (R c)" "i \<in> blk j c" by (auto simp: blk_def in_free_set)
  then show ?case by (intro exI [of _ c] exI [of _ j]) (auto simp: blk_def)
next
  case (Suc k)
  note al = lower_half(1,2) [OF Suc.prems(2)] and bd = lower_half(3,4) [OF Suc.prems(2)]
  obtain c1 j1 where 1: "k \<le> c1" "j1 \<in> set (R c1)" "blk i k \<subseteq> blk j1 c1"
    using Suc.IH [of i] Suc.prems al bd by auto
  obtain c2 j2 where 2: "k \<le> c2" "j2 \<in> set (R c2)" "blk (i + 2 ^ k) k \<subseteq> blk j2 c2"
    using Suc.IH [of "i + 2 ^ k"] Suc.prems al bd by auto
  have big: "blk i (Suc k) \<subseteq> blk j c" if "Suc k \<le> c" "j \<in> set (R c)" "blk i (Suc k) \<inter> blk j c \<noteq> {}" for c j
    using blk_nest [OF Suc.prems(2) wf_freeD(2) [OF assms(1) that(2)] that(1,3)] .
  show ?case
  proof (cases "Suc k \<le> c1 \<or> Suc k \<le> c2")
    case True
    moreover have "blk i (Suc k) \<inter> blk j1 c1 \<noteq> {}" "blk i (Suc k) \<inter> blk j2 c2 \<noteq> {}"
      using 1(3) 2(3) bd(2) blk_self by blast+
    ultimately show ?thesis using big [of c1 j1] big [of c2 j2] 1(2) 2(2) by blast
  next
    case False
    then have c: "c1 = k" "c2 = k" using 1(1) 2(1) by auto
    have "j1 = i" "j2 = i + 2 ^ k" using 1(3) 2(3) c by (auto simp: blk_def)
    then have "i \<in> set (R k)" "bud i k \<in> set (R k)" using 1(2) 2(2) c bd(1) by simp_all
    moreover have "k < 10" using Suc.prems(1) by simp
    ultimately show ?thesis using assms(2) unfolding merged_def by blast
  qed
qed

theorem aalloc_complete:
  assumes "wf_free n R" "merged R" "k \<le> 10" "2 ^ k dvd i" "blk i k \<subseteq> free_set R"
  shows "\<exists>j R'. aalloc R k = Some (j, R')"
proof -
  obtain c j where "k \<le> c" "j \<in> set (R c)" using run_in_block [OF assms] by blast
  moreover have "c \<le> 10" using wf_freeD(1) [OF assms(1)] \<open>j \<in> set (R c)\<close> by blast
  ultimately have "aalloc_from R k k \<noteq> None" by (auto simp: aalloc_from_None)
  then show ?thesis by (auto simp: aalloc_def)
qed

theorem merged_canonical:
  assumes "wf_free n R" "merged R" "wf_free n R'" "merged R'" "free_set R = free_set R'"
  shows "set (R k) = set (R' k)"
proof -
  have sub: "set (R k) \<subseteq> set (R' k)"
    if w: "wf_free n R" "merged R" and w': "wf_free n R'" "merged R'" and e: "free_set R = free_set R'"
    for R R' k
  proof
    fix i assume i: "i \<in> set (R k)"
    note wi = wf_freeD [OF w(1) i]
    obtain c j where j: "k \<le> c" "j \<in> set (R' c)" "blk i k \<subseteq> blk j c"
      using run_in_block [OF w' wi(1,2)] blk_free [of i R k, OF i] e by metis
    note wj = wf_freeD [OF w'(1) j(2)]
    obtain d l where l: "c \<le> d" "l \<in> set (R d)" "blk j c \<subseteq> blk l d"
      using run_in_block [OF w wj(1,2)] blk_free [of j R' c, OF j(2)] e by metis
    have "i \<in> blk i k" "i \<in> blk l d" using j(3) l(3) blk_self by blast+
    then have "k = d" "i = l" using wf_free_same [OF w(1) i l(2)] by blast+
    then have "c = k" using j(1) l(1) by simp
    moreover have "j = i" using j(3) l(3) \<open>c = k\<close> \<open>i = l\<close> \<open>k = d\<close> by (auto simp: blk_def)
    ultimately show "i \<in> set (R' k)" using j(2) by simp
  qed
  show ?thesis using sub [OF assms] sub [OF assms(3,4,1,2)] assms(5) by blast
qed

end
