(* ===== verification/CString.thy ===== *)
theory CString
  imports Prelude
begin

text \<open>
  The string library \<open>lib/libc/string.c\<close> on byte memory. A loop bounded by a count is a
  structural recursion on that count; a loop that only a terminating zero byte stops is a
  \<open>partial_function\<close> whose value \<open>None\<close> is "does not return". The lemmas give the memory
  after the block operations, and relate the string functions to lists of bytes: \<open>cstr m p xs\<close>
  says that the bytes \<open>xs\<close>, none of them zero, stand at \<open>p\<close> and are followed by a zero.
\<close>

section \<open>Block operations\<close>

primrec memset_loop :: "nat \<Rightarrow> addr \<Rightarrow> u8 \<Rightarrow> memory \<Rightarrow> memory" where
  "memset_loop 0 p v m = m"
| "memset_loop (Suc n) p v m = memset_loop n (p + 1) v (m(p := v))"

text \<open>\<open>memset\<close> and \<open>memcpy\<close> return their first argument, which no caller uses.\<close>

definition memset :: "addr \<Rightarrow> u32 \<Rightarrow> u32 \<Rightarrow> memory \<Rightarrow> memory" where
  "memset dst val count m = memset_loop (unat count) dst (ucast val) m"

primrec memcpy_loop :: "nat \<Rightarrow> addr \<Rightarrow> addr \<Rightarrow> memory \<Rightarrow> memory" where
  "memcpy_loop 0 t f m = m"
| "memcpy_loop (Suc n) t f m = memcpy_loop n (t + 1) (f + 1) (m(t := m f))"

definition memcpy :: "addr \<Rightarrow> addr \<Rightarrow> u32 \<Rightarrow> memory \<Rightarrow> memory" where
  "memcpy to from count m = memcpy_loop (unat count) to from m"

text \<open>The difference of the first two bytes that differ, as \<open>unsigned char\<close>.\<close>

primrec memcmp_loop :: "nat \<Rightarrow> addr \<Rightarrow> addr \<Rightarrow> memory \<Rightarrow> int" where
  "memcmp_loop 0 m1 m2 m = 0"
| "memcmp_loop (Suc n) m1 m2 m =
     (let res = uint (m m1) - uint (m m2)
      in if res \<noteq> 0 then res else memcmp_loop n (m1 + 1) (m2 + 1) m)"

definition memcmp :: "addr \<Rightarrow> addr \<Rightarrow> u32 \<Rightarrow> memory \<Rightarrow> int" where
  "memcmp mem1 mem2 count m = memcmp_loop (unat count) mem1 mem2 m"

primrec memchr_loop :: "nat \<Rightarrow> addr \<Rightarrow> int \<Rightarrow> memory \<Rightarrow> addr" where
  "memchr_loop 0 s c m = 0"
| "memchr_loop (Suc n) s c m =
     (if uint (m s) = c then s else memchr_loop n (s + 1) c m)"

definition memchr :: "addr \<Rightarrow> int \<Rightarrow> u32 \<Rightarrow> memory \<Rightarrow> addr" where
  "memchr str c count m = memchr_loop (unat count) str c m"

text \<open>
  \<open>memmove\<close> initialises its destination pointer from itself (\<open>t = t\<close>): the copy goes to an
  indeterminate address, here the argument \<open>t0\<close>, and never to \<open>to\<close> as such.
\<close>

primrec memmove_down :: "nat \<Rightarrow> addr \<Rightarrow> addr \<Rightarrow> memory \<Rightarrow> memory" where
  "memmove_down 0 t f m = m"
| "memmove_down (Suc n) t f m = memmove_down n t f (m(t + of_nat n := m (f + of_nat n)))"

definition memmove :: "addr \<Rightarrow> addr \<Rightarrow> addr \<Rightarrow> u32 \<Rightarrow> memory \<Rightarrow> addr \<times> memory" where
  "memmove t0 to from count m =
     (let t = t0; f = from
      in if t \<le> f then (to, memcpy_loop (unat count) t f m)
         else (to, memmove_down (unat count) t f m))"

section \<open>String operations\<close>

text \<open>A plain \<open>char\<close> is signed, so comparisons subtract sign-extended bytes.\<close>

definition char_diff :: "u8 \<Rightarrow> u8 \<Rightarrow> int" where
  "char_diff a b = sint a - sint b"

definition mask01 :: u32 where "mask01 = 0x01010101"
definition mask80 :: u32 where "mask80 = 0x80808080"

text \<open>
  \<open>strlen\<close> reads bytes up to a word boundary and then whole words. A word whose test
  \<open>(w - mask01) & mask80\<close> is zero is skipped; otherwise its four bytes are looked at.
\<close>

partial_function (option) strlen_words :: "memory \<Rightarrow> addr \<Rightarrow> addr \<Rightarrow> u32 option" where
  "strlen_words m str lp =
     (if (ld32 m lp - mask01) AND mask80 \<noteq> 0 then
        if m lp = 0 then Some (lp - str)
        else if m (lp + 1) = 0 then Some (lp - str + 1)
        else if m (lp + 2) = 0 then Some (lp - str + 2)
        else if m (lp + 3) = 0 then Some (lp - str + 3)
        else strlen_words m str (lp + 4)
      else strlen_words m str (lp + 4))"

partial_function (option) strlen_head :: "memory \<Rightarrow> addr \<Rightarrow> addr \<Rightarrow> u32 option" where
  "strlen_head m str p =
     (if p AND 3 \<noteq> 0
      then (if m p = 0 then Some (p - str) else strlen_head m str (p + 1))
      else strlen_words m str p)"

definition strlen :: "memory \<Rightarrow> addr \<Rightarrow> u32 option" where
  "strlen m str = strlen_head m str str"

partial_function (option) strcpy_loop :: "addr \<Rightarrow> addr \<Rightarrow> memory \<Rightarrow> memory option" where
  "strcpy_loop t f m =
     (let m' = m(t := m f)
      in if m f \<noteq> 0 then strcpy_loop (t + 1) (f + 1) m' else Some m')"

definition strcpy :: "addr \<Rightarrow> addr \<Rightarrow> memory \<Rightarrow> memory option" where
  "strcpy to from m = strcpy_loop to from m"

text \<open>Stops at a zero byte of the source without copying it.\<close>

primrec strncpy_loop :: "nat \<Rightarrow> addr \<Rightarrow> addr \<Rightarrow> memory \<Rightarrow> memory" where
  "strncpy_loop 0 t f m = m"
| "strncpy_loop (Suc n) t f m =
     (if m f \<noteq> 0 then strncpy_loop n (t + 1) (f + 1) (m(t := m f)) else m)"

definition strncpy :: "addr \<Rightarrow> addr \<Rightarrow> u32 \<Rightarrow> memory \<Rightarrow> memory" where
  "strncpy to from count m = strncpy_loop (unat count) to from m"

text \<open>The four-fold unrolled loops of the source are one loop here.\<close>

definition strcat :: "addr \<Rightarrow> addr \<Rightarrow> memory \<Rightarrow> memory option" where
  "strcat str1 str2 m =
     (case strlen m str1 of None \<Rightarrow> None | Some n \<Rightarrow> strcpy_loop (str1 + n) str2 m)"

text \<open>The loop leaves \<open>s1\<close> on a byte that already holds a zero or on \<open>max\<close>.\<close>

function strncat_loop :: "addr \<Rightarrow> addr \<Rightarrow> addr \<Rightarrow> memory \<Rightarrow> addr \<times> memory" where
  "strncat_loop lim s1 s2 m =
     (let m' = m(s1 := m s2)
      in if m s2 = 0 then (s1, m')
         else if s1 + 1 = lim then (s1 + 1, m')
         else strncat_loop lim (s1 + 1) (s2 + 1) m')"
  by pat_completeness auto
termination
proof (relation "measure (\<lambda>(lim, s1, s2, m). unat (lim - s1 - 1))", simp)
  fix lim s1 s2 :: addr and m m' :: memory
  assume "s1 + 1 \<noteq> lim"
  then have "lim - s1 - 1 \<noteq> 0" by (metis add_diff_cancel_left' diff_diff_eq eq_iff_diff_eq_0)
  then have "unat (lim - (s1 + 1) - 1) < unat (lim - s1 - 1)"
    by (metis diff_diff_eq measure_unat)
  then show "((lim, s1 + 1, s2 + 1, m'), lim, s1, s2, m)
      \<in> measure (\<lambda>(lim, s1, s2, m). unat (lim - s1 - 1))" by simp
qed

definition strncat :: "addr \<Rightarrow> addr \<Rightarrow> u32 \<Rightarrow> memory \<Rightarrow> memory option" where
  "strncat str1 str2 count m =
     (case strlen m str1 of None \<Rightarrow> None
      | Some n \<Rightarrow>
          (let s1 = str1 + n
           in if s1 + count = s1 then Some m
              else (case strncat_loop (s1 + count) s1 str2 m of (s1', m') \<Rightarrow> Some (m'(s1' := 0)))))"

partial_function (option) strcmp :: "memory \<Rightarrow> addr \<Rightarrow> addr \<Rightarrow> int option" where
  "strcmp m s1 s2 =
     (if m s1 \<noteq> 0 \<and> m s1 = m s2 then strcmp m (s1 + 1) (s2 + 1)
      else Some (char_diff (m s1) (m s2)))"

function strncmp_loop :: "addr \<Rightarrow> addr \<Rightarrow> addr \<Rightarrow> memory \<Rightarrow> int" where
  "strncmp_loop stop s1 s2 m =
     (if s1 < stop then
        let res = char_diff (m s1) (m s2)
        in if res \<noteq> 0 then res else if m s1 = 0 then 0
           else strncmp_loop stop (s1 + 1) (s2 + 1) m
      else 0)"
  by pat_completeness auto
termination
proof (relation "measure (\<lambda>(stop, s1, s2, m). unat (stop - s1))", simp)
  fix stop s1 s2 :: addr and m :: memory and x
  assume "s1 < stop"
  then have "stop - s1 \<noteq> 0" by auto
  then have "unat (stop - s1 - 1) < unat (stop - s1)" by (rule measure_unat)
  then show "((stop, s1 + 1, s2 + 1, m), stop, s1, s2, m) \<in> measure (\<lambda>(stop, s1, s2, m). unat (stop - s1))"
    by (simp add: diff_diff_eq)
qed

definition strncmp :: "addr \<Rightarrow> addr \<Rightarrow> u32 \<Rightarrow> memory \<Rightarrow> int" where
  "strncmp str1 str2 n m = strncmp_loop (str1 + n) str1 str2 m"

partial_function (option) strchr :: "memory \<Rightarrow> addr \<Rightarrow> u8 \<Rightarrow> addr option" where
  "strchr m s ch =
     (if m s = ch then Some s else if m s = 0 then Some 0 else strchr m (s + 1) ch)"

declare strncat_loop.simps [simp del] strncmp_loop.simps [simp del]

section \<open>Memory after the block operations\<close>

lemma memset_loop_apply:
  "n \<le> 2 ^ 32 \<Longrightarrow> memset_loop n p v m x = (if x \<in> region p n then v else m x)"
proof (induction n arbitrary: p m)
  case (Suc n)
  then show ?case by (simp add: region_Suc)
qed simp

lemma memset_apply:
  "memset p v n m x = (if x \<in> region p (unat n) then ucast v else m x)"
proof -
  have "unat n < 2 ^ 32" by (rule order.strict_trans2 [OF unsigned_less]) simp
  then show ?thesis by (simp add: memset_def memset_loop_apply)
qed

lemma memcpy_loop_apply:
  assumes "n \<le> 2 ^ 32" "region t n \<inter> region f n = {}"
  shows "memcpy_loop n t f m x = (if x \<in> region t n then m (f + (x - t)) else m x)"
  using assms
proof (induction n arbitrary: t f m)
  case (Suc n)
  have sub: "region (t + 1) n \<subseteq> region t (Suc n)" "region (f + 1) n \<subseteq> region f (Suc n)"
    using region_Suc [OF Suc.prems(1)] by auto
  then have ih: "memcpy_loop n (t + 1) (f + 1) (m(t := m f)) x =
      (if x \<in> region (t + 1) n then (m(t := m f)) (f + 1 + (x - (t + 1))) else (m(t := m f)) x)"
    using Suc.prems by (intro Suc.IH) auto
  have "t \<notin> region (f + 1) n"
    using Suc.prems(2) sub(2) region_self [of "Suc n" t] by blast
  moreover have "x \<in> region (t + 1) n \<Longrightarrow> f + 1 + (x - (t + 1)) \<in> region (f + 1) n"
    by (simp add: in_region diff_diff_eq)
  ultimately have "f + 1 + (x - (t + 1)) \<noteq> t" if "x \<in> region (t + 1) n" using that by metis
  then show ?case using ih region_Suc [OF Suc.prems(1), of t] by (auto simp: algebra_simps)
qed simp

lemma memcpy_apply:
  assumes "region to (unat n) \<inter> region from (unat n) = {}"
  shows "memcpy to from n m x = (if x \<in> region to (unat n) then m (from + (x - to)) else m x)"
proof -
  have "unat n < 2 ^ 32" by (rule order.strict_trans2 [OF unsigned_less]) simp
  then show ?thesis using assms by (simp add: memcpy_def memcpy_loop_apply)
qed

section \<open>Zero-terminated strings\<close>

primrec cstr :: "memory \<Rightarrow> addr \<Rightarrow> u8 list \<Rightarrow> bool" where
  "cstr m p [] \<longleftrightarrow> m p = 0"
| "cstr m p (x # xs) \<longleftrightarrow> m p = x \<and> x \<noteq> 0 \<and> cstr m (p + 1) xs"

lemma cstr_append: "cstr m p (xs @ ys) \<Longrightarrow> cstr m (p + of_nat (length xs)) ys"
  by (induction xs arbitrary: p) (auto simp flip: add.assoc)

lemma cstr_unique: "cstr m p xs \<Longrightarrow> cstr m p ys \<Longrightarrow> xs = ys"
proof (induction xs arbitrary: p ys)
  case Nil
  then show ?case by (cases ys) auto
next
  case (Cons x xs)
  then show ?case by (cases ys) auto
qed

text \<open>The word test of \<open>strlen\<close> never skips a word that holds a zero byte.\<close>

lemma mask80_bits:
  assumes "(w :: u32) AND mask80 = 0"
  shows "\<not> bit w 7" "\<not> bit w 15" "\<not> bit w 23" "\<not> bit w 31"
proof -
  have *: "\<not> bit w k" if "bit mask80 k" for k
    using assms that by (metis bit_and_iff bit_0_eq bot_apply bot_bool_def)
  have "bit mask80 7" "bit mask80 15" "bit mask80 23" "bit mask80 31"
    by (simp_all add: mask80_def)
  then show "\<not> bit w 7" "\<not> bit w 15" "\<not> bit w 23" "\<not> bit w 31" using * by blast+
qed

lemma odd_div_block:
  assumes "0 < c" "c \<le> r" "r < 2 * c"
  shows "odd ((2 * c * q + r) div (c :: int))"
proof -
  have "2 * c * q + r = (r - c) + (2 * q + 1) * c" by (simp add: algebra_simps)
  then have "(2 * c * q + r) div c = (2 * q + 1) + (r - c) div c"
    using assms(1) by (metis div_mult_self1 less_irrefl add.commute)
  moreover have "(r - c) div c = 0" using assms by (intro div_pos_pos_trivial) simp_all
  ultimately show ?thesis by simp
qed

lemma word_test_zero:
  assumes z: "(ld32 m a - mask01) AND mask80 = 0"
  shows "m a \<noteq> 0" "m (a + 1) \<noteq> 0" "m (a + 2) \<noteq> 0" "m (a + 3) \<noteq> 0"
proof -
  let ?b = "\<lambda>i. uint (m (a + i))"
  let ?w = "?b 0 + 256 * ?b 1 + 65536 * ?b 2 + 16777216 * ?b 3 - 16843009"
  have w: "uint (ld32 m a - mask01) = take_bit 32 ?w"
    by (simp add: uint_word_ariths uint_ld32 mask01_def take_bit_eq_mod)
  have "\<not> bit (take_bit 32 ?w) 7" "\<not> bit (take_bit 32 ?w) 15" "\<not> bit (take_bit 32 ?w) 23"
    "\<not> bit (take_bit 32 ?w) 31"
    using mask80_bits [OF z] unfolding w [symmetric] bit_uint_iff by simp_all
  then have bit: "even (?w div 128)" "even (?w div 32768)" "even (?w div 8388608)"
    "even (?w div 2147483648)"
    unfolding bit_take_bit_iff by (simp_all add: bit_iff_odd)
  have r: "0 \<le> ?b i \<and> ?b i < 256" for i using uint_bounded [of "m (a + i)"] by simp
  note R = r [of 0] r [of 1] r [of 2] r [of 3]
  have 0: "?b 0 \<noteq> 0"
  proof
    assume "?b 0 = 0"
    then have e: "?w = 2 * 128 * (?b 1 + 256 * ?b 2 + 65536 * ?b 3 - 65794) + 255" by simp
    have "odd (?w div 128)" unfolding e by (rule odd_div_block) simp_all
    then show False using bit(1) by contradiction
  qed
  have 1: "?b 1 \<noteq> 0"
  proof
    assume "?b 1 = 0"
    then have e: "?w = 2 * 32768 * (?b 2 + 256 * ?b 3 - 258) + (?b 0 + 65279)" by simp
    have r2: "32768 \<le> ?b 0 + 65279" "?b 0 + 65279 < 2 * 32768" using R 0 by linarith+
    have "odd (?w div 32768)" unfolding e by (rule odd_div_block [OF _ r2]) simp
    then show False using bit(2) by contradiction
  qed
  have 2: "?b 2 \<noteq> 0"
  proof
    assume "?b 2 = 0"
    then have e: "?w = 2 * 8388608 * (?b 3 - 2) + (?b 0 + 256 * ?b 1 + 16711423)" by simp
    have r3: "8388608 \<le> ?b 0 + 256 * ?b 1 + 16711423"
      "?b 0 + 256 * ?b 1 + 16711423 < 2 * 8388608" using R 0 1 by linarith+
    have "odd (?w div 8388608)" unfolding e by (rule odd_div_block [OF _ r3]) simp
    then show False using bit(3) by contradiction
  qed
  have 3: "?b 3 \<noteq> 0"
  proof
    assume "?b 3 = 0"
    then have e: "?w = 2 * 2147483648 * (- 1) + (?b 0 + 256 * ?b 1 + 65536 * ?b 2 + 4278124287)" by simp
    have r4: "2147483648 \<le> ?b 0 + 256 * ?b 1 + 65536 * ?b 2 + 4278124287"
      "?b 0 + 256 * ?b 1 + 65536 * ?b 2 + 4278124287 < 2 * 2147483648" using R 0 1 2 by linarith+
    have "odd (?w div 2147483648)" unfolding e by (rule odd_div_block [OF _ r4]) simp
    then show False using bit(4) by contradiction
  qed
  show "m a \<noteq> 0" "m (a + 1) \<noteq> 0" "m (a + 2) \<noteq> 0" "m (a + 3) \<noteq> 0"
    using 0 1 2 3 by auto
qed

lemma strlen_words_correct:
  "cstr m lp xs \<Longrightarrow> strlen_words m str lp = Some (lp - str + of_nat (length xs))"
proof (induction "length xs" arbitrary: lp xs rule: less_induct)
  case less
  let ?t = "(ld32 m lp - mask01) AND mask80"
  note z = word_test_zero [of m lp] and unf = strlen_words.simps [of m str lp]
  consider "xs = []" | a where "xs = [a]" | a b where "xs = [a, b]" | a b c where "xs = [a, b, c]"
    | a b c d ys where "xs = a # b # c # d # ys"
    by (metis neq_Nil_conv)
  then show ?case
  proof cases
    case 1
    with less.prems z have "m lp = 0" "?t \<noteq> 0" by auto
    with 1 show ?thesis by (simp add: unf)
  next
    case 2
    with less.prems have "m lp \<noteq> 0" "m (lp + 1) = 0" by auto
    moreover with z have "?t \<noteq> 0" by auto
    ultimately show ?thesis using 2 by (simp add: unf)
  next
    case 3
    with less.prems have "m lp \<noteq> 0" "m (lp + 1) \<noteq> 0" "m (lp + 2) = 0" by (auto simp: add.assoc)
    moreover with z have "?t \<noteq> 0" by auto
    ultimately show ?thesis using 3 by (simp add: unf)
  next
    case 4
    with less.prems have "m lp \<noteq> 0" "m (lp + 1) \<noteq> 0" "m (lp + 2) \<noteq> 0" "m (lp + 3) = 0"
      by (auto simp: add.assoc)
    moreover with z have "?t \<noteq> 0" by auto
    ultimately show ?thesis using 4 by (simp add: unf)
  next
    case 5
    with less.prems have nz: "m lp \<noteq> 0" "m (lp + 1) \<noteq> 0" "m (lp + 2) \<noteq> 0" "m (lp + 3) \<noteq> 0"
      and ys: "cstr m (lp + 4) ys" by (auto simp: add.assoc)
    have "strlen_words m str (lp + 4) = Some (lp + 4 - str + of_nat (length ys))"
      using ys 5 by (intro less.hyps) auto
    with nz show ?thesis using 5 by (simp add: unf algebra_simps)
  qed
qed

lemma strlen_head_correct:
  "cstr m p xs \<Longrightarrow> strlen_head m str p = Some (p - str + of_nat (length xs))"
proof (induction xs arbitrary: p)
  case Nil
  then show ?case
    by (subst strlen_head.simps) (simp add: strlen_words_correct [of m p "[]"])
next
  case (Cons x xs)
  show ?case
  proof (cases "p AND 3 = 0")
    case True
    then show ?thesis
      using strlen_words_correct [OF Cons.prems, of str] by (subst strlen_head.simps) simp
  next
    case False
    have "strlen_head m str (p + 1) = Some (p + 1 - str + of_nat (length xs))"
      using Cons.prems by (intro Cons.IH) simp
    with False Cons.prems show ?thesis by (subst strlen_head.simps) (simp add: algebra_simps)
  qed
qed

lemma strlen_length: "cstr m s xs \<Longrightarrow> strlen m s = Some (of_nat (length xs))"
  by (simp add: strlen_def strlen_head_correct)

text \<open>The bytes of a string, by index.\<close>

lemma cstr_nth:
  "cstr m p xs \<longleftrightarrow>
    (\<forall>i<length xs. m (p + of_nat i) = xs ! i \<and> xs ! i \<noteq> 0) \<and> m (p + of_nat (length xs)) = 0"
proof (induction xs arbitrary: p)
  case (Cons x xs)
  have "(\<forall>i<length (x # xs). m (p + of_nat i) = (x # xs) ! i \<and> (x # xs) ! i \<noteq> 0) \<longleftrightarrow>
    (m p = x \<and> x \<noteq> 0) \<and> (\<forall>i<length xs. m (p + 1 + of_nat i) = xs ! i \<and> xs ! i \<noteq> 0)"
    by (auto simp: less_Suc_eq_0_disj ac_simps)
  with Cons.IH [of "p + 1"] show ?case by (auto simp: ac_simps)
qed simp

lemma cstr_appendI:
  assumes "\<forall>i<length xs. m (p + of_nat i) = xs ! i \<and> xs ! i \<noteq> 0" "cstr m (p + of_nat (length xs)) ys"
  shows "cstr m p (xs @ ys)"
  using assms
proof (induction xs arbitrary: p)
  case (Cons x xs)
  have "m p = x \<and> x \<noteq> 0" using Cons.prems(1) [rule_format, of 0] by simp
  moreover have "cstr m (p + 1) (xs @ ys)"
  proof (rule Cons.IH)
    show "\<forall>i<length xs. m (p + 1 + of_nat i) = xs ! i \<and> xs ! i \<noteq> 0"
      using Cons.prems(1) [rule_format, of "Suc _"] by (simp add: ac_simps)
    show "cstr m (p + 1 + of_nat (length xs)) ys" using Cons.prems(2) by (simp add: ac_simps)
  qed
  ultimately show ?case by simp
qed simp

lemma cstr_cong:
  assumes "cstr m p xs" "\<And>x. x \<in> region p (Suc (length xs)) \<Longrightarrow> m' x = m x" "length xs < 2 ^ 32"
  shows "cstr m' p xs"
proof -
  have "m' (p + of_nat i) = m (p + of_nat i)" if "i \<le> length xs" for i
  proof -
    have "unat (of_nat i :: addr) = i" using that assms(3) by (intro unat_of_nat_32) simp
    then show ?thesis using that by (intro assms(2)) (simp add: in_region)
  qed
  then show ?thesis using assms(1) by (simp add: cstr_nth)
qed

section \<open>Copying and joining strings\<close>

lemma strcpy_loop_memcpy:
  assumes "cstr m f xs" "length xs < 2 ^ 32"
    "region t (Suc (length xs)) \<inter> region f (Suc (length xs)) = {}"
  shows "strcpy_loop t f m = Some (memcpy_loop (Suc (length xs)) t f m)"
  using assms
proof (induction xs arbitrary: t f m)
  case Nil
  then show ?case by (subst strcpy_loop.simps) simp
next
  case (Cons x xs)
  let ?m = "m(t := m f)" and ?n = "Suc (length xs)"
  have sub: "region (t + 1) ?n \<subseteq> region t (Suc ?n)" "region (f + 1) ?n \<subseteq> region f (Suc ?n)"
    using Cons.prems(2) region_Suc [of ?n] by auto
  have dj: "region t (Suc ?n) \<inter> region f (Suc ?n) = {}" using Cons.prems(3) by simp
  have "t \<in> region t (Suc ?n)" by simp
  then have t: "t \<notin> region (f + 1) ?n" using dj sub(2) by blast
  have c: "cstr m (f + 1) xs" and x: "m f = x" "x \<noteq> 0" using Cons.prems(1) by simp_all
  have l: "length xs < 2 ^ 32" using Cons.prems(2) by simp
  have "cstr ?m (f + 1) xs"
    using t by (intro cstr_cong [OF c _ l]) (metis fun_upd_other)
  moreover have "region (t + 1) ?n \<inter> region (f + 1) ?n = {}" using dj sub by blast
  ultimately have "strcpy_loop (t + 1) (f + 1) ?m = Some (memcpy_loop ?n (t + 1) (f + 1) ?m)"
    using l by (intro Cons.IH)
  then show ?case using x by (subst strcpy_loop.simps) simp
qed

lemma strcpy_loop_cstr:
  assumes "cstr m f xs" "length xs < 2 ^ 32"
    "region t (Suc (length xs)) \<inter> region f (Suc (length xs)) = {}"
    "strcpy_loop t f m = Some m'"
  shows "cstr m' t xs" "x \<notin> region t (Suc (length xs)) \<Longrightarrow> m' x = m x"
proof -
  have m': "m' x = (if x \<in> region t (Suc (length xs)) then m (f + (x - t)) else m x)" for x
    using strcpy_loop_memcpy [OF assms(1-3)] assms(2,3,4)
    by (metis memcpy_loop_apply option.inject Suc_leI)
  then show "x \<notin> region t (Suc (length xs)) \<Longrightarrow> m' x = m x" by simp
  have "m' (t + of_nat i) = m (f + of_nat i)" if "i \<le> length xs" for i
  proof -
    have "unat (of_nat i :: addr) = i" using that assms(2) by (intro unat_of_nat_32) simp
    then show ?thesis using that by (simp add: m' in_region)
  qed
  then show "cstr m' t xs" using assms(1) by (simp add: cstr_nth)
qed

lemma strcat_cstr:
  assumes "cstr m a xs" "cstr m b ys" "length xs + length ys < 2 ^ 32"
    "region a (Suc (length xs + length ys)) \<inter> region b (Suc (length ys)) = {}"
  shows "\<exists>m'. strcat a b m = Some m' \<and> cstr m' a (xs @ ys)"
proof -
  let ?t = "a + of_nat (length xs)" and ?n = "Suc (length ys)"
  have u: "unat (of_nat (length xs) :: addr) = length xs"
    using assms(3) by (intro unat_of_nat_32) simp
  then have sub: "region ?t ?n \<subseteq> region a (Suc (length xs + length ys))"
    by (intro region_offset_subset) simp
  then have dj: "region ?t ?n \<inter> region b ?n = {}" using assms(4) by blast
  obtain m' where m': "strcpy_loop ?t b m = Some m'"
    using strcpy_loop_memcpy [OF assms(2) _ dj] assms(3) by auto
  note res = strcpy_loop_cstr [OF assms(2) _ dj m']
  have "m' (a + of_nat i) = m (a + of_nat i)" if "i < length xs" for i
  proof (rule res(2))
    have "unat (of_nat (length xs) - of_nat i :: addr) = length xs - i"
      using that u assms(3) by (simp flip: of_nat_diff add: unat_of_nat_32)
    moreover have "of_nat i - of_nat (length xs) = (- (of_nat (length xs) - of_nat i) :: addr)" by simp
    moreover have "(of_nat (length xs) - of_nat i :: addr) \<noteq> 0"
      using calculation(1) that by (metis unat_0 zero_less_diff less_irrefl)
    ultimately have "unat (of_nat i - of_nat (length xs) :: addr) = 2 ^ 32 - (length xs - i)"
      using unat_uminus_32 by metis
    then show "a + of_nat i \<notin> region ?t ?n" using assms(3) by (simp add: in_region)
  qed (use assms(3) in simp)
  then have "cstr m' a (xs @ ys)"
    using res(1) assms(1,3) by (intro cstr_appendI) (auto simp: cstr_nth [of m a])
  then show ?thesis using m' strlen_length [OF assms(1)] by (simp add: strcat_def)
qed

section \<open>Properties\<close>

text \<open>
  C32. The word-wise \<open>strlen\<close>, which starts at any alignment and tests four bytes at a time with a trick
  that may report a zero byte where there is none, computes the number of bytes before the first zero
  byte, as the byte by byte definition does; the pointer into the middle of a string gets the rest.
\<close>

theorem strlen_bytewise:
  assumes "cstr m s xs" "i \<le> length xs"
  shows "strlen m (s + of_nat i) = Some (of_nat (length xs - i))"
proof -
  have "cstr m (s + of_nat (length (take i xs))) (drop i xs)"
    using cstr_append [of m s "take i xs" "drop i xs"] assms(1) by simp
  then have "cstr m (s + of_nat i) (drop i xs)" using assms(2) by (simp add: min_absorb2)
  from strlen_length [OF this] show ?thesis by simp
qed

theorem strlen_bytewise_witness:
  "strlen ((\<lambda>_. 0)(0x1001 := 0x80, 0x1002 := 0xff, 0x1003 := 65)) (0x1001 + of_nat 1) = Some (of_nat (3 - 1))"
proof -
  let ?m = "(\<lambda>_. 0)(0x1001 := 0x80, 0x1002 := 0xff, 0x1003 := 65) :: memory"
  have "cstr ?m 0x1001 [0x80, 0xff, 65]" "1 \<le> length [0x80, 0xff, 65 :: u8]" by simp_all
  from strlen_bytewise [OF this] show ?thesis by simp
qed

text \<open>
  \<open>strcpy\<close> into a buffer that does not overlap the string makes a copy of it, zero byte included, and
  \<open>strcat\<close> appends a string to another: both return, and no byte outside the destination changes.
\<close>

theorem strings_copied_and_joined:
  assumes "cstr m b ys" "length xs + length ys < 2 ^ 32"
    "region a (Suc (length xs + length ys)) \<inter> region b (Suc (length ys)) = {}"
  shows "(\<exists>m'. strcpy a b m = Some m' \<and> cstr m' a ys \<and> cstr m' b ys \<and>
      (\<forall>x. x \<notin> region a (Suc (length ys)) \<longrightarrow> m' x = m x)) \<and>
    (cstr m a xs \<longrightarrow> (\<exists>m'. strcat a b m = Some m' \<and> cstr m' a (xs @ ys)))"
proof -
  have l: "length ys < 2 ^ 32" using assms(2) by simp
  have "region a (Suc (length ys)) \<subseteq> region a (Suc (length xs + length ys))" by (rule region_mono) simp
  then have d: "region a (Suc (length ys)) \<inter> region b (Suc (length ys)) = {}" using assms(3) by blast
  obtain m' where m': "strcpy_loop a b m = Some m'" using strcpy_loop_memcpy [OF assms(1) l d] by blast
  note r = strcpy_loop_cstr [OF assms(1) l d m']
  have "cstr m' b ys" using d by (intro cstr_cong [OF assms(1) _ l] r(2)) blast
  then show ?thesis using m' r strcat_cstr [OF _ assms] by (auto simp: strcpy_def)
qed

theorem strings_copied_and_joined_witness:
  "\<exists>m'. strcat 0x1000 0x2000 ((\<lambda>_. 0)(0x1000 := 65, 0x2000 := 66)) = Some m' \<and> cstr m' 0x1000 [65, 66]"
proof -
  let ?m = "(\<lambda>_. 0)(0x1000 := 65, 0x2000 := 66) :: memory"
  have "cstr ?m 0x2000 [66]" "length [65 :: u8] + length [66 :: u8] < 2 ^ 32"
    "region 0x1000 (Suc (length [65 :: u8] + length [66 :: u8])) \<inter> region 0x2000 (Suc (length [66 :: u8])) = {}"
    by (simp, simp, intro region_apartI, simp_all)
  moreover have "cstr ?m 0x1000 [65]" by simp
  ultimately show ?thesis using strings_copied_and_joined [of ?m "0x2000" "[66]" "[65]" "0x1000"] by simp
qed

end
