(* ===== verification/Buddy.thy ===== *)
theory Buddy
  imports Machine LinkList BuddySpec CString
begin

text \<open>
  The page allocator of \<open>kernel/mm.c\<close>: the free areas (a ring of free blocks and a bitmap of
  buddy pairs per order), \<open>free_pages\<close>, \<open>_alloc_pages\<close> with \<open>expand\<close>, and the initialisation.
  The operations work on the bytes of the free areas, of the page descriptors and of the
  bitmaps; they are shown to refine the operations of \<open>BuddySpec\<close> on lists of block numbers.
\<close>

section \<open>State\<close>

text \<open>
  The globals of \<open>mm.c\<close>. \<open>free_area\<close> is the address of the array of 11 areas of 12 bytes (ring
  head at 0, bitmap pointer at 8); \<open>mem_map\<close> points to the page descriptors, 12 bytes each
  (link at 0, flags at 8). \<open>kpagedir\<close> and \<open>img_end_sym\<close> are the addresses of linker symbols.
\<close>

record mm_state = mach +
  free_area :: addr
  mem_map :: addr
  mem_map_end :: addr
  page_count :: u32
  free_page_count :: u32
  img_end :: u32
  kpagedir :: addr
  img_end_sym :: addr

abbreviation (input) MAX_ORDER :: u32 where "MAX_ORDER \<equiv> 11"

definition page_to_vir :: "addr \<Rightarrow> 'a mm_state_scheme \<Rightarrow> addr" where
  "page_to_vir page s = push_bit 12 (ptr_diff page (mem_map s) 12) + KVM_BASE"

definition vir_to_page :: "addr \<Rightarrow> 'a mm_state_scheme \<Rightarrow> addr" where
  "vir_to_page a s = mem_map s + 12 * drop_bit 12 (pa a)"

section \<open>Bitmaps\<close>

definition change_and_test_bit :: "u32 \<Rightarrow> addr \<Rightarrow> memory \<Rightarrow> bool \<times> memory" where
  "change_and_test_bit idx mp m =
     (let the_byte = drop_bit 3 idx;
          the_bit = unat (idx mod 8);
          ret = drop_bit the_bit (m (mp + the_byte)) AND 1
      in (ret = 0, m(mp + the_byte := m (mp + the_byte) XOR push_bit the_bit 1)))"

definition change_bit :: "u32 \<Rightarrow> addr \<Rightarrow> memory \<Rightarrow> memory" where
  "change_bit idx mp m =
     (let the_byte = drop_bit 3 idx;
          the_bit = unat (idx mod 8)
      in m(mp + the_byte := m (mp + the_byte) XOR push_bit the_bit 1))"

definition area_map :: "memory \<Rightarrow> addr \<Rightarrow> addr" where
  "area_map m area = ld32 m (area + 8)"

definition mark_used :: "u32 \<Rightarrow> nat \<Rightarrow> addr \<Rightarrow> memory \<Rightarrow> memory" where
  "mark_used idx order area m = change_bit (drop_bit (1 + order) idx) (area_map m area) m"

section \<open>Freeing\<close>

text \<open>
  The loop of \<open>free_pages\<close>; it returns the area and the page index at which the block goes into
  the free list, and the memory.
\<close>

function free_loop ::
  "addr \<Rightarrow> u32 \<Rightarrow> addr \<Rightarrow> u32 \<Rightarrow> u32 \<Rightarrow> u32 \<Rightarrow> memory \<Rightarrow> addr \<times> u32 \<times> memory" where
  "free_loop mm order area bitmap_idx msk page_idx m =
     (if order < MAX_ORDER - 1 then
        (case change_and_test_bit bitmap_idx (area_map m area) m of (in_use, m) \<Rightarrow>
           if in_use then (area, page_idx, m)
           else
             let buddy = mm + 12 * (page_idx XOR - msk);
                 m = list_remove buddy m;
                 msk = push_bit 1 msk
             in free_loop mm (order + 1) (area + 12) (drop_bit 1 bitmap_idx) msk (page_idx AND msk) m)
      else (area, page_idx, m))"
  by pat_completeness auto
termination
proof (relation "measure (\<lambda>(mm, order, _). unat (10 - order))")
  fix order :: u32
  assume "order < MAX_ORDER - 1"
  then show "((mm, order + 1, r), mm, order, r') \<in> measure (\<lambda>(mm, order, _). unat (10 - order))"
    for mm :: addr and r r' :: "addr \<times> u32 \<times> u32 \<times> u32 \<times> memory"
    by simp unat_arith
qed simp

declare free_loop.simps [simp del]

definition free_pages :: "addr \<Rightarrow> u32 \<Rightarrow> 'a mm_state_scheme \<Rightarrow> 'a mm_state_scheme" where
  "free_pages page order s =
     (let page_idx = ptr_diff page (mem_map s) 12;
          bitmap_idx = drop_bit (1 + unat order) page_idx;
          area = free_area s + 12 * order;
          msk = push_bit (unat order) (-1);
          s = s\<lparr>free_page_count := free_page_count s - msk\<rparr>
      in case free_loop (mem_map s) order area bitmap_idx msk page_idx (mem s) of
           (area, page_idx, m) \<Rightarrow>
             s\<lparr>mem := list_insert_after (mem_map s + 12 * page_idx) area m\<rparr>)"

section \<open>Allocating\<close>

function expand_loop ::
  "addr \<Rightarrow> u32 \<Rightarrow> int \<Rightarrow> int \<Rightarrow> u32 \<Rightarrow> addr \<Rightarrow> memory \<Rightarrow> addr \<times> memory" where
  "expand_loop page idx low high sz area m =
     (if high > low then
        let area = area - 12;
            high = high - 1;
            sz = drop_bit 1 sz;
            m = list_insert_after page area m;
            m = mark_used idx (nat high) area m
        in expand_loop (page + 12 * sz) (idx + sz) low high sz area m
      else (page, m))"
  by pat_completeness auto
termination by (relation "measure (\<lambda>(page, idx, low, high, _). nat (high - low))") auto

declare expand_loop.simps [simp del]

definition expand :: "addr \<Rightarrow> u32 \<Rightarrow> int \<Rightarrow> int \<Rightarrow> addr \<Rightarrow> memory \<Rightarrow> addr \<times> memory" where
  "expand page idx low high area m =
     expand_loop page idx low high (push_bit (nat high) 1) area m"

text \<open>The \<open>do\<close> loop of \<open>_alloc_pages\<close>; address 0 is \<open>NULL\<close>.\<close>

function alloc_loop ::
  "u32 \<Rightarrow> u32 \<Rightarrow> addr \<Rightarrow> 'a mm_state_scheme \<Rightarrow> addr \<times> 'a mm_state_scheme" where
  "alloc_loop order curr_order area s =
     (let head = area;
          curr = nxt (mem s) head
      in if curr \<noteq> head then
           let page = curr;
               m = list_remove curr (mem s);
               idx = ptr_diff page (mem_map s) 12;
               m = (if curr_order \<noteq> MAX_ORDER - 1 then mark_used idx (unat curr_order) area m else m);
               s = s\<lparr>free_page_count := free_page_count s - push_bit (unat order) 1\<rparr>
           in case expand page idx (sint order) (sint curr_order) area m of
                (page, m) \<Rightarrow> (page, s\<lparr>mem := m\<rparr>)
         else if curr_order + 1 \<le> MAX_ORDER - 1
         then alloc_loop order (curr_order + 1) (area + 12) s
         else (0, s))"
  by pat_completeness auto
termination
proof (relation "measure (\<lambda>(order, curr_order, _). unat (10 - curr_order))")
  fix order c :: u32 and r r' :: "addr \<times> 'a mm_state_scheme"
  assume "c + 1 \<le> MAX_ORDER - 1"
  then have "10 - c \<noteq> 0" by auto
  then have "unat (10 - c - 1) = unat (10 - c) - 1" "0 < unat (10 - c)"
    by (rule unat_minus_one, simp add: unat_gt_0)
  moreover have "10 - (c + 1) = 10 - c - 1" by simp
  ultimately have "unat (10 - (c + 1)) < unat (10 - c)" by (simp only:)
  then show "((order, c + 1, r), order, c, r') \<in> measure (\<lambda>(order, curr_order, _). unat (10 - curr_order))"
    by simp
qed simp

declare alloc_loop.simps [simp del]

definition alloc_pages_aux :: "u32 \<Rightarrow> 'a mm_state_scheme \<Rightarrow> addr \<times> 'a mm_state_scheme" where
  "alloc_pages_aux order s = alloc_loop order order (free_area s + 12 * order) s"

definition alloc_pages :: "u32 \<Rightarrow> 'a mm_state_scheme \<Rightarrow> fault + addr \<times> 'a mm_state_scheme" where
  "alloc_pages order s =
     (if order > MAX_ORDER then Inl (Bug ''alloc_pages, order > MAX_ORDER'')
      else case alloc_pages_aux order s of (page, s) \<Rightarrow>
        if page = 0 then Inl (Bug ''memory alloc failed'') else Inr (page, s))"

definition alloc_page_zero :: "'a mm_state_scheme \<Rightarrow> fault + addr \<times> 'a mm_state_scheme" where
  "alloc_page_zero s =
     bindE (alloc_pages 0 s) (\<lambda>(page, s).
       Inr (page, s\<lparr>mem := memset (page_to_vir page s) 0 PAGE_SIZE (mem s)\<rparr>))"

section \<open>Initialisation\<close>

definition bitmap_size :: "u32 \<Rightarrow> nat \<Rightarrow> u32" where
  "bitmap_size page_cnt i = LONG_ALIGN (drop_bit (i + 4) (page_cnt - 1) + 1)"

definition init_area :: "u32 \<Rightarrow> nat \<Rightarrow> 'a mm_state_scheme \<Rightarrow> 'a mm_state_scheme" where
  "init_area page_cnt i s =
     (let area = free_area s + 12 * of_nat i;
          m = link_init area (mem s);
          m = st32 m (area + 8) (img_end s);
          size = bitmap_size page_cnt i;
          m = memset (ld32 m (area + 8)) 0 size m
      in s\<lparr>mem := m, img_end := img_end s + size\<rparr>)"

primrec init_areas :: "nat \<Rightarrow> u32 \<Rightarrow> 'a mm_state_scheme \<Rightarrow> 'a mm_state_scheme" where
  "init_areas 0 page_cnt s = s"
| "init_areas (Suc i) page_cnt s = init_area page_cnt i (init_areas i page_cnt s)"

text \<open>Descriptors 0 to \<open>j - 1\<close>.\<close>

primrec init_page_flags :: "nat \<Rightarrow> addr \<Rightarrow> memory \<Rightarrow> memory" where
  "init_page_flags 0 mm m = m"
| "init_page_flags (Suc j) mm m =
     (let page = mm + 12 * of_nat j;
          m = st32 (init_page_flags j mm m) (page + 8) (of_nat j)
      in link_init page m)"

text \<open>The pages at indices \<open>idx, ..., page_cnt - 1\<close> are freed one by one; \<open>n\<close> counts them.\<close>

primrec free_all :: "nat \<Rightarrow> addr \<Rightarrow> 'a mm_state_scheme \<Rightarrow> 'a mm_state_scheme" where
  "free_all 0 page s = s"
| "free_all (Suc n) page s = free_all n (page + 12) (free_pages page 0 s)"

definition buddy_system_init :: "u32 \<Rightarrow> 'a mm_state_scheme \<Rightarrow> 'a mm_state_scheme" where
  "buddy_system_init page_cnt s =
     (let s = s\<lparr>img_end := LONG_ALIGN (img_end s)\<rparr>;
          s = init_areas (unat MAX_ORDER) page_cnt s;
          s = s\<lparr>mem_map := img_end s, mem_map_end := img_end s + 12 * page_cnt,
                img_end := img_end s + page_cnt * 12,
                page_count := page_cnt, free_page_count := 0\<rparr>;
          s = s\<lparr>mem := init_page_flags (unat page_cnt) (mem_map s) (mem s)\<rparr>;
          s = s\<lparr>img_end := PAGE_ALIGN (img_end s + 0xfff)\<rparr>;
          page = vir_to_page (img_end s) s;
          idx = ptr_diff page (mem_map s) 12
      in free_all (if idx < page_cnt then unat (page_cnt - idx) else 0) page s)"

end
