(* ===== verification/BuddyRefine.thy ===== *)
theory BuddyRefine
  imports Buddy
begin

text \<open>
  The page allocator against its specification. \<open>crep\<close> relates the bytes of the free areas, the
  page descriptors and the bitmaps to lists of free block numbers and a table of bits;
  \<open>buddy_inv\<close> is the invariant of the allocator's state. \<open>free_pages\<close> and \<open>alloc_pages\<close> are
  shown to compute \<open>afree\<close> and \<open>aalloc\<close> of \<open>BuddySpec\<close> on it and to touch nothing but their
  own tables.
\<close>

section \<open>Layout\<close>

definition ring_at :: "addr \<Rightarrow> nat \<Rightarrow> addr" where
  "ring_at fa k = fa + 12 * of_nat k"

definition pg :: "addr \<Rightarrow> nat \<Rightarrow> addr" where
  "pg mm i = mm + 12 * of_nat i"

text \<open>The bytes of the bitmap of order \<open>k\<close> that hold bits of pairs below \<open>n\<close>.\<close>

definition bsz :: "nat \<Rightarrow> nat \<Rightarrow> nat" where
  "bsz n k = (n - 1) div 2 ^ (k + 4) + 1"

definition layout :: "addr \<Rightarrow> addr \<Rightarrow> nat \<Rightarrow> (nat \<Rightarrow> addr) \<Rightarrow> bool" where
  "layout fa mm n bm \<longleftrightarrow>
     0 < n \<and> n \<le> 2 ^ 20 \<and> 0 \<notin> region mm (12 * n) \<and>
     region fa 132 \<inter> region mm (12 * n) = {} \<and>
     (\<forall>k<11. region fa 132 \<inter> region (bm k) (bsz n k) = {} \<and>
             region mm (12 * n) \<inter> region (bm k) (bsz n k) = {}) \<and>
     (\<forall>j<11. \<forall>k<11. j \<noteq> k \<longrightarrow> region (bm j) (bsz n j) \<inter> region (bm k) (bsz n k) = {})"

definition meta :: "addr \<Rightarrow> addr \<Rightarrow> nat \<Rightarrow> (nat \<Rightarrow> addr) \<Rightarrow> addr set" where
  "meta fa mm n bm = region fa 132 \<union> region mm (12 * n) \<union> (\<Union>k<11. region (bm k) (bsz n k))"

definition links :: "addr \<Rightarrow> addr \<Rightarrow> nat \<Rightarrow> addr set" where
  "links fa mm n = ring_at fa ` {..<11} \<union> pg mm ` {..<n}"

lemma layoutD:
  assumes "layout fa mm n bm"
  shows "0 < n" "n \<le> 2 ^ 20" "0 \<notin> region mm (12 * n)" "region fa 132 \<inter> region mm (12 * n) = {}"
    "k < 11 \<Longrightarrow> region fa 132 \<inter> region (bm k) (bsz n k) = {}"
    "k < 11 \<Longrightarrow> region mm (12 * n) \<inter> region (bm k) (bsz n k) = {}"
    "j < 11 \<Longrightarrow> k < 11 \<Longrightarrow> j \<noteq> k \<Longrightarrow> region (bm j) (bsz n j) \<inter> region (bm k) (bsz n k) = {}"
  using assms by (auto simp: layout_def)

lemma ring_at_alt: "ring_at fa k = fa + of_nat (12 * k)"
  by (simp add: ring_at_def)

lemma pg_alt: "pg mm i = mm + of_nat (12 * i)"
  by (simp add: pg_def)

lemma ring_region: "k < 11 \<Longrightarrow> region (ring_at fa k) 12 \<subseteq> region fa 132"
  unfolding ring_at_alt by (rule region_elem_array) auto

lemma pg_region: "i < n \<Longrightarrow> n \<le> 2 ^ 20 \<Longrightarrow> region (pg mm i) 12 \<subseteq> region mm (12 * n)"
  unfolding pg_alt by (rule region_elem_array) auto

lemma ring_apart: "j < 11 \<Longrightarrow> k < 11 \<Longrightarrow> j \<noteq> k \<Longrightarrow> region (ring_at fa j) 12 \<inter> region (ring_at fa k) 12 = {}"
  unfolding ring_at_alt by (rule region_array) auto

lemma pg_apart:
  "i < n \<Longrightarrow> j < n \<Longrightarrow> n \<le> 2 ^ 20 \<Longrightarrow> i \<noteq> j \<Longrightarrow> region (pg mm i) 12 \<inter> region (pg mm j) 12 = {}"
  unfolding pg_alt by (rule region_array) auto

lemma region_8_12: "region a 8 \<subseteq> region a 12"
  by (rule region_mono) simp

lemma region_map_field: "region (a + 8) 4 \<subseteq> region a 12" "region a 8 \<inter> region (a + 8) 4 = {}"
  by (rule region_offset_subset, simp) (rule region_apartI, simp_all)

text \<open>Two addresses whose structures do not overlap are different.\<close>

lemma region_12_neq: "region a 12 \<inter> region b 12 = {} \<Longrightarrow> a \<noteq> b"
  using region_self [of 12 a] by fastforce

lemma pg_inj:
  assumes "layout fa mm n bm" "i < n" "j < n"
  shows "pg mm i = pg mm j \<longleftrightarrow> i = j"
  using region_12_neq [OF pg_apart [OF assms(2,3) layoutD(2) [OF assms(1)]]] by metis

lemma ring_inj: "j < 11 \<Longrightarrow> k < 11 \<Longrightarrow> ring_at fa j = ring_at fa k \<longleftrightarrow> j = k"
  using region_12_neq [OF ring_apart] by metis

lemma ring_pg_apart:
  assumes "layout fa mm n bm" "k < 11" "i < n"
  shows "region (ring_at fa k) 12 \<inter> region (pg mm i) 12 = {}"
  using layoutD(4) [OF assms(1)] ring_region [OF assms(2), of fa]
    pg_region [OF assms(3) layoutD(2) [OF assms(1)], of mm] by blast

lemma ring_neq_pg: "layout fa mm n bm \<Longrightarrow> k < 11 \<Longrightarrow> i < n \<Longrightarrow> ring_at fa k \<noteq> pg mm i"
  by (rule region_12_neq [OF ring_pg_apart])

lemma pg_not_null:
  assumes "layout fa mm n bm" "i < n"
  shows "pg mm i \<noteq> 0"
  using pg_region [OF assms(2) layoutD(2) [OF assms(1)], of mm] layoutD(3) [OF assms(1)]
    region_self [of 12 "pg mm i"] by (metis subsetD zero_less_numeral)

lemma links_cases:
  assumes "l \<in> links fa mm n" "layout fa mm n bm"
  obtains k where "k < 11" "l = ring_at fa k" "region l 12 \<subseteq> region fa 132"
  | i where "i < n" "l = pg mm i" "region l 12 \<subseteq> region mm (12 * n)"
proof -
  from assms(1) consider k where "k < 11" "l = ring_at fa k" | i where "i < n" "l = pg mm i"
    unfolding links_def by blast
  then show thesis
  proof cases
    case (1 k)
    then show thesis using that(1) [of k] ring_region by blast
  next
    case (2 i)
    then show thesis using that(2) [of i] pg_region layoutD(2) [OF assms(2)] by blast
  qed
qed

lemma links_apart:
  assumes lay: "layout fa mm n bm" and ab: "a \<in> links fa mm n" "b \<in> links fa mm n" "a \<noteq> b"
  shows "region a 12 \<inter> region b 12 = {}"
  using ab(1) lay
proof (cases rule: links_cases)
  case (1 j)
  note a = 1
  show ?thesis
    using ab(2) lay
  proof (cases rule: links_cases)
    case (1 k)
    then show ?thesis using a ab(3) ring_apart by metis
  next
    case (2 i)
    then show ?thesis using a layoutD(4) [OF lay] by blast
  qed
next
  case (2 i)
  note a = 2
  show ?thesis
    using ab(2) lay
  proof (cases rule: links_cases)
    case (1 k)
    then show ?thesis using a layoutD(4) [OF lay] by blast
  next
    case (2 j)
    then show ?thesis using a ab(3) pg_apart [OF _ _ layoutD(2) [OF lay]] by metis
  qed
qed

lemma wsep_links: "layout fa mm n bm \<Longrightarrow> wsep (links fa mm n)"
  unfolding wsep_def using links_apart region_8_12 by blast

lemma ring_link: "k < 11 \<Longrightarrow> ring_at fa k \<in> links fa mm n"
  by (simp add: links_def)

lemma pg_link: "i < n \<Longrightarrow> pg mm i \<in> links fa mm n"
  by (simp add: links_def)

lemma link_bytes:
  assumes l: "l \<in> links fa mm n" and lay: "layout fa mm n bm"
  shows "region l 12 \<subseteq> meta fa mm n bm"
    and "k < 11 \<Longrightarrow> region l 8 \<inter> region (ring_at fa k + 8) 4 = {}"
    and "k < 11 \<Longrightarrow> region l 12 \<inter> region (bm k) (bsz n k) = {}"
proof -
  show "region l 12 \<subseteq> meta fa mm n bm"
    using l lay by (cases rule: links_cases) (auto simp: meta_def)
  show "region l 12 \<inter> region (bm k) (bsz n k) = {}" if "k < 11"
    using l lay layoutD(5,6) [OF lay that] by (cases rule: links_cases) blast+
  show "region l 8 \<inter> region (ring_at fa k + 8) 4 = {}" if k: "k < 11"
  proof (cases "l = ring_at fa k")
    case True
    then show ?thesis using region_map_field(2) by simp
  next
    case False
    then have "region l 12 \<inter> region (ring_at fa k) 12 = {}"
      by (intro links_apart [OF lay l ring_link [OF k]])
    then show ?thesis using region_8_12 region_map_field(1) by blast
  qed
qed

section \<open>Representation\<close>

definition rings :: "memory \<Rightarrow> addr \<Rightarrow> addr \<Rightarrow> freelists \<Rightarrow> bool" where
  "rings m fa mm R \<longleftrightarrow> (\<forall>k<11. dll m (ring_at fa k) (map (pg mm) (R k)))"

definition maps :: "memory \<Rightarrow> addr \<Rightarrow> (nat \<Rightarrow> addr) \<Rightarrow> bool" where
  "maps m fa bm \<longleftrightarrow> (\<forall>k<11. area_map m (ring_at fa k) = bm k)"

definition bitv :: "memory \<Rightarrow> addr \<Rightarrow> nat \<Rightarrow> bool" where
  "bitv m a i = bit (m (a + of_nat (i div 8))) (i mod 8)"

definition bits_rep :: "memory \<Rightarrow> nat \<Rightarrow> (nat \<Rightarrow> addr) \<Rightarrow> (nat \<Rightarrow> nat \<Rightarrow> bool) \<Rightarrow> bool" where
  "bits_rep m n bm B \<longleftrightarrow> (\<forall>k<10. \<forall>i\<le>(n - 1) div 2 ^ Suc k. bitv m (bm k) i = B k i)"

definition crep ::
  "addr \<Rightarrow> addr \<Rightarrow> nat \<Rightarrow> (nat \<Rightarrow> addr) \<Rightarrow> memory \<Rightarrow> freelists \<Rightarrow> (nat \<Rightarrow> nat \<Rightarrow> bool) \<Rightarrow> bool" where
  "crep fa mm n bm m R B \<longleftrightarrow> rings m fa mm R \<and> maps m fa bm \<and> bits_rep m n bm B"

lemma crepD:
  assumes "crep fa mm n bm m R B"
  shows "k < 11 \<Longrightarrow> dll m (ring_at fa k) (map (pg mm) (R k))"
    "k < 11 \<Longrightarrow> area_map m (ring_at fa k) = bm k"
    "k < 10 \<Longrightarrow> i \<le> (n - 1) div 2 ^ Suc k \<Longrightarrow> bitv m (bm k) i = B k i"
  using assms by (auto simp: crep_def rings_def maps_def bits_rep_def)

lemma pair_byte:
  assumes "i \<le> (n - 1) div 2 ^ Suc k" "n \<le> 2 ^ 20"
  shows "a + of_nat (i div 8) \<in> region a (bsz n k)" "i < 2 ^ 20"
proof -
  have "i div 8 \<le> (n - 1) div 2 ^ Suc k div 8" using assms(1) by (rule div_le_mono)
  also have "\<dots> = (n - 1) div 2 ^ (k + 4)"
    by (simp add: div_mult2_eq [symmetric] power_add ac_simps)
  finally have b: "i div 8 < bsz n k" by (simp add: bsz_def)
  have "(n - 1) div 2 ^ Suc k \<le> n - 1" by (rule div_le_dividend)
  moreover have "n - 1 < 2 ^ 20" using assms(2) by simp
  ultimately show i: "i < 2 ^ 20" using assms(1) by (meson le_less_trans order.trans)
  then have "unat (of_nat (i div 8) :: addr) = i div 8" by (intro unat_of_nat_32) simp
  then show "a + of_nat (i div 8) \<in> region a (bsz n k)" using b by (simp add: in_region)
qed

text \<open>Stores to links keep the bitmaps and their pointers; stores to a bitmap keep the rings.\<close>

lemma crep_links_only:
  assumes lay: "layout fa mm n bm" and rep: "crep fa mm n bm m R B" and R': "rings m' fa mm R'"
    and out: "\<And>x. (\<forall>l\<in>links fa mm n. x \<notin> region l 8) \<Longrightarrow> m' x = m x"
  shows "crep fa mm n bm m' R' B"
proof -
  have "area_map m' (ring_at fa k) = area_map m (ring_at fa k)" if "k < 11" for k
    unfolding area_map_def
  proof (rule ld32_cong, rule out, rule ballI)
    fix x l assume "x \<in> region (ring_at fa k + 8) 4" "l \<in> links fa mm n"
    then show "x \<notin> region l 8" using link_bytes(2) [OF _ lay that] by blast
  qed
  moreover have "bitv m' (bm k) i = bitv m (bm k) i" if "k < 10" "i \<le> (n - 1) div 2 ^ Suc k" for k i
  proof -
    have "m' x = m x" if "x \<in> region (bm k) (bsz n k)" for x
    proof (rule out, rule ballI)
      fix l assume "l \<in> links fa mm n"
      then show "x \<notin> region l 8"
        using link_bytes(3) [OF _ lay, of l k] that \<open>k < 10\<close> region_8_12 [of l] by fastforce
    qed
    then show ?thesis using pair_byte(1) [OF that(2) layoutD(2) [OF lay]] by (simp add: bitv_def)
  qed
  ultimately show ?thesis using rep R' by (simp add: crep_def maps_def bits_rep_def)
qed

lemma bitv_flip:
  assumes "i < 2 ^ 20" "j < 2 ^ 20"
  shows "bitv (change_bit (of_nat i) a m) a j \<longleftrightarrow> bitv m a j \<noteq> (i = j)"
proof -
  have d: "drop_bit 3 (of_nat i :: u32) = of_nat (i div 8)"
    using assms(1) by (simp add: drop_bit_of_nat_32)
  have md: "unat (of_nat i mod 8 :: u32) = i mod 8"
    using assms(1) by (simp add: unat_mod unat_of_nat_32)
  have "a + of_nat (i div 8) = a + of_nat (j div 8) \<longleftrightarrow> i div 8 = j div 8"
  proof -
    have "unat (of_nat (i div 8) :: addr) = i div 8" "unat (of_nat (j div 8) :: addr) = j div 8"
      using assms by (intro unat_of_nat_32, simp)+
    then show ?thesis by (metis add_left_cancel)
  qed
  moreover have "bit (push_bit (i mod 8) 1 :: u8) (j mod 8) \<longleftrightarrow> i mod 8 = j mod 8"
    by (auto simp: bit_simps)
  moreover have "i = j \<longleftrightarrow> i div 8 = j div 8 \<and> i mod 8 = j mod 8"
    by (metis div_mult_mod_eq)
  ultimately show ?thesis
    by (auto simp: bitv_def change_bit_def Let_def d md bit_xor_iff)
qed

lemma change_and_test_bit_alt:
  assumes "i < 2 ^ 20"
  shows "change_and_test_bit (of_nat i) a m = (\<not> bitv m a i, change_bit (of_nat i) a m)"
proof -
  have d: "drop_bit 3 (of_nat i :: u32) = of_nat (i div 8)"
    using assms by (simp add: drop_bit_of_nat_32)
  have md: "unat (of_nat i mod 8 :: u32) = i mod 8"
    using assms by (simp add: unat_mod unat_of_nat_32)
  have "drop_bit (i mod 8) x AND 1 = 0 \<longleftrightarrow> \<not> bit x (i mod 8)" for x :: u8
    by (simp add: and_one_eq bit_iff_odd_drop_bit odd_iff_mod_2_eq_one)
  then show ?thesis by (simp add: change_and_test_bit_def change_bit_def Let_def bitv_def d md)
qed

lemma wf_free_lt:
  assumes "wf_free n R" "i \<in> set (R k)"
  shows "i < n"
proof -
  have "(0::nat) < 2 ^ k" by simp
  with wf_freeD(3) [OF assms] show ?thesis by linarith
qed

lemma ring_subset:
  "wf_free n R \<Longrightarrow> k < 11 \<Longrightarrow> set (ring_at fa k # map (pg mm) (R k)) \<subseteq> links fa mm n"
  using wf_free_lt by (auto simp: links_def)

lemma change_bit_out:
  assumes "i \<le> (n - 1) div 2 ^ Suc k" "n \<le> 2 ^ 20" "x \<notin> region a (bsz n k)"
  shows "change_bit (of_nat i) a m x = m x"
proof -
  have "drop_bit 3 (of_nat i :: u32) = of_nat (i div 8)"
    using pair_byte(2) [OF assms(1,2)] by (simp add: drop_bit_of_nat_32)
  then show ?thesis
    using assms(3) pair_byte(1) [OF assms(1,2), of a] by (auto simp: change_bit_def Let_def)
qed

lemma crep_flip:
  assumes lay: "layout fa mm n bm" and rep: "crep fa mm n bm m R B" and wf: "wf_free n R"
    and k: "k < 10" and i: "i \<le> (n - 1) div 2 ^ Suc k"
  shows "crep fa mm n bm (change_bit (of_nat i) (bm k) m) R (B(k := (B k)(i := \<not> B k i)))"
    and "x \<notin> meta fa mm n bm \<Longrightarrow> change_bit (of_nat i) (bm k) m x = m x"
proof -
  let ?m = "change_bit (of_nat i) (bm k) m"
  note n = layoutD(2) [OF lay]
  have out: "?m x = m x" if "x \<notin> region (bm k) (bsz n k)" for x
    using that by (rule change_bit_out [OF i n])
  then show "x \<notin> meta fa mm n bm \<Longrightarrow> ?m x = m x" using k by (auto simp: meta_def)
  have link: "?m x = m x" if "l \<in> links fa mm n" "x \<in> region l 12" for l x
    using link_bytes(3) [OF that(1) lay, of k] that(2) k by (intro out) force
  have "dll ?m (ring_at fa l) (map (pg mm) (R l))" if l: "l < 11" for l
  proof (rule dll_byte_cong [OF crepD(1) [OF rep l]])
    fix a x assume "a \<in> set (ring_at fa l # map (pg mm) (R l))" "x \<in> region a 8"
    then show "?m x = m x" using ring_subset [OF wf l] region_8_12 by (blast intro: link)
  qed
  moreover have "area_map ?m (ring_at fa l) = bm l" if l: "l < 11" for l
  proof -
    have "area_map ?m (ring_at fa l) = area_map m (ring_at fa l)"
      unfolding area_map_def using region_map_field(1) ring_link [OF l]
      by (intro ld32_cong link) blast+
    then show ?thesis using crepD(2) [OF rep l] by simp
  qed
  moreover have "bitv ?m (bm l) j = (B(k := (B k)(i := \<not> B k i))) l j"
    if l: "l < 10" and j: "j \<le> (n - 1) div 2 ^ Suc l" for l j
  proof (cases "l = k")
    case True
    then show ?thesis
      using bitv_flip [OF pair_byte(2) [OF i n] pair_byte(2) [OF j n], of "bm k" m] crepD(3) [OF rep l j] by auto
  next
    case False
    have "bm l + of_nat (j div 8) \<notin> region (bm k) (bsz n k)"
      using pair_byte(1) [OF j n, of "bm l"] layoutD(7) [OF lay, of l k] l k False by fastforce
    then show ?thesis using out crepD(3) [OF rep l j] False by (simp add: bitv_def)
  qed
  ultimately show "crep fa mm n bm ?m R (B(k := (B k)(i := \<not> B k i)))"
    unfolding crep_def rings_def maps_def bits_rep_def by blast
qed

text \<open>The rings of the free areas, as a family of disjoint rings over the links.\<close>

lemma ring_family:
  assumes lay: "layout fa mm n bm" and r: "\<forall>k<11. dll m (ring_at fa k) (map (pg mm) (R k))" and wf: "wf_free n R"
  shows "\<forall>k<11. dll m (ring_at fa k) (map (pg mm) (R k)) \<and>
      set (ring_at fa k # map (pg mm) (R k)) \<subseteq> links fa mm n"
    and "\<forall>j<11. \<forall>k<11. j \<noteq> k \<longrightarrow>
      set (ring_at fa j # map (pg mm) (R j)) \<inter> set (ring_at fa k # map (pg mm) (R k)) = {}"
proof -
  show "\<forall>k<11. dll m (ring_at fa k) (map (pg mm) (R k)) \<and>
      set (ring_at fa k # map (pg mm) (R k)) \<subseteq> links fa mm n"
    using r ring_subset [OF wf] by blast
  show "\<forall>j<11. \<forall>k<11. j \<noteq> k \<longrightarrow>
      set (ring_at fa j # map (pg mm) (R j)) \<inter> set (ring_at fa k # map (pg mm) (R k)) = {}"
  proof (intro allI impI)
    fix j k :: nat assume jk: "j < 11" "k < 11" "j \<noteq> k"
    have "pg mm i \<noteq> pg mm i'" if "i \<in> set (R j)" "i' \<in> set (R k)" for i i'
      using that jk(3) wf_free_same [OF wf that(1,2), of i] pg_inj [OF lay wf_free_lt [OF wf that(1)] wf_free_lt [OF wf that(2)]]
      by (metis blk_self)
    moreover have "ring_at fa j \<noteq> pg mm i" if "i \<in> set (R k)" for i
      using ring_neq_pg [OF lay jk(1) wf_free_lt [OF wf that]] .
    moreover have "ring_at fa k \<noteq> pg mm i" if "i \<in> set (R j)" for i
      using ring_neq_pg [OF lay jk(2) wf_free_lt [OF wf that]] .
    moreover have "ring_at fa j \<noteq> ring_at fa k" using jk by (simp add: ring_inj)
    ultimately show "set (ring_at fa j # map (pg mm) (R j)) \<inter> set (ring_at fa k # map (pg mm) (R k)) = {}"
      by auto
  qed
qed

lemma crep_insert:
  assumes lay: "layout fa mm n bm" and rep: "crep fa mm n bm m R B" and wf: "wf_free n R"
    and k: "k < 11" and i: "i < n" "i \<notin> free_set R"
  shows "crep fa mm n bm (list_insert_after (pg mm i) (ring_at fa k) m) (R(k := i # R k)) B"
    and "x \<notin> meta fa mm n bm \<Longrightarrow> list_insert_after (pg mm i) (ring_at fa k) m x = m x"
proof -
  let ?m = "list_insert_after (pg mm i) (ring_at fa k) m"
  have r: "\<forall>k<11. dll m (ring_at fa k) (map (pg mm) (R k))" using crepD(1) [OF rep] by blast
  note fam = ring_family [OF lay r wf]
  have nx: "nxt m (ring_at fa k) \<in> links fa mm n"
    using dll_neighbours(1) [OF crepD(1) [OF rep k], of "ring_at fa k"] ring_subset [OF wf k, of fa mm] by auto
  have out: "?m x = m x" if "\<forall>l\<in>links fa mm n. x \<notin> region l 8" for x
    using that nx pg_link [OF i(1)] ring_link [OF k] by (intro list_insert_after_out) blast+
  have "pg mm i \<notin> set (ring_at fa l # map (pg mm) (R l))" if l: "l < 11" for l
  proof -
    have "pg mm i \<noteq> pg mm j" if "j \<in> set (R l)" for j
      using i(2) pg_inj [OF lay i(1) wf_free_lt [OF wf that]] in_free_set [of j R] that blk_self by metis
    then show ?thesis using ring_neq_pg [OF lay l i(1)] by auto
  qed
  then have new: "\<forall>l<11. pg mm i \<notin> set (ring_at fa l # map (pg mm) (R l))" by blast
  have upd: "((\<lambda>k. map (pg mm) (R k))(k := pg mm i # map (pg mm) (R k))) l = map (pg mm) ((R(k := i # R k)) l)" for l
    by simp
  have "rings ?m fa mm (R(k := i # R k))"
    using lr.family_ins_after(1) [OF fam wsep_links [OF lay] pg_link [OF i(1)] new k]
    unfolding rings_def upd by blast
  then show "crep fa mm n bm ?m (R(k := i # R k)) B"
    using out by (intro crep_links_only [OF lay rep]) blast+
  show "x \<notin> meta fa mm n bm \<Longrightarrow> ?m x = m x"
    using link_bytes(1) [OF _ lay] region_8_12 by (intro out) blast
qed

lemma crep_remove:
  assumes lay: "layout fa mm n bm" and rep: "crep fa mm n bm m R B" and wf: "wf_free n R"
    and k: "k < 11" and i: "i \<in> set (R k)"
  shows "crep fa mm n bm (list_remove (pg mm i) m) (R(k := remove1 i (R k))) B"
    and "x \<notin> meta fa mm n bm \<Longrightarrow> list_remove (pg mm i) m x = m x"
proof -
  let ?m = "list_remove (pg mm i) m"
  obtain as bs where ab: "R k = as @ i # bs" "i \<notin> set as" using split_list_first [OF i] by blast
  have r: "\<forall>k<11. dll m (ring_at fa k) (map (pg mm) (R k))" using crepD(1) [OF rep] by blast
  note fam = ring_family [OF lay r wf]
  have mk: "map (pg mm) (R k) = map (pg mm) as @ pg mm i # map (pg mm) bs" by (simp add: ab)
  have iS: "pg mm i \<in> set (ring_at fa k # map (pg mm) (R k))" using i by simp
  have "nxt m (pg mm i) \<in> links fa mm n" "prv m (pg mm i) \<in> links fa mm n"
    using dll_neighbours [OF crepD(1) [OF rep k] iS] ring_subset [OF wf k] by blast+
  then have out: "?m x = m x" if "\<forall>l\<in>links fa mm n. x \<notin> region l 8" for x
    using that iS ring_subset [OF wf k] by (intro list_remove_out) blast+
  have upd: "((\<lambda>k. map (pg mm) (R k))(k := map (pg mm) as @ map (pg mm) bs)) l =
      map (pg mm) ((R(k := remove1 i (R k))) l)" for l
    using ab by (simp add: remove1_append)
  have "rings ?m fa mm (R(k := remove1 i (R k)))"
    using lr.family_rem(1) [OF fam wsep_links [OF lay] k mk] unfolding rings_def upd by blast
  then show "crep fa mm n bm ?m (R(k := remove1 i (R k))) B"
    using out by (intro crep_links_only [OF lay rep]) blast+
  show "x \<notin> meta fa mm n bm \<Longrightarrow> ?m x = m x"
    using link_bytes(1) [OF _ lay] region_8_12 by (intro out) blast
qed

section \<open>The bits of buddy pairs\<close>

text \<open>The bit of a pair says whether exactly one of the two blocks is free.\<close>

definition par :: "freelists \<Rightarrow> nat \<Rightarrow> nat \<Rightarrow> bool" where
  "par R k j \<longleftrightarrow> (2 * j * 2 ^ k \<in> set (R k)) \<noteq> ((2 * j + 1) * 2 ^ k \<in> set (R k))"

lemma par_block:
  assumes "2 ^ k dvd i"
  shows "par R k (i div 2 ^ Suc k) \<longleftrightarrow> (i \<in> set (R k)) \<noteq> (bud i k \<in> set (R k))"
proof -
  from assms obtain q where q: "i = q * 2 ^ k" by (metis dvd_def mult.commute)
  have d: "i div 2 ^ Suc k = q div 2" by (simp add: q)
  have b: "bud i k = (if even q then i + 2 ^ k else i - 2 ^ k)" by (simp add: bud_def q)
  show ?thesis
  proof (cases "even q")
    case True
    then obtain j where "q = 2 * j" by blast
    then show ?thesis using d b by (auto simp: par_def q algebra_simps)
  next
    case False
    then obtain j where "q = 2 * j + 1" using oddE by blast
    then show ?thesis using d b by (auto simp: par_def q algebra_simps)
  qed
qed

lemma pair_of_aligned:
  fixes i j :: nat
  assumes "2 ^ k dvd i"
  shows "(2 * j * 2 ^ k = i \<or> (2 * j + 1) * 2 ^ k = i) \<longleftrightarrow> j = i div 2 ^ Suc k"
proof -
  from assms obtain q where q: "i = q * 2 ^ k" by (metis dvd_def mult.commute)
  have d: "i div 2 ^ Suc k = q div 2" by (simp add: q)
  have c: "x * 2 ^ k = i \<longleftrightarrow> x = q" for x unfolding q by simp
  have "(2 * j = q \<or> 2 * j + 1 = q) \<longleftrightarrow> j = q div 2" by presburger
  then show ?thesis unfolding c d .
qed

text \<open>Putting a block into a list, or taking it out, toggles exactly the bit of its pair.\<close>

lemma par_toggle:
  assumes al: "2 ^ k dvd i" and S: "\<And>x. x \<in> set (R' k) \<longleftrightarrow> (x \<in> set (R k)) \<noteq> (x = i)"
    and o: "\<And>l. l \<noteq> k \<Longrightarrow> R' l = R l"
  shows "par R' = (par R)(k := (par R k)(i div 2 ^ Suc k := \<not> par R k (i div 2 ^ Suc k)))"
proof (intro ext)
  fix l j :: nat
  have ne: "2 * j * 2 ^ k \<noteq> (2 * j + 1) * 2 ^ k" by simp
  have "par R' k j \<longleftrightarrow> par R k j \<noteq> (j = i div 2 ^ Suc k)"
    unfolding par_def S using pair_of_aligned [OF al, of j] ne by argo
  then show "par R' l j = ((par R)(k := (par R k)(i div 2 ^ Suc k := \<not> par R k (i div 2 ^ Suc k)))) l j"
    using o by (cases "l = k") (auto simp: par_def)
qed

lemma par_insert:
  "2 ^ k dvd i \<Longrightarrow> i \<notin> set (R k) \<Longrightarrow>
    par (R(k := i # R k)) = (par R)(k := (par R k)(i div 2 ^ Suc k := \<not> par R k (i div 2 ^ Suc k)))"
  by (rule par_toggle) auto

lemma par_remove:
  "2 ^ k dvd i \<Longrightarrow> i \<in> set (R k) \<Longrightarrow> distinct (R k) \<Longrightarrow>
    par (R(k := remove1 i (R k))) = (par R)(k := (par R k)(i div 2 ^ Suc k := \<not> par R k (i div 2 ^ Suc k)))"
  by (rule par_toggle) auto

text \<open>The list of order 10 has no pairs.\<close>

lemma crep_bits_cong:
  assumes "crep fa mm n bm m R B" "\<And>k. k < 10 \<Longrightarrow> B k = B' k"
  shows "crep fa mm n bm m R B'"
  using assms by (simp add: crep_def bits_rep_def)

section \<open>Block numbers as machine words\<close>

lemma xor_exp_clear: "\<not> bit x k \<Longrightarrow> k < 32 \<Longrightarrow> x XOR push_bit k 1 = x + push_bit k 1" for x :: u32
proof -
  assume b: "\<not> bit x k" "k < 32"
  have z: "x AND push_bit k 1 = 0" by (rule bit_word_eqI) (use b in \<open>auto simp: bit_simps\<close>)
  have "x XOR push_bit k 1 = x OR push_bit k 1" by (rule bit_word_eqI) (use b in \<open>auto simp: bit_simps\<close>)
  also have "\<dots> = x + push_bit k 1" using word_plus_and_or [of x "push_bit k 1"] unfolding z by simp
  finally show ?thesis .
qed

lemma bit_of_nat_32: "k < 32 \<Longrightarrow> bit (of_nat i :: u32) k \<longleftrightarrow> odd (i div 2 ^ k)"
  by (simp add: bit_of_nat_iff bit_iff_odd [of i])

lemma buddy_word:
  assumes "2 ^ k dvd i" "k < 32"
  shows "(of_nat i :: u32) XOR - push_bit k (- 1) = of_nat (bud i k)"
proof -
  have m: "- push_bit k (- 1) = (push_bit k 1 :: u32)" by (simp add: push_bit_eq_mult del: push_bit_minus_one_eq_not_mask)
  have p: "(push_bit k 1 :: u32) = of_nat (2 ^ k)" by (simp add: push_bit_eq_mult)
  have up: "(of_nat j :: u32) XOR push_bit k 1 = of_nat (j + 2 ^ k)" if "even (j div 2 ^ k)" for j
    using xor_exp_clear [of "of_nat j" k] that assms(2) by (simp add: bit_of_nat_32 p)
  show ?thesis
  proof (cases "even (i div 2 ^ k)")
    case True
    then have "bud i k = i + 2 ^ k" by (simp add: bud_def)
    then show ?thesis using up [OF True] by (simp only: m)
  next
    case False
    from assms(1) obtain q where q: "i = q * 2 ^ k" by (metis dvd_def mult.commute)
    with False obtain j where "q = Suc (2 * j)" by (auto elim: oddE)
    then have i: "i = 2 * j * 2 ^ k + 2 ^ k" and b: "bud i k = 2 * j * 2 ^ k" using False by (simp_all add: q bud_def)
    have "(of_nat (2 * j * 2 ^ k) :: u32) XOR push_bit k 1 = of_nat i"
      using up [of "2 * j * 2 ^ k"] unfolding i by simp
    then have "(of_nat i :: u32) XOR push_bit k 1 = of_nat (2 * j * 2 ^ k)"
      by (metis xor.right_neutral xor_self_eq xor.assoc)
    then show ?thesis by (simp only: m b)
  qed
qed

lemma parent_word:
  assumes "i < 2 ^ 32"
  shows "(of_nat i :: u32) AND push_bit 1 (push_bit k (- 1)) = of_nat (parent i k)"
proof -
  have "push_bit 1 (push_bit k (- 1)) = (NOT (mask (Suc k)) :: u32)"
    unfolding push_bit_push_bit plus_1_eq_Suc by (rule push_bit_minus_one_eq_not_mask)
  moreover have "of_nat i AND NOT (mask (Suc k)) = (of_nat (parent i k) :: u32)"
  proof -
    have "unat (of_nat i AND NOT (mask (Suc k)) :: u32) = parent i k"
      by (simp only: unat_and_not_mask unat_of_nat_32 [OF assms] parent_def)
    moreover have "unat (of_nat (parent i k) :: u32) = parent i k"
      using assms by (intro unat_of_nat_32) (simp add: parent_def)
    ultimately show ?thesis by (simp only: word_unat_eq_iff)
  qed
  ultimately show ?thesis by (simp only:)
qed

lemma parent_div: "parent i k div 2 ^ Suc k = i div 2 ^ Suc k"
proof -
  have "parent i k = i div 2 ^ Suc k * 2 ^ Suc k"
    unfolding parent_def by (rule minus_mod_eq_div_mult)
  then show ?thesis by (metis nonzero_mult_div_cancel_right power_not_zero zero_neq_numeral)
qed

lemma pair_word:
  assumes "i < 2 ^ 32"
  shows "drop_bit 1 (of_nat (i div 2 ^ Suc k) :: u32) = of_nat (parent i k div 2 ^ Suc (Suc k))"
proof -
  have "i div 2 ^ Suc k < 2 ^ 32" using assms by (rule le_less_trans [OF div_le_dividend])
  moreover have "i div 2 ^ Suc k div 2 ^ 1 = parent i k div 2 ^ Suc (Suc k)"
    by (simp only: power_Suc2 [of _ "Suc k"] div_mult2_eq parent_div power_one_right)
  ultimately show ?thesis by (simp only: drop_bit_of_nat_32)
qed

section \<open>Freeing refines its specification\<close>

lemma free_loop_step:
  assumes "k < 10" "2 ^ k dvd i" "i < 2 ^ 20"
  shows "free_loop mm (of_nat k) area (of_nat (i div 2 ^ Suc k)) (push_bit k (- 1)) (of_nat i) m =
    (let j = i div 2 ^ Suc k; m1 = change_bit (of_nat j) (area_map m area) m
     in if bitv m (area_map m area) j
        then free_loop mm (of_nat (Suc k)) (area + 12) (of_nat (parent i k div 2 ^ Suc (Suc k)))
          (push_bit (Suc k) (- 1)) (of_nat (parent i k)) (list_remove (pg mm (bud i k)) m1)
        else (area, of_nat i, m1))"
proof -
  have i32: "i < 2 ^ 32" using assms(3) by simp
  have k: "(of_nat k :: u32) < MAX_ORDER - 1"
    using assms(1) by (simp add: word_less_nat_alt unat_of_nat_32)
  have j: "i div 2 ^ Suc k < 2 ^ 20" using assms(3) by (rule le_less_trans [OF div_le_dividend])
  have b: "mm + 12 * (of_nat i XOR - push_bit k (- 1)) = pg mm (bud i k)"
    using assms(1,2) by (simp only: buddy_word pg_def)
  have msk: "push_bit 1 (push_bit k (- 1)) = (push_bit (Suc k) (- 1) :: u32)"
    by (simp only: push_bit_push_bit plus_1_eq_Suc)
  note par = parent_word [OF i32, of k, unfolded msk]
  show ?thesis
    unfolding free_loop.simps [of mm "of_nat k"] if_P [OF k] change_and_test_bit_alt [OF j] prod.case
      Let_def b msk pair_word [OF i32] par of_nat_Suc add.commute [of "1 :: u32"]
    by (simp only: if_not_P if_P split: if_split) simp
qed

lemma free_loop_end: "free_loop mm 10 area b msk p m = (area, p, m)"
  by (simp add: free_loop.simps)

lemma bud_div:
  assumes "2 ^ k dvd i"
  shows "bud i k div 2 ^ Suc k = i div 2 ^ Suc k"
proof -
  have "(j * 2 ^ Suc k + 2 ^ k) div 2 ^ Suc k = j" "j * 2 ^ Suc k div 2 ^ Suc k = j" for j :: nat
    by (rule div_nat_eqI) simp_all
  from assms this show ?thesis by (cases rule: halves) (simp_all only:)
qed

lemma pendingD:
  assumes "pending n R i k"
  shows "k < 11" "2 ^ k dvd i" "i < n" "i \<notin> free_set R" "i \<notin> set (R k)"
proof -
  note p = assms [unfolded pending_def]
  have "(0::nat) < 2 ^ k" by simp
  then show "i < n" using p by linarith
  show "i \<notin> free_set R" using p blk_self [of i k] by blast
  then show "i \<notin> set (R k)" using blk_free [of i R k] blk_self [of i k] by blast
qed (use assms in \<open>auto simp: pending_def\<close>)

lemma ring_at_Suc: "ring_at fa k + 12 = ring_at fa (Suc k)"
  by (simp add: ring_at_def algebra_simps)

text \<open>The loop and the insertion at its end.\<close>

definition free_mem :: "addr \<Rightarrow> addr \<times> u32 \<times> memory \<Rightarrow> memory" where
  "free_mem mm r = (case r of (area, page_idx, m) \<Rightarrow> list_insert_after (mm + 12 * page_idx) area m)"

lemma free_mem_simp [simp]: "free_mem mm (area, of_nat i, m) = list_insert_after (pg mm i) area m"
  by (simp add: free_mem_def pg_def)

lemma free_loop_refines:
  assumes lay: "layout fa mm n bm"
    and "crep fa mm n bm m R (par R)" "wf_free n R" "pending n R i k"
  shows "crep fa mm n bm
      (free_mem mm (free_loop mm (of_nat k) (ring_at fa k) (of_nat (i div 2 ^ Suc k)) (push_bit k (- 1)) (of_nat i) m))
      (afree R i k) (par (afree R i k)) \<and>
    (\<forall>x. x \<notin> meta fa mm n bm \<longrightarrow>
      free_mem mm (free_loop mm (of_nat k) (ring_at fa k) (of_nat (i div 2 ^ Suc k)) (push_bit k (- 1)) (of_nat i) m) x = m x)"
  using assms(2-)
proof (induction R i k arbitrary: m rule: afree.induct)
  case (1 R i k)
  note rep = "1.prems"(1) and wf = "1.prems"(2) and p = "1.prems"(3)
  note k = pendingD(1) [OF p] and al = pendingD(2) [OF p] and i = pendingD(3) [OF p]
  note iR = pendingD(4,5) [OF p]
  have i20: "i < 2 ^ 20" using i layoutD(2) [OF lay] by simp
  let ?j = "i div 2 ^ Suc k" and ?m = "change_bit (of_nat (i div 2 ^ Suc k)) (bm k) m"
  have j: "?j \<le> (n - 1) div 2 ^ Suc k" using i by (intro div_le_mono) simp
  note area = crepD(2) [OF rep k]
  consider "k = 10" | "k < 10" "bud i k \<notin> set (R k)" | "k < 10" "bud i k \<in> set (R k)"
    using k by linarith
  then show ?case
  proof cases
    case 1
    then have af: "afree R i k = R(k := i # R k)" by (simp add: afree.simps [of R i 10])
    have "crep fa mm n bm m R (par (afree R i k))"
      unfolding af by (rule crep_bits_cong [OF rep]) (simp add: 1 par_def fun_eq_iff)
    note ins = crep_insert [OF lay this wf k i iR(1)]
    have "free_loop mm (of_nat k) a b c p m = (a, p, m)" for a b c p
      using 1 by (simp add: free_loop_end)
    note last = this [of "ring_at fa k"]
    show ?thesis
      unfolding last free_mem_simp using ins af by metis
  next
    case 2
    then have af: "afree R i k = R(k := i # R k)" by (simp add: afree.simps [of R i k])
    have "\<not> par R k ?j" using par_block [OF al, of R] 2(2) iR(2) by blast
    then have off: "\<not> bitv m (bm k) ?j" using crepD(3) [OF rep 2(1) j] by simp
    note flip = crep_flip [OF lay rep wf 2(1) j]
    have "par (afree R i k) = (par R)(k := (par R k)(?j := \<not> par R k ?j))"
      unfolding af using al iR(2) by (rule par_insert)
    then have "crep fa mm n bm ?m R (par (afree R i k))" using flip(1) by (simp only:)
    note ins = crep_insert [OF lay this wf k i iR(1)]
    show ?thesis
      unfolding free_loop_step [OF 2(1) al i20] area Let_def if_not_P [OF off] free_mem_simp
      using ins flip(2) af by metis
  next
    case 3
    let ?b = "bud i k" and ?R = "R(k := remove1 (bud i k) (R k))"
    let ?m2 = "list_remove (pg mm ?b) ?m"
    have af: "afree R i k = afree ?R (parent i k) (Suc k)" using 3 by (simp add: afree.simps [of R i k])
    have "par R k ?j" using par_block [OF al, of R] 3(2) iR(2) by blast
    then have on: "bitv m (bm k) ?j" using crepD(3) [OF rep 3(1) j] by simp
    note flip = crep_flip [OF lay rep wf 3(1) j]
    have "par ?R = (par R)(k := (par R k)(?j := \<not> par R k ?j))"
      using par_remove [where R = R, OF bud_dvd [OF al] 3(2) wf_freeD(4) [OF wf 3(2)]] unfolding bud_div [OF al] .
    then have "crep fa mm n bm ?m R (par ?R)" using flip(1) by (simp only:)
    note del = crep_remove [OF lay this wf k 3(2)]
    have ih: "crep fa mm n bm (free_mem mm (F ?m2)) (afree R i k) (par (afree R i k)) \<and>
        (\<forall>x. x \<notin> meta fa mm n bm \<longrightarrow> free_mem mm (F ?m2) x = ?m2 x)"
      if "F = free_loop mm (of_nat (Suc k)) (ring_at fa (Suc k)) (of_nat (parent i k div 2 ^ Suc (Suc k)))
        (push_bit (Suc k) (- 1)) (of_nat (parent i k))" for F
      unfolding that af
      by (rule "1.IH" [OF conjI [OF 3] del(1) wf_free_remove [OF wf] pending_merge [OF wf p 3]])
    show ?thesis
      unfolding free_loop_step [OF 3(1) al i20] area Let_def if_P [OF on] ring_at_Suc
      using ih [OF refl] del(2) flip(2) by metis
  qed
qed

section \<open>Allocating refines its specification\<close>

lemma pg_add: "pg mm i + 12 * of_nat j = pg mm (i + j)"
  by (simp add: pg_def algebra_simps)

lemma mark_used_word:
  assumes "i < 2 ^ 32"
  shows "mark_used (of_nat i) h area m = change_bit (of_nat (i div 2 ^ Suc h)) (area_map m area) m"
  using assms by (simp only: mark_used_def drop_bit_of_nat_32 plus_1_eq_Suc)

lemma expand_loop_step:
  assumes "low \<le> h" "h < 10" "i < 2 ^ 32"
  shows "expand_loop (pg mm i) (of_nat i) (int low) (int (Suc h)) (push_bit (Suc h) 1) (ring_at fa (Suc h)) m =
    (let m1 = list_insert_after (pg mm i) (ring_at fa h) m;
         m2 = change_bit (of_nat (i div 2 ^ Suc h)) (area_map m1 (ring_at fa h)) m1
     in expand_loop (pg mm (i + 2 ^ h)) (of_nat (i + 2 ^ h)) (int low) (int h) (push_bit h 1) (ring_at fa h) m2)"
proof -
  have hi: "int low < int (Suc h)" using assms(1) by simp
  have sz: "drop_bit 1 (push_bit (Suc h) 1) = (push_bit h 1 :: u32)"
    by (rule bit_word_eqI) (use assms(2) in \<open>auto simp: bit_simps\<close>)
  have p: "(push_bit h 1 :: u32) = of_nat (2 ^ h)" by (simp add: push_bit_eq_mult)
  have e: "int (Suc h) - 1 = int h" "ring_at fa (Suc h) - 12 = ring_at fa h"
    by (simp_all add: ring_at_def algebra_simps)
  show ?thesis
    unfolding expand_loop.simps [of "pg mm i" "of_nat i" "int low" "int (Suc h)"] if_P [OF hi] Let_def e sz
      nat_int mark_used_word [OF assms(3)]
    unfolding p pg_add of_nat_add ..
qed

lemma expand_loop_refines:
  assumes lay: "layout fa mm n bm"
    and "crep fa mm n bm m R (par R)" "wf_free n R" "merged R" "pending n R i high" "low \<le> high"
    "aexpand R i low high = (j, R')"
  shows "\<exists>m'. expand_loop (pg mm i) (of_nat i) (int low) (int high) (push_bit high 1) (ring_at fa high) m = (pg mm j, m') \<and>
    crep fa mm n bm m' R' (par R') \<and> (\<forall>x. x \<notin> meta fa mm n bm \<longrightarrow> m' x = m x)"
  using assms(2-)
proof (induction R i low high arbitrary: m rule: aexpand.induct)
  case (1 R i low high)
  note rep = "1.prems"(1) and w = "1.prems"(2) and mg = "1.prems"(3) and p = "1.prems"(4)
  show ?case
  proof (cases "low < high")
    case False
    then have "low = high" using "1.prems"(5) by simp
    then show ?thesis
      using "1.prems"(6) rep by (simp add: aexpand.simps [of R i high high] expand_loop.simps [of _ _ "int high" "int high"])
  next
    case True
    define h where "h = high - 1"
    with True have h: "high = Suc h" and lo: "low \<le> h" by simp_all
    note p = p [unfolded h] and sp = pending_split [OF w mg p [unfolded h]]
    note q = pendingD [OF sp(4)]
    have h10: "h < 10" using pendingD(1) [OF p] by simp
    have i32: "i < 2 ^ 32" using q(3) layoutD(2) [OF lay] by simp
    let ?R = "R(h := i # R h)" and ?j = "i div 2 ^ Suc h"
    let ?m1 = "list_insert_after (pg mm i) (ring_at fa h) m"
    let ?m2 = "change_bit (of_nat ?j) (bm h) ?m1"
    have j: "?j \<le> (n - 1) div 2 ^ Suc h" using q(3) by (intro div_le_mono) simp
    note ins = crep_insert [OF lay rep w q(1,3,4)]
    note flip = crep_flip [OF lay ins(1) sp(1) h10 j]
    have "par ?R = (par R)(h := (par R h)(?j := \<not> par R h ?j))"
      using q(2,5) by (rule par_insert)
    then have rep2: "crep fa mm n bm ?m2 ?R (par ?R)" using flip(1) by (simp only:)
    have ex: "aexpand ?R (i + 2 ^ h) low h = (j, R')"
      using "1.prems"(6) True unfolding aexpand.simps [of R i low high] h_def by (simp only: if_True)
    note area = crepD(2) [OF ins(1) q(1)]
    have "\<exists>m'. expand_loop (pg mm (i + 2 ^ h)) (of_nat (i + 2 ^ h)) (int low) (int h) (push_bit h 1) (ring_at fa h) ?m2
        = (pg mm j, m') \<and> crep fa mm n bm m' R' (par R') \<and> (\<forall>x. x \<notin> meta fa mm n bm \<longrightarrow> m' x = ?m2 x)"
      by (rule "1.IH" [folded h_def, OF True rep2 sp(1-3) lo ex])
    then show ?thesis
      unfolding h expand_loop_step [OF lo h10 i32] Let_def area using ins(2) flip(2) by metis
  qed
qed

section \<open>The invariant of the allocator\<close>

definition buddy_inv :: "'a mm_state_scheme \<Rightarrow> nat \<Rightarrow> (nat \<Rightarrow> addr) \<Rightarrow> freelists \<Rightarrow> bool" where
  "buddy_inv s n bm R \<longleftrightarrow>
     layout (free_area s) (mem_map s) n bm \<and> crep (free_area s) (mem_map s) n bm (mem s) R (par R) \<and>
     wf_free n R \<and> merged R \<and> free_page_count s = of_nat (free_cnt R)"

lemma buddy_invD:
  assumes "buddy_inv s n bm R"
  shows "layout (free_area s) (mem_map s) n bm" "crep (free_area s) (mem_map s) n bm (mem s) R (par R)"
    "wf_free n R" "merged R" "free_page_count s = of_nat (free_cnt R)"
  using assms by (simp_all add: buddy_inv_def)

definition own :: "'a mm_state_scheme \<Rightarrow> nat \<Rightarrow> (nat \<Rightarrow> addr) \<Rightarrow> addr set" where
  "own s n bm = meta (free_area s) (mem_map s) n bm"

text \<open>The states an operation can lead to: only memory and the counter of free pages change.\<close>

definition mm_step :: "'a mm_state_scheme \<Rightarrow> nat \<Rightarrow> (nat \<Rightarrow> addr) \<Rightarrow> 'a mm_state_scheme \<Rightarrow> bool" where
  "mm_step s n bm s' \<longleftrightarrow>
     s' = s\<lparr>mem := mem s', free_page_count := free_page_count s'\<rparr> \<and>
     (\<forall>x. x \<notin> own s n bm \<longrightarrow> mem s' x = mem s x)"

lemma mm_step_globals:
  assumes "mm_step s n bm s'"
  shows "free_area s' = free_area s" "mem_map s' = mem_map s" "mem_map_end s' = mem_map_end s"
    "page_count s' = page_count s" "img_end s' = img_end s" "kpagedir s' = kpagedir s"
    "io s' = io s" "dev s' = dev s" "own s' = own s" "mm_state.more s' = mm_state.more s"
proof -
  from assms obtain m c where s': "s' = s\<lparr>mem := m, free_page_count := c\<rparr>" by (auto simp: mm_step_def)
  show "free_area s' = free_area s" "mem_map s' = mem_map s" "mem_map_end s' = mem_map_end s"
    "page_count s' = page_count s" "img_end s' = img_end s" "kpagedir s' = kpagedir s"
    "io s' = io s" "dev s' = dev s" "own s' = own s" "mm_state.more s' = mm_state.more s"
    unfolding s' by (simp_all add: own_def fun_eq_iff)
qed

lemma ptr_diff_pg: "i < 2 ^ 20 \<Longrightarrow> ptr_diff (pg mm i) mm 12 = of_nat i"
  unfolding pg_alt by (rule ptr_diff_array) simp_all

lemma free_pages_refines:
  assumes inv: "buddy_inv s n bm R" and p: "pending n R i k"
  shows "buddy_inv (free_pages (pg (mem_map s) i) (of_nat k) s) n bm (afree R i k)"
    and "mm_step s n bm (free_pages (pg (mem_map s) i) (of_nat k) s)"
proof -
  note I = buddy_invD [OF inv] and q = pendingD [OF p]
  have i20: "i < 2 ^ 20" using q(3) layoutD(2) [OF I(1)] by simp
  have i32: "i < 2 ^ 32" using i20 by simp
  have k: "unat (of_nat k :: u32) = k" using q(1) by (intro unat_of_nat_32) simp
  have bi: "drop_bit (1 + k) (of_nat i :: u32) = of_nat (i div 2 ^ Suc k)"
    by (simp only: drop_bit_of_nat_32 [OF i32] plus_1_eq_Suc)
  have ar: "free_area s + 12 * of_nat k = ring_at (free_area s) k" by (simp add: ring_at_def)
  define r where "r = free_loop (mem_map s) (of_nat k) (ring_at (free_area s) k) (of_nat (i div 2 ^ Suc k))
    (push_bit k (- 1)) (of_nat i) (mem s)"
  define s' where "s' = s\<lparr>mem := free_mem (mem_map s) r, free_page_count := free_page_count s - push_bit k (- 1)\<rparr>"
  have s': "free_pages (pg (mem_map s) i) (of_nat k) s = s'"
  proof -
    obtain a b d where r: "r = (a, b, d)" by (cases r) auto
    note fl = r [unfolded r_def]
    show ?thesis
      unfolding free_pages_def Let_def ptr_diff_pg [OF i20] k bi s'_def r
      by (simp add: fl ar free_mem_def del: push_bit_minus_one_eq_not_mask power_Suc)
  qed
  note ref = free_loop_refines [OF I(1-3) p, folded r_def]
  have cnt: "free_page_count s' = of_nat (free_cnt (afree R i k))"
    using afree_correct [OF I(3,4) p] I(5) by (simp add: s'_def push_bit_eq_mult del: push_bit_minus_one_eq_not_mask)
  show "mm_step s n bm (free_pages (pg (mem_map s) i) (of_nat k) s)"
    unfolding s' mm_step_def own_def using ref by (simp add: s'_def)
  show "buddy_inv (free_pages (pg (mem_map s) i) (of_nat k) s) n bm (afree R i k)"
    unfolding s' buddy_inv_def cnt using ref I(1) afree_correct [OF I(3,4) p] by (simp add: s'_def)
qed

lemma ring_head:
  assumes "layout fa mm n bm" "crep fa mm n bm m R B" "k < 11" "wf_free n R"
  shows "R k = [] \<Longrightarrow> nxt m (ring_at fa k) = ring_at fa k"
    "R k = i # rest \<Longrightarrow> nxt m (ring_at fa k) = pg mm i \<and> pg mm i \<noteq> ring_at fa k"
proof -
  note h = dll_head [OF crepD(1) [OF assms(2,3)]]
  show "R k = [] \<Longrightarrow> nxt m (ring_at fa k) = ring_at fa k" using h by simp
  assume R: "R k = i # rest"
  then have "i < n" using wf_free_lt [OF assms(4), of i k] by simp
  then show "nxt m (ring_at fa k) = pg mm i \<and> pg mm i \<noteq> ring_at fa k"
    using h R ring_neq_pg [OF assms(1,3)] by force
qed

lemma alloc_loop_skip:
  assumes "nxt (mem s) area = area" "c \<le> 10"
  shows "alloc_loop order (of_nat c) area s =
    (if c < 10 then alloc_loop order (of_nat (Suc c)) (area + 12) s else (0, s))"
proof -
  have "(of_nat c + 1 \<le> MAX_ORDER - 1) = (c < 10)"
  proof -
    have "of_nat c + 1 = (of_nat (Suc c) :: u32)" by simp
    moreover have "unat (of_nat (Suc c) :: u32) = Suc c" using assms(2) by (intro unat_of_nat_32) simp
    ultimately show ?thesis by (simp only: word_le_nat_alt) auto
  qed
  then show ?thesis using assms(1) by (simp add: alloc_loop.simps [of order "of_nat c"] Let_def add.commute)
qed

lemma alloc_loop_take:
  assumes nx: "nxt (mem s) area = pg (mem_map s) i" "pg (mem_map s) i \<noteq> area"
    and i: "i < 2 ^ 20" and kc: "k \<le> c" "c \<le> 10"
    and m1: "m1 = list_remove (pg (mem_map s) i) (mem s)"
    and m2: "m2 = (if c \<noteq> 10 then change_bit (of_nat (i div 2 ^ Suc c)) (area_map m1 area) m1 else m1)"
    and ex: "expand_loop (pg (mem_map s) i) (of_nat i) (int k) (int c) (push_bit c 1) area m2 = (page, m3)"
  shows "alloc_loop (of_nat k) (of_nat c) area s =
    (page, s\<lparr>free_page_count := free_page_count s - push_bit k 1, mem := m3\<rparr>)"
proof -
  have i32: "i < 2 ^ 32" using i by simp
  have u: "unat (of_nat k :: u32) = k" "unat (of_nat c :: u32) = c" using kc by (intro unat_of_nat_32; simp)+
  have sg: "sint (of_nat k :: u32) = int k" "sint (of_nat c :: u32) = int c"
    using kc by (intro sint_of_nat_32; simp)+
  have c10: "((of_nat c :: u32) \<noteq> MAX_ORDER - 1) = (c \<noteq> 10)"
    using u(2) by (auto simp: word_unat_eq_iff)
  have mu: "(if c \<noteq> 10 then mark_used (of_nat i) c area m1 else m1) = m2"
    unfolding m2 mark_used_word [OF i32] ..
  have ne: "pg (mem_map s) i \<noteq> area" by (rule nx(2))
  show ?thesis
    unfolding alloc_loop.simps [of "of_nat k" "of_nat c"] Let_def nx(1) if_P [OF ne] ptr_diff_pg [OF i]
      u sg c10 m1 [symmetric] mu expand_def nat_int ex prod.case ..
qed

lemma alloc_loop_refines:
  assumes inv: "buddy_inv s n bm R" and "k \<le> c" "c \<le> 10"
  shows "case aalloc_from R k c of
      None \<Rightarrow> alloc_loop (of_nat k) (of_nat c) (ring_at (free_area s) c) s = (0, s)
    | Some (j, R') \<Rightarrow> \<exists>m'. alloc_loop (of_nat k) (of_nat c) (ring_at (free_area s) c) s =
          (pg (mem_map s) j, s\<lparr>free_page_count := free_page_count s - push_bit k 1, mem := m'\<rparr>) \<and>
        crep (free_area s) (mem_map s) n bm m' R' (par R') \<and> (\<forall>x. x \<notin> own s n bm \<longrightarrow> m' x = mem s x)"
  using assms(2,3)
proof (induction "10 - c" arbitrary: c rule: less_induct)
  case less
  note I = buddy_invD [OF inv] and kc = less.prems
  let ?fa = "free_area s" and ?mm = "mem_map s"
  have c11: "c < 11" using kc by simp
  show ?case
  proof (cases "R c")
    case Nil
    then have nx: "nxt (mem s) (ring_at ?fa c) = ring_at ?fa c" by (rule ring_head(1) [OF I(1,2) c11 I(3)])
    note sk = alloc_loop_skip [OF nx kc(2), of "of_nat k", unfolded ring_at_Suc]
    have af: "aalloc_from R k c = aalloc_from R k (Suc c)"
      using Nil kc by (simp add: aalloc_from.simps [of R k c])
    show ?thesis
    proof (cases "c < 10")
      case True
      then show ?thesis using less.hyps [of "Suc c"] kc unfolding af sk if_P [OF True] by simp
    next
      case False
      have "aalloc_from R k (Suc c) = None" using False by (simp add: aalloc_from.simps [of R k "Suc c"])
      then show ?thesis unfolding af sk using False by simp
    qed
  next
    case (Cons i rest)
    have iR: "i \<in> set (R c)" and rem: "remove1 i (R c) = rest" using Cons by simp_all
    note hd = ring_head(2) [OF I(1,2) c11 I(3) Cons]
    have i: "i < n" by (rule wf_free_lt [OF I(3) iR])
    have i20: "i < 2 ^ 20" using i layoutD(2) [OF I(1)] by simp
    note tk = pending_take [OF I(3,4) Cons]
    define m1 where "m1 = list_remove (pg ?mm i) (mem s)"
    define m2 where "m2 = (if c \<noteq> 10 then change_bit (of_nat (i div 2 ^ Suc c)) (area_map m1 (ring_at ?fa c)) m1 else m1)"
    note del = crep_remove [OF I(1,2,3) c11 iR, folded m1_def, unfolded rem]
    have rep2: "crep ?fa ?mm n bm m2 (R(c := rest)) (par (R(c := rest))) \<and> (\<forall>x. x \<notin> own s n bm \<longrightarrow> m2 x = mem s x)"
    proof (cases "c = 10")
      case True
      then have m2: "m2 = m1" unfolding m2_def by simp
      have "crep ?fa ?mm n bm m1 (R(c := rest)) (par (R(c := rest)))"
        by (rule crep_bits_cong [OF del(1)]) (simp add: True par_def fun_eq_iff)
      then show ?thesis using del(2) unfolding own_def m2 by blast
    next
      case False
      then have c10: "c < 10" using kc by simp
      have j: "i div 2 ^ Suc c \<le> (n - 1) div 2 ^ Suc c" using i by (intro div_le_mono) simp
      have m2: "m2 = change_bit (of_nat (i div 2 ^ Suc c)) (bm c) m1"
        unfolding m2_def crepD(2) [OF del(1) c11] using False by simp
      note flip = crep_flip [OF I(1) del(1) tk(1) c10 j, folded m2]
      have "par (R(c := rest)) = (par R)(c := (par R c)(i div 2 ^ Suc c := \<not> par R c (i div 2 ^ Suc c)))"
        using par_remove [where R = R, OF wf_freeD(2) [OF I(3) iR] iR wf_freeD(4) [OF I(3) iR]] unfolding rem .
      then have "crep ?fa ?mm n bm m2 (R(c := rest)) (par (R(c := rest)))" using flip(1) by (simp only:)
      moreover have "m2 x = mem s x" if "x \<notin> own s n bm" for x
        using flip(2) [OF that [unfolded own_def]] del(2) [OF that [unfolded own_def]] by (rule trans)
      ultimately show ?thesis by blast
    qed
    obtain j R' where ae: "aexpand (R(c := rest)) i k c = (j, R')" by (cases "aexpand (R(c := rest)) i k c") auto
    have af: "aalloc_from R k c = Some (j, R')"
      using Cons kc ae by (simp add: aalloc_from.simps [of R k c])
    from expand_loop_refines [OF I(1) conjunct1 [OF rep2] tk(1-3) kc(1) ae] obtain m3 where
      m3: "expand_loop (pg ?mm i) (of_nat i) (int k) (int c) (push_bit c 1) (ring_at ?fa c) m2 = (pg ?mm j, m3)"
        "crep ?fa ?mm n bm m3 R' (par R')" "\<forall>x. x \<notin> own s n bm \<longrightarrow> m3 x = m2 x"
      unfolding own_def by blast
    note al = alloc_loop_take [OF conjunct1 [OF hd] conjunct2 [OF hd] i20 kc m1_def m2_def m3(1)]
    have "m3 x = mem s x" if "x \<notin> own s n bm" for x using that m3(3) rep2 by simp
    then show ?thesis unfolding af al option.case prod.case using m3(2) by blast
  qed
qed

end
