(* ===== verification/PageAlloc.thy ===== *)
theory PageAlloc
  imports BuddyRefine
begin

text \<open>
  The page allocator as its clients see it. \<open>frees\<close> reads the free lists off the memory by
  walking the rings; \<open>mm_ok\<close> is the invariant over them. The locale \<open>page_allocator\<close> states
  what a client relies on, without the representation; its lemmas say that blocks handed out
  are aligned, never overlap, and are exactly what is missing from the free set.
\<close>

section \<open>Reading the free lists\<close>

text \<open>The loop of \<open>list_foreach_struct\<close>, for at most \<open>f\<close> elements.\<close>

fun walk :: "nat \<Rightarrow> memory \<Rightarrow> addr \<Rightarrow> addr \<Rightarrow> addr list" where
  "walk 0 m h a = []"
| "walk (Suc f) m h a = (if a = h then [] else a # walk f m h (nxt m a))"

lemma walk_linked:
  assumes "successively (linked m) (a # xs @ [h])" "h \<notin> set xs" "length xs \<le> f"
  shows "walk f m h (nxt m a) = xs"
  using assms
proof (induction xs arbitrary: a f)
  case Nil
  then have "nxt m a = h" by (simp add: linked_def)
  then show ?case by (cases f) simp_all
next
  case (Cons x xs)
  then have "nxt m a = x" by (simp add: linked_def)
  moreover obtain g where "f = Suc g" "length xs \<le> g" using Cons.prems(3) by (cases f) auto
  moreover have "walk g m h (nxt m x) = xs"
    using Cons.prems \<open>length xs \<le> g\<close> by (intro Cons.IH) auto
  ultimately show ?case using Cons.prems(2) by auto
qed

lemma walk_dll: "dll m h xs \<Longrightarrow> length xs \<le> f \<Longrightarrow> walk f m h (nxt m h) = xs"
  by (rule walk_linked) (auto simp: dll_def)

definition frees :: "'a mm_state_scheme \<Rightarrow> freelists" where
  "frees s k =
     (if k < 11
      then map (\<lambda>a. unat (ptr_diff a (mem_map s) 12))
        (walk (unat (page_count s)) (mem s) (ring_at (free_area s) k) (nxt (mem s) (ring_at (free_area s) k)))
      else [])"

definition bmaps :: "'a mm_state_scheme \<Rightarrow> nat \<Rightarrow> addr" where
  "bmaps s k = area_map (mem s) (ring_at (free_area s) k)"

definition mm_rep :: "'a mm_state_scheme \<Rightarrow> freelists \<Rightarrow> bool" where
  "mm_rep s R \<longleftrightarrow> buddy_inv s (unat (page_count s)) (bmaps s) R"

definition mm_ok :: "'a mm_state_scheme \<Rightarrow> bool" where
  "mm_ok s \<longleftrightarrow> mm_rep s (frees s)"

text \<open>The memory the allocator owns.\<close>

definition mm_own :: "'a mm_state_scheme \<Rightarrow> addr set" where
  "mm_own s = own s (unat (page_count s)) (bmaps s)"

definition mm_frame :: "'a mm_state_scheme \<Rightarrow> 'a mm_state_scheme \<Rightarrow> bool" where
  "mm_frame s s' \<longleftrightarrow>
     s' = s\<lparr>mem := mem s', free_page_count := free_page_count s'\<rparr> \<and>
     mm_own s' = mm_own s \<and> (\<forall>x. x \<notin> mm_own s \<longrightarrow> mem s' x = mem s x)"

lemma length_free_list:
  assumes "wf_free n R"
  shows "length (R k) \<le> n"
proof -
  have "distinct (R k)" using assms by (simp add: wf_free_def)
  then have "length (R k) = card (set (R k))" by (simp add: distinct_card)
  also have "\<dots> \<le> card {..<n}" using wf_free_lt [OF assms] by (intro card_mono) auto
  finally show ?thesis by simp
qed

lemma mm_rep_frees:
  assumes "mm_rep s R"
  shows "frees s = R"
proof
  fix k
  note I = buddy_invD [OF assms [unfolded mm_rep_def]]
  show "frees s k = R k"
  proof (cases "k < 11")
    case True
    have "walk (unat (page_count s)) (mem s) (ring_at (free_area s) k) (nxt (mem s) (ring_at (free_area s) k))
        = map (pg (mem_map s)) (R k)"
      using length_free_list [OF I(3), of k] by (intro walk_dll crepD(1) [OF I(2) True]) simp
    moreover have "unat (ptr_diff (pg (mem_map s) i) (mem_map s) 12) = i" if "i \<in> set (R k)" for i
    proof -
      have "i < 2 ^ 20" using wf_free_lt [OF I(3) that] layoutD(2) [OF I(1)] by simp
      then show ?thesis by (simp add: ptr_diff_pg unat_of_nat_32)
    qed
    ultimately show ?thesis using True by (simp add: frees_def map_idI)
  next
    case False
    then have "R k = []" using wf_freeD(1) [OF I(3), of _ k] by (cases "R k") auto
    then show ?thesis using False by (simp add: frees_def)
  qed
qed

lemma mm_okI: "mm_rep s R \<Longrightarrow> mm_ok s"
  by (simp add: mm_ok_def mm_rep_frees)

lemma mm_ok_inv:
  assumes "mm_ok s"
  shows "buddy_inv s (unat (page_count s)) (bmaps s) (frees s)"
  using assms by (simp add: mm_ok_def mm_rep_def)

lemma own_cong: "(\<And>k. k < 11 \<Longrightarrow> bm k = bm' k) \<Longrightarrow> own s n bm = own s n bm'"
  by (simp add: own_def meta_def)

lemma buddy_inv_cong:
  assumes "\<And>k. k < 11 \<Longrightarrow> bm k = bm' k" "buddy_inv s n bm R"
  shows "buddy_inv s n bm' R"
  using assms by (simp add: buddy_inv_def layout_def crep_def maps_def bits_rep_def)

text \<open>From a step of the representation to a step of the interface.\<close>

lemma mm_rep_step:
  assumes "mm_rep s R" "buddy_inv s' (unat (page_count s)) (bmaps s) R'" "mm_step s (unat (page_count s)) (bmaps s) s'"
  shows "mm_rep s' R'" "mm_frame s s'"
proof -
  note g = mm_step_globals [OF assms(3)]
  have bm: "bmaps s' k = bmaps s k" if "k < 11" for k
    using crepD(2) [OF buddy_invD(2) [OF assms(2)] that] by (simp add: bmaps_def)
  show "mm_rep s' R'"
    unfolding mm_rep_def g by (rule buddy_inv_cong [OF _ assms(2)]) (simp add: bm)
  have "mm_own s' = mm_own s"
    unfolding mm_own_def g by (rule own_cong) (simp add: bm)
  then show "mm_frame s s'" using assms(3) by (simp add: mm_frame_def mm_step_def mm_own_def)
qed

lemma mm_frame_globals:
  assumes "mm_frame s s'"
  shows "free_area s' = free_area s" "mem_map s' = mem_map s" "mem_map_end s' = mem_map_end s"
    "page_count s' = page_count s" "img_end s' = img_end s" "kpagedir s' = kpagedir s"
    "io s' = io s" "dev s' = dev s" "mm_state.more s' = mm_state.more s"
    "x \<notin> mm_own s \<Longrightarrow> mem s' x = mem s x" "mm_own s' = mm_own s"
  using assms mm_step_globals [of s "unat (page_count s)" "bmaps s" s']
  by (auto simp: mm_frame_def mm_step_def mm_own_def)

lemma mm_frame_refl: "mm_frame s s"
  by (simp add: mm_frame_def)

lemma mm_frame_trans:
  assumes "mm_frame s t" "mm_frame t u"
  shows "mm_frame s u"
proof -
  obtain m c where t: "t = s\<lparr>mem := m, free_page_count := c\<rparr>" using assms(1) unfolding mm_frame_def by blast
  obtain m' c' where u: "u = t\<lparr>mem := m', free_page_count := c'\<rparr>" using assms(2) unfolding mm_frame_def by blast
  have "u = s\<lparr>mem := mem u, free_page_count := free_page_count u\<rparr>" unfolding u t by simp
  moreover have "mm_own u = mm_own s" using assms by (simp add: mm_frame_def)
  moreover have "mem u x = mem s x" if "x \<notin> mm_own s" for x
    using assms that by (simp add: mm_frame_def)
  ultimately show ?thesis unfolding mm_frame_def by blast
qed

section \<open>The operations on the interface\<close>

lemma free_pages_ok:
  assumes ok: "mm_ok s" and p: "pending (unat (page_count s)) (frees s) i k"
  shows "mm_ok (free_pages (pg (mem_map s) i) (of_nat k) s)"
    "frees (free_pages (pg (mem_map s) i) (of_nat k) s) = afree (frees s) i k"
    "mm_frame s (free_pages (pg (mem_map s) i) (of_nat k) s)"
proof -
  note st = mm_rep_step [OF ok [unfolded mm_ok_def] free_pages_refines [OF mm_ok_inv [OF ok] p]]
  show "mm_ok (free_pages (pg (mem_map s) i) (of_nat k) s)" using st(1) by (rule mm_okI)
  show "frees (free_pages (pg (mem_map s) i) (of_nat k) s) = afree (frees s) i k"
    using st(1) by (rule mm_rep_frees)
qed (rule mm_rep_step [OF ok [unfolded mm_ok_def] free_pages_refines [OF mm_ok_inv [OF ok] p]])

lemma alloc_pages_eq:
  assumes ok: "mm_ok s" and k: "k \<le> 10"
  shows "aalloc (frees s) k = None \<Longrightarrow> alloc_pages (of_nat k) s = Inl (Bug ''memory alloc failed'')"
    "aalloc (frees s) k = Some (j, R') \<Longrightarrow>
      \<exists>s'. alloc_pages (of_nat k) s = Inr (pg (mem_map s) j, s') \<and> mm_ok s' \<and> frees s' = R' \<and> mm_frame s s'"
proof -
  let ?n = "unat (page_count s)"
  note inv = mm_ok_inv [OF ok]
  note I = buddy_invD [OF inv]
  have ar: "free_area s + 12 * of_nat k = ring_at (free_area s) k" by (simp add: ring_at_def)
  have le: "\<not> (of_nat k :: u32) > MAX_ORDER"
    using k by (simp add: word_less_nat_alt unat_of_nat_32)
  note ref = alloc_loop_refines [OF inv order_refl k, folded aalloc_def]
  show "alloc_pages (of_nat k) s = Inl (Bug ''memory alloc failed'')" if none: "aalloc (frees s) k = None"
    using ref unfolding none alloc_pages_def alloc_pages_aux_def ar if_not_P [OF le] by simp
  show "\<exists>s'. alloc_pages (of_nat k) s = Inr (pg (mem_map s) j, s') \<and> mm_ok s' \<and> frees s' = R' \<and> mm_frame s s'"
    if some: "aalloc (frees s) k = Some (j, R')"
  proof -
    note al = aalloc_correct [OF I(3,4) some]
    obtain m' where m': "alloc_loop (of_nat k) (of_nat k) (ring_at (free_area s) k) s =
          (pg (mem_map s) j, s\<lparr>free_page_count := free_page_count s - push_bit k 1, mem := m'\<rparr>)"
      "crep (free_area s) (mem_map s) ?n (bmaps s) m' R' (par R')" "\<forall>x. x \<notin> own s ?n (bmaps s) \<longrightarrow> m' x = mem s x"
      using ref unfolding some by auto
    define s' where "s' = s\<lparr>free_page_count := free_page_count s - push_bit k 1, mem := m'\<rparr>"
    have "j < ?n" using al free_set_bound [OF I(3), of j] blk_self [of j k] by blast
    then have "pg (mem_map s) j \<noteq> 0" by (rule pg_not_null [OF I(1)])
    then have "alloc_pages (of_nat k) s = Inr (pg (mem_map s) j, s')"
      unfolding alloc_pages_def alloc_pages_aux_def ar if_not_P [OF le] m'(1) s'_def by simp
    moreover have cnt: "free_page_count s' = of_nat (free_cnt R')"
    proof -
      have "(of_nat (free_cnt R') :: u32) + of_nat (2 ^ k) = of_nat (free_cnt (frees s))"
        using al by (metis of_nat_add)
      then show ?thesis using I(5) by (simp add: s'_def push_bit_eq_mult algebra_simps)
    qed
    have "buddy_inv s' ?n (bmaps s) R'"
      unfolding buddy_inv_def cnt using I(1) m'(2) al by (simp add: s'_def)
    moreover have "mm_step s ?n (bmaps s) s'" using m'(3) by (simp add: mm_step_def s'_def)
    ultimately show ?thesis using mm_rep_step [OF ok [unfolded mm_ok_def]] mm_okI mm_rep_frees by blast
  qed
qed

section \<open>The interface\<close>

text \<open>Blocks in the hands of clients, as pairs of first page and order.\<close>

primrec disjoint_blocks :: "(nat \<times> nat) list \<Rightarrow> bool" where
  "disjoint_blocks [] \<longleftrightarrow> True"
| "disjoint_blocks (b # H) \<longleftrightarrow>
     (\<forall>c\<in>set H. blk (fst b) (snd b) \<inter> blk (fst c) (snd c) = {}) \<and> disjoint_blocks H"

definition held :: "(nat \<times> nat) list \<Rightarrow> nat set" where
  "held H = (\<Union>b\<in>set H. blk (fst b) (snd b))"

lemma held_Cons: "held (b # H) = blk (fst b) (snd b) \<union> held H"
  by (simp add: held_def)

lemma disjoint_blocks_Cons: "disjoint_blocks (b # H) \<longleftrightarrow> blk (fst b) (snd b) \<inter> held H = {} \<and> disjoint_blocks H"
  by (auto simp: held_def)

lemma disjoint_blocks_remove:
  assumes "disjoint_blocks H" "b \<in> set H"
  shows "disjoint_blocks (remove1 b H)" "blk (fst b) (snd b) \<inter> held (remove1 b H) = {}"
    "held H = blk (fst b) (snd b) \<union> held (remove1 b H)"
  using assms
proof (induction H)
  case (Cons a H)
  { case 1 with Cons show ?case using notin_set_remove1 by (auto simp: held_def) }
  { case 2 with Cons show ?case
      by (cases "a = b") (auto simp: disjoint_blocks_Cons held_Cons held_def) }
  { case 3 with Cons show ?case by (auto simp: held_Cons) }
qed simp_all

locale page_allocator =
  fixes alloc :: "nat \<Rightarrow> 's \<Rightarrow> (nat \<times> 's) option"
    and free :: "nat \<Rightarrow> nat \<Rightarrow> 's \<Rightarrow> 's"
    and inv :: "'s \<Rightarrow> bool"
    and avail :: "'s \<Rightarrow> nat set"
    and total :: "'s \<Rightarrow> nat"
  assumes avail_bound: "inv s \<Longrightarrow> x \<in> avail s \<Longrightarrow> x < total s"
    and alloc_some: "inv s \<Longrightarrow> k \<le> 10 \<Longrightarrow> alloc k s = Some (j, s') \<Longrightarrow>
      inv s' \<and> 2 ^ k dvd j \<and> blk j k \<subseteq> avail s \<and> avail s' = avail s - blk j k \<and> total s' = total s"
    and alloc_none: "inv s \<Longrightarrow> k \<le> 10 \<Longrightarrow> alloc k s = None \<Longrightarrow> 2 ^ k dvd j \<Longrightarrow> \<not> blk j k \<subseteq> avail s"
    and free_ok: "inv s \<Longrightarrow> k \<le> 10 \<Longrightarrow> 2 ^ k dvd j \<Longrightarrow> j + 2 ^ k \<le> total s \<Longrightarrow> blk j k \<inter> avail s = {} \<Longrightarrow>
      inv (free j k s) \<and> avail (free j k s) = avail s \<union> blk j k \<and> total (free j k s) = total s"
begin

text \<open>An allocation succeeds exactly when some aligned run of free pages has the size asked for.\<close>

lemma alloc_iff: "inv s \<Longrightarrow> k \<le> 10 \<Longrightarrow> alloc k s \<noteq> None \<longleftrightarrow> (\<exists>j. 2 ^ k dvd j \<and> blk j k \<subseteq> avail s)"
  using alloc_some alloc_none by (metis not_None_eq surj_pair)

text \<open>Freeing what was allocated restores the free set.\<close>

lemma free_alloc:
  assumes "inv s" "k \<le> 10" "alloc k s = Some (j, s')"
  shows "inv (free j k s') \<and> avail (free j k s') = avail s"
proof -
  note a = alloc_some [OF assms]
  have "j + 2 ^ k \<le> total s" using a avail_bound [OF assms(1)] by (intro blk_bound) blast
  then have "j + 2 ^ k \<le> total s'" using a by simp
  then have "inv (free j k s') \<and> avail (free j k s') = avail s' \<union> blk j k"
    using free_ok [of s' k j] a assms(2) by blast
  then show ?thesis using a by blast
qed

text \<open>Every client block is valid, disjoint from the others and from the free pages.\<close>

lemma alloc_held:
  assumes "inv s" "k \<le> 10" "alloc k s = Some (j, s')"
    and H: "disjoint_blocks H" "held H \<inter> avail s = {}" "\<forall>(i, l)\<in>set H. l \<le> 10 \<and> 2 ^ l dvd i \<and> i + 2 ^ l \<le> total s"
  shows "disjoint_blocks ((j, k) # H)" "held ((j, k) # H) \<inter> avail s' = {}"
    "held ((j, k) # H) \<union> avail s' = held H \<union> avail s"
    "\<forall>(i, l)\<in>set ((j, k) # H). l \<le> 10 \<and> 2 ^ l dvd i \<and> i + 2 ^ l \<le> total s'"
proof -
  note a = alloc_some [OF assms(1-3)]
  have "j + 2 ^ k \<le> total s" using a avail_bound [OF assms(1)] by (intro blk_bound) blast
  then show "\<forall>(i, l)\<in>set ((j, k) # H). l \<le> 10 \<and> 2 ^ l dvd i \<and> i + 2 ^ l \<le> total s'"
    using a H(3) assms(2) by auto
  show "disjoint_blocks ((j, k) # H)" "held ((j, k) # H) \<inter> avail s' = {}"
    "held ((j, k) # H) \<union> avail s' = held H \<union> avail s"
    unfolding disjoint_blocks_Cons held_Cons fst_conv snd_conv using a H(1,2) by blast+
qed

lemma free_held:
  assumes "inv s" "(j, k) \<in> set H"
    and H: "disjoint_blocks H" "held H \<inter> avail s = {}" "\<forall>(i, l)\<in>set H. l \<le> 10 \<and> 2 ^ l dvd i \<and> i + 2 ^ l \<le> total s"
  shows "inv (free j k s)" "disjoint_blocks (remove1 (j, k) H)" "held (remove1 (j, k) H) \<inter> avail (free j k s) = {}"
    "held (remove1 (j, k) H) \<union> avail (free j k s) = held H \<union> avail s"
    "\<forall>(i, l)\<in>set (remove1 (j, k) H). l \<le> 10 \<and> 2 ^ l dvd i \<and> i + 2 ^ l \<le> total (free j k s)"
proof -
  note d = disjoint_blocks_remove [OF H(1) assms(2), unfolded fst_conv snd_conv]
  have jk: "k \<le> 10" "2 ^ k dvd j" "j + 2 ^ k \<le> total s" using H(3) assms(2) by auto
  have "blk j k \<inter> avail s = {}" using d(3) H(2) by blast
  note f = free_ok [OF assms(1) jk this]
  show "inv (free j k s)" using f by simp
  show "disjoint_blocks (remove1 (j, k) H)" by (rule d(1))
  show "held (remove1 (j, k) H) \<inter> avail (free j k s) = {}"
    "held (remove1 (j, k) H) \<union> avail (free j k s) = held H \<union> avail s"
    using f d(2,3) H(2) by blast+
  show "\<forall>(i, l)\<in>set (remove1 (j, k) H). l \<le> 10 \<and> 2 ^ l dvd i \<and> i + 2 ^ l \<le> total (free j k s)"
    using f H(3) notin_set_remove1 by fastforce
qed

end

text \<open>The operations of \<open>mm.c\<close> in terms of page numbers.\<close>

definition page_alloc :: "nat \<Rightarrow> 'a mm_state_scheme \<Rightarrow> (nat \<times> 'a mm_state_scheme) option" where
  "page_alloc k s = (case alloc_pages (of_nat k) s of Inl _ \<Rightarrow> None
     | Inr (p, s') \<Rightarrow> Some (unat (ptr_diff p (mem_map s) 12), s'))"

definition page_free :: "nat \<Rightarrow> nat \<Rightarrow> 'a mm_state_scheme \<Rightarrow> 'a mm_state_scheme" where
  "page_free j k s = free_pages (pg (mem_map s) j) (of_nat k) s"

definition avail_pages :: "'a mm_state_scheme \<Rightarrow> nat set" where
  "avail_pages s = free_set (frees s)"

definition total_pages :: "'a mm_state_scheme \<Rightarrow> nat" where
  "total_pages s = unat (page_count s)"

lemma page_alloc_eq:
  assumes ok: "mm_ok s" and k: "k \<le> 10"
  shows "page_alloc k s = None \<longleftrightarrow> aalloc (frees s) k = None"
    "page_alloc k s = Some (j, s') \<Longrightarrow> aalloc (frees s) k = Some (j, frees s') \<and> mm_ok s' \<and> mm_frame s s' \<and>
      alloc_pages (of_nat k) s = Inr (pg (mem_map s) j, s')"
proof -
  note I = buddy_invD [OF mm_ok_inv [OF ok]]
  have *: "\<exists>s'. page_alloc k s = Some (i, s') \<and> mm_ok s' \<and> frees s' = R' \<and> mm_frame s s' \<and>
      alloc_pages (of_nat k) s = Inr (pg (mem_map s) i, s')" if "aalloc (frees s) k = Some (i, R')" for i R'
  proof -
    note al = aalloc_correct [OF I(3,4) that]
    have "i < unat (page_count s)" using al free_set_bound [OF I(3), of i] blk_self [of i k] by blast
    then have "i < 2 ^ 20" using layoutD(2) [OF I(1)] by simp
    then have "unat (ptr_diff (pg (mem_map s) i) (mem_map s) 12) = i" by (simp add: ptr_diff_pg unat_of_nat_32)
    then show ?thesis using alloc_pages_eq(2) [OF ok k that] by (auto simp: page_alloc_def)
  qed
  have none: "page_alloc k s = None" if "aalloc (frees s) k = None"
    using alloc_pages_eq(1) [OF ok k that] by (simp add: page_alloc_def)
  show "page_alloc k s = None \<longleftrightarrow> aalloc (frees s) k = None"
    using * none by (metis not_None_eq surj_pair)
  assume some: "page_alloc k s = Some (j, s')"
  then obtain i R' where "aalloc (frees s) k = Some (i, R')" using none by (metis not_None_eq surj_pair)
  from * [OF this] this some show "aalloc (frees s) k = Some (j, frees s') \<and> mm_ok s' \<and> mm_frame s s' \<and>
      alloc_pages (of_nat k) s = Inr (pg (mem_map s) j, s')"
    by auto
qed

interpretation pa: page_allocator page_alloc page_free mm_ok avail_pages total_pages
proof unfold_locales
  fix s s' :: "'a mm_state_scheme" and k j x :: nat
  assume ok: "mm_ok s"
  note I = buddy_invD [OF mm_ok_inv [OF ok]]
  show "x < total_pages s" if "x \<in> avail_pages s"
    using free_set_bound [OF I(3)] that by (simp add: avail_pages_def total_pages_def)
  show "mm_ok (page_free j k s) \<and> avail_pages (page_free j k s) = avail_pages s \<union> blk j k \<and>
      total_pages (page_free j k s) = total_pages s"
    if "k \<le> 10" "2 ^ k dvd j" "j + 2 ^ k \<le> total_pages s" "blk j k \<inter> avail_pages s = {}"
  proof -
    have p: "pending (unat (page_count s)) (frees s) j k"
      using that by (simp add: pending_def avail_pages_def total_pages_def)
    show ?thesis
      using free_pages_ok [OF ok p] afree_correct [OF I(3,4) p] mm_frame_globals(4) [OF free_pages_ok(3) [OF ok p]]
      by (simp add: page_free_def avail_pages_def total_pages_def)
  qed
  assume k: "k \<le> 10"
  show "\<not> blk j k \<subseteq> avail_pages s" if "page_alloc k s = None" "2 ^ k dvd j"
    using that aalloc_complete [OF I(3,4) k that(2)] page_alloc_eq(1) [OF ok k]
    by (auto simp: avail_pages_def)
  show "mm_ok s' \<and> 2 ^ k dvd j \<and> blk j k \<subseteq> avail_pages s \<and> avail_pages s' = avail_pages s - blk j k \<and>
      total_pages s' = total_pages s" if "page_alloc k s = Some (j, s')"
  proof -
    note e = page_alloc_eq(2) [OF ok k that]
    then show ?thesis
      using aalloc_correct [OF I(3,4), of k j "frees s'"] mm_frame_globals(4) [of s s']
      by (simp add: avail_pages_def total_pages_def)
  qed
qed

end
