(* ===== verification/BuddyInit.thy ===== *)
theory BuddyInit
  imports PageAlloc
begin

text \<open>
  The initialisation of the page allocator: \<open>buddy_system_init\<close> lays the bitmaps and the page
  descriptors behind the kernel image, clears them, and frees every page above them. It
  establishes the invariant of \<open>PageAlloc\<close> with exactly those pages free, and none of them
  holds a byte of the allocator's own tables.
\<close>

section \<open>Alignment\<close>

lemma unat_ALIGN:
  assumes "k < 32" "unat x + 2 ^ k \<le> 2 ^ 32"
  shows "unat (ALIGN x (2 ^ k)) = (unat x + (2 ^ k - 1)) div 2 ^ k * 2 ^ k"
proof -
  have p: "(0::nat) < 2 ^ k" by simp
  have m: "(2 ^ k - 1 :: u32) = mask k" by (simp add: mask_eq_exp_minus_1)
  have "x + 2 ^ k - 1 = x + (2 ^ k - 1)" by simp
  also have "\<dots> = x + of_nat (2 ^ k - 1)" by simp
  finally have e: "x + 2 ^ k - 1 = x + of_nat (2 ^ k - 1)" .
  have "unat x + (2 ^ k - 1) < 2 ^ 32" using assms(2) p by linarith
  then have "unat (x + 2 ^ k - 1) = unat x + (2 ^ k - 1)" unfolding e by (rule unat_add_32)
  then show ?thesis
    unfolding ALIGN_def m unat_and_not_mask by (simp add: minus_mod_eq_div_mult)
qed

lemma div_mult_less: "0 < d \<Longrightarrow> n < n div d * d + d" for n d :: nat
  by (metis div_mult_mod_eq mod_less_divisor nat_add_left_cancel_less)

lemma div_mult_le: "n div d * d \<le> n" for n d :: nat
  by simp

lemma LONG_ALIGN_bounds:
  assumes "unat x + 4 \<le> 2 ^ 32"
  shows "unat x \<le> unat (LONG_ALIGN x)" "unat (LONG_ALIGN x) \<le> unat x + 3"
proof -
  have "unat (LONG_ALIGN x) = (unat x + 3) div 4 * 4" using unat_ALIGN [of 2 x] assms by simp
  then show "unat x \<le> unat (LONG_ALIGN x)" "unat (LONG_ALIGN x) \<le> unat x + 3"
    using div_mult_less [of 4 "unat x + 3"] div_mult_le [of "unat x + 3" 4] by linarith+
qed

lemma PAGE_ALIGN_bounds:
  assumes "unat x + 0x1000 \<le> 2 ^ 32"
  shows "unat x \<le> unat (PAGE_ALIGN x)" "unat (PAGE_ALIGN x) \<le> unat x + 0xfff"
    "unat (PAGE_ALIGN x) = (unat x + 0xfff) div 0x1000 * 0x1000"
proof -
  show "unat (PAGE_ALIGN x) = (unat x + 0xfff) div 0x1000 * 0x1000" using unat_ALIGN [of 12 x] assms by simp
  then show "unat x \<le> unat (PAGE_ALIGN x)" "unat (PAGE_ALIGN x) \<le> unat x + 0xfff"
    using div_mult_less [of "0x1000" "unat x + 0xfff"] div_mult_le [of "unat x + 0xfff" "0x1000"] by linarith+
qed

text \<open>Every bitmap covers the pairs of its order.\<close>

lemma bitmap_size_bounds:
  assumes "0 < page_cnt" "unat page_cnt \<le> 2 ^ 20"
  shows "bsz (unat page_cnt) i \<le> unat (bitmap_size page_cnt i)"
    "unat (bitmap_size page_cnt i) \<le> bsz (unat page_cnt) i + 3"
proof -
  have d: "unat (drop_bit (i + 4) (page_cnt - 1)) = (unat page_cnt - 1) div 2 ^ (i + 4)"
    unfolding unat_drop_bit using assms(1) by (simp add: unat_minus_one word_gt_0)
  have "(unat page_cnt - 1) div 2 ^ (i + 4) \<le> unat page_cnt - 1" by (rule div_le_dividend)
  moreover have "0 < unat page_cnt" using assms(1) by (simp add: unat_gt_0 word_gt_0)
  ultimately have b: "bsz (unat page_cnt) i \<le> 2 ^ 20" using assms(2) unfolding bsz_def by linarith
  have e: "unat (drop_bit (i + 4) (page_cnt - 1)) + 1 = bsz (unat page_cnt) i" by (simp only: d bsz_def)
  then have "unat (drop_bit (i + 4) (page_cnt - 1)) + 1 < 2 ^ 32" using b by simp
  then have "unat (drop_bit (i + 4) (page_cnt - 1) + 1) = bsz (unat page_cnt) i"
    using unat_add_32 [of "drop_bit (i + 4) (page_cnt - 1)" 1] unfolding e by simp
  moreover have "bsz (unat page_cnt) i + 4 \<le> 2 ^ 32"
    using b by simp
  ultimately show "bsz (unat page_cnt) i \<le> unat (bitmap_size page_cnt i)"
    "unat (bitmap_size page_cnt i) \<le> bsz (unat page_cnt) i + 3"
    using LONG_ALIGN_bounds [of "drop_bit (i + 4) (page_cnt - 1) + 1"] by (simp_all add: bitmap_size_def)
qed

section \<open>The free areas\<close>

definition bm_off :: "u32 \<Rightarrow> nat \<Rightarrow> nat" where
  "bm_off page_cnt k = (\<Sum>j<k. unat (bitmap_size page_cnt j))"

lemma bm_off_Suc: "bm_off page_cnt (Suc k) = bm_off page_cnt k + unat (bitmap_size page_cnt k)"
  by (simp add: bm_off_def)

lemma bm_off_mono: "j \<le> k \<Longrightarrow> bm_off page_cnt j \<le> bm_off page_cnt k"
  unfolding bm_off_def by (rule sum_mono2) auto

definition bm_at :: "addr \<Rightarrow> u32 \<Rightarrow> nat \<Rightarrow> addr" where
  "bm_at start page_cnt k = start + of_nat (bm_off page_cnt k)"

lemma init_area_mem:
  "mem (init_area page_cnt i s) x =
    (if x \<in> region (img_end s) (unat (bitmap_size page_cnt i)) then 0
     else st32 (link_init (ring_at (free_area s) i) (mem s)) (ring_at (free_area s) i + 8) (img_end s) x)"
  by (simp add: init_area_def Let_def ring_at_def memset_apply)

lemma init_area_state:
  "init_area page_cnt i s = s\<lparr>mem := mem (init_area page_cnt i s), img_end := img_end s + bitmap_size page_cnt i\<rparr>"
  by (simp add: init_area_def Let_def)

lemma init_area_step:
  assumes dj: "region (ring_at (free_area s) i) 12 \<inter> region (img_end s) (unat (bitmap_size page_cnt i)) = {}"
  defines "m \<equiv> mem (init_area page_cnt i s)"
  shows "dll m (ring_at (free_area s) i) []" "area_map m (ring_at (free_area s) i) = img_end s"
    "x \<in> region (img_end s) (unat (bitmap_size page_cnt i)) \<Longrightarrow> m x = 0"
    "x \<notin> region (ring_at (free_area s) i) 12 \<Longrightarrow> x \<notin> region (img_end s) (unat (bitmap_size page_cnt i)) \<Longrightarrow>
      m x = mem s x"
proof -
  let ?r = "ring_at (free_area s) i"
  let ?m1 = "link_init ?r (mem s)" and ?m2 = "st32 (link_init ?r (mem s)) (?r + 8) (img_end s)"
  note m = init_area_mem [of page_cnt i s, folded m_def]
  have e: "m x = ?m2 x" if "x \<in> region ?r 12" for x using that dj m [of x] by auto
  have "dll ?m2 ?r []"
  proof (rule dll_byte_cong [OF dll_link_init])
    fix a x assume "a \<in> set [?r]" "x \<in> region a 8"
    then show "?m2 x = ?m1 x" using region_map_field(2) [of ?r] by (intro st32_out) auto
  qed
  then show "dll m ?r []"
    by (rule dll_byte_cong) (use e region_8_12 in auto)
  have "area_map m ?r = area_map ?m2 ?r"
    unfolding area_map_def using region_map_field(1) by (intro ld32_cong e) blast
  then show "area_map m ?r = img_end s" by (simp add: area_map_def)
  show "x \<in> region (img_end s) (unat (bitmap_size page_cnt i)) \<Longrightarrow> m x = 0" using m by simp
  show "m x = mem s x" if "x \<notin> region ?r 12" "x \<notin> region (img_end s) (unat (bitmap_size page_cnt i))"
  proof -
    have "?m2 x = ?m1 x" using that(1) region_map_field(1) by (intro st32_out) blast
    moreover have "?m1 x = mem s x" using that(1) region_8_12 by (intro link_init_out) blast
    ultimately show ?thesis using that(2) m by simp
  qed
qed

lemma init_areas_ok:
  assumes b: "unat (free_area s) + 132 \<le> unat (img_end s)" "unat (img_end s) + bm_off page_cnt 11 < 2 ^ 32"
    and i: "i \<le> 11"
  defines "s' \<equiv> init_areas i page_cnt s" and "fa \<equiv> free_area s" and "bm \<equiv> bm_at (img_end s) page_cnt"
  shows "s' = s\<lparr>mem := mem s', img_end := bm i\<rparr> \<and>
    (\<forall>k<i. dll (mem s') (ring_at fa k) [] \<and> area_map (mem s') (ring_at fa k) = bm k \<and>
      (\<forall>x\<in>region (bm k) (unat (bitmap_size page_cnt k)). mem s' x = 0)) \<and>
    (\<forall>x. x \<notin> region fa 132 \<and> x \<notin> region (img_end s) (bm_off page_cnt i) \<longrightarrow> mem s' x = mem s x)"
  using i unfolding s'_def
proof (induction i)
  case 0
  show ?case by (simp add: bm_def bm_at_def bm_off_def)
next
  case (Suc i)
  define t where "t = init_areas i page_cnt s"
  define u where "u = init_area page_cnt i t"
  let ?B = "\<lambda>k. region (bm k) (unat (bitmap_size page_cnt k))"
  have IH: "t = s\<lparr>mem := mem t, img_end := bm i\<rparr>"
    "\<forall>k<i. dll (mem t) (ring_at fa k) [] \<and> area_map (mem t) (ring_at fa k) = bm k \<and> (\<forall>x\<in>?B k. mem t x = 0)"
    "\<forall>x. x \<notin> region fa 132 \<and> x \<notin> region (img_end s) (bm_off page_cnt i) \<longrightarrow> mem t x = mem s x"
    using Suc unfolding t_def by simp_all
  have g: "free_area t = fa" "img_end t = bm i" by (subst IH(1), simp add: fa_def)+
  have ub: "unat (bm k) = unat (img_end s) + bm_off page_cnt k" if "k \<le> 11" for k
    using b(2) bm_off_mono [OF that, of page_cnt] unfolding bm_def bm_at_def by (intro unat_add_32) linarith
  have fB: "region fa 132 \<inter> ?B k = {}" if "k < 11" for k
    using b ub [of k] bm_off_mono [of "Suc k" 11 page_cnt] that
    by (intro region_ordered) (simp_all add: fa_def bm_off_Suc)
  have BB: "?B k \<inter> ?B i = {}" if "k < i" for k
    using ub [of k] ub [of i] bm_off_mono [of "Suc k" i page_cnt] bm_off_mono [of "Suc i" 11 page_cnt] Suc.prems that b(2)
    by (intro region_ordered) (simp_all add: bm_off_Suc)
  have Bs: "?B i \<subseteq> region (img_end s) (bm_off page_cnt (Suc i))"
    "region (img_end s) (bm_off page_cnt i) \<subseteq> region (img_end s) (bm_off page_cnt (Suc i))"
    using Suc.prems b(2) bm_off_mono [of i 11 page_cnt] unfolding bm_def bm_at_def bm_off_Suc
    by (intro region_offset_subset, simp add: unat_of_nat_32) (intro region_mono, simp)
  have ri: "region (ring_at fa i) 12 \<subseteq> region fa 132" using Suc.prems by (intro ring_region) simp
  then have dj: "region (ring_at fa i) 12 \<inter> ?B i = {}" using fB [of i] Suc.prems by auto
  note st = init_area_step [of t i page_cnt, unfolded g, OF dj, folded u_def]
  have u: "init_areas (Suc i) page_cnt s = u" by (simp add: u_def t_def)
  obtain mt where t: "t = s\<lparr>mem := mt, img_end := bm i\<rparr>" using IH(1) by blast
  have "u = t\<lparr>mem := mem u, img_end := img_end t + bitmap_size page_cnt i\<rparr>"
    using init_area_state [of page_cnt i t] by (simp only: u_def)
  also have "\<dots> = s\<lparr>mem := mem u, img_end := bm (Suc i)\<rparr>"
    unfolding t by (simp add: bm_def bm_at_def bm_off_Suc)
  finally have st1: "u = s\<lparr>mem := mem u, img_end := bm (Suc i)\<rparr>" .
  have old: "mem u x = mem t x" if "k < i" "x \<in> region (ring_at fa k) 12 \<union> ?B k" for k x
  proof (rule st(4))
    have "k < 11" "i < 11" "k \<noteq> i" using that(1) Suc.prems by simp_all
    note f = ring_apart [OF this, of fa] ring_region [OF \<open>k < 11\<close>, of fa] fB [OF \<open>k < 11\<close>] fB [OF \<open>i < 11\<close>] BB [OF that(1)]
    show "x \<notin> region (ring_at fa i) 12" using that(2) f(1-3) ri by blast
    show "x \<notin> ?B i" using that(2) f(2,4,5) by blast
  qed
  have "dll (mem u) (ring_at fa k) [] \<and> area_map (mem u) (ring_at fa k) = bm k \<and> (\<forall>x\<in>?B k. mem u x = 0)"
    if "k < Suc i" for k
  proof (cases "k = i")
    case True
    then show ?thesis using st(1-3) by simp
  next
    case False
    then have k: "k < i" using that by simp
    have d: "dll (mem t) (ring_at fa k) []" using IH(2) k by blast
    have "dll (mem u) (ring_at fa k) []"
    proof (rule dll_byte_cong [OF d])
      fix a x assume "a \<in> set [ring_at fa k]" "x \<in> region a 8"
      then have "x \<in> region (ring_at fa k) 12 \<union> ?B k" using region_8_12 by auto
      then show "mem u x = mem t x" by (rule old [OF k])
    qed
    moreover have "area_map (mem u) (ring_at fa k) = area_map (mem t) (ring_at fa k)"
      unfolding area_map_def using region_map_field(1) by (intro ld32_cong old [OF k]) blast
    moreover have "mem u x = mem t x" if "x \<in> ?B k" for x using that by (intro old [OF k]) simp
    ultimately show ?thesis using IH(2) k by simp
  qed
  moreover have "mem u x = mem s x"
    if "x \<notin> region fa 132" "x \<notin> region (img_end s) (bm_off page_cnt (Suc i))" for x
  proof -
    have "mem u x = mem t x" using that ri Bs by (intro st(4)) blast+
    also have "\<dots> = mem s x" using that Bs IH(3) by blast
    finally show ?thesis .
  qed
  ultimately show ?case unfolding u using st1 by blast
qed

section \<open>The page descriptors and the free pages\<close>

lemma init_page_flags_out:
  "j \<le> n \<Longrightarrow> n \<le> 2 ^ 20 \<Longrightarrow> x \<notin> region mm (12 * n) \<Longrightarrow> init_page_flags j mm m x = m x"
proof (induction j)
  case (Suc j)
  have "x \<notin> region (pg mm j) 12" using pg_region [of j n mm] Suc.prems by auto
  then have "x \<notin> region (pg mm j) 8" "x \<notin> region (pg mm j + 8) 4"
    using region_8_12 region_map_field(1) by blast+
  then show ?case using Suc by (simp add: Let_def pg_def link_init_out st32_out)
qed simp

lemma pg_Suc: "pg mm i + 12 = pg mm (Suc i)"
  by (simp add: pg_def algebra_simps)

lemma free_all_ok:
  assumes "mm_ok s" "j + n \<le> total_pages s" "{j..<j + n} \<inter> avail_pages s = {}"
  defines "s' \<equiv> free_all n (pg (mem_map s) j) s"
  shows "mm_ok s' \<and> mm_frame s s' \<and> avail_pages s' = avail_pages s \<union> {j..<j + n}"
  using assms(1-3) unfolding s'_def
proof (induction n arbitrary: j s)
  case 0
  then show ?case by (simp add: mm_frame_def)
next
  case (Suc n)
  let ?t = "free_pages (pg (mem_map s) j) 0 s"
  have b: "blk j 0 = {j}" by (auto simp: blk_def)
  have p: "pending (unat (page_count s)) (frees s) j 0"
  proof -
    have "j \<in> {j..<j + Suc n}" by simp
    then have "j \<notin> avail_pages s" using Suc.prems(3) by blast
    then show ?thesis using Suc.prems(2) by (simp add: pending_def b total_pages_def avail_pages_def)
  qed
  note f = free_pages_ok [OF Suc.prems(1) p, unfolded of_nat_0]
  note I = buddy_invD [OF mm_ok_inv [OF Suc.prems(1)]]
  have av: "avail_pages ?t = insert j (avail_pages s)"
    using afree_correct [OF I(3,4) p] f(2) by (simp add: avail_pages_def b)
  have f3: "mm_frame s ?t" using free_pages_ok(3) [OF Suc.prems(1) p] by simp
  note g = mm_frame_globals [OF f3]
  have "{Suc j..<Suc j + n} \<subseteq> {j..<j + Suc n} - {j}" by auto
  then have dj: "{Suc j..<Suc j + n} \<inter> avail_pages ?t = {}" using Suc.prems(3) unfolding av by blast
  have "mm_ok (free_all n (pg (mem_map ?t) (Suc j)) ?t) \<and> mm_frame ?t (free_all n (pg (mem_map ?t) (Suc j)) ?t) \<and>
      avail_pages (free_all n (pg (mem_map ?t) (Suc j)) ?t) = avail_pages ?t \<union> {Suc j..<Suc j + n}"
    using Suc.prems(2) f(1) g(4) dj by (intro Suc.IH) (simp_all add: total_pages_def)
  moreover have "mm_frame s u" if "mm_frame ?t u" for u
    using f3 that by (rule mm_frame_trans)
  moreover have "insert j (A \<union> {Suc j..<Suc j + n}) = A \<union> {j..<j + Suc n}" for A by auto
  ultimately show ?case by (simp add: pg_Suc g(2) av)
qed

section \<open>The state after initialisation\<close>

definition boot_ok :: "u32 \<Rightarrow> 'a mm_state_scheme \<Rightarrow> bool" where
  "boot_ok page_cnt s \<longleftrightarrow>
     0 < page_cnt \<and> unat page_cnt \<le> 2 ^ 18 \<and> KVM_BASE \<le> free_area s \<and>
     unat (free_area s) + 132 \<le> unat (img_end s) \<and>
     unat (img_end s) + bm_off page_cnt 11 + 12 * unat page_cnt + 0x3000 \<le> 2 ^ 32"

text \<open>The first address behind the tables, and the first page that is freed.\<close>

definition tables_end :: "u32 \<Rightarrow> 'a mm_state_scheme \<Rightarrow> addr" where
  "tables_end page_cnt s = bm_at (LONG_ALIGN (img_end s)) page_cnt 11 + 12 * page_cnt"

definition first_page :: "u32 \<Rightarrow> 'a mm_state_scheme \<Rightarrow> nat" where
  "first_page page_cnt s = (unat (PAGE_ALIGN (tables_end page_cnt s + 0xfff)) - 0xC0000000) div 4096"

definition page_bytes :: "nat \<Rightarrow> addr set" where
  "page_bytes i = region (KVM_BASE + 4096 * of_nat i) 4096"

lemma boot_bounds:
  assumes "boot_ok page_cnt s"
  defines "start \<equiv> LONG_ALIGN (img_end s)" and "n \<equiv> unat page_cnt"
  shows "0 < n" "n \<le> 2 ^ 18" "0xC0000000 \<le> unat (free_area s)" "unat (free_area s) + 132 \<le> unat start"
    "k \<le> 11 \<Longrightarrow> unat (bm_at start page_cnt k) = unat start + bm_off page_cnt k"
    "unat start + bm_off page_cnt 11 + 12 * n + 0x2000 < 2 ^ 32"
    "unat (tables_end page_cnt s) = unat start + bm_off page_cnt 11 + 12 * n"
proof -
  note b = assms(1) [unfolded boot_ok_def, folded n_def]
  show "0 < n" "n \<le> 2 ^ 18" using b by (simp_all add: n_def unat_gt_0 word_gt_0)
  show "0xC0000000 \<le> unat (free_area s)" using b by (simp add: word_le_nat_alt)
  have s: "unat (img_end s) \<le> unat start" "unat start \<le> unat (img_end s) + 3"
    using b LONG_ALIGN_bounds [of "img_end s"] unfolding start_def by simp_all
  then show "unat (free_area s) + 132 \<le> unat start" using b by simp
  show e: "unat start + bm_off page_cnt 11 + 12 * n + 0x2000 < 2 ^ 32" using b s by simp
  show bm: "unat (bm_at start page_cnt k) = unat start + bm_off page_cnt k" if "k \<le> 11" for k
    using e bm_off_mono [OF that, of page_cnt] unfolding bm_at_def by (intro unat_add_32) simp
  have "12 * page_cnt = of_nat (12 * n)" by (simp add: n_def)
  then show "unat (tables_end page_cnt s) = unat start + bm_off page_cnt 11 + 12 * n"
    unfolding tables_end_def start_def [symmetric]
    using bm [of 11] e unat_add_32 [of "bm_at start page_cnt 11" "12 * n"] by simp
qed

text \<open>The tables lie behind each other, above the free areas and below the free pages.\<close>

lemma boot_layout:
  assumes ok: "boot_ok page_cnt s"
  defines "bm \<equiv> bm_at (LONG_ALIGN (img_end s)) page_cnt"
  shows "layout (free_area s) (bm 11) (unat page_cnt) bm"
proof -
  let ?n = "unat page_cnt"
  note b = boot_bounds [OF ok, folded bm_def]
  have sz: "bsz ?n k \<le> unat (bitmap_size page_cnt k)" for k
    using b(1,2) by (intro bitmap_size_bounds(1)) (simp_all add: word_gt_0 unat_gt_0)
  have "unat (bm j) + bsz ?n j \<le> unat (bm k)" if "j < k" "k \<le> 11" for j k
    using that b(5) [of j] b(5) [of k] sz [of j] bm_off_mono [of "Suc j" k page_cnt] by (simp add: bm_off_Suc)
  note ord = this
  have top: "unat (bm 11) + 12 * ?n < 2 ^ 32" using b(5) [of 11] b(6) by simp
  have fa: "unat (free_area s) + 132 \<le> unat (bm k)" if "k \<le> 11" for k using b(4) b(5) [OF that] by simp
  have BB: "region (bm j) (bsz ?n j) \<inter> region (bm k) (bsz ?n k) = {}" if "j < k" "k < 11" for j k
    using ord [OF that(1)] ord [of k 11] top that by (intro region_ordered) simp_all
  show ?thesis
    unfolding layout_def
  proof (intro conjI allI impI)
    show "0 < ?n" "?n \<le> 2 ^ 20" using b(1,2) by simp_all
    show "0 \<notin> region (bm 11) (12 * ?n)" using region_linear [of "bm 11" "12 * ?n" 0] top fa [of 11] by simp
    show "region (free_area s) 132 \<inter> region (bm 11) (12 * ?n) = {}"
      using fa [of 11] top by (intro region_ordered) simp_all
    fix j :: nat assume j: "j < 11"
    show "region (free_area s) 132 \<inter> region (bm j) (bsz ?n j) = {}"
      using fa [of j] ord [OF j] top j by (intro region_ordered) simp_all
    have "region (bm j) (bsz ?n j) \<inter> region (bm 11) (12 * ?n) = {}"
      using ord [OF j] top by (intro region_ordered) simp_all
    then show "region (bm 11) (12 * ?n) \<inter> region (bm j) (bsz ?n j) = {}" by blast
    fix k :: nat assume k: "k < 11" "j \<noteq> k"
    then consider "j < k" | "k < j" by linarith
    then show "region (bm j) (bsz ?n j) \<inter> region (bm k) (bsz ?n k) = {}"
      using BB [of j k] BB [of k j] j k(1) by cases blast+
  qed
qed

lemma boot_own:
  assumes ok: "boot_ok page_cnt s" and x: "x \<in> meta (free_area s) (bm 11) (unat page_cnt) bm"
    and bm: "bm = bm_at (LONG_ALIGN (img_end s)) page_cnt"
  shows "0xC0000000 \<le> unat x" "unat x < unat (tables_end page_cnt s)"
    "x \<notin> region (free_area s) 132 \<Longrightarrow> unat (img_end s) \<le> unat x"
proof -
  let ?n = "unat page_cnt"
  note b = boot_bounds [OF ok, folded bm]
  have al: "unat (img_end s) \<le> unat (LONG_ALIGN (img_end s))" using ok LONG_ALIGN_bounds [of "img_end s"] by (simp add: boot_ok_def)
  have sz: "bsz ?n k \<le> unat (bitmap_size page_cnt k)" for k
    using b(1,2) by (intro bitmap_size_bounds(1)) (simp_all add: word_gt_0 unat_gt_0)
  consider "x \<in> region (free_area s) 132" | "x \<in> region (bm 11) (12 * ?n)"
    | k where "k < 11" "x \<in> region (bm k) (bsz ?n k)" using x unfolding meta_def by blast
  then have "0xC0000000 \<le> unat x \<and> unat x < unat (tables_end page_cnt s) \<and> (x \<in> region (free_area s) 132 \<or> unat (img_end s) \<le> unat x)"
  proof cases
    case 1
    then show ?thesis using region_linear [of "free_area s" 132 x] b(3,4,6,7) by simp
  next
    case 2
    then show ?thesis using region_linear [of "bm 11" "12 * ?n" x] b(3,4,6,7) b(5) [of 11] al by simp
  next
    case 3
    have "unat (bm k) + bsz ?n k \<le> unat (bm 11)"
      using b(5) [of k] b(5) [of 11] sz [of k] bm_off_mono [of "Suc k" 11 page_cnt] 3(1) by (simp add: bm_off_Suc)
    then show ?thesis
      using region_linear [of "bm k" "bsz ?n k" x] 3 b(3,4,6,7) b(5) [of 11] b(5) [of k] al by simp
  qed
  then show "0xC0000000 \<le> unat x" "unat x < unat (tables_end page_cnt s)"
    "x \<notin> region (free_area s) 132 \<Longrightarrow> unat (img_end s) \<le> unat x" by blast+
qed

text \<open>The state just before the pages are freed: all lists are empty and all bits are zero.\<close>

definition boot_tables :: "u32 \<Rightarrow> 'a mm_state_scheme \<Rightarrow> 'a mm_state_scheme" where
  "boot_tables page_cnt s =
     (let s = init_areas 11 page_cnt (s\<lparr>img_end := LONG_ALIGN (img_end s)\<rparr>)
      in s\<lparr>mem := init_page_flags (unat page_cnt) (img_end s) (mem s),
           mem_map := img_end s, mem_map_end := img_end s + 12 * page_cnt,
           img_end := PAGE_ALIGN (img_end s + 12 * page_cnt + 0xfff),
           page_count := page_cnt, free_page_count := 0\<rparr>)"

lemma buddy_system_init_alt:
  "buddy_system_init page_cnt s =
    (let s = boot_tables page_cnt s; page = vir_to_page (img_end s) s; idx = ptr_diff page (mem_map s) 12
     in free_all (if idx < page_cnt then unat (page_cnt - idx) else 0) page s)"
proof -
  define t where "t = init_areas 11 page_cnt (s\<lparr>img_end := LONG_ALIGN (img_end s)\<rparr>)"
  have "unat MAX_ORDER = 11" by simp
  then show ?thesis
    unfolding buddy_system_init_def boot_tables_def vir_to_page_def Let_def
    by (simp only: t_def [symmetric]) (cases t, simp add: mult.commute)
qed

lemma boot_tables_mem:
  assumes ok: "boot_ok page_cnt s"
  defines "s' \<equiv> boot_tables page_cnt s" and "fa \<equiv> free_area s" and "bm \<equiv> bm_at (LONG_ALIGN (img_end s)) page_cnt"
  shows "\<exists>m. s' = s\<lparr>mem := m, mem_map := bm 11, mem_map_end := tables_end page_cnt s,
      img_end := PAGE_ALIGN (tables_end page_cnt s + 0xfff), page_count := page_cnt, free_page_count := 0\<rparr> \<and>
    crep fa (bm 11) (unat page_cnt) bm m (\<lambda>_. []) (\<lambda>_ _. False) \<and>
    (\<forall>x. x \<notin> region fa 132 \<and> (unat x < unat (LONG_ALIGN (img_end s)) \<or> unat (tables_end page_cnt s) \<le> unat x) \<longrightarrow>
      m x = mem s x)"
proof -
  let ?n = "unat page_cnt" and ?start = "LONG_ALIGN (img_end s)"
  let ?s1 = "s\<lparr>img_end := ?start\<rparr>"
  note b = boot_bounds [OF ok, folded bm_def] and lay = boot_layout [OF ok, folded bm_def fa_def]
  define t where "t = init_areas 11 page_cnt ?s1"
  have A: "t = ?s1\<lparr>mem := mem t, img_end := bm 11\<rparr>"
    "\<forall>k<11. dll (mem t) (ring_at fa k) [] \<and> area_map (mem t) (ring_at fa k) = bm k \<and>
      (\<forall>x\<in>region (bm k) (unat (bitmap_size page_cnt k)). mem t x = 0)"
    "\<forall>x. x \<notin> region fa 132 \<and> x \<notin> region ?start (bm_off page_cnt 11) \<longrightarrow> mem t x = mem s x"
    using init_areas_ok [of ?s1 page_cnt 11, folded t_def] b(4,6) by (simp_all add: fa_def bm_def)
  define m where "m = init_page_flags ?n (bm 11) (mem t)"
  have n20: "?n \<le> 2 ^ 20" using b(2) by simp
  have out: "m x = mem t x" if "x \<notin> region (bm 11) (12 * ?n)" for x
    unfolding m_def by (rule init_page_flags_out [OF order_refl n20 that])
  obtain mt where t: "t = ?s1\<lparr>mem := mt, img_end := bm 11\<rparr>" using A(1) by blast
  have s': "s' = s\<lparr>mem := m, mem_map := bm 11, mem_map_end := tables_end page_cnt s,
      img_end := PAGE_ALIGN (tables_end page_cnt s + 0xfff), page_count := page_cnt, free_page_count := 0\<rparr>"
    unfolding s'_def boot_tables_def t_def [symmetric] Let_def m_def tables_end_def bm_def [symmetric]
    by (simp add: t)
  have fa: "m x = mem t x" if "x \<in> region fa 132" for x
    using that layoutD(4) [OF lay] by (intro out) blast
  have sz: "bsz ?n k \<le> unat (bitmap_size page_cnt k)" for k
    using b(1) n20 by (intro bitmap_size_bounds(1)) (simp_all add: word_gt_0 unat_gt_0)
  have "crep fa (bm 11) ?n bm m (\<lambda>_. []) (\<lambda>_ _. False)"
    unfolding crep_def rings_def maps_def bits_rep_def
  proof (intro conjI allI impI)
    fix k :: nat assume k: "k < 11"
    have d: "dll (mem t) (ring_at fa k) []" using A(2) k by blast
    have "dll m (ring_at fa k) []"
    proof (rule dll_byte_cong [OF d])
      fix a x assume "a \<in> set [ring_at fa k]" "x \<in> region a 8"
      then have "x \<in> region (ring_at fa k) 12" using region_8_12 by auto
      then show "m x = mem t x" using ring_region [OF k, of fa] by (intro fa) blast
    qed
    then show "dll m (ring_at fa k) (map (pg (bm 11)) [])" by simp
    have "area_map m (ring_at fa k) = area_map (mem t) (ring_at fa k)"
      unfolding area_map_def using ring_region [OF k, of fa] region_map_field(1) by (intro ld32_cong fa) blast
    then show "area_map m (ring_at fa k) = bm k" using A(2) k by simp
  next
    fix k i :: nat assume k: "k < 10" and i: "i \<le> (?n - 1) div 2 ^ Suc k"
    let ?x = "bm k + of_nat (i div 8)"
    have x: "?x \<in> region (bm k) (bsz ?n k)" by (rule pair_byte(1) [OF i n20])
    have "?x \<in> region (bm k) (unat (bitmap_size page_cnt k))" using x region_mono [OF sz [of k]] by blast
    moreover have "k < 11" using k by simp
    ultimately have "mem t ?x = 0" using A(2) by blast
    moreover have "m ?x = mem t ?x" using x layoutD(6) [OF lay, of k] k by (intro out) auto
    ultimately show "bitv m (bm k) i = False" by (simp add: bitv_def)
  qed
  moreover have "m x = mem s x"
    if "x \<notin> region fa 132" "unat x < unat ?start \<or> unat (tables_end page_cnt s) \<le> unat x" for x
  proof -
    have "x \<notin> region (bm 11) (12 * ?n)" "x \<notin> region ?start (bm_off page_cnt 11)"
      using that(2) region_linear [of "bm 11" "12 * ?n" x] region_linear [of ?start "bm_off page_cnt 11" x]
        b(5) [of 11] b(6,7) by auto
    then show ?thesis using out that(1) A(3) by simp
  qed
  ultimately show ?thesis using s' by blast
qed

lemma boot_tables_ok:
  assumes ok: "boot_ok page_cnt s"
  defines "t \<equiv> boot_tables page_cnt s"
  shows "mm_ok t" "avail_pages t = {}" "total_pages t = unat page_cnt"
    "x \<in> mm_own t \<Longrightarrow> 0xC0000000 \<le> unat x \<and> unat x < unat (tables_end page_cnt s)"
    "x \<in> mm_own t \<Longrightarrow> x \<notin> region (free_area s) 132 \<Longrightarrow> unat (img_end s) \<le> unat x"
proof -
  let ?bm = "bm_at (LONG_ALIGN (img_end s)) page_cnt" and ?n = "unat page_cnt" and ?R = "\<lambda>_. [] :: nat list"
  obtain m where t: "t = s\<lparr>mem := m, mem_map := ?bm 11, mem_map_end := tables_end page_cnt s,
      img_end := PAGE_ALIGN (tables_end page_cnt s + 0xfff), page_count := page_cnt, free_page_count := 0\<rparr>"
    and rep: "crep (free_area s) (?bm 11) ?n ?bm m ?R (\<lambda>_ _. False)"
    using boot_tables_mem [OF ok] unfolding t_def by blast
  have "par ?R = (\<lambda>_ _. False)" by (simp add: par_def fun_eq_iff)
  then have inv: "buddy_inv t ?n ?bm ?R"
    using boot_layout [OF ok] rep by (simp add: buddy_inv_def t wf_free_def merged_def free_cnt_def)
  have n: "unat (page_count t) = ?n" by (simp add: t)
  have bm: "?bm k = bmaps t k" if "k < 11" for k
    using crepD(2) [OF rep that] by (simp add: bmaps_def t)
  have "mm_rep t ?R"
    unfolding mm_rep_def n by (rule buddy_inv_cong [OF bm inv])
  then show "mm_ok t" "avail_pages t = {}"
    by (simp_all add: mm_okI avail_pages_def mm_rep_frees free_set_def)
  show "total_pages t = ?n" by (simp add: total_pages_def n)
  have "mm_own t = own t ?n ?bm" unfolding mm_own_def n by (rule own_cong) (simp add: bm)
  then have "mm_own t = meta (free_area s) (?bm 11) ?n ?bm" by (simp add: own_def t)
  then show "x \<in> mm_own t \<Longrightarrow> 0xC0000000 \<le> unat x \<and> unat x < unat (tables_end page_cnt s)"
    "x \<in> mm_own t \<Longrightarrow> x \<notin> region (free_area s) 132 \<Longrightarrow> unat (img_end s) \<le> unat x"
    using boot_own [OF ok _ refl] by blast+
qed

lemma first_page_word:
  assumes ok: "boot_ok page_cnt s"
  shows "drop_bit 12 (pa (PAGE_ALIGN (tables_end page_cnt s + 0xfff))) = of_nat (first_page page_cnt s)"
    "first_page page_cnt s < 2 ^ 18"
    "unat (tables_end page_cnt s) \<le> 0xC0000000 + 4096 * first_page page_cnt s"
proof -
  let ?e = "PAGE_ALIGN (tables_end page_cnt s + 0xfff)"
  note b = boot_bounds [OF ok]
  have te: "unat (tables_end page_cnt s) + 0x2000 < 2 ^ 32" "0xC0000000 \<le> unat (tables_end page_cnt s)"
    using b(3,4,6,7) by simp_all
  have u: "unat (tables_end page_cnt s + 0xfff) = unat (tables_end page_cnt s) + 0xfff"
    using unat_add_32 [of "tables_end page_cnt s" "0xfff"] te by simp
  note al = PAGE_ALIGN_bounds [of "tables_end page_cnt s + 0xfff", unfolded u]
  have e: "unat (tables_end page_cnt s) \<le> unat ?e" "unat ?e = (unat (tables_end page_cnt s) + 0xfff + 0xfff) div 0x1000 * 0x1000"
    using al te by simp_all
  have "unat (pa ?e) = unat ?e - 0xC0000000"
    unfolding pa_def using e(1) te(2) by (simp add: unat_sub word_le_nat_alt)
  then have "unat (drop_bit 12 (pa ?e)) = first_page page_cnt s"
    by (simp add: unat_drop_bit first_page_def)
  then show "drop_bit 12 (pa ?e) = of_nat (first_page page_cnt s)"
    by (metis of_nat_unat ucast_id)
  have "unat ?e < 2 ^ 32" by (rule order.strict_trans2 [OF unsigned_less]) simp
  then show "first_page page_cnt s < 2 ^ 18" by (simp add: first_page_def)
  have "unat ?e = 4096 * ((unat (tables_end page_cnt s) + 0xfff + 0xfff) div 4096)" using e(2) by simp
  then obtain q where q: "unat ?e = 4096 * q" by blast
  then have "unat ?e - 0xC0000000 = 4096 * (q - 0xC0000)" by simp
  then have "0xC0000000 + 4096 * first_page page_cnt s = unat ?e"
    using q e(1) te(2) by (simp add: first_page_def)
  then show "unat (tables_end page_cnt s) \<le> 0xC0000000 + 4096 * first_page page_cnt s" using e(1) by simp
qed

theorem buddy_system_init_correct:
  assumes ok: "boot_ok page_cnt s"
  defines "s' \<equiv> buddy_system_init page_cnt s"
  shows "mm_ok s'" "avail_pages s' = {first_page page_cnt s..<unat page_cnt}" "total_pages s' = unat page_cnt"
    "x \<in> mm_own s' \<Longrightarrow> 0xC0000000 \<le> unat x \<and> unat x < unat (tables_end page_cnt s)"
    "mm_frame (boot_tables page_cnt s) s'"
    "x \<in> mm_own s' \<Longrightarrow> x \<notin> region (free_area s) 132 \<Longrightarrow> unat (img_end s) \<le> unat x"
proof -
  let ?t = "boot_tables page_cnt s" and ?f = "first_page page_cnt s" and ?n = "unat page_cnt"
  note T = boot_tables_ok [OF ok] and f = first_page_word [OF ok]
  obtain m where t: "?t = s\<lparr>mem := m, mem_map := bm_at (LONG_ALIGN (img_end s)) page_cnt 11,
      mem_map_end := tables_end page_cnt s,
      img_end := PAGE_ALIGN (tables_end page_cnt s + 0xfff), page_count := page_cnt, free_page_count := 0\<rparr>"
    using boot_tables_mem [OF ok] by blast
  have e: "img_end ?t = PAGE_ALIGN (tables_end page_cnt s + 0xfff)" by (simp add: t)
  have pg: "vir_to_page (img_end ?t) ?t = pg (mem_map ?t) ?f"
    unfolding vir_to_page_def e f(1) pg_def ..
  have ix: "ptr_diff (pg (mem_map ?t) ?f) (mem_map ?t) 12 = of_nat ?f"
    using f(2) by (intro ptr_diff_pg) simp
  have u: "unat (of_nat ?f :: u32) = ?f" using f(2) by (intro unat_of_nat_32) simp
  then have cnt: "(if of_nat ?f < page_cnt then unat (page_cnt - of_nat ?f) else 0) = ?n - ?f"
    by (simp add: word_less_nat_alt unat_sub word_le_nat_alt)
  have s': "s' = free_all (?n - ?f) (pg (mem_map ?t) ?f) ?t"
    unfolding s'_def buddy_system_init_alt Let_def pg ix cnt ..
  have res: "mm_ok s' \<and> mm_frame ?t s' \<and> avail_pages s' = {?f..<?n}"
  proof (cases "?f \<le> ?n")
    case True
    then show ?thesis
      unfolding s' using free_all_ok [OF T(1), of ?f "?n - ?f"] T(2,3) by simp
  next
    case False
    then show ?thesis unfolding s' using T by (simp add: mm_frame_refl)
  qed
  then show "mm_ok s'" "avail_pages s' = {?f..<?n}" "mm_frame ?t s'" by simp_all
  then show "total_pages s' = ?n" using T(3) mm_frame_globals(4) [of ?t s'] by (simp add: total_pages_def)
  show "x \<in> mm_own s' \<Longrightarrow> 0xC0000000 \<le> unat x \<and> unat x < unat (tables_end page_cnt s)"
    "x \<in> mm_own s' \<Longrightarrow> x \<notin> region (free_area s) 132 \<Longrightarrow> unat (img_end s) \<le> unat x"
    using T(4,5) mm_frame_globals(11) [OF \<open>mm_frame ?t s'\<close>] by simp_all
qed

text \<open>No byte of a page that can be handed out belongs to the allocator.\<close>

lemma page_bytes_iff:
  assumes "i < 2 ^ 18"
  shows "x \<in> page_bytes i \<longleftrightarrow> 0xC0000000 + 4096 * i \<le> unat x \<and> unat x < 0xC0000000 + 4096 * i + 4096"
proof -
  have "unat (KVM_BASE + of_nat (4096 * i)) = 0xC0000000 + 4096 * i"
    using assms unat_add_32 [of KVM_BASE "4096 * i"] by simp
  then show ?thesis
    unfolding page_bytes_def using region_linear [of "KVM_BASE + of_nat (4096 * i)" 4096 x] assms by simp
qed

lemma free_pages_clear:
  assumes ok: "boot_ok page_cnt s" and i: "first_page page_cnt s \<le> i" "i < unat page_cnt"
  shows "page_bytes i \<inter> mm_own (buddy_system_init page_cnt s) = {}"
proof -
  have "i < 2 ^ 18" using i(2) boot_bounds(2) [OF ok] by simp
  note pb = page_bytes_iff [OF this]
  show ?thesis
    using buddy_system_init_correct(4) [OF ok] first_page_word(3) [OF ok] i(1) pb by fastforce
qed

end
