(* ===== verification/PageProps.thy ===== *)
theory PageProps
  imports BuddyInit
begin

text \<open>
  The properties of the page allocator of \<open>kernel/mm.c\<close>, stated on \<open>free_pages\<close>,
  \<open>alloc_pages\<close> and \<open>buddy_system_init\<close>, and what they say of any sequence of calls. A concrete
  machine of 1024 pages whose kernel image ends at \<open>0xC0200000\<close> shows that the hypotheses hold.
\<close>

section \<open>A concrete machine\<close>

definition boot0 :: mm_state where
  "boot0 = \<lparr>mem = \<lambda>_. 0, io = [], dev = \<lambda>_ _. 0, free_area = 0xC0100000, mem_map = 0, mem_map_end = 0,
     page_count = 0, free_page_count = 0, img_end = 0xC0200000, kpagedir = 0xC0001000, img_end_sym = 0xC0200000\<rparr>"

definition mm0 :: mm_state where
  "mm0 = buddy_system_init 1024 boot0"

lemma bm_off_1024: "bm_off 1024 11 = 148"
  by (simp add: bm_off_def numeral_eq_Suc) (simp add: bitmap_size_def ALIGN_def)

lemma boot0_ok: "boot_ok 1024 boot0"
  by (simp add: boot_ok_def boot0_def bm_off_1024)

lemma first_page0: "first_page 1024 boot0 = 517"
  by (simp add: first_page_def tables_end_def bm_at_def bm_off_1024 boot0_def ALIGN_def)

lemmas mm0 = buddy_system_init_correct [OF boot0_ok, folded mm0_def, unfolded first_page0]

lemma mm0_ok: "mm_ok mm0" "avail_pages mm0 = {517..<1024}" "total_pages mm0 = 1024"
  using mm0(1-3) by simp_all

text \<open>A block of one page handed out by the concrete machine.\<close>

lemma mm0_alloc: "\<exists>j s'. page_alloc 0 mm0 = Some (j, s')"
proof -
  have "blk 517 0 \<subseteq> avail_pages mm0" by (simp add: blk_def mm0_ok(2))
  then have "page_alloc 0 mm0 \<noteq> None" using pa.alloc_iff [OF mm0_ok(1), of 0] by auto
  then show ?thesis by auto
qed

section \<open>Calls of the allocator\<close>

text \<open>
  The states reached from \<open>s0\<close> by calls of \<open>alloc_pages\<close> and by calls of \<open>free_pages\<close> with blocks
  handed out before; the list holds the blocks that are still out.
\<close>

inductive mm_hist :: "'a mm_state_scheme \<Rightarrow> 'a mm_state_scheme \<Rightarrow> (nat \<times> nat) list \<Rightarrow> bool" for s0 where
  start: "mm_hist s0 s0 []"
| alloc: "mm_hist s0 s H \<Longrightarrow> k \<le> 10 \<Longrightarrow> alloc_pages (of_nat k) s = Inr (page, s') \<Longrightarrow>
    mm_hist s0 s' ((unat (ptr_diff page (mem_map s) 12), k) # H)"
| free: "mm_hist s0 s H \<Longrightarrow> (j, k) \<in> set H \<Longrightarrow>
    mm_hist s0 (free_pages (mem_map s + 12 * of_nat j) (of_nat k) s) (remove1 (j, k) H)"

inductive_cases mm_hist_ConsE: "mm_hist s0 s (b # H)"

definition hist_inv :: "'a mm_state_scheme \<Rightarrow> 'a mm_state_scheme \<Rightarrow> (nat \<times> nat) list \<Rightarrow> bool" where
  "hist_inv s0 s H \<longleftrightarrow> mm_ok s \<and> disjoint_blocks H \<and> held H \<inter> avail_pages s = {} \<and>
     held H \<union> avail_pages s = avail_pages s0 \<and> mm_frame s0 s \<and>
     (\<forall>(i, l)\<in>set H. l \<le> 10 \<and> 2 ^ l dvd i \<and> i + 2 ^ l \<le> total_pages s)"

lemma hist_invD:
  assumes "hist_inv s0 s H"
  shows "mm_ok s" "disjoint_blocks H" "held H \<inter> avail_pages s = {}" "held H \<union> avail_pages s = avail_pages s0"
    "mm_frame s0 s" "\<forall>(i, l)\<in>set H. l \<le> 10 \<and> 2 ^ l dvd i \<and> i + 2 ^ l \<le> total_pages s"
  using assms by (simp_all add: hist_inv_def)

lemma mm_hist_inv:
  assumes "mm_hist s0 s H" "mm_ok s0"
  shows "hist_inv s0 s H"
  using assms
proof (induction rule: mm_hist.induct)
  case start
  then show ?case by (simp add: hist_inv_def held_def mm_frame_refl)
next
  case (alloc s H k page s')
  note I = hist_invD [OF alloc.IH [OF alloc.prems]]
  let ?j = "unat (ptr_diff page (mem_map s) 12)"
  have pa: "page_alloc k s = Some (?j, s')" using alloc.hyps(3) by (simp add: page_alloc_def)
  note h = pa.alloc_held [OF I(1) alloc.hyps(2) pa I(2,3,6)]
  note e = page_alloc_eq(2) [OF I(1) alloc.hyps(2) pa]
  show ?case
    unfolding hist_inv_def using h I(4) e mm_frame_trans [OF I(5)] by simp
next
  case (free s H j k)
  note I = hist_invD [OF free.IH [OF free.prems]]
  have pf: "free_pages (mem_map s + 12 * of_nat j) (of_nat k) s = page_free j k s"
    by (simp add: page_free_def pg_def)
  note h = pa.free_held [OF I(1) free.hyps(2) I(2,3,6)]
  have "k \<le> 10 \<and> 2 ^ k dvd j \<and> j + 2 ^ k \<le> total_pages s" using I(6) free.hyps(2) by auto
  moreover have "blk j k \<subseteq> held H" using free.hyps(2) by (force simp: held_def)
  then have "blk j k \<inter> avail_pages s = {}" using I(3) by blast
  ultimately have p: "pending (unat (page_count s)) (frees s) j k"
    by (simp add: pending_def avail_pages_def total_pages_def)
  have "mm_frame s (page_free j k s)" unfolding page_free_def by (rule free_pages_ok(3) [OF I(1) p])
  then show ?case
    unfolding hist_inv_def pf using h I(4) mm_frame_trans [OF I(5)] by simp
qed

section \<open>Properties\<close>

text \<open>
  C18. Freeing: for a block of the allocator's pages that is aligned and not free, \<open>free_pages\<close> computes
  the abstract \<open>afree\<close> on the free lists read off the rings, restores the invariant (lists
  well-formed, buddies merged, bitmaps and rings in agreement), makes exactly the block free,
  counts its pages, and changes no byte outside the allocator's tables.
\<close>

theorem free_pages_correct:
  assumes "mm_ok s" "k \<le> 10" "2 ^ k dvd i" "i + 2 ^ k \<le> total_pages s" "blk i k \<inter> avail_pages s = {}"
  defines "s' \<equiv> free_pages (mem_map s + 12 * of_nat i) (of_nat k) s"
  shows "mm_ok s' \<and> frees s' = afree (frees s) i k \<and> avail_pages s' = avail_pages s \<union> blk i k \<and>
    free_page_count s' = free_page_count s + 2 ^ k \<and> mm_frame s s'"
proof -
  have p: "pending (unat (page_count s)) (frees s) i k"
    using assms(2-5) by (simp add: pending_def avail_pages_def total_pages_def)
  note f = free_pages_ok [OF assms(1) p, unfolded pg_def, folded s'_def]
  note I = buddy_invD [OF mm_ok_inv [OF assms(1)]] and I' = buddy_invD [OF mm_ok_inv [OF f(1)]]
  note a = afree_correct [OF I(3,4) p]
  have "free_page_count s' = of_nat (free_cnt (frees s) + 2 ^ k)" using I'(5) a f(2) by simp
  then show ?thesis using f a I(5) by (simp add: avail_pages_def)
qed

theorem free_pages_correct_witness:
  "mm_ok (free_pages (mem_map mm0) 0 mm0) \<and>
    avail_pages (free_pages (mem_map mm0) 0 mm0) = insert 0 {517..<1024}"
  using free_pages_correct [of mm0 0 0] by (simp add: mm0_ok blk_def)

text \<open>
  C19. Allocating: when \<open>alloc_pages\<close> returns, the page is the first of an aligned block of free pages
  of the order asked for; exactly this block leaves the free set, the invariant holds, the
  counter drops by its size, and no byte outside the allocator's tables changes.
\<close>

theorem alloc_pages_correct:
  assumes "mm_ok s" "k \<le> 10" "alloc_pages (of_nat k) s = Inr (page, s')"
  shows "\<exists>j. page = mem_map s + 12 * of_nat j \<and> 2 ^ k dvd j \<and> j + 2 ^ k \<le> total_pages s \<and>
    blk j k \<subseteq> avail_pages s \<and> avail_pages s' = avail_pages s - blk j k \<and> mm_ok s' \<and>
    free_page_count s' = free_page_count s - 2 ^ k \<and> mm_frame s s'"
proof -
  let ?j = "unat (ptr_diff page (mem_map s) 12)"
  have pa: "page_alloc k s = Some (?j, s')" using assms(3) by (simp add: page_alloc_def)
  note e = page_alloc_eq(2) [OF assms(1,2) pa] and a = pa.alloc_some [OF assms(1,2) pa]
  note I = buddy_invD [OF mm_ok_inv [OF assms(1)]]
  have ok': "mm_ok s'" using e by blast
  note I' = buddy_invD [OF mm_ok_inv [OF ok']]
  have "free_cnt (frees s') + 2 ^ k = free_cnt (frees s)"
    using aalloc_correct [OF I(3,4), of k ?j "frees s'"] e by blast
  then have "free_page_count s' + 2 ^ k = free_page_count s"
    unfolding I'(5) I(5) by (metis of_nat_add of_nat_numeral of_nat_power)
  then have cnt: "free_page_count s' = free_page_count s - 2 ^ k" by (simp add: eq_diff_eq)
  have b: "?j + 2 ^ k \<le> total_pages s" using a pa.avail_bound [OF assms(1)] by (intro blk_bound) blast
  have "page = pg (mem_map s) ?j" using e assms(3) by simp
  then show ?thesis using a e cnt b unfolding pg_def by blast
qed

theorem alloc_pages_correct_witness:
  "\<exists>page s' j. alloc_pages 0 mm0 = Inr (page, s') \<and> page = mem_map mm0 + 12 * of_nat j \<and> j \<in> {517..<1024} \<and>
    avail_pages s' = {517..<1024} - {j}"
proof -
  obtain j s' where "page_alloc 0 mm0 = Some (j, s')" using mm0_alloc by blast
  from page_alloc_eq(2) [OF mm0_ok(1) _ this]
  have al: "alloc_pages 0 mm0 = Inr (pg (mem_map mm0) j, s')" by simp
  show ?thesis
    using alloc_pages_correct [OF mm0_ok(1), of 0] al by (force simp: blk_def mm0_ok(2))
qed

text \<open>
  C20. An allocation fails only when it has to: it ends in the out-of-memory \<open>BUG\<close> exactly when no
  aligned run of free pages has the size asked for, and it never fails in another way.
\<close>

theorem alloc_pages_complete:
  assumes "mm_ok s" "k \<le> 10"
  shows "if \<exists>j. 2 ^ k dvd j \<and> blk j k \<subseteq> avail_pages s
    then \<exists>page s'. alloc_pages (of_nat k) s = Inr (page, s')
    else alloc_pages (of_nat k) s = Inl (Bug ''memory alloc failed'')"
proof (cases "page_alloc k s")
  case None
  then have "alloc_pages (of_nat k) s = Inl (Bug ''memory alloc failed'')"
    using page_alloc_eq(1) [OF assms] alloc_pages_eq(1) [OF assms] by blast
  moreover have "\<not> (\<exists>j. 2 ^ k dvd j \<and> blk j k \<subseteq> avail_pages s)" using pa.alloc_iff [OF assms] None by blast
  ultimately show ?thesis by (simp only: if_False)
next
  case (Some r)
  then obtain j s' where "page_alloc k s = Some (j, s')" by (cases r) auto
  then have "alloc_pages (of_nat k) s = Inr (pg (mem_map s) j, s')" using page_alloc_eq(2) [OF assms] by blast
  moreover have "\<exists>j. 2 ^ k dvd j \<and> blk j k \<subseteq> avail_pages s" using pa.alloc_iff [OF assms] Some by blast
  ultimately show ?thesis by (simp only: if_True) blast
qed

theorem alloc_pages_complete_witness:
  "alloc_pages 10 mm0 = Inl (Bug ''memory alloc failed'')"
proof -
  have "\<not> (\<exists>j. 2 ^ 10 dvd j \<and> blk j 10 \<subseteq> avail_pages mm0)"
  proof (intro notI, elim exE conjE)
    fix j :: nat assume j: "2 ^ 10 dvd j" "blk j 10 \<subseteq> avail_pages mm0"
    have "j \<in> blk j 10" "j + 1023 \<in> blk j 10" by (simp_all add: blk_def)
    then have "j \<in> {517..<1024}" "j + 1023 \<in> {517..<1024}" using j(2) unfolding mm0_ok(2) by blast+
    then show False by simp
  qed
  then show ?thesis using alloc_pages_complete [OF mm0_ok(1), of 10] by (simp only: if_False) simp
qed

text \<open>
  Freeing a block that was just allocated undoes the allocation: every free list holds the same
  blocks as before (their order on the ring may differ) and the counter has its old value, since
  merged free lists are determined by the free set.
\<close>

theorem alloc_free_roundtrip:
  assumes "mm_ok s" "k \<le> 10" "alloc_pages (of_nat k) s = Inr (page, s')"
  shows "set (frees (free_pages page (of_nat k) s') o') = set (frees s o') \<and>
    free_page_count (free_pages page (of_nat k) s') = free_page_count s"
proof -
  let ?j = "unat (ptr_diff page (mem_map s) 12)"
  have pa: "page_alloc k s = Some (?j, s')" using assms(3) by (simp add: page_alloc_def)
  note e = page_alloc_eq(2) [OF assms(1,2) pa]
  have g: "mem_map s' = mem_map s" "page_count s' = page_count s" using e mm_frame_globals by blast+
  then have p: "free_pages page (of_nat k) s' = page_free ?j k s'"
    using e assms(3) by (simp add: page_free_def)
  have fa: "mm_ok (page_free ?j k s')" "avail_pages (page_free ?j k s') = avail_pages s"
    using pa.free_alloc [OF assms(1,2) pa] by blast+
  have ok': "mm_ok s'" using e by blast
  note I = buddy_invD [OF mm_ok_inv [OF assms(1)]] and J = buddy_invD [OF mm_ok_inv [OF fa(1)]]
    and K = buddy_invD [OF mm_ok_inv [OF ok']]
  have al: "aalloc (frees s) k = Some (?j, frees s')" using e by blast
  note a = aalloc_correct [OF I(3,4) al]
  have "?j + 2 ^ k \<le> unat (page_count s)" using a free_set_bound [OF I(3)] by (intro blk_bound) blast
  then have pe: "pending (unat (page_count s')) (frees s') ?j k"
    using a assms(2) g(2) unfolding pending_def by auto
  note fo = free_pages_ok [OF ok' pe, folded page_free_def]
  have n: "unat (page_count (page_free ?j k s')) = unat (page_count s)"
    using mm_frame_globals(4) [OF fo(3)] g(2) by simp
  have "set (frees (page_free ?j k s') o') = set (frees s o')"
    using fa(2) by (intro merged_canonical [OF J(3) [unfolded n] J(4) I(3,4)]) (simp add: avail_pages_def)
  moreover have "free_cnt (frees (page_free ?j k s')) = free_cnt (frees s)"
    using afree_correct [OF K(3,4) pe] fo(2) a by simp
  ultimately show ?thesis using I(5) J(5) p by simp
qed

theorem alloc_free_roundtrip_witness:
  "\<exists>page s'. alloc_pages 0 mm0 = Inr (page, s') \<and> free_page_count (free_pages page 0 s') = free_page_count mm0"
proof -
  obtain j s' where "page_alloc 0 mm0 = Some (j, s')" using mm0_alloc by blast
  from page_alloc_eq(2) [OF mm0_ok(1) _ this]
  have al: "alloc_pages 0 mm0 = Inr (pg (mem_map mm0) j, s')" by simp
  then show ?thesis using alloc_free_roundtrip [OF mm0_ok(1), of 0] by auto
qed

text \<open>
  C1. No page is handed out twice and none is lost: after any sequence of allocations and of frees of
  blocks handed out before, the blocks still out are pairwise disjoint and disjoint from the free
  pages, together they are the pages that were free at the start, and only the allocator's own
  tables have changed.
\<close>

theorem mm_hist_safe:
  assumes "mm_ok s0" "mm_hist s0 s H"
  shows "disjoint_blocks H \<and> held H \<inter> avail_pages s = {} \<and> held H \<union> avail_pages s = avail_pages s0 \<and>
    mm_ok s \<and> (\<forall>x. x \<notin> mm_own s0 \<longrightarrow> mem s x = mem s0 x)"
  using hist_invD [OF mm_hist_inv [OF assms(2,1)]] mm_frame_globals(10) by blast

theorem mm_hist_safe_witness:
  "\<exists>page s'. mm_hist mm0 s' [(unat (ptr_diff page (mem_map mm0) 12), 0)] \<and>
    held [(unat (ptr_diff page (mem_map mm0) 12), 0)] \<inter> avail_pages s' = {}"
proof -
  obtain j s' where "page_alloc 0 mm0 = Some (j, s')" using mm0_alloc by blast
  from page_alloc_eq(2) [OF mm0_ok(1) _ this]
  have al: "alloc_pages (of_nat 0) mm0 = Inr (pg (mem_map mm0) j, s')" by simp
  have "mm_hist mm0 s' [(unat (ptr_diff (pg (mem_map mm0) j) (mem_map mm0) 12), 0)]"
    by (rule mm_hist.alloc [OF mm_hist.start _ al]) simp
  with mm_hist_safe [OF mm0_ok(1) this] show ?thesis by blast
qed

text \<open>
  C21. Initialisation: on a machine whose tables fit behind the kernel image, \<open>buddy_system_init\<close>
  establishes the invariant with exactly the pages from the first one above the tables to the end
  of memory free, counted by \<open>free_page_count\<close>, and no byte of such a page belongs to the tables.
\<close>

theorem buddy_init_correct:
  assumes "boot_ok page_cnt s"
  defines "s' \<equiv> buddy_system_init page_cnt s"
  shows "mm_ok s' \<and> avail_pages s' = {first_page page_cnt s..<unat page_cnt} \<and>
    (\<forall>i. i \<in> avail_pages s' \<longrightarrow> page_bytes i \<inter> mm_own s' = {}) \<and>
    free_page_count s' = of_nat (unat page_cnt - first_page page_cnt s)"
proof -
  note b = buddy_system_init_correct [OF assms(1), folded s'_def]
  have "free_page_count s' = of_nat (free_cnt (frees s'))" by (rule buddy_invD(5) [OF mm_ok_inv [OF b(1)]])
  moreover have "free_cnt (frees s') = card (avail_pages s')"
    unfolding avail_pages_def by (rule card_free_set [symmetric, OF buddy_invD(3) [OF mm_ok_inv [OF b(1)]]])
  ultimately show ?thesis
    using b free_pages_clear [OF assms(1), folded s'_def] by simp
qed

theorem buddy_init_correct_witness:
  "avail_pages (buddy_system_init 1024 boot0) = {517..<1024} \<and> free_page_count (buddy_system_init 1024 boot0) = 507"
  using buddy_init_correct [OF boot0_ok] by (simp add: first_page0)

end
