(* ===== verification/Tty.thy ===== *)
theory Tty
  imports Machine
begin

text \<open>
  The terminal queues of \<open>include/nros/tty.h\<close>: rings of 1024 bytes with a head and a tail index.
  An access outside the buffer is \<open>OutOfRange\<close>. The locale \<open>byte_queue\<close> is what the keyboard and
  the console rely on: bytes come out in the order they went in, up to 1023 of them.
\<close>

section \<open>The macros\<close>

record tty_queue =
  q_data :: u32
  q_head :: u32
  q_tail :: u32
  q_buf :: "u8 list"

record tty_t =
  read_q :: tty_queue
  write_q :: tty_queue

abbreviation (input) TTY_BUF_SIZE :: u32 where "TTY_BUF_SIZE \<equiv> 1024"

definition INC :: "u32 \<Rightarrow> u32" where
  "INC a = (a + 1) AND (TTY_BUF_SIZE - 1)"

definition DEC :: "u32 \<Rightarrow> u32" where
  "DEC a = (a - 1) AND (TTY_BUF_SIZE - 1)"

definition q_empty :: "tty_queue \<Rightarrow> bool" where
  "q_empty a \<longleftrightarrow> q_head a = q_tail a"

definition LEFT :: "tty_queue \<Rightarrow> u32" where
  "LEFT a = (q_tail a - q_head a - 1) AND (TTY_BUF_SIZE - 1)"

definition FULL :: "tty_queue \<Rightarrow> bool" where
  "FULL a \<longleftrightarrow> LEFT a = 0"

definition CHARS :: "tty_queue \<Rightarrow> u32" where
  "CHARS a = (q_head a - q_tail a) AND (TTY_BUF_SIZE - 1)"

definition LAST :: "tty_queue \<Rightarrow> fault + u8" where
  "LAST a = (let i = unat ((TTY_BUF_SIZE - 1) AND (q_head a - 1))
     in if i < length (q_buf a) then Inr (q_buf a ! i) else Inl OutOfRange)"

definition GETCH :: "tty_queue \<Rightarrow> fault + u8 \<times> tty_queue" where
  "GETCH q = (let i = unat (q_tail q)
     in if i < length (q_buf q) then Inr (q_buf q ! i, q\<lparr>q_tail := INC (q_tail q)\<rparr>) else Inl OutOfRange)"

definition PUTCH :: "u8 \<Rightarrow> tty_queue \<Rightarrow> fault + tty_queue" where
  "PUTCH c q = (let i = unat (q_head q)
     in if i < length (q_buf q) then Inr (q\<lparr>q_buf := (q_buf q)[i := c], q_head := INC (q_head q)\<rparr>)
        else Inl OutOfRange)"

section \<open>The contents of a queue\<close>

definition q_ok :: "tty_queue \<Rightarrow> bool" where
  "q_ok q \<longleftrightarrow> length (q_buf q) = 1024 \<and> q_head q < 1024 \<and> q_tail q < 1024"

definition q_list :: "tty_queue \<Rightarrow> u8 list" where
  "q_list q = map (\<lambda>i. q_buf q ! ((unat (q_tail q) + i) mod 1024)) [0..<unat (CHARS q)]"

lemma and_1023: "unat (x AND 1023) = unat x mod 1024" for x :: u32
  using unat_and_mask [of x 10] by (simp add: mask_eq_exp_minus_1)

lemma INC_unat: "a < 1024 \<Longrightarrow> unat (INC a) = (unat a + 1) mod 1024"
  by (simp add: INC_def and_1023 unat_word_ariths mod_mod_cancel)

lemma CHARS_unat:
  assumes "q_ok q"
  shows "unat (CHARS q) = (if unat (q_tail q) \<le> unat (q_head q) then unat (q_head q) - unat (q_tail q)
    else unat (q_head q) + 1024 - unat (q_tail q))"
proof -
  have ht: "unat (q_head q) < 1024" "unat (q_tail q) < 1024" using assms by (simp_all add: q_ok_def word_less_nat_alt)
  show ?thesis
  proof (cases "unat (q_tail q) \<le> unat (q_head q)")
    case True
    then show ?thesis using ht by (simp add: CHARS_def and_1023 unat_sub_if_size)
  next
    case False
    then have e: "unat (q_head q) + 2 ^ 32 - unat (q_tail q) = (unat (q_head q) + 1024 - unat (q_tail q)) + 1024 * 4194303"
      using ht by simp
    have "unat (CHARS q) = (unat (q_head q) + 2 ^ 32 - unat (q_tail q)) mod 1024"
      using False by (simp add: CHARS_def and_1023 unat_sub_if_size word_size)
    also have "\<dots> = (unat (q_head q) + 1024 - unat (q_tail q)) mod 1024"
      unfolding e by (rule mod_mult_self2)
    finally show ?thesis using False by simp
  qed
qed

lemma CHARS_less: "unat (CHARS q) < 1024"
  by (simp add: CHARS_def and_1023)

lemma length_q_list [simp]: "length (q_list q) = unat (CHARS q)"
  by (simp add: q_list_def)

lemma q_list_empty: "q_ok q \<Longrightarrow> q_list q = [] \<longleftrightarrow> q_empty q"
proof -
  assume q: "q_ok q"
  then have ht: "unat (q_head q) < 1024" "unat (q_tail q) < 1024" by (simp_all add: q_ok_def word_less_nat_alt)
  have "unat (CHARS q) = 0 \<longleftrightarrow> unat (q_head q) = unat (q_tail q)"
    using ht by (simp add: CHARS_unat [OF q])
  then show ?thesis by (auto simp: q_list_def q_empty_def word_unat_eq_iff)
qed

lemma GETCH_ok:
  assumes "q_ok q" "q_list q \<noteq> []"
  shows "\<exists>q'. GETCH q = Inr (hd (q_list q), q') \<and> q_ok q' \<and> q_list q' = tl (q_list q)"
proof -
  let ?q = "q\<lparr>q_tail := INC (q_tail q)\<rparr>" and ?n = "unat (CHARS q)"
  have ht: "unat (q_head q) < 1024" "unat (q_tail q) < 1024" using assms by (simp_all add: q_ok_def word_less_nat_alt)
  have t': "unat (INC (q_tail q)) = (unat (q_tail q) + 1) mod 1024"
    using assms(1) by (simp add: INC_unat q_ok_def)
  then have ok: "q_ok ?q" using assms(1) by (simp add: q_ok_def word_less_nat_alt)
  have n: "?n > 0" using assms(2) by (simp add: q_list_def)
  have n': "unat (CHARS ?q) = ?n - 1"
    using ht n t' by (cases "unat (q_tail q) = 1023") (auto simp: CHARS_unat [OF ok] CHARS_unat [OF assms(1)] split: if_splits)
  have "q_list ?q = tl (q_list q)"
  proof (rule nth_equalityI)
    show "length (q_list ?q) = length (tl (q_list q))" using n' by simp
    fix i assume "i < length (q_list ?q)"
    then have i: "i < ?n - 1" "Suc i < ?n" using n' by simp_all
    have "((unat (q_tail q) + 1) mod 1024 + i) mod 1024 = (unat (q_tail q) + Suc i) mod 1024"
      by (simp add: mod_simps)
    then show "q_list ?q ! i = tl (q_list q) ! i"
      using i n' t' by (simp add: q_list_def nth_tl)
  qed
  moreover have "hd (q_list q) = q_buf q ! unat (q_tail q)"
    using n ht by (simp add: q_list_def hd_map)
  ultimately show ?thesis
    using ok ht assms(1) by (simp add: GETCH_def q_ok_def)
qed

lemma PUTCH_ok:
  assumes "q_ok q" "length (q_list q) < 1023"
  shows "\<exists>q'. PUTCH c q = Inr q' \<and> q_ok q' \<and> q_list q' = q_list q @ [c]"
proof -
  let ?q = "q\<lparr>q_buf := (q_buf q)[unat (q_head q) := c], q_head := INC (q_head q)\<rparr>" and ?n = "unat (CHARS q)"
  let ?h = "unat (q_head q)" and ?t = "unat (q_tail q)"
  have ht: "?h < 1024" "?t < 1024" using assms by (simp_all add: q_ok_def word_less_nat_alt)
  have h': "unat (INC (q_head q)) = (?h + 1) mod 1024"
    using assms(1) by (simp add: INC_unat q_ok_def)
  then have ok: "q_ok ?q" using assms(1) by (simp add: q_ok_def word_less_nat_alt)
  have n: "?n < 1023" using assms(2) by simp
  have hn: "(?t + ?n) mod 1024 = ?h" using ht by (auto simp: CHARS_unat [OF assms(1)] mod_if)
  have n': "unat (CHARS ?q) = Suc ?n"
    using CHARS_unat [OF ok] CHARS_unat [OF assms(1)] ht n h' by (cases "?h = 1023") (auto split: if_splits)
  have "q_list ?q = q_list q @ [c]"
  proof (rule nth_equalityI)
    show "length (q_list ?q) = length (q_list q @ [c])" using n' by simp
    fix i assume "i < length (q_list ?q)"
    then have i: "i \<le> ?n" using n' by simp
    show "q_list ?q ! i = (q_list q @ [c]) ! i"
    proof (cases "i = ?n")
      case True
      then show ?thesis using n' hn assms(1) ht by (simp add: q_list_def nth_append q_ok_def)
    next
      case False
      then have "i < ?n" using i by simp
      moreover have "(?t + i) mod 1024 \<noteq> (?t + ?n) mod 1024"
      proof
        assume "(?t + i) mod 1024 = (?t + ?n) mod 1024"
        then have "1024 dvd (?t + ?n) - (?t + i)" using calculation by (subst mod_eq_dvd_iff_nat [symmetric]) simp_all
        then have "1024 \<le> ?n - i" using calculation by (auto dest: dvd_imp_le)
        then show False using n by simp
      qed
      ultimately show ?thesis using n' hn by (simp add: q_list_def nth_append)
    qed
  qed
  then show ?thesis
    using ok ht assms(1) by (simp add: PUTCH_def q_ok_def)
qed

section \<open>The interface\<close>

primrec put_all :: "('c \<Rightarrow> 'q \<Rightarrow> 'e + 'q) \<Rightarrow> 'c list \<Rightarrow> 'q \<Rightarrow> 'e + 'q" where
  "put_all put [] q = Inr q"
| "put_all put (c # cs) q = bindE (put c q) (put_all put cs)"

primrec get_all :: "('q \<Rightarrow> 'e + 'c \<times> 'q) \<Rightarrow> nat \<Rightarrow> 'q \<Rightarrow> 'e + 'c list \<times> 'q" where
  "get_all get 0 q = Inr ([], q)"
| "get_all get (Suc n) q =
     bindE (get q) (\<lambda>(c, q). bindE (get_all get n q) (\<lambda>(cs, q). Inr (c # cs, q)))"

locale byte_queue =
  fixes put :: "'c \<Rightarrow> 'q \<Rightarrow> 'e + 'q"
    and get :: "'q \<Rightarrow> 'e + 'c \<times> 'q"
    and ok :: "'q \<Rightarrow> bool"
    and contents :: "'q \<Rightarrow> 'c list"
    and cap :: nat
  assumes put_ok: "ok q \<Longrightarrow> length (contents q) < cap \<Longrightarrow>
      \<exists>q'. put c q = Inr q' \<and> ok q' \<and> contents q' = contents q @ [c]"
    and get_ok: "ok q \<Longrightarrow> contents q \<noteq> [] \<Longrightarrow>
      \<exists>q'. get q = Inr (hd (contents q), q') \<and> ok q' \<and> contents q' = tl (contents q)"
begin

lemma put_all_ok:
  "ok q \<Longrightarrow> length (contents q) + length cs \<le> cap \<Longrightarrow>
    \<exists>q'. put_all put cs q = Inr q' \<and> ok q' \<and> contents q' = contents q @ cs"
proof (induction cs arbitrary: q)
  case (Cons c cs)
  then obtain q' where q': "put c q = Inr q'" "ok q'" "contents q' = contents q @ [c]"
    using put_ok [of q c] by auto
  show ?case using Cons.IH [OF q'(2)] Cons.prems(2) q' by auto
qed simp

lemma get_all_ok:
  "ok q \<Longrightarrow> n \<le> length (contents q) \<Longrightarrow>
    \<exists>q'. get_all get n q = Inr (take n (contents q), q') \<and> ok q' \<and> contents q' = drop n (contents q)"
proof (induction n arbitrary: q)
  case (Suc n)
  then have ne: "contents q \<noteq> []" by auto
  then obtain q' where q': "get q = Inr (hd (contents q), q')" "ok q'" "contents q' = tl (contents q)"
    using get_ok [OF Suc.prems(1)] by auto
  have "n \<le> length (contents q')" using Suc.prems(2) q'(3) by simp
  from Suc.IH [OF q'(2) this] q' ne show ?case by (auto simp: take_Suc drop_Suc)
qed simp

text \<open>First in, first out.\<close>

lemma get_put:
  assumes "ok q" "contents q = []" "length cs \<le> cap"
  shows "\<exists>q' q''. put_all put cs q = Inr q' \<and> get_all get (length cs) q' = Inr (cs, q'') \<and> ok q'' \<and> contents q'' = []"
proof -
  obtain q' where q': "put_all put cs q = Inr q'" "ok q'" "contents q' = cs"
    using put_all_ok [OF assms(1), of cs] assms(2,3) by auto
  then show ?thesis using get_all_ok [OF q'(2), of "length cs"] by auto
qed

end

interpretation tq: byte_queue PUTCH GETCH q_ok q_list 1023
  by unfold_locales (fact PUTCH_ok GETCH_ok)+

section \<open>Properties\<close>

text \<open>
  C26. The ring is a FIFO of 1023 bytes: what is put into an empty queue comes out in the same order,
  without an access outside the buffer, whatever the position of its indices.
\<close>

theorem tty_queue_fifo:
  assumes "q_ok q" "q_empty q" "length cs \<le> 1023"
  shows "\<exists>q' q''. put_all PUTCH cs q = Inr q' \<and> CHARS q' = of_nat (length cs) \<and>
    get_all GETCH (length cs) q' = Inr (cs, q'') \<and> q_ok q'' \<and> q_empty q''"
proof -
  have e: "q_list q = []" using assms(1,2) by (simp add: q_list_empty)
  obtain q' q'' where q: "put_all PUTCH cs q = Inr q'" "get_all GETCH (length cs) q' = Inr (cs, q'')"
    "q_ok q''" "q_list q'' = []"
    using tq.get_put [OF assms(1) e assms(3)] by auto
  moreover have "q_list q' = cs" using tq.put_all_ok [OF assms(1), of cs] q(1) e assms(3) by auto
  then have "unat (CHARS q') = length cs" by (metis length_q_list)
  then have "CHARS q' = of_nat (length cs)" by (metis of_nat_unat ucast_id)
  ultimately show ?thesis using q_list_empty by blast
qed

definition empty_queue :: tty_queue where
  "empty_queue = \<lparr>q_data = 0, q_head = 1020, q_tail = 1020, q_buf = replicate 1024 0\<rparr>"

lemma empty_queue_ok: "q_ok empty_queue" "q_empty empty_queue"
  by (simp_all add: empty_queue_def q_ok_def q_empty_def)

theorem tty_queue_fifo_witness:
  "\<exists>q' q''. put_all PUTCH [65, 66, 67, 68, 69, 70] empty_queue = Inr q' \<and>
    get_all GETCH 6 q' = Inr ([65, 66, 67, 68, 69, 70], q'')"
proof -
  have l: "length [65, 66, 67, 68, 69, 70 :: u8] = 6" by simp
  show ?thesis
    using tty_queue_fifo [OF empty_queue_ok, of "[65, 66, 67, 68, 69, 70]", unfolded l] by auto
qed

text \<open>
  \<open>PUTCH\<close> does not look at \<open>FULL\<close>: the 1024th byte makes the head meet the tail, and a queue that
  held 1023 bytes reads as empty.
\<close>

theorem tty_queue_overflow:
  assumes "q_ok q" "FULL q"
  shows "length (q_list q) = 1023 \<and> (\<exists>q'. PUTCH c q = Inr q' \<and> q_list q' = [])"
proof -
  let ?h = "unat (q_head q)" and ?t = "unat (q_tail q)"
  have ht: "?h < 1024" "?t < 1024" using assms by (simp_all add: q_ok_def word_less_nat_alt)
  have "unat (LEFT q) = 0" using assms(2) by (simp add: FULL_def)
  then have z: "unat (q_tail q - q_head q - 1) mod 1024 = 0" by (simp add: LEFT_def and_1023)
  have full: "?t = (?h + 1) mod 1024"
  proof -
    define d where "d = q_tail q - q_head q - 1"
    have "?t = unat (q_head q + 1 + d)" by (simp add: d_def)
    also have "\<dots> = (?h + 1 + unat d) mod 2 ^ 32" by (simp add: unat_word_ariths mod_simps)
    finally have "?t mod 1024 = (?h + 1 + unat d) mod 2 ^ 32 mod 1024" by (rule arg_cong)
    also have "\<dots> = (?h + 1 + unat d) mod 1024" by (rule mod_mod_cancel) simp
    also have "\<dots> = (?h + 1 + unat d mod 1024) mod 1024" by (simp only: mod_simps)
    also have "unat d mod 1024 = 0" using z by (simp add: d_def)
    finally show ?thesis using ht by simp
  qed
  have e: "unat (INC (q_head q)) = ?t" using assms(1) full by (simp add: INC_unat q_ok_def)
  then have "INC (q_head q) = q_tail q" by (simp add: word_unat_eq_iff)
  then obtain q' where q': "PUTCH c q = Inr q'" "q_ok q'" "q_empty q'"
    using assms(1) ht by (auto simp: PUTCH_def q_ok_def q_empty_def)
  have "unat (CHARS q) = 1023" using full ht by (auto simp: CHARS_unat [OF assms(1)] mod_if split: if_splits)
  then show ?thesis using q' q_list_empty by auto
qed

definition full_queue :: tty_queue where
  "full_queue = \<lparr>q_data = 0, q_head = 4, q_tail = 5, q_buf = replicate 1024 65\<rparr>"

theorem tty_queue_overflow_witness:
  "length (q_list full_queue) = 1023 \<and> (\<exists>q'. PUTCH 66 full_queue = Inr q' \<and> q_list q' = [])"
proof -
  have "q_ok full_queue" "FULL full_queue"
    by (simp_all add: full_queue_def q_ok_def FULL_def LEFT_def)
  then show ?thesis by (rule tty_queue_overflow)
qed

end
