(* ===== verification/Console.thy ===== *)
theory Console
  imports Tty
begin

text \<open>
  The console driver \<open>kernel/console.c\<close>: a VT100 state machine that reads the write queue of the
  terminal and updates the cursor, the scroll region, the attributes and the video memory. The
  inline assembly (\<open>rep movsl\<close>, \<open>rep stosw\<close>) is modelled on the bytes it moves. This theory
  holds the definitions; \<open>ConsoleProps\<close> shows what they do to the screen.
\<close>

section \<open>State\<close>

record con_state = mach +
  video_type :: u8
  video_num_columns :: u32
  video_size_row :: u32
  video_num_lines :: u32
  video_page :: u8
  video_mem_start :: u32
  video_mem_end :: u32
  video_port_reg :: u16
  video_port_val :: u16
  video_erase_char :: u16
  origin :: u32
  scr_end :: u32
  con_pos :: u32
  con_x :: u32
  con_y :: u32
  con_top :: u32
  con_bottom :: u32
  con_st :: u32
  con_npar :: u32
  con_par :: "u32 list"
  con_ques :: u32
  con_attr :: u8
  saved_x :: u32
  saved_y :: u32
  beepcount :: u32
  tty :: tty_t

abbreviation (input) NPAR :: nat where "NPAR \<equiv> 16"
abbreviation (input) VIDEO_TYPE_CGA :: u8 where "VIDEO_TYPE_CGA \<equiv> 0x11"
abbreviation (input) VIDEO_TYPE_EGAM :: u8 where "VIDEO_TYPE_EGAM \<equiv> 0x20"
abbreviation (input) VIDEO_TYPE_EGAC :: u8 where "VIDEO_TYPE_EGAC \<equiv> 0x21"

section \<open>String instructions\<close>

text \<open>\<open>cld; rep movsl\<close> and \<open>cld; rep stosw\<close>, and the same with the direction flag set.\<close>

primrec rep_movsl :: "nat \<Rightarrow> addr \<Rightarrow> addr \<Rightarrow> memory \<Rightarrow> memory" where
  "rep_movsl 0 d s m = m"
| "rep_movsl (Suc n) d s m = rep_movsl n (d + 4) (s + 4) (st32 m d (ld32 m s))"

primrec rep_stosw :: "nat \<Rightarrow> addr \<Rightarrow> u16 \<Rightarrow> memory \<Rightarrow> memory" where
  "rep_stosw 0 d v m = m"
| "rep_stosw (Suc n) d v m = rep_stosw n (d + 2) v (st16 m d v)"

primrec std_movsl :: "nat \<Rightarrow> addr \<Rightarrow> addr \<Rightarrow> memory \<Rightarrow> memory" where
  "std_movsl 0 d s m = m"
| "std_movsl (Suc n) d s m = std_movsl n (d - 4) (s - 4) (st32 m d (ld32 m s))"

primrec std_stosw :: "nat \<Rightarrow> addr \<Rightarrow> u16 \<Rightarrow> memory \<Rightarrow> memory" where
  "std_stosw 0 d v m = m"
| "std_stosw (Suc n) d v m = std_stosw n (d - 2) v (st16 m d v)"

section \<open>Cursor and scrolling\<close>

definition gotoxy :: "u32 \<Rightarrow> u32 \<Rightarrow> 'a con_state_scheme \<Rightarrow> 'a con_state_scheme" where
  "gotoxy new_x new_y s =
     (if new_x > video_num_columns s \<or> new_y \<ge> video_num_lines s then s
      else s\<lparr>con_x := new_x, con_y := new_y,
             con_pos := origin s + new_y * video_size_row s + push_bit 1 new_x\<rparr>)"

definition set_origin :: "'a con_state_scheme \<Rightarrow> 'a con_state_scheme" where
  "set_origin s =
     (let s = cli s;
          s = outb 12 (video_port_reg s) s;
          s = outb (ucast (0xff AND drop_bit 9 (origin s - video_mem_start s))) (video_port_val s) s;
          s = outb 13 (video_port_reg s) s;
          s = outb (ucast (0xff AND drop_bit 1 (origin s - video_mem_start s))) (video_port_val s) s
      in sti s)"

text \<open>Move the rows above the last one of the scroll region up by one and erase the last.\<close>

definition scrup_region :: "'a con_state_scheme \<Rightarrow> 'a con_state_scheme" where
  "scrup_region s =
     (let n = unat (drop_bit 1 ((con_bottom s - con_top s - 1) * video_num_columns s));
          d = origin s + video_size_row s * con_top s;
          m = rep_movsl n d (origin s + video_size_row s * (con_top s + 1)) (mem s);
          m = rep_stosw (unat (video_num_columns s)) (d + 4 * of_nat n) (video_erase_char s) m
      in s\<lparr>mem := m\<rparr>)"

definition scrup :: "'a con_state_scheme \<Rightarrow> 'a con_state_scheme" where
  "scrup s =
     (if video_type s = VIDEO_TYPE_EGAC \<or> video_type s = VIDEO_TYPE_EGAM then
        if con_top s = 0 \<and> con_bottom s = video_num_lines s then
          let s = s\<lparr>origin := origin s + video_size_row s, con_pos := con_pos s + video_size_row s,
                    scr_end := scr_end s + video_size_row s\<rparr>;
              s = (if scr_end s > video_mem_end s then
                     let n = unat (drop_bit 1 ((video_num_lines s - 1) * video_num_columns s));
                         d = video_mem_start s;
                         m = rep_movsl n d (origin s) (mem s);
                         m = rep_stosw (unat (video_num_columns s)) (d + 4 * of_nat n) (video_erase_char s) m;
                         s = s\<lparr>mem := m\<rparr>;
                         s = s\<lparr>scr_end := scr_end s - (origin s - video_mem_start s)\<rparr>;
                         s = s\<lparr>con_pos := con_pos s - (origin s - video_mem_start s)\<rparr>
                     in s\<lparr>origin := video_mem_start s\<rparr>
                   else
                     s\<lparr>mem := rep_stosw (unat (video_num_columns s)) (scr_end s - video_size_row s)
                          (video_erase_char s) (mem s)\<rparr>)
          in set_origin s
        else scrup_region s
      else scrup_region s)"

text \<open>Both branches of \<open>scrdown\<close> are the same code.\<close>

definition scrdown :: "'a con_state_scheme \<Rightarrow> 'a con_state_scheme" where
  "scrdown s =
     (let n = unat (drop_bit 1 ((con_bottom s - con_top s - 1) * video_num_columns s));
          d = origin s + video_size_row s * con_bottom s - 4;
          m = std_movsl n d (origin s + video_size_row s * (con_bottom s - 1) - 4) (mem s);
          m = std_stosw (unat (video_num_columns s)) (d - 4 * of_nat n + 2) (video_erase_char s) m
      in s\<lparr>mem := m\<rparr>)"

definition lf :: "'a con_state_scheme \<Rightarrow> 'a con_state_scheme" where
  "lf s = (if con_y s + 1 < con_bottom s
     then s\<lparr>con_y := con_y s + 1, con_pos := con_pos s + video_size_row s\<rparr>
     else scrup s)"

definition ri :: "'a con_state_scheme \<Rightarrow> 'a con_state_scheme" where
  "ri s = (if con_y s > con_top s
     then s\<lparr>con_y := con_y s - 1, con_pos := con_pos s - video_size_row s\<rparr>
     else scrdown s)"

definition cr :: "'a con_state_scheme \<Rightarrow> 'a con_state_scheme" where
  "cr s = s\<lparr>con_pos := con_pos s - push_bit 1 (con_x s), con_x := 0\<rparr>"

definition del :: "'a con_state_scheme \<Rightarrow> 'a con_state_scheme" where
  "del s = (if con_x s \<noteq> 0 then
       let s = s\<lparr>con_pos := con_pos s - 2, con_x := con_x s - 1\<rparr>
       in s\<lparr>mem := st16 (mem s) (con_pos s) (video_erase_char s)\<rparr>
     else s)"

section \<open>Erasing and editing\<close>

definition erase_words :: "u32 \<Rightarrow> addr \<Rightarrow> 'a con_state_scheme \<Rightarrow> 'a con_state_scheme" where
  "erase_words count start s = s\<lparr>mem := rep_stosw (unat count) start (video_erase_char s) (mem s)\<rparr>"

definition csi_J :: "u32 \<Rightarrow> 'a con_state_scheme \<Rightarrow> 'a con_state_scheme" where
  "csi_J p s =
     (if p = 0 then erase_words (drop_bit 1 (scr_end s - con_pos s)) (con_pos s) s
      else if p = 1 then erase_words (drop_bit 1 (con_pos s - origin s)) (origin s) s
      else if p = 2 then erase_words (video_num_columns s * video_num_lines s) (origin s) s
      else s)"

definition csi_K :: "u32 \<Rightarrow> 'a con_state_scheme \<Rightarrow> 'a con_state_scheme" where
  "csi_K p s =
     (if p = 0 then
        (if con_x s \<ge> video_num_columns s then s
         else erase_words (video_num_columns s - con_x s) (con_pos s) s)
      else if p = 1 then
        erase_words (if con_x s < video_num_columns s then con_x s else video_num_columns s)
          (con_pos s - push_bit 1 (con_x s)) s
      else if p = 2 then erase_words (video_num_columns s) (con_pos s - push_bit 1 (con_x s)) s
      else s)"

definition csi_m_one :: "u32 \<Rightarrow> 'a con_state_scheme \<Rightarrow> 'a con_state_scheme" where
  "csi_m_one p s =
     (if p = 0 then s\<lparr>con_attr := 0x07\<rparr> else if p = 1 then s\<lparr>con_attr := 0x0f\<rparr>
      else if p = 4 then s\<lparr>con_attr := 0x0f\<rparr> else if p = 7 then s\<lparr>con_attr := 0x70\<rparr>
      else if p = 27 then s\<lparr>con_attr := 0x07\<rparr> else s)"

text \<open>The loop leaves the array of parameters when \<open>npar\<close> is 16 or more.\<close>

function csi_m_loop :: "nat \<Rightarrow> 'a con_state_scheme \<Rightarrow> fault + 'a con_state_scheme" where
  "csi_m_loop i s =
     (if i \<le> unat (con_npar s) then
        if i < length (con_par s) then csi_m_loop (Suc i) (csi_m_one (con_par s ! i) s) else Inl OutOfRange
      else Inr s)"
  by pat_completeness auto
termination
  by (relation "measure (\<lambda>(i, s). length (con_par s) - i)") (auto simp: csi_m_one_def)

declare csi_m_loop.simps [simp del]

definition csi_m :: "'a con_state_scheme \<Rightarrow> fault + 'a con_state_scheme" where
  "csi_m s = csi_m_loop 0 s"

definition set_cursor :: "'a con_state_scheme \<Rightarrow> 'a con_state_scheme" where
  "set_cursor s =
     (let s = cli s;
          s = outb 14 (video_port_reg s) s;
          s = outb (ucast (0xff AND drop_bit 9 (con_pos s - video_mem_start s))) (video_port_val s) s;
          s = outb 15 (video_port_reg s) s;
          s = outb (ucast (0xff AND drop_bit 1 (con_pos s - video_mem_start s))) (video_port_val s) s
      in sti s)"

function insert_char_loop :: "u32 \<Rightarrow> u32 \<Rightarrow> u16 \<Rightarrow> addr \<Rightarrow> memory \<Rightarrow> memory" where
  "insert_char_loop cols i old p m =
     (if i < cols then insert_char_loop cols (i + 1) (ld16 m p) (p + 2) (st16 m p old) else m)"
  by pat_completeness auto
termination
proof (relation "measure (\<lambda>(cols, i, _). unat (cols - i))")
  fix cols i :: u32 and r r' :: "u16 \<times> addr \<times> memory"
  assume "i < cols"
  then have "unat (cols - (i + 1)) < unat (cols - i)" by (rule count_up_less)
  then show "((cols, i + 1, r), cols, i, r') \<in> measure (\<lambda>(cols, i, _). unat (cols - i))" by simp
qed simp

declare insert_char_loop.simps [simp del]

definition insert_char :: "'a con_state_scheme \<Rightarrow> 'a con_state_scheme" where
  "insert_char s =
     s\<lparr>mem := insert_char_loop (video_num_columns s) (con_x s) (video_erase_char s) (con_pos s) (mem s)\<rparr>"

function delete_char_loop :: "u32 \<Rightarrow> u32 \<Rightarrow> addr \<Rightarrow> memory \<Rightarrow> addr \<times> memory" where
  "delete_char_loop cols i p m =
     (let i = i + 1
      in if i < cols then delete_char_loop cols i (p + 2) (st16 m p (ld16 m (p + 2))) else (p, m))"
  by pat_completeness auto
termination
  by (relation "measure (\<lambda>(cols, i, _). unat (cols - (i + 1)))")
    (simp, simp only: in_measure prod.case count_up_less)

declare delete_char_loop.simps [simp del]

definition delete_char :: "'a con_state_scheme \<Rightarrow> 'a con_state_scheme" where
  "delete_char s =
     (if con_x s \<ge> video_num_columns s then s
      else case delete_char_loop (video_num_columns s) (con_x s) (con_pos s) (mem s) of
        (p, m) \<Rightarrow> s\<lparr>mem := st16 m p (video_erase_char s)\<rparr>)"

definition insert_line :: "'a con_state_scheme \<Rightarrow> 'a con_state_scheme" where
  "insert_line s =
     (let s' = scrdown (s\<lparr>con_top := con_y s, con_bottom := video_num_lines s\<rparr>)
      in s'\<lparr>con_top := con_top s, con_bottom := con_bottom s\<rparr>)"

definition delete_line :: "'a con_state_scheme \<Rightarrow> 'a con_state_scheme" where
  "delete_line s =
     (let s' = scrup (s\<lparr>con_top := con_y s, con_bottom := video_num_lines s\<rparr>)
      in s'\<lparr>con_top := con_top s, con_bottom := con_bottom s\<rparr>)"

definition clamp :: "u32 \<Rightarrow> u32 \<Rightarrow> nat" where
  "clamp nr lim = unat (if nr > lim then lim else if nr = 0 then 1 else nr)"

definition csi_at :: "u32 \<Rightarrow> 'a con_state_scheme \<Rightarrow> 'a con_state_scheme" where
  "csi_at nr s = (insert_char ^^ clamp nr (video_num_columns s)) s"

definition csi_L :: "u32 \<Rightarrow> 'a con_state_scheme \<Rightarrow> 'a con_state_scheme" where
  "csi_L nr s = (insert_line ^^ clamp nr (video_num_lines s)) s"

definition csi_P :: "u32 \<Rightarrow> 'a con_state_scheme \<Rightarrow> 'a con_state_scheme" where
  "csi_P nr s = (delete_char ^^ clamp nr (video_num_columns s)) s"

definition csi_M :: "u32 \<Rightarrow> 'a con_state_scheme \<Rightarrow> 'a con_state_scheme" where
  "csi_M nr s = (delete_line ^^ clamp nr (video_num_lines s)) s"

definition save_cur :: "'a con_state_scheme \<Rightarrow> 'a con_state_scheme" where
  "save_cur s = s\<lparr>saved_x := con_x s, saved_y := con_y s\<rparr>"

definition restore_cur :: "'a con_state_scheme \<Rightarrow> 'a con_state_scheme" where
  "restore_cur s = gotoxy (saved_x s) (saved_y s) s"

definition sysbeep :: "'a con_state_scheme \<Rightarrow> 'a con_state_scheme" where
  "sysbeep s =
     (case inb 0x61 s of (v, s) \<Rightarrow>
        let s = outb (v OR 3) 0x61 s;
            s = outb 0xB6 0x43 s;
            s = outb 0x37 0x42 s;
            s = outb 0x06 0x42 s
        in s\<lparr>beepcount := 750 div 8\<rparr>)"

definition sysbeepstop :: "'a con_state_scheme \<Rightarrow> 'a con_state_scheme" where
  "sysbeepstop s = (case inb 0x61 s of (v, s) \<Rightarrow> outb (v AND 0xFC) 0x61 s)"

section \<open>The state machine\<close>

definition backspace :: "'a con_state_scheme \<Rightarrow> 'a con_state_scheme" where
  "backspace s = (if con_x s \<noteq> 0 then s\<lparr>con_x := con_x s - 1, con_pos := con_pos s - 2\<rparr> else s)"

text \<open>A cursor that has left the line goes to the next one.\<close>

definition wrap_line :: "'a con_state_scheme \<Rightarrow> 'a con_state_scheme" where
  "wrap_line s =
     lf (s\<lparr>con_x := con_x s - video_num_columns s, con_pos := con_pos s - video_size_row s\<rparr>)"

definition tab :: "'a con_state_scheme \<Rightarrow> 'a con_state_scheme" where
  "tab s =
     (let c = 8 - (con_x s AND 7);
          s = s\<lparr>con_x := con_x s + c, con_pos := con_pos s + push_bit 1 c\<rparr>
      in if con_x s > video_num_columns s then wrap_line s else s)"

definition print_char :: "u8 \<Rightarrow> 'a con_state_scheme \<Rightarrow> 'a con_state_scheme" where
  "print_char c s =
     (let s = (if con_x s \<ge> video_num_columns s then wrap_line s else s);
          s = s\<lparr>mem := st16 (mem s) (con_pos s) (push_bit 8 (ucast (con_attr s)) OR ucast c)\<rparr>
      in s\<lparr>con_pos := con_pos s + 2, con_x := con_x s + 1\<rparr>)"

definition con_normal :: "u8 \<Rightarrow> 'a con_state_scheme \<Rightarrow> 'a con_state_scheme" where
  "con_normal c s =
     (if 31 < sint c \<and> sint c < 127 then print_char c s
      else if c = 27 then s\<lparr>con_st := 1\<rparr>
      else if c = 10 \<or> c = 11 \<or> c = 12 then lf s
      else if c = 13 then cr s
      else if c = 127 then del s
      else if c = 8 then backspace s
      else if c = 9 then tab s
      else if c = 7 then sysbeep s
      else s)"

text \<open>After an escape; the last two tests are on the column \<open>x\<close>, not on the character.\<close>

definition con_escape :: "u8 \<Rightarrow> 'a con_state_scheme \<Rightarrow> 'a con_state_scheme" where
  "con_escape c s =
     (let s = s\<lparr>con_st := 0\<rparr>
      in if c = 91 then s\<lparr>con_st := 2\<rparr>
         else if c = 69 then gotoxy 0 (con_y s + 1) s
         else if c = 77 then ri s
         else if c = 68 then lf s
         else if con_x s = 55 then save_cur s
         else if con_x s = 56 then restore_cur s
         else s)"

definition par_nth :: "nat \<Rightarrow> 'a con_state_scheme \<Rightarrow> u32" where
  "par_nth i s = con_par s ! i"

definition par_upd :: "nat \<Rightarrow> (u32 \<Rightarrow> u32) \<Rightarrow> 'a con_state_scheme \<Rightarrow> 'a con_state_scheme" where
  "par_upd i f s = s\<lparr>con_par := (con_par s)[i := f (con_par s ! i)]\<rparr>"

text \<open>\<open>if (par[i]) par[i]--;\<close> and \<open>if (!par[i]) par[i]++;\<close>\<close>

definition par_dec :: "nat \<Rightarrow> 'a con_state_scheme \<Rightarrow> 'a con_state_scheme" where
  "par_dec i s = (if par_nth i s \<noteq> 0 then par_upd i (\<lambda>p. p - 1) s else s)"

definition par_inc :: "nat \<Rightarrow> 'a con_state_scheme \<Rightarrow> 'a con_state_scheme" where
  "par_inc i s = (if par_nth i s = 0 then par_upd i (\<lambda>p. p + 1) s else s)"

definition set_region :: "'a con_state_scheme \<Rightarrow> 'a con_state_scheme" where
  "set_region s =
     (let s = par_dec 0 s;
          s = (if par_nth 1 s = 0 then par_upd 1 (\<lambda>_. video_num_lines s) s else s)
      in if par_nth 0 s < par_nth 1 s \<and> par_nth 1 s \<le> video_num_lines s
         then s\<lparr>con_top := par_nth 0 s, con_bottom := par_nth 1 s\<rparr> else s)"

definition con_final :: "u8 \<Rightarrow> 'a con_state_scheme \<Rightarrow> fault + 'a con_state_scheme" where
  "con_final c s =
     (let s = s\<lparr>con_st := 0\<rparr>
      in if c = 71 \<or> c = 96 then Inr (let s = par_dec 0 s in gotoxy (par_nth 0 s) (con_y s) s)
         else if c = 65 then Inr (let s = par_inc 0 s in gotoxy (con_x s) (con_y s - par_nth 0 s) s)
         else if c = 66 \<or> c = 101 then Inr (let s = par_inc 0 s in gotoxy (con_x s) (con_y s + par_nth 0 s) s)
         else if c = 67 \<or> c = 97 then Inr (let s = par_inc 0 s in gotoxy (con_x s + par_nth 0 s) (con_y s) s)
         else if c = 68 then Inr (let s = par_inc 0 s in gotoxy (con_x s - par_nth 0 s) (con_y s) s)
         else if c = 69 then Inr (let s = par_inc 0 s in gotoxy 0 (con_y s + par_nth 0 s) s)
         else if c = 70 then Inr (let s = par_inc 0 s in gotoxy 0 (con_y s - par_nth 0 s) s)
         else if c = 100 then Inr (let s = par_dec 0 s in gotoxy (con_x s) (par_nth 0 s) s)
         else if c = 72 \<or> c = 102 then
           Inr (let s = par_dec 1 (par_dec 0 s) in gotoxy (par_nth 1 s) (par_nth 0 s) s)
         else if c = 74 then Inr (csi_J (par_nth 0 s) s)
         else if c = 75 then Inr (csi_K (par_nth 0 s) s)
         else if c = 76 then Inr (csi_L (par_nth 0 s) s)
         else if c = 77 then Inr (csi_M (par_nth 0 s) s)
         else if c = 80 then Inr (csi_P (par_nth 0 s) s)
         else if c = 64 then Inr (csi_at (par_nth 0 s) s)
         else if c = 109 then csi_m s
         else if c = 114 then Inr (set_region s)
         else if c = 115 then Inr (save_cur s)
         else if c = 117 then Inr (restore_cur s)
         else Inr s)"

text \<open>The parameters of a control sequence; any other character falls through to its end.\<close>

definition con_params :: "u8 \<Rightarrow> 'a con_state_scheme \<Rightarrow> fault + 'a con_state_scheme" where
  "con_params c s =
     (if c = 59 \<and> unat (con_npar s) < NPAR - 1 then Inr (s\<lparr>con_npar := con_npar s + 1\<rparr>)
      else if 48 \<le> sint c \<and> sint c \<le> 57 then
        (if unat (con_npar s) < length (con_par s)
         then Inr (par_upd (unat (con_npar s)) (\<lambda>p. 10 * p + scast c - 48) s) else Inl OutOfRange)
      else con_final c (s\<lparr>con_st := 4\<rparr>))"

definition con_start :: "u8 \<Rightarrow> 'a con_state_scheme \<Rightarrow> fault + 'a con_state_scheme" where
  "con_start c s =
     (let s = s\<lparr>con_par := replicate NPAR 0, con_npar := 0, con_st := 3, con_ques := (if c = 63 then 1 else 0)\<rparr>
      in if con_ques s \<noteq> 0 then Inr s else con_params c s)"

definition con_char :: "u8 \<Rightarrow> 'a con_state_scheme \<Rightarrow> fault + 'a con_state_scheme" where
  "con_char c s =
     (if con_st s = 0 then Inr (con_normal c s)
      else if con_st s = 1 then Inr (con_escape c s)
      else if con_st s = 2 then con_start c s
      else if con_st s = 3 then con_params c s
      else if con_st s = 4 then con_final c s
      else Inr s)"

primrec con_loop :: "nat \<Rightarrow> 'a con_state_scheme \<Rightarrow> fault + 'a con_state_scheme" where
  "con_loop 0 s = Inr s"
| "con_loop (Suc n) s =
     bindE (GETCH (write_q (tty s))) (\<lambda>(c, q).
       bindE (con_char c (s\<lparr>tty := (tty s)\<lparr>write_q := q\<rparr>\<rparr>)) (con_loop n))"

definition con_write :: "'a con_state_scheme \<Rightarrow> fault + 'a con_state_scheme" where
  "con_write s =
     bindE (con_loop (unat (CHARS (write_q (tty s)))) s) (\<lambda>s. Inr (set_cursor s))"

section \<open>Initialisation and the keyboard\<close>

text \<open>The name of the display goes into the upper right corner, one cell per character.\<close>

primrec put_desc :: "u8 list \<Rightarrow> addr \<Rightarrow> memory \<Rightarrow> memory" where
  "put_desc [] p m = m"
| "put_desc (c # cs) p m = put_desc cs (p + 2) (m(p := c))"

definition con_init :: "'a con_state_scheme \<Rightarrow> 'a con_state_scheme" where
  "con_init s =
     (let s = s\<lparr>video_num_columns := 80, video_size_row := 160, video_num_lines := 25, video_page := 0,
             video_erase_char := 0x0720, video_mem_start := KVM_BASE + 0xb8000,
             video_port_reg := 0x3d4, video_port_val := 0x3d5, video_type := VIDEO_TYPE_CGA,
             video_mem_end := KVM_BASE + 0xba000\<rparr>;
          s = s\<lparr>mem := put_desc [42, 67, 71, 65] (video_mem_start s + video_size_row s - 8) (mem s)\<rparr>;
          s = s\<lparr>origin := video_mem_start s,
             scr_end := video_mem_start s + video_num_lines s * video_size_row s,
             con_top := 0, con_bottom := video_num_lines s\<rparr>;
          s = gotoxy 0 0 s
      in case inb 0x61 s of (a, s) \<Rightarrow> outb a 0x61 (outb (a OR 0x80) 0x61 s))"

text \<open>
  \<open>kernel/keyboard.c\<close>: the eight bytes of the two registers go to the write queue, without the
  zeros; a byte 13 goes in twice.
\<close>

definition kbd_put :: "u8 \<Rightarrow> tty_queue \<Rightarrow> fault + tty_queue" where
  "kbd_put c q =
     (if c \<noteq> 0 then bindE (PUTCH c q) (\<lambda>q. if c = 13 then PUTCH 13 q else Inr q) else Inr q)"

definition reg_bytes :: "u32 \<Rightarrow> u8 list" where
  "reg_bytes r = [ucast r, ucast (drop_bit 8 r), ucast (drop_bit 16 r), ucast (drop_bit 24 r)]"

definition cput_queue :: "u32 \<Rightarrow> u32 \<Rightarrow> 'a con_state_scheme \<Rightarrow> fault + 'a con_state_scheme" where
  "cput_queue eax ebx s =
     bindE (put_all kbd_put (reg_bytes eax @ reg_bytes ebx) (write_q (tty s))) (\<lambda>q.
       con_write (s\<lparr>tty := (tty s)\<lparr>write_q := q\<rparr>\<rparr>))"

end
