(* ===== verification/Screen.thy ===== *)
theory Screen
  imports Console
begin

text \<open>
  The text screen as an array of 16-bit cells in video memory, and what the string instructions
  of the console do to it: \<open>stosw\<close> fills a range of cells, \<open>movsl\<close> copies one range over another,
  upwards with the direction flag clear and downwards with it set.
\<close>

definition cell :: "addr \<Rightarrow> memory \<Rightarrow> nat \<Rightarrow> u16" where
  "cell o' m k = ld16 m (o' + of_nat (2 * k))"

text \<open>\<open>m'\<close> differs from \<open>m\<close> only in the \<open>N\<close> cells at \<open>o'\<close>, which hold \<open>f\<close>.\<close>

definition cells_upd :: "addr \<Rightarrow> nat \<Rightarrow> memory \<Rightarrow> memory \<Rightarrow> (nat \<Rightarrow> u16) \<Rightarrow> bool" where
  "cells_upd o' N m m' f \<longleftrightarrow>
     (\<forall>k<N. cell o' m' k = f k) \<and> (\<forall>x. x \<notin> region o' (2 * N) \<longrightarrow> m' x = m x)"

lemma cells_updD:
  "cells_upd o' N m m' f \<Longrightarrow> k < N \<Longrightarrow> cell o' m' k = f k"
  "cells_upd o' N m m' f \<Longrightarrow> x \<notin> region o' (2 * N) \<Longrightarrow> m' x = m x"
  by (simp_all add: cells_upd_def)

lemma cells_upd_refl: "cells_upd o' N m m (cell o' m)"
  by (simp add: cells_upd_def)

lemma cells_upd_trans:
  "cells_upd o' N m m' f \<Longrightarrow> cells_upd o' N m' m'' g \<Longrightarrow> cells_upd o' N m m'' g"
  by (simp add: cells_upd_def)

lemma cells_upd_cong: "cells_upd o' N m m' f \<Longrightarrow> (\<And>k. k < N \<Longrightarrow> f k = g k) \<Longrightarrow> cells_upd o' N m m' g"
  by (simp add: cells_upd_def)

lemma cells_apart:
  assumes "i < N" "j < N" "2 * N \<le> 2 ^ 32" "i \<noteq> j"
  shows "region (o' + of_nat (2 * i)) 2 \<inter> region (o' + of_nat (2 * j)) 2 = {}"
  using assms by (intro region_array) auto

lemma cell_region:
  assumes "i < N" "2 * N \<le> 2 ^ 32"
  shows "region (o' + of_nat (2 * i)) 2 \<subseteq> region o' (2 * N)"
  using assms by (intro region_elem_array) auto

lemma st16_cells:
  assumes "j < N" "2 * N \<le> 2 ^ 32"
  shows "cells_upd o' N m (st16 m (o' + of_nat (2 * j)) v) ((cell o' m)(j := v))"
  unfolding cells_upd_def
proof (intro conjI allI impI)
  fix k assume "k < N"
  then show "cell o' (st16 m (o' + of_nat (2 * j)) v) k = ((cell o' m)(j := v)) k"
    using cells_apart [of k N j o'] assms
    by (cases "k = j") (simp_all add: cell_def ld16_st16_apart del: of_nat_mult)
next
  fix x assume "x \<notin> region o' (2 * N)"
  then show "st16 m (o' + of_nat (2 * j)) v x = m x"
    using cell_region [OF assms, of o'] by (intro st16_out) blast
qed

lemma copy32_halves: "st32 m d (ld32 m' s) = st16 (st16 m d (ld16 m' s)) (d + 2) (ld16 m' (s + 2))"
proof -
  have b: "ucast (ld32 m' s) = (ucast (ld16 m' s) :: u8)"
    "ucast (drop_bit 8 (ld32 m' s)) = (ucast (drop_bit 8 (ld16 m' s)) :: u8)"
    "ucast (drop_bit 16 (ld32 m' s)) = (ucast (ld16 m' (s + 2)) :: u8)"
    "ucast (drop_bit 24 (ld32 m' s)) = (ucast (drop_bit 8 (ld16 m' (s + 2))) :: u8)"
    by (rule bit_word_eqI, auto simp: ld32_def ld16_def bit_simps add.commute [of 3] dest: bit_imp_le_length)+
  show ?thesis
    unfolding st32_def st16_def b by (simp add: add.assoc)
qed

lemma cell_next: "o' + of_nat (2 * i) + 2 = (o' + of_nat (2 * Suc i) :: addr)"
  by (simp add: algebra_simps)

lemma copy32_cells:
  assumes "Suc j < N" "Suc i < N" "2 * N \<le> 2 ^ 32"
  shows "cells_upd o' N m (st32 m (o' + of_nat (2 * j)) (ld32 m (o' + of_nat (2 * i))))
    ((cell o' m)(j := cell o' m i, Suc j := cell o' m (Suc i)))"
proof -
  let ?m1 = "st16 m (o' + of_nat (2 * j)) (cell o' m i)"
  have 1: "cells_upd o' N m ?m1 ((cell o' m)(j := cell o' m i))" using assms by (intro st16_cells) auto
  have 2: "cells_upd o' N ?m1 (st16 ?m1 (o' + of_nat (2 * Suc j)) (cell o' m (Suc i)))
      ((cell o' ?m1)(Suc j := cell o' m (Suc i)))"
    by (rule st16_cells [OF assms(1,3)])
  have "st32 m (o' + of_nat (2 * j)) (ld32 m (o' + of_nat (2 * i))) =
      st16 ?m1 (o' + of_nat (2 * Suc j)) (cell o' m (Suc i))"
    unfolding copy32_halves cell_next cell_def ..
  then show ?thesis
    using cells_upd_cong [OF cells_upd_trans [OF 1 2]] cells_updD(1) [OF 1] by (auto simp del: of_nat_mult)
qed

section \<open>Filling\<close>

lemma rep_stosw_cells:
  assumes "j + n \<le> N" "2 * N \<le> 2 ^ 32"
  shows "cells_upd o' N m (rep_stosw n (o' + of_nat (2 * j)) v m)
    (\<lambda>k. if j \<le> k \<and> k < j + n then v else cell o' m k)"
  using assms(1)
proof (induction n arbitrary: j m)
  case 0
  then show ?case by (auto simp: cells_upd_def)
next
  case (Suc n)
  let ?m = "st16 m (o' + of_nat (2 * j)) v"
  have 1: "cells_upd o' N m ?m ((cell o' m)(j := v))" using Suc.prems assms(2) by (intro st16_cells) auto
  have 2: "cells_upd o' N ?m (rep_stosw n (o' + of_nat (2 * Suc j)) v ?m)
      (\<lambda>k. if Suc j \<le> k \<and> k < Suc j + n then v else cell o' ?m k)"
    using Suc.prems by (intro Suc.IH) simp
  have "rep_stosw (Suc n) (o' + of_nat (2 * j)) v m = rep_stosw n (o' + of_nat (2 * Suc j)) v ?m"
    unfolding rep_stosw.simps cell_next ..
  then show ?case
    using cells_upd_cong [OF cells_upd_trans [OF 1 2]] cells_updD(1) [OF 1] by (auto simp del: of_nat_mult)
qed

lemma std_stosw_cells:
  assumes "Suc j \<le> N" "n \<le> Suc j" "2 * N \<le> 2 ^ 32"
  shows "cells_upd o' N m (std_stosw n (o' + of_nat (2 * j)) v m)
    (\<lambda>k. if j < k + n \<and> k \<le> j then v else cell o' m k)"
  using assms(1,2)
proof (induction n arbitrary: j m)
  case 0
  then show ?case by (auto simp: cells_upd_def)
next
  case (Suc n)
  let ?m = "st16 m (o' + of_nat (2 * j)) v"
  have 1: "cells_upd o' N m ?m ((cell o' m)(j := v))" using Suc.prems assms(3) by (intro st16_cells) auto
  show ?case
  proof (cases j)
    case 0
    then have "n = 0" using Suc.prems by simp
    then show ?thesis
      using cells_upd_cong [OF 1] 0 by (auto simp del: of_nat_mult)
  next
    case (Suc i)
    have 2: "cells_upd o' N ?m (std_stosw n (o' + of_nat (2 * i)) v ?m)
        (\<lambda>k. if i < k + n \<and> k \<le> i then v else cell o' ?m k)"
      using Suc.prems Suc by (intro Suc.IH) simp_all
    have e: "std_stosw (Suc n) (o' + of_nat (2 * j)) v m = std_stosw n (o' + of_nat (2 * i)) v ?m"
      unfolding std_stosw.simps Suc by (simp add: algebra_simps)
    show ?thesis
      unfolding e
    proof (rule cells_upd_cong [OF cells_upd_trans [OF 1 2]])
      fix k assume "k < N"
      then show "(if i < k + n \<and> k \<le> i then v else cell o' ?m k) = (if j < k + Suc n \<and> k \<le> j then v else cell o' m k)"
        using cells_updD(1) [OF 1] Suc by auto
    qed
  qed
qed

section \<open>Copying\<close>

text \<open>Upwards: the source lies at or above the destination, so no source cell is lost.\<close>

lemma rep_movsl_cells:
  assumes "j \<le> i" "i + 2 * n \<le> N" "2 * N \<le> 2 ^ 32"
  shows "cells_upd o' N m (rep_movsl n (o' + of_nat (2 * j)) (o' + of_nat (2 * i)) m)
    (\<lambda>k. if j \<le> k \<and> k < j + 2 * n then cell o' m (k - j + i) else cell o' m k)"
  using assms(1,2)
proof (induction n arbitrary: i j m)
  case 0
  then show ?case by (auto simp: cells_upd_def)
next
  case (Suc n)
  let ?m = "st32 m (o' + of_nat (2 * j)) (ld32 m (o' + of_nat (2 * i)))"
  have 1: "cells_upd o' N m ?m ((cell o' m)(j := cell o' m i, Suc j := cell o' m (Suc i)))"
    using Suc.prems assms(3) by (intro copy32_cells) auto
  have 2: "cells_upd o' N ?m (rep_movsl n (o' + of_nat (2 * (j + 2))) (o' + of_nat (2 * (i + 2))) ?m)
      (\<lambda>k. if j + 2 \<le> k \<and> k < j + 2 + 2 * n then cell o' ?m (k - (j + 2) + (i + 2)) else cell o' ?m k)"
    using Suc.prems by (intro Suc.IH) simp_all
  have e: "rep_movsl (Suc n) (o' + of_nat (2 * j)) (o' + of_nat (2 * i)) m =
      rep_movsl n (o' + of_nat (2 * (j + 2))) (o' + of_nat (2 * (i + 2))) ?m"
    by (simp add: algebra_simps)
  show ?case
    unfolding e
  proof (rule cells_upd_cong [OF cells_upd_trans [OF 1 2]])
    fix k assume k: "k < N"
    show "(if j + 2 \<le> k \<and> k < j + 2 + 2 * n then cell o' ?m (k - (j + 2) + (i + 2)) else cell o' ?m k) =
        (if j \<le> k \<and> k < j + 2 * Suc n then cell o' m (k - j + i) else cell o' m k)"
    proof (cases "j + 2 \<le> k \<and> k < j + 2 + 2 * n")
      case True
      then have "k - (j + 2) + (i + 2) = k - j + i" "k - j + i < N" "k - j + i \<noteq> j" "k - j + i \<noteq> Suc j"
        using Suc.prems by auto
      then show ?thesis using True cells_updD(1) [OF 1, of "k - j + i"] by auto
    next
      case False
      then have "k = j \<or> k = Suc j \<or> \<not> (j \<le> k \<and> k < j + 2 * Suc n)" by presburger
      then show ?thesis using cells_updD(1) [OF 1 k] False by (elim disjE) auto
    qed
  qed
qed

text \<open>Downwards: the last pairs of cells go first.\<close>

lemma std_movsl_cells:
  assumes "i \<le> j" "j + 2 * n \<le> N" "2 * N \<le> 2 ^ 32"
  shows "cells_upd o' N m (std_movsl n (o' + of_nat (2 * (j + 2 * n)) - 4) (o' + of_nat (2 * (i + 2 * n)) - 4) m)
    (\<lambda>k. if j \<le> k \<and> k < j + 2 * n then cell o' m (k - j + i) else cell o' m k)"
  using assms(1,2)
proof (induction n arbitrary: m)
  case 0
  then show ?case by (auto simp: cells_upd_def)
next
  case (Suc n)
  have a: "o' + of_nat (2 * (h + 2 * Suc n)) - 4 = o' + of_nat (2 * (h + 2 * n))" for h by (simp add: algebra_simps)
  let ?m = "st32 m (o' + of_nat (2 * (j + 2 * n))) (ld32 m (o' + of_nat (2 * (i + 2 * n))))"
  have 1: "cells_upd o' N m ?m ((cell o' m)(j + 2 * n := cell o' m (i + 2 * n), Suc (j + 2 * n) := cell o' m (Suc (i + 2 * n))))"
    using Suc.prems assms(3) by (intro copy32_cells) auto
  have 2: "cells_upd o' N ?m (std_movsl n (o' + of_nat (2 * (j + 2 * n)) - 4) (o' + of_nat (2 * (i + 2 * n)) - 4) ?m)
      (\<lambda>k. if j \<le> k \<and> k < j + 2 * n then cell o' ?m (k - j + i) else cell o' ?m k)"
    using Suc.prems by (intro Suc.IH) simp_all
  show ?case
    unfolding std_movsl.simps a
  proof (rule cells_upd_cong [OF cells_upd_trans [OF 1 2]])
    fix k assume k: "k < N"
    show "(if j \<le> k \<and> k < j + 2 * n then cell o' ?m (k - j + i) else cell o' ?m k) =
        (if j \<le> k \<and> k < j + 2 * Suc n then cell o' m (k - j + i) else cell o' m k)"
    proof (cases "j \<le> k \<and> k < j + 2 * n")
      case True
      then have "k - j + i < N" "k - j + i \<noteq> j + 2 * n" "k - j + i \<noteq> Suc (j + 2 * n)"
        using Suc.prems by auto
      then show ?thesis using True cells_updD(1) [OF 1, of "k - j + i"] by auto
    next
      case False
      then have "k = j + 2 * n \<or> k = Suc (j + 2 * n) \<or> \<not> (j \<le> k \<and> k < j + 2 * Suc n)" by presburger
      then show ?thesis using cells_updD(1) [OF 1 k] False by (elim disjE) (auto simp: add.commute [of i])
    qed
  qed
qed

end
