(* ===== verification/ConsoleOps.thy ===== *)
theory ConsoleOps
  imports Screen
begin

text \<open>
  The invariant of the console in the display mode that \<open>con_init\<close> sets up, and the effect of each
  operation of \<open>console.c\<close> on the cursor and the cells: all of them keep the invariant and write
  only to video memory.
\<close>

section \<open>Invariant\<close>

definition cols :: "'a con_state_scheme \<Rightarrow> nat" where "cols s = unat (video_num_columns s)"
definition lins :: "'a con_state_scheme \<Rightarrow> nat" where "lins s = unat (video_num_lines s)"

definition con_geom :: "'a con_state_scheme \<Rightarrow> bool" where
  "con_geom s \<longleftrightarrow>
     video_type s = VIDEO_TYPE_CGA \<and> 8 \<le> cols s \<and> even (cols s) \<and> cols s \<le> 1024 \<and> 0 < lins s \<and> lins s \<le> 1024 \<and>
     video_size_row s = 2 * video_num_columns s \<and> origin s = video_mem_start s \<and>
     unat (origin s) + 2 * (lins s * cols s) \<le> unat (video_mem_end s) \<and>
     scr_end s = origin s + video_num_lines s * video_size_row s"

definition con_cur :: "'a con_state_scheme \<Rightarrow> bool" where
  "con_cur s \<longleftrightarrow>
     unat (con_x s) \<le> cols s \<and> unat (con_y s) < lins s \<and>
     unat (con_top s) < unat (con_bottom s) \<and> unat (con_bottom s) \<le> lins s \<and>
     con_pos s = origin s + con_y s * video_size_row s + 2 * con_x s"

definition con_ok :: "'a con_state_scheme \<Rightarrow> bool" where
  "con_ok s \<longleftrightarrow> con_geom s \<and> con_cur s \<and> length (con_par s) = 16 \<and> unat (con_npar s) < 16 \<and> con_st s \<le> 3"

definition vram :: "'a con_state_scheme \<Rightarrow> addr set" where
  "vram s = {x. unat (video_mem_start s) \<le> unat x \<and> unat x < unat (video_mem_end s)}"

text \<open>What every operation leaves alone.\<close>

definition con_frame :: "'a con_state_scheme \<Rightarrow> 'a con_state_scheme \<Rightarrow> bool" where
  "con_frame s s' \<longleftrightarrow>
     video_type s' = video_type s \<and> video_num_columns s' = video_num_columns s \<and>
     video_num_lines s' = video_num_lines s \<and> video_size_row s' = video_size_row s \<and>
     video_mem_start s' = video_mem_start s \<and> video_mem_end s' = video_mem_end s \<and>
     video_erase_char s' = video_erase_char s \<and> origin s' = origin s \<and> scr_end s' = scr_end s \<and>
     tty s' = tty s \<and> con_state.more s' = con_state.more s \<and> (\<forall>x. x \<notin> vram s \<longrightarrow> mem s' x = mem s x)"

definition con_keeps :: "('a con_state_scheme \<Rightarrow> 'a con_state_scheme) \<Rightarrow> bool" where
  "con_keeps f \<longleftrightarrow> (\<forall>s. con_ok s \<longrightarrow> con_ok (f s) \<and> con_frame s (f s))"

named_theorems con_keeps \<open>operations that keep the console invariant\<close>

lemma con_frame_refl [simp]: "con_frame s s"
  by (simp add: con_frame_def)

lemma con_frame_trans: "con_frame s t \<Longrightarrow> con_frame t u \<Longrightarrow> con_frame s u"
  unfolding con_frame_def vram_def by simp

lemma con_keepsI: "(\<And>s. con_ok s \<Longrightarrow> con_ok (f s) \<and> con_frame s (f s)) \<Longrightarrow> con_keeps f"
  by (simp add: con_keeps_def)

lemma con_keepsD: "con_keeps f \<Longrightarrow> con_ok s \<Longrightarrow> con_ok (f s)" "con_keeps f \<Longrightarrow> con_ok s \<Longrightarrow> con_frame s (f s)"
  by (simp_all add: con_keeps_def)

lemma con_keeps_comp: "con_keeps f \<Longrightarrow> con_keeps g \<Longrightarrow> con_keeps (\<lambda>s. g (f s))"
  unfolding con_keeps_def using con_frame_trans by blast

lemma con_keeps_if: "con_keeps f \<Longrightarrow> con_keeps g \<Longrightarrow> con_keeps (\<lambda>s. if P s then f s else g s)"
  by (simp add: con_keeps_def)

lemma con_keeps_funpow: "con_keeps f \<Longrightarrow> con_keeps (\<lambda>s. (f ^^ n) s)"
proof (induction n)
  case (Suc n)
  then show ?case using con_keeps_comp [of "\<lambda>s. (f ^^ n) s" f] by simp
qed (simp add: con_keeps_def)

lemma con_keeps_param:
  assumes "\<And>a. con_keeps (f a)"
  shows "con_keeps (\<lambda>s. f (g s) s)"
  using assms by (simp add: con_keeps_def)

lemma con_geomD:
  assumes "con_geom s"
  shows "video_type s = VIDEO_TYPE_CGA" "8 \<le> cols s" "even (cols s)" "cols s \<le> 1024" "0 < lins s" "lins s \<le> 1024"
    "video_size_row s = 2 * video_num_columns s" "origin s = video_mem_start s"
    "unat (origin s) + 2 * (lins s * cols s) \<le> unat (video_mem_end s)"
    "scr_end s = origin s + video_num_lines s * video_size_row s"
    "lins s * cols s \<le> 2 ^ 20" "2 * (lins s * cols s) \<le> 2 ^ 32"
proof -
  show "video_type s = VIDEO_TYPE_CGA" "8 \<le> cols s" "even (cols s)" "cols s \<le> 1024" "0 < lins s" "lins s \<le> 1024"
    "video_size_row s = 2 * video_num_columns s" "origin s = video_mem_start s"
    "unat (origin s) + 2 * (lins s * cols s) \<le> unat (video_mem_end s)"
    "scr_end s = origin s + video_num_lines s * video_size_row s"
    using assms unfolding con_geom_def by blast+
  then have "lins s * cols s \<le> 1024 * 1024" by (intro mult_le_mono)
  then show n: "lins s * cols s \<le> 2 ^ 20" by simp
  then have "2 * (lins s * cols s) \<le> 2 * 2 ^ 20" by (rule mult_le_mono2)
  then show "2 * (lins s * cols s) \<le> 2 ^ 32" by (rule order_trans) simp
qed

lemma con_curD:
  assumes "con_cur s"
  shows "unat (con_x s) \<le> cols s" "unat (con_y s) < lins s" "unat (con_top s) < unat (con_bottom s)"
    "unat (con_bottom s) \<le> lins s" "con_pos s = origin s + con_y s * video_size_row s + 2 * con_x s"
  using assms by (simp_all add: con_cur_def)

lemma con_okD: "con_ok s \<Longrightarrow> con_geom s" "con_ok s \<Longrightarrow> con_cur s"
  by (simp_all add: con_ok_def)

text \<open>Addresses of cells by their number.\<close>

lemma cell_addr:
  assumes "con_geom s"
  shows "origin s + a * video_size_row s + 2 * b = origin s + of_nat (2 * (unat a * cols s + unat b))"
    "origin s + video_size_row s * a = origin s + of_nat (2 * (unat a * cols s))"
  using con_geomD(7) [OF assms] by (simp_all add: cols_def algebra_simps)

lemma cells_vram:
  assumes g: "con_geom s" and u: "cells_upd (origin s) (lins s * cols s) (mem s) m f"
  shows "x \<notin> vram s \<Longrightarrow> m x = mem s x"
proof -
  note G = con_geomD [OF g]
  have "unat (video_mem_end s) < 2 ^ 32" by (rule order.strict_trans2 [OF unsigned_less]) simp
  then have "unat (origin s) + 2 * (lins s * cols s) \<le> 2 ^ 32" using G(9) by linarith
  note lin = region_linear [OF this]
  show "m x = mem s x" if "x \<notin> vram s"
  proof (rule cells_updD(2) [OF u])
    show "x \<notin> region (origin s) (2 * (lins s * cols s))"
      using that G(8,9) unfolding lin vram_def by auto
  qed
qed

text \<open>The geometry does not depend on the cursor, the parser, the port trace or the memory.\<close>

lemma con_geom_upd [simp]:
  "con_geom (s\<lparr>mem := m\<rparr>) = con_geom s" "con_geom (s\<lparr>io := i\<rparr>) = con_geom s"
  "con_geom (s\<lparr>con_x := a\<rparr>) = con_geom s" "con_geom (s\<lparr>con_y := a\<rparr>) = con_geom s"
  "con_geom (s\<lparr>con_pos := a\<rparr>) = con_geom s" "con_geom (s\<lparr>con_top := a\<rparr>) = con_geom s"
  "con_geom (s\<lparr>con_bottom := a\<rparr>) = con_geom s" "con_geom (s\<lparr>con_st := a\<rparr>) = con_geom s"
  "con_geom (s\<lparr>con_npar := a\<rparr>) = con_geom s" "con_geom (s\<lparr>con_par := ps\<rparr>) = con_geom s"
  "con_geom (s\<lparr>con_ques := a\<rparr>) = con_geom s" "con_geom (s\<lparr>con_attr := b\<rparr>) = con_geom s"
  "con_geom (s\<lparr>saved_x := a\<rparr>) = con_geom s" "con_geom (s\<lparr>saved_y := a\<rparr>) = con_geom s"
  "con_geom (s\<lparr>beepcount := a\<rparr>) = con_geom s" "con_geom (s\<lparr>tty := t\<rparr>) = con_geom s"
  by (simp_all add: con_geom_def cols_def lins_def)

lemma geom_size_upd [simp]:
  "cols (s\<lparr>mem := m\<rparr>) = cols s" "lins (s\<lparr>mem := m\<rparr>) = lins s"
  "cols (s\<lparr>con_x := a\<rparr>) = cols s" "lins (s\<lparr>con_x := a\<rparr>) = lins s"
  "cols (s\<lparr>con_y := a\<rparr>) = cols s" "lins (s\<lparr>con_y := a\<rparr>) = lins s"
  "cols (s\<lparr>con_pos := a\<rparr>) = cols s" "lins (s\<lparr>con_pos := a\<rparr>) = lins s"
  "cols (s\<lparr>con_top := a\<rparr>) = cols s" "lins (s\<lparr>con_top := a\<rparr>) = lins s"
  "cols (s\<lparr>con_bottom := a\<rparr>) = cols s" "lins (s\<lparr>con_bottom := a\<rparr>) = lins s"
  by (simp_all add: cols_def lins_def)

lemma con_frame_upd [simp]:
  "con_frame s (s\<lparr>con_x := a\<rparr>)" "con_frame s (s\<lparr>con_st := a\<rparr>)" "con_frame s (s\<lparr>con_attr := b\<rparr>)"
  "con_frame s (s\<lparr>con_x := a, con_pos := c\<rparr>)" "con_frame s (s\<lparr>con_pos := c, con_x := a\<rparr>)"
  "con_frame s (s\<lparr>con_y := a, con_pos := c\<rparr>)" "con_frame s (s\<lparr>con_top := a, con_bottom := c\<rparr>)"
  "con_frame s (s\<lparr>con_x := a, con_y := c, con_pos := d\<rparr>)" "con_frame s (s\<lparr>con_npar := a\<rparr>)"
  "con_frame s (s\<lparr>con_par := ps\<rparr>)" "con_frame s (s\<lparr>saved_x := a, saved_y := c\<rparr>)" "con_frame s (s\<lparr>io := i\<rparr>)"
  "con_frame s (s\<lparr>con_par := ps, con_npar := a, con_st := c, con_ques := d\<rparr>)" "con_frame s (s\<lparr>beepcount := a\<rparr>)"
  by (simp_all add: con_frame_def)

text \<open>An update of the cells alone keeps everything.\<close>

lemma con_mem_upd:
  assumes "con_ok s" "cells_upd (origin s) (lins s * cols s) (mem s) m f"
  shows "con_ok (s\<lparr>mem := m\<rparr>) \<and> con_frame s (s\<lparr>mem := m\<rparr>)"
  using assms cells_vram [OF con_okD(1) [OF assms(1)] assms(2)]
  by (simp add: con_ok_def con_cur_def con_frame_def)

section \<open>Cursor motion\<close>

lemma unat_plus1: "unat a < 2000 \<Longrightarrow> unat (a + 1 :: u32) = unat a + 1"
  using unat_add_32 [of a 1] by simp

lemma unat_minus1: "a \<noteq> 0 \<Longrightarrow> unat (a - 1 :: u32) = unat a - 1"
  by (rule unat_minus_one)

lemma con_keeps_gotoxy [con_keeps]: "con_keeps (gotoxy a b)"
  by (rule con_keepsI)
    (auto simp: gotoxy_def con_ok_def con_cur_def push_bit_eq_mult word_le_nat_alt word_less_nat_alt not_le cols_def lins_def)

lemma con_keeps_cr [con_keeps]: "con_keeps cr"
  by (rule con_keepsI) (auto simp: cr_def con_ok_def con_cur_def push_bit_eq_mult)

lemma con_keeps_backspace [con_keeps]: "con_keeps backspace"
  by (rule con_keepsI) (auto simp: backspace_def con_ok_def con_cur_def unat_minus1 algebra_simps)

section \<open>Scrolling\<close>

text \<open>The cells after scrolling the rows \<open>t\<close> to \<open>b - 1\<close> of \<open>C\<close> columns up or down by one row.\<close>

definition scroll_up_cells :: "nat \<Rightarrow> nat \<Rightarrow> nat \<Rightarrow> u16 \<Rightarrow> (nat \<Rightarrow> u16) \<Rightarrow> nat \<Rightarrow> u16" where
  "scroll_up_cells C t b e f k =
     (if t * C \<le> k \<and> k < (b - 1) * C then f (k + C) else if (b - 1) * C \<le> k \<and> k < b * C then e else f k)"

definition scroll_down_cells :: "nat \<Rightarrow> nat \<Rightarrow> nat \<Rightarrow> u16 \<Rightarrow> (nat \<Rightarrow> u16) \<Rightarrow> nat \<Rightarrow> u16" where
  "scroll_down_cells C t b e f k =
     (if (t + 1) * C \<le> k \<and> k < b * C then f (k - C) else if t * C \<le> k \<and> k < (t + 1) * C then e else f k)"

text \<open>The number of double words that make up the rows to move.\<close>

lemma move_count:
  assumes g: "con_geom s" and tb: "unat t < unat b" "unat b \<le> lins s"
  shows "2 * unat (drop_bit 1 ((b - t - 1) * video_num_columns s)) = (unat b - unat t - 1) * cols s"
proof -
  note G = con_geomD [OF g]
  have t1: "unat (b - t) = unat b - unat t" using tb by (simp add: unat_sub word_le_nat_alt)
  then have "b - t \<noteq> 0" using tb by (metis unat_0 zero_less_diff less_irrefl)
  then have bt: "unat (b - t - 1) = unat b - unat t - 1" using t1 by (simp add: unat_minus_one)
  have "(unat b - unat t - 1) * cols s \<le> 1024 * 1024" using tb G(4,6) by (intro mult_le_mono) simp_all
  then have "(unat b - unat t - 1) * cols s < 2 ^ 32" by (rule le_less_trans) simp
  then have "unat ((b - t - 1) * video_num_columns s) = (unat b - unat t - 1) * cols s"
    unfolding cols_def bt [symmetric] by (intro iffD1 [OF unat_mult_lem]) simp
  then show ?thesis using G(3) by (simp only: unat_drop_bit power_one_right) simp
qed

lemma scrup_region_cells:
  assumes g: "con_geom s" and tb: "unat (con_top s) < unat (con_bottom s)" "unat (con_bottom s) \<le> lins s"
  shows "cells_upd (origin s) (lins s * cols s) (mem s) (mem (scrup_region s))
    (scroll_up_cells (cols s) (unat (con_top s)) (unat (con_bottom s)) (video_erase_char s) (cell (origin s) (mem s)))"
    "scrup_region s = s\<lparr>mem := mem (scrup_region s)\<rparr>"
proof -
  note G = con_geomD [OF g]
  let ?C = "cols s" and ?N = "lins s * cols s" and ?o = "origin s" and ?t = "unat (con_top s)" and ?b = "unat (con_bottom s)"
  define n where "n = unat (drop_bit 1 ((con_bottom s - con_top s - 1) * video_num_columns s))"
  have n: "2 * n = (?b - ?t - 1) * ?C" unfolding n_def by (rule move_count [OF g tb])
  obtain d where d: "?b = Suc (?t + d)" using tb(1) less_imp_Suc_add by blast
  have tn: "?t * ?C + 2 * n = (?b - 1) * ?C" "(?t + 1) * ?C + 2 * n = ?b * ?C" "(?b - 1) * ?C + ?C = ?b * ?C"
    unfolding n unfolding d by (simp_all add: algebra_simps)
  have bN: "?b * ?C \<le> ?N" using tb(2) by (rule mult_le_mono1)
  have b1: "unat (con_top s + 1) = ?t + 1" using tb G(6) by (intro unat_plus1) simp
  let ?m1 = "rep_movsl n (?o + of_nat (2 * (?t * ?C))) (?o + of_nat (2 * ((?t + 1) * ?C))) (mem s)"
  let ?m2 = "rep_stosw ?C (?o + of_nat (2 * ((?b - 1) * ?C))) (video_erase_char s) ?m1"
  have src: "?o + of_nat (2 * (?t * ?C)) + 4 * of_nat n = ?o + of_nat (2 * ((?b - 1) * ?C))"
    unfolding tn(1) [symmetric] by (simp add: algebra_simps)
  have m2: "mem (scrup_region s) = ?m2"
    unfolding scrup_region_def n_def [symmetric] Let_def cell_addr(2) [OF g] b1 src cols_def [symmetric] by simp
  have 1: "cells_upd ?o ?N (mem s) ?m1
      (\<lambda>k. if ?t * ?C \<le> k \<and> k < ?t * ?C + 2 * n then cell ?o (mem s) (k - ?t * ?C + (?t + 1) * ?C) else cell ?o (mem s) k)"
    using tn(2) bN G(12) by (intro rep_movsl_cells) simp_all
  have 2: "cells_upd ?o ?N ?m1 ?m2
      (\<lambda>k. if (?b - 1) * ?C \<le> k \<and> k < (?b - 1) * ?C + ?C then video_erase_char s else cell ?o ?m1 k)"
    using tn(3) bN G(12) by (intro rep_stosw_cells) simp_all
  show "cells_upd ?o ?N (mem s) (mem (scrup_region s))
      (scroll_up_cells ?C ?t ?b (video_erase_char s) (cell ?o (mem s)))"
    unfolding m2
  proof (rule cells_upd_cong [OF cells_upd_trans [OF 1 2]])
    fix k assume k: "k < ?N"
    show "(if (?b - 1) * ?C \<le> k \<and> k < (?b - 1) * ?C + ?C then video_erase_char s else cell ?o ?m1 k) =
        scroll_up_cells ?C ?t ?b (video_erase_char s) (cell ?o (mem s)) k"
      unfolding cells_updD(1) [OF 1 k] tn scroll_up_cells_def
      by (auto simp: algebra_simps)
  qed
  show "scrup_region s = s\<lparr>mem := mem (scrup_region s)\<rparr>"
    by (simp add: scrup_region_def Let_def)
qed

lemma scrdown_cells:
  assumes g: "con_geom s" and tb: "unat (con_top s) < unat (con_bottom s)" "unat (con_bottom s) \<le> lins s"
  shows "cells_upd (origin s) (lins s * cols s) (mem s) (mem (scrdown s))
    (scroll_down_cells (cols s) (unat (con_top s)) (unat (con_bottom s)) (video_erase_char s) (cell (origin s) (mem s)))"
    "scrdown s = s\<lparr>mem := mem (scrdown s)\<rparr>"
proof -
  note G = con_geomD [OF g]
  let ?C = "cols s" and ?N = "lins s * cols s" and ?o = "origin s" and ?t = "unat (con_top s)" and ?b = "unat (con_bottom s)"
  define n where "n = unat (drop_bit 1 ((con_bottom s - con_top s - 1) * video_num_columns s))"
  have n: "2 * n = (?b - ?t - 1) * ?C" unfolding n_def by (rule move_count [OF g tb])
  obtain d where d: "?b = Suc (?t + d)" using tb(1) less_imp_Suc_add by blast
  have tn: "?t * ?C + 2 * n = (?b - 1) * ?C" "(?t + 1) * ?C + 2 * n = ?b * ?C"
    unfolding n unfolding d by (simp_all add: algebra_simps)
  have bN: "?b * ?C \<le> ?N" using tb(2) by (rule mult_le_mono1)
  have b1: "unat (con_bottom s - 1) = ?b - 1" using tb(1) by (intro unat_minus1) auto
  have C: "0 < ?C" using G(2) by simp
  define q where "q = (?t + 1) * ?C - 1"
  have q: "Suc q = (?t + 1) * ?C" using C by (simp add: q_def)
  let ?m1 = "std_movsl n (?o + of_nat (2 * ((?t + 1) * ?C + 2 * n)) - 4) (?o + of_nat (2 * (?t * ?C + 2 * n)) - 4) (mem s)"
  let ?m2 = "std_stosw ?C (?o + of_nat (2 * q)) (video_erase_char s) ?m1"
  have dst: "?o + of_nat (2 * (?b * ?C)) - 4 - 4 * of_nat n + 2 = ?o + of_nat (2 * q)"
  proof -
    have "2 * (?b * ?C) = 2 * q + 2 + 4 * n" unfolding tn(2) [symmetric] q [symmetric] by simp
    then show ?thesis by simp
  qed
  have m2: "mem (scrdown s) = ?m2"
    unfolding scrdown_def n_def [symmetric] Let_def cell_addr(2) [OF g] b1 dst tn cols_def [symmetric] by simp
  have 1: "cells_upd ?o ?N (mem s) ?m1
      (\<lambda>k. if (?t + 1) * ?C \<le> k \<and> k < (?t + 1) * ?C + 2 * n then cell ?o (mem s) (k - (?t + 1) * ?C + ?t * ?C)
        else cell ?o (mem s) k)"
    using tn(2) bN G(12) by (intro std_movsl_cells) simp_all
  have "(?t + 1) * ?C \<le> ?b * ?C" using tb(1) by (intro mult_le_mono1) simp
  then have qN: "Suc q \<le> ?N" unfolding q using bN by (rule order_trans)
  have 2: "cells_upd ?o ?N ?m1 ?m2
      (\<lambda>k. if q < k + ?C \<and> k \<le> q then video_erase_char s else cell ?o ?m1 k)"
    using q qN G(12) by (intro std_stosw_cells) simp_all
  show "cells_upd ?o ?N (mem s) (mem (scrdown s))
      (scroll_down_cells ?C ?t ?b (video_erase_char s) (cell ?o (mem s)))"
    unfolding m2
  proof (rule cells_upd_cong [OF cells_upd_trans [OF 1 2]])
    fix k assume k: "k < ?N"
    have "(q < k + ?C \<and> k \<le> q) = (?t * ?C \<le> k \<and> k < (?t + 1) * ?C)" using q by auto
    then show "(if q < k + ?C \<and> k \<le> q then video_erase_char s else cell ?o ?m1 k) =
        scroll_down_cells ?C ?t ?b (video_erase_char s) (cell ?o (mem s)) k"
      unfolding cells_updD(1) [OF 1 k] unfolding tn scroll_down_cells_def
      by (auto simp: algebra_simps)
  qed
  show "scrdown s = s\<lparr>mem := mem (scrdown s)\<rparr>"
    by (simp add: scrdown_def Let_def)
qed

lemma scrup_cga: "video_type s = VIDEO_TYPE_CGA \<Longrightarrow> scrup s = scrup_region s"
  by (simp add: scrup_def)

lemma con_keeps_scrup [con_keeps]: "con_keeps scrup"
proof (rule con_keepsI)
  fix s :: "'a con_state_scheme" assume ok: "con_ok s"
  note g = con_okD(1) [OF ok] and c = con_curD [OF con_okD(2) [OF ok]]
  show "con_ok (scrup s) \<and> con_frame s (scrup s)"
    unfolding scrup_cga [OF con_geomD(1) [OF g]]
    by (subst (1 2) scrup_region_cells(2) [OF g c(3,4)])
      (rule con_mem_upd [OF ok scrup_region_cells(1) [OF g c(3,4)]])
qed

lemma con_keeps_scrdown [con_keeps]: "con_keeps scrdown"
proof (rule con_keepsI)
  fix s :: "'a con_state_scheme" assume ok: "con_ok s"
  note g = con_okD(1) [OF ok] and c = con_curD [OF con_okD(2) [OF ok]]
  show "con_ok (scrdown s) \<and> con_frame s (scrdown s)"
    by (subst (1 2) scrdown_cells(2) [OF g c(3,4)])
      (rule con_mem_upd [OF ok scrdown_cells(1) [OF g c(3,4)]])
qed

lemma con_keeps_lf [con_keeps]: "con_keeps lf"
proof (rule con_keepsI)
  fix s :: "'a con_state_scheme" assume ok: "con_ok s"
  note g = con_okD(1) [OF ok] and c = con_curD [OF con_okD(2) [OF ok]]
  show "con_ok (lf s) \<and> con_frame s (lf s)"
  proof (cases "con_y s + 1 < con_bottom s")
    case True
    have "unat (con_y s) + 1 < 2000" using c(2) con_geomD(6) [OF g] by simp
    then have "unat (con_y s + 1) = unat (con_y s) + 1" by (intro unat_plus1) simp
    then have "unat (con_y s + 1) < lins s" using True c(4) by (simp add: word_less_nat_alt)
    then show ?thesis using True ok c(5) by (simp add: lf_def con_ok_def con_cur_def algebra_simps)
  next
    case False
    then show ?thesis using con_keepsD [OF con_keeps_scrup ok] by (simp add: lf_def)
  qed
qed

lemma con_keeps_ri [con_keeps]: "con_keeps ri"
proof (rule con_keepsI)
  fix s :: "'a con_state_scheme" assume ok: "con_ok s"
  note c = con_curD [OF con_okD(2) [OF ok]]
  show "con_ok (ri s) \<and> con_frame s (ri s)"
  proof (cases "con_y s > con_top s")
    case True
    then have "con_y s \<noteq> 0" by auto
    then have "unat (con_y s - 1) < lins s" using c(2) by (simp add: unat_minus1)
    then show ?thesis using True ok c(5) by (simp add: ri_def con_ok_def con_cur_def algebra_simps)
  next
    case False
    then show ?thesis using con_keepsD [OF con_keeps_scrdown ok] by (simp add: ri_def)
  qed
qed

section \<open>Printing\<close>

lemma frame_chain: "con_frame s t \<Longrightarrow> con_ok u \<and> con_frame t u \<Longrightarrow> con_ok u \<and> con_frame s u"
  using con_frame_trans by blast

lemma con_x_lf: "con_geom s \<Longrightarrow> con_x (lf s) = con_x s"
  by (simp add: lf_def scrup_cga [OF con_geomD(1)] scrup_region_def Let_def)

text \<open>A cursor up to eight columns behind the line is brought to the next one.\<close>

lemma wrap_line_ok:
  assumes g: "con_geom s" and y: "unat (con_y s) < lins s" and tb: "unat (con_top s) < unat (con_bottom s)"
    "unat (con_bottom s) \<le> lins s" and p: "con_pos s = origin s + con_y s * video_size_row s + 2 * con_x s"
    and x: "cols s \<le> unat (con_x s)" "unat (con_x s) \<le> cols s + 8"
    and o: "length (con_par s) = 16" "unat (con_npar s) < 16" "con_st s \<le> 3"
  shows "con_ok (wrap_line s) \<and> con_frame s (wrap_line s)" "unat (con_x (wrap_line s)) = unat (con_x s) - cols s"
proof -
  define t where "t = s\<lparr>con_x := con_x s - video_num_columns s, con_pos := con_pos s - video_size_row s\<rparr>"
  note G = con_geomD [OF g]
  have x': "unat (con_x t) = unat (con_x s) - cols s"
    using x(1) by (simp add: t_def cols_def unat_sub word_le_nat_alt)
  have "con_pos t = origin t + con_y t * video_size_row t + 2 * con_x t"
    unfolding t_def using p G(7) by (simp add: algebra_simps)
  moreover have "unat (con_x t) \<le> cols s" using x' x(2) G(2) by simp
  ultimately have ok: "con_ok t"
    using g y tb o unfolding con_ok_def con_cur_def by (simp add: t_def)
  have w: "wrap_line s = lf t" by (simp add: wrap_line_def t_def)
  have f: "con_frame s t" unfolding t_def by (rule con_frame_upd)
  show "con_ok (wrap_line s) \<and> con_frame s (wrap_line s)"
    unfolding w by (rule frame_chain [OF f conjI [OF con_keepsD [OF con_keeps_lf ok]]])
  show "unat (con_x (wrap_line s)) = unat (con_x s) - cols s"
    unfolding w con_x_lf [OF con_okD(1) [OF ok]] by (rule x')
qed

lemma con_keeps_tab [con_keeps]: "con_keeps tab"
proof (rule con_keepsI)
  fix s :: "'a con_state_scheme" assume ok: "con_ok s"
  note g = con_okD(1) [OF ok] and c = con_curD [OF con_okD(2) [OF ok]]
  note G = con_geomD [OF g]
  let ?c = "8 - (con_x s AND 7)"
  let ?t = "s\<lparr>con_x := con_x s + ?c, con_pos := con_pos s + push_bit 1 ?c\<rparr>"
  have m: "unat (con_x s AND 7) = unat (con_x s) mod 8" using unat_and_mask [of "con_x s" 3] by (simp add: mask_eq_exp_minus_1)
  then have "unat (con_x s AND 7) < 8" by simp
  then have "unat ?c = 8 - unat (con_x s AND 7)" by (simp add: unat_sub word_le_nat_alt)
  then have c8: "unat ?c \<le> 8" by simp
  have "unat (con_x s) + unat ?c < 2 ^ 32" using c(1) c8 G(4) by simp
  then have x: "unat (con_x s + ?c) = unat (con_x s) + unat ?c" by (simp add: unat_word_ariths)
  have p: "con_pos ?t = origin ?t + con_y ?t * video_size_row ?t + 2 * con_x ?t"
    using c(5) by (simp add: push_bit_eq_mult algebra_simps)
  show "con_ok (tab s) \<and> con_frame s (tab s)"
  proof (cases "con_x ?t > video_num_columns ?t")
    case True
    then have xt: "cols ?t \<le> unat (con_x ?t)" "unat (con_x ?t) \<le> cols ?t + 8"
      using x c(1) c8 by (simp_all add: cols_def word_less_nat_alt)
    have gt: "con_geom ?t" using g by simp
    have bt: "unat (con_y ?t) < lins ?t" "unat (con_top ?t) < unat (con_bottom ?t)" "unat (con_bottom ?t) \<le> lins ?t"
      "length (con_par ?t) = 16" "unat (con_npar ?t) < 16" "con_st ?t \<le> 3" using c ok by (simp_all add: con_ok_def)
    note w = wrap_line_ok [OF gt bt(1-3) p xt bt(4-6)]
    have e: "tab s = wrap_line ?t" unfolding tab_def Let_def using True by simp
    show ?thesis unfolding e by (rule frame_chain [OF con_frame_upd(4) w(1)])
  next
    case False
    then have "tab s = ?t" unfolding tab_def Let_def by simp
    moreover have "unat (con_x ?t) \<le> cols s" using False by (simp add: cols_def word_less_nat_alt not_less)
    ultimately show ?thesis using p ok c g unfolding con_ok_def con_cur_def by simp
  qed
qed

lemma cell_lt: "unat (y :: u32) < l \<Longrightarrow> x < c \<Longrightarrow> unat y * c + x < l * c"
proof -
  assume "unat y < l" "x < c"
  then have "Suc (unat y) * c \<le> l * c" by (intro mult_le_mono1) simp
  then show ?thesis using \<open>x < c\<close> by simp
qed

text \<open>The cursor when a character is about to be printed, and the cell it goes to.\<close>

definition print_at :: "'a con_state_scheme \<Rightarrow> 'a con_state_scheme" where
  "print_at s = (if con_x s \<ge> video_num_columns s then wrap_line s else s)"

definition cell_index :: "'a con_state_scheme \<Rightarrow> nat" where
  "cell_index s = unat (con_y s) * cols s + unat (con_x s)"

lemma con_pos_index: "con_ok s \<Longrightarrow> con_pos s = origin s + of_nat (2 * cell_index s)"
  unfolding cell_index_def using con_curD(5) [OF con_okD(2)] cell_addr(1) [OF con_okD(1)] by metis

lemma print_at_ok:
  assumes ok: "con_ok s"
  shows "con_ok (print_at s) \<and> con_frame s (print_at s) \<and> unat (con_x (print_at s)) < cols s"
proof (cases "con_x s \<ge> video_num_columns s")
  case True
  note g = con_okD(1) [OF ok] and c = con_curD [OF con_okD(2) [OF ok]]
  note G = con_geomD [OF g]
  have x: "cols s \<le> unat (con_x s)" "unat (con_x s) \<le> cols s + 8"
    using True c(1) by (simp_all add: cols_def word_le_nat_alt)
  have o: "length (con_par s) = 16" "unat (con_npar s) < 16" "con_st s \<le> 3" using ok by (simp_all add: con_ok_def)
  note w = wrap_line_ok [OF g c(2-5) x o]
  have "unat (con_x (wrap_line s)) < cols s"
    unfolding w(2) using x c(1) G(2) by simp
  then show ?thesis using w(1) True by (simp add: print_at_def)
next
  case False
  then show ?thesis using ok by (simp add: print_at_def cols_def word_le_nat_alt)
qed

lemma print_char_alt:
  "print_char c s =
    (let t = print_at s
     in t\<lparr>mem := st16 (mem t) (con_pos t) (push_bit 8 (ucast (con_attr t)) OR ucast c),
          con_pos := con_pos t + 2, con_x := con_x t + 1\<rparr>)"
  by (simp add: print_char_def print_at_def Let_def)

lemma print_char_step:
  fixes v :: u16
  assumes ok: "con_ok t" and x: "unat (con_x t) < cols t"
  defines "u \<equiv> t\<lparr>mem := st16 (mem t) (con_pos t) v, con_pos := con_pos t + 2, con_x := con_x t + 1\<rparr>"
  shows "con_ok u" "con_frame t u"
    "cells_upd (origin t) (lins t * cols t) (mem t) (mem u) ((cell (origin t) (mem t))(cell_index t := v))"
    "unat (con_x u) = unat (con_x t) + 1"
proof -
  note g = con_okD(1) [OF ok] and c = con_curD [OF con_okD(2) [OF ok]]
  note G = con_geomD [OF g]
  show up: "cells_upd (origin t) (lins t * cols t) (mem t) (mem u) ((cell (origin t) (mem t))(cell_index t := v))"
    using st16_cells [OF cell_lt [OF c(2) x] G(12)] unfolding u_def con_pos_index [OF ok] cell_index_def by simp
  note m = con_mem_upd [OF ok up]
  show x1: "unat (con_x u) = unat (con_x t) + 1" using x G(4) by (simp add: u_def unat_plus1)
  have e: "u = (t\<lparr>mem := mem u\<rparr>)\<lparr>con_pos := con_pos t + 2, con_x := con_x t + 1\<rparr>" by (simp add: u_def)
  have "con_pos u = origin u + con_y u * video_size_row u + 2 * con_x u"
    unfolding u_def using c(5) by (simp add: algebra_simps)
  then show "con_ok u" using ok x x1 c unfolding con_ok_def con_cur_def by (simp add: u_def)
  have "con_frame (t\<lparr>mem := mem u\<rparr>) u" by (subst (2) e) (rule con_frame_upd)
  then show "con_frame t u" using m con_frame_trans by blast
qed

lemma con_keeps_print_char [con_keeps]: "con_keeps (print_char ch)"
proof (rule con_keepsI)
  fix s :: "'a con_state_scheme" assume ok: "con_ok s"
  note a = print_at_ok [OF ok]
  have "cols (print_at s) = cols s" using a by (simp add: con_frame_def cols_def)
  then have x: "unat (con_x (print_at s)) < cols (print_at s)" using a by simp
  note st = print_char_step [OF _ x]
  show "con_ok (print_char ch s) \<and> con_frame s (print_char ch s)"
    unfolding print_char_alt Let_def using st(1,2) a con_frame_trans by blast
qed

lemma con_keeps_del [con_keeps]: "con_keeps del"
proof (rule con_keepsI)
  fix s :: "'a con_state_scheme" assume ok: "con_ok s"
  show "con_ok (del s) \<and> con_frame s (del s)"
  proof (cases "con_x s \<noteq> 0")
    case True
    let ?t = "backspace s"
    have t: "?t = s\<lparr>con_pos := con_pos s - 2, con_x := con_x s - 1\<rparr>" using True by (simp add: backspace_def)
    note bk = con_keepsD [OF con_keeps_backspace ok]
    note c = con_curD [OF con_okD(2) [OF bk(1)]]
    have "0 < unat (con_x s)" using True by (simp add: unat_gt_0)
    then have "unat (con_x ?t) < cols ?t" using con_curD(1) [OF con_okD(2) [OF ok]] True by (simp add: t unat_minus1)
    then have up: "cells_upd (origin ?t) (lins ?t * cols ?t) (mem ?t) (st16 (mem ?t) (con_pos ?t) (video_erase_char ?t))
        ((cell (origin ?t) (mem ?t))(cell_index ?t := video_erase_char ?t))"
      using st16_cells [OF cell_lt [OF c(2)] con_geomD(12) [OF con_okD(1) [OF bk(1)]]]
      unfolding con_pos_index [OF bk(1)] cell_index_def by blast
    have "del s = ?t\<lparr>mem := st16 (mem ?t) (con_pos ?t) (video_erase_char ?t)\<rparr>"
      using True by (simp add: del_def Let_def t)
    then show ?thesis using con_mem_upd [OF bk(1) up] bk(2) con_frame_trans by metis
  qed (use ok in \<open>simp add: del_def\<close>)
qed

section \<open>Erasing\<close>

definition erase_cells :: "nat \<Rightarrow> nat \<Rightarrow> u16 \<Rightarrow> (nat \<Rightarrow> u16) \<Rightarrow> nat \<Rightarrow> u16" where
  "erase_cells j n e f k = (if j \<le> k \<and> k < j + n then e else f k)"

lemma erase_words_cells:
  assumes ok: "con_ok s" and n: "j + unat cnt \<le> lins s * cols s" and st: "start = origin s + of_nat (2 * j)"
  shows "cells_upd (origin s) (lins s * cols s) (mem s) (mem (erase_words cnt start s))
      (erase_cells j (unat cnt) (video_erase_char s) (cell (origin s) (mem s)))"
    "con_ok (erase_words cnt start s) \<and> con_frame s (erase_words cnt start s)"
proof -
  have u: "cells_upd (origin s) (lins s * cols s) (mem s)
      (rep_stosw (unat cnt) (origin s + of_nat (2 * j)) (video_erase_char s) (mem s))
      (erase_cells j (unat cnt) (video_erase_char s) (cell (origin s) (mem s)))"
    unfolding erase_cells_def by (rule rep_stosw_cells [OF n con_geomD(12) [OF con_okD(1) [OF ok]]])
  then show "cells_upd (origin s) (lins s * cols s) (mem s) (mem (erase_words cnt start s))
      (erase_cells j (unat cnt) (video_erase_char s) (cell (origin s) (mem s)))"
    by (simp add: erase_words_def st)
  show "con_ok (erase_words cnt start s) \<and> con_frame s (erase_words cnt start s)"
    unfolding erase_words_def st by (rule con_mem_upd [OF ok u])
qed

text \<open>The screen as a range of cells, and the cursor and the start of its line in it.\<close>

lemma cell_index_le:
  assumes ok: "con_ok s"
  shows "cell_index s \<le> lins s * cols s" "cell_index s - unat (con_x s) + cols s \<le> lins s * cols s"
    "unat (con_x s) \<le> cell_index s"
proof -
  note c = con_curD [OF con_okD(2) [OF ok]]
  have "Suc (unat (con_y s)) * cols s \<le> lins s * cols s" using c(2) by (intro mult_le_mono1) simp
  then show "cell_index s \<le> lins s * cols s" "cell_index s - unat (con_x s) + cols s \<le> lins s * cols s"
    using c(1) by (simp_all add: cell_index_def)
qed (simp add: cell_index_def)

lemma scr_end_index:
  assumes "con_geom s"
  shows "scr_end s = origin s + of_nat (2 * (lins s * cols s))"
  using cell_addr(2) [OF assms, of "video_num_lines s"] con_geomD(10) [OF assms]
  by (simp add: lins_def mult.commute)

lemma half_cells: "n \<le> (2::nat) ^ 20 \<Longrightarrow> unat (drop_bit 1 (of_nat (2 * n) :: u32)) = n"
  by (simp add: unat_drop_bit unat_of_nat take_bit_nat_eq_self del: of_nat_mult)

lemma erase_counts:
  assumes ok: "con_ok s"
  shows "unat (drop_bit 1 (scr_end s - con_pos s)) = lins s * cols s - cell_index s"
    "unat (drop_bit 1 (con_pos s - origin s)) = cell_index s"
    "unat (video_num_columns s * video_num_lines s) = lins s * cols s"
proof -
  note g = con_okD(1) [OF ok] and G = con_geomD [OF con_okD(1) [OF ok]]
  note i = cell_index_le [OF ok]
  have a: "scr_end s - con_pos s = of_nat (2 * (lins s * cols s - cell_index s))"
    unfolding scr_end_index [OF g] con_pos_index [OF ok] using i(1) by (simp add: of_nat_diff algebra_simps)
  have b: "con_pos s - origin s = of_nat (2 * cell_index s)" unfolding con_pos_index [OF ok] by simp
  show "unat (drop_bit 1 (scr_end s - con_pos s)) = lins s * cols s - cell_index s"
    unfolding a using G(11) by (intro half_cells) simp
  show "unat (drop_bit 1 (con_pos s - origin s)) = cell_index s"
    unfolding b using G(11) i(1) by (intro half_cells) simp
  show "unat (video_num_columns s * video_num_lines s) = lins s * cols s"
    using G(11) unfolding cols_def lins_def by (subst unat_mult_lem [THEN iffD1]) (simp_all add: mult.commute)
qed

lemma con_keeps_csi_J [con_keeps]: "con_keeps (csi_J p)"
proof (rule con_keepsI)
  fix s :: "'a con_state_scheme" assume ok: "con_ok s"
  note i = cell_index_le [OF ok] and n = erase_counts [OF ok]
  have 0: "con_ok (erase_words (drop_bit 1 (scr_end s - con_pos s)) (con_pos s) s) \<and>
      con_frame s (erase_words (drop_bit 1 (scr_end s - con_pos s)) (con_pos s) s)"
    by (rule erase_words_cells(2) [OF ok _ con_pos_index [OF ok]]) (unfold n, use i(1) in simp)
  have 1: "con_ok (erase_words (drop_bit 1 (con_pos s - origin s)) (origin s) s) \<and>
      con_frame s (erase_words (drop_bit 1 (con_pos s - origin s)) (origin s) s)"
    by (rule erase_words_cells(2) [OF ok, of 0], unfold n, use i(1) in simp_all)
  have 2: "con_ok (erase_words (video_num_columns s * video_num_lines s) (origin s) s) \<and>
      con_frame s (erase_words (video_num_columns s * video_num_lines s) (origin s) s)"
    by (rule erase_words_cells(2) [OF ok, of 0]) (simp_all add: n)
  show "con_ok (csi_J p s) \<and> con_frame s (csi_J p s)"
    using 0 1 2 ok unfolding csi_J_def by simp
qed

lemma line_start:
  assumes "con_ok s"
  shows "con_pos s - push_bit 1 (con_x s) = origin s + of_nat (2 * (cell_index s - unat (con_x s)))"
  unfolding con_pos_index [OF assms] cell_index_def by (simp add: push_bit_eq_mult algebra_simps)

lemma con_keeps_csi_K [con_keeps]: "con_keeps (csi_K p)"
proof (rule con_keepsI)
  fix s :: "'a con_state_scheme" assume ok: "con_ok s"
  note g = con_okD(1) [OF ok] and c = con_curD [OF con_okD(2) [OF ok]]
  note i = cell_index_le [OF ok]
  have n: "unat (video_num_columns s - con_x s) = cols s - unat (con_x s)"
    using c(1) by (simp add: cols_def unat_sub word_le_nat_alt)
  have 0: "con_ok (erase_words (video_num_columns s - con_x s) (con_pos s) s) \<and>
      con_frame s (erase_words (video_num_columns s - con_x s) (con_pos s) s)"
    by (rule erase_words_cells(2) [OF ok _ con_pos_index [OF ok]]) (use n i c(1) in simp)
  let ?m = "if con_x s < video_num_columns s then con_x s else video_num_columns s"
  have "unat ?m \<le> cols s" by (simp add: cols_def word_less_nat_alt)
  then have 1: "con_ok (erase_words ?m (con_pos s - push_bit 1 (con_x s)) s) \<and>
      con_frame s (erase_words ?m (con_pos s - push_bit 1 (con_x s)) s)"
    by (intro erase_words_cells(2) [OF ok _ line_start [OF ok]]) (use i in simp)
  have 2: "con_ok (erase_words (video_num_columns s) (con_pos s - push_bit 1 (con_x s)) s) \<and>
      con_frame s (erase_words (video_num_columns s) (con_pos s - push_bit 1 (con_x s)) s)"
    by (intro erase_words_cells(2) [OF ok _ line_start [OF ok]]) (use i in \<open>simp add: cols_def\<close>)
  show "con_ok (csi_K p s) \<and> con_frame s (csi_K p s)"
    using 0 1 2 ok unfolding csi_K_def by simp
qed

section \<open>Inserting and deleting characters\<close>

text \<open>The \<open>n\<close> cells from \<open>j\<close> on moved right by one, and moved left by one.\<close>

definition shift_right :: "nat \<Rightarrow> nat \<Rightarrow> u16 \<Rightarrow> (nat \<Rightarrow> u16) \<Rightarrow> nat \<Rightarrow> u16" where
  "shift_right j n e f k = (if k = j \<and> 0 < n then e else if j < k \<and> k < j + n then f (k - 1) else f k)"

definition shift_left :: "nat \<Rightarrow> nat \<Rightarrow> u16 \<Rightarrow> (nat \<Rightarrow> u16) \<Rightarrow> nat \<Rightarrow> u16" where
  "shift_left j n e f k = (if k + 1 = j + n \<and> 0 < n then e else if j \<le> k \<and> k + 1 < j + n then f (k + 1) else f k)"

lemma unat_Suc: "(i :: u32) < c \<Longrightarrow> unat (i + 1) = unat i + 1"
proof -
  assume "i < c"
  then have "unat i < unat c" by (simp add: word_less_nat_alt)
  moreover have "unat c < 2 ^ 32" by (rule order.strict_trans2 [OF unsigned_less]) simp
  ultimately show ?thesis using unat_add_32 [of i 1] by simp
qed

lemma insert_char_loop_cells:
  assumes "j + (unat c - unat i) \<le> N" "2 * N \<le> 2 ^ 32"
  shows "cells_upd a N m (insert_char_loop c i old (a + of_nat (2 * j)) m)
    (shift_right j (unat c - unat i) old (cell a m))"
  using assms(1)
proof (induction c i old "a + of_nat (2 * j) :: addr" m arbitrary: j rule: insert_char_loop.induct)
  case (1 c i old m)
  show ?case
  proof (cases "i < c")
    case True
    note i1 = unat_Suc [OF True]
    have lt: "unat i < unat c" using True by (simp add: word_less_nat_alt)
    let ?v = "ld16 m (a + of_nat (2 * j))" and ?m = "st16 m (a + of_nat (2 * j)) old"
    have u1: "cells_upd a N m ?m ((cell a m)(j := old))"
      using 1(2) lt assms(2) by (intro st16_cells) simp_all
    have u2: "cells_upd a N ?m (insert_char_loop c (i + 1) ?v (a + of_nat (2 * Suc j)) ?m)
        (shift_right (Suc j) (unat c - unat (i + 1)) ?v (cell a ?m))"
      using 1(1) [OF True cell_next] 1(2) lt i1 unfolding cell_next by simp
    show ?thesis
      unfolding insert_char_loop.simps [of c i] if_P [OF True] cell_next
    proof (rule cells_upd_cong [OF cells_upd_trans [OF u1 u2]])
      fix k assume k: "k < N"
      have p: "cell a ?m (k - 1) = (if k - 1 = j then old else cell a m (k - 1))"
        using cells_updD(1) [OF u1, of "k - 1"] k by simp
      have q: "cell a ?m k = (if k = j then old else cell a m k)"
        using cells_updD(1) [OF u1 k] by simp
      have v: "?v = cell a m j" by (simp add: cell_def)
      show "shift_right (Suc j) (unat c - unat (i + 1)) ?v (cell a ?m) k =
          shift_right j (unat c - unat i) old (cell a m) k"
        unfolding shift_right_def p q v i1 using lt by auto
    qed
  next
    case False
    then have "unat c - unat i = 0" by (simp add: word_less_nat_alt)
    then show ?thesis using False by (auto simp: insert_char_loop.simps [of c i] shift_right_def cells_upd_def)
  qed
qed

lemma delete_char_loop_cells:
  assumes "unat i < unat c" "j + (unat c - unat i) \<le> N" "2 * N \<le> 2 ^ 32"
  shows "fst (delete_char_loop c i (a + of_nat (2 * j)) m) = a + of_nat (2 * (j + (unat c - unat i - 1)))"
    "cells_upd a N m (snd (delete_char_loop c i (a + of_nat (2 * j)) m))
      (\<lambda>k. if j \<le> k \<and> k + 1 < j + (unat c - unat i) then cell a m (k + 1) else cell a m k)"
proof -
  have "fst (delete_char_loop c i (a + of_nat (2 * j)) m) = a + of_nat (2 * (j + (unat c - unat i - 1))) \<and>
    cells_upd a N m (snd (delete_char_loop c i (a + of_nat (2 * j)) m))
      (\<lambda>k. if j \<le> k \<and> k + 1 < j + (unat c - unat i) then cell a m (k + 1) else cell a m k)"
    using assms(1,2)
  proof (induction c i "a + of_nat (2 * j) :: addr" m arbitrary: j rule: delete_char_loop.induct)
    case (1 c i m)
    have ic: "i < c" using 1(2) by (simp add: word_less_nat_alt)
    note i1 = unat_Suc [OF ic]
    show ?case
    proof (cases "i + 1 < c")
      case True
      then have lt: "unat i + 1 < unat c" using i1 by (simp add: word_less_nat_alt)
      let ?m = "st16 m (a + of_nat (2 * j)) (ld16 m (a + of_nat (2 * j) + 2))"
      have v: "ld16 m (a + of_nat (2 * j) + 2) = cell a m (Suc j)" unfolding cell_next cell_def ..
      have u1: "cells_upd a N m ?m ((cell a m)(j := cell a m (Suc j)))"
        unfolding v using 1(3) lt assms(3) by (intro st16_cells) simp_all
      have e: "delete_char_loop c i (a + of_nat (2 * j)) m = delete_char_loop c (i + 1) (a + of_nat (2 * Suc j)) ?m"
        unfolding delete_char_loop.simps [of c i] Let_def if_P [OF True] cell_next ..
      have ih: "fst (delete_char_loop c (i + 1) (a + of_nat (2 * Suc j)) ?m) =
          a + of_nat (2 * (Suc j + (unat c - unat (i + 1) - 1))) \<and>
        cells_upd a N ?m (snd (delete_char_loop c (i + 1) (a + of_nat (2 * Suc j)) ?m))
          (\<lambda>k. if Suc j \<le> k \<and> k + 1 < Suc j + (unat c - unat (i + 1)) then cell a ?m (k + 1) else cell a ?m k)"
        using 1(1) [OF refl True cell_next] lt 1(3) unfolding cell_next i1 by simp
      show ?thesis
        unfolding e
      proof (rule conjI)
        show "fst (delete_char_loop c (i + 1) (a + of_nat (2 * Suc j)) ?m) = a + of_nat (2 * (j + (unat c - unat i - 1)))"
          unfolding conjunct1 [OF ih] i1 using lt by (simp add: Suc_diff_Suc flip: of_nat_Suc)
        show "cells_upd a N m (snd (delete_char_loop c (i + 1) (a + of_nat (2 * Suc j)) ?m))
            (\<lambda>k. if j \<le> k \<and> k + 1 < j + (unat c - unat i) then cell a m (k + 1) else cell a m k)"
        proof (rule cells_upd_cong [OF cells_upd_trans [OF u1 conjunct2 [OF ih]]])
          fix k assume k: "k < N"
          have q: "cell a ?m k = (if k = j then cell a m (Suc j) else cell a m k)"
            using cells_updD(1) [OF u1 k] by simp
          have p: "cell a ?m (k + 1) = cell a m (k + 1)" if "Suc j \<le> k \<and> k + 1 < Suc j + (unat c - unat (i + 1))"
          proof -
            have "k + 1 < N" using that 1(3) lt unfolding i1 by linarith
            from cells_updD(1) [OF u1 this] that show ?thesis by simp
          qed
          show "(if Suc j \<le> k \<and> k + 1 < Suc j + (unat c - unat (i + 1)) then cell a ?m (k + 1) else cell a ?m k) =
              (if j \<le> k \<and> k + 1 < j + (unat c - unat i) then cell a m (k + 1) else cell a m k)"
            unfolding q using p lt unfolding i1 by auto
        qed
      qed
    next
      case False
      then have "unat c - unat i = 1" using i1 ic by (simp add: word_less_nat_alt)
      then show ?thesis
        using False by (auto simp: delete_char_loop.simps [of c i] cells_upd_def simp del: of_nat_mult)
    qed
  qed
  then show "fst (delete_char_loop c i (a + of_nat (2 * j)) m) = a + of_nat (2 * (j + (unat c - unat i - 1)))"
    "cells_upd a N m (snd (delete_char_loop c i (a + of_nat (2 * j)) m))
      (\<lambda>k. if j \<le> k \<and> k + 1 < j + (unat c - unat i) then cell a m (k + 1) else cell a m k)" by blast+
qed

lemma con_keeps_insert_char [con_keeps]: "con_keeps insert_char"
proof (rule con_keepsI)
  fix s :: "'a con_state_scheme" assume ok: "con_ok s"
  note i = cell_index_le [OF ok] and c = con_curD [OF con_okD(2) [OF ok]]
  have "cell_index s + (unat (video_num_columns s) - unat (con_x s)) \<le> lins s * cols s"
    using i c(1) by (simp add: cols_def)
  note u = insert_char_loop_cells [OF this con_geomD(12) [OF con_okD(1) [OF ok]]]
  show "con_ok (insert_char s) \<and> con_frame s (insert_char s)"
    unfolding insert_char_def con_pos_index [OF ok] by (rule con_mem_upd [OF ok u])
qed

lemma delete_char_cells:
  assumes ok: "con_ok s" and x: "unat (con_x s) < cols s"
  shows "cells_upd (origin s) (lins s * cols s) (mem s) (mem (delete_char s))
      (shift_left (cell_index s) (cols s - unat (con_x s)) (video_erase_char s) (cell (origin s) (mem s)))"
    "delete_char s = s\<lparr>mem := mem (delete_char s)\<rparr>"
proof -
  note i = cell_index_le [OF ok] and G = con_geomD [OF con_okD(1) [OF ok]]
  let ?o = "origin s" and ?N = "lins s * cols s" and ?j = "cell_index s" and ?n = "cols s - unat (con_x s)"
  have x': "unat (con_x s) < unat (video_num_columns s)" using x by (simp add: cols_def)
  have n: "?j + (unat (video_num_columns s) - unat (con_x s)) \<le> ?N" using i x by (simp add: cols_def)
  note d = delete_char_loop_cells [OF x' n G(12), folded cols_def]
  define p m where "p = fst (delete_char_loop (video_num_columns s) (con_x s) (con_pos s) (mem s))"
    and "m = snd (delete_char_loop (video_num_columns s) (con_x s) (con_pos s) (mem s))"
  have p: "p = ?o + of_nat (2 * (?j + (?n - 1)))"
    using d(1) [of ?o "mem s"] x unfolding p_def con_pos_index [OF ok] by (simp del: of_nat_mult)
  have u1: "cells_upd ?o ?N (mem s) m
      (\<lambda>k. if ?j \<le> k \<and> k + 1 < ?j + ?n then cell ?o (mem s) (k + 1) else cell ?o (mem s) k)"
    unfolding m_def con_pos_index [OF ok] by (rule d(2))
  have u2: "cells_upd ?o ?N m (st16 m p (video_erase_char s)) ((cell ?o m)(?j + (?n - 1) := video_erase_char s))"
    unfolding p using n x by (intro st16_cells G(12)) (simp add: cols_def)
  have e: "delete_char s = s\<lparr>mem := st16 m p (video_erase_char s)\<rparr>"
    using x' unfolding delete_char_def p_def m_def
    by (simp add: word_le_nat_alt split: prod.split)
  show "delete_char s = s\<lparr>mem := mem (delete_char s)\<rparr>" unfolding e by simp
  have me: "mem (delete_char s) = st16 m p (video_erase_char s)" unfolding e by simp
  show "cells_upd ?o ?N (mem s) (mem (delete_char s)) (shift_left ?j ?n (video_erase_char s) (cell ?o (mem s)))"
    unfolding me
  proof (rule cells_upd_cong [OF cells_upd_trans [OF u1 u2]])
    fix k assume k: "k < ?N"
    show "((cell ?o m)(?j + (?n - 1) := video_erase_char s)) k =
        shift_left ?j ?n (video_erase_char s) (cell ?o (mem s)) k"
      unfolding fun_upd_apply cells_updD(1) [OF u1 k] shift_left_def using x by auto
  qed
qed

lemma con_keeps_delete_char [con_keeps]: "con_keeps delete_char"
proof (rule con_keepsI)
  fix s :: "'a con_state_scheme" assume ok: "con_ok s"
  show "con_ok (delete_char s) \<and> con_frame s (delete_char s)"
  proof (cases "unat (con_x s) < cols s")
    case True
    show ?thesis
      by (subst (1 2) delete_char_cells(2) [OF ok True]) (rule con_mem_upd [OF ok delete_char_cells(1) [OF ok True]])
  qed (use ok in \<open>simp add: delete_char_def cols_def word_le_nat_alt\<close>)
qed

section \<open>Inserting and deleting lines\<close>

text \<open>
  The scroll region is set to the rows from the cursor to the end of the screen and back, so that
  the rest of the state is as before.
\<close>

lemma con_keeps_in_region:
  assumes f: "con_keeps f" and m: "\<And>t. con_ok t \<Longrightarrow> f t = t\<lparr>mem := mem (f t)\<rparr>" and ok: "con_ok s"
  shows "let s' = f (s\<lparr>con_top := con_y s, con_bottom := video_num_lines s\<rparr>)
    in con_ok (s'\<lparr>con_top := con_top s, con_bottom := con_bottom s\<rparr>) \<and>
      con_frame s (s'\<lparr>con_top := con_top s, con_bottom := con_bottom s\<rparr>)"
proof -
  let ?t = "s\<lparr>con_top := con_y s, con_bottom := video_num_lines s\<rparr>"
  have okt: "con_ok ?t" using ok by (simp add: con_ok_def con_cur_def lins_def)
  note k = con_keepsD [OF f okt] and e = m [OF okt]
  have "mem s x = mem (f ?t) x" if "x \<notin> vram s" for x
    using k(2) that by (simp add: con_frame_def vram_def)
  then show ?thesis
    unfolding Let_def by (subst (1 2) e) (use ok in \<open>simp add: con_ok_def con_cur_def con_frame_def\<close>)
qed

lemma con_keeps_insert_line [con_keeps]: "con_keeps insert_line"
proof (rule con_keepsI)
  fix s :: "'a con_state_scheme" assume "con_ok s"
  from con_keeps_in_region [OF con_keeps_scrdown scrdown_cells(2) this]
  show "con_ok (insert_line s) \<and> con_frame s (insert_line s)"
    unfolding insert_line_def Let_def by (auto simp: con_ok_def dest: con_curD)
qed

lemma scrup_mem: "con_ok s \<Longrightarrow> scrup s = s\<lparr>mem := mem (scrup s)\<rparr>"
  unfolding scrup_cga [OF con_geomD(1) [OF con_okD(1)]]
  by (rule scrup_region_cells(2)) (auto dest: con_okD con_curD)

lemma con_keeps_delete_line [con_keeps]: "con_keeps delete_line"
proof (rule con_keepsI)
  fix s :: "'a con_state_scheme" assume "con_ok s"
  from con_keeps_in_region [OF con_keeps_scrup scrup_mem this]
  show "con_ok (delete_line s) \<and> con_frame s (delete_line s)"
    unfolding delete_line_def Let_def .
qed

lemma con_keeps_repeat [con_keeps]:
  "con_keeps (csi_at nr)" "con_keeps (csi_L nr)" "con_keeps (csi_P nr)" "con_keeps (csi_M nr)"
proof -
  show "con_keeps (csi_at nr)" unfolding csi_at_def [abs_def]
    by (rule con_keeps_param [of "\<lambda>n. insert_char ^^ n" "\<lambda>s. clamp nr (video_num_columns s)", OF con_keeps_funpow [OF con_keeps_insert_char]])
  show "con_keeps (csi_P nr)" unfolding csi_P_def [abs_def]
    by (rule con_keeps_param [of "\<lambda>n. delete_char ^^ n" "\<lambda>s. clamp nr (video_num_columns s)", OF con_keeps_funpow [OF con_keeps_delete_char]])
  show "con_keeps (csi_L nr)" unfolding csi_L_def [abs_def]
    by (rule con_keeps_param [of "\<lambda>n. insert_line ^^ n" "\<lambda>s. clamp nr (video_num_lines s)", OF con_keeps_funpow [OF con_keeps_insert_line]])
  show "con_keeps (csi_M nr)" unfolding csi_M_def [abs_def]
    by (rule con_keeps_param [of "\<lambda>n. delete_line ^^ n" "\<lambda>s. clamp nr (video_num_lines s)", OF con_keeps_funpow [OF con_keeps_delete_line]])
qed

end
