(* ===== verification/ConsoleRun.thy ===== *)
theory ConsoleRun
  imports ConsoleOps
begin

text \<open>
  The VT100 state machine of \<open>con_write\<close>: every character, in every state of the parser, is handled
  without a fault, keeps the invariant of the console and writes to no memory but the video memory.
\<close>

section \<open>Operations on the parser state\<close>

lemma con_keeps_param2:
  assumes "\<And>a b. con_keeps (f a b)"
  shows "con_keeps (\<lambda>s. f (g s) (h s) s)"
  using assms by (simp add: con_keeps_def)

lemma con_keeps_id: "con_keeps (\<lambda>s. s)"
  by (simp add: con_keeps_def)

lemma con_keeps_st [con_keeps]: "a \<le> 3 \<Longrightarrow> con_keeps (\<lambda>s. s\<lparr>con_st := a\<rparr>)"
  by (rule con_keepsI) (auto simp: con_ok_def con_cur_def cols_def lins_def)

lemma con_keeps_attr [con_keeps]: "con_keeps (\<lambda>s. s\<lparr>con_attr := a\<rparr>)"
  by (rule con_keepsI) (auto simp: con_ok_def con_cur_def cols_def lins_def)

lemma con_keeps_save_cur [con_keeps]: "con_keeps save_cur"
  by (rule con_keepsI) (auto simp: save_cur_def con_ok_def con_cur_def cols_def lins_def)

lemma con_keeps_restore_cur [con_keeps]: "con_keeps restore_cur"
  unfolding restore_cur_def [abs_def] by (rule con_keeps_param2) (rule con_keeps_gotoxy)

lemma con_keeps_sysbeep [con_keeps]: "con_keeps sysbeep"
  by (rule con_keepsI)
    (auto simp: sysbeep_def inb_def outb_def emit_def Let_def con_ok_def con_cur_def con_frame_def cols_def lins_def
      split: prod.split)

lemma con_keeps_par [con_keeps]: "con_keeps (par_upd i f)" "con_keeps (par_dec i)" "con_keeps (par_inc i)"
proof -
  show u: "con_keeps (par_upd i f)" for f :: "u32 \<Rightarrow> u32"
    by (rule con_keepsI) (auto simp: par_upd_def con_ok_def con_cur_def cols_def lins_def)
  show "con_keeps (par_dec i)" "con_keeps (par_inc i)"
    unfolding par_dec_def [abs_def] par_inc_def [abs_def] by (rule con_keeps_if [OF u con_keeps_id])+
qed

lemma con_keeps_set_region [con_keeps]: "con_keeps set_region"
proof (rule con_keepsI)
  fix s :: "'a con_state_scheme" assume ok: "con_ok s"
  define t where "t = (let s = par_dec 0 s in if par_nth 1 s = 0 then par_upd 1 (\<lambda>_. video_num_lines s) s else s)"
  have "con_keeps (\<lambda>s :: 'a con_state_scheme.
      let s = par_dec 0 s in if par_nth 1 s = 0 then par_upd 1 (\<lambda>_. video_num_lines s) s else s)"
    unfolding Let_def
    by (rule con_keeps_comp [OF con_keeps_par(2) con_keeps_if [OF con_keeps_param con_keeps_id]])
      (rule con_keeps_par(1))
  from con_keepsD [OF this ok] have t: "con_ok t \<and> con_frame s t" unfolding t_def by blast
  have e: "set_region s = (if par_nth 0 t < par_nth 1 t \<and> par_nth 1 t \<le> video_num_lines t
      then t\<lparr>con_top := par_nth 0 t, con_bottom := par_nth 1 t\<rparr> else t)"
    unfolding set_region_def t_def Let_def by (rule refl)
  show "con_ok (set_region s) \<and> con_frame s (set_region s)"
  proof (cases "par_nth 0 t < par_nth 1 t \<and> par_nth 1 t \<le> video_num_lines t")
    case True
    let ?u = "t\<lparr>con_top := par_nth 0 t, con_bottom := par_nth 1 t\<rparr>"
    have u: "con_ok ?u"
      using t True by (auto simp: con_ok_def con_cur_def lins_def cols_def word_less_nat_alt word_le_nat_alt)
    have "set_region s = ?u" unfolding e by (rule if_P [OF True])
    then show ?thesis using u t by (simp only: con_frame_trans [OF conjunct2 [OF t] con_frame_upd(7)] simp_thms)
  next
    case False
    then have "set_region s = t" unfolding e by (rule if_not_P)
    then show ?thesis using t by simp
  qed
qed

section \<open>Characters\<close>

definition con_safe :: "('a con_state_scheme \<Rightarrow> fault + 'a con_state_scheme) \<Rightarrow> bool" where
  "con_safe f \<longleftrightarrow> (\<forall>s. con_ok s \<longrightarrow> (\<exists>s'. f s = Inr s' \<and> con_ok s' \<and> con_frame s s'))"

lemma con_safeI: "(\<And>s. con_ok s \<Longrightarrow> \<exists>s'. f s = Inr s' \<and> con_ok s' \<and> con_frame s s') \<Longrightarrow> con_safe f"
  by (simp add: con_safe_def)

lemma con_safe_Inr: "con_keeps f \<Longrightarrow> con_safe (\<lambda>s. Inr (f s))"
  by (auto simp: con_safe_def con_keeps_def)

lemma con_safe_if: "con_safe f \<Longrightarrow> con_safe g \<Longrightarrow> con_safe (\<lambda>s. if P s then f s else g s)"
  by (simp add: con_safe_def)

lemma con_safe_pre:
  assumes "con_keeps f" "con_safe g"
  shows "con_safe (\<lambda>s. g (f s))"
proof (rule con_safeI)
  fix s :: "'a con_state_scheme" assume ok: "con_ok s"
  note k = con_keepsD [OF assms(1) ok]
  obtain s' where "g (f s) = Inr s'" "con_ok s'" "con_frame (f s) s'"
    using assms(2) k(1) unfolding con_safe_def by blast
  then show "\<exists>s'. g (f s) = Inr s' \<and> con_ok s' \<and> con_frame s s'"
    using k(2) con_frame_trans by blast
qed

lemma con_keeps_csi_m_one: "con_keeps (csi_m_one p)"
  unfolding csi_m_one_def [abs_def] by (intro con_keeps_if con_keeps_attr) (simp add: con_keeps_def)

lemma con_safe_csi_m_loop: "con_safe (csi_m_loop i)"
proof (rule con_safeI)
  fix s :: "'a con_state_scheme"
  show "con_ok s \<Longrightarrow> \<exists>s'. csi_m_loop i s = Inr s' \<and> con_ok s' \<and> con_frame s s'"
  proof (induction i s rule: csi_m_loop.induct)
    case (1 i s)
    show ?case
    proof (cases "i \<le> unat (con_npar s)")
      case True
      have len: "i < length (con_par s)" using 1(2) True by (simp add: con_ok_def)
      note k = con_keepsD [OF con_keeps_csi_m_one 1(2), of "con_par s ! i"]
      obtain s' where "csi_m_loop (Suc i) (csi_m_one (con_par s ! i) s) = Inr s'" "con_ok s'"
          "con_frame (csi_m_one (con_par s ! i) s) s'"
        using 1(1) [OF True len k(1)] by blast
      then show ?thesis
        using True len k(2) con_frame_trans by (auto simp: csi_m_loop.simps [of i s])
    next
      case False
      then show ?thesis using 1(2) by (simp add: csi_m_loop.simps [of i s])
    qed
  qed
qed

lemma con_keeps_goto:
  assumes "con_keeps f"
  shows "con_keeps (\<lambda>s. let s = f s in gotoxy (a s) (b s) s)"
proof -
  have "con_keeps (\<lambda>s. gotoxy (a s) (b s) s)" by (rule con_keeps_param2) (rule con_keeps_gotoxy)
  from con_keeps_comp [OF assms this] show ?thesis by (simp add: Let_def)
qed

lemma con_safe_final: "con_safe (con_final c)"
proof -
  have st: "con_keeps (\<lambda>s :: 'a con_state_scheme. s\<lparr>con_st := 0\<rparr>)" by (rule con_keeps_st) simp
  have csi: "con_keeps (\<lambda>s. csi_J (a s) s)" "con_keeps (\<lambda>s. csi_K (a s) s)" "con_keeps (\<lambda>s. csi_L (a s) s)"
    "con_keeps (\<lambda>s. csi_M (a s) s)" "con_keeps (\<lambda>s. csi_P (a s) s)" "con_keeps (\<lambda>s. csi_at (a s) s)"
    for a :: "'a con_state_scheme \<Rightarrow> u32"
    by (rule con_keeps_param, rule con_keeps)+
  have m: "con_safe csi_m" unfolding csi_m_def [abs_def] by (rule con_safe_csi_m_loop)
  note go = con_keeps_goto [OF con_keeps_par(2)] con_keeps_goto [OF con_keeps_par(3)]
    con_keeps_goto [OF con_keeps_comp [OF con_keeps_par(2) con_keeps_par(2)]]
  show ?thesis
    unfolding con_final_def [abs_def] Let_def
    by (rule con_safe_pre [OF st], (rule con_safe_if con_safe_Inr [OF csi(1)] con_safe_Inr [OF csi(2)]
        con_safe_Inr [OF csi(3)] con_safe_Inr [OF csi(4)] con_safe_Inr [OF csi(5)] con_safe_Inr [OF csi(6)]
        m con_safe_Inr [OF con_keeps_set_region] con_safe_Inr [OF con_keeps_save_cur]
        con_safe_Inr [OF con_keeps_restore_cur] con_safe_Inr [OF con_keeps_id] con_safe_Inr [OF go(1) [unfolded Let_def]]
        con_safe_Inr [OF go(2) [unfolded Let_def]] con_safe_Inr [OF go(3) [unfolded Let_def]])+)
qed

lemma con_safe_params: "con_safe (con_params c)"
proof (rule con_safeI)
  fix s :: "'a con_state_scheme" assume ok: "con_ok s"
  have fin: "con_final c (s\<lparr>con_st := 4\<rparr>) = con_final c s" by (simp add: con_final_def)
  have n: "unat (con_npar s) < length (con_par s)" using ok by (simp add: con_ok_def)
  have np: "con_ok (s\<lparr>con_npar := con_npar s + 1\<rparr>)" if "unat (con_npar s) < 15"
    using that ok unat_plus1 [of "con_npar s"] by (simp add: con_ok_def con_cur_def cols_def lins_def)
  show "\<exists>s'. con_params c s = Inr s' \<and> con_ok s' \<and> con_frame s s'"
  proof -
    obtain f where f: "con_final c s = Inr f" "con_ok f" "con_frame s f"
      using con_safe_final ok unfolding con_safe_def by blast
    show ?thesis
      unfolding con_params_def fin f(1)
      using np con_keepsD [OF con_keeps_par(1) ok] f n by auto
  qed
qed

lemma con_safe_start: "con_safe (con_start c)"
proof (rule con_safeI)
  fix s :: "'a con_state_scheme" assume ok: "con_ok s"
  define t where "t = s\<lparr>con_par := replicate 16 0, con_npar := 0, con_st := 3, con_ques := (if c = 63 then 1 else 0)\<rparr>"
  have t: "con_ok t" "con_frame s t"
    using ok by (simp_all add: t_def con_ok_def con_cur_def cols_def lins_def)
  obtain s' where "con_params c t = Inr s'" "con_ok s'" "con_frame t s'"
    using con_safe_params t(1) unfolding con_safe_def by blast
  then show "\<exists>s'. con_start c s = Inr s' \<and> con_ok s' \<and> con_frame s s'"
    unfolding con_start_def t_def [symmetric] Let_def using t con_frame_trans by auto
qed

lemma con_keeps_normal: "con_keeps (con_normal c)"
  unfolding con_normal_def [abs_def]
  by (rule con_keeps_if con_keeps_print_char con_keeps_lf con_keeps_cr con_keeps_del con_keeps_backspace
    con_keeps_tab con_keeps_sysbeep con_keeps_id | rule con_keeps_st, simp)+

lemma con_keeps_escape: "con_keeps (con_escape c)"
proof -
  have st: "con_keeps (\<lambda>s :: 'a con_state_scheme. s\<lparr>con_st := a\<rparr>)" if "a \<le> 3" for a
    by (rule con_keeps_st [OF that])
  have go: "con_keeps (\<lambda>s :: 'a con_state_scheme. gotoxy 0 (con_y s + 1) s)"
    by (rule con_keeps_param2 [of gotoxy "\<lambda>_. 0" "\<lambda>s. con_y s + 1"]) (rule con_keeps_gotoxy)
  have "con_keeps (\<lambda>s :: 'a con_state_scheme.
      if c = 91 then s\<lparr>con_st := 2\<rparr> else if c = 69 then gotoxy 0 (con_y s + 1) s
      else if c = 77 then ri s else if c = 68 then lf s
      else if con_x s = 55 then save_cur s else if con_x s = 56 then restore_cur s else s)"
    by (intro con_keeps_if st go con_keeps_ri con_keeps_lf con_keeps_save_cur con_keeps_restore_cur con_keeps_id) simp
  from con_keeps_comp [OF st this, of 0] show ?thesis
    unfolding con_escape_def [abs_def] Let_def by simp
qed

lemma con_safe_char: "con_safe (con_char c)"
  unfolding con_char_def [abs_def]
  by (intro con_safe_if con_safe_Inr con_keeps_normal con_keeps_escape con_safe_start con_safe_params con_safe_final con_keeps_id)

section \<open>The loop over the write queue\<close>

definition con_chars :: "'a con_state_scheme \<Rightarrow> u8 list" where
  "con_chars s = q_list (write_q (tty s))"

definition con_queue_ok :: "'a con_state_scheme \<Rightarrow> bool" where
  "con_queue_ok s \<longleftrightarrow> con_ok s \<and> q_ok (write_q (tty s))"

text \<open>Everything but the terminal's queue is framed by the loop.\<close>

definition con_frame' :: "'a con_state_scheme \<Rightarrow> 'a con_state_scheme \<Rightarrow> bool" where
  "con_frame' s s' \<longleftrightarrow> con_frame s (s'\<lparr>tty := tty s\<rparr>) \<and> read_q (tty s') = read_q (tty s)"

lemma con_frame'_trans: "con_frame' s t \<Longrightarrow> con_frame' t u \<Longrightarrow> con_frame' s u"
  unfolding con_frame'_def con_frame_def vram_def by simp

lemma con_frame'_mem: "con_frame' s s' \<Longrightarrow> x \<notin> vram s \<Longrightarrow> mem s' x = mem s x"
  by (simp add: con_frame'_def con_frame_def)

text \<open>One turn of the loop takes the first character of the queue and handles it.\<close>

lemma con_loop_step:
  assumes "con_queue_ok s" "con_chars s = c # cs"
  obtains q s' where "GETCH (write_q (tty s)) = Inr (c, q)" "q_ok q" "q_list q = cs"
    "con_char c (s\<lparr>tty := (tty s)\<lparr>write_q := q\<rparr>\<rparr>) = Inr s'" "con_queue_ok s'" "con_chars s' = cs" "con_frame' s s'"
    "con_loop (Suc n) s = con_loop n s'"
proof -
  obtain q where q: "GETCH (write_q (tty s)) = Inr (c, q)" "q_ok q" "q_list q = cs"
    using GETCH_ok [of "write_q (tty s)"] assms by (auto simp: con_queue_ok_def con_chars_def)
  let ?t = "s\<lparr>tty := (tty s)\<lparr>write_q := q\<rparr>\<rparr>"
  have "con_ok ?t" using assms(1) by (simp add: con_queue_ok_def con_ok_def con_cur_def cols_def lins_def)
  then obtain s' where s': "con_char c ?t = Inr s'" "con_ok s'" "con_frame ?t s'"
    using con_safe_char unfolding con_safe_def by blast
  have t: "tty s' = (tty s)\<lparr>write_q := q\<rparr>" using s'(3) by (simp add: con_frame_def)
  have f: "con_frame' s s'" using s'(3) unfolding con_frame'_def con_frame_def vram_def by simp
  have l: "con_loop (Suc n) s = con_loop n s'" by (simp add: q(1) s'(1))
  show thesis
    by (rule that [OF q s'(1) _ _ f l]) (use q s'(2) t in \<open>simp_all add: con_queue_ok_def con_chars_def\<close>)
qed

lemma con_loop_safe:
  "con_queue_ok s \<Longrightarrow> n = length (con_chars s) \<Longrightarrow>
    \<exists>s'. con_loop n s = Inr s' \<and> con_queue_ok s' \<and> con_chars s' = [] \<and> con_frame' s s'"
proof (induction n arbitrary: s)
  case 0
  then show ?case by (simp add: con_frame'_def con_frame_def)
next
  case (Suc n)
  then obtain c cs where "con_chars s = c # cs" by (metis length_Suc_conv)
  then obtain s' where s': "con_queue_ok s'" "con_chars s' = cs" "con_frame' s s'" "con_loop (Suc n) s = con_loop n s'"
    using con_loop_step [OF Suc.prems(1)] by blast
  have "n = length (con_chars s')" using s'(2) Suc.prems(2) \<open>con_chars s = c # cs\<close> by simp
  then show ?case using Suc.IH [OF s'(1)] s'(3,4) con_frame'_trans by metis
qed

lemma set_cursor_io: "\<exists>ev. set_cursor s = s\<lparr>io := ev\<rparr>"
  by (auto simp: set_cursor_def Let_def cli_def sti_def outb_def emit_def)

lemma con_write_safe:
  assumes "con_queue_ok s"
  shows "\<exists>s'. con_write s = Inr s' \<and> con_queue_ok s' \<and> con_chars s' = [] \<and> con_frame' s s'"
proof -
  have n: "unat (CHARS (write_q (tty s))) = length (con_chars s)" by (simp add: con_chars_def)
  obtain s' where s': "con_loop (unat (CHARS (write_q (tty s)))) s = Inr s'" "con_queue_ok s'" "con_chars s' = []"
      "con_frame' s s'"
    using con_loop_safe [OF assms n] by blast
  obtain ev where ev: "set_cursor s' = s'\<lparr>io := ev\<rparr>" using set_cursor_io by blast
  show ?thesis
    using s' by (auto simp: con_write_def ev con_queue_ok_def con_chars_def con_frame'_def con_frame_def con_ok_def
      con_cur_def cols_def lins_def)
qed

end
