(* ===== verification/Terminal.thy ===== *)
theory Terminal
  imports ConsoleRun
begin

text \<open>
  An abstract terminal: rows of cells, a cursor given by its row and column, a scroll region and an
  attribute. The operations of \<open>console.c\<close> on 32-bit positions and a flat video memory implement the
  operations of the abstract terminal (\<open>vt_abs (f s) = vt_f (vt_abs s)\<close>).
\<close>

section \<open>The abstract terminal\<close>

record vt =
  vt_cols :: nat
  vt_lins :: nat
  vt_rows :: "u16 list list"
  vt_x :: nat
  vt_y :: nat
  vt_top :: nat
  vt_bot :: nat
  vt_attr :: u8
  vt_blank :: u16

definition rows_up :: "nat \<Rightarrow> nat \<Rightarrow> 'a \<Rightarrow> 'a list \<Rightarrow> 'a list" where
  "rows_up t b e rs = take t rs @ take (b - t - 1) (drop (t + 1) rs) @ [e] @ drop b rs"

definition rows_down :: "nat \<Rightarrow> nat \<Rightarrow> 'a \<Rightarrow> 'a list \<Rightarrow> 'a list" where
  "rows_down t b e rs = take t rs @ [e] @ take (b - t - 1) (drop t rs) @ drop b rs"

definition vt_line :: "vt \<Rightarrow> u16 list" where
  "vt_line v = replicate (vt_cols v) (vt_blank v)"

definition vt_scroll :: "vt \<Rightarrow> vt" where
  "vt_scroll v = v\<lparr>vt_rows := rows_up (vt_top v) (vt_bot v) (vt_line v) (vt_rows v)\<rparr>"

definition vt_scroll_down :: "vt \<Rightarrow> vt" where
  "vt_scroll_down v = v\<lparr>vt_rows := rows_down (vt_top v) (vt_bot v) (vt_line v) (vt_rows v)\<rparr>"

definition vt_lf :: "vt \<Rightarrow> vt" where
  "vt_lf v = (if vt_y v + 1 < vt_bot v then v\<lparr>vt_y := vt_y v + 1\<rparr> else vt_scroll v)"

definition vt_ri :: "vt \<Rightarrow> vt" where
  "vt_ri v = (if vt_top v < vt_y v then v\<lparr>vt_y := vt_y v - 1\<rparr> else vt_scroll_down v)"

definition vt_cr :: "vt \<Rightarrow> vt" where
  "vt_cr v = v\<lparr>vt_x := 0\<rparr>"

definition vt_left :: "vt \<Rightarrow> vt" where
  "vt_left v = v\<lparr>vt_x := vt_x v - 1\<rparr>"

definition vt_put :: "u16 \<Rightarrow> vt \<Rightarrow> vt" where
  "vt_put c v = v\<lparr>vt_rows := (vt_rows v)[vt_y v := (vt_rows v ! vt_y v)[vt_x v := c]]\<rparr>"

definition vt_del :: "vt \<Rightarrow> vt" where
  "vt_del v = (if 0 < vt_x v then vt_put (vt_blank v) (vt_left v) else v)"

definition vt_wrap :: "vt \<Rightarrow> vt" where
  "vt_wrap v = vt_lf (v\<lparr>vt_x := vt_x v - vt_cols v\<rparr>)"

definition vt_tab :: "vt \<Rightarrow> vt" where
  "vt_tab v = (let v = v\<lparr>vt_x := 8 * (vt_x v div 8 + 1)\<rparr> in if vt_cols v < vt_x v then vt_wrap v else v)"

definition vt_print :: "u8 \<Rightarrow> vt \<Rightarrow> vt" where
  "vt_print c v = (let v = (if vt_cols v \<le> vt_x v then vt_wrap v else v);
      v = vt_put (push_bit 8 (ucast (vt_attr v)) OR ucast c) v
    in v\<lparr>vt_x := vt_x v + 1\<rparr>)"

text \<open>A character outside a control sequence.\<close>

definition vt_char :: "u8 \<Rightarrow> vt \<Rightarrow> vt" where
  "vt_char c v =
     (if 32 \<le> c \<and> c \<le> 126 then vt_print c v
      else if c \<in> {10, 11, 12} then vt_lf v
      else if c = 13 then vt_cr v
      else if c = 127 then vt_del v
      else if c = 8 then vt_left v
      else if c = 9 then vt_tab v
      else v)"

text \<open>Erasing the cells that satisfy a predicate on rows and columns; editing the row of the cursor.\<close>

definition vt_fill :: "(nat \<Rightarrow> nat \<Rightarrow> bool) \<Rightarrow> vt \<Rightarrow> vt" where
  "vt_fill p v = v\<lparr>vt_rows := map (\<lambda>r. map (\<lambda>c. if p r c then vt_blank v else vt_rows v ! r ! c)
     [0..<vt_cols v]) [0..<vt_lins v]\<rparr>"

definition vt_J :: "u32 \<Rightarrow> vt \<Rightarrow> vt" where
  "vt_J p v =
     (if p = 0 then vt_fill (\<lambda>r c. vt_y v < r \<or> r = vt_y v \<and> vt_x v \<le> c) v
      else if p = 1 then vt_fill (\<lambda>r c. r < vt_y v \<or> r = vt_y v \<and> c < vt_x v) v
      else if p = 2 then vt_fill (\<lambda>r c. True) v
      else v)"

definition vt_K :: "u32 \<Rightarrow> vt \<Rightarrow> vt" where
  "vt_K p v =
     (if p = 0 then vt_fill (\<lambda>r c. r = vt_y v \<and> vt_x v \<le> c) v
      else if p = 1 then vt_fill (\<lambda>r c. r = vt_y v \<and> c < vt_x v) v
      else if p = 2 then vt_fill (\<lambda>r c. r = vt_y v) v
      else v)"

definition vt_edit :: "(u16 list \<Rightarrow> u16 list) \<Rightarrow> vt \<Rightarrow> vt" where
  "vt_edit f v = v\<lparr>vt_rows := (vt_rows v)[vt_y v := f (vt_rows v ! vt_y v)]\<rparr>"

definition row_insert :: "nat \<Rightarrow> 'a \<Rightarrow> 'a list \<Rightarrow> 'a list" where
  "row_insert x e r = (if x < length r then take x r @ [e] @ take (length r - x - 1) (drop x r) else r)"

definition row_delete :: "nat \<Rightarrow> 'a \<Rightarrow> 'a list \<Rightarrow> 'a list" where
  "row_delete x e r = (if x < length r then take x r @ drop (x + 1) r @ [e] else r)"

definition vt_insert_char :: "vt \<Rightarrow> vt" where
  "vt_insert_char v = vt_edit (row_insert (vt_x v) (vt_blank v)) v"

definition vt_delete_char :: "vt \<Rightarrow> vt" where
  "vt_delete_char v = vt_edit (row_delete (vt_x v) (vt_blank v)) v"

definition vt_insert_line :: "vt \<Rightarrow> vt" where
  "vt_insert_line v = v\<lparr>vt_rows := rows_down (vt_y v) (vt_lins v) (vt_line v) (vt_rows v)\<rparr>"

definition vt_delete_line :: "vt \<Rightarrow> vt" where
  "vt_delete_line v = v\<lparr>vt_rows := rows_up (vt_y v) (vt_lins v) (vt_line v) (vt_rows v)\<rparr>"

text \<open>How often a counted sequence acts.\<close>

definition vt_count :: "nat \<Rightarrow> nat \<Rightarrow> nat" where
  "vt_count n l = (if l < n then l else if n = 0 then 1 else n)"

definition vt_goto :: "nat \<Rightarrow> nat \<Rightarrow> vt \<Rightarrow> vt" where
  "vt_goto x y v = (if x \<le> vt_cols v \<and> y < vt_lins v then v\<lparr>vt_x := x, vt_y := y\<rparr> else v)"

section \<open>Rows of a flat screen\<close>

definition rows_of :: "nat \<Rightarrow> nat \<Rightarrow> (nat \<Rightarrow> 'a) \<Rightarrow> 'a list list" where
  "rows_of C L f = map (\<lambda>r. map (\<lambda>c. f (r * C + c)) [0..<C]) [0..<L]"

lemma rows_of_simps [simp]:
  "length (rows_of C L f) = L"
  "r < L \<Longrightarrow> length (rows_of C L f ! r) = C"
  "r < L \<Longrightarrow> c < C \<Longrightarrow> rows_of C L f ! r ! c = f (r * C + c)"
  by (simp_all add: rows_of_def)

lemma rows_eqI:
  assumes "length A = L" "\<And>r. r < L \<Longrightarrow> length (A ! r) = C" "\<And>r c. r < L \<Longrightarrow> c < C \<Longrightarrow> f (r * C + c) = A ! r ! c"
  shows "rows_of C L f = A"
  by (rule nth_equalityI) (auto simp: assms intro!: nth_equalityI)

lemma rows_cong: "(\<And>k. k < L * C \<Longrightarrow> f k = g k) \<Longrightarrow> rows_of C L f = rows_of C L g"
proof (rule rows_eqI)
  fix r c assume f: "\<And>k. k < L * C \<Longrightarrow> f k = g k" and r: "r < L" "c < C"
  have "Suc r * C \<le> L * C" using r(1) by (intro mult_le_mono1) simp
  then have "r * C + c < L * C" using r(2) by simp
  then show "f (r * C + c) = rows_of C L g ! r ! c" using f r by simp
qed simp_all

lemma row_less: "c < C \<Longrightarrow> r * C + c < t * C \<longleftrightarrow> r < (t :: nat)"
proof (cases "r < t")
  case True
  assume "c < C"
  moreover have "Suc r * C \<le> t * C" using True by (intro mult_le_mono1) simp
  ultimately show ?thesis using True by simp
next
  case False
  then have "t * C \<le> r * C" by (intro mult_le_mono1) simp
  then have "\<not> r * C + c < t * C" by linarith
  then show ?thesis using False by simp
qed

lemma row_le: "c < C \<Longrightarrow> t * C \<le> r * C + c \<longleftrightarrow> t \<le> (r :: nat)"
  using row_less [of c C r t] by (simp add: not_less [symmetric])

lemma row_eq: "c < C \<Longrightarrow> x < C \<Longrightarrow> r * C + c = y * C + x \<longleftrightarrow> r = y \<and> c = (x :: nat)"
proof
  assume c: "c < C" "x < C" and e: "r * C + c = y * C + x"
  have "\<not> r < y"
  proof
    assume "r < y"
    then have "r * C + c < y * C" by (simp add: row_less [OF c(1)])
    then show False using e by linarith
  qed
  moreover have "\<not> y < r"
  proof
    assume "y < r"
    then have "y * C + x < r * C" by (simp add: row_less [OF c(2)])
    then show False using e by linarith
  qed
  ultimately have "r = y" by linarith
  then show "r = y \<and> c = x" using e by simp
qed simp

text \<open>The order of cells is that of their rows, then of their columns.\<close>

lemma row_lex: "c < C \<Longrightarrow> x \<le> C \<Longrightarrow> y * C + x \<le> r * C + c \<longleftrightarrow> y < r \<or> r = y \<and> x \<le> (c :: nat)"
proof -
  assume c: "c < C" and x: "x \<le> C"
  consider "y < r" | "y = r" | "r < y" by linarith
  then show ?thesis
  proof cases
    case 1
    then have "Suc y * C \<le> r * C" by (intro mult_le_mono1) simp
    then show ?thesis using 1 x by simp
  next
    case 3
    then show ?thesis using row_less [OF c, of r y] by simp
  qed simp
qed

lemma rows_of_upd:
  assumes "y < L" "x < C"
  shows "rows_of C L (f(y * C + x := v)) = (rows_of C L f)[y := (rows_of C L f ! y)[x := v]]"
  by (rule rows_eqI) (use assms in \<open>auto simp: nth_list_update row_eq\<close>)

lemma rows_of_up:
  assumes "t < b" "b \<le> L"
  shows "rows_of C L (scroll_up_cells C t b e f) = rows_up t b (replicate C e) (rows_of C L f)"
proof (rule rows_eqI)
  show "length (rows_up t b (replicate C e) (rows_of C L f)) = L" using assms by (simp add: rows_up_def)
  fix r assume r: "r < L"
  have e: "rows_up t b (replicate C e) (rows_of C L f) ! r =
      (if r < t then rows_of C L f ! r else if r < b - 1 then rows_of C L f ! (r + 1)
       else if r = b - 1 then replicate C e else rows_of C L f ! r)"
    using assms r unfolding rows_up_def by (auto simp: nth_append nth_Cons' min_def)
  show "length (rows_up t b (replicate C e) (rows_of C L f) ! r) = C"
    unfolding e using r assms by simp
  fix c assume c: "c < C"
  have "r * C + c + C = (r + 1) * C + c" by simp
  then show "scroll_up_cells C t b e f (r * C + c) = rows_up t b (replicate C e) (rows_of C L f) ! r ! c"
    unfolding scroll_up_cells_def row_le [OF c] row_less [OF c] e using r c assms by (auto simp: ac_simps)
qed

lemma rows_of_down:
  assumes "t < b" "b \<le> L"
  shows "rows_of C L (scroll_down_cells C t b e f) = rows_down t b (replicate C e) (rows_of C L f)"
proof (rule rows_eqI)
  show "length (rows_down t b (replicate C e) (rows_of C L f)) = L" using assms by (simp add: rows_down_def)
  fix r assume r: "r < L"
  have e: "rows_down t b (replicate C e) (rows_of C L f) ! r =
      (if r < t then rows_of C L f ! r else if r = t then replicate C e
       else if r < b then rows_of C L f ! (r - 1) else rows_of C L f ! r)"
    using assms r unfolding rows_down_def by (auto simp: nth_append nth_Cons' min_def)
  show "length (rows_down t b (replicate C e) (rows_of C L f) ! r) = C"
    unfolding e using r assms by simp
  fix c assume c: "c < C"
  have "r * C + c - C = (r - 1) * C + c" if "t < r" using that by (cases r) auto
  then show "scroll_down_cells C t b e f (r * C + c) = rows_down t b (replicate C e) (rows_of C L f) ! r ! c"
    unfolding scroll_down_cells_def row_le [OF c] row_less [OF c] e using r c assms by auto
qed

lemma rows_of_insert:
  assumes "y < L" "x \<le> C"
  shows "rows_of C L (shift_right (y * C + x) (C - x) e f) =
    (rows_of C L f)[y := row_insert x e (rows_of C L f ! y)]"
proof (rule rows_eqI)
  fix r c assume rc: "r < L" "c < C"
  have e: "row_insert x e (rows_of C L f ! y) ! c =
      (if c < x then f (y * C + c) else if c = x then e else f (y * C + (c - 1)))"
    using assms rc by (auto simp: row_insert_def nth_append nth_Cons' min_def)
  have s: "y * C + x + (C - x) = (y + 1) * C" using assms by simp
  show "shift_right (y * C + x) (C - x) e f (r * C + c) =
      (rows_of C L f)[y := row_insert x e (rows_of C L f ! y)] ! r ! c"
  proof (cases "r = y")
    case True
    then show ?thesis using assms rc e by (auto simp: shift_right_def)
  next
    case False
    have "r * C + c \<noteq> y * C + x \<or> C - x = 0" using False rc row_eq [of c C x r y] assms by (cases "x = C") auto
    moreover have "\<not> (y * C + x < r * C + c \<and> r * C + c < y * C + x + (C - x))"
      unfolding s using row_less [OF rc(2), of r "y + 1"] row_lex [OF rc(2) assms(2), of y r] False by auto
    ultimately show ?thesis using False rc assms by (auto simp: shift_right_def)
  qed
qed (use assms in \<open>auto simp: nth_list_update row_insert_def\<close>)

lemma rows_of_delete:
  assumes "y < L" "x < C"
  shows "rows_of C L (shift_left (y * C + x) (C - x) e f) =
    (rows_of C L f)[y := row_delete x e (rows_of C L f ! y)]"
proof (rule rows_eqI)
  fix r c assume rc: "r < L" "c < C"
  have e: "row_delete x e (rows_of C L f ! y) ! c =
      (if c < x then f (y * C + c) else if c + 1 < C then f (y * C + (c + 1)) else e)"
    using assms rc by (auto simp: row_delete_def nth_append nth_Cons' min_def)
  have s: "y * C + x + (C - x) = (y + 1) * C" using assms by simp
  show "shift_left (y * C + x) (C - x) e f (r * C + c) =
      (rows_of C L f)[y := row_delete x e (rows_of C L f ! y)] ! r ! c"
  proof (cases "r = y")
    case True
    then show ?thesis using assms rc e by (auto simp: shift_left_def)
  next
    case False
    have "r * C + c + 1 \<noteq> (y + 1) * C"
    proof
      assume "r * C + c + 1 = (y + 1) * C"
      then have "r * C + c = y * C + (C - 1)" using rc by simp
      then show False using row_eq [of c C "C - 1" r y] rc False by simp
    qed
    moreover have "\<not> (y * C + x \<le> r * C + c \<and> r * C + c + 1 < (y + 1) * C)"
      using row_less [OF rc(2), of r "y + 1"] row_lex [OF rc(2), of x y r] assms False by auto
    ultimately show ?thesis using False rc assms unfolding shift_left_def s by auto
  qed
qed (use assms in \<open>auto simp: nth_list_update row_delete_def\<close>)

lemma rows_of_fill:
  assumes "\<And>r c. r < L \<Longrightarrow> c < C \<Longrightarrow> (j \<le> r * C + c \<and> r * C + c < j + n) = p r c"
  shows "rows_of C L (erase_cells j n e f) =
    map (\<lambda>r. map (\<lambda>c. if p r c then e else rows_of C L f ! r ! c) [0..<C]) [0..<L]"
  by (rule rows_eqI) (use assms in \<open>auto simp: erase_cells_def\<close>)

section \<open>Abstraction\<close>

definition screen :: "'a con_state_scheme \<Rightarrow> u16 list list" where
  "screen s = rows_of (cols s) (lins s) (cell (origin s) (mem s))"

definition vt_abs :: "'a con_state_scheme \<Rightarrow> vt" where
  "vt_abs s = \<lparr>vt_cols = cols s, vt_lins = lins s, vt_rows = screen s, vt_x = unat (con_x s), vt_y = unat (con_y s),
     vt_top = unat (con_top s), vt_bot = unat (con_bottom s), vt_attr = con_attr s, vt_blank = video_erase_char s\<rparr>"

lemma screen_upd:
  assumes "cells_upd (origin s) (lins s * cols s) (mem s) (mem s') f"
    and "origin s' = origin s" "cols s' = cols s" "lins s' = lins s"
  shows "screen s' = rows_of (cols s) (lins s) f"
  unfolding screen_def assms(2-4) by (rule rows_cong) (rule cells_updD(1) [OF assms(1)])

lemma vt_abs_mem:
  assumes "cells_upd (origin s) (lins s * cols s) (mem s) m f" "rows_of (cols s) (lins s) f = R"
  shows "vt_abs (s\<lparr>mem := m\<rparr>) = (vt_abs s)\<lparr>vt_rows := R\<rparr>"
  using screen_upd [of s "s\<lparr>mem := m\<rparr>" f] assms by (simp add: vt_abs_def)

named_theorems vt_refine \<open>refinement of the abstract terminal\<close>

lemma vt_scroll_region:
  assumes "con_geom s" "unat (con_top s) < unat (con_bottom s)" "unat (con_bottom s) \<le> lins s"
  shows "vt_abs (scrup s) = vt_scroll (vt_abs s)" "vt_abs (scrdown s) = vt_scroll_down (vt_abs s)"
proof -
  show "vt_abs (scrup s) = vt_scroll (vt_abs s)"
    unfolding scrup_cga [OF con_geomD(1) [OF assms(1)]]
    by (subst scrup_region_cells(2) [OF assms], subst vt_abs_mem [OF scrup_region_cells(1) [OF assms] rows_of_up [OF assms(2,3)]])
      (simp add: vt_scroll_def vt_line_def vt_abs_def screen_def)
  show "vt_abs (scrdown s) = vt_scroll_down (vt_abs s)"
    by (subst scrdown_cells(2) [OF assms], subst vt_abs_mem [OF scrdown_cells(1) [OF assms] rows_of_down [OF assms(2,3)]])
      (simp add: vt_scroll_down_def vt_line_def vt_abs_def screen_def)
qed

lemma vt_abs_cursor [simp]:
  "vt_abs (s\<lparr>con_x := a\<rparr>) = (vt_abs s)\<lparr>vt_x := unat a\<rparr>"
  "vt_abs (s\<lparr>con_y := a\<rparr>) = (vt_abs s)\<lparr>vt_y := unat a\<rparr>"
  "vt_abs (s\<lparr>con_pos := a\<rparr>) = vt_abs s"
  "vt_abs (s\<lparr>con_st := a\<rparr>) = vt_abs s"
  "vt_abs (s\<lparr>io := ev\<rparr>) = vt_abs s"
  "vt_abs (s\<lparr>tty := t\<rparr>) = vt_abs s"
  "vt_abs (s\<lparr>beepcount := a\<rparr>) = vt_abs s"
  by (simp_all add: vt_abs_def screen_def cols_def lins_def)

lemma vt_abs_sel [simp]:
  "vt_cols (vt_abs s) = cols s" "vt_lins (vt_abs s) = lins s" "vt_x (vt_abs s) = unat (con_x s)"
  "vt_y (vt_abs s) = unat (con_y s)" "vt_top (vt_abs s) = unat (con_top s)" "vt_bot (vt_abs s) = unat (con_bottom s)"
  "vt_attr (vt_abs s) = con_attr s" "vt_blank (vt_abs s) = video_erase_char s" "vt_rows (vt_abs s) = screen s"
  by (simp_all add: vt_abs_def)

lemma vt_lf_region:
  assumes g: "con_geom s" and t: "unat (con_top s) < unat (con_bottom s)" "unat (con_bottom s) \<le> lins s"
    and y: "unat (con_y s) < lins s"
  shows "vt_abs (lf s) = vt_lf (vt_abs s)"
proof -
  have "unat (con_y s + 1) = unat (con_y s) + 1" using y con_geomD(6) [OF g] by (intro unat_plus1) simp
  then show ?thesis
    using vt_scroll_region(1) [OF g t] by (simp add: lf_def vt_lf_def word_less_nat_alt)
qed

lemma vt_refine_motion [vt_refine]:
  assumes "con_ok s"
  shows "vt_abs (lf s) = vt_lf (vt_abs s)" "vt_abs (ri s) = vt_ri (vt_abs s)" "vt_abs (cr s) = vt_cr (vt_abs s)"
    "vt_abs (backspace s) = vt_left (vt_abs s)" "vt_abs (gotoxy a b s) = vt_goto (unat a) (unat b) (vt_abs s)"
proof -
  note g = con_okD(1) [OF assms] and c = con_curD [OF con_okD(2) [OF assms]]
  show "vt_abs (lf s) = vt_lf (vt_abs s)" by (rule vt_lf_region [OF g c(3,4,2)])
  have "unat (con_y s - 1) = unat (con_y s) - 1" if "con_top s < con_y s"
    using that by (intro unat_minus1) auto
  then show "vt_abs (ri s) = vt_ri (vt_abs s)"
    using vt_scroll_region(2) [OF g c(3,4)] by (simp add: ri_def vt_ri_def word_less_nat_alt)
  show "vt_abs (cr s) = vt_cr (vt_abs s)" by (simp add: cr_def vt_cr_def)
  show "vt_abs (backspace s) = vt_left (vt_abs s)"
    by (auto simp: backspace_def vt_left_def unat_minus1)
  show "vt_abs (gotoxy a b s) = vt_goto (unat a) (unat b) (vt_abs s)"
    by (auto simp: gotoxy_def vt_goto_def cols_def lins_def word_less_nat_alt word_le_nat_alt not_le not_less)
qed

lemma vt_wrap_ok:
  assumes g: "con_geom s" and y: "unat (con_y s) < lins s" and t: "unat (con_top s) < unat (con_bottom s)"
    "unat (con_bottom s) \<le> lins s" and x: "cols s \<le> unat (con_x s)"
  shows "vt_abs (wrap_line s) = vt_wrap (vt_abs s)"
proof -
  have "unat (con_x s - video_num_columns s) = unat (con_x s) - cols s"
    using x by (simp add: cols_def unat_sub word_le_nat_alt)
  then show ?thesis
    unfolding wrap_line_def using vt_lf_region [of "s\<lparr>con_x := con_x s - video_num_columns s, con_pos := con_pos s - video_size_row s\<rparr>"] g y t
    by (simp add: vt_wrap_def)
qed

lemma vt_put_step:
  assumes ok: "con_ok t" and x: "unat (con_x t) < cols t"
  shows "vt_abs (t\<lparr>mem := st16 (mem t) (con_pos t) v\<rparr>) = vt_put v (vt_abs t)"
proof -
  note c = con_curD [OF con_okD(2) [OF ok]]
  have up: "cells_upd (origin t) (lins t * cols t) (mem t) (st16 (mem t) (con_pos t) v)
      ((cell (origin t) (mem t))(cell_index t := v))"
    using st16_cells [OF cell_lt [OF c(2) x] con_geomD(12) [OF con_okD(1) [OF ok]]]
    unfolding con_pos_index [OF ok] cell_index_def by blast
  show ?thesis
    unfolding vt_abs_mem [OF up [unfolded cell_index_def] rows_of_upd [OF c(2) x]]
    by (simp add: vt_put_def screen_def)
qed

lemma vt_refine_print [vt_refine]: "con_ok s \<Longrightarrow> vt_abs (print_char ch s) = vt_print ch (vt_abs s)"
proof -
  assume ok: "con_ok s"
  note a = print_at_ok [OF ok] and c = con_curD [OF con_okD(2) [OF ok]]
  define t where "t = print_at s"
  have t: "con_ok t" "cols t = cols s" "unat (con_x t) < cols t" using a by (simp_all add: t_def con_frame_def cols_def)
  have w: "vt_abs t = (if vt_cols (vt_abs s) \<le> vt_x (vt_abs s) then vt_wrap (vt_abs s) else vt_abs s)"
    using vt_wrap_ok [OF con_okD(1) [OF ok] c(2-4)] by (simp add: t_def print_at_def cols_def word_le_nat_alt)
  have x1: "unat (con_x t + 1) = unat (con_x t) + 1"
    using t(3) con_geomD(4) [OF con_okD(1) [OF t(1)]] by (intro unat_plus1) simp
  have "vt_abs (print_char ch s) =
      (vt_abs (t\<lparr>mem := st16 (mem t) (con_pos t) (push_bit 8 (ucast (con_attr t)) OR ucast ch)\<rparr>))\<lparr>vt_x := unat (con_x t) + 1\<rparr>"
    unfolding print_char_alt t_def [symmetric] Let_def by (simp add: x1)
  also have "\<dots> = vt_print ch (vt_abs s)"
    unfolding vt_put_step [OF t(1,3)] vt_print_def w [symmetric] Let_def by (simp add: vt_put_def)
  finally show ?thesis .
qed

lemma vt_refine_del [vt_refine]: "con_ok s \<Longrightarrow> vt_abs (del s) = vt_del (vt_abs s)"
proof -
  assume ok: "con_ok s"
  show ?thesis
  proof (cases "con_x s \<noteq> 0")
    case True
    let ?t = "backspace s"
    have t: "?t = s\<lparr>con_pos := con_pos s - 2, con_x := con_x s - 1\<rparr>" using True by (simp add: backspace_def)
    note bk = con_keepsD [OF con_keeps_backspace ok]
    have pos: "0 < unat (con_x s)" using True by (simp add: unat_gt_0)
    then have x: "unat (con_x ?t) < cols ?t" using con_curD(1) [OF con_okD(2) [OF ok]] True by (simp add: t unat_minus1)
    have "del s = ?t\<lparr>mem := st16 (mem ?t) (con_pos ?t) (video_erase_char ?t)\<rparr>"
      using True by (simp add: del_def Let_def t)
    then show ?thesis
      using vt_put_step [OF bk(1) x] vt_refine_motion(4) [OF ok] pos
      by (simp add: vt_del_def) (simp add: t)
  qed (simp add: del_def vt_del_def)
qed

lemma vt_refine_tab [vt_refine]: "con_ok s \<Longrightarrow> vt_abs (tab s) = vt_tab (vt_abs s)"
proof -
  assume ok: "con_ok s"
  note g = con_okD(1) [OF ok] and c = con_curD [OF con_okD(2) [OF ok]]
  note G = con_geomD [OF g]
  let ?c = "8 - (con_x s AND 7)"
  define t where "t = s\<lparr>con_x := con_x s + ?c, con_pos := con_pos s + push_bit 1 ?c\<rparr>"
  have m: "unat (con_x s AND 7) = unat (con_x s) mod 8" using unat_and_mask [of "con_x s" 3] by (simp add: mask_eq_exp_minus_1)
  then have "unat (con_x s AND 7) < 8" by simp
  then have "unat ?c = 8 - unat (con_x s AND 7)" by (simp add: unat_sub word_le_nat_alt)
  then have c8: "unat ?c = 8 - unat (con_x s) mod 8" using m by simp
  have "unat (con_x s) + unat ?c < 2 ^ 32" using c(1) c8 G(4) by simp
  then have x: "unat (con_x s + ?c) = unat (con_x s) + unat ?c" by (simp add: unat_word_ariths)
  have x8: "unat (con_x s + ?c) = 8 * (unat (con_x s) div 8 + 1)"
    unfolding x c8 by presburger
  have a: "vt_abs t = (vt_abs s)\<lparr>vt_x := 8 * (vt_x (vt_abs s) div 8 + 1)\<rparr>" by (simp add: t_def x8)
  have tt: "tab s = (if con_x t > video_num_columns t then wrap_line t else t)" by (simp add: tab_def t_def Let_def)
  have w: "vt_abs (wrap_line t) = vt_wrap (vt_abs t)" if "video_num_columns t < con_x t"
  proof (rule vt_wrap_ok)
    show "cols t \<le> unat (con_x t)" using that by (simp add: cols_def word_less_nat_alt)
  qed (use g c in \<open>simp_all add: t_def\<close>)
  have "(video_num_columns t < con_x t) = (vt_cols (vt_abs t) < vt_x (vt_abs t))"
    by (simp add: cols_def word_less_nat_alt)
  then show ?thesis
    unfolding tt vt_tab_def a [symmetric] Let_def using w by simp
qed

lemma sint_u8:
  fixes c :: u8
  obtains n where "unat c = n" "n < 256" "sint c = (if n < 128 then int n else int n - 256)"
proof -
  obtain n where n: "unat c = n" "uint c = int n" using uint_nat by blast
  have s: "sint c = signed_take_bit 7 (int n)" using n(2) by (simp add: sint_uint)
  have lt: "n < 256" using n(1) unsigned_less [of c, where 'a = nat] by simp
  have neg: "signed_take_bit 7 (int n) = signed_take_bit 7 (int n - 256)"
    using signed_take_bit_eq_iff_take_bit_eq [of 7 "int n" "int n - 256"] by (simp add: take_bit_eq_mod mod_simps)
  have "sint c = (if n < 128 then int n else int n - 256)"
  proof (cases "n < 128")
    case True
    then show ?thesis unfolding s by (simp add: signed_take_bit_int_eq_self)
  next
    case False
    then have "signed_take_bit 7 (int n - 256) = int n - 256" using lt by (intro signed_take_bit_int_eq_self) simp_all
    then show ?thesis unfolding s neg using False by simp
  qed
  then show thesis using that n(1) lt by blast
qed

lemma sint_printable: "(31 < sint c \<and> sint c < 127) = (32 \<le> c \<and> c \<le> 126)" for c :: u8
proof -
  obtain n where n: "unat c = n" "n < 256" "sint c = (if n < 128 then int n else int n - 256)" by (rule sint_u8)
  show ?thesis unfolding word_le_nat_alt n(1,3) using n(2) by auto
qed

lemma vt_refine_normal:
  assumes "con_ok s" "c \<noteq> 27"
  shows "vt_abs (con_normal c s) = vt_char c (vt_abs s)"
proof -
  have "vt_abs (sysbeep s) = vt_abs s"
    by (simp add: sysbeep_def inb_def outb_def emit_def Let_def)
  then show ?thesis
    unfolding con_normal_def vt_char_def sint_printable
    using assms by (simp add: vt_refine)
qed

section \<open>Control sequences that edit the screen\<close>

lemma vt_erase:
  assumes ok: "con_ok s" and n: "j + unat cnt \<le> lins s * cols s" and st: "start = origin s + of_nat (2 * j)"
    and p: "\<And>r c. r < lins s \<Longrightarrow> c < cols s \<Longrightarrow> (j \<le> r * cols s + c \<and> r * cols s + c < j + unat cnt) = p r c"
  shows "vt_abs (erase_words cnt start s) = vt_fill p (vt_abs s)"
proof -
  have e: "erase_words cnt start s = s\<lparr>mem := mem (erase_words cnt start s)\<rparr>" by (simp add: erase_words_def)
  show ?thesis
    by (subst e, subst vt_abs_mem [OF erase_words_cells(1) [OF ok n st] rows_of_fill [OF p]])
      (simp_all add: vt_fill_def screen_def)
qed

lemma vt_refine_J [vt_refine]: "con_ok s \<Longrightarrow> vt_abs (csi_J p s) = vt_J p (vt_abs s)"
proof -
  assume ok: "con_ok s"
  note g = con_okD(1) [OF ok] and G = con_geomD [OF con_okD(1) [OF ok]] and c = con_curD [OF con_okD(2) [OF ok]]
  note i = cell_index_le [OF ok] and n = erase_counts [OF ok]
  have 0: "vt_abs (erase_words (drop_bit 1 (scr_end s - con_pos s)) (con_pos s) s) =
      vt_fill (\<lambda>r c. unat (con_y s) < r \<or> r = unat (con_y s) \<and> unat (con_x s) \<le> c) (vt_abs s)"
  proof (rule vt_erase [OF ok _ con_pos_index [OF ok]], unfold n)
    fix r k assume rk: "r < lins s" "k < cols s"
    then have "r * cols s + k < lins s * cols s" by (simp add: row_less)
    then show "(cell_index s \<le> r * cols s + k \<and> r * cols s + k < cell_index s + (lins s * cols s - cell_index s)) =
        (unat (con_y s) < r \<or> r = unat (con_y s) \<and> unat (con_x s) \<le> k)"
      using i(1) row_lex [OF rk(2) c(1)] unfolding cell_index_def by simp
  qed (use i in simp)
  have 1: "vt_abs (erase_words (drop_bit 1 (con_pos s - origin s)) (origin s) s) =
      vt_fill (\<lambda>r c. r < unat (con_y s) \<or> r = unat (con_y s) \<and> c < unat (con_x s)) (vt_abs s)"
  proof (rule vt_erase [OF ok, of 0], unfold n)
    fix r k assume rk: "r < lins s" "k < cols s"
    show "(0 \<le> r * cols s + k \<and> r * cols s + k < 0 + cell_index s) =
        (r < unat (con_y s) \<or> r = unat (con_y s) \<and> k < unat (con_x s))"
      using row_lex [OF rk(2) c(1), of "unat (con_y s)" r] unfolding cell_index_def by auto
  qed (use i in simp_all)
  have 2: "vt_abs (erase_words (video_num_columns s * video_num_lines s) (origin s) s) = vt_fill (\<lambda>r c. True) (vt_abs s)"
  proof (rule vt_erase [OF ok, of 0], unfold n)
    fix r k assume "r < lins s" "k < cols s"
    then show "(0 \<le> r * cols s + k \<and> r * cols s + k < 0 + lins s * cols s) = True" by (simp add: row_less)
  qed simp_all
  show ?thesis using 0 1 2 by (simp add: csi_J_def vt_J_def)
qed

lemma vt_refine_K [vt_refine]: "con_ok s \<Longrightarrow> vt_abs (csi_K p s) = vt_K p (vt_abs s)"
proof -
  assume ok: "con_ok s"
  note g = con_okD(1) [OF ok] and c = con_curD [OF con_okD(2) [OF ok]]
  note i = cell_index_le [OF ok]
  have ls: "cell_index s - unat (con_x s) = unat (con_y s) * cols s" by (simp add: cell_index_def)
  have nx: "(Suc (unat (con_y s))) * cols s = unat (con_y s) * cols s + cols s" by simp
  have n: "unat (video_num_columns s - con_x s) = cols s - unat (con_x s)"
    using c(1) by (simp add: cols_def unat_sub word_le_nat_alt)
  have mn: "unat (if con_x s < video_num_columns s then con_x s else video_num_columns s) = unat (con_x s)"
    using c(1) by (auto simp: cols_def word_less_nat_alt)
  have 0: "vt_abs (erase_words (video_num_columns s - con_x s) (con_pos s) s) =
      vt_fill (\<lambda>r k. r = unat (con_y s) \<and> unat (con_x s) \<le> k) (vt_abs s)"
  proof (rule vt_erase [OF ok _ con_pos_index [OF ok]], unfold n)
    fix r k assume rk: "r < lins s" "k < cols s"
    have "cell_index s + (cols s - unat (con_x s)) = Suc (unat (con_y s)) * cols s"
      using c(1) by (simp add: cell_index_def)
    then show "(cell_index s \<le> r * cols s + k \<and> r * cols s + k < cell_index s + (cols s - unat (con_x s))) =
        (r = unat (con_y s) \<and> unat (con_x s) \<le> k)"
      using row_lex [OF rk(2) c(1)] row_less [OF rk(2), of r "Suc (unat (con_y s))"] unfolding cell_index_def by auto
  qed (use i c(1) in simp)
  have 1: "vt_abs (erase_words (if con_x s < video_num_columns s then con_x s else video_num_columns s)
        (con_pos s - push_bit 1 (con_x s)) s) =
      vt_fill (\<lambda>r k. r = unat (con_y s) \<and> k < unat (con_x s)) (vt_abs s)"
  proof (rule vt_erase [OF ok _ line_start [OF ok]], unfold mn ls)
    fix r k assume rk: "r < lins s" "k < cols s"
    show "(unat (con_y s) * cols s \<le> r * cols s + k \<and> r * cols s + k < unat (con_y s) * cols s + unat (con_x s)) =
        (r = unat (con_y s) \<and> k < unat (con_x s))"
      using row_lex [OF rk(2) c(1), of "unat (con_y s)" r] row_le [OF rk(2), of "unat (con_y s)" r] by auto
  qed (use i in \<open>simp add: cell_index_def\<close>)
  have 2: "vt_abs (erase_words (video_num_columns s) (con_pos s - push_bit 1 (con_x s)) s) =
      vt_fill (\<lambda>r k. r = unat (con_y s)) (vt_abs s)"
  proof (rule vt_erase [OF ok _ line_start [OF ok]], unfold cols_def [symmetric] ls)
    fix r k assume rk: "r < lins s" "k < cols s"
    show "(unat (con_y s) * cols s \<le> r * cols s + k \<and> r * cols s + k < unat (con_y s) * cols s + cols s) =
        (r = unat (con_y s))"
      using row_le [OF rk(2), of "unat (con_y s)" r] row_less [OF rk(2), of r "Suc (unat (con_y s))"] unfolding nx by auto
  qed (use i ls in simp)
  have e: "vt_fill (\<lambda>r k. r = unat (con_y s) \<and> unat (con_x s) \<le> k) (vt_abs s) = vt_abs s" if "cols s \<le> unat (con_x s)"
    using that by (simp add: vt_fill_def) (simp add: vt_abs_def screen_def rows_of_def cong: map_cong)
  show ?thesis using 0 1 2 e by (simp add: csi_K_def vt_K_def cols_def word_le_nat_alt)
qed

lemma vt_refine_chars [vt_refine]:
  assumes ok: "con_ok s"
  shows "vt_abs (insert_char s) = vt_insert_char (vt_abs s)" "vt_abs (delete_char s) = vt_delete_char (vt_abs s)"
proof -
  note g = con_okD(1) [OF ok] and c = con_curD [OF con_okD(2) [OF ok]]
  note i = cell_index_le [OF ok]
  have "cell_index s + (unat (video_num_columns s) - unat (con_x s)) \<le> lins s * cols s"
    using i c(1) by (simp add: cols_def)
  note u = insert_char_loop_cells [OF this con_geomD(12) [OF g], folded cols_def, unfolded cell_index_def]
  show "vt_abs (insert_char s) = vt_insert_char (vt_abs s)"
    unfolding insert_char_def con_pos_index [OF ok] cell_index_def vt_abs_mem [OF u rows_of_insert [OF c(2,1)]]
    by (simp add: vt_insert_char_def vt_edit_def screen_def)
  show "vt_abs (delete_char s) = vt_delete_char (vt_abs s)"
  proof (cases "unat (con_x s) < cols s")
    case True
    note d = delete_char_cells [OF ok True, unfolded cell_index_def]
    show ?thesis
      by (subst d(2), subst vt_abs_mem [OF d(1) rows_of_delete [OF c(2) True]])
        (simp add: vt_delete_char_def vt_edit_def screen_def)
  next
    case False
    have "row_delete (unat (con_x s)) (video_erase_char s) (screen s ! unat (con_y s)) = screen s ! unat (con_y s)"
      using False c(2) by (simp add: row_delete_def screen_def)
    then show ?thesis
      using False by (simp add: delete_char_def cols_def word_le_nat_alt vt_delete_char_def vt_edit_def)
  qed
qed

lemma vt_refine_lines [vt_refine]:
  assumes ok: "con_ok s"
  shows "vt_abs (insert_line s) = vt_insert_line (vt_abs s)" "vt_abs (delete_line s) = vt_delete_line (vt_abs s)"
proof -
  note c = con_curD [OF con_okD(2) [OF ok]]
  let ?t = "s\<lparr>con_top := con_y s, con_bottom := video_num_lines s\<rparr>"
  have r: "con_geom ?t" "unat (con_top ?t) < unat (con_bottom ?t)" "unat (con_bottom ?t) \<le> lins ?t"
    using con_okD(1) [OF ok] c(2) by (simp_all add: lins_def)
  have a: "vt_abs (u\<lparr>con_top := a, con_bottom := b\<rparr>) = (vt_abs u)\<lparr>vt_top := unat a, vt_bot := unat b\<rparr>"
    for u :: "'a con_state_scheme" and a b
    by (simp add: vt_abs_def screen_def)
  show "vt_abs (insert_line s) = vt_insert_line (vt_abs s)"
    unfolding insert_line_def Let_def a vt_scroll_region(2) [OF r]
    by (simp add: vt_scroll_down_def vt_insert_line_def vt_line_def vt_abs_def lins_def)
  show "vt_abs (delete_line s) = vt_delete_line (vt_abs s)"
    unfolding delete_line_def Let_def a vt_scroll_region(1) [OF r]
    by (simp add: vt_scroll_def vt_delete_line_def vt_line_def vt_abs_def lins_def)
qed

lemma vt_refine_funpow:
  assumes "con_keeps f" "\<And>s. con_ok s \<Longrightarrow> vt_abs (f s) = g (vt_abs s)" "con_ok s"
  shows "vt_abs ((f ^^ n) s) = (g ^^ n) (vt_abs s)"
proof (induction n)
  case (Suc n)
  have "con_ok ((f ^^ n) s)" by (rule con_keepsD(1) [OF con_keeps_funpow [OF assms(1)] assms(3)])
  then show ?case using assms(2) Suc by simp
qed simp

lemma clamp_count: "clamp a b = vt_count (unat a) (unat b)"
  by (auto simp: clamp_def vt_count_def word_less_nat_alt unat_eq_0)

lemma vt_refine_counted [vt_refine]:
  assumes ok: "con_ok s"
  shows "vt_abs (csi_at n s) = (vt_insert_char ^^ vt_count (unat n) (cols s)) (vt_abs s)"
    "vt_abs (csi_P n s) = (vt_delete_char ^^ vt_count (unat n) (cols s)) (vt_abs s)"
    "vt_abs (csi_L n s) = (vt_insert_line ^^ vt_count (unat n) (lins s)) (vt_abs s)"
    "vt_abs (csi_M n s) = (vt_delete_line ^^ vt_count (unat n) (lins s)) (vt_abs s)"
proof -
  note d = csi_at_def csi_P_def csi_L_def csi_M_def clamp_count cols_def lins_def
  show "vt_abs (csi_at n s) = (vt_insert_char ^^ vt_count (unat n) (cols s)) (vt_abs s)"
    unfolding d by (rule vt_refine_funpow [OF con_keeps_insert_char vt_refine_chars(1) ok])
  show "vt_abs (csi_P n s) = (vt_delete_char ^^ vt_count (unat n) (cols s)) (vt_abs s)"
    unfolding d by (rule vt_refine_funpow [OF con_keeps_delete_char vt_refine_chars(2) ok])
  show "vt_abs (csi_L n s) = (vt_insert_line ^^ vt_count (unat n) (lins s)) (vt_abs s)"
    unfolding d by (rule vt_refine_funpow [OF con_keeps_insert_line vt_refine_lines(1) ok])
  show "vt_abs (csi_M n s) = (vt_delete_line ^^ vt_count (unat n) (lins s)) (vt_abs s)"
    unfolding d by (rule vt_refine_funpow [OF con_keeps_delete_line vt_refine_lines(2) ok])
qed

end
