(* ===== verification/ConsoleFeed.thy ===== *)
theory ConsoleFeed
  imports Terminal
begin

text \<open>
  The console without its queue: \<open>con_feed\<close> handles a list of characters one after the other, no operation of
  the console looks at the queue, and so \<open>con_write\<close> does to the screen and to the parser what \<open>con_feed\<close>
  does on the characters of the queue.
\<close>

section \<open>Characters without the queue\<close>

primrec con_feed :: "u8 list \<Rightarrow> 'a con_state_scheme \<Rightarrow> fault + 'a con_state_scheme" where
  "con_feed [] s = Inr s"
| "con_feed (c # cs) s = bindE (con_char c s) (con_feed cs)"

lemma con_feed_append: "con_feed (cs @ ds) s = bindE (con_feed cs s) (con_feed ds)"
proof (induction cs arbitrary: s)
  case (Cons c cs)
  then show ?case by (cases "con_char c s") simp_all
qed simp

section \<open>Operations that do not look at the queue\<close>

named_theorems con_tty \<open>operations that leave the queues alone\<close>

text \<open>The update of the queue goes outwards.\<close>

lemma con_tty_swap [con_tty]:
  "s\<lparr>tty := q, con_st := a\<rparr> = s\<lparr>con_st := a, tty := q\<rparr>" "s\<lparr>tty := q, con_x := a\<rparr> = s\<lparr>con_x := a, tty := q\<rparr>"
  "s\<lparr>tty := q, con_pos := a\<rparr> = s\<lparr>con_pos := a, tty := q\<rparr>" "s\<lparr>tty := q, con_top := a\<rparr> = s\<lparr>con_top := a, tty := q\<rparr>"
  "s\<lparr>tty := q, con_bottom := a\<rparr> = s\<lparr>con_bottom := a, tty := q\<rparr>" "s\<lparr>tty := q, con_npar := a\<rparr> = s\<lparr>con_npar := a, tty := q\<rparr>"
  "s\<lparr>tty := q, con_par := ps\<rparr> = s\<lparr>con_par := ps, tty := q\<rparr>" "s\<lparr>tty := q, con_ques := a\<rparr> = s\<lparr>con_ques := a, tty := q\<rparr>"
  by simp_all

lemma con_tty_motion [con_tty]:
  "gotoxy a b (s\<lparr>tty := q\<rparr>) = (gotoxy a b s)\<lparr>tty := q\<rparr>"
  "cr (s\<lparr>tty := q\<rparr>) = (cr s)\<lparr>tty := q\<rparr>"
  "del (s\<lparr>tty := q\<rparr>) = (del s)\<lparr>tty := q\<rparr>"
  "backspace (s\<lparr>tty := q\<rparr>) = (backspace s)\<lparr>tty := q\<rparr>"
  "save_cur (s\<lparr>tty := q\<rparr>) = (save_cur s)\<lparr>tty := q\<rparr>"
  "restore_cur (s\<lparr>tty := q\<rparr>) = (restore_cur s)\<lparr>tty := q\<rparr>"
  "sysbeep (s\<lparr>tty := q\<rparr>) = (sysbeep s)\<lparr>tty := q\<rparr>"
  by (simp_all add: gotoxy_def cr_def del_def backspace_def save_cur_def restore_cur_def sysbeep_def inb_def outb_def
    emit_def Let_def)

lemma con_tty_scroll [con_tty]:
  "scrup_region (s\<lparr>tty := q\<rparr>) = (scrup_region s)\<lparr>tty := q\<rparr>"
  "set_origin (s\<lparr>tty := q\<rparr>) = (set_origin s)\<lparr>tty := q\<rparr>"
  "scrdown (s\<lparr>tty := q\<rparr>) = (scrdown s)\<lparr>tty := q\<rparr>"
  by (simp_all add: scrup_region_def set_origin_def scrdown_def cli_def sti_def outb_def emit_def Let_def)

lemma con_tty_scrup [con_tty]: "scrup (s\<lparr>tty := q\<rparr>) = (scrup s)\<lparr>tty := q\<rparr>"
  by (simp add: scrup_def Let_def con_tty set_origin_def cli_def sti_def outb_def emit_def)

lemma con_tty_lines [con_tty]:
  "lf (s\<lparr>tty := q\<rparr>) = (lf s)\<lparr>tty := q\<rparr>"
  "ri (s\<lparr>tty := q\<rparr>) = (ri s)\<lparr>tty := q\<rparr>"
  "insert_char (s\<lparr>tty := q\<rparr>) = (insert_char s)\<lparr>tty := q\<rparr>"
  "delete_char (s\<lparr>tty := q\<rparr>) = (delete_char s)\<lparr>tty := q\<rparr>"
  "erase_words n a (s\<lparr>tty := q\<rparr>) = (erase_words n a s)\<lparr>tty := q\<rparr>"
  by (simp_all add: lf_def ri_def con_tty insert_char_def delete_char_def erase_words_def split: prod.split)

lemma con_tty_shift [con_tty]:
  "insert_line (s\<lparr>tty := q\<rparr>) = (insert_line s)\<lparr>tty := q\<rparr>"
  "delete_line (s\<lparr>tty := q\<rparr>) = (delete_line s)\<lparr>tty := q\<rparr>"
  by (simp_all add: insert_line_def delete_line_def Let_def con_tty)

lemma con_tty_funpow:
  fixes f :: "'a con_state_scheme \<Rightarrow> 'a con_state_scheme"
  assumes "\<And>s. f (s\<lparr>tty := q\<rparr>) = (f s)\<lparr>tty := q\<rparr>"
  shows "(f ^^ n) (s\<lparr>tty := q\<rparr>) = ((f ^^ n) s)\<lparr>tty := q\<rparr>"
  by (induction n) (simp_all add: assms)

lemma con_tty_csi [con_tty]:
  "csi_J n (s\<lparr>tty := q\<rparr>) = (csi_J n s)\<lparr>tty := q\<rparr>"
  "csi_K n (s\<lparr>tty := q\<rparr>) = (csi_K n s)\<lparr>tty := q\<rparr>"
  "csi_at n (s\<lparr>tty := q\<rparr>) = (csi_at n s)\<lparr>tty := q\<rparr>"
  "csi_P n (s\<lparr>tty := q\<rparr>) = (csi_P n s)\<lparr>tty := q\<rparr>"
  "csi_L n (s\<lparr>tty := q\<rparr>) = (csi_L n s)\<lparr>tty := q\<rparr>"
  "csi_M n (s\<lparr>tty := q\<rparr>) = (csi_M n s)\<lparr>tty := q\<rparr>"
  by (simp_all add: csi_J_def csi_K_def csi_at_def csi_P_def csi_L_def csi_M_def con_tty con_tty_funpow)

text \<open>A result with the queue of another state.\<close>

definition with_tty :: "tty_t \<Rightarrow> fault + 'a con_state_scheme \<Rightarrow> fault + 'a con_state_scheme" where
  "with_tty q r = (case r of Inl e \<Rightarrow> Inl e | Inr s \<Rightarrow> Inr (s\<lparr>tty := q\<rparr>))"

lemma with_tty_simps [simp]: "with_tty q (Inl e) = Inl e" "with_tty q (Inr s) = Inr (s\<lparr>tty := q\<rparr>)"
  by (simp_all add: with_tty_def)

lemma csi_m_loop_tty: "csi_m_loop i (s\<lparr>tty := q\<rparr>) = with_tty q (csi_m_loop i s)"
proof (induction i s rule: csi_m_loop.induct)
  case (1 i s)
  have "csi_m_one n (s\<lparr>tty := q\<rparr>) = (csi_m_one n s)\<lparr>tty := q\<rparr>" for n by (simp add: csi_m_one_def)
  then show ?case using 1 by (subst (1 2) csi_m_loop.simps) simp
qed

lemma con_tty_par [con_tty]:
  "par_nth i (s\<lparr>tty := q\<rparr>) = par_nth i s"
  "par_upd i f (s\<lparr>tty := q\<rparr>) = (par_upd i f s)\<lparr>tty := q\<rparr>"
  by (simp_all add: par_nth_def par_upd_def)

lemma con_tty_par_step [con_tty]:
  "par_dec i (s\<lparr>tty := q\<rparr>) = (par_dec i s)\<lparr>tty := q\<rparr>"
  "par_inc i (s\<lparr>tty := q\<rparr>) = (par_inc i s)\<lparr>tty := q\<rparr>"
  by (simp_all add: par_dec_def par_inc_def con_tty)

lemma con_tty_region [con_tty]: "set_region (s\<lparr>tty := q\<rparr>) = (set_region s)\<lparr>tty := q\<rparr>"
  by (simp add: set_region_def Let_def con_tty)

lemma con_tty_wrap [con_tty]: "wrap_line (s\<lparr>tty := q\<rparr>) = (wrap_line s)\<lparr>tty := q\<rparr>"
  by (simp add: wrap_line_def con_tty)

lemma con_tty_print [con_tty]:
  "tab (s\<lparr>tty := q\<rparr>) = (tab s)\<lparr>tty := q\<rparr>"
  "print_char c (s\<lparr>tty := q\<rparr>) = (print_char c s)\<lparr>tty := q\<rparr>"
  by (simp_all add: tab_def print_char_def Let_def con_tty)

lemma con_tty_normal: "con_normal c (s\<lparr>tty := q\<rparr>) = (con_normal c s)\<lparr>tty := q\<rparr>"
  by (simp add: con_normal_def con_tty)

lemma con_tty_escape: "con_escape c (s\<lparr>tty := q\<rparr>) = (con_escape c s)\<lparr>tty := q\<rparr>"
  by (simp add: con_escape_def Let_def con_tty)

lemma con_tty_final: "con_final c (s\<lparr>tty := q\<rparr>) = with_tty q (con_final c s)"
  by (simp add: con_final_def Let_def csi_m_def csi_m_loop_tty con_tty)

lemma con_tty_params: "con_params c (s\<lparr>tty := q\<rparr>) = with_tty q (con_params c s)"
  by (simp add: con_params_def con_tty_final con_tty)

lemma con_tty_start: "con_start c (s\<lparr>tty := q\<rparr>) = with_tty q (con_start c s)"
  by (simp add: con_start_def Let_def con_tty_params con_tty)

lemma con_tty_char: "con_char c (s\<lparr>tty := q\<rparr>) = with_tty q (con_char c s)"
  by (simp add: con_char_def con_tty_normal con_tty_escape con_tty_start con_tty_params con_tty_final)

lemma con_tty_feed: "con_feed cs (s\<lparr>tty := q\<rparr>) = with_tty q (con_feed cs s)"
proof (induction cs arbitrary: s)
  case (Cons c cs)
  then show ?case by (cases "con_char c s") (simp_all add: con_tty_char)
qed simp

section \<open>The loop of the console\<close>

text \<open>
  \<open>con_write\<close> does what \<open>con_feed\<close> does on the characters of the queue; it empties the queue and moves the
  cursor of the video controller.
\<close>

lemma con_loop_feed:
  "con_queue_ok s \<Longrightarrow> n = length (con_chars s) \<Longrightarrow> con_loop n s = Inr s' \<Longrightarrow>
    \<exists>t. con_feed (con_chars s) s = Inr t \<and> s' = t\<lparr>tty := tty s'\<rparr>"
proof (induction n arbitrary: s)
  case 0
  then show ?case by simp
next
  case (Suc n)
  then obtain c cs where cs: "con_chars s = c # cs" by (metis length_Suc_conv)
  obtain q u where u: "con_char c (s\<lparr>tty := (tty s)\<lparr>write_q := q\<rparr>\<rparr>) = Inr u" "con_queue_ok u" "con_chars u = cs"
      "con_loop (Suc n) s = con_loop n u"
    using con_loop_step [OF Suc.prems(1) cs] by metis
  have "con_loop n u = Inr s'" "n = length (con_chars u)" using u(3,4) cs Suc.prems(2,3) by simp_all
  then obtain t where t: "con_feed cs u = Inr t" "s' = t\<lparr>tty := tty s'\<rparr>" using Suc.IH [OF u(2)] u(3) by blast
  obtain w where w: "con_char c s = Inr w" "u = w\<lparr>tty := (tty s)\<lparr>write_q := q\<rparr>\<rparr>"
    using u(1) unfolding con_tty_char by (cases "con_char c s") auto
  then obtain t' where "con_feed cs w = Inr t'" "t = t'\<lparr>tty := (tty s)\<lparr>write_q := q\<rparr>\<rparr>"
    using t(1) unfolding w(2) con_tty_feed by (cases "con_feed cs w") auto
  then show ?case using t(2) w(1) cs by (intro exI [of _ t']) simp
qed

lemma con_write_feed:
  assumes "con_queue_ok s"
  shows "\<exists>s' t. con_write s = Inr s' \<and> con_queue_ok s' \<and> con_chars s' = [] \<and> con_frame' s s' \<and>
    con_feed (con_chars s) s = Inr t \<and> s' = t\<lparr>tty := tty s', io := io s'\<rparr>"
proof -
  have n: "unat (CHARS (write_q (tty s))) = length (con_chars s)" by (simp add: con_chars_def)
  obtain u where u: "con_loop (unat (CHARS (write_q (tty s)))) s = Inr u" "con_queue_ok u" "con_chars u = []" "con_frame' s u"
    using con_loop_safe [OF assms n] by blast
  obtain t where t: "con_feed (con_chars s) s = Inr t" "u = t\<lparr>tty := tty u\<rparr>"
    using con_loop_feed [OF assms n u(1)] by blast
  obtain ev where ev: "set_cursor u = u\<lparr>io := ev\<rparr>" using set_cursor_io by blast
  have w: "con_write s = Inr (u\<lparr>io := ev\<rparr>)" using u(1) by (simp add: con_write_def ev)
  obtain s' where s': "con_write s = Inr s'" "con_queue_ok s'" "con_chars s' = []" "con_frame' s s'"
    using con_write_safe [OF assms] by blast
  have e: "s' = u\<lparr>io := ev\<rparr>" using s'(1) w by simp
  have "s' = t\<lparr>tty := tty s', io := io s'\<rparr>" unfolding e by (subst t(2)) simp
  then show ?thesis using s' t(1) by blast
qed

end
