(* ===== verification/ConsoleProps.thy ===== *)
theory ConsoleProps
  imports ConsoleFeed
begin

text \<open>
  The properties of the console and the keyboard: \<open>con_write\<close> never faults and shows text as the
  abstract terminal does, control sequences are parsed, and \<open>con_init\<close> sets the console up.
\<close>

section \<open>Text\<close>

lemma con_st_scrup: "con_geom s \<Longrightarrow> con_st (scrup s) = con_st s"
  by (simp add: scrup_cga [OF con_geomD(1)] scrup_region_def Let_def)

lemma con_st_lf: "con_geom s \<Longrightarrow> con_st (lf s) = con_st s"
  by (simp add: lf_def con_st_scrup)

lemma con_st_wrap: "con_geom s \<Longrightarrow> con_st (wrap_line s) = con_st s"
  by (simp add: wrap_line_def con_st_lf)

lemma con_st_normal: "con_geom s \<Longrightarrow> c \<noteq> 27 \<Longrightarrow> con_st (con_normal c s) = con_st s"
  by (simp add: con_normal_def print_char_def con_st_wrap con_st_lf cr_def del_def backspace_def tab_def
    sysbeep_def inb_def outb_def emit_def Let_def)

lemma con_char_normal: "con_st s = 0 \<Longrightarrow> con_char c s = Inr (con_normal c s)"
  by (simp add: con_char_def)

lemma con_queue_okD: "con_queue_ok s \<Longrightarrow> con_ok s" "con_queue_ok s \<Longrightarrow> con_geom s"
  by (simp_all add: con_queue_ok_def con_ok_def)

lemma con_ok_tty [simp]: "con_ok (s\<lparr>tty := t\<rparr>) = con_ok s"
  by (simp add: con_ok_def con_cur_def cols_def lins_def)

lemma con_loop_text:
  "con_queue_ok s \<Longrightarrow> con_st s = 0 \<Longrightarrow> 27 \<notin> set (con_chars s) \<Longrightarrow> n = length (con_chars s) \<Longrightarrow>
    \<exists>s'. con_loop n s = Inr s' \<and> con_queue_ok s' \<and> con_st s' = 0 \<and> con_chars s' = [] \<and> con_frame' s s' \<and>
      vt_abs s' = fold vt_char (con_chars s) (vt_abs s)"
proof (induction n arbitrary: s)
  case 0
  then show ?case by (simp add: con_frame'_def)
next
  case (Suc n)
  then obtain c cs where cs: "con_chars s = c # cs" by (metis length_Suc_conv)
  then obtain q s' where s': "con_char c (s\<lparr>tty := (tty s)\<lparr>write_q := q\<rparr>\<rparr>) = Inr s'" "con_queue_ok s'"
      "con_chars s' = cs" "con_frame' s s'" "con_loop (Suc n) s = con_loop n s'"
    using con_loop_step [OF Suc.prems(1)] by metis
  let ?t = "s\<lparr>tty := (tty s)\<lparr>write_q := q\<rparr>\<rparr>"
  have t: "con_ok ?t" "con_st ?t = 0" using con_queue_okD [OF Suc.prems(1)] Suc.prems(2) by simp_all
  have c27: "c \<noteq> 27" using Suc.prems(3) cs by auto
  have e: "s' = con_normal c ?t" using s'(1) con_char_normal [OF t(2)] by simp
  have v: "vt_abs s' = vt_char c (vt_abs s)" unfolding e vt_refine_normal [OF t(1) c27] by simp
  have st: "con_st s' = 0" unfolding e con_st_normal [OF con_okD(1) [OF t(1)] c27] by (rule t(2))
  have "27 \<notin> set (con_chars s')" "n = length (con_chars s')" using Suc.prems(3,4) cs s'(3) by simp_all
  from Suc.IH [OF s'(2) st this] show ?case
    unfolding s'(3,5) cs v using con_frame'_trans [OF s'(4)] by auto
qed

lemma con_write_text_ok:
  assumes "con_queue_ok s" "con_st s = 0" "27 \<notin> set (con_chars s)"
  shows "\<exists>s'. con_write s = Inr s' \<and> con_queue_ok s' \<and> con_st s' = 0 \<and> con_chars s' = [] \<and> con_frame' s s' \<and>
    vt_abs s' = fold vt_char (con_chars s) (vt_abs s)"
proof -
  have n: "unat (CHARS (write_q (tty s))) = length (con_chars s)" by (simp add: con_chars_def)
  obtain s' where s': "con_loop (unat (CHARS (write_q (tty s)))) s = Inr s'" "con_queue_ok s'" "con_st s' = 0"
      "con_chars s' = []" "con_frame' s s'" "vt_abs s' = fold vt_char (con_chars s) (vt_abs s)"
    using con_loop_text [OF assms n] by blast
  obtain ev where ev: "set_cursor s' = s'\<lparr>io := ev\<rparr>" using set_cursor_io by blast
  show ?thesis
    using s' by (auto simp: con_write_def ev con_queue_ok_def con_chars_def con_frame'_def con_frame_def con_ok_def
      con_cur_def cols_def lins_def)
qed

section \<open>Initialisation\<close>

lemma put_desc_out: "(\<And>i. i < length cs \<Longrightarrow> x \<noteq> p + of_nat (2 * i)) \<Longrightarrow> put_desc cs p m x = m x"
proof (induction cs arbitrary: p m)
  case (Cons c cs)
  have "x \<noteq> p" using Cons.prems [of 0] by simp
  moreover have "put_desc cs (p + 2) (m(p := c)) x = (m(p := c)) x"
  proof (rule Cons.IH)
    fix i assume "i < length cs"
    then show "x \<noteq> p + 2 + of_nat (2 * i)" using Cons.prems [of "Suc i"] by (simp add: algebra_simps)
  qed
  ultimately show ?case by simp
qed simp

text \<open>The static data of the console before \<open>con_init\<close> runs.\<close>

definition con_static :: "'a con_state_scheme \<Rightarrow> bool" where
  "con_static s \<longleftrightarrow> length (con_par s) = 16 \<and> con_npar s = 0 \<and> con_st s = 0 \<and> q_ok (write_q (tty s))"

lemma con_init_eq:
  "con_init s = s\<lparr>video_num_columns := 80, video_size_row := 160, video_num_lines := 25, video_page := 0,
     video_erase_char := 0x0720, video_mem_start := 0xc00b8000, video_port_reg := 0x3d4, video_port_val := 0x3d5,
     video_type := VIDEO_TYPE_CGA, video_mem_end := 0xc00ba000, mem := put_desc [42, 67, 71, 65] 0xc00b8098 (mem s),
     origin := 0xc00b8000, scr_end := 0xc00b8fa0, con_top := 0, con_bottom := 25, con_x := 0, con_y := 0,
     con_pos := 0xc00b8000, io := io (con_init s)\<rparr>"
  by (simp add: con_init_def gotoxy_def inb_def outb_def emit_def Let_def del: put_desc.simps)

lemma con_init_fields:
  "video_type (con_init s) = VIDEO_TYPE_CGA" "video_num_columns (con_init s) = 80" "video_num_lines (con_init s) = 25"
  "video_size_row (con_init s) = 160" "video_mem_start (con_init s) = 0xc00b8000"
  "video_mem_end (con_init s) = 0xc00ba000" "origin (con_init s) = 0xc00b8000" "video_erase_char (con_init s) = 0x0720"
  "scr_end (con_init s) = 0xc00b8fa0" "con_x (con_init s) = 0" "con_y (con_init s) = 0" "con_top (con_init s) = 0"
  "con_bottom (con_init s) = 25" "con_pos (con_init s) = 0xc00b8000" "con_par (con_init s) = con_par s"
  "con_npar (con_init s) = con_npar s" "con_st (con_init s) = con_st s" "tty (con_init s) = tty s"
  "con_attr (con_init s) = con_attr s"
  "mem (con_init s) = put_desc [42, 67, 71, 65] 0xc00b8098 (mem s)"
  by (subst con_init_eq, simp)+

lemma con_init_ok: "con_static s \<Longrightarrow> con_queue_ok (con_init s)"
  by (simp add: con_queue_ok_def con_ok_def con_geom_def con_cur_def cols_def lins_def con_init_fields con_static_def)

lemma con_init_mem:
  assumes "x \<notin> vram (con_init s)"
  shows "mem (con_init s) x = mem s x"
  unfolding con_init_fields(20)
proof (rule put_desc_out)
  fix i assume i: "i < length [42, 67, 71, 65 :: u8]"
  show "x \<noteq> 0xc00b8098 + of_nat (2 * i)"
  proof
    assume "x = 0xc00b8098 + of_nat (2 * i)"
    moreover have "i = 0 \<or> i = 1 \<or> i = 2 \<or> i = 3" using i by auto
    ultimately have "x \<in> vram (con_init s)"
      unfolding vram_def mem_Collect_eq con_init_fields(5,6) by (elim disjE) simp_all
    then show False using assms by simp
  qed
qed

text \<open>A console as \<open>con_init\<close> leaves it, with some text to write.\<close>

definition con_boot :: "u8 list \<Rightarrow> con_state" where
  "con_boot cs =
    \<lparr>mem = (\<lambda>_. 0), io = [], dev = (\<lambda>_ _. 0), video_type = 0, video_num_columns = 0, video_size_row = 0,
     video_num_lines = 0, video_page = 0, video_mem_start = 0, video_mem_end = 0, video_port_reg = 0,
     video_port_val = 0, video_erase_char = 0, origin = 0, scr_end = 0, con_pos = 0, con_x = 0, con_y = 0,
     con_top = 0, con_bottom = 0, con_st = 0, con_npar = 0, con_par = replicate 16 0, con_ques = 0, con_attr = 7,
     saved_x = 0, saved_y = 0, beepcount = 0,
     tty = \<lparr>read_q = empty_queue, write_q = \<lparr>q_data = 0, q_head = of_nat (length cs), q_tail = 0, q_buf = cs @ replicate (1024 - length cs) 0\<rparr>\<rparr>\<rparr>"

lemma con_boot_ok:
  assumes "length cs < 1024"
  shows "con_static (con_boot cs)" "con_chars (con_init (con_boot cs)) = cs"
proof -
  have lt: "(of_nat (length cs) :: u32) < 1024"
    using assms by (simp add: word_less_nat_alt unat_of_nat take_bit_nat_eq_self)
  let ?q = "\<lparr>q_data = 0, q_head = of_nat (length cs), q_tail = 0, q_buf = cs @ replicate (1024 - length cs) 0\<rparr>"
  have q: "q_ok ?q" using assms lt by (simp add: q_ok_def)
  then show "con_static (con_boot cs)" by (simp add: con_static_def con_boot_def)
  have n: "unat (CHARS ?q) = length cs"
    unfolding CHARS_unat [OF q] using assms by (simp add: unat_of_nat take_bit_nat_eq_self)
  have "q_list ?q = cs"
    unfolding q_list_def n using assms by (intro nth_equalityI) (simp_all add: nth_append)
  then show "con_chars (con_init (con_boot cs)) = cs" unfolding con_chars_def con_init_fields by (simp add: con_boot_def)
qed

lemma con_boot_queue_ok: "length cs < 1024 \<Longrightarrow> con_queue_ok (con_init (con_boot cs))"
  by (rule con_init_ok) (rule con_boot_ok)

lemma con_boot_st: "con_st (con_init (con_boot cs)) = 0"
  unfolding con_init_fields by (simp add: con_boot_def)

section \<open>Properties\<close>

text \<open>
  C25. \<open>con_init\<close> sets up 25 rows of 80 cells at the physical address 0xb8000 with the cursor in the upper
  left corner, and establishes the invariant of the console; it writes to video memory only.
\<close>

theorem con_init_correct:
  assumes "con_static s"
  shows "con_queue_ok (con_init s) \<and> cols (con_init s) = 80 \<and> lins (con_init s) = 25 \<and>
    origin (con_init s) = KVM_BASE + 0xb8000 \<and> vt_x (vt_abs (con_init s)) = 0 \<and> vt_y (vt_abs (con_init s)) = 0 \<and>
    con_chars (con_init s) = con_chars s \<and> (\<forall>x. x \<notin> vram (con_init s) \<longrightarrow> mem (con_init s) x = mem s x)"
  using con_init_ok [OF assms] con_init_mem [of _ s] by (simp add: cols_def lins_def con_init_fields(1-19) con_chars_def)

theorem con_init_correct_witness: "con_queue_ok (con_init (con_boot [104, 105]))"
  using con_init_correct [OF con_boot_ok(1), of "[104, 105]"] by simp

text \<open>
  C8. \<open>con_write\<close> takes every character off the write queue and returns: whatever the characters are and
  in whatever state the parser is, it does not index outside an array, it keeps the invariant of the
  console, and it writes to no byte outside the video memory.
\<close>

theorem con_write_total:
  assumes "con_queue_ok s"
  shows "\<exists>s'. con_write s = Inr s' \<and> con_queue_ok s' \<and> con_chars s' = [] \<and>
    (\<forall>x. x \<notin> vram s \<longrightarrow> mem s' x = mem s x) \<and> vram s' = vram s"
  using con_write_safe [OF assms] con_frame'_mem
  by (auto simp: con_frame'_def con_frame_def vram_def)

theorem con_write_total_witness:
  "\<exists>s'. con_write (con_init (con_boot [27, 91, 51, 59, 72])) = Inr s' \<and> con_chars s' = []"
  using con_write_total [OF con_boot_queue_ok, of "[27, 91, 51, 59, 72]"] by auto

text \<open>
  C11. Text without escapes goes to the screen as on the abstract terminal: characters are written with
  the attribute at the cursor, lines wrap and the scroll region scrolls, and carriage return, line
  feed, tabulator, backspace and delete move the cursor.
\<close>

theorem con_write_text:
  assumes "con_queue_ok s" "con_st s = 0" "27 \<notin> set (con_chars s)"
  shows "\<exists>s'. con_write s = Inr s' \<and> vt_abs s' = fold vt_char (con_chars s) (vt_abs s)"
  using con_write_text_ok [OF assms] by blast

theorem con_write_text_witness:
  "\<exists>s'. con_write (con_init (con_boot [72, 105, 13, 10, 33])) = Inr s' \<and>
    vt_abs s' = fold vt_char [72, 105, 13, 10, 33] (vt_abs (con_init (con_boot [72, 105, 13, 10, 33])))"
proof -
  have l: "length [72, 105, 13, 10, 33 :: u8] < 1024" by simp
  show ?thesis
    using con_write_text [OF con_boot_queue_ok [OF l] con_boot_st, unfolded con_boot_ok(2) [OF l]] by simp
qed

text \<open>
  C22. The control sequences that erase (\<open>J\<close>, \<open>K\<close>), insert (\<open>@\<close>, \<open>L\<close>) and delete (\<open>P\<close>, \<open>M\<close>) change the cells
  as on the abstract terminal, for every parameter.
\<close>

theorem csi_edit_refines:
  assumes "con_ok s"
  shows "vt_abs (csi_J n s) = vt_J n (vt_abs s) \<and> vt_abs (csi_K n s) = vt_K n (vt_abs s) \<and>
    vt_abs (csi_at n s) = (vt_insert_char ^^ vt_count (unat n) (cols s)) (vt_abs s) \<and>
    vt_abs (csi_P n s) = (vt_delete_char ^^ vt_count (unat n) (cols s)) (vt_abs s) \<and>
    vt_abs (csi_L n s) = (vt_insert_line ^^ vt_count (unat n) (lins s)) (vt_abs s) \<and>
    vt_abs (csi_M n s) = (vt_delete_line ^^ vt_count (unat n) (lins s)) (vt_abs s)"
  using vt_refine [OF assms] by blast

theorem csi_edit_refines_witness:
  "vt_abs (csi_L 2 (con_init (con_boot []))) = (vt_insert_line ^^ 2) (vt_abs (con_init (con_boot [])))"
proof -
  have ok: "con_ok (con_init (con_boot []))" by (rule con_queue_okD(1) [OF con_boot_queue_ok]) simp
  show ?thesis using csi_edit_refines [OF ok, of 2] by (simp add: vt_count_def lins_def con_init_fields)
qed

section \<open>Parsing control sequences\<close>

text \<open>The parameter that a digit adds to.\<close>

definition con_par_cur :: "'a con_state_scheme \<Rightarrow> u32" where
  "con_par_cur s = con_par s ! unat (con_npar s)"

lemma digit_u8:
  assumes "d < 10"
  shows "sint (48 + of_nat d :: u8) = 48 + int d" "scast (48 + of_nat d :: u8) = (48 + of_nat d :: u32)"
    "48 + of_nat d \<noteq> (59 :: u8)"
proof -
  have e: "48 + of_nat d = (of_nat (48 + d) :: u8)" by simp
  have u: "unat (of_nat (48 + d) :: u8) = 48 + d" using assms by (simp add: unat_of_nat take_bit_nat_eq_self del: of_nat_add)
  obtain n where n: "unat (of_nat (48 + d) :: u8) = n" "n < 256"
    "sint (of_nat (48 + d) :: u8) = (if n < 128 then int n else int n - 256)" by (rule sint_u8)
  have "sint (of_nat (48 + d) :: u8) = int (48 + d)" using n u assms by simp
  then show s: "sint (48 + of_nat d :: u8) = 48 + int d" unfolding e by simp
  have "scast (48 + of_nat d :: u8) = (of_int (sint (48 + of_nat d :: u8)) :: u32)" by (rule scast_eq)
  then show "scast (48 + of_nat d :: u8) = (48 + of_nat d :: u32)" unfolding s by simp
  show "48 + of_nat d \<noteq> (59 :: u8)"
  proof
    assume "48 + of_nat d = (59 :: u8)"
    then have "unat (of_nat (48 + d) :: u8) = unat (59 :: u8)" unfolding e by (rule arg_cong)
    then show False unfolding u using assms by simp
  qed
qed

lemma con_char_digit:
  assumes "con_st s = 3" "length (con_par s) = 16" "unat (con_npar s) < 16" "d < 10"
  shows "con_char (48 + of_nat d) s = Inr (s\<lparr>con_par := (con_par s)[unat (con_npar s) := 10 * con_par_cur s + of_nat d]\<rparr>)"
  using assms digit_u8 [OF assms(4)]
  by (simp add: con_char_def con_params_def par_upd_def con_par_cur_def)

lemma con_feed_dec:
  assumes "con_st s = 3" "length (con_par s) = 16" "unat (con_npar s) < 16" "con_par_cur s = 0"
  shows "con_feed (dec n) s = Inr (s\<lparr>con_par := (con_par s)[unat (con_npar s) := of_nat n]\<rparr>)"
proof (induction n rule: dec.induct)
  case (1 n)
  show ?case
  proof (cases "n < 10")
    case True
    then show ?thesis
      by (subst dec.simps) (simp only: if_True con_feed.simps con_char_digit [OF assms(1-3) True], simp add: assms(4))
  next
    case False
    let ?t = "s\<lparr>con_par := (con_par s)[unat (con_npar s) := of_nat (n div 10)]\<rparr>"
    have t: "con_st ?t = 3" "length (con_par ?t) = 16" "unat (con_npar ?t) < 16" using assms by simp_all
    have d: "n mod 10 < 10" by simp
    have c: "con_par_cur ?t = of_nat (n div 10)" using assms by (simp add: con_par_cur_def)
    have v: "(10 * of_nat (n div 10) + of_nat (n mod 10) :: u32) = of_nat n"
      by (metis div_mult_mod_eq mult.commute of_nat_add of_nat_mult of_nat_numeral)
    have "con_feed (dec n) s = con_feed [48 + of_nat (n mod 10)] ?t"
      using False 1 [OF False] by (subst dec.simps) (simp add: con_feed_append)
    also have "\<dots> = Inr (s\<lparr>con_par := (con_par s)[unat (con_npar s) := of_nat n]\<rparr>)"
      by (simp only: con_feed.simps con_char_digit [OF t d] c v) simp
    finally show ?thesis .
  qed
qed

lemma dec_Cons: "\<exists>k ds. k < 10 \<and> dec n = (48 + of_nat k) # ds"
proof (induction n rule: dec.induct)
  case (1 n)
  show ?case
  proof (cases "n < 10")
    case True
    then show ?thesis by (subst dec.simps) auto
  next
    case False
    then show ?thesis using 1 [OF False] by (subst dec.simps) auto
  qed
qed

text \<open>\<open>ESC [\<close> and the first digit.\<close>

definition con_csi :: "'a con_state_scheme \<Rightarrow> 'a con_state_scheme" where
  "con_csi s = s\<lparr>con_par := replicate NPAR 0, con_npar := 0, con_st := 3, con_ques := 0\<rparr>"

lemma digit_not_ques: "d < 10 \<Longrightarrow> 48 + of_nat d \<noteq> (63 :: u8)"
proof
  assume d: "d < 10" and "48 + of_nat d = (63 :: u8)"
  then have "sint (63 :: u8) = 48 + int d" using digit_u8(1) [OF d] by simp
  then show False using d by simp
qed

lemma con_feed_csi:
  assumes "con_st s = 0"
  shows "con_feed ([27, 91] @ dec n @ cs) s = con_feed (dec n @ cs) (con_csi s)"
proof -
  obtain k ds where k: "k < 10" "dec n = (48 + of_nat k) # ds" using dec_Cons by blast
  let ?s = "s\<lparr>con_st := 2\<rparr>"
  have "con_feed ([27, 91] @ dec n @ cs) s = con_feed (dec n @ cs) ?s"
    using assms by (simp add: con_char_def con_normal_def con_escape_def)
  also have "con_char (48 + of_nat k) ?s = con_char (48 + of_nat k) (con_csi s)"
    using digit_not_ques [OF k(1)] by (simp add: con_char_def con_start_def con_csi_def)
  then have "con_feed (dec n @ cs) ?s = con_feed (dec n @ cs) (con_csi s)" by (simp only: k(2) append_Cons con_feed.simps)
  finally show ?thesis .
qed

lemma vt_abs_parser [simp]:
  "vt_abs (s\<lparr>con_par := ps\<rparr>) = vt_abs s" "vt_abs (s\<lparr>con_npar := a\<rparr>) = vt_abs s" "vt_abs (s\<lparr>con_ques := a\<rparr>) = vt_abs s"
  by (simp_all add: vt_abs_def screen_def cols_def lins_def)

lemma con_ok_parser:
  "con_ok s \<Longrightarrow> length ps = 16 \<Longrightarrow> con_ok (s\<lparr>con_par := ps\<rparr>)"
  "con_ok s \<Longrightarrow> unat a < 16 \<Longrightarrow> con_ok (s\<lparr>con_npar := a\<rparr>)"
  by (simp_all add: con_ok_def con_cur_def cols_def lins_def)

lemma con_feed_position:
  assumes "con_ok s" "con_st s = 0" "1 \<le> r" "r \<le> lins s" "1 \<le> c" "c \<le> cols s"
  shows "\<exists>s'. con_feed ([27, 91] @ dec r @ [59] @ dec c @ [72]) s = Inr s' \<and> con_ok s' \<and> con_st s' = 0 \<and>
    vt_abs s' = (vt_abs s)\<lparr>vt_x := c - 1, vt_y := r - 1\<rparr> \<and> saved_x s' = saved_x s \<and> saved_y s' = saved_y s"
proof -
  note G = con_geomD [OF con_okD(1) [OF assms(1)]]
  define s0 where "s0 = con_csi s"
  define s1 where "s1 = s0\<lparr>con_par := (replicate 16 0)[0 := of_nat r]\<rparr>"
  define s2 where "s2 = s1\<lparr>con_npar := 1\<rparr>"
  define s3 where "s3 = s2\<lparr>con_par := (replicate 16 0)[0 := of_nat r, 1 := of_nat c]\<rparr>"
  define s4 where "s4 = s3\<lparr>con_st := 0, con_par := (replicate 16 0)[0 := of_nat r - 1, 1 := of_nat c - 1]\<rparr>"
  have f1: "con_feed (dec r) s0 = Inr s1"
    using con_feed_dec [of s0 r] by (simp add: s0_def s1_def con_csi_def con_par_cur_def)
  have f2: "con_char 59 s1 = Inr s2"
    by (simp add: con_char_def con_params_def s2_def s1_def s0_def con_csi_def)
  have f3: "con_feed (dec c) s2 = Inr s3"
    using con_feed_dec [of s2 c] by (simp add: s3_def s2_def s1_def s0_def con_csi_def con_par_cur_def)
  have rc: "(of_nat r :: u32) \<noteq> 0" "(of_nat c :: u32) \<noteq> 0" "unat (of_nat r :: u32) = r" "unat (of_nat c :: u32) = c"
    using assms(3-6) G(4,6) by (auto simp: word_unat_eq_iff unat_of_nat take_bit_nat_eq_self)
  have f4: "con_char 72 s3 = Inr (gotoxy (of_nat c - 1) (of_nat r - 1) s4)"
    using rc by (simp add: con_char_def con_params_def con_final_def par_dec_def par_nth_def par_upd_def Let_def
      list_update_swap [of "Suc 0" 0] s4_def s3_def s2_def s1_def s0_def con_csi_def)
  have ok4: "con_ok s4"
    using assms(1) by (simp add: s4_def s3_def s2_def s1_def s0_def con_csi_def con_ok_def con_cur_def cols_def lins_def)
  have v4: "vt_abs s4 = vt_abs s" by (simp add: s4_def s3_def s2_def s1_def s0_def con_csi_def)
  have u: "unat (of_nat r - 1 :: u32) = r - 1" "unat (of_nat c - 1 :: u32) = c - 1"
    using rc by (simp_all add: unat_minus1)
  have feed: "con_feed ([27, 91] @ dec r @ [59] @ dec c @ [72]) s = Inr (gotoxy (of_nat c - 1) (of_nat r - 1) s4)"
    unfolding con_feed_csi [OF assms(2)] s0_def [symmetric]
    by (simp only: con_feed_append f1 bindE_simps con_feed.simps f2 f3 f4)
  have st: "con_st (gotoxy a b s4) = 0" "saved_x (gotoxy a b s4) = saved_x s" "saved_y (gotoxy a b s4) = saved_y s" for a b
    by (simp_all add: gotoxy_def s4_def s3_def s2_def s1_def s0_def con_csi_def)
  have "vt_abs (gotoxy (of_nat c - 1) (of_nat r - 1) s4) = (vt_abs s)\<lparr>vt_x := c - 1, vt_y := r - 1\<rparr>"
  proof -
    have "c - 1 \<le> cols s" "r - 1 < lins s" using assms(3-6) by linarith+
    then show ?thesis unfolding vt_refine_motion(5) [OF ok4] v4 u by (simp add: vt_goto_def)
  qed
  then show ?thesis
    unfolding feed using con_keepsD(1) [OF con_keeps_gotoxy ok4] st by blast
qed

text \<open>
  C23. \<open>ESC [ r ; c H\<close> is parsed digit by digit and puts the cursor on row \<open>r\<close> and column \<open>c\<close>, both
  counted from one; the screen does not change.
\<close>

theorem cursor_position_sequence:
  assumes "con_ok s" "con_st s = 0" "1 \<le> r" "r \<le> lins s" "1 \<le> c" "c \<le> cols s"
  shows "\<exists>s'. con_feed ([27, 91] @ dec r @ [59] @ dec c @ [72]) s = Inr s' \<and> con_ok s' \<and> con_st s' = 0 \<and>
    vt_abs s' = (vt_abs s)\<lparr>vt_x := c - 1, vt_y := r - 1\<rparr>"
  using con_feed_position [OF assms] by blast

theorem cursor_position_sequence_witness:
  "\<exists>s'. con_feed ([27, 91] @ dec 12 @ [59] @ dec 40 @ [72]) (con_init (con_boot [])) = Inr s' \<and>
    vt_x (vt_abs s') = 39 \<and> vt_y (vt_abs s') = 11"
proof -
  have ok: "con_ok (con_init (con_boot []))" by (rule con_queue_okD(1) [OF con_boot_queue_ok]) simp
  have d: "lins (con_init (con_boot [])) = 25" "cols (con_init (con_boot [])) = 80"
    by (simp_all add: lins_def cols_def con_init_fields)
  have "1 \<le> (12 :: nat)" "(12 :: nat) \<le> 25" "1 \<le> (40 :: nat)" "(40 :: nat) \<le> 80" by simp_all
  from cursor_position_sequence [OF ok con_boot_st, unfolded d, OF this]
  obtain s' where s': "con_feed ([27, 91] @ dec 12 @ [59] @ dec 40 @ [72]) (con_init (con_boot [])) = Inr s'"
    "vt_abs s' = (vt_abs (con_init (con_boot [])))\<lparr>vt_x := 40 - 1, vt_y := 12 - 1\<rparr>" by blast
  have "vt_x (vt_abs s') = 39 \<and> vt_y (vt_abs s') = 11" unfolding s'(2) by (simp del: vt_abs_sel)
  then show ?thesis using s'(1) by blast
qed

text \<open>The state after \<open>ESC\<close> and a character without a meaning: the column decides.\<close>

definition esc_other :: "'a con_state_scheme \<Rightarrow> 'a con_state_scheme" where
  "esc_other s =
     (if con_x s = 55 then s\<lparr>saved_x := con_x s, saved_y := con_y s\<rparr>
      else if con_x s = 56 then gotoxy (saved_x s) (saved_y s) s else s)"

lemma con_feed_esc_other:
  assumes "con_ok s" "con_st s = 0" "c \<notin> {91, 69, 77, 68}"
  shows "con_feed [27, c] s = Inr (esc_other s)" "con_ok (esc_other s)" "con_st (esc_other s) = 0"
    "cols (esc_other s) = cols s" "lins (esc_other s) = lins s"
proof -
  have e: "s\<lparr>con_st := 0\<rparr> = s" using assms(2) by simp
  have "con_feed [27, c] s = Inr (esc_other (s\<lparr>con_st := 0\<rparr>))"
    using assms(2,3) by (simp add: con_char_def con_normal_def con_escape_def esc_other_def save_cur_def restore_cur_def)
  then show "con_feed [27, c] s = Inr (esc_other s)" unfolding e .
  show "con_ok (esc_other s)"
    using con_keepsD(1) [OF con_keeps_save_cur assms(1)] con_keepsD(1) [OF con_keeps_gotoxy assms(1)] assms(1)
    by (cases "con_x s = 55") (simp_all add: esc_other_def save_cur_def)
  show "con_st (esc_other s) = 0" "cols (esc_other s) = cols s" "lins (esc_other s) = lins s"
    using assms(2) by (simp_all add: esc_other_def gotoxy_def cols_def lins_def)
qed

lemma esc_other_abs:
  assumes "con_ok s"
  shows "vt_abs (esc_other s) =
    (if vt_x (vt_abs s) = 56 then vt_goto (unat (saved_x s)) (unat (saved_y s)) (vt_abs s) else vt_abs s)"
    "saved_x (esc_other s) = (if vt_x (vt_abs s) = 55 then con_x s else saved_x s)"
    "saved_y (esc_other s) = (if vt_x (vt_abs s) = 55 then con_y s else saved_y s)"
proof -
  have x: "con_x s = 55 \<longleftrightarrow> vt_x (vt_abs s) = 55" "con_x s = 56 \<longleftrightarrow> vt_x (vt_abs s) = 56"
    by (simp_all add: word_unat_eq_iff)
  have "vt_abs (s\<lparr>saved_x := a, saved_y := b\<rparr>) = vt_abs s" for a b
    by (simp add: vt_abs_def screen_def cols_def lins_def)
  then show "vt_abs (esc_other s) =
      (if vt_x (vt_abs s) = 56 then vt_goto (unat (saved_x s)) (unat (saved_y s)) (vt_abs s) else vt_abs s)"
    unfolding esc_other_def x using vt_refine_motion(5) [OF assms] by auto
  show "saved_x (esc_other s) = (if vt_x (vt_abs s) = 55 then con_x s else saved_x s)"
    "saved_y (esc_other s) = (if vt_x (vt_abs s) = 55 then con_y s else saved_y s)"
    unfolding esc_other_def x by (auto simp: gotoxy_def)
qed

text \<open>
  C27. \<open>ESC 7\<close> and \<open>ESC 8\<close> are meant to save and to restore the cursor, but the code compares the column of the
  cursor, and not the character, with \<open>7\<close> and \<open>8\<close>. So after \<open>ESC 7\<close>, a move to row \<open>r\<close> and column \<open>k\<close> (from
  one) and \<open>ESC 8\<close> the cursor is where the move left it, unless the move went to the column numbered 56 from
  zero. From there it goes back to its first place if that was in column 55, and otherwise to whatever place
  was saved before, if that is on the screen. All this holds for any two characters after the
  escapes other than the four with a meaning, \<open>[\<close>, \<open>E\<close>, \<open>M\<close> and \<open>D\<close>; the cells do not change.
\<close>

theorem escape_save_by_column:
  assumes "con_ok s" "con_st s = 0" "1 \<le> r" "r \<le> lins s" "1 \<le> k" "k \<le> cols s"
    and "c \<notin> {91, 69, 77, 68}" "c' \<notin> {91, 69, 77, 68}"
  shows "\<exists>s'. con_feed ([27, c] @ ([27, 91] @ dec r @ [59] @ dec k @ [72]) @ [27, c']) s = Inr s' \<and>
    con_ok s' \<and> con_st s' = 0 \<and>
    vt_abs s' =
      (let v = (vt_abs s)\<lparr>vt_x := k - 1, vt_y := r - 1\<rparr>
       in if k - 1 \<noteq> 56 then v
          else if vt_x (vt_abs s) = 55 then vt_abs s
          else vt_goto (unat (saved_x s)) (unat (saved_y s)) v)"
proof -
  note C = con_curD [OF con_okD(2) [OF assms(1)]]
  define u where "u = esc_other s"
  note U = con_feed_esc_other [OF assms(1,2,7), folded u_def] esc_other_abs [OF assms(1), folded u_def]
  obtain w where w: "con_feed ([27, 91] @ dec r @ [59] @ dec k @ [72]) u = Inr w" "con_ok w" "con_st w = 0"
      "vt_abs w = (vt_abs u)\<lparr>vt_x := k - 1, vt_y := r - 1\<rparr>" "saved_x w = saved_x u" "saved_y w = saved_y u"
    using con_feed_position [OF U(2,3), of r k] assms(3-6) U(4,5) by auto
  have "(vt_goto a b v)\<lparr>vt_x := x, vt_y := y\<rparr> = v\<lparr>vt_x := x, vt_y := y\<rparr>" for a b x y v by (simp add: vt_goto_def)
  then have v: "vt_abs w = (vt_abs s)\<lparr>vt_x := k - 1, vt_y := r - 1\<rparr>" unfolding w(4) U(6) by simp
  have x: "vt_x (vt_abs w) = k - 1" unfolding v by (simp del: vt_abs_sel)
  have home: "vt_goto (unat (con_x s)) (unat (con_y s)) ((vt_abs s)\<lparr>vt_x := a, vt_y := b\<rparr>) = vt_abs s" for a b
    using C(1,2) by (simp add: vt_goto_def vt_abs_def)
  have "vt_abs (esc_other w) = (let v = (vt_abs s)\<lparr>vt_x := k - 1, vt_y := r - 1\<rparr>
       in if k - 1 \<noteq> 56 then v else if vt_x (vt_abs s) = 55 then vt_abs s
          else vt_goto (unat (saved_x s)) (unat (saved_y s)) v)"
    unfolding esc_other_abs(1) [OF w(2)] x w(5,6) U(7,8) v Let_def using home by (simp del: vt_abs_sel)
  moreover have "con_feed ([27, c] @ ([27, 91] @ dec r @ [59] @ dec k @ [72]) @ [27, c']) s = Inr (esc_other w)"
    unfolding con_feed_append [of "[27, c]"] U(1) bindE_simps con_feed_append [of "[27, 91] @ _" "[27, c']"] w(1)
    by (rule con_feed_esc_other(1) [OF w(2,3) assms(8)])
  ultimately show ?thesis using con_feed_esc_other(2,3) [OF w(2,3) assms(8)] by blast
qed

text \<open>From the corner of the screen \<open>ESC 7\<close>, a move to row 12 and column 40 and \<open>ESC 8\<close>: the cursor is not restored.\<close>

theorem escape_save_by_column_witness:
  "\<exists>s'. con_feed ([27, 55] @ ([27, 91] @ dec 12 @ [59] @ dec 40 @ [72]) @ [27, 56]) (con_init (con_boot [])) = Inr s' \<and>
    vt_abs s' = (vt_abs (con_init (con_boot [])))\<lparr>vt_x := 39, vt_y := 11\<rparr>"
proof -
  have ok: "con_ok (con_init (con_boot []))" by (rule con_queue_okD(1) [OF con_boot_queue_ok]) simp
  have d: "lins (con_init (con_boot [])) = 25" "cols (con_init (con_boot [])) = 80"
    by (simp_all add: lins_def cols_def con_init_fields)
  have n: "1 \<le> (12 :: nat)" "(12 :: nat) \<le> 25" "1 \<le> (40 :: nat)" "(40 :: nat) \<le> 80" "(55 :: u8) \<notin> {91, 69, 77, 68}"
    "(56 :: u8) \<notin> {91, 69, 77, 68}" by simp_all
  have v: "(40 :: nat) - 1 = 39" "(12 :: nat) - 1 = 11" "(39 :: nat) \<noteq> 56" by simp_all
  from escape_save_by_column [OF ok con_boot_st, unfolded d, OF n, unfolded Let_def v] show ?thesis by (auto simp del: vt_abs_sel)
qed

section \<open>The keyboard\<close>

definition typed :: "u8 list \<Rightarrow> u8 list" where
  "typed cs = concat (map (\<lambda>c. if c = 0 then [] else if c = 13 then [13, 13] else [c]) cs)"

lemma typed_simps [simp]:
  "typed [] = []" "typed (c # cs) = (if c = 0 then [] else if c = 13 then [13, 13] else [c]) @ typed cs"
  by (simp_all add: typed_def)

lemma length_typed: "length (typed cs) \<le> 2 * length cs"
  by (induction cs) simp_all

lemma bindE_put_nil: "bindE r (put_all p []) = r" "bindE r Inr = r" "bindE r (\<lambda>q. bindE (p c q) (put_all p [])) = bindE r (p c)"
proof -
  show n: "bindE r (put_all p []) = r" for r by (cases r) simp_all
  show "bindE r Inr = r" by (cases r) simp_all
  show "bindE r (\<lambda>q. bindE (p c q) (put_all p [])) = bindE r (p c)" by (simp add: n)
qed

lemma put_all_Cons: "put_all p (c # cs) = (\<lambda>q. bindE (p c q) (put_all p cs))"
  by (rule ext) simp

lemma kbd_put_all:
  "q_ok q \<Longrightarrow> length (q_list q) + length (typed cs) \<le> 1023 \<Longrightarrow>
    \<exists>q'. put_all kbd_put cs q = Inr q' \<and> q_ok q' \<and> q_list q' = q_list q @ typed cs"
proof (induction cs arbitrary: q)
  case (Cons c cs)
  have "put_all PUTCH (typed [c]) q = kbd_put c q"
    unfolding typed_simps append_Nil2 kbd_put_def by (auto simp: put_all_Cons bindE_put_nil)
  moreover obtain q1 where "put_all PUTCH (typed [c]) q = Inr q1" "q_ok q1" "q_list q1 = q_list q @ typed [c]"
    using tq.put_all_ok [OF Cons.prems(1), of "typed [c]"] Cons.prems(2) by (auto split: if_splits)
  ultimately have q1: "kbd_put c q = Inr q1" "q_ok q1" "q_list q1 = q_list q @ typed [c]" by simp_all
  have "length (q_list q1) + length (typed cs) \<le> 1023" unfolding q1(3) using Cons.prems(2) by (auto split: if_splits)
  from Cons.IH [OF q1(2) this] show ?case by (auto simp: q1(1,3))
qed simp

lemma length_reg_bytes [simp]: "length (reg_bytes r) = 4"
  by (simp add: reg_bytes_def)

text \<open>What the keys of the cursor block do on the abstract terminal, by the letter that they send.\<close>

definition vt_move_key :: "u8 \<Rightarrow> vt \<Rightarrow> vt" where
  "vt_move_key c v =
     (if c = 65 then v\<lparr>vt_y := vt_y v - 1\<rparr>
      else if c = 66 then v\<lparr>vt_y := min (vt_y v + 1) (vt_lins v - 1)\<rparr>
      else if c = 67 then v\<lparr>vt_x := min (vt_x v + 1) (vt_cols v)\<rparr>
      else if c = 68 then v\<lparr>vt_x := vt_x v - 1\<rparr>
      else if c = 71 then v\<lparr>vt_x := 0\<rparr>
      else if c = 72 then v\<lparr>vt_x := 0, vt_y := 0\<rparr>
      else v)"

lemma con_feed_text:
  "con_ok s \<Longrightarrow> con_st s = 0 \<Longrightarrow> 27 \<notin> set cs \<Longrightarrow>
    \<exists>t. con_feed cs s = Inr t \<and> con_st t = 0 \<and> vt_abs t = fold vt_char cs (vt_abs s)"
proof (induction cs arbitrary: s)
  case (Cons c cs)
  then have c: "c \<noteq> 27" "27 \<notin> set cs" by auto
  have "con_ok (con_normal c s)" by (rule con_keepsD(1) [OF con_keeps_normal Cons.prems(1)])
  moreover have "con_st (con_normal c s) = 0" using con_st_normal [OF con_okD(1) [OF Cons.prems(1)] c(1)] Cons.prems(2) by simp
  ultimately obtain t where "con_feed cs (con_normal c s) = Inr t" "con_st t = 0"
      "vt_abs t = fold vt_char cs (vt_abs (con_normal c s))"
    using Cons.IH [OF _ _ c(2)] by blast
  then show ?case using vt_refine_normal [OF Cons.prems(1) c(1)] by (simp add: con_char_normal [OF Cons.prems(2)])
qed simp

lemma con_csi_ok: "con_ok s \<Longrightarrow> con_ok ((con_csi s)\<lparr>con_st := 0\<rparr>)" "vt_abs (con_csi s) = vt_abs s"
  by (simp_all add: con_csi_def con_ok_def con_cur_def cols_def lins_def)

lemma con_feed_bracket:
  assumes "con_st s = 0" "c \<noteq> 63"
  shows "con_feed (27 # 91 # c # cs) s = bindE (con_params c (con_csi s)) (con_feed cs)"
  using assms by (simp add: con_char_def con_normal_def con_escape_def con_start_def con_csi_def)

lemma vt_goto_key:
  assumes "vt_x v \<le> vt_cols v" "vt_y v < vt_lins v" "vt_cols v \<le> 1024" "vt_lins v \<le> 1024"
  shows "vt_goto (vt_x v) (if vt_y v = 0 then 2 ^ 32 - 1 else vt_y v - 1) v = v\<lparr>vt_y := vt_y v - 1\<rparr>"
    "vt_goto (vt_x v) (Suc (vt_y v)) v = v\<lparr>vt_y := min (vt_y v + 1) (vt_lins v - 1)\<rparr>"
    "vt_goto (Suc (vt_x v)) (vt_y v) v = v\<lparr>vt_x := min (vt_x v + 1) (vt_cols v)\<rparr>"
    "vt_goto (if vt_x v = 0 then 2 ^ 32 - 1 else vt_x v - 1) (vt_y v) v = v\<lparr>vt_x := vt_x v - 1\<rparr>"
    "vt_goto 0 (vt_y v) v = v\<lparr>vt_x := 0\<rparr>" "vt_goto 0 0 v = v\<lparr>vt_x := 0, vt_y := 0\<rparr>"
  using assms by (cases v, auto simp: vt_goto_def)+

lemma con_feed_move_key:
  assumes ok: "con_ok s" and st: "con_st s = 0" and c: "c \<in> {65, 66, 67, 68, 71, 72, 89}"
  shows "\<exists>t. con_feed [27, 91, c] s = Inr t \<and> con_st t = 0 \<and> vt_abs t = vt_move_key c (vt_abs s)"
proof -
  define b where "b = (con_csi s)\<lparr>con_st := 0\<rparr>"
  define d where "d = b\<lparr>con_par := (replicate 16 0)[0 := 1]\<rparr>"
  have kb: "con_ok b" unfolding b_def by (rule con_csi_ok(1) [OF ok])
  then have kd: "con_ok d" unfolding d_def by (intro con_ok_parser(1)) simp_all
  have k: "vt_abs b = vt_abs s" "vt_abs d = vt_abs s" "con_st b = 0" "con_st d = 0"
    "cols b = cols s" "lins b = lins s" "con_x d = con_x s" "con_y d = con_y s" "con_x b = con_x s" "con_y b = con_y s"
    using con_csi_ok(2) [of s] unfolding d_def b_def by (simp_all add: con_csi_def cols_def lins_def)
  note C = con_curD [OF con_okD(2) [OF ok]] and G = con_geomD [OF con_okD(1) [OF ok]]
  note go = vt_refine_motion(5) [OF kb] vt_refine_motion(5) [OF kd]
  have st: "con_st (gotoxy x y b) = 0" "con_st (gotoxy x y d) = 0" for x y using k(3,4) by (simp_all add: gotoxy_def)
  have par: "par_nth 0 b = 0" "par_dec 0 b = b" "par_dec (Suc 0) b = b" "par_inc 0 b = d" "par_nth 0 d = 1" "par_nth (Suc 0) b = 0"
    by (simp_all add: par_nth_def par_dec_def par_inc_def par_upd_def d_def b_def con_csi_def)
  have f: "con_feed [27, 91, c] s = con_final c b"
    using c con_feed_bracket [OF assms(2), of c "[]"]
    by (auto simp: con_params_def con_final_def b_def con_csi_def bindE_def split: sum.split)
  show ?thesis
  proof -
    have up: "unat (con_y s - 1) = (if unat (con_y s) = 0 then 2 ^ 32 - 1 else unat (con_y s) - 1)"
      "unat (con_x s - 1) = (if unat (con_x s) = 0 then 2 ^ 32 - 1 else unat (con_x s) - 1)"
      by (auto simp: unat_minus1 unat_eq_0 unsigned_minus_1_eq_mask mask_eq_exp_minus_1)
    have dn: "unat (con_y s + 1) = unat (con_y s) + 1" "unat (con_x s + 1) = unat (con_x s) + 1"
    proof -
      show "unat (con_y s + 1) = unat (con_y s) + 1" by (rule unat_plus1) (use C(2) G(6) in linarith)
      show "unat (con_x s + 1) = unat (con_x s) + 1" by (rule unat_plus1) (use C(1) G(4) in linarith)
    qed
    have v: "vt_x (vt_abs s) \<le> vt_cols (vt_abs s)" "vt_y (vt_abs s) < vt_lins (vt_abs s)"
      "vt_cols (vt_abs s) \<le> 1024" "vt_lins (vt_abs s) \<le> 1024" using C(1,2) G(4,6) by simp_all
    note key = vt_goto_key [OF v, unfolded vt_abs_sel, folded up]
    have e: "b\<lparr>con_st := 0\<rparr> = b" by (simp add: b_def)
    show ?thesis
      using c unfolding f
      by (elim insertE emptyE; simp add: con_final_def Let_def e par k st go dn key vt_move_key_def)
  qed
qed

text \<open>The other keys: \<open>ESC [ n ~\<close> does nothing, and of \<open>ESC [ [ c\<close> the last character is shown.\<close>

lemma con_feed_page_key:
  assumes "con_st s = 0" "n < 10"
  shows "\<exists>t. con_feed [27, 91, 48 + of_nat n, 126] s = Inr t \<and> con_st t = 0 \<and> vt_abs t = vt_abs s"
proof -
  have "con_csi s = (con_csi s)\<lparr>con_st := 3\<rparr>" by (simp add: con_csi_def)
  then have "con_params (48 + of_nat n) (con_csi s) = con_char (48 + of_nat n) (con_csi s)" by (simp add: con_char_def con_csi_def)
  also have "\<dots> = Inr ((con_csi s)\<lparr>con_par := (replicate 16 0)[0 := of_nat n]\<rparr>)"
    using con_char_digit [of "con_csi s" n] assms(2) by (simp add: con_csi_def con_par_cur_def)
  finally show ?thesis
    using con_feed_bracket [OF assms(1) digit_not_ques [OF assms(2)], of "[126]"]
    by (simp add: con_char_def con_params_def con_final_def con_csi_def)
qed

lemma con_feed_func_key:
  assumes "con_ok s" "con_st s = 0" "c \<noteq> 27"
  shows "\<exists>t. con_feed [27, 91, 91, c] s = Inr t \<and> con_st t = 0 \<and> vt_abs t = vt_char c (vt_abs s)"
proof -
  define b where "b = (con_csi s)\<lparr>con_st := 0\<rparr>"
  have b: "con_ok b" "con_st b = 0" "vt_abs b = vt_abs s"
    using con_csi_ok [of s] assms(1) by (simp_all add: b_def)
  have "con_params 91 (con_csi s) = Inr b" by (simp add: con_params_def con_final_def b_def)
  then have "con_feed [27, 91, 91, c] s = con_feed [c] b" using con_feed_bracket [OF assms(2), of 91 "[c]"] by simp
  then show ?thesis using con_feed_text [OF b(1,2), of "[c]"] assms(3) b(3) by simp
qed

text \<open>
  C24. The keyboard interrupt hands eight bytes to \<open>cput_queue\<close>. Whatever they are and in whatever state the
  parser is, they fit into the empty queue without the zeros, the console handles them one by one in
  their order, the queue is empty again when the call returns, and no memory but the video memory is
  written. What is seen depends on the key if the parser is in its first state: bytes without an escape
  are shown as text (carriage return twice); the keys of the cursor block move the cursor or do nothing;
  a function key shows its letter; the escape key shows nothing and leaves the parser after an escape.
\<close>

theorem keyboard_echo:
  fixes eax ebx :: u32
  assumes "con_queue_ok s" "con_chars s = []"
  defines "bs \<equiv> typed (reg_bytes eax @ reg_bytes ebx)"
  shows "\<exists>s' t. cput_queue eax ebx s = Inr s' \<and> con_feed bs s = Inr t \<and> s' = t\<lparr>tty := tty s', io := io s'\<rparr> \<and>
    con_queue_ok s' \<and> con_chars s' = [] \<and> (\<forall>x. x \<notin> vram s \<longrightarrow> mem s' x = mem s x) \<and>
    (con_st s = 0 \<longrightarrow>
      (27 \<notin> set bs \<longrightarrow> con_st s' = 0 \<and> vt_abs s' = fold vt_char bs (vt_abs s)) \<and>
      (\<forall>c\<in>{65, 66, 67, 68, 71, 72, 89}. bs = [27, 91, c] \<longrightarrow> con_st s' = 0 \<and> vt_abs s' = vt_move_key c (vt_abs s)) \<and>
      (\<forall>n<10. bs = [27, 91, 48 + of_nat n, 126] \<longrightarrow> con_st s' = 0 \<and> vt_abs s' = vt_abs s) \<and>
      (\<forall>c. c \<noteq> 27 \<longrightarrow> bs = [27, 91, 91, c] \<longrightarrow> con_st s' = 0 \<and> vt_abs s' = vt_char c (vt_abs s)) \<and>
      (bs = [27] \<longrightarrow> con_st s' = 1 \<and> vt_abs s' = vt_abs s))"
proof -
  have "length bs \<le> 16" using length_typed [of "reg_bytes eax @ reg_bytes ebx"] by (simp add: bs_def)
  then obtain q where q: "put_all kbd_put (reg_bytes eax @ reg_bytes ebx) (write_q (tty s)) = Inr q" "q_ok q" "q_list q = bs"
    using kbd_put_all [of "write_q (tty s)" "reg_bytes eax @ reg_bytes ebx", folded bs_def] assms(1,2)
    by (auto simp: con_queue_ok_def con_chars_def simp del: length_q_list)
  let ?t = "s\<lparr>tty := (tty s)\<lparr>write_q := q\<rparr>\<rparr>"
  have t: "con_queue_ok ?t" "con_chars ?t = bs" using assms(1) q by (simp_all add: con_queue_ok_def con_chars_def)
  obtain s' u where s': "con_write ?t = Inr s'" "con_queue_ok s'" "con_chars s' = []" "con_frame' ?t s'"
      "con_feed bs ?t = Inr u" "s' = u\<lparr>tty := tty s', io := io s'\<rparr>"
    using con_write_feed [OF t(1)] unfolding t(2) by blast
  obtain w where w: "con_feed bs s = Inr w" "u = w\<lparr>tty := (tty s)\<lparr>write_q := q\<rparr>\<rparr>"
    using s'(5) unfolding con_tty_feed by (cases "con_feed bs s") auto
  have e: "s' = w\<lparr>tty := tty s', io := io s'\<rparr>" by (subst s'(6)) (simp add: w(2))
  have "con_st (w\<lparr>tty := a, io := b\<rparr>) = con_st w" "vt_abs (w\<lparr>tty := a, io := b\<rparr>) = vt_abs w" for a b by simp_all
  then have v: "con_st s' = con_st w" "vt_abs s' = vt_abs w" using e by metis+
  have ok: "con_ok s" by (rule con_queue_okD(1) [OF assms(1)])
  have m: "\<forall>x. x \<notin> vram s \<longrightarrow> mem s' x = mem s x" using con_frame'_mem [OF s'(4)] by (simp add: vram_def)
  have "con_st s' = 0 \<and> vt_abs s' = fold vt_char bs (vt_abs s)" if "con_st s = 0" "27 \<notin> set bs"
    using con_feed_text [OF ok that] w(1) v by simp
  moreover have "con_st s' = 0 \<and> vt_abs s' = vt_move_key c (vt_abs s)"
    if "con_st s = 0" "c \<in> {65, 66, 67, 68, 71, 72, 89}" "bs = [27, 91, c]" for c
    using con_feed_move_key [OF ok that(1,2)] w(1) v unfolding that(3) by simp
  moreover have "con_st s' = 0 \<and> vt_abs s' = vt_abs s" if "con_st s = 0" "n < 10" "bs = [27, 91, 48 + of_nat n, 126]" for n
    using con_feed_page_key [OF that(1,2)] w(1) v unfolding that(3) by auto
  moreover have "con_st s' = 0 \<and> vt_abs s' = vt_char c (vt_abs s)"
    if "con_st s = 0" "c \<noteq> 27" "bs = [27, 91, 91, c]" for c
    using con_feed_func_key [OF ok that(1,2)] w(1) v unfolding that(3) by auto
  moreover have "con_st s' = 1 \<and> vt_abs s' = vt_abs s" if "con_st s = 0" "bs = [27]"
    using w(1) v that by (auto simp: con_char_def con_normal_def)
  moreover have "cput_queue eax ebx s = Inr s'" unfolding cput_queue_def q(1) bindE_simps by (rule s'(1))
  ultimately show ?thesis using w(1) e s'(2,3) m by blast
qed

text \<open>The letter \<open>a\<close>, and the key that moves the cursor to the right.\<close>

theorem keyboard_echo_witness:
  "\<exists>s'. cput_queue 0x61 0 (con_init (con_boot [])) = Inr s' \<and>
    vt_abs s' = vt_print 0x61 (vt_abs (con_init (con_boot []))) \<and>
    (\<exists>s'. cput_queue 0x00435b1b 0 (con_init (con_boot [])) = Inr s' \<and>
      vt_abs s' = vt_move_key 67 (vt_abs (con_init (con_boot []))))"
proof -
  have b: "typed (reg_bytes 0x61 @ reg_bytes 0) = [0x61]" "typed (reg_bytes 0x00435b1b @ reg_bytes 0) = [27, 91, 67]"
    by (simp_all add: reg_bytes_def)
  have e: "con_chars (con_init (con_boot [])) = []" by (rule con_boot_ok(2)) simp
  have q: "con_queue_ok (con_init (con_boot []))" by (rule con_boot_queue_ok) simp
  have "\<exists>s'. cput_queue 0x61 0 (con_init (con_boot [])) = Inr s' \<and>
      vt_abs s' = vt_print 0x61 (vt_abs (con_init (con_boot [])))"
    using keyboard_echo [OF q e, of "0x61" 0] con_boot_st [of "[]"] unfolding b(1) by (auto simp: vt_char_def)
  moreover have "\<exists>s'. cput_queue 0x00435b1b 0 (con_init (con_boot [])) = Inr s' \<and>
      vt_abs s' = vt_move_key 67 (vt_abs (con_init (con_boot [])))"
    using keyboard_echo [OF q e, of "0x00435b1b" 0] con_boot_st [of "[]"] unfolding b(2) by auto
  ultimately show ?thesis by blast
qed

end
