(* ===== verification/CType.thy ===== *)
theory CType
  imports Machine
begin

text \<open>
  The character classes of \<open>include/ctype.h\<close>, which test ranges by one unsigned comparison, against
  their definition by ranges of signed integers; and the bit operations of \<open>include/bit.h\<close>. An \<open>int\<close>
  is a 32-bit word read by \<open>sint\<close>; a truth value of C is a truth value of HOL.
\<close>

section \<open>Character classes\<close>

definition isupper :: "u32 \<Rightarrow> bool" where
  "isupper ch \<longleftrightarrow> ch - 65 < 26"

definition isalnum :: "u32 \<Rightarrow> bool" where
  "isalnum ch \<longleftrightarrow> (ch OR 0x20) - 97 < 26 \<or> ch - 48 < 10"

definition isalpha :: "u32 \<Rightarrow> bool" where
  "isalpha ch \<longleftrightarrow> (ch OR 0x20) - 97 < 26"

definition isascii :: "u32 \<Rightarrow> bool" where
  "isascii ch \<longleftrightarrow> ch < 128"

definition isdigit :: "u32 \<Rightarrow> bool" where
  "isdigit ch \<longleftrightarrow> ch - 48 < 10"

definition isgraph :: "u32 \<Rightarrow> bool" where
  "isgraph ch \<longleftrightarrow> ch - 33 < 127 - 33"

definition islower :: "u32 \<Rightarrow> bool" where
  "islower ch \<longleftrightarrow> ch - 97 < 26"

definition isprint :: "u32 \<Rightarrow> bool" where
  "isprint ch \<longleftrightarrow> (let ch = ch AND 0x7f in sint ch \<ge> 32 \<and> sint ch < 127)"

definition isspace :: "u32 \<Rightarrow> bool" where
  "isspace ch \<longleftrightarrow> ch - 9 < 5 \<or> ch = 32"

definition tolower :: "u32 \<Rightarrow> u32" where
  "tolower ch = (if ch - 65 < 26 then ch + (97 - 65) else ch)"

definition toupper :: "u32 \<Rightarrow> u32" where
  "toupper ch = (if ch - 97 < 26 then ch + (65 - 97) else ch)"

section \<open>Bits of a word in memory\<close>

definition setbit :: "addr \<Rightarrow> u32 \<Rightarrow> memory \<Rightarrow> memory" where
  "setbit w flags m = st32 m w (ld32 m w OR flags)"

definition clrbit :: "addr \<Rightarrow> u32 \<Rightarrow> memory \<Rightarrow> memory" where
  "clrbit w flags m = st32 m w (ld32 m w AND NOT flags)"

definition tstbit :: "addr \<Rightarrow> u32 \<Rightarrow> memory \<Rightarrow> u32" where
  "tstbit w flags m = ld32 m w AND flags"

definition tstclr :: "addr \<Rightarrow> u32 \<Rightarrow> memory \<Rightarrow> u32 \<times> memory" where
  "tstclr w flags m = (let res = tstbit w flags m in (res, clrbit w flags m))"

text \<open>
  \<open>BITWISE_GETWORD\<close> and \<open>BITWISE_GETBIT\<close> are not defined in the sources: they are the arguments
  \<open>getword\<close> and \<open>getbit\<close>.
\<close>

definition check_and_clear_bit :: "(u32 \<Rightarrow> u32) \<Rightarrow> (u32 \<Rightarrow> u32) \<Rightarrow> addr \<Rightarrow> u32 \<Rightarrow> memory \<Rightarrow> int \<times> memory" where
  "check_and_clear_bit getword getbit word b m =
     (let a = word + 4 * getword b
      in if ld32 m a AND getbit b \<noteq> 0 then (0, st32 m a (ld32 m a AND NOT (getbit b))) else (- 1, m))"

definition check_and_set_bit :: "(u32 \<Rightarrow> u32) \<Rightarrow> (u32 \<Rightarrow> u32) \<Rightarrow> addr \<Rightarrow> u32 \<Rightarrow> memory \<Rightarrow> int \<times> memory" where
  "check_and_set_bit getword getbit word b m =
     (let a = word + 4 * getword b
      in if ld32 m a AND getbit b = 0 then (0, st32 m a (ld32 m a OR getbit b)) else (- 1, m))"

section \<open>Ranges\<close>

lemma sint_cases_32:
  fixes c :: u32
  obtains n where "c = of_nat n" "n < 2 ^ 32" "unat c = n" "sint c = (if n < 2 ^ 31 then int n else int n - 2 ^ 32)"
proof -
  obtain n where n: "unat c = n" "uint c = int n" using uint_nat by blast
  have s: "sint c = signed_take_bit 31 (int n)" using n(2) by (simp add: sint_uint)
  have lt: "n < 2 ^ 32" using n(1) unsigned_less [of c, where 'a = nat] by simp
  have neg: "signed_take_bit 31 (int n) = signed_take_bit 31 (int n - 2 ^ 32)"
    using signed_take_bit_eq_iff_take_bit_eq [of 31 "int n" "int n - 2 ^ 32"] by (simp add: take_bit_eq_mod mod_simps)
  have "sint c = (if n < 2 ^ 31 then int n else int n - 2 ^ 32)"
  proof (cases "n < 2 ^ 31")
    case True
    then show ?thesis unfolding s by (simp add: signed_take_bit_int_eq_self)
  next
    case False
    then have "signed_take_bit 31 (int n - 2 ^ 32) = int n - 2 ^ 32"
      using lt by (intro signed_take_bit_int_eq_self) simp_all
    then show ?thesis unfolding s neg using False by simp
  qed
  moreover have "c = of_nat n" using n(1) by (metis of_nat_unat ucast_id)
  ultimately show thesis using that n(1) lt by blast
qed

text \<open>\<open>ch - a < k\<close> on unsigned integers is a range test.\<close>

lemma unsigned_range:
  fixes ch a k :: u32
  assumes "unat a + unat k \<le> 2 ^ 31"
  shows "ch - a < k \<longleftrightarrow> sint a \<le> sint ch \<and> sint ch < sint a + int (unat k)"
proof -
  obtain n where n: "n < 2 ^ 32" "unat ch = n" "sint ch = (if n < 2 ^ 31 then int n else int n - 2 ^ 32)"
    by (rule sint_cases_32 [of ch]) blast
  obtain b where b: "b < 2 ^ 32" "unat a = b" "sint a = (if b < 2 ^ 31 then int b else int b - 2 ^ 32)"
    by (rule sint_cases_32 [of a]) blast
  obtain l where l: "unat k = l" by blast
  have s: "unat (ch - a) = (if b \<le> n then n - b else n + 2 ^ 32 - b)"
    unfolding unat_sub_if_size n(2) b(2) by (simp add: word_size)
  show ?thesis
    unfolding word_less_nat_alt s n(3) b(3) l using assms n(1) b(1) unfolding b(2) l
    by (cases "l = 0") (auto split: if_splits)
qed

lemma in_range:
  fixes ch a k :: u32
  assumes "unat a + unat k \<le> 2 ^ 31" "sint a = lo" "lo + int (unat k) = hi + 1"
  shows "ch - a < k \<longleftrightarrow> sint ch \<in> {lo..hi}"
  using unsigned_range [OF assms(1), of ch] assms(2,3) by auto

lemma bit5: "bit ch 5 \<longleftrightarrow> odd (unat ch div 32)" for ch :: u32
proof -
  have "bit ch 5 \<longleftrightarrow> bit (unat ch) 5" by (simp add: bit_unsigned_iff)
  then show ?thesis by (simp add: bit_iff_odd)
qed

lemma range_of_unsigned: "ch - of_nat a < of_nat k \<longleftrightarrow> a \<le> unat ch \<and> unat ch < a + k"
  if "a + k \<le> 2 ^ 31" for ch :: u32
proof -
  have u: "unat (of_nat a :: u32) = a" "unat (of_nat k :: u32) = k" using that by (simp_all add: unat_of_nat_32)
  have lt: "unat ch < 2 ^ 32" using unsigned_less [of ch, where 'a = nat] by simp
  have s: "unat (ch - of_nat a) = (if a \<le> unat ch then unat ch - a else unat ch + 2 ^ 32 - a)"
    unfolding unat_sub_if_size u by (simp add: word_size)
  show ?thesis unfolding word_less_nat_alt s u using that lt by (auto split: if_splits)
qed

lemma letter_range:
  "ch - 97 < 26 \<longleftrightarrow> 97 \<le> unat ch \<and> unat ch < 123" "ch - 65 < 26 \<longleftrightarrow> 65 \<le> unat ch \<and> unat ch < 91"
  for ch :: u32
  using range_of_unsigned [of 97 26 ch] range_of_unsigned [of 65 26 ch] by simp_all

text \<open>Setting bit 5 maps upper case letters to lower case letters and no other character to a letter.\<close>

lemma or_0x20:
  fixes ch :: u32
  shows "(ch OR 0x20) - 97 < 26 \<longleftrightarrow> ch - 97 < 26 \<or> ch - 65 < 26"
proof (cases "bit ch 5")
  case True
  then have "ch OR 0x20 = ch" by (intro bit_word_eqI) (auto simp: bit_simps bit_numeral_rec numeral_eq_Suc less_Suc_eq)
  moreover have "\<not> ch - 65 < 26"
  proof
    assume "ch - 65 < 26"
    then have "unat ch div 32 = 2" by (intro div_nat_eqI) (simp_all add: letter_range)
    then show False using True by (simp add: bit5)
  qed
  ultimately show ?thesis by simp
next
  case False
  have z: "ch AND 0x20 = 0"
  proof (rule bit_word_eqI)
    fix n
    have "bit (0x20 :: u32) n \<longleftrightarrow> n = 5"
      using bit_push_bit_iff [of 5 "1 :: u32" n] by (auto simp: bit_simps push_bit_eq_mult)
    then show "bit (ch AND 0x20) n \<longleftrightarrow> bit (0 :: u32) n" using False by (auto simp: bit_simps)
  qed
  then have "ch OR 0x20 = ch + 0x20" by (metis add_0 add.right_neutral word_plus_and_or)
  then have "(ch OR 0x20) - 97 = ch - 65" by simp
  moreover have "\<not> ch - 97 < 26"
  proof
    assume "ch - 97 < 26"
    then have "unat ch div 32 = 3" by (intro div_nat_eqI) (simp_all add: letter_range)
    then show False using False by (simp add: bit5)
  qed
  ultimately show ?thesis by simp
qed

lemma isprint_low: "isprint ch \<longleftrightarrow> 32 \<le> unat ch mod 128 \<and> unat ch mod 128 < 127"
proof -
  have u: "unat (ch AND 0x7f) = unat ch mod 128" using unat_and_mask [of ch 7] by (simp add: mask_eq_exp_minus_1)
  obtain n where n: "unat (ch AND 0x7f) = n" "sint (ch AND 0x7f) = (if n < 2 ^ 31 then int n else int n - 2 ^ 32)"
    by (rule sint_cases_32 [of "ch AND 0x7f"]) blast
  have "n < 128" unfolding n(1) [symmetric] u by simp
  then have "sint (ch AND 0x7f) = int n" using n(2) by simp
  then show ?thesis unfolding isprint_def Let_def u [symmetric] n(1) by auto
qed

section \<open>Properties\<close>

text \<open>
  Each class is the range of signed integers it stands for, for every value of an \<open>int\<close>, negative
  ones included.
\<close>

theorem ctype_ranges:
  "isupper ch = (sint ch \<in> {65..90}) \<and> islower ch = (sint ch \<in> {97..122}) \<and> isdigit ch = (sint ch \<in> {48..57}) \<and>
    isalpha ch = (sint ch \<in> {65..90} \<union> {97..122}) \<and> isalnum ch = (sint ch \<in> {48..57} \<union> {65..90} \<union> {97..122}) \<and>
    isgraph ch = (sint ch \<in> {33..126}) \<and> isspace ch = (sint ch \<in> {9..13} \<union> {32}) \<and> isascii ch = (sint ch \<in> {0..127})"
proof -
  have r: "ch - 65 < 26 \<longleftrightarrow> sint ch \<in> {65..90}" "ch - 97 < 26 \<longleftrightarrow> sint ch \<in> {97..122}"
    "ch - 48 < 10 \<longleftrightarrow> sint ch \<in> {48..57}" "ch - 33 < 127 - 33 \<longleftrightarrow> sint ch \<in> {33..126}"
    "ch - 9 < 5 \<longleftrightarrow> sint ch \<in> {9..13}"
    by (rule in_range; simp)+
  have "ch < 128 \<longleftrightarrow> sint ch \<in> {0..127}" using in_range [of 0 128 0 127 ch] by simp
  moreover have "ch = 32 \<longleftrightarrow> sint ch = 32"
  proof
    assume "sint ch = 32"
    then have "sint ch = sint (32 :: u32)" by simp
    then show "ch = 32" by (simp only: signed_word_eqI)
  qed simp
  ultimately show ?thesis
    unfolding isupper_def islower_def isdigit_def isalpha_def isalnum_def isgraph_def isspace_def isascii_def or_0x20 r
      Un_iff singleton_iff by blast
qed

text \<open>
  \<open>isprint\<close> looks at the low seven bits only: outside of ASCII it calls a character printable when
  the one 128 below it is, unlike \<open>isgraph\<close>.
\<close>

theorem isprint_seven_bits:
  "isprint ch = (unat ch mod 128 \<in> {32..126}) \<and> isprint 0xC1 \<and> \<not> isgraph 0xC1"
proof -
  have "isprint 0xC1" by (simp add: isprint_low)
  moreover have "\<not> isgraph 0xC1" by (simp add: isgraph_def)
  ultimately show ?thesis using isprint_low [of ch] by auto
qed

text \<open>
  Case conversion changes letters only: it maps upper to lower case and back, and is the identity on
  every other integer.
\<close>

theorem case_conversion:
  "(isupper ch \<longrightarrow> islower (tolower ch) \<and> toupper (tolower ch) = ch) \<and>
    (islower ch \<longrightarrow> isupper (toupper ch) \<and> tolower (toupper ch) = ch) \<and>
    (\<not> isupper ch \<longrightarrow> tolower ch = ch) \<and> (\<not> islower ch \<longrightarrow> toupper ch = ch)"
  by (simp add: isupper_def islower_def tolower_def toupper_def)

theorem case_conversion_witness: "toupper (tolower 81) = 81 \<and> tolower 64 = 64"
proof -
  have "isupper 81" "\<not> isupper 64" by (simp_all add: isupper_def)
  then show ?thesis using case_conversion [of 81] case_conversion [of 64] by blast
qed

text \<open>
  \<open>setbit\<close> and \<open>tstclr\<close> on a word in memory: after \<open>setbit\<close> every flag tests as set, \<open>tstclr\<close> returns the
  flags that were set and leaves them clear, and the other bits and bytes stay as they are.
\<close>

theorem tstclr_setbit:
  "tstbit w flags (setbit w flags m) = flags \<and>
    fst (tstclr w flags m) = tstbit w flags m \<and> tstbit w flags (snd (tstclr w flags m)) = 0 \<and>
    ld32 (snd (tstclr w flags m)) w AND NOT flags = ld32 m w AND NOT flags \<and>
    (\<forall>x. x \<notin> region w 4 \<longrightarrow> setbit w flags m x = m x \<and> snd (tstclr w flags m) x = m x)"
proof -
  have "(ld32 m w OR flags) AND flags = flags" "(ld32 m w AND NOT flags) AND flags = 0"
    by (rule bit_word_eqI, auto simp: bit_simps)+
  then show ?thesis
    by (simp add: tstbit_def setbit_def tstclr_def clrbit_def Let_def st32_out)
qed

theorem tstclr_setbit_witness: "setbit 0x1000 0x20 (\<lambda>_. 0) 0x2000 = 0"
proof -
  have "0x2000 \<notin> region 0x1000 4" by (simp add: in_region)
  then show ?thesis using tstclr_setbit [where w = "0x1000" and flags = "0x20" and m = "\<lambda>_. 0"] by blast
qed

text \<open>
  With a word and a bit for every number, \<open>check_and_set_bit\<close> and \<open>check_and_clear_bit\<close> succeed exactly
  once: the second call in a row reports failure and changes nothing, and clearing undoes setting.
\<close>

theorem check_and_set_clear:
  assumes "getbit b \<noteq> 0" "ld32 m (word + 4 * getword b) AND getbit b = 0"
  shows "\<exists>m'. check_and_set_bit getword getbit word b m = (0, m') \<and>
    check_and_set_bit getword getbit word b m' = (- 1, m') \<and>
    (\<exists>m''. check_and_clear_bit getword getbit word b m' = (0, m'') \<and>
      ld32 m'' (word + 4 * getword b) = ld32 m (word + 4 * getword b) \<and>
      check_and_clear_bit getword getbit word b m'' = (- 1, m''))"
proof -
  let ?v = "ld32 m (word + 4 * getword b)" and ?g = "getbit b"
  have "(?v OR ?g) AND ?g = ?g" by (rule bit_word_eqI) (auto simp: bit_simps)
  moreover have "(?v OR ?g) AND NOT ?g = ?v"
  proof (rule bit_word_eqI)
    fix n assume "n < LENGTH(32)"
    moreover have "\<not> (bit ?v n \<and> bit ?g n)" using arg_cong [OF assms(2), of "\<lambda>x. bit x n"] by (simp add: bit_simps)
    ultimately show "bit ((?v OR ?g) AND NOT ?g) n \<longleftrightarrow> bit ?v n" by (auto simp: bit_simps)
  qed
  ultimately show ?thesis
    using assms by (simp add: check_and_set_bit_def check_and_clear_bit_def Let_def)
qed

theorem check_and_set_clear_witness:
  "\<exists>m'. check_and_set_bit (\<lambda>b. b div 32) (\<lambda>b. push_bit (unat (b mod 32)) 1) 0x1000 37 (\<lambda>_. 0) = (0, m')"
proof -
  have "push_bit (unat ((37 :: u32) mod 32)) (1 :: u32) \<noteq> 0" by simp
  moreover have "ld32 (\<lambda>_. 0) a AND b = 0" for a b by (simp add: ld32_def)
  ultimately show ?thesis
    using check_and_set_clear [where getbit = "\<lambda>b. push_bit (unat (b mod 32)) 1" and b = 37 and m = "\<lambda>_. 0"
      and word = "0x1000" and getword = "\<lambda>b. b div 32"] by blast
qed

end
