(* ===== verification/Interrupts.thy ===== *)
theory Interrupts
  imports Machine
begin

text \<open>
  The interrupt descriptor table and the interrupt controllers: \<open>kernel/intr.c\<close> and the table set-up
  of \<open>kernel/except.c\<close>. The addresses of the assembly entry points and of the table itself are given
  by the linker: they are the arguments \<open>ent\<close> and \<open>idt\<close>.
\<close>

section \<open>Gates\<close>

datatype handler =
    divide_error | debug_exception | nmi_interrupt | breakpoint | overflow | bound_check | invalid_opcode
  | coprocessor_not_available | double_fault | coprocessor_segment_overrun | invalid_tss | segment_not_present
  | stack_exception | general_protection | page_fault | intel_reserved | coprocessor_error | alignment_check
  | machine_check | simd_floating_point | timer | floppy | keyboard_interrupt | syscall

record idt_entry_t =
  handler_low16 :: u16
  selector :: u16
  ie_flags :: u16
  handler_high16 :: u16

record gate_desc_t =
  gd_flags :: u16
  gd_handler :: addr

abbreviation (input) KCODE_SEL :: u16 where "KCODE_SEL \<equiv> 0x08"
abbreviation (input) ACC_PRESENT :: u16 where "ACC_PRESENT \<equiv> 0x80"
abbreviation (input) ACC_INTGATE :: u16 where "ACC_INTGATE \<equiv> 0x0E"
abbreviation (input) ACC_TRAPGATE :: u16 where "ACC_TRAPGATE \<equiv> 0x0F"
abbreviation (input) ACC_DPL_RING3 :: u16 where "ACC_DPL_RING3 \<equiv> 0x60"
abbreviation (input) IRQ_HI_PORT :: u16 where "IRQ_HI_PORT \<equiv> 0xA1"
abbreviation (input) IRQ_LO_PORT :: u16 where "IRQ_LO_PORT \<equiv> 0x21"
abbreviation (input) IRQ_ENABLE_TIMER :: u16 where "IRQ_ENABLE_TIMER \<equiv> 1"
abbreviation (input) IRQ_ENABLE_KEYBOARD :: u16 where "IRQ_ENABLE_KEYBOARD \<equiv> 2"
abbreviation (input) IRQ_ENABLE_FLOPPY :: u16 where "IRQ_ENABLE_FLOPPY \<equiv> 0x40"

text \<open>The eight bytes of an entry, as \<open>memcpy\<close> puts them into the table.\<close>

definition put_idt_entry :: "addr \<Rightarrow> idt_entry_t \<Rightarrow> memory \<Rightarrow> memory" where
  "put_idt_entry a ie m =
     st16 (st16 (st16 (st16 m a (handler_low16 ie)) (a + 2) (selector ie)) (a + 4) (ie_flags ie)) (a + 6) (handler_high16 ie)"

definition set_idt_entry :: "addr \<Rightarrow> u32 \<Rightarrow> gate_desc_t \<Rightarrow> 'a mach_scheme \<Rightarrow> 'a mach_scheme" where
  "set_idt_entry idt num gdesc s =
     (let ie = \<lparr>handler_low16 = ucast (gd_handler gdesc AND 0x0000ffff), selector = KCODE_SEL,
        ie_flags = push_bit 8 (gd_flags gdesc OR ACC_PRESENT), handler_high16 = ucast (drop_bit 16 (gd_handler gdesc))\<rparr>
      in s\<lparr>mem := put_idt_entry (idt + num * 8) ie (mem s)\<rparr>)"

definition mask_irq :: "u16 \<Rightarrow> 'a mach_scheme \<Rightarrow> 'a mach_scheme" where
  "mask_irq msk s =
     (let nmsk = NOT msk;
          s = outb (ucast (drop_bit 8 nmsk)) IRQ_HI_PORT s
      in outb (ucast (nmsk AND 0x00ff)) IRQ_LO_PORT s)"

definition intr_init :: "addr \<Rightarrow> (handler \<Rightarrow> addr) \<Rightarrow> 'a mach_scheme \<Rightarrow> 'a mach_scheme" where
  "intr_init idt ent s =
     (let s = mask_irq (IRQ_ENABLE_TIMER OR IRQ_ENABLE_FLOPPY OR IRQ_ENABLE_KEYBOARD) s;
          fl = ACC_INTGATE OR ACC_PRESENT;
          s = set_idt_entry idt 0x20 \<lparr>gd_flags = fl, gd_handler = ent timer\<rparr> s;
          s = set_idt_entry idt 0x26 \<lparr>gd_flags = fl, gd_handler = ent floppy\<rparr> s;
          s = set_idt_entry idt 0x21 \<lparr>gd_flags = fl, gd_handler = ent keyboard_interrupt\<rparr> s;
          fl = ACC_INTGATE OR ACC_PRESENT OR ACC_DPL_RING3
      in set_idt_entry idt 0x40 \<lparr>gd_flags = fl, gd_handler = ent syscall\<rparr> s)"

definition except_init :: "addr \<Rightarrow> (handler \<Rightarrow> addr) \<Rightarrow> 'a mach_scheme \<Rightarrow> 'a mach_scheme" where
  "except_init idt ent s =
     (let fl = ACC_TRAPGATE;
          s = set_idt_entry idt 0 \<lparr>gd_flags = fl, gd_handler = ent divide_error\<rparr> s;
          s = set_idt_entry idt 1 \<lparr>gd_flags = fl, gd_handler = ent debug_exception\<rparr> s;
          s = set_idt_entry idt 2 \<lparr>gd_flags = fl, gd_handler = ent nmi_interrupt\<rparr> s;
          s = set_idt_entry idt 3 \<lparr>gd_flags = fl, gd_handler = ent breakpoint\<rparr> s;
          s = set_idt_entry idt 4 \<lparr>gd_flags = fl, gd_handler = ent overflow\<rparr> s;
          s = set_idt_entry idt 5 \<lparr>gd_flags = fl, gd_handler = ent bound_check\<rparr> s;
          s = set_idt_entry idt 6 \<lparr>gd_flags = fl, gd_handler = ent invalid_opcode\<rparr> s;
          s = set_idt_entry idt 7 \<lparr>gd_flags = fl, gd_handler = ent coprocessor_not_available\<rparr> s;
          s = set_idt_entry idt 8 \<lparr>gd_flags = fl, gd_handler = ent double_fault\<rparr> s;
          s = set_idt_entry idt 9 \<lparr>gd_flags = fl, gd_handler = ent coprocessor_segment_overrun\<rparr> s;
          s = set_idt_entry idt 10 \<lparr>gd_flags = fl, gd_handler = ent invalid_tss\<rparr> s;
          s = set_idt_entry idt 11 \<lparr>gd_flags = fl, gd_handler = ent segment_not_present\<rparr> s;
          s = set_idt_entry idt 12 \<lparr>gd_flags = fl, gd_handler = ent stack_exception\<rparr> s;
          s = set_idt_entry idt 13 \<lparr>gd_flags = fl, gd_handler = ent general_protection\<rparr> s;
          s = set_idt_entry idt 14 \<lparr>gd_flags = fl, gd_handler = ent page_fault\<rparr> s;
          s = set_idt_entry idt 15 \<lparr>gd_flags = fl, gd_handler = ent intel_reserved\<rparr> s;
          s = set_idt_entry idt 16 \<lparr>gd_flags = fl, gd_handler = ent coprocessor_error\<rparr> s;
          s = set_idt_entry idt 17 \<lparr>gd_flags = fl, gd_handler = ent alignment_check\<rparr> s;
          s = set_idt_entry idt 18 \<lparr>gd_flags = fl, gd_handler = ent machine_check\<rparr> s
      in set_idt_entry idt 19 \<lparr>gd_flags = fl, gd_handler = ent simd_floating_point\<rparr> s)"

section \<open>What the processor reads\<close>

record gate =
  g_offset :: addr
  g_sel :: u16
  g_dpl :: nat
  g_present :: bool
  g_type :: u16

text \<open>A gate descriptor of the IA-32 architecture at address \<open>a\<close>.\<close>

definition gate_at :: "memory \<Rightarrow> addr \<Rightarrow> gate" where
  "gate_at m a =
     \<lparr>g_offset = ucast (ld16 m a) OR push_bit 16 (ucast (ld16 m (a + 6))), g_sel = ld16 m (a + 2),
      g_dpl = unat (drop_bit 13 (ld16 m (a + 4)) AND 3), g_present = bit (ld16 m (a + 4)) 15,
      g_type = drop_bit 8 (ld16 m (a + 4)) AND 0x1f\<rparr>"

lemma word_halves: "ucast (ucast (h AND 0xffff) :: u16) OR push_bit 16 (ucast (ucast (drop_bit 16 h) :: u16)) = (h :: u32)"
proof (rule bit_word_eqI)
  fix n assume "n < LENGTH(32)"
  have f: "bit (0xffff :: u32) n \<longleftrightarrow> n < 16" if "n < 32"
  proof -
    have e: "(0xffff :: u32) = mask 16" by (simp add: mask_eq_exp_minus_1)
    show ?thesis unfolding e using that by (subst bit_mask_iff) auto
  qed
  show "bit (ucast (ucast (h AND 0xffff) :: u16) OR push_bit 16 (ucast (ucast (drop_bit 16 h) :: u16)) :: u32) n = bit h n"
  proof (cases "n < 16")
    case True
    then show ?thesis using f by (simp add: bit_simps)
  next
    case False
    then have "16 + (n - 16) = n" "n - 16 < 16" "n - 16 < 32" using \<open>n < LENGTH(32)\<close> by simp_all
    then show ?thesis using f False \<open>n < LENGTH(32)\<close> by (simp add: bit_simps)
  qed
qed

lemma put_idt_entry_reads:
  "ld16 (put_idt_entry a ie m) a = handler_low16 ie" "ld16 (put_idt_entry a ie m) (a + 2) = selector ie"
  "ld16 (put_idt_entry a ie m) (a + 4) = ie_flags ie" "ld16 (put_idt_entry a ie m) (a + 6) = handler_high16 ie"
proof -
  have d: "region (a + b) 2 \<inter> region (a + c) 2 = {}" if "2 \<le> unat (c - b)" "2 \<le> unat (b - c)" for b c
    using that by (intro region_apartI) simp_all
  have "region a 2 \<inter> region (a + 2) 2 = {}" "region a 2 \<inter> region (a + 4) 2 = {}" "region a 2 \<inter> region (a + 6) 2 = {}"
    "region (a + 2) 2 \<inter> region (a + 4) 2 = {}" "region (a + 2) 2 \<inter> region (a + 6) 2 = {}"
    "region (a + 4) 2 \<inter> region (a + 6) 2 = {}"
    using d [of 2 0] d [of 4 0] d [of 6 0] d [of 4 2] d [of 6 2] d [of 6 4] by simp_all
  then show "ld16 (put_idt_entry a ie m) a = handler_low16 ie" "ld16 (put_idt_entry a ie m) (a + 2) = selector ie"
    "ld16 (put_idt_entry a ie m) (a + 4) = ie_flags ie" "ld16 (put_idt_entry a ie m) (a + 6) = handler_high16 ie"
    by (simp_all add: put_idt_entry_def ld16_st16_apart)
qed

lemma put_idt_entry_out: "x \<notin> region a 8 \<Longrightarrow> put_idt_entry a ie m x = m x"
proof -
  assume x: "x \<notin> region a 8"
  have "region (a + of_nat i) 2 \<subseteq> region a 8" if "i \<le> 6" for i
    using that by (intro region_offset_subset) (simp add: unat_of_nat_32)
  from this [of 0] this [of 2] this [of 4] this [of 6]
  have "x \<notin> region a 2" "x \<notin> region (a + 2) 2" "x \<notin> region (a + 4) 2" "x \<notin> region (a + 6) 2" using x by auto
  then show ?thesis by (simp add: put_idt_entry_def st16_out)
qed

text \<open>The gate that \<open>set_idt_entry\<close> makes, for flags of eight bits.\<close>

lemma gate_set:
  assumes "flags = 0x0F \<or> flags = 0x8E \<or> flags = 0xEE"
  shows "gate_at (mem (set_idt_entry idt num \<lparr>gd_flags = flags, gd_handler = h\<rparr> s)) (idt + num * 8) =
    \<lparr>g_offset = h, g_sel = KCODE_SEL, g_dpl = (if flags = 0xEE then 3 else 0), g_present = True,
     g_type = (if flags = 0x0F then 0x0F else 0x0E)\<rparr>"
  using assms by (auto simp: gate_at_def set_idt_entry_def Let_def put_idt_entry_reads word_halves)

lemma gate_cong: "(\<And>x. x \<in> region a 8 \<Longrightarrow> m x = m' x) \<Longrightarrow> gate_at m a = gate_at m' a"
proof -
  assume e: "\<And>x. x \<in> region a 8 \<Longrightarrow> m x = m' x"
  have r: "region (a + of_nat i) 2 \<subseteq> region a 8" if "i \<le> 6" for i
    using that by (intro region_offset_subset) (simp add: unat_of_nat_32)
  have "ld16 m (a + of_nat i) = ld16 m' (a + of_nat i)" if "i \<le> 6" for i
    using r [OF that] by (intro ld16_cong e) blast
  from this [of 0] this [of 2] this [of 4] this [of 6] show ?thesis by (simp add: gate_at_def)
qed

lemma gate_keep:
  assumes "i \<noteq> j" "i < 256" "j < 256"
  shows "gate_at (mem (set_idt_entry idt (of_nat i) gd s)) (idt + of_nat j * 8) = gate_at (mem s) (idt + of_nat j * 8)"
proof (rule gate_cong)
  fix x assume "x \<in> region (idt + of_nat j * 8) 8"
  moreover have "region (idt + of_nat (8 * i)) 8 \<inter> region (idt + of_nat (8 * j)) 8 = {}"
    using assms by (intro region_array) simp_all
  ultimately have "x \<notin> region (idt + of_nat i * 8) 8" by (simp add: mult.commute) blast
  then show "mem (set_idt_entry idt (of_nat i) gd s) x = mem s x"
    by (simp add: set_idt_entry_def Let_def put_idt_entry_out)
qed

text \<open>The gates in the order in which the kernel sets them: vector, flags, handler.\<close>

definition set_gates :: "addr \<Rightarrow> (handler \<Rightarrow> addr) \<Rightarrow> (nat \<times> u16 \<times> handler) list \<Rightarrow> 'a mach_scheme \<Rightarrow> 'a mach_scheme" where
  "set_gates idt ent gs s =
     fold (\<lambda>(n, f, h). set_idt_entry idt (of_nat n) \<lparr>gd_flags = f, gd_handler = ent h\<rparr>) gs s"

definition intr_gates :: "(nat \<times> u16 \<times> handler) list" where
  "intr_gates = [(0x20, 0x8E, timer), (0x26, 0x8E, floppy), (0x21, 0x8E, keyboard_interrupt), (0x40, 0xEE, syscall)]"

definition except_gates :: "(nat \<times> u16 \<times> handler) list" where
  "except_gates =
     [(0, 0x0F, divide_error), (1, 0x0F, debug_exception), (2, 0x0F, nmi_interrupt), (3, 0x0F, breakpoint),
      (4, 0x0F, overflow), (5, 0x0F, bound_check), (6, 0x0F, invalid_opcode), (7, 0x0F, coprocessor_not_available),
      (8, 0x0F, double_fault), (9, 0x0F, coprocessor_segment_overrun), (10, 0x0F, invalid_tss),
      (11, 0x0F, segment_not_present), (12, 0x0F, stack_exception), (13, 0x0F, general_protection), (14, 0x0F, page_fault),
      (15, 0x0F, intel_reserved), (16, 0x0F, coprocessor_error), (17, 0x0F, alignment_check), (18, 0x0F, machine_check),
      (19, 0x0F, simd_floating_point)]"

lemma intr_init_gates:
  "intr_init idt ent s = set_gates idt ent intr_gates (mask_irq 0x43 s)"
  by (simp add: intr_init_def set_gates_def intr_gates_def Let_def)

lemma except_init_gates: "except_init idt ent s = set_gates idt ent except_gates s"
  by (simp add: except_init_def set_gates_def except_gates_def Let_def)

lemma set_gates_append: "set_gates idt ent (as @ bs) s = set_gates idt ent bs (set_gates idt ent as s)"
  by (simp add: set_gates_def)

lemma set_gates_keep:
  assumes "j \<notin> fst ` set gs" "j < 256" "\<forall>g\<in>set gs. fst g < 256"
  shows "gate_at (mem (set_gates idt ent gs s)) (idt + of_nat j * 8) = gate_at (mem s) (idt + of_nat j * 8)"
  using assms(1,3)
proof (induction gs arbitrary: s)
  case (Cons g gs)
  obtain n f h where g: "g = (n, f, h)" by (cases g)
  have nj: "n \<noteq> j" "n < 256" using Cons.prems g by auto
  have "gate_at (mem (set_gates idt ent gs s')) (idt + of_nat j * 8) = gate_at (mem s') (idt + of_nat j * 8)"
    for s' :: "'a mach_scheme"
    using Cons.prems by (intro Cons.IH) auto
  then show ?case using gate_keep [OF nj assms(2)] by (simp add: set_gates_def g)
qed (simp add: set_gates_def)

lemma set_gates_at:
  assumes "distinct (map fst gs)" "\<forall>g\<in>set gs. fst g < 256 \<and> fst (snd g) \<in> {0x0F, 0x8E, 0xEE}" "(n, f, h) \<in> set gs"
  shows "gate_at (mem (set_gates idt ent gs s)) (idt + of_nat n * 8) =
    \<lparr>g_offset = ent h, g_sel = KCODE_SEL, g_dpl = (if f = 0xEE then 3 else 0), g_present = True,
     g_type = (if f = 0x0F then 0x0F else 0x0E)\<rparr>"
  using assms
proof (induction gs arbitrary: s)
  case (Cons g gs)
  obtain n' f' h' where g: "g = (n', f', h')" by (cases g)
  let ?s = "set_idt_entry idt (of_nat n') \<lparr>gd_flags = f', gd_handler = ent h'\<rparr> s"
  have step: "set_gates idt ent (g # gs) s = set_gates idt ent gs ?s" by (simp add: set_gates_def g)
  show ?case
  proof (cases "(n, f, h) = g")
    case True
    then have "n \<notin> fst ` set gs" using Cons.prems(1) by (auto simp: image_iff)
    then have "gate_at (mem (set_gates idt ent gs ?s)) (idt + of_nat n * 8) = gate_at (mem ?s) (idt + of_nat n * 8)"
      using Cons.prems(2) True by (intro set_gates_keep) auto
    moreover have eq: "n' = n" "f' = f" "h' = h" using True g by simp_all
    have "f = 0x0F \<or> f = 0x8E \<or> f = 0xEE" using Cons.prems(2) True by auto
    from gate_set [OF this, of idt "of_nat n" "ent h" s] have "gate_at (mem ?s) (idt + of_nat n * 8) = \<lparr>g_offset = ent h, g_sel = KCODE_SEL,
      g_dpl = (if f = 0xEE then 3 else 0), g_present = True, g_type = (if f = 0x0F then 0x0F else 0x0E)\<rparr>"
      unfolding eq .
    ultimately show ?thesis unfolding step by simp
  next
    case False
    then show ?thesis unfolding step using Cons.prems by (intro Cons.IH) auto
  qed
qed simp

lemma set_gates_out:
  assumes "\<forall>g\<in>set gs. fst g < 256" "x \<notin> region idt 2048"
  shows "mem (set_gates idt ent gs s) x = mem s x"
  using assms(1)
proof (induction gs arbitrary: s)
  case (Cons g gs)
  obtain n f h where g: "g = (n, f, h)" by (cases g)
  have "region (idt + of_nat (8 * n)) 8 \<subseteq> region idt 2048" using Cons.prems g by (intro region_elem_array) auto
  then have "x \<notin> region (idt + of_nat n * 8) 8" using assms(2) by (auto simp: mult.commute)
  then show ?case
    using Cons.IH [of "set_idt_entry idt (of_nat n) \<lparr>gd_flags = f, gd_handler = ent h\<rparr> s"] Cons.prems
    by (simp add: set_gates_def g) (simp add: set_idt_entry_def Let_def put_idt_entry_out)
qed (simp add: set_gates_def)

text \<open>Both initialisations together.\<close>

lemma idt_installed:
  assumes "s' = except_init idt ent (intr_init idt ent s)"
  shows "(\<forall>(n, f, h)\<in>set (intr_gates @ except_gates). gate_at (mem s') (idt + of_nat n * 8) =
      \<lparr>g_offset = ent h, g_sel = KCODE_SEL, g_dpl = (if h = syscall then 3 else 0), g_present = True,
       g_type = (if n < 20 then 0x0F else 0x0E)\<rparr>) \<and>
    (\<forall>x. x \<notin> region idt 2048 \<longrightarrow> mem s' x = mem s x)"
proof -
  let ?gs = "intr_gates @ except_gates"
  have e: "s' = set_gates idt ent ?gs (mask_irq 0x43 s)"
    unfolding assms except_init_gates intr_init_gates set_gates_append ..
  have d: "distinct (map fst ?gs)" "\<forall>g\<in>set ?gs. fst g < 256 \<and> fst (snd g) \<in> {0x0F, 0x8E, 0xEE}"
    by (simp_all add: intr_gates_def except_gates_def)
  have t: "\<forall>(n, f, h)\<in>set ?gs. (f = 0xEE) = (h = syscall) \<and> (f = 0x0F) = (n < 20)"
    by (simp add: intr_gates_def except_gates_def)
  have "mem (mask_irq 0x43 s) = mem s" by (simp add: mask_irq_def outb_def Let_def)
  then have "mem s' x = mem s x" if "x \<notin> region idt 2048" for x
    unfolding e using set_gates_out [OF _ that, of ?gs ent "mask_irq 0x43 s"] d(2) by simp
  moreover have "gate_at (mem s') (idt + of_nat n * 8) =
      \<lparr>g_offset = ent h, g_sel = KCODE_SEL, g_dpl = (if h = syscall then 3 else 0), g_present = True,
       g_type = (if n < 20 then 0x0F else 0x0E)\<rparr>" if g: "(n, f, h) \<in> set ?gs" for n f h
  proof -
    have "(f = 0xEE) = (h = syscall)" "(f = 0x0F) = (n < 20)" using bspec [OF t g] by simp_all
    then show ?thesis unfolding e using set_gates_at [OF d g, of idt ent "mask_irq 0x43 s"] by simp
  qed
  ultimately show ?thesis by blast
qed

section \<open>Properties\<close>

text \<open>
  C28. After \<open>intr_init\<close> and \<open>except_init\<close> the processor finds, for each of the 20 exceptions, a present trap
  gate of privilege 0, for the timer, the keyboard and the floppy an interrupt gate of privilege 0,
  and for vector 0x40 one that user mode may call, each with the whole address of its handler in the
  kernel's code segment; no byte outside the table changes.
\<close>

theorem idt_after_init:
  assumes "s' = except_init idt ent (intr_init idt ent s)"
  shows "(\<forall>(n, f, h)\<in>set (intr_gates @ except_gates). gate_at (mem s') (idt + of_nat n * 8) =
      \<lparr>g_offset = ent h, g_sel = KCODE_SEL, g_dpl = (if h = syscall then 3 else 0), g_present = True,
       g_type = (if n < 20 then 0x0F else 0x0E)\<rparr>) \<and>
    (\<forall>x. x \<notin> region idt 2048 \<longrightarrow> mem s' x = mem s x)"
  by (rule idt_installed [OF assms])

theorem idt_after_init_witness:
  "g_dpl (gate_at (mem (except_init 0x5000 (\<lambda>_. 0xC0100000) (intr_init 0x5000 (\<lambda>_. 0xC0100000) \<lparr>mem = (\<lambda>_. 0), io = [], dev = (\<lambda>_ _. 0)\<rparr>))) (0x5000 + of_nat 0x40 * 8)) = 3"
proof -
  have "(0x40, 0xEE, syscall) \<in> set (intr_gates @ except_gates)" by (simp add: intr_gates_def)
  from bspec [OF conjunct1 [OF idt_after_init [OF refl, where idt = "0x5000" and ent = "\<lambda>_. 0xC0100000" and s = "\<lparr>mem = (\<lambda>_. 0), io = [], dev = (\<lambda>_ _. 0)\<rparr>"]] this]
  show ?thesis by simp
qed

text \<open>
  \<open>intr_init\<close> enables the timer, the keyboard and the floppy and masks every other request line: the
  mask registers of the two controllers, read together, have exactly the other bits set.
\<close>

theorem intr_init_mask:
  "\<exists>hi lo. io (intr_init idt ent s) = EvOutb lo IRQ_LO_PORT # EvOutb hi IRQ_HI_PORT # io s \<and>
    (\<forall>irq<16. bit (push_bit 8 (ucast hi) OR ucast lo :: u16) irq = (irq \<notin> {0, 1, 6}))"
proof -
  have io: "io (set_idt_entry idt n g t) = io t" for n g and t :: "'a mach_scheme" by (simp add: set_idt_entry_def Let_def)
  have "io (intr_init idt ent s) = EvOutb 0xBC IRQ_LO_PORT # EvOutb 0xFF IRQ_HI_PORT # io s"
    by (simp add: intr_init_def Let_def io mask_irq_def outb_def emit_def)
  moreover have "\<forall>irq<16. bit (push_bit 8 (ucast (0xFF :: u8)) OR ucast (0xBC :: u8) :: u16) irq = (irq \<notin> {0, 1, 6})"
  proof -
    have "\<forall>irq\<in>set [0..<16]. bit (push_bit 8 (ucast (0xFF :: u8)) OR ucast (0xBC :: u8) :: u16) irq = (irq \<notin> {0, 1, 6})"
      by (simp add: upt_rec)
    then show ?thesis by simp
  qed
  ultimately show ?thesis by blast
qed

end
