(* ===== verification/Display.thy ===== *)
theory Display
  imports Screen CString
begin

text \<open>
  The kernel's own output, \<open>lib/libc/display.c\<close>: characters go straight to the text screen of 25
  rows of 80 cells at \<open>CTVM_BASE\<close>, \<open>printf\<close> reads its format and its arguments from memory. A loop
  that only a zero byte ends is a partial function.
\<close>

section \<open>State\<close>

text \<open>\<open>cur_pos\<close> is a signed integer; \<open>args\<close> below is the address of the first argument after the format.\<close>

record disp_state = mach +
  cur_pos :: u32
  text_color :: u16

abbreviation (input) CTVM_BASE :: addr where "CTVM_BASE \<equiv> KVM_BASE + 0xB8000"
abbreviation (input) LINE_WORDS :: nat where "LINE_WORDS \<equiv> 80"
abbreviation (input) LINE_COUNT :: nat where "LINE_COUNT \<equiv> 25"

section \<open>Characters\<close>

definition set_pos :: "u32 \<Rightarrow> 'a disp_state_scheme \<Rightarrow> 'a disp_state_scheme" where
  "set_pos pos s = s\<lparr>cur_pos := pos\<rparr>"

text \<open>The loops over the cell numbers \<open>i, i + 1, ...\<close>, \<open>n\<close> of them.\<close>

primrec scroll_copy :: "nat \<Rightarrow> nat \<Rightarrow> memory \<Rightarrow> memory" where
  "scroll_copy 0 i m = m"
| "scroll_copy (Suc n) i m =
     scroll_copy n (Suc i) (st16 m (CTVM_BASE + of_nat (2 * (i - 80))) (ld16 m (CTVM_BASE + of_nat (2 * i))))"

primrec scroll_blank :: "nat \<Rightarrow> nat \<Rightarrow> u16 \<Rightarrow> memory \<Rightarrow> memory" where
  "scroll_blank 0 i v m = m"
| "scroll_blank (Suc n) i v m =
     (let j = i + LINE_WORDS * (LINE_COUNT - 1)
      in scroll_blank n (Suc i) v (st16 m (CTVM_BASE + of_nat (2 * j)) v))"

definition scroll_down :: "'a disp_state_scheme \<Rightarrow> 'a disp_state_scheme" where
  "scroll_down s =
     (let m = scroll_copy (LINE_WORDS * LINE_COUNT - LINE_WORDS) LINE_WORDS (mem s);
          m = scroll_blank LINE_WORDS 0 (text_color s OR 32) m
      in s\<lparr>mem := m, cur_pos := cur_pos s - 80\<rparr>)"

text \<open>The default case of \<open>put_char\<close>, which the calls \<open>put_char(' ')\<close> come to.\<close>

definition put_cell :: "u32 \<Rightarrow> 'a disp_state_scheme \<Rightarrow> 'a disp_state_scheme" where
  "put_cell ch s =
     (let val = text_color s OR ucast ch;
          s = (if sint (cur_pos s) sdiv 80 \<ge> 25 then scroll_down s else s)
      in s\<lparr>mem := st16 (mem s) (CTVM_BASE + 2 * cur_pos s) val, cur_pos := cur_pos s + 1\<rparr>)"

definition put_char :: "u32 \<Rightarrow> 'a disp_state_scheme \<Rightarrow> 'a disp_state_scheme" where
  "put_char ch s =
     (if ch = 13 \<or> ch = 10 then (put_cell 32 ^^ nat (80 - sint (cur_pos s) smod 80)) s
      else if ch = 9 then
        (if sint (cur_pos s) sdiv int LINE_WORDS = sint (cur_pos s + 8) sdiv int LINE_WORDS
         then (put_cell 32 ^^ 8) s else s)
      else put_cell ch s)"

text \<open>A string literal, given by its characters.\<close>

definition put_chars :: "u8 list \<Rightarrow> 'a disp_state_scheme \<Rightarrow> 'a disp_state_scheme" where
  "put_chars cs s = fold (\<lambda>c. put_char (scast c)) cs s"

partial_function (option) puts :: "addr \<Rightarrow> 'a disp_state_scheme \<Rightarrow> 'a disp_state_scheme option" where
  "puts str s = (if mem s str \<noteq> 0 then puts (str + 1) (put_char (scast (mem s str)) s) else Some s)"

section \<open>Numbers\<close>

definition hex_digit :: "u32 \<Rightarrow> nat \<Rightarrow> u32" where
  "hex_digit n i = (let val = signed_drop_bit (i * 4) n AND 0x0f in if sint val < 10 then val + 48 else val + 97 - 10)"

primrec put_hex_loop :: "nat \<Rightarrow> u32 \<Rightarrow> 'a disp_state_scheme \<Rightarrow> 'a disp_state_scheme" where
  "put_hex_loop 0 n s = s"
| "put_hex_loop (Suc i) n s = put_hex_loop i n (put_char (hex_digit n i) s)"

definition put_hex :: "u32 \<Rightarrow> 'a disp_state_scheme \<Rightarrow> 'a disp_state_scheme" where
  "put_hex n s = put_hex_loop 8 n (put_chars [48, 120] s)"

text \<open>The buffer of ten digits, the search for the first one that is not a zero, and the output.\<close>

primrec int_digits :: "nat \<Rightarrow> int \<Rightarrow> u8 list" where
  "int_digits 0 n = []"
| "int_digits (Suc k) n = (word_of_int (n smod 10) + 48) # int_digits k (n sdiv 10)"

primrec skip_zeros :: "nat \<Rightarrow> u8 list \<Rightarrow> nat option" where
  "skip_zeros 0 buf = None"
| "skip_zeros (Suc i) buf = (if buf ! i = 48 then skip_zeros i buf else Some i)"

definition put_int :: "u32 \<Rightarrow> 'a disp_state_scheme \<Rightarrow> fault + 'a disp_state_scheme" where
  "put_int n s =
     (if n = 0 then Inr (put_char 48 s)
      else
        let s = (if sint n < 0 then put_char 45 s else s);
            n = (if sint n < 0 then - n else n);
            buf = int_digits 10 (sint n)
        in case skip_zeros 10 buf of None \<Rightarrow> Inl OutOfRange
           | Some i \<Rightarrow> Inr (put_chars (rev (take (Suc i) buf)) s))"

section \<open>Formatted output\<close>

text \<open>
  The loop of \<open>printf\<close> and \<open>panic\<close>: \<open>p\<close> is the position in the format and \<open>ap\<close> the address of the next
  argument. After \<open>%\<close> the next byte is consumed whatever it is, the final zero included.
\<close>

partial_function (option) printf_loop :: "addr \<Rightarrow> addr \<Rightarrow> 'a disp_state_scheme \<Rightarrow> (fault + 'a disp_state_scheme) option" where
  "printf_loop p ap s =
     (if mem s p = 0 then Some (Inr s)
      else if mem s p = 37 then
        (if p + 1 = 0 then printf_loop 1 ap (put_char (scast (mem s 0)) s)
         else if mem s (p + 1) = 99 then printf_loop (p + 2) (ap + 4) (put_char (ld32 (mem s) ap) s)
         else if mem s (p + 1) = 115 then
           Option.bind (puts (ld32 (mem s) ap) s) (\<lambda>s. printf_loop (p + 2) (ap + 4) s)
         else if mem s (p + 1) = 100 then
           (case put_int (ld32 (mem s) ap) s of Inl e \<Rightarrow> Some (Inl e) | Inr s \<Rightarrow> printf_loop (p + 2) (ap + 4) s)
         else if mem s (p + 1) = 120 then printf_loop (p + 2) (ap + 4) (put_hex (ld32 (mem s) ap) s)
         else printf_loop (p + 2) ap s)
      else printf_loop (p + 1) ap (put_char (scast (mem s p)) s))"

definition printf :: "addr \<Rightarrow> addr \<Rightarrow> 'a disp_state_scheme \<Rightarrow> (fault + 'a disp_state_scheme) option" where
  "printf fmt args s = printf_loop fmt args s"

definition clear_screen :: "'a disp_state_scheme \<Rightarrow> 'a disp_state_scheme" where
  "clear_screen s = set_pos 0 ((put_char 10 ^^ LINE_COUNT) (set_pos 0 s))"

text \<open>
  How a call ends that does not fault: it returns to its caller in a state, or it stays for ever in a state
  (\<open>for(;;);\<close>), and then nothing that follows the call is executed. \<open>panic\<close> spins after its message.
\<close>

datatype 's ending = Returns 's | Spins 's

definition panic :: "addr \<Rightarrow> addr \<Rightarrow> 'a disp_state_scheme \<Rightarrow> (fault + 'a disp_state_scheme ending) option" where
  "panic fmt args s = bindR (printf_loop fmt args (put_chars [80, 65, 78, 73, 67, 58, 32] s)) (\<lambda>s. Some (Inr (Spins s)))"

end
