(* ===== verification/DisplayProps.thy ===== *)
theory DisplayProps
  imports Display CType
begin

text \<open>
  \<open>put_char\<close> on the cells of the screen, \<open>printf\<close> as the characters it prints, and what numbers look
  like.
\<close>

section \<open>The screen\<close>

definition disp_ok :: "'a disp_state_scheme \<Rightarrow> bool" where
  "disp_ok s \<longleftrightarrow> unat (cur_pos s) \<le> 2000"

text \<open>The 2000 cells and the position of the next character.\<close>

definition disp_abs :: "'a disp_state_scheme \<Rightarrow> u16 list \<times> nat" where
  "disp_abs s = (map (cell CTVM_BASE (mem s)) [0..<2000], unat (cur_pos s))"

definition disp_frame :: "'a disp_state_scheme \<Rightarrow> 'a disp_state_scheme \<Rightarrow> bool" where
  "disp_frame s s' \<longleftrightarrow> s' = s\<lparr>mem := mem s', cur_pos := cur_pos s'\<rparr> \<and>
     (\<forall>x. x \<notin> region CTVM_BASE 4000 \<longrightarrow> mem s' x = mem s x)"

text \<open>The abstract screen: \<open>b\<close> is the blank cell, \<open>v\<close> the cell to write.\<close>

definition scr_put :: "u16 \<Rightarrow> u16 \<Rightarrow> u16 list \<times> nat \<Rightarrow> u16 list \<times> nat" where
  "scr_put b v = (\<lambda>(L, p). let (L, p) = (if p < 2000 then (L, p) else (drop 80 L @ replicate 80 b, p - 80))
     in (L[p := v], p + 1))"

definition scr_char :: "u16 \<Rightarrow> u32 \<Rightarrow> u16 list \<times> nat \<Rightarrow> u16 list \<times> nat" where
  "scr_char col ch = (\<lambda>(L, p).
     if ch = 13 \<or> ch = 10 then (scr_put (col OR 32) (col OR 32) ^^ (80 - p mod 80)) (L, p)
     else if ch = 9 then
       (if p div 80 = (p + 8) div 80 then (scr_put (col OR 32) (col OR 32) ^^ 8) (L, p) else (L, p))
     else scr_put (col OR 32) (col OR ucast ch) (L, p))"

lemma disp_frame_refl: "disp_frame s s"
  by (simp add: disp_frame_def)

lemma disp_frame_trans:
  assumes "disp_frame s t" "disp_frame t u"
  shows "disp_frame s u"
proof -
  obtain m c where t: "t = s\<lparr>mem := m, cur_pos := c\<rparr>" using assms(1) unfolding disp_frame_def by blast
  obtain m' c' where u: "u = t\<lparr>mem := m', cur_pos := c'\<rparr>" using assms(2) unfolding disp_frame_def by blast
  have "u = s\<lparr>mem := mem u, cur_pos := cur_pos u\<rparr>" unfolding u t by simp
  then show ?thesis using assms unfolding disp_frame_def by simp
qed

lemma disp_frameD:
  assumes "disp_frame s t"
  shows "text_color t = text_color s" "io t = io s" "dev t = dev s" "x \<notin> region CTVM_BASE 4000 \<Longrightarrow> mem t x = mem s x"
proof -
  obtain m c where t: "t = s\<lparr>mem := m, cur_pos := c\<rparr>" using assms unfolding disp_frame_def by blast
  show "text_color t = text_color s" "io t = io s" "dev t = dev s" unfolding t by simp_all
  show "x \<notin> region CTVM_BASE 4000 \<Longrightarrow> mem t x = mem s x" using assms by (simp add: disp_frame_def)
qed

section \<open>Scrolling\<close>

lemma scroll_copy_cells:
  assumes "80 \<le> i" "i + n \<le> 2000"
  shows "cells_upd CTVM_BASE 2000 m (scroll_copy n i m)
    (\<lambda>k. if i - 80 \<le> k \<and> k < i - 80 + n then cell CTVM_BASE m (k + 80) else cell CTVM_BASE m k)"
  using assms
proof (induction n arbitrary: i m)
  case 0
  then show ?case by (auto simp: cells_upd_def)
next
  case (Suc n)
  let ?m = "st16 m (CTVM_BASE + of_nat (2 * (i - 80))) (cell CTVM_BASE m i)"
  have 1: "cells_upd CTVM_BASE 2000 m ?m ((cell CTVM_BASE m)(i - 80 := cell CTVM_BASE m i))"
    using Suc.prems by (intro st16_cells) simp_all
  have 2: "cells_upd CTVM_BASE 2000 ?m (scroll_copy n (Suc i) ?m)
      (\<lambda>k. if Suc i - 80 \<le> k \<and> k < Suc i - 80 + n then cell CTVM_BASE ?m (k + 80) else cell CTVM_BASE ?m k)"
    using Suc.prems by (intro Suc.IH) simp_all
  have e: "scroll_copy (Suc n) i m = scroll_copy n (Suc i) ?m" unfolding scroll_copy.simps cell_def ..
  show ?case
    unfolding e
  proof (rule cells_upd_cong [OF cells_upd_trans [OF 1 2]])
    fix k :: nat assume k: "k < 2000"
    have p: "cell CTVM_BASE ?m (k + 80) = cell CTVM_BASE m (k + 80)" if "k < Suc i - 80 + n" "Suc i - 80 \<le> k"
    proof -
      have "k + 80 < 2000" "k + 80 \<noteq> i - 80" using that Suc.prems by arith+
      then show ?thesis using cells_updD(1) [OF 1, of "k + 80"] by simp
    qed
    show "(if Suc i - 80 \<le> k \<and> k < Suc i - 80 + n then cell CTVM_BASE ?m (k + 80) else cell CTVM_BASE ?m k) =
        (if i - 80 \<le> k \<and> k < i - 80 + Suc n then cell CTVM_BASE m (k + 80) else cell CTVM_BASE m k)"
      unfolding cells_updD(1) [OF 1 k] using p Suc.prems by (auto simp: Suc_diff_le)
  qed
qed

lemma scroll_blank_cells:
  assumes "i + n \<le> 80"
  shows "cells_upd CTVM_BASE 2000 m (scroll_blank n i v m)
    (\<lambda>k. if i + 1920 \<le> k \<and> k < i + 1920 + n then v else cell CTVM_BASE m k)"
  using assms
proof (induction n arbitrary: i m)
  case 0
  then show ?case by (auto simp: cells_upd_def)
next
  case (Suc n)
  let ?m = "st16 m (CTVM_BASE + of_nat (2 * (i + 1920))) v"
  have 1: "cells_upd CTVM_BASE 2000 m ?m ((cell CTVM_BASE m)(i + 1920 := v))"
    using Suc.prems by (intro st16_cells) simp_all
  have 2: "cells_upd CTVM_BASE 2000 ?m (scroll_blank n (Suc i) v ?m)
      (\<lambda>k. if Suc i + 1920 \<le> k \<and> k < Suc i + 1920 + n then v else cell CTVM_BASE ?m k)"
    using Suc.prems by (intro Suc.IH) simp_all
  have e: "scroll_blank (Suc n) i v m = scroll_blank n (Suc i) v ?m" by (simp add: Let_def)
  show ?case
    unfolding e
  proof (rule cells_upd_cong [OF cells_upd_trans [OF 1 2]])
    fix k :: nat assume k: "k < 2000"
    show "(if Suc i + 1920 \<le> k \<and> k < Suc i + 1920 + n then v else cell CTVM_BASE ?m k) =
        (if i + 1920 \<le> k \<and> k < i + 1920 + Suc n then v else cell CTVM_BASE m k)"
      unfolding cells_updD(1) [OF 1 k] by auto
  qed
qed

lemma scroll_down_cells:
  "cells_upd CTVM_BASE 2000 (mem s) (mem (scroll_down s))
    (\<lambda>k. if k < 1920 then cell CTVM_BASE (mem s) (k + 80) else text_color s OR 32)"
proof -
  let ?m = "scroll_copy 1920 80 (mem s)"
  have 1: "cells_upd CTVM_BASE 2000 (mem s) ?m
      (\<lambda>k. if 80 - 80 \<le> k \<and> k < 80 - 80 + 1920 then cell CTVM_BASE (mem s) (k + 80) else cell CTVM_BASE (mem s) k)"
    by (rule scroll_copy_cells) simp_all
  have 2: "cells_upd CTVM_BASE 2000 ?m (scroll_blank 80 0 (text_color s OR 32) ?m)
      (\<lambda>k. if 0 + 1920 \<le> k \<and> k < 0 + 1920 + 80 then text_color s OR 32 else cell CTVM_BASE ?m k)"
    by (rule scroll_blank_cells) simp
  have e: "mem (scroll_down s) = scroll_blank 80 0 (text_color s OR 32) ?m" by (simp add: scroll_down_def Let_def)
  show ?thesis
    unfolding e
  proof (rule cells_upd_cong [OF cells_upd_trans [OF 1 2]])
    fix k :: nat assume k: "k < 2000"
    show "(if 0 + 1920 \<le> k \<and> k < 0 + 1920 + 80 then text_color s OR 32 else cell CTVM_BASE ?m k) =
        (if k < 1920 then cell CTVM_BASE (mem s) (k + 80) else text_color s OR 32)"
      unfolding cells_updD(1) [OF 1 k] using k by simp
  qed
qed

section \<open>Printing a character\<close>

lemma disp_abs_upd:
  assumes "cells_upd CTVM_BASE 2000 m (mem s) f"
  shows "disp_abs s = (map f [0..<2000], unat (cur_pos s))"
  using cells_updD(1) [OF assms] by (simp add: disp_abs_def)

lemma put_cell_ok:
  assumes ok: "disp_ok s"
  shows "disp_ok (put_cell ch s)" "disp_frame s (put_cell ch s)"
    "disp_abs (put_cell ch s) = scr_put (text_color s OR 32) (text_color s OR ucast ch) (disp_abs s)"
proof -
  let ?b = "text_color s OR 32" and ?v = "text_color s OR ucast ch" and ?p = "unat (cur_pos s)"
  define t where "t = (if 25 \<le> sint (cur_pos s) sdiv 80 then scroll_down s else s)"
  have p: "?p \<le> 2000" using ok by (simp add: disp_ok_def)
  have sp: "sint (cur_pos s) = int ?p" using p by (intro small_signed) simp
  have c: "25 \<le> sint (cur_pos s) sdiv 80 \<longleftrightarrow> ?p = 2000"
  proof -
    have "25 \<le> sint (cur_pos s) sdiv 80 \<longleftrightarrow> 25 \<le> ?p div 80" unfolding sp using sdiv_int [of ?p 80] by simp
    then show ?thesis using p by (auto simp: less_eq_div_iff_mult_less_eq)
  qed
  obtain L q f where L: "(if ?p < 2000 then (fst (disp_abs s), ?p) else (drop 80 (fst (disp_abs s)) @ replicate 80 ?b, ?p - 80)) = (L, q)"
    and q: "q < 2000" "unat (cur_pos t) = q" and f: "cells_upd CTVM_BASE 2000 (mem s) (mem t) f" "L = map f [0..<2000]"
    and t: "t = s\<lparr>mem := mem t, cur_pos := cur_pos t\<rparr>"
  proof (cases "?p = 2000")
    case True
    have "cur_pos s = 2000" using True by (simp add: word_unat_eq_iff)
    then have 1: "unat (cur_pos t) = 1920" using True c by (simp add: t_def scroll_down_def Let_def)
    have 2: "drop 80 (fst (disp_abs s)) @ replicate 80 ?b =
        map (\<lambda>k. if k < 1920 then cell CTVM_BASE (mem s) (k + 80) else ?b) [0..<2000]"
      by (rule nth_equalityI) (auto simp: disp_abs_def nth_append add.commute)
    have 3: "t = s\<lparr>mem := mem t, cur_pos := cur_pos t\<rparr>" using True c by (simp add: t_def scroll_down_def Let_def)
    have 4: "cells_upd CTVM_BASE 2000 (mem s) (mem t) (\<lambda>k. if k < 1920 then cell CTVM_BASE (mem s) (k + 80) else ?b)"
      using scroll_down_cells [of s] True c by (simp add: t_def)
    show ?thesis by (rule that [OF _ _ 1 4 2 3]) (simp_all add: True)
  next
    case False
    then have "t = s" using c by (simp add: t_def)
    then show ?thesis using that [of "fst (disp_abs s)" ?p "cell CTVM_BASE (mem s)"] False p
      by (simp add: disp_abs_def cells_upd_refl)
  qed
  have u: "put_cell ch s = t\<lparr>mem := st16 (mem t) (CTVM_BASE + 2 * cur_pos t) ?v, cur_pos := cur_pos t + 1\<rparr>"
    unfolding put_cell_def t_def [symmetric] Let_def ..
  have a: "CTVM_BASE + 2 * cur_pos t = CTVM_BASE + of_nat (2 * q)" using q(2) by auto
  have q1: "unat (cur_pos t + 1) = q + 1" using q unat_add_32 [of "cur_pos t" 1] by simp
  then show "disp_ok (put_cell ch s)" using q(1) by (simp add: disp_ok_def u)
  have w: "cells_upd CTVM_BASE 2000 (mem t) (st16 (mem t) (CTVM_BASE + of_nat (2 * q)) ?v) ((cell CTVM_BASE (mem t))(q := ?v))"
    using q(1) by (intro st16_cells) simp_all
  have w': "cells_upd CTVM_BASE 2000 (mem s) (mem (put_cell ch s)) ((cell CTVM_BASE (mem t))(q := ?v))"
    using cells_upd_trans [OF f(1) w] unfolding u a by simp
  have "put_cell ch s = s\<lparr>mem := mem (put_cell ch s), cur_pos := cur_pos (put_cell ch s)\<rparr>"
    unfolding u by (subst t) simp
  then show "disp_frame s (put_cell ch s)" using cells_updD(2) [OF w'] by (simp add: disp_frame_def)
  have "map ((cell CTVM_BASE (mem t))(q := ?v)) [0..<2000] = L[q := ?v]"
    unfolding f(2) using cells_updD(1) [OF f(1)] by (intro nth_equalityI) (auto simp: nth_list_update)
  then show "disp_abs (put_cell ch s) = scr_put ?b ?v (disp_abs s)"
    using L q1 unfolding disp_abs_upd [OF w'] by (auto simp: scr_put_def u disp_abs_def split: if_splits)
qed

lemma put_cells_ok:
  assumes "disp_ok s"
  shows "disp_ok ((put_cell ch ^^ n) s) \<and> disp_frame s ((put_cell ch ^^ n) s) \<and>
    disp_abs ((put_cell ch ^^ n) s) = (scr_put (text_color s OR 32) (text_color s OR ucast ch) ^^ n) (disp_abs s)"
proof (induction n)
  case (Suc n)
  let ?t = "(put_cell ch ^^ n) s"
  have t: "disp_ok ?t" "disp_frame s ?t" "text_color ?t = text_color s" using Suc disp_frameD(1) by auto
  note k = put_cell_ok [OF t(1), of ch, unfolded t(3)]
  show ?case using k Suc disp_frame_trans [OF t(2) k(2)] by simp
qed (use assms in \<open>simp add: disp_frame_refl\<close>)

lemma put_char_ok:
  assumes ok: "disp_ok s"
  shows "disp_ok (put_char ch s)" "disp_frame s (put_char ch s)"
    "disp_abs (put_char ch s) = scr_char (text_color s) ch (disp_abs s)"
proof -
  let ?p = "unat (cur_pos s)"
  have p: "?p \<le> 2000" using ok by (simp add: disp_ok_def)
  have sp: "sint (cur_pos s) = int ?p" using p by (intro small_signed) simp
  have "unat (cur_pos s + 8) = ?p + 8" using p unat_add_32 [of "cur_pos s" 8] by simp
  then have sp8: "sint (cur_pos s + 8) = int (?p + 8)" using p small_signed [of "cur_pos s + 8"] by simp
  have n: "nat (80 - sint (cur_pos s) smod 80) = 80 - ?p mod 80"
  proof -
    have "80 - sint (cur_pos s) smod 80 = int (80 - ?p mod 80)"
      unfolding sp using smod_int [of ?p 80] mod_less_divisor [of 80 ?p] by (simp add: of_nat_diff)
    then show ?thesis by (simp only: nat_int)
  qed
  have d: "(sint (cur_pos s) sdiv int 80 = sint (cur_pos s + 8) sdiv int 80) = (?p div 80 = (?p + 8) div 80)"
    unfolding sp sp8 sdiv_int by (simp only: of_nat_eq_iff)
  have "disp_ok (put_char ch s) \<and> disp_frame s (put_char ch s) \<and>
      disp_abs (put_char ch s) = scr_char (text_color s) ch (disp_abs s)"
    unfolding put_char_def n d using put_cells_ok [OF ok, where ch = 32] put_cell_ok [OF ok, of ch] ok disp_frame_refl [of s]
    by (simp add: scr_char_def disp_abs_def)
  then show "disp_ok (put_char ch s)" "disp_frame s (put_char ch s)"
    "disp_abs (put_char ch s) = scr_char (text_color s) ch (disp_abs s)" by blast+
qed

section \<open>Sequences of characters\<close>

definition emit_chars :: "u32 list \<Rightarrow> 'a disp_state_scheme \<Rightarrow> 'a disp_state_scheme" where
  "emit_chars cs s = fold put_char cs s"

lemma emit_chars_simps [simp]:
  "emit_chars [] s = s" "emit_chars (c # cs) s = emit_chars cs (put_char c s)"
  by (simp_all add: emit_chars_def)

lemma emit_chars_append: "emit_chars (as @ bs) s = emit_chars bs (emit_chars as s)"
  by (simp add: emit_chars_def)

lemma put_chars_emit: "put_chars cs s = emit_chars (map scast cs) s"
  by (induction cs arbitrary: s) (simp_all add: put_chars_def)

lemma emit_chars_ok:
  "disp_ok s \<Longrightarrow> disp_ok (emit_chars cs s) \<and> disp_frame s (emit_chars cs s) \<and>
    disp_abs (emit_chars cs s) = fold (scr_char (text_color s)) cs (disp_abs s)"
proof (induction cs arbitrary: s)
  case (Cons c cs)
  note k = put_char_ok [OF Cons.prems, of c]
  have "text_color (put_char c s) = text_color s" by (rule disp_frameD(1) [OF k(2)])
  then show ?case using Cons.IH [OF k(1)] disp_frame_trans [OF k(2)] k(3) by simp
qed (simp add: disp_frame_refl)

text \<open>A string outside the screen is still there after some output.\<close>

definition off_screen :: "addr \<Rightarrow> nat \<Rightarrow> bool" where
  "off_screen a n \<longleftrightarrow> n < 2 ^ 32 \<and> region a n \<inter> region CTVM_BASE 4000 = {}"

lemma off_screen_tail: "off_screen a (Suc n) \<Longrightarrow> off_screen (a + 1) n \<and> a \<notin> region CTVM_BASE 4000"
  unfolding off_screen_def using region_Suc [of n a] by auto

lemma cstr_frame:
  "disp_frame s t \<Longrightarrow> off_screen a (Suc (length xs)) \<Longrightarrow> cstr (mem s) a xs \<Longrightarrow> cstr (mem t) a xs"
proof (induction xs arbitrary: a)
  case Nil
  then show ?case using disp_frameD(4) [OF Nil(1)] off_screen_tail [OF Nil(2)] by simp
next
  case (Cons x xs)
  have o: "off_screen (a + 1) (Suc (length xs))" "a \<notin> region CTVM_BASE 4000"
    using off_screen_tail [of a "Suc (length xs)"] Cons.prems(2) by simp_all
  show ?case using Cons.IH [OF Cons.prems(1) o(1)] Cons.prems(3) disp_frameD(4) [OF Cons.prems(1) o(2)] by simp
qed

lemma puts_emit:
  "disp_ok s \<Longrightarrow> cstr (mem s) a xs \<Longrightarrow> off_screen a (Suc (length xs)) \<Longrightarrow> puts a s = Some (emit_chars (map scast xs) s)"
proof (induction xs arbitrary: a s)
  case Nil
  then show ?case by (subst puts.simps) simp
next
  case (Cons x xs)
  note k = put_char_ok [OF Cons.prems(1), of "scast x"]
  have o: "off_screen (a + 1) (Suc (length xs))"
    using off_screen_tail [of a "Suc (length xs)"] Cons.prems(3) by simp
  have c: "mem s a = x" "x \<noteq> 0" "cstr (mem s) (a + 1) xs" using Cons.prems(2) by simp_all
  have "puts (a + 1) (put_char (scast x) s) = Some (emit_chars (map scast xs) (put_char (scast x) s))"
    by (rule Cons.IH [OF k(1) cstr_frame [OF k(2) o c(3)] o])
  then show ?case by (subst puts.simps) (simp add: c)
qed

section \<open>Numbers\<close>

definition int_out :: "u32 \<Rightarrow> u32 list" where
  "int_out n = map scast ((if sint n < 0 then [45] else []) @ dec (nat \<bar>sint n\<bar>))"

text \<open>\<open>0x\<close> and the eight digits of a number to the base 16, the most significant one first.\<close>

definition hex_out :: "u32 \<Rightarrow> u32 list" where
  "hex_out n = map of_char ''0x'' @ map (\<lambda>i. of_char (''0123456789abcdef'' ! (unat n div 16 ^ i mod 16))) (rev [0..<8])"

text \<open>The digits of \<open>put_hex\<close>.\<close>

lemma hex_digit_value:
  assumes "i < 8"
  shows "hex_digit n i = (let d = unat n div 16 ^ i mod 16 in of_nat (if d < 10 then d + 48 else d + 87))"
proof -
  have m: "(0x0f :: u32) = mask 4" by (simp add: mask_eq_exp_minus_1)
  define d where "d = unat n div 16 ^ i mod 16"
  have d: "d < 16" by (simp add: d_def)
  have "signed_drop_bit (i * 4) n AND 0x0f = drop_bit (i * 4) n AND 0x0f"
    unfolding m using assms by (intro bit_word_eqI) (auto simp: bit_simps bit_signed_drop_bit_iff)
  moreover have "unat (drop_bit (i * 4) n AND 0x0f) = d"
    unfolding m unat_and_mask unat_drop_bit d_def by (simp add: power_mult power_commutes mult.commute [of i])
  ultimately have v: "signed_drop_bit (i * 4) n AND 0x0f = of_nat d" by (metis of_nat_unat ucast_id)
  have "sint (of_nat d :: u32) = int d" using d by (intro sint_of_nat_32) simp
  then show ?thesis unfolding hex_digit_def v d_def [symmetric] Let_def using d by simp
qed

lemma hex_char: "d < 16 \<Longrightarrow> of_nat (if d < 10 then d + 48 else d + 87) = (of_char (''0123456789abcdef'' ! d) :: u32)"
proof -
  have "\<forall>d\<in>set [0..<16]. of_nat (if d < 10 then d + 48 else d + 87) = (of_char (''0123456789abcdef'' ! d) :: u32)"
    by (simp add: upt_rec)
  then show "d < 16 \<Longrightarrow> of_nat (if d < 10 then d + 48 else d + 87) = (of_char (''0123456789abcdef'' ! d) :: u32)" by simp
qed

lemma put_hex_digits: "put_hex n s = emit_chars ([48, 120] @ map (hex_digit n) (rev [0..<8])) s"
proof -
  have "put_hex_loop i n t = emit_chars (map (hex_digit n) (rev [0..<i])) t" for i t
    by (induction i arbitrary: t) simp_all
  then show ?thesis by (simp add: put_hex_def put_chars_emit)
qed

lemma put_hex_emit: "put_hex n s = emit_chars (hex_out n) s"
proof -
  have e: "map (hex_digit n) (rev [0..<8]) = map (\<lambda>i. of_char (''0123456789abcdef'' ! (unat n div 16 ^ i mod 16))) (rev [0..<8])"
  proof (rule map_cong [OF refl])
    fix i assume "i \<in> set (rev [0..<8])"
    then have "hex_digit n i = (let d = unat n div 16 ^ i mod 16 in of_nat (if d < 10 then d + 48 else d + 87))"
      by (intro hex_digit_value) simp
    then show "hex_digit n i = of_char (''0123456789abcdef'' ! (unat n div 16 ^ i mod 16))"
      unfolding Let_def by (simp only: hex_char [OF mod_less_divisor [of 16]] zero_less_numeral)
  qed
  show ?thesis unfolding put_hex_digits hex_out_def e [symmetric] by simp
qed

lemma skip_zeros_Cons:
  "k \<le> length buf \<Longrightarrow> skip_zeros (Suc k) (c # buf) =
    (case skip_zeros k buf of Some i \<Rightarrow> Some (Suc i) | None \<Rightarrow> if c = 48 then None else Some 0)"
  by (induction k) auto

lemma length_int_digits [simp]: "length (int_digits k n) = k"
  by (induction k arbitrary: n) simp_all

lemma skip_zeros_zero: "skip_zeros k (int_digits k 0) = None"
proof (induction k)
  case (Suc k)
  have "int_digits (Suc k) 0 = 48 # int_digits k 0" by (simp add: signed_modulo_int_def signed_divide_int_def)
  then show ?case using Suc by (simp add: skip_zeros_Cons del: int_digits.simps skip_zeros.simps)
qed simp

lemma int_digits_dec:
  "0 < N \<Longrightarrow> N < 10 ^ k \<Longrightarrow> \<exists>i. skip_zeros k (int_digits k (int N)) = Some i \<and> rev (take (Suc i) (int_digits k (int N))) = dec N"
proof (induction k arbitrary: N)
  case (Suc k)
  let ?c = "48 + of_nat (N mod 10) :: u8" and ?b = "int_digits k (int (N div 10))"
  have m: "int N smod 10 = int (N mod 10)" "int N sdiv 10 = int (N div 10)"
    using smod_int [of N 10] sdiv_int [of N 10] by simp_all
  have e: "int_digits (Suc k) (int N) = ?c # ?b" by (simp add: m add.commute)
  note sk = skip_zeros_Cons [of k ?b ?c]
  show ?case
  proof (cases "N < 10")
    case True
    then have "N div 10 = 0" "N mod 10 = N" by simp_all
    moreover have "(of_nat N :: u8) \<noteq> 0"
    proof
      assume "(of_nat N :: u8) = 0"
      then have "unat (of_nat N :: u8) = 0" by simp
      then show False using True Suc.prems(1) by (simp add: unat_of_nat take_bit_nat_eq_self)
    qed
    ultimately have "skip_zeros (Suc k) (int_digits (Suc k) (int N)) = Some 0"
      unfolding e using sk by (simp add: skip_zeros_zero)
    moreover have "rev (take (Suc 0) (int_digits (Suc k) (int N))) = dec N"
      unfolding e using True by (subst dec.simps) simp
    ultimately show ?thesis by blast
  next
    case False
    have "0 < N div 10" "N div 10 < 10 ^ k" using False Suc.prems(2) by (simp_all add: less_mult_imp_div_less)
    from Suc.IH [OF this] obtain i where i: "skip_zeros k ?b = Some i" "rev (take (Suc i) ?b) = dec (N div 10)" by blast
    have "skip_zeros (Suc k) (int_digits (Suc k) (int N)) = Some (Suc i)" unfolding e using sk i(1) by simp
    moreover have "rev (take (Suc (Suc i)) (int_digits (Suc k) (int N))) = dec N"
      unfolding e using False i(2) by (subst dec.simps) simp
    ultimately show ?thesis by blast
  qed
qed simp

lemma dec_0: "dec 0 = [48]"
  by (subst dec.simps) simp

lemma scast_48: "scast (48 :: u8) = (48 :: u32)" "scast (45 :: u8) = (45 :: u32)"
  by simp_all

lemma put_int_emit:
  assumes "n \<noteq> 0x80000000"
  shows "put_int n s = Inr (emit_chars (int_out n) s)"
proof (cases "n = 0")
  case True
  then show ?thesis by (simp add: put_int_def int_out_def dec_0)
next
  case False
  obtain m where m: "m < 2 ^ 32" "unat n = m" "sint n = (if m < 2 ^ 31 then int m else int m - 2 ^ 32)"
    by (rule sint_cases_32 [of n]) blast
  define N where "N = (if m < 2 ^ 31 then m else 2 ^ 32 - m)"
  have m0: "0 < m" "m \<noteq> 2 ^ 31"
  proof -
    show "0 < m" using False m(2) by (simp add: unat_gt_0 flip: m(2))
    show "m \<noteq> 2 ^ 31"
    proof
      assume "m = 2 ^ 31"
      then have "unat n = unat (0x80000000 :: u32)" using m(2) by simp
      then show False using assms by (simp only: word_unat_eq_iff)
    qed
  qed
  have N: "0 < N" "N < 2 ^ 31" using m0 m(1) by (auto simp: N_def)
  have neg: "sint n < 0 \<longleftrightarrow> \<not> m < 2 ^ 31" using m by auto
  have "unat (if sint n < 0 then - n else n) = N"
    using m(2) False unat_uminus_32 [OF False] unfolding neg by (simp add: N_def)
  then have v: "sint (if sint n < 0 then - n else n) = int N" using small_signed N(2) by metis
  have a: "nat \<bar>sint n\<bar> = N" using m(1) unfolding m(3) N_def by auto
  have "N < 10 ^ 10" using N(2) by simp
  from int_digits_dec [OF N(1) this] obtain i where
    i: "skip_zeros 10 (int_digits 10 (int N)) = Some i" "rev (take (Suc i) (int_digits 10 (int N))) = dec N" by blast
  show ?thesis
    using False unfolding put_int_def Let_def v i option.case put_chars_emit int_out_def a by simp
qed

definition lower_hex_value :: "u32 \<Rightarrow> nat" where
  "lower_hex_value c = (if unat c < 58 then unat c - 48 else unat c - 87)"

lemma lower_hex_digit: "i < 8 \<Longrightarrow> lower_hex_value (hex_digit n i) = unat n div 16 ^ i mod 16"
proof -
  assume i: "i < 8"
  define d where "d = unat n div 16 ^ i mod 16"
  have d: "d < 16" by (simp add: d_def)
  then have "unat (of_nat (if d < 10 then d + 48 else d + 87) :: u32) = (if d < 10 then d + 48 else d + 87)"
    by (intro unat_of_nat_32) simp
  then show ?thesis
    unfolding lower_hex_value_def hex_digit_value [OF i] Let_def d_def [symmetric] using d by simp
qed

section \<open>Formatted output\<close>

text \<open>What a conversion prints; \<open>str\<close> gives the strings that arguments point to.\<close>

definition conv_out :: "(addr \<Rightarrow> u8 list) \<Rightarrow> u8 \<Rightarrow> u32 \<Rightarrow> u32 list" where
  "conv_out str f v =
     (if f = 99 then [v] else if f = 115 then map scast (str v) else if f = 100 then int_out v else hex_out v)"

fun fmt_out :: "(addr \<Rightarrow> u8 list) \<Rightarrow> u8 list \<Rightarrow> u32 list \<Rightarrow> u32 list" where
  "fmt_out str [] vs = []"
| "fmt_out str [c] vs = (if c = 37 then [] else [scast c])"
| "fmt_out str (c # f # cs) vs =
     (if c \<noteq> 37 then scast c # fmt_out str (f # cs) vs
      else if f \<in> {99, 115, 100, 120} then conv_out str f (hd vs) @ fmt_out str cs (tl vs)
      else fmt_out str cs vs)"

text \<open>
  A format fits its arguments: it does not end in a lone percent sign, there is an argument for each
  conversion, a string argument points to a string outside the screen, and no number is the least
  integer.
\<close>

definition conv_ok :: "memory \<Rightarrow> (addr \<Rightarrow> u8 list) \<Rightarrow> u8 \<Rightarrow> u32 \<Rightarrow> bool" where
  "conv_ok m str f v \<longleftrightarrow> (f = 115 \<longrightarrow> cstr m v (str v) \<and> off_screen v (Suc (length (str v)))) \<and> (f = 100 \<longrightarrow> v \<noteq> 0x80000000)"

fun fmt_ok :: "memory \<Rightarrow> (addr \<Rightarrow> u8 list) \<Rightarrow> u8 list \<Rightarrow> u32 list \<Rightarrow> bool" where
  "fmt_ok m str [] vs = True"
| "fmt_ok m str [c] vs = (c \<noteq> 37)"
| "fmt_ok m str (c # f # cs) vs =
     (if c \<noteq> 37 then fmt_ok m str (f # cs) vs
      else if f \<in> {99, 115, 100, 120} then vs \<noteq> [] \<and> conv_ok m str f (hd vs) \<and> fmt_ok m str cs (tl vs)
      else fmt_ok m str cs vs)"

text \<open>The arguments on the stack.\<close>

primrec args_at :: "memory \<Rightarrow> addr \<Rightarrow> u32 list \<Rightarrow> bool" where
  "args_at m ap [] \<longleftrightarrow> True"
| "args_at m ap (v # vs) \<longleftrightarrow> ld32 m ap = v \<and> region ap 4 \<inter> region CTVM_BASE 4000 = {} \<and> args_at m (ap + 4) vs"

lemma args_at_frame: "disp_frame s t \<Longrightarrow> args_at (mem s) ap vs \<Longrightarrow> args_at (mem t) ap vs"
proof (induction vs arbitrary: ap)
  case (Cons v vs)
  then have "ld32 (mem t) ap = ld32 (mem s) ap" by (intro ld32_cong disp_frameD(4)) auto
  then show ?case using Cons by simp
qed simp

lemma conv_ok_frame: "disp_frame s t \<Longrightarrow> conv_ok (mem s) str f v \<Longrightarrow> conv_ok (mem t) str f v"
  using cstr_frame by (auto simp: conv_ok_def)

lemma fmt_ok_frame: "disp_frame s t \<Longrightarrow> fmt_ok (mem s) str cs vs \<Longrightarrow> fmt_ok (mem t) str cs vs"
  by (induction "mem s" str cs vs rule: fmt_ok.induct) (auto simp: conv_ok_frame split: if_splits)

text \<open>The format string, with the position not at the end of the address space.\<close>

definition fmt_at :: "'a disp_state_scheme \<Rightarrow> addr \<Rightarrow> u8 list \<Rightarrow> bool" where
  "fmt_at s p cs \<longleftrightarrow> cstr (mem s) p cs \<and> off_screen p (Suc (length cs)) \<and> unat p + length cs < 2 ^ 32"

lemma fmt_at_frame: "disp_frame s t \<Longrightarrow> fmt_at s p cs \<Longrightarrow> fmt_at t p cs"
  using cstr_frame by (auto simp: fmt_at_def)

lemma fmt_at_tail:
  assumes "fmt_at s p (c # cs)"
  shows "fmt_at s (p + 1) cs" "mem s p = c" "c \<noteq> 0" "p + 1 \<noteq> 0"
proof -
  have "unat p + 1 < 2 ^ 32" using assms by (simp add: fmt_at_def)
  then have u: "unat (p + 1) = unat p + 1" using unat_add_32 [of p 1] by simp
  then show "p + 1 \<noteq> 0" by auto
  show "fmt_at s (p + 1) cs" "mem s p = c" "c \<noteq> 0"
    using assms off_screen_tail [of p "Suc (length cs)"] u by (auto simp: fmt_at_def)
qed

lemma printf_loop_ok:
  "disp_ok s \<Longrightarrow> fmt_at s p cs \<Longrightarrow> args_at (mem s) ap vs \<Longrightarrow> fmt_ok (mem s) str cs vs \<Longrightarrow>
    printf_loop p ap s = Some (Inr (emit_chars (fmt_out str cs vs) s))"
proof (induction str cs vs arbitrary: p ap s rule: fmt_out.induct)
  case (1 str vs)
  then have "mem s p = 0" by (simp add: fmt_at_def)
  then show ?case by (subst printf_loop.simps) simp
next
  case (2 str c vs)
  note F = fmt_at_tail [OF 2(2)] and k = put_char_ok [OF 2(1), of "scast c"]
  have "mem (put_char (scast c) s) (p + 1) = 0" using fmt_at_frame [OF k(2) F(1)] by (simp add: fmt_at_def)
  then have "printf_loop (p + 1) ap (put_char (scast c) s) = Some (Inr (put_char (scast c) s))"
    by (subst printf_loop.simps) simp
  moreover have "c \<noteq> 37" using 2(4) by simp
  ultimately show ?case using F by (subst printf_loop.simps) simp
next
  case (3 str c f cs vs)
  note F = fmt_at_tail [OF 3(5)]
  show ?case
  proof (cases "c = 37")
    case False
    note k = put_char_ok [OF 3(4), of "scast c"]
    have "printf_loop (p + 1) ap (put_char (scast c) s) = Some (Inr (emit_chars (fmt_out str (f # cs) vs) (put_char (scast c) s)))"
      using False 3(7) by (intro 3(1) k(1) fmt_at_frame [OF k(2) F(1)] args_at_frame [OF k(2) 3(6)] fmt_ok_frame [OF k(2)]) simp_all
    then show ?thesis using F False by (subst printf_loop.simps) simp
  next
    case True
    note F2 = fmt_at_tail [OF F(1)]
    have F3: "fmt_at s (p + 2) cs" using F2(1) by (simp add: add.assoc)
    show ?thesis
    proof (cases "f \<in> {99, 115, 100, 120}")
      case conv: True
      then obtain v vs' where vs: "vs = v # vs'" and cv: "conv_ok (mem s) str f v" and ok': "fmt_ok (mem s) str cs vs'"
        using 3(7) True by (cases vs) auto
      have ap: "ld32 (mem s) ap = v" "args_at (mem s) (ap + 4) vs'" using 3(6) vs by simp_all
      let ?t = "emit_chars (conv_out str f v) s"
      note e = emit_chars_ok [OF 3(4), of "conv_out str f v"]
      have ih: "printf_loop (p + 2) (ap + 4) ?t = Some (Inr (emit_chars (fmt_out str cs vs') ?t))"
        using 3(2) [of ?t "p + 2" "ap + 4"] True conv vs e fmt_at_frame [OF _ F3] args_at_frame [OF _ ap(2)] fmt_ok_frame [OF _ ok'] by simp
      have "printf_loop p ap s = printf_loop (p + 2) (ap + 4) ?t"
        using conv
      proof (elim insertE emptyE)
        assume f: "f = 99"
        then show ?thesis using F F2 True ap(1) by (subst printf_loop.simps) (simp add: conv_out_def)
      next
        assume f: "f = 115"
        then have "puts v s = Some ?t" using puts_emit [OF 3(4)] cv by (simp add: conv_ok_def conv_out_def)
        then show ?thesis using f F F2 True ap(1) by (subst printf_loop.simps) simp
      next
        assume f: "f = 100"
        then have "put_int v s = Inr ?t" using put_int_emit cv by (simp add: conv_ok_def conv_out_def)
        then show ?thesis using f F F2 True ap(1) by (subst printf_loop.simps) simp
      next
        assume f: "f = 120"
        then have "put_hex v s = ?t" using put_hex_emit by (simp add: conv_out_def)
        then show ?thesis using f F F2 True ap(1) by (subst printf_loop.simps) simp
      qed
      then show ?thesis using ih True conv vs by (simp add: emit_chars_append)
    next
      case False
      have "printf_loop (p + 2) ap s = Some (Inr (emit_chars (fmt_out str cs vs) s))"
        using 3(3) [OF _ False 3(4) F3 3(6)] 3(7) True False by simp
      then show ?thesis using F F2 True False by (subst printf_loop.simps) simp
    qed
  qed
qed

section \<open>Blank lines\<close>

lemma scr_puts:
  "length L = 2000 \<Longrightarrow> p + n \<le> 2000 \<Longrightarrow> (scr_put b v ^^ n) (L, p) = (take p L @ replicate n v @ drop (p + n) L, p + n)"
proof (induction n)
  case (Suc n)
  have "(take p L @ replicate n v @ drop (p + n) L)[p + n := v] = take p L @ replicate (Suc n) v @ drop (p + Suc n) L"
  proof -
    have "drop (p + n) L = L ! (p + n) # drop (p + Suc n) L"
      using Suc.prems by (simp add: Cons_nth_drop_Suc)
    moreover have "length (take p L @ replicate n v) = p + n" using Suc.prems by simp
    ultimately have "(take p L @ replicate n v @ drop (p + n) L)[p + n := v] =
        (take p L @ replicate n v) @ v # drop (p + Suc n) L"
      by (metis append.assoc list_update_length)
    also have "\<dots> = take p L @ replicate (Suc n) v @ drop (p + Suc n) L"
      by (metis append.assoc append_Cons append_Nil replicate_append_same replicate_Suc)
    finally show ?thesis .
  qed
  then show ?case using Suc by (simp add: scr_put_def)
qed simp

lemma clear_lines:
  assumes "disp_ok s" "unat (cur_pos s) = 0" "n \<le> 25"
  shows "disp_ok ((put_char 10 ^^ n) s) \<and> disp_frame s ((put_char 10 ^^ n) s) \<and>
    disp_abs ((put_char 10 ^^ n) s) =
      (replicate (80 * n) (text_color s OR 32) @ drop (80 * n) (fst (disp_abs s)), 80 * n)"
  using assms(3)
proof (induction n)
  case 0
  then show ?case using assms(1,2) by (simp add: disp_frame_refl disp_abs_def)
next
  case (Suc n)
  let ?t = "(put_char 10 ^^ n) s" and ?b = "text_color s OR 32"
  have t: "disp_ok ?t" "disp_frame s ?t" "text_color ?t = text_color s"
    "disp_abs ?t = (replicate (80 * n) ?b @ drop (80 * n) (fst (disp_abs s)), 80 * n)"
    using Suc disp_frameD(1) by auto
  note k = put_char_ok [OF t(1), of 10]
  have len: "length (fst (disp_abs s)) = 2000" by (simp add: disp_abs_def)
  let ?L = "replicate (80 * n) ?b @ drop (80 * n) (fst (disp_abs s))"
  have "scr_char (text_color s) 10 (?L, 80 * n) = (scr_put ?b ?b ^^ 80) (?L, 80 * n)"
    by (simp add: scr_char_def)
  also have "\<dots> = (take (80 * n) ?L @ replicate 80 ?b @ drop (80 * n + 80) ?L, 80 * n + 80)"
    using Suc.prems len by (intro scr_puts) simp_all
  also have "take (80 * n) ?L @ replicate 80 ?b @ drop (80 * n + 80) ?L =
      replicate (80 * Suc n) ?b @ drop (80 * Suc n) (fst (disp_abs s))"
  proof -
    have "take (80 * n) ?L = replicate (80 * n) ?b" using Suc.prems len by simp
    moreover have "drop (80 * n + 80) ?L = drop (80 * Suc n) (fst (disp_abs s))"
      using Suc.prems len by (simp add: add.commute)
    moreover have "replicate (80 * Suc n) ?b = replicate (80 * n) ?b @ replicate 80 ?b"
      unfolding replicate_add [symmetric] by simp
    ultimately show ?thesis by (simp only: append.assoc)
  qed
  finally have "disp_abs (put_char 10 ?t) =
      (replicate (80 * Suc n) ?b @ drop (80 * Suc n) (fst (disp_abs s)), 80 * Suc n)"
    unfolding k(3) t(3,4) by simp
  moreover have "(put_char 10 ^^ Suc n) s = put_char 10 ?t" by simp
  ultimately show ?case using k(1) disp_frame_trans [OF t(2) k(2)] by (simp only: simp_thms)
qed

section \<open>Properties\<close>

text \<open>
  C31. \<open>put_char\<close> writes a character to the next of the 2000 cells, after scrolling the screen up by a line
  when it is full; a newline fills the line with blanks, a tabulator that stays on the line prints
  eight. Nothing but the screen is written, and the position stays between 0 and 2000.
\<close>

theorem put_char_refines:
  assumes "disp_ok s"
  shows "disp_abs (put_char ch s) = scr_char (text_color s) ch (disp_abs s) \<and> disp_ok (put_char ch s) \<and>
    (\<forall>x. x \<notin> region CTVM_BASE 4000 \<longrightarrow> mem (put_char ch s) x = mem s x)"
  using put_char_ok [OF assms] by (simp add: disp_frame_def)

definition disp_start :: disp_state where
  "disp_start = \<lparr>mem = (\<lambda>_. 0), io = [], dev = (\<lambda>_ _. 0), cur_pos = 2000, text_color = 0x0700\<rparr>"

theorem put_char_refines_witness: "snd (disp_abs (put_char 65 disp_start)) = 1921"
proof -
  have "disp_ok disp_start" by (simp add: disp_ok_def disp_start_def)
  then show ?thesis
    using put_char_refines [of disp_start 65] by (simp add: scr_char_def scr_put_def disp_abs_def [of disp_start])
      (simp add: disp_start_def)
qed

text \<open>
  C30. Given an argument for each of its conversions, \<open>printf\<close> returns and prints the text of its format with
  each conversion replaced by its argument: \<open>%c\<close> as the character, \<open>%s\<close> as the string it points to, \<open>%d\<close> in
  decimal and \<open>%x\<close> as \<open>0x\<close> and the eight digits to the base 16; the screen is that of the characters printed
  one by one, and nothing else is written. This holds for formats that do not end in a lone \<open>%\<close>, strings
  that lie outside the screen and numbers for \<open>%d\<close> other than the least integer: a format that ends in \<open>%\<close> is
  overrun (\<open>printf_percent_overrun\<close>), and the least integer is printed as punctuation (\<open>put_int_decimal\<close>).
\<close>

theorem printf_correct:
  assumes "disp_ok s" "fmt_at s fmt cs" "args_at (mem s) args vs" "fmt_ok (mem s) str cs vs"
  shows "\<exists>s'. printf fmt args s = Some (Inr s') \<and>
    disp_abs s' = fold (scr_char (text_color s)) (fmt_out str cs vs) (disp_abs s) \<and> disp_ok s' \<and>
    (\<forall>x. x \<notin> region CTVM_BASE 4000 \<longrightarrow> mem s' x = mem s x)"
  using printf_loop_ok [OF assms] emit_chars_ok [OF assms(1), of "fmt_out str cs vs"]
  by (simp add: printf_def disp_frame_def)

text \<open>The format \<open>n=%d\<close> at 0x1000 with the argument -42 at 0x2000.\<close>

definition printf_start :: disp_state where
  "printf_start = disp_start\<lparr>mem := st32 (st32 ((\<lambda>_. 0)(0x1004 := 0)) 0x1000 0x64253d6e) 0x2000 (- 42)\<rparr>"

theorem printf_correct_witness:
  "\<exists>s'. printf 0x1000 0x2000 printf_start = Some (Inr s') \<and>
    disp_abs s' = fold (scr_char 0x0700) [110, 61, 45, 52, 50] (disp_abs printf_start)"
proof -
  have "int_out (- 42) = [45, 52, 50]"
  proof -
    have "sint (- 42 :: u32) = - 42" by simp
    moreover have "dec 42 = [52, 50]" by (subst dec.simps, subst dec.simps) simp
    ultimately show ?thesis by (simp add: int_out_def)
  qed
  then have out: "fmt_out (\<lambda>_. []) [110, 61, 37, 100] [- 42] = [110, 61, 45, 52, 50]" by (simp add: conv_out_def)
  have rd: "region 0x1000 5 \<inter> region 0x2000 4 = {}" by (intro region_apartI) simp_all
  have scr: "region a 5 \<inter> region CTVM_BASE 4000 = {}" if "unat a + 5 \<le> unat (CTVM_BASE)" for a
    using that by (intro region_ordered) simp_all
  have 1: "disp_ok printf_start" by (simp add: disp_ok_def printf_start_def disp_start_def)
  have "off_screen 0x1000 5" unfolding off_screen_def by (rule conjI, simp, rule scr) simp
  moreover have "Suc (length [110, 61, 37, 100 :: u8]) = 5" by simp
  moreover have "cstr (mem printf_start) 0x1000 [110, 61, 37, 100]"
    by (simp add: printf_start_def st32_def)
  moreover have "unat (0x1000 :: addr) + length [110, 61, 37, 100 :: u8] < 2 ^ 32" by simp
  ultimately have 2: "fmt_at printf_start 0x1000 [110, 61, 37, 100]"
    unfolding fmt_at_def by (simp only: simp_thms)
  have "region 0x2000 4 \<inter> region CTVM_BASE 4000 = {}" by (intro region_ordered) simp_all
  then have 3: "args_at (mem printf_start) 0x2000 [- 42]" by (simp add: printf_start_def)
  have 4: "fmt_ok (mem printf_start) (\<lambda>_. []) [110, 61, 37, 100] [- 42]" by (simp add: conv_ok_def)
  have col: "text_color printf_start = 0x0700" by (simp add: printf_start_def disp_start_def)
  show ?thesis using printf_correct [OF 1 2 3 4] unfolding out col by blast
qed

text \<open>
  A format that ends in a percent sign runs past its end: the final zero is taken as the conversion,
  and \<open>printf\<close> goes on with whatever follows the string in memory.
\<close>

theorem printf_percent_overrun:
  assumes "mem s p = 37" "mem s (p + 1) = 0" "p + 1 \<noteq> 0"
  shows "printf p args s = printf (p + 2) args s"
  unfolding printf_def by (subst printf_loop.simps) (simp add: assms)

theorem printf_percent_overrun_witness:
  "printf 0x1000 0x2000 (disp_start\<lparr>mem := (\<lambda>_. 0)(0x1000 := 37, 0x1002 := 65)\<rparr>) =
    printf 0x1002 0x2000 (disp_start\<lparr>mem := (\<lambda>_. 0)(0x1000 := 37, 0x1002 := 65)\<rparr>)"
  using printf_percent_overrun [of "disp_start\<lparr>mem := (\<lambda>_. 0)(0x1000 := 37, 0x1002 := 65)\<rparr>" "0x1000" "0x2000"] by simp

text \<open>
  \<open>put_int\<close> prints every integer but the least in decimal, with a sign and without leading zeros. The
  least integer is its own negative: its digits come out as punctuation.
\<close>

theorem put_int_decimal:
  "(n \<noteq> 0x80000000 \<longrightarrow> put_int n s =
      Inr (put_chars ((if sint n < 0 then [45] else []) @ dec (nat \<bar>sint n\<bar>)) s)) \<and>
    put_int 0x80000000 s = Inr (put_chars [45, 46, 47, 44, 41, 44, 40, 45, 42, 44, 40] s)"
proof
  show "n \<noteq> 0x80000000 \<longrightarrow> put_int n s = Inr (put_chars ((if sint n < 0 then [45] else []) @ dec (nat \<bar>sint n\<bar>)) s)"
    using put_int_emit unfolding put_chars_emit int_out_def by blast
  have "int_digits 10 (- 2147483648) = [40, 44, 42, 45, 40, 44, 41, 44, 47, 46]"
    by (simp add: numeral_eq_Suc signed_modulo_int_def signed_divide_int_def)
  moreover have "skip_zeros 10 [40, 44, 42, 45, 40, 44, 41, 44, 47, 46] = Some 9" by (simp add: numeral_eq_Suc)
  moreover have "sint (0x80000000 :: u32) = - 2147483648" by simp
  ultimately show "put_int 0x80000000 s = Inr (put_chars [45, 46, 47, 44, 41, 44, 40, 45, 42, 44, 40] s)"
    by (simp add: put_int_def Let_def put_chars_def)
qed

theorem put_int_decimal_witness:
  "put_int 305 disp_start = Inr (put_chars [51, 48, 53] disp_start)"
proof -
  have d: "dec 305 = [51, 48, 53]" by (subst dec.simps, subst dec.simps, subst dec.simps) simp
  have "(305 :: u32) \<noteq> 0x80000000" "sint (305 :: u32) = 305" by simp_all
  then show ?thesis using put_int_decimal [of 305 disp_start] by (simp add: d)
qed

text \<open>
  \<open>put_hex\<close> prints \<open>0x\<close> and eight lower case digits that read back as the number.
\<close>

theorem put_hex_roundtrip:
  "\<exists>ds. put_hex n s = emit_chars ([48, 120] @ ds) s \<and> length ds = 8 \<and>
    foldl (\<lambda>v c. 16 * v + lower_hex_value c) 0 ds = unat n"
proof -
  let ?ds = "map (hex_digit n) (rev [0..<8])"
  have "unat n < 2 ^ 32" by (rule order.strict_trans2 [OF unsigned_less]) simp
  then have "unat n mod 16 ^ 8 = unat n" by simp
  moreover have "foldl (\<lambda>v c. 16 * v + lower_hex_value c) 0 ?ds = foldl (\<lambda>v j. 16 * v + unat n div 16 ^ j mod 16) 0 (rev [0..<8])"
    unfolding foldl_map by (rule foldl_cong) (simp_all add: lower_hex_digit)
  ultimately have "foldl (\<lambda>v c. 16 * v + lower_hex_value c) 0 ?ds = unat n"
    using hex_digits_value [of "unat n" 0 8] by simp
  moreover have "put_hex n s = emit_chars ([48, 120] @ ?ds) s" unfolding put_hex_digits ..
  ultimately show ?thesis by (intro exI [of _ ?ds]) simp
qed

text \<open>
  \<open>clear_screen\<close> leaves 2000 blank cells and the position at the start, from any position.
\<close>

theorem clear_screen_blank:
  "disp_abs (clear_screen s) = (replicate 2000 (text_color s OR 32), 0)"
proof -
  let ?s = "set_pos 0 s"
  have "disp_ok ?s" "unat (cur_pos ?s) = 0" "text_color ?s = text_color s" by (simp_all add: set_pos_def disp_ok_def)
  then have "disp_abs ((put_char 10 ^^ 25) ?s) = (replicate 2000 (text_color s OR 32), 2000)"
    using clear_lines [of ?s 25] by (simp add: disp_abs_def)
  then show ?thesis by (simp add: clear_screen_def set_pos_def [of 0 "(put_char 10 ^^ 25) ?s"] disp_abs_def)
qed

end
