(* ===== verification/Except.thy ===== *)
theory Except
  imports Interrupts DisplayProps
begin

text \<open>
  The handlers of the processor's exceptions, \<open>kernel/except.c\<close>, and the entry points of
  \<open>kernel/except_asm.S\<close> that call them, instruction by instruction on the registers and the stack. Each
  handler stops the machine with a message. The linker places the string literals: the argument \<open>lit\<close> gives
  the address of a literal. A handler calls \<open>panic\<close> without further arguments, and \<open>args\<close> is the place of the
  stack where they would be. As elsewhere, the stack frames of the C functions are not part of memory.
\<close>

section \<open>Handlers\<close>





















section \<open>Entry points\<close>

text \<open>The registers that the entry points save and change.\<close>

record cpu_state = disp_state +
  r_eax :: u32
  r_ecx :: u32
  r_edx :: u32
  r_ebx :: u32
  r_esp :: u32
  r_ebp :: u32
  r_esi :: u32
  r_edi :: u32
  r_eip :: u32
  r_cs :: u16
  r_eflags :: u32
  r_ss :: u16

text \<open>\<open>pusha\<close> stores the eight general registers, with \<open>esp\<close> as it was before; \<open>popa\<close> drops that word.\<close>

definition pusha :: "'a cpu_state_scheme \<Rightarrow> 'a cpu_state_scheme" where
  "pusha s =
     (let e = r_esp s;
          m = st32 (mem s) (e - 4) (r_eax s);
          m = st32 m (e - 8) (r_ecx s);
          m = st32 m (e - 12) (r_edx s);
          m = st32 m (e - 16) (r_ebx s);
          m = st32 m (e - 20) e;
          m = st32 m (e - 24) (r_ebp s);
          m = st32 m (e - 28) (r_esi s);
          m = st32 m (e - 32) (r_edi s)
      in s\<lparr>mem := m, r_esp := e - 32\<rparr>)"

definition popa :: "'a cpu_state_scheme \<Rightarrow> 'a cpu_state_scheme" where
  "popa s =
     (let e = r_esp s; m = mem s
      in s\<lparr>r_edi := ld32 m e, r_esi := ld32 m (e + 4), r_ebp := ld32 m (e + 8), r_ebx := ld32 m (e + 16),
          r_edx := ld32 m (e + 20), r_ecx := ld32 m (e + 24), r_eax := ld32 m (e + 28), r_esp := e + 32\<rparr>)"

text \<open>\<open>cli\<close> clears the interrupt flag, bit 9.\<close>

definition cli_if :: "'a cpu_state_scheme \<Rightarrow> 'a cpu_state_scheme" where
  "cli_if s = cli (s\<lparr>r_eflags := unset_bit 9 (r_eflags s)\<rparr>)"





section \<open>Messages\<close>










text \<open>
  \<open>pusha\<close> and \<open>cli\<close> write the 32 bytes below the stack pointer; what the display reads elsewhere stays.
\<close>

lemma pusha_cli_sel [simp]:
  "text_color (cli_if (pusha s)) = text_color s" "cur_pos (cli_if (pusha s)) = cur_pos s"
  "io (cli_if (pusha s)) = Cli # io s" "r_eflags (cli_if (pusha s)) = unset_bit 9 (r_eflags s)"
  by (simp_all add: cli_if_def cli_def emit_def pusha_def Let_def)




text \<open>
  If a handler returned with the stack as it was, the interrupted code would get back its registers.
\<close>

lemma popa_pusha:
  defines "t \<equiv> \<lambda>s. popa (cli_if (pusha s))"
  shows "r_eax (t s) = r_eax s" "r_ecx (t s) = r_ecx s" "r_edx (t s) = r_edx s" "r_ebx (t s) = r_ebx s"
    "r_ebp (t s) = r_ebp s" "r_esi (t s) = r_esi s" "r_edi (t s) = r_edi s" "r_esp (t s) = r_esp s"
proof -
  define b where "b = r_esp s - 32"
  then have e: "r_esp s - 4 = b + 28" "r_esp s - 8 = b + 24" "r_esp s - 12 = b + 20" "r_esp s - 16 = b + 16"
    "r_esp s - 20 = b + 12" "r_esp s - 24 = b + 8" "r_esp s - 28 = b + 4" "r_esp s - 32 = b" "b + 32 = r_esp s"
    by simp_all
  show "r_eax (t s) = r_eax s" "r_ecx (t s) = r_ecx s" "r_edx (t s) = r_edx s" "r_ebx (t s) = r_ebx s"
    "r_ebp (t s) = r_ebp s" "r_esi (t s) = r_esi s" "r_edi (t s) = r_edi s" "r_esp (t s) = r_esp s"
    unfolding t_def popa_def pusha_def cli_if_def cli_def emit_def Let_def by (simp_all add: e fields)
qed






end
