(* ===== verification/PhysMap.thy ===== *)
theory PhysMap
  imports BuddyInit
begin

text \<open>
  The kernel's mapping of physical memory, \<open>map_all_memory\<close> of \<open>kernel/mm.c\<close>: page tables behind the
  kernel image map all memory above the first 4 MB at \<open>KVM_BASE\<close>. Page tables are reached through
  their kernel addresses.
\<close>

section \<open>The code\<close>

abbreviation (input) PAGE_TABLE_ENTRY_CNT :: nat where "PAGE_TABLE_ENTRY_CNT \<equiv> 1024"

primrec set_page_table_loop :: "nat \<Rightarrow> addr \<Rightarrow> u32 \<Rightarrow> u32 \<Rightarrow> memory \<Rightarrow> memory" where
  "set_page_table_loop 0 page_table_entry phy_addr flags m = m"
| "set_page_table_loop (Suc n) page_table_entry phy_addr flags m =
     set_page_table_loop n (page_table_entry + 4) (phy_addr + PAGE_SIZE) flags
       (st32 m page_table_entry (phy_addr OR flags))"

definition set_page_table :: "addr \<Rightarrow> u32 \<Rightarrow> u32 \<Rightarrow> memory \<Rightarrow> memory" where
  "set_page_table page_table_addr phy_addr flags m =
     set_page_table_loop PAGE_TABLE_ENTRY_CNT page_table_addr phy_addr flags m"

text \<open>For sizes near 4 GB the physical address wraps around and the loop does not end.\<close>

partial_function (option) map_loop :: "u32 \<Rightarrow> u32 \<Rightarrow> addr \<Rightarrow> 'a mm_state_scheme \<Rightarrow> 'a mm_state_scheme option" where
  "map_loop phy_addr max_phy_addr pagedir_entry s =
     (if phy_addr < max_phy_addr then
        let s = s\<lparr>mem := st32 (mem s) pagedir_entry (pa (img_end s) OR 0x07)\<rparr>;
            s = s\<lparr>mem := set_page_table (img_end s) phy_addr 0x07 (mem s)\<rparr>
        in map_loop (phy_addr + PAGE_SIZE * 1024) max_phy_addr (pagedir_entry + 4) (s\<lparr>img_end := img_end s + PAGE_SIZE\<rparr>)
      else Some s)"

definition map_all_memory :: "u32 \<Rightarrow> 'a mm_state_scheme \<Rightarrow> 'a mm_state_scheme option" where
  "map_all_memory page_cnt s =
     (let phy_addr = push_bit 20 4;
          max_phy_addr = push_bit 12 page_cnt;
          pagedir_entry = kpagedir s + 0x0c04;
          s = s\<lparr>img_end := img_end_sym s\<rparr>;
          s = s\<lparr>img_end := PAGE_ALIGN (img_end s)\<rparr>
      in map_loop phy_addr max_phy_addr pagedir_entry s)"

section \<open>The processor's translation\<close>

definition PAGE_PRESENT :: "u32 \<Rightarrow> bool" where
  "PAGE_PRESENT e \<longleftrightarrow> e AND 1 \<noteq> 0"

text \<open>The page table that a directory entry points to, at its kernel address.\<close>

definition table_of :: "u32 \<Rightarrow> addr" where
  "table_of e = (e AND NOT 0xfff) + KVM_BASE"

definition translate :: "memory \<Rightarrow> addr \<Rightarrow> u32 \<Rightarrow> u32 option" where
  "translate m pd va =
     (let pde = ld32 m (pd + 4 * drop_bit 22 va);
          pte = ld32 m (table_of pde + 4 * (drop_bit 12 va AND 0x3ff))
      in if PAGE_PRESENT pde \<and> PAGE_PRESENT pte then Some ((pte AND NOT 0xfff) OR (va AND 0xfff)) else None)"

section \<open>Page tables\<close>

lemma set_page_table_loop_ok:
  assumes "4 * n \<le> 2 ^ 32"
  shows "k < n \<Longrightarrow> ld32 (set_page_table_loop n a p f m) (a + of_nat (4 * k)) = (p + of_nat k * PAGE_SIZE) OR f"
    "x \<notin> region a (4 * n) \<Longrightarrow> set_page_table_loop n a p f m x = m x"
proof -
  have out: "x \<notin> region a (4 * n) \<Longrightarrow> set_page_table_loop n a p f m x = m x" if "4 * n \<le> 2 ^ 32" for x n a p m
    using that
  proof (induction n arbitrary: a p m)
    case (Suc n)
    have "region (a + of_nat (4 * 1)) (4 * n) \<subseteq> region a (4 * Suc n)"
      by (rule region_offset_subset) simp
    moreover have "region a 4 \<subseteq> region a (4 * Suc n)" by (rule region_mono) simp
    ultimately have x: "x \<notin> region (a + 4) (4 * n)" "x \<notin> region a 4" using Suc.prems(1) by auto
    have "4 * n \<le> 2 ^ 32" using Suc.prems(2) by simp
    from Suc.IH [OF x(1) this] st32_out [OF x(2)] show ?case by simp
  qed simp
  then show "x \<notin> region a (4 * n) \<Longrightarrow> set_page_table_loop n a p f m x = m x" using assms by blast
  show "k < n \<Longrightarrow> ld32 (set_page_table_loop n a p f m) (a + of_nat (4 * k)) = (p + of_nat k * PAGE_SIZE) OR f"
    using assms
  proof (induction n arbitrary: a p m k)
    case (Suc n)
    show ?case
    proof (cases k)
      case 0
      have "region a 4 \<inter> region (a + 4) (4 * n) = {}"
      proof (rule region_apartI)
        have "unat (- 4 :: u32) = 2 ^ 32 - unat (4 :: u32)" by (rule unat_uminus_32) simp
        then show "4 * n \<le> unat (a - (a + 4))" using Suc.prems(2) by simp
      qed simp
      then have "ld32 (set_page_table_loop n (a + 4) (p + PAGE_SIZE) f (st32 m a (p OR f))) a = ld32 (st32 m a (p OR f)) a"
        using Suc.prems(2) by (intro ld32_cong out) auto
      then show ?thesis using 0 by simp
    next
      case (Suc j)
      then show ?thesis using Suc.IH [of j "a + 4" "p + PAGE_SIZE" "st32 m a (p OR f)"] Suc.prems
        by (simp add: algebra_simps)
    qed
  qed simp
qed

lemma set_page_table_ok:
  "k < 1024 \<Longrightarrow> ld32 (set_page_table a p f m) (a + of_nat (4 * k)) = (p + of_nat k * PAGE_SIZE) OR f"
  "x \<notin> region a 4096 \<Longrightarrow> set_page_table a p f m x = m x"
  using set_page_table_loop_ok [of 1024] by (simp_all add: set_page_table_def)

text \<open>The tables made so far: \<open>j\<close> directory entries from \<open>d\<close> on, with the tables at \<open>t\<close>.\<close>

definition mapped :: "addr \<Rightarrow> addr \<Rightarrow> nat \<Rightarrow> memory \<Rightarrow> bool" where
  "mapped d t j m \<longleftrightarrow>
     (\<forall>i<j. ld32 m (d + of_nat (4 * i)) = pa (t + of_nat (4096 * i)) OR 7 \<and>
       (\<forall>k<1024. ld32 m (t + of_nat (4096 * i) + of_nat (4 * k)) = (of_nat (Suc i) * 0x400000 + of_nat k * PAGE_SIZE) OR 7))"

lemma mapped_step:
  assumes ord: "unat d + 4 * Suc j \<le> unat t" "unat t + 4096 * Suc j \<le> 2 ^ 32" and M: "mapped d t j m"
  defines "m1 \<equiv> st32 m (d + of_nat (4 * j)) (pa (t + of_nat (4096 * j)) OR 7)"
  defines "m2 \<equiv> set_page_table (t + of_nat (4096 * j)) (of_nat (Suc j) * 0x400000) 7 m1"
  shows "mapped d t (Suc j) m2"
    "x \<notin> region d (4 * Suc j) \<Longrightarrow> x \<notin> region t (4096 * Suc j) \<Longrightarrow> m2 x = m x"
proof -
  have dl: "unat d + 4 * Suc j \<le> 2 ^ 32" using ord by linarith
  have dt: "region d (4 * Suc j) \<inter> region t (4096 * Suc j) = {}" by (rule region_ordered [OF ord])
  have ej: "region (d + of_nat (4 * i)) 4 \<subseteq> region d (4 * Suc j)" if "i \<le> j" for i
    using that dl by (intro region_elem_array) simp_all
  have tj: "region (t + of_nat (4096 * i)) 4096 \<subseteq> region t (4096 * Suc j)" if "i \<le> j" for i
    using that ord(2) by (intro region_elem_array) simp_all
  have kt: "region (t + of_nat (4096 * i) + of_nat (4 * k)) 4 \<subseteq> region (t + of_nat (4096 * i)) 4096" if "k < 1024" for i k
    using that by (intro region_elem_array) simp_all
  have 2: "m2 x = m1 x" if "x \<notin> region (t + of_nat (4096 * j)) 4096" for x
    unfolding m2_def using set_page_table_ok(2) [OF that] .
  have 1: "m1 x = m x" if "x \<notin> region (d + of_nat (4 * j)) 4" for x
    unfolding m1_def using that by (rule st32_out)
  show "m2 x = m x" if "x \<notin> region d (4 * Suc j)" "x \<notin> region t (4096 * Suc j)"
  proof -
    have "x \<notin> region (d + of_nat (4 * j)) 4" "x \<notin> region (t + of_nat (4096 * j)) 4096"
      using that ej [of j] tj [of j] by blast+
    then show ?thesis using 1 2 by simp
  qed
  show "mapped d t (Suc j) m2"
    unfolding mapped_def
  proof (intro allI impI)
    fix i assume i: "i < Suc j"
    show "ld32 m2 (d + of_nat (4 * i)) = pa (t + of_nat (4096 * i)) OR 7 \<and>
      (\<forall>k<1024. ld32 m2 (t + of_nat (4096 * i) + of_nat (4 * k)) = (of_nat (Suc i) * 0x400000 + of_nat k * PAGE_SIZE) OR 7)"
    proof (cases "i = j")
      case True
      have "ld32 m2 (d + of_nat (4 * j)) = ld32 m1 (d + of_nat (4 * j))"
        using ej [of j] tj [of j] dt by (intro ld32_cong 2) auto
      then show ?thesis
        unfolding True using set_page_table_ok(1) [of _ "t + of_nat (4096 * j)" "of_nat (Suc j) * 0x400000" 7 m1]
        unfolding m2_def [symmetric] by (simp add: m1_def del: of_nat_mult of_nat_Suc)
    next
      case False
      then have ij: "i < j" using i by simp
      have dj: "region (d + of_nat (4 * i)) 4 \<inter> region (d + of_nat (4 * j)) 4 = {}"
        using ij dl by (intro region_array) auto
      then have e: "ld32 m2 (d + of_nat (4 * i)) = ld32 m (d + of_nat (4 * i))"
      proof -
        have "region (d + of_nat (4 * i)) 4 \<subseteq> region d (4 * Suc j)" using ej ij by simp
        then have "region (d + of_nat (4 * i)) 4 \<inter> region (t + of_nat (4096 * j)) 4096 = {}"
          using tj [of j] dt by blast
        then show ?thesis using dj by (intro trans [OF ld32_cong [OF 2] ld32_cong [OF 1]]) blast+
      qed
      have tt: "region (t + of_nat (4096 * i)) 4096 \<inter> region (t + of_nat (4096 * j)) 4096 = {}"
        using ij ord(2) by (intro region_array) auto
      have f: "ld32 m2 (t + of_nat (4096 * i) + of_nat (4 * k)) = ld32 m (t + of_nat (4096 * i) + of_nat (4 * k))" if "k < 1024" for k
      proof -
        have "region (t + of_nat (4096 * i)) 4096 \<subseteq> region t (4096 * Suc j)" using tj ij by simp
        then have "region (t + of_nat (4096 * i)) 4096 \<inter> region (d + of_nat (4 * j)) 4 = {}"
          using ej [of j] dt by blast
        then show ?thesis using kt [OF that, of i] tt
          by (intro trans [OF ld32_cong [OF 2] ld32_cong [OF 1]]) blast+
      qed
      show ?thesis unfolding e using M ij f by (simp add: mapped_def)
    qed
  qed
qed

lemma map_loop_ok:
  assumes ord: "unat d + 4 * n \<le> unat t" "unat t + 4096 * n \<le> 2 ^ 32" and n: "n \<le> 255"
    and mx: "\<And>j. j \<le> n \<Longrightarrow> (of_nat (Suc j) * 0x400000 :: u32) < mxa \<longleftrightarrow> j < n"
  shows "j \<le> n \<Longrightarrow> mapped d t j (mem s) \<Longrightarrow> img_end s = t + of_nat (4096 * j) \<Longrightarrow>
    \<exists>m. map_loop (of_nat (Suc j) * 0x400000) mxa (d + of_nat (4 * j)) s = Some (s\<lparr>mem := m, img_end := t + of_nat (4096 * n)\<rparr>) \<and>
      mapped d t n m \<and> (\<forall>x. x \<notin> region d (4 * n) \<longrightarrow> x \<notin> region t (4096 * n) \<longrightarrow> m x = mem s x)"
proof (induction "n - j" arbitrary: j s)
  case 0
  then have "j = n" by simp
  then show ?case
    using 0 mx [of n] by (subst map_loop.simps) (auto intro!: exI [of _ "mem s"] simp del: of_nat_Suc of_nat_mult)
next
  case (Suc k)
  then have j: "j < n" by simp
  let ?m1 = "st32 (mem s) (d + of_nat (4 * j)) (pa (t + of_nat (4096 * j)) OR 7)"
  let ?m2 = "set_page_table (t + of_nat (4096 * j)) (of_nat (Suc j) * 0x400000) 7 ?m1"
  let ?s = "s\<lparr>mem := ?m2, img_end := t + of_nat (4096 * Suc j)\<rparr>"
  have "4 * Suc j \<le> 4 * n" "4096 * Suc j \<le> 4096 * n" using j by simp_all
  then have "unat d + 4 * Suc j \<le> unat t" "unat t + 4096 * Suc j \<le> 2 ^ 32" using ord by linarith+
  note st = mapped_step [OF this Suc.prems(2)]
  have step: "map_loop (of_nat (Suc j) * 0x400000) mxa (d + of_nat (4 * j)) s =
      map_loop (of_nat (Suc (Suc j)) * 0x400000) mxa (d + of_nat (4 * Suc j)) ?s"
    using mx [of j] j by (subst map_loop.simps) (simp add: Suc.prems(3) algebra_simps)
  have "\<exists>m. map_loop (of_nat (Suc (Suc j)) * 0x400000) mxa (d + of_nat (4 * Suc j)) ?s =
        Some (?s\<lparr>mem := m, img_end := t + of_nat (4096 * n)\<rparr>) \<and>
      mapped d t n m \<and> (\<forall>x. x \<notin> region d (4 * n) \<longrightarrow> x \<notin> region t (4096 * n) \<longrightarrow> m x = mem ?s x)"
    using Suc.hyps(2) j st(1) by (intro Suc.hyps(1)) simp_all
  then obtain m where m: "map_loop (of_nat (Suc (Suc j)) * 0x400000) mxa (d + of_nat (4 * Suc j)) ?s =
        Some (?s\<lparr>mem := m, img_end := t + of_nat (4096 * n)\<rparr>)" "mapped d t n m"
      "\<And>x. x \<notin> region d (4 * n) \<Longrightarrow> x \<notin> region t (4096 * n) \<Longrightarrow> m x = ?m2 x" by auto
  have sub: "region d (4 * Suc j) \<subseteq> region d (4 * n)" "region t (4096 * Suc j) \<subseteq> region t (4096 * n)"
    using j by (intro region_mono; simp)+
  have "m x = mem s x" if "x \<notin> region d (4 * n)" "x \<notin> region t (4096 * n)" for x
    unfolding m(3) [OF that] using st(2) that sub by blast
  then show ?case using m(1,2) unfolding step by auto
qed

section \<open>Properties\<close>

text \<open>
  The kernel's page directory lies below the page-aligned end of the image, and the \<open>n\<close> tables that
  \<open>page_cnt\<close> pages need fit behind it.
\<close>

definition tables_for :: "u32 \<Rightarrow> nat" where
  "tables_for page_cnt = (unat page_cnt - 1) div 1024"

definition image_ok :: "u32 \<Rightarrow> 'a mm_state_scheme \<Rightarrow> bool" where
  "image_ok page_cnt s \<longleftrightarrow>
     unat (kpagedir s) + 4096 \<le> unat (img_end_sym s) \<and> unat (img_end_sym s) + 4096 * (tables_for page_cnt + 1) < 2 ^ 32 \<and>
     unat page_cnt \<le> 2 ^ 18"

lemma map_all_memory_ok:
  assumes "image_ok page_cnt s"
  defines "t \<equiv> PAGE_ALIGN (img_end_sym s)" and "d \<equiv> kpagedir s + 0xc04" and "n \<equiv> tables_for page_cnt"
  shows "\<exists>m. map_all_memory page_cnt s = Some (s\<lparr>mem := m, img_end := t + of_nat (4096 * n)\<rparr>) \<and>
    mapped d t n m \<and> (\<forall>x. x \<notin> region d (4 * n) \<longrightarrow> x \<notin> region t (4096 * n) \<longrightarrow> m x = mem s x)"
    "unat d + 4 * n \<le> unat t" "unat t + 4096 * n \<le> 2 ^ 32" "4096 dvd unat t" "n \<le> 255"
    "unat (img_end_sym s) \<le> unat t" "unat d = unat (kpagedir s) + 0xc04"
proof -
  note I = assms(1) [unfolded image_ok_def, folded n_def]
  show n: "n \<le> 255"
  proof -
    have "unat page_cnt \<le> 262144" using I by simp
    then have "unat page_cnt - 1 \<le> 262143" by linarith
    from div_le_mono [OF this, of 1024] show ?thesis unfolding n_def tables_for_def by simp
  qed
  have "unat (img_end_sym s) + 0x1000 \<le> 2 ^ 32" using I by simp
  note pb = PAGE_ALIGN_bounds [OF this, folded t_def]
  show "4096 dvd unat t" unfolding pb(3) by simp
  show i: "unat (img_end_sym s) \<le> unat t" by (rule pb(1))
  have t2: "unat t < unat (img_end_sym s) + 4096" using pb(2) by simp
  show t3: "unat t + 4096 * n \<le> 2 ^ 32" using t2 I by simp
  show dd: "unat d = unat (kpagedir s) + 0xc04"
    unfolding d_def using unat_add_32 [of "kpagedir s" "0xc04"] I by simp
  show o: "unat d + 4 * n \<le> unat t" unfolding dd using I i n by simp
  have mx: "(of_nat (Suc j) * 0x400000 :: u32) < push_bit 12 page_cnt \<longleftrightarrow> j < n" if "j \<le> n" for j
  proof -
    have c: "unat page_cnt * 4096 < 2 ^ 32" using I by simp
    have p: "push_bit 12 page_cnt = of_nat (unat page_cnt * 4096)" by (simp add: push_bit_eq_mult)
    have 1: "unat (push_bit 12 page_cnt) = unat page_cnt * 4096" unfolding p using c by (rule unat_of_nat_32)
    have "Suc j * 0x400000 < 2 ^ 32" using that n by simp
    then have "unat (of_nat (Suc j * 0x400000) :: u32) = Suc j * 0x400000" by (rule unat_of_nat_32)
    then have 2: "unat (of_nat (Suc j) * 0x400000 :: u32) = Suc j * 0x400000" by simp
    have "Suc j * 0x400000 < unat page_cnt * 4096 \<longleftrightarrow> j < (unat page_cnt - 1) div 1024"
      by (cases "unat page_cnt") (auto simp: less_eq_div_iff_mult_less_eq simp flip: Suc_le_eq)
    then show ?thesis unfolding word_less_nat_alt 1 2 n_def tables_for_def .
  qed
  show "\<exists>m. map_all_memory page_cnt s = Some (s\<lparr>mem := m, img_end := t + of_nat (4096 * n)\<rparr>) \<and>
    mapped d t n m \<and> (\<forall>x. x \<notin> region d (4 * n) \<longrightarrow> x \<notin> region t (4096 * n) \<longrightarrow> m x = mem s x)"
    using map_loop_ok [OF o t3 n mx, of 0 "s\<lparr>img_end := t\<rparr>"]
    by (simp add: map_all_memory_def t_def d_def mapped_def)
qed

lemma low_bits_table:
  fixes x :: u32
  assumes "4096 dvd unat x"
  shows "(x OR 7) AND NOT 0xfff = x" "(x OR 7) AND 1 \<noteq> 0" "x AND 0xfff = 0"
proof -
  have m: "(0xfff :: u32) = mask 12" by (simp add: mask_eq_exp_minus_1)
  show z: "x AND 0xfff = 0"
    unfolding m using assms unat_and_mask [of x 12] by (simp add: word_unat_eq_iff mod_eq_0_iff_dvd)
  have b: "\<not> bit x n" if "n < 12" for n
    using arg_cong [OF z, of "\<lambda>w. bit w n"] that unfolding m by (simp add: bit_simps)
  show "(x OR 7) AND NOT 0xfff = x"
  proof (rule bit_word_eqI)
    fix n assume "n < LENGTH(32)"
    moreover have s: "(7 :: u32) = mask 3" by (simp add: mask_eq_exp_minus_1)
    moreover have "bit (7 :: u32) n \<longrightarrow> n < 12" unfolding s by (subst bit_mask_iff) auto
    ultimately show "bit ((x OR 7) AND NOT 0xfff) n = bit x n"
      unfolding m using b by (auto simp: bit_simps)
  qed
  show "(x OR 7) AND 1 \<noteq> 0"
  proof
    assume "(x OR 7) AND 1 = 0"
    then have "bit ((x OR 7) AND 1) 0 = bit (0 :: u32) 0" by simp
    then show False by (simp add: bit_simps)
  qed
qed

lemma dvd_pa: "4096 dvd unat x \<Longrightarrow> 4096 dvd unat (pa x)"
proof -
  assume x: "4096 dvd unat x"
  have e: "pa x = x + 0x40000000" by (simp add: pa_def)
  have "unat (pa x) = (unat x + unat (0x40000000 :: u32)) mod 2 ^ 32"
    unfolding e unat_word_ariths(1) by simp
  moreover have "4096 dvd (unat x + unat (0x40000000 :: u32)) mod 2 ^ 32"
    using x by (intro dvd_mod) simp_all
  ultimately show ?thesis by simp
qed

lemma mapped_translate:
  assumes M: "mapped (kp + 0xc04) t (tables_for page_cnt) m" and t: "4096 dvd unat t"
    "unat t + 4096 * tables_for page_cnt \<le> 2 ^ 32"
    and a: "0x400000 \<le> unat a" "unat a < unat page_cnt * 4096" and c: "unat page_cnt \<le> 2 ^ 18"
  shows "translate m kp (a + KVM_BASE) = Some a"
proof -
  define A where "A = unat a"
  define i where "i = A div 0x400000 - 1"
  define k where "k = A div 4096 mod 1024"
  have A: "0x400000 \<le> A" "A < unat page_cnt * 4096" "A < 2 ^ 30" using a c by (simp_all add: A_def)
  have ad: "a = of_nat A" by (simp add: A_def)
  have i1: "Suc i = A div 0x400000" using A(1) by (simp add: i_def)
  have "A div 4096 \<le> unat page_cnt - 1" using A(2) by (simp add: less_mult_imp_div_less flip: less_Suc_eq_le)
  then have "A div 4096 div 1024 \<le> (unat page_cnt - 1) div 1024" by (rule div_le_mono)
  then have i: "i < tables_for page_cnt" using i1 by (simp add: div_mult2_eq [symmetric] tables_for_def)
  have va: "a + KVM_BASE = of_nat (A + 0xC0000000)" by (simp add: ad)
  have "A + 0xC0000000 < 2 ^ 32" using A(3) by simp
  note d = drop_bit_of_nat_32 [OF this]
  have pdi: "drop_bit 22 (a + KVM_BASE) = of_nat (0x301 + i)"
  proof -
    have "(A + 0xC0000000) div 2 ^ 22 = 0x300 + Suc i" unfolding i1 by simp
    then show ?thesis unfolding va d by simp
  qed
  have pde: "ld32 m (kp + 4 * drop_bit 22 (a + KVM_BASE)) = pa (t + of_nat (4096 * i)) OR 7"
  proof -
    have e: "kp + 4 * drop_bit 22 (a + KVM_BASE) = kp + 0xc04 + of_nat (4 * i)" unfolding pdi by simp
    show ?thesis unfolding e using M i unfolding mapped_def by blast
  qed
  have ti: "4096 dvd unat (pa (t + of_nat (4096 * i)))"
  proof (rule dvd_pa)
    have "unat t + 4096 * i < 2 ^ 32" using t(2) i by linarith
    from unat_add_32 [OF this] show "4096 dvd unat (t + of_nat (4096 * i))" using t(1) by simp
  qed
  note L = low_bits_table [OF ti]
  have tab: "table_of (pa (t + of_nat (4096 * i)) OR 7) = t + of_nat (4096 * i)"
    unfolding table_of_def L(1) by (simp add: pa_def)
  have pti: "drop_bit 12 (a + KVM_BASE) AND 0x3ff = of_nat k"
  proof -
    have m: "(0x3ff :: u32) = mask 10" by (simp add: mask_eq_exp_minus_1)
    have "unat (drop_bit 12 (a + KVM_BASE) AND 0x3ff) = (A + 0xC0000000) div 4096 mod 1024"
      unfolding m unat_and_mask unat_drop_bit va using A(3) by (simp add: unat_of_nat_32 del: of_nat_add)
    also have "A + 0xC0000000 = A + 4096 * (1024 * 768)" by simp
    also have "(A + 4096 * (1024 * 768)) div 4096 mod 1024 = k" unfolding k_def by (simp del: mult_numeral_left numeral_times_numeral)
    finally show ?thesis by (metis of_nat_unat ucast_id)
  qed
  have k: "k < 1024" by (simp add: k_def)
  define P where "P = 4096 * (A div 4096)"
  have P: "Suc i * 0x400000 + k * 4096 = P" "P + A mod 4096 = A"
  proof -
    define B where "B = A div 4096"
    have b: "A div 0x400000 = B div 1024" unfolding B_def by (simp add: div_mult2_eq [symmetric])
    have "B div 1024 * 1024 + B mod 1024 = B" by (rule div_mult_mod_eq)
    then show "Suc i * 0x400000 + k * 4096 = P"
      unfolding i1 k_def P_def b B_def [symmetric] by linarith
    show "P + A mod 4096 = A" unfolding P_def using div_mult_mod_eq [of A 4096] by linarith
  qed
  have pv: "of_nat (Suc i) * 0x400000 + of_nat k * PAGE_SIZE = (of_nat P :: u32)"
    unfolding P(1) [symmetric] by simp
  have pte: "ld32 m (t + of_nat (4096 * i) + 4 * of_nat k) = of_nat P OR 7"
  proof -
    have "ld32 m (t + of_nat (4096 * i) + of_nat (4 * k)) = (of_nat (Suc i) * 0x400000 + of_nat k * PAGE_SIZE) OR 7"
      using M i k unfolding mapped_def by blast
    then show ?thesis unfolding pv by simp
  qed
  have "P < 2 ^ 32" using P(2) A(3) by simp
  then have uP: "unat (of_nat P :: u32) = P" by (rule unat_of_nat_32)
  have "4096 dvd unat (of_nat P :: u32)" unfolding uP by (simp add: P_def)
  note LP = low_bits_table [OF this]
  have off: "(a + KVM_BASE) AND 0xfff = of_nat (A mod 4096)"
  proof -
    have m: "(0xfff :: u32) = mask 12" by (simp add: mask_eq_exp_minus_1)
    have "unat ((a + KVM_BASE) AND 0xfff) = (A + 0xC0000000) mod 4096"
      unfolding m unat_and_mask va using A(3) by (simp add: unat_of_nat_32 del: of_nat_add)
    also have "A + 0xC0000000 = A + 4096 * 786432" by simp
    also have "(A + 4096 * 786432) mod 4096 = A mod 4096" by (rule mod_mult_self2)
    finally show ?thesis by (metis of_nat_unat ucast_id)
  qed
  have "of_nat P AND ((a + KVM_BASE) AND 0xfff) = (of_nat P AND 0xfff) AND (a + KVM_BASE)" by (simp only: ac_simps)
  then have "of_nat P AND ((a + KVM_BASE) AND 0xfff) = 0" unfolding LP(3) by simp
  then have "of_nat P OR ((a + KVM_BASE) AND 0xfff) = of_nat P + ((a + KVM_BASE) AND 0xfff)"
    by (metis add_0 add.right_neutral word_plus_and_or)
  also have "\<dots> = of_nat (P + A mod 4096)" unfolding off by simp
  also have "\<dots> = a" unfolding P(2) ad ..
  finally have fin: "of_nat P OR ((a + KVM_BASE) AND 0xfff) = a" .
  show ?thesis
    unfolding translate_def pde Let_def tab pti pte PAGE_PRESENT_def LP(1) fin using L(2) LP(2) by simp
qed

text \<open>
  C10. After \<open>map_all_memory\<close> every physical address from 4 MB to the end of memory is mapped at
  \<open>KVM_BASE\<close> plus that address: the directory entry and the table entry are present and lead back to
  it. Only the directory entries used and the new tables are written, and \<open>img_end\<close> moves behind the
  tables.
\<close>

theorem map_all_memory_correct:
  assumes "image_ok page_cnt s"
  shows "\<exists>s'. map_all_memory page_cnt s = Some s' \<and>
    (\<forall>a. 0x400000 \<le> unat a \<and> unat a < unat page_cnt * 4096 \<longrightarrow> translate (mem s') (kpagedir s') (a + KVM_BASE) = Some a) \<and>
    img_end s' = PAGE_ALIGN (img_end_sym s) + of_nat (4096 * tables_for page_cnt) \<and>
    (\<forall>x. x \<notin> region (kpagedir s + 0xc04) (4 * tables_for page_cnt) \<longrightarrow>
      x \<notin> region (PAGE_ALIGN (img_end_sym s)) (4096 * tables_for page_cnt) \<longrightarrow> mem s' x = mem s x)"
proof -
  let ?t = "PAGE_ALIGN (img_end_sym s)" and ?d = "kpagedir s + 0xc04" and ?n = "tables_for page_cnt"
  note M = map_all_memory_ok [OF assms]
  obtain m where m: "map_all_memory page_cnt s = Some (s\<lparr>mem := m, img_end := ?t + of_nat (4096 * ?n)\<rparr>)" "mapped ?d ?t ?n m"
    "\<forall>x. x \<notin> region ?d (4 * ?n) \<longrightarrow> x \<notin> region ?t (4096 * ?n) \<longrightarrow> m x = mem s x"
    using M(1) by blast
  note I = assms [unfolded image_ok_def]
  have "translate m (kpagedir s) (a + KVM_BASE) = Some a" if a: "0x400000 \<le> unat a" "unat a < unat page_cnt * 4096" for a
    by (rule mapped_translate [OF m(2)]) (use a M I in simp_all)
  then show ?thesis using m by auto
qed

text \<open>A machine with 16 MB: three page tables behind an image that ends at 0xC0020000.\<close>

definition boot16 :: mm_state where
  "boot16 = \<lparr>mem = (\<lambda>_. 0), io = [], dev = (\<lambda>_ _. 0), free_area = 0xC0011000, mem_map = 0, mem_map_end = 0,
     page_count = 0, free_page_count = 0, img_end = 0, kpagedir = 0xC0010000, img_end_sym = 0xC001FF00\<rparr>"

theorem map_all_memory_correct_witness:
  "\<exists>s'. map_all_memory 4096 boot16 = Some s' \<and> translate (mem s') (kpagedir s') (0x876543 + KVM_BASE) = Some 0x876543"
proof -
  have "image_ok 4096 boot16" by (simp add: image_ok_def boot16_def tables_for_def)
  from map_all_memory_correct [OF this] obtain s' where s': "map_all_memory 4096 boot16 = Some s'"
    "\<forall>a. 0x400000 \<le> unat a \<and> unat a < unat (4096 :: u32) * 4096 \<longrightarrow> translate (mem s') (kpagedir s') (a + KVM_BASE) = Some a"
    by blast
  have "translate (mem s') (kpagedir s') (0x876543 + KVM_BASE) = Some 0x876543"
    by (rule s'(2) [rule_format]) simp
  then show ?thesis using s'(1) by blast
qed

end
