(* ===== verification/Floppy.thy ===== *)
theory Floppy
  imports Machine
begin

text \<open>
  The floppy driver \<open>kernel/floppy.c\<close> as the sequence of port accesses it makes. The transfer between
  the disk and \<open>dma_buffer\<close> is done by the DMA controller; \<open>dma_buffer\<close> is the address the linker
  gives the buffer.
\<close>

section \<open>The code\<close>

abbreviation (input) FDC_DOR :: u16 where "FDC_DOR \<equiv> 0x3f2"
abbreviation (input) FDC_FIFO :: u16 where "FDC_FIFO \<equiv> 0x3f5"
abbreviation (input) DOR_RESET :: u8 where "DOR_RESET \<equiv> 0x04"
abbreviation (input) DOR_DMA :: u8 where "DOR_DMA \<equiv> 0x08"
abbreviation (input) DOR_DRIVER0_MOTOR :: u8 where "DOR_DRIVER0_MOTOR \<equiv> 0x10"
abbreviation (input) FDC_CMD_READ :: u8 where "FDC_CMD_READ \<equiv> 0xe6"
abbreviation (input) FDC_CMD_WRITE :: u8 where "FDC_CMD_WRITE \<equiv> 0xc5"
abbreviation (input) DMA_READ :: u8 where "DMA_READ \<equiv> 0x46"
abbreviation (input) DMA_WRITE :: u8 where "DMA_WRITE \<equiv> 0x4a"
abbreviation (input) DMA_MASK_REG :: u16 where "DMA_MASK_REG \<equiv> 0x0a"
abbreviation (input) DMA_MODE_REG :: u16 where "DMA_MODE_REG \<equiv> 0x0b"
abbreviation (input) DMA_CHAN2_ADDR :: u16 where "DMA_CHAN2_ADDR \<equiv> 0x04"
abbreviation (input) DMA_CHAN2_COUNT :: u16 where "DMA_CHAN2_COUNT \<equiv> 0x05"
abbreviation (input) DISK_READ :: u32 where "DISK_READ \<equiv> 0"
abbreviation (input) DISK_WRITE :: u32 where "DISK_WRITE \<equiv> 1"

definition dma_setup :: "addr \<Rightarrow> 'a mach_scheme \<Rightarrow> 'a mach_scheme" where
  "dma_setup dma_buffer s =
     (let s = outb (DOR_DMA OR DOR_DRIVER0_MOTOR OR DOR_RESET) FDC_DOR s;
          s = outb 0x06 DMA_MASK_REG s;
          addr = ucast (pa dma_buffer AND 0xff);
          s = outb addr DMA_CHAN2_ADDR s;
          addr = ucast (drop_bit 8 (pa dma_buffer) AND 0xff);
          s = outb addr DMA_CHAN2_ADDR s;
          addr = ucast (drop_bit 16 (pa dma_buffer) AND 0xff);
          s = outb addr 0x81 s;
          s = outb 0xff DMA_CHAN2_COUNT s;
          s = outb 0x3 DMA_CHAN2_COUNT s
      in outb 0x02 DMA_MASK_REG s)"

definition dma_read_mode :: "'a mach_scheme \<Rightarrow> 'a mach_scheme" where
  "dma_read_mode s =
     (let s = outb 0x06 DMA_MASK_REG s;
          s = outb DMA_READ DMA_MODE_REG s
      in outb 0x02 DMA_MASK_REG s)"

definition dma_write_mode :: "'a mach_scheme \<Rightarrow> 'a mach_scheme" where
  "dma_write_mode s =
     (let s = outb 0x06 DMA_MASK_REG s;
          s = outb DMA_WRITE DMA_MODE_REG s
      in outb 0x02 DMA_MASK_REG s)"

text \<open>Reading \<open>n\<close> bytes of status and dropping them.\<close>

primrec drain :: "nat \<Rightarrow> u16 \<Rightarrow> 'a mach_scheme \<Rightarrow> 'a mach_scheme" where
  "drain 0 port s = s"
| "drain (Suc n) port s = drain n port (snd (inb port s))"

definition fd_rw :: "addr \<Rightarrow> u32 \<Rightarrow> u32 \<Rightarrow> 'a mach_scheme \<Rightarrow> fault + 'a mach_scheme" where
  "fd_rw dma_buffer cmd sector_linear s =
     (let sector = ucast (sector_linear mod 18 + 1) :: u8;
          sector_linear = sector_linear div 18;
          head = ucast (sector_linear mod 2) :: u8;
          track = ucast (sector_linear div 2) :: u8;
          s = dma_setup dma_buffer s
      in bindE (if cmd = DISK_READ then Inr (outb FDC_CMD_READ FDC_FIFO (dma_read_mode s))
                else if cmd = DISK_WRITE then Inr (outb FDC_CMD_WRITE FDC_FIFO (dma_write_mode s))
                else Inl (Bug ''fd_rw: unknown cmd.''))
          (\<lambda>s. let s = outb (push_bit 2 head) FDC_FIFO s;
                   s = outb track FDC_FIFO s;
                   s = outb head FDC_FIFO s;
                   s = outb sector FDC_FIFO s;
                   s = outb 2 FDC_FIFO s;
                   s = outb 18 FDC_FIFO s;
                   s = outb 0x1b FDC_FIFO s;
                   s = outb 0xff FDC_FIFO s;
                   s = drain 7 FDC_FIFO s;
                   s = outb 0x08 FDC_FIFO s;
                   s = drain 2 FDC_FIFO s
               in Inr (outb 0 FDC_DOR s)))"

definition fd_init :: "addr \<Rightarrow> 'a mach_scheme \<Rightarrow> fault + 'a mach_scheme" where
  "fd_init dma_buffer s = bindE (fd_rw dma_buffer DISK_READ 10 s) (\<lambda>s. fd_rw dma_buffer DISK_WRITE 0 s)"

text \<open>
  The wait for the interrupt, which \<open>fd_rw\<close> does not call: without an interrupt the loop does not
  end.
\<close>

definition wait_for_irq_done :: "u32 \<Rightarrow> fault + u32" where
  "wait_for_irq_done fd_irq_done = (if fd_irq_done = 0 then Inl Diverges else Inr 0)"

section \<open>What the controllers see\<close>

lemma drain_simps [simp]: "sent p (io (drain n q s)) = sent p (io s)" "mem (drain n q s) = mem s"
  by (induction n arbitrary: s) (simp_all add: inb_def emit_def Let_def)

lemma dma_simps [simp]:
  "sent FDC_FIFO (io (dma_setup b s)) = sent FDC_FIFO (io s)" "mem (dma_setup b s) = mem s"
  "sent FDC_FIFO (io (dma_read_mode s)) = sent FDC_FIFO (io s)" "mem (dma_read_mode s) = mem s"
  "sent FDC_FIFO (io (dma_write_mode s)) = sent FDC_FIFO (io s)" "mem (dma_write_mode s) = mem s"
  by (simp_all add: dma_setup_def dma_read_mode_def dma_write_mode_def Let_def)

text \<open>What \<open>fd_rw\<close> sends for a read or write command.\<close>

lemma fd_rw_sends:
  assumes "cmd = DISK_READ \<or> cmd = DISK_WRITE" "unat n < 2880"
  shows "\<exists>s' track head sector. fd_rw buf cmd n s = Inr s' \<and> mem s' = mem s \<and>
    sent FDC_FIFO (io s') = sent FDC_FIFO (io s) @
      [if cmd = DISK_READ then FDC_CMD_READ else FDC_CMD_WRITE, push_bit 2 head, track, head, sector, 2, 18, 0x1b, 0xff, 8] \<and>
    unat n = (unat track * 2 + unat head) * 18 + (unat sector - 1) \<and>
    unat track < 80 \<and> unat head < 2 \<and> unat sector \<in> {1..18}"
proof -
  define sector where "sector = (ucast (n mod 18 + 1) :: u8)"
  define head where "head = (ucast (n div 18 mod 2) :: u8)"
  define track where "track = (ucast (n div 18 div 2) :: u8)"
  obtain s' where s': "fd_rw buf cmd n s = Inr s'" "mem s' = mem s"
    "sent FDC_FIFO (io s') = sent FDC_FIFO (io s) @
      [if cmd = DISK_READ then FDC_CMD_READ else FDC_CMD_WRITE, push_bit 2 head, track, head, sector, 2, 18, 0x1b, 0xff, 8]"
    using assms(1) by (auto simp: fd_rw_def Let_def sector_def head_def track_def)
  define N where "N = unat n"
  have N: "N < 2880" using assms(2) by (simp add: N_def)
  have m18: "N mod 18 < 18" by simp
  have "unat (n mod 18 + 1) = N mod 18 + 1" using m18 by (simp add: unat_word_ariths unat_mod N_def)
  then have sec: "unat sector = N mod 18 + 1" using m18 by (simp add: sector_def unsigned_ucast_eq take_bit_nat_eq_self)
  have hd: "unat head = N div 18 mod 2"
    by (simp add: head_def unsigned_ucast_eq unat_mod unat_div N_def take_bit_nat_eq_self)
  have t80: "N div 18 div 2 < 80" using N by (simp add: div_mult2_eq [symmetric])
  then have tr: "unat track = N div 18 div 2"
    by (simp add: track_def unsigned_ucast_eq unat_div N_def take_bit_nat_eq_self)
  have "N = (N div 18) * 18 + N mod 18" "N div 18 = (N div 18 div 2) * 2 + N div 18 mod 2" by simp_all
  then have "N = (unat track * 2 + unat head) * 18 + (unat sector - 1)" unfolding sec hd tr by simp
  then show ?thesis using s' t80 sec hd tr m18 N_def by (intro exI [of _ s'] exI [of _ track] exI [of _ head] exI [of _ sector]) simp
qed

section \<open>Properties\<close>

text \<open>
  C33. \<open>fd_rw\<close> sends the controller a read or write command for the cylinder, head and sector that make up
  the linear sector number of a 1.44 MB disk, and ends by sensing the interrupt; it writes no memory
  itself.
\<close>

theorem fd_rw_command:
  assumes "cmd = DISK_READ \<or> cmd = DISK_WRITE" "unat n < 2880"
  shows "\<exists>s' track head sector. fd_rw buf cmd n s = Inr s' \<and> mem s' = mem s \<and>
    sent FDC_FIFO (io s') = sent FDC_FIFO (io s) @
      [if cmd = DISK_READ then FDC_CMD_READ else FDC_CMD_WRITE, push_bit 2 head, track, head, sector, 2, 18, 0x1b, 0xff, 8] \<and>
    unat n = (unat track * 2 + unat head) * 18 + (unat sector - 1) \<and>
    unat track < 80 \<and> unat head < 2 \<and> unat sector \<in> {1..18}"
  using assms by (rule fd_rw_sends)

theorem fd_rw_command_witness:
  "\<exists>s'. fd_rw 0xC0012000 DISK_WRITE 61 \<lparr>mem = (\<lambda>_. 0), io = [], dev = (\<lambda>_ _. 0)\<rparr> = Inr s' \<and>
    length (sent FDC_FIFO (io s')) = 10"
proof -
  have "DISK_WRITE = DISK_READ \<or> DISK_WRITE = DISK_WRITE" "unat (61 :: u32) < 2880" by simp_all
  from fd_rw_command [OF this, of "0xC0012000" "\<lparr>mem = (\<lambda>_. 0), io = [], dev = (\<lambda>_ _. 0)\<rparr>"]
  show ?thesis by (auto simp: sent_def)
qed

text \<open>
  \<open>dma_setup\<close> programs the three bytes of the physical address of the buffer (when it lies in the
  first 16 MB, which the controller can reach) and a length of 1024 bytes.
\<close>

theorem dma_setup_address:
  assumes "unat (pa buf) < 2 ^ 24"
  shows "\<exists>lo mid hi. sent DMA_CHAN2_ADDR (io (dma_setup buf s)) = sent DMA_CHAN2_ADDR (io s) @ [lo, mid] \<and>
    sent 0x81 (io (dma_setup buf s)) = sent 0x81 (io s) @ [hi] \<and>
    unat (pa buf) = unat lo + 256 * unat mid + 65536 * unat hi \<and>
    sent DMA_CHAN2_COUNT (io (dma_setup buf s)) = sent DMA_CHAN2_COUNT (io s) @ [0xff, 0x03]"
proof -
  define lo where "lo = (ucast (pa buf AND 0xff) :: u8)"
  define mid where "mid = (ucast (drop_bit 8 (pa buf) AND 0xff) :: u8)"
  define hi where "hi = (ucast (drop_bit 16 (pa buf) AND 0xff) :: u8)"
  have u: "unat (ucast (x AND 0xff) :: u8) = unat x mod 256" for x :: u32
    using unat_and_mask [of x 8] by (simp add: mask_eq_exp_minus_1 unsigned_ucast_eq take_bit_nat_eq_self)
  define A where "A = unat (pa buf)"
  have b: "unat lo = A mod 256" "unat mid = A div 256 mod 256" "unat hi = A div 65536 mod 256"
    by (simp_all add: lo_def mid_def hi_def u unat_drop_bit A_def)
  have "A div 65536 < 256" using assms by (simp add: A_def)
  then have "A div 65536 mod 256 = A div 65536" by simp
  moreover have "A = A mod 256 + 256 * (A div 256)" "A div 256 = A div 256 mod 256 + 256 * (A div 256 div 256)" by simp_all
  moreover have "A div 256 div 256 = A div 65536" by (simp add: div_mult2_eq [symmetric])
  ultimately have "A = unat lo + 256 * unat mid + 65536 * unat hi" unfolding b by linarith
  then show ?thesis unfolding A_def
    by (intro exI [of _ lo] exI [of _ mid] exI [of _ hi]) (simp add: dma_setup_def Let_def lo_def mid_def hi_def)
qed

theorem dma_setup_address_witness:
  "\<exists>hi. sent 0x81 (io (dma_setup 0xC0012000 \<lparr>mem = (\<lambda>_. 0), io = [], dev = (\<lambda>_ _. 0)\<rparr>)) = [hi]"
proof -
  have "unat (pa 0xC0012000) < 2 ^ 24" by (simp add: pa_def)
  from dma_setup_address [OF this, of "\<lparr>mem = (\<lambda>_. 0), io = [], dev = (\<lambda>_ _. 0)\<rparr>"]
  show ?thesis by (auto simp: sent_def)
qed

end
