(* ===== verification/Setup.thy ===== *)
theory Setup
  imports Machine
begin

text \<open>
  The 16-bit set-up program \<open>setup/main.c\<close>, which runs before the kernel: it prints through the
  BIOS, opens the A20 line, remaps the interrupt controllers, asks the BIOS for the memory size and
  leaves it at address 0x9000. What the BIOS answers to the memory size call is the argument \<open>e801\<close>
  (the carry flag and the registers AX and BX); string literals are given by their characters.
\<close>

section \<open>State\<close>

text \<open>\<open>bios\<close> holds the value of AX at each teletype call, latest first; \<open>pmode\<close> says that
  \<open>goto_pmode\<close> has been reached.\<close>

record setup_state = mach +
  bios :: "u16 list"
  boot_mem_size :: u32
  gdt_set :: bool
  idt_set :: bool
  pmode :: bool

section \<open>The code\<close>

definition setup_putc :: "u8 \<Rightarrow> 'a setup_state_scheme \<Rightarrow> 'a setup_state_scheme" where
  "setup_putc ch s = s\<lparr>bios := (0x0e00 OR scast ch) # bios s\<rparr>"

definition setup_putchar :: "u8 \<Rightarrow> 'a setup_state_scheme \<Rightarrow> 'a setup_state_scheme" where
  "setup_putchar ch s =
     (let s = (if ch = 10 then setup_putc 13 s else s) in setup_putc ch s)"

definition setup_puts :: "u8 list \<Rightarrow> 'a setup_state_scheme \<Rightarrow> 'a setup_state_scheme" where
  "setup_puts str s = fold setup_putchar str s"

definition setup_digit :: "u32 \<Rightarrow> nat \<Rightarrow> u8" where
  "setup_digit n i = (let t = ucast (drop_bit (i * 4) n AND 0x0f) :: u8 in if sint t < 10 then t + 48 else t + 65 - 10)"

primrec setup_hex_loop :: "nat \<Rightarrow> u32 \<Rightarrow> 'a setup_state_scheme \<Rightarrow> 'a setup_state_scheme" where
  "setup_hex_loop 0 n s = s"
| "setup_hex_loop (Suc i) n s = setup_hex_loop i n (setup_putchar (setup_digit n i) s)"

definition setup_put_hex :: "u32 \<Rightarrow> 'a setup_state_scheme \<Rightarrow> 'a setup_state_scheme" where
  "setup_put_hex n s = setup_hex_loop 8 n (setup_puts [48, 120] s)"

definition remap_pic :: "'a mach_scheme \<Rightarrow> 'a mach_scheme" where
  "remap_pic s =
     (let s = outb 0x11 0x20 s; s = io_delay s;
          s = outb 0x11 0xa0 s; s = io_delay s;
          s = outb 0x20 0x21 s; s = io_delay s;
          s = outb 0x28 0xa1 s; s = io_delay s;
          s = outb 0x04 0x21 s; s = io_delay s;
          s = outb 0x02 0xa1 s; s = io_delay s;
          s = outb 0x01 0x21 s; s = io_delay s;
          s = outb 0x01 0xa1 s; s = io_delay s;
          s = outb 0xff 0x21 s; s = io_delay s
      in outb 0xff 0xa1 s)"

definition set_gdtr :: "'a setup_state_scheme \<Rightarrow> 'a setup_state_scheme" where
  "set_gdtr s = s\<lparr>gdt_set := True\<rparr>"

definition set_idtr :: "'a setup_state_scheme \<Rightarrow> 'a setup_state_scheme" where
  "set_idtr s = s\<lparr>idt_set := True\<rparr>"

definition kill_all_irqs :: "'a mach_scheme \<Rightarrow> 'a mach_scheme" where
  "kill_all_irqs s = outb 0xff 0x21 (outb 0xff 0xa1 s)"

definition goto_pmode :: "'a setup_state_scheme \<Rightarrow> 'a setup_state_scheme" where
  "goto_pmode s = s\<lparr>pmode := True\<rparr>"

definition open_a20 :: "'a mach_scheme \<Rightarrow> 'a mach_scheme" where
  "open_a20 s = (case inb 0x92 s of (val, s) \<Rightarrow> outb (val OR 2) 0x92 s)"

text \<open>\<open>die\<close> does not return.\<close>

definition detect_memory_size :: "bool \<times> u16 \<times> u16 \<Rightarrow> 'a setup_state_scheme \<Rightarrow> fault + 'a setup_state_scheme" where
  "detect_memory_size e801 s =
     (case e801 of (err, ax, bx) \<Rightarrow>
        if err \<or> unat ax > 15 * 1024 then Inl (Bug ''detect memory error'')
        else
          let s = s\<lparr>boot_mem_size := (if unat ax = 15 * 1024 then push_bit 6 (ucast bx) + ucast ax else ucast ax)\<rparr>
          in Inr (s\<lparr>boot_mem_size := boot_mem_size s + 1024\<rparr>))"

text \<open>The copy of the four bytes of \<open>boot_info\<close>.\<close>

definition save_boot_info :: "'a setup_state_scheme \<Rightarrow> 'a setup_state_scheme" where
  "save_boot_info s = s\<lparr>mem := st32 (mem s) 0x9000 (boot_mem_size s)\<rparr>"

definition setup_msg :: "string \<Rightarrow> u8 list" where
  "setup_msg str = map (\<lambda>c. of_nat (of_char c)) str @ [10]"

definition setup_main :: "bool \<times> u16 \<times> u16 \<Rightarrow> 'a setup_state_scheme \<Rightarrow> fault + 'a setup_state_scheme" where
  "setup_main e801 s =
     (let s = cli s;
          s = kill_all_irqs s;
          s = setup_puts (setup_msg ''open a20 address line ...'') s;
          s = open_a20 s;
          s = setup_puts (setup_msg ''remaping interrupt ...'') s;
          s = remap_pic s;
          s = setup_puts (setup_msg ''detect memory ...'') s
      in bindE (detect_memory_size e801 s) (\<lambda>s.
          let s = setup_puts (map (\<lambda>c. of_nat (of_char c)) ''mem size: '') s;
              s = setup_put_hex (boot_mem_size s) s;
              s = setup_putchar 10 s;
              s = save_boot_info s;
              s = setup_puts (setup_msg ''setup gdt and idt ...'') s;
              s = set_gdtr s;
              s = set_idtr s;
              s = setup_puts (setup_msg ''enter pmode...'') s;
              s = (setup_putchar 10 ^^ 25) s
          in Inr (goto_pmode s)))"

text \<open>\<open>get_boot_info\<close> of \<open>kernel/main.c\<close>, from which the kernel takes the memory size.\<close>

definition get_boot_info :: "memory \<Rightarrow> u32" where
  "get_boot_info m = ld32 m 0x9000"

section \<open>Printing\<close>

lemma setup_puts_simps [simp]:
  "mem (setup_puts str s) = mem s" "io (setup_puts str s) = io s" "boot_mem_size (setup_puts str s) = boot_mem_size s"
  "dev (setup_puts str s) = dev s"
  by (induction str arbitrary: s) (simp_all add: setup_puts_def setup_putchar_def setup_putc_def Let_def)

lemma setup_hex_simps [simp]:
  "mem (setup_hex_loop i n s) = mem s" "io (setup_hex_loop i n s) = io s" "boot_mem_size (setup_hex_loop i n s) = boot_mem_size s"
  by (induction i arbitrary: s) (simp_all add: setup_putchar_def setup_putc_def Let_def)

lemma setup_newlines [simp]:
  "mem ((setup_putchar 10 ^^ i) s) = mem s" "io ((setup_putchar 10 ^^ i) s) = io s"
  by (induction i) (simp_all add: setup_putchar_def setup_putc_def Let_def)

text \<open>The value of an upper case hexadecimal digit.\<close>

definition hex_value :: "u16 \<Rightarrow> nat" where
  "hex_value ax = (let c = unat (ax AND 0xff) in if c < 58 then c - 48 else c - 55)"

lemma setup_digit_value:
  "setup_digit n i \<noteq> 10 \<and> hex_value (0x0e00 OR scast (setup_digit n i)) = unat n div 16 ^ i mod 16"
proof -
  have m: "(0x0f :: u32) = mask 4" by (simp add: mask_eq_exp_minus_1)
  define d where "d = unat n div 16 ^ i mod 16"
  have d: "d < 16" by (simp add: d_def)
  have "unat (drop_bit (i * 4) n AND 0x0f) = d"
    unfolding m unat_and_mask unat_drop_bit d_def by (simp add: power_mult power_commutes mult.commute [of i])
  then have "drop_bit (i * 4) n AND 0x0f = of_nat d" by (metis of_nat_unat ucast_id)
  then have t: "(ucast (drop_bit (i * 4) n AND 0x0f) :: u8) = of_nat d"
    using d by (simp add: unsigned_of_nat take_bit_nat_eq_self)
  have "\<forall>d\<in>set [0..<16]. (let t = of_nat d :: u8; c = if sint t < 10 then t + 48 else t + 65 - 10
      in c \<noteq> 10 \<and> hex_value (0x0e00 OR scast c) = d)"
    by (simp add: upt_rec hex_value_def)
  then show ?thesis unfolding setup_digit_def t d_def [symmetric] Let_def using d by simp
qed

text \<open>The eight digits, and the number they stand for.\<close>

lemma setup_hex_bios:
  "bios (setup_hex_loop i n s) = rev (map (\<lambda>j. 0x0e00 OR scast (setup_digit n j)) (rev [0..<i])) @ bios s"
proof (induction i arbitrary: s)
  case (Suc i)
  have "setup_digit n i \<noteq> 10" using setup_digit_value by blast
  then show ?case by (simp add: Suc.IH setup_putchar_def setup_putc_def)
qed simp

lemma setup_main_ok:
  assumes "unat ax \<le> 15 * 1024"
  shows "\<exists>s'. setup_main (False, ax, bx) s = Inr s' \<and>
    io s' = io (remap_pic (open_a20 (kill_all_irqs (cli s)))) \<and> pmode s' \<and> gdt_set s' \<and> idt_set s' \<and>
    mem s' = st32 (mem s) 0x9000 ((if unat ax = 15 * 1024 then push_bit 6 (ucast bx) + ucast ax else ucast ax) + 1024)"
proof -
  have h: "gdt_set (setup_puts str t) = gdt_set t" "idt_set (setup_puts str t) = idt_set t" "pmode (setup_puts str t) = pmode t"
    for str and t :: "'a setup_state_scheme"
    by (induction str arbitrary: t) (simp_all add: setup_puts_def setup_putchar_def setup_putc_def Let_def)
  have n: "gdt_set ((setup_putchar 10 ^^ i) t) = gdt_set t" "idt_set ((setup_putchar 10 ^^ i) t) = idt_set t"
    for i and t :: "'a setup_state_scheme"
    by (induction i) (simp_all add: setup_putchar_def setup_putc_def Let_def)
  have io: "io (open_a20 t) = io (open_a20 u)" "io (remap_pic t) = io (remap_pic u)"
    if "io t = io u" "dev t = dev u" for t u :: "'a setup_state_scheme"
    using that by (simp_all add: open_a20_def remap_pic_def inb_def outb_def emit_def io_delay_def Let_def)
  have a20: "dev (open_a20 t) = dev t" "mem (open_a20 t) = mem t" for t :: "'a setup_state_scheme"
    by (simp_all add: open_a20_def inb_def outb_def emit_def Let_def)
  have rp: "dev (remap_pic t) = dev t" "mem (remap_pic t) = mem t" for t :: "'a setup_state_scheme"
    by (simp_all add: remap_pic_def outb_def emit_def io_delay_def Let_def)
  define s0 where "s0 = kill_all_irqs (cli s)"
  have m0: "mem s0 = mem s" by (simp add: s0_def kill_all_irqs_def outb_def emit_def cli_def)
  define s1 where "s1 = setup_puts (setup_msg ''detect memory ...'') (remap_pic (setup_puts (setup_msg ''remaping interrupt ...'')
    (open_a20 (setup_puts (setup_msg ''open a20 address line ...'') s0))))"
  have io1: "io s1 = io (remap_pic (open_a20 s0))"
    unfolding s1_def setup_puts_simps by (intro io) (simp_all add: a20, intro io, simp_all)
  have m1: "mem s1 = mem s" by (simp add: s1_def rp a20 m0)
  have d: "\<not> (False \<or> unat ax > 15 * 1024)" using assms by simp
  show ?thesis
    unfolding setup_main_def Let_def s0_def [symmetric] s1_def [symmetric] detect_memory_size_def prod.case if_not_P [OF d]
    by (simp add: io1 m1 goto_pmode_def set_gdtr_def set_idtr_def save_boot_info_def setup_put_hex_def
      setup_putchar_def [of 10] setup_putc_def Let_def h n s0_def del: funpow.simps)
qed

section \<open>Properties\<close>

text \<open>
  C29. The set-up program hands the kernel the size of the memory in KB: one megabyte, the part below
  16 MB that the BIOS reports, and, when that part is complete, 64 KB for each block above 16 MB; the
  sum does not overflow. It writes no other memory, and it enters protected mode with the A20 line
  open and the controllers remapped.
\<close>

theorem setup_memory_size:
  assumes "unat ax \<le> 15 * 1024"
  shows "\<exists>s'. setup_main (False, ax, bx) s = Inr s' \<and> pmode s' \<and>
    unat (get_boot_info (mem s')) = 1024 + unat ax + (if unat ax = 15 * 1024 then 64 * unat bx else 0) \<and>
    (\<forall>x. x \<notin> region 0x9000 4 \<longrightarrow> mem s' x = mem s x) \<and>
    io s' = io (remap_pic (open_a20 (kill_all_irqs (cli s))))"
proof -
  obtain s' where s': "setup_main (False, ax, bx) s = Inr s'" "pmode s'"
    "io s' = io (remap_pic (open_a20 (kill_all_irqs (cli s))))"
    "mem s' = st32 (mem s) 0x9000 ((if unat ax = 15 * 1024 then push_bit 6 (ucast bx) + ucast ax else ucast ax) + 1024)"
    using setup_main_ok [OF assms] by blast
  have b: "unat bx < 65536" using unsigned_less [of bx, where 'a = nat] by simp
  have e: "push_bit 6 (ucast bx) + ucast ax + (1024 :: u32) = of_nat (64 * unat bx + unat ax + 1024)"
    "ucast ax + (1024 :: u32) = of_nat (unat ax + 1024)"
    by (simp_all add: push_bit_eq_mult)
  have "unat (get_boot_info (mem s')) = 1024 + unat ax + (if unat ax = 15 * 1024 then 64 * unat bx else 0)"
    unfolding s'(4) get_boot_info_def ld32_st32_same
  proof (cases "unat ax = 15 * 1024")
    case True
    have "64 * unat bx + unat ax + 1024 < 2 ^ 32" using b assms by simp
    note u = unat_of_nat_32 [OF this]
    show "unat ((if unat ax = 15 * 1024 then push_bit 6 (ucast bx) + ucast ax else ucast ax) + 1024 :: u32) =
      1024 + unat ax + (if unat ax = 15 * 1024 then 64 * unat bx else 0)" 
      unfolding if_P [OF True] e u by simp
  next
    case False
    have "unat ax + 1024 < 2 ^ 32" using assms by simp
    note u = unat_of_nat_32 [OF this]
    show "unat ((if unat ax = 15 * 1024 then push_bit 6 (ucast bx) + ucast ax else ucast ax) + 1024 :: u32) =
      1024 + unat ax + (if unat ax = 15 * 1024 then 64 * unat bx else 0)" 
      unfolding if_not_P [OF False] e u by simp
  qed
  then show ?thesis using s' by (auto simp: st32_out)
qed

definition setup_start :: setup_state where
  "setup_start = \<lparr>mem = (\<lambda>_. 0), io = [], dev = (\<lambda>_ _. 0), bios = [], boot_mem_size = 0, gdt_set = False,
     idt_set = False, pmode = False\<rparr>"

theorem setup_memory_size_witness:
  "\<exists>s'. setup_main (False, 15360, 256) setup_start = Inr s' \<and> unat (get_boot_info (mem s')) = 32768"
proof -
  have "unat (15360 :: u16) \<le> 15 * 1024" by simp
  from setup_memory_size [OF this, of 256 setup_start] show ?thesis by auto
qed

text \<open>
  \<open>put_hex\<close> prints \<open>0x\<close> and eight hexadecimal digits that read back as the number.
\<close>

theorem setup_hex_roundtrip:
  "\<exists>ds. bios (setup_put_hex n s) = rev ds @ [0x0e78, 0x0e30] @ bios s \<and> length ds = 8 \<and>
    foldl (\<lambda>v ax. 16 * v + hex_value ax) 0 ds = unat n"
proof -
  define D where "D = (\<lambda>j. 0x0e00 OR scast (setup_digit n j) :: u16)"
  have hv: "hex_value (D j) = unat n div 16 ^ j mod 16" for j using setup_digit_value unfolding D_def by blast
  have "unat n < 2 ^ 32" by (rule order.strict_trans2 [OF unsigned_less]) simp
  then have "unat n mod 16 ^ 8 = unat n" by simp
  then have "foldl (\<lambda>v ax. 16 * v + hex_value ax) 0 (map D (rev [0..<8])) = unat n"
    using hex_digits_value [of "unat n" 0 8] by (simp add: foldl_map hv)
  moreover have "bios (setup_put_hex n s) = rev (map D (rev [0..<8])) @ [0x0e78, 0x0e30] @ bios s"
    unfolding setup_put_hex_def setup_hex_bios D_def
    by (simp add: setup_puts_def setup_putchar_def setup_putc_def Let_def)
  ultimately show ?thesis by (intro exI [of _ "map D (rev [0..<8])"]) simp
qed

text \<open>
  \<open>remap_pic\<close> sends each controller its four initialisation words, which put the request lines at the
  vectors 0x20 to 0x2f, and then masks them all.
\<close>

theorem remap_pic_words:
  "sent 0x20 (io (remap_pic s)) = sent 0x20 (io s) @ [0x11] \<and> sent 0x21 (io (remap_pic s)) = sent 0x21 (io s) @ [0x20, 4, 1, 0xff] \<and>
    sent 0xa0 (io (remap_pic s)) = sent 0xa0 (io s) @ [0x11] \<and> sent 0xa1 (io (remap_pic s)) = sent 0xa1 (io s) @ [0x28, 2, 1, 0xff] \<and>
    mem (remap_pic s) = mem s"
  by (simp add: remap_pic_def io_delay_def emit_def Let_def)

end
