(* ===== verification/Fat.thy ===== *)
theory Fat
  imports Machine CString
begin

text \<open>
  The tables of the FAT12 file system, \<open>kernel/fat12.c\<close>: the table of 12-bit entries at \<open>fat\<close>, two
  entries in three bytes, and the root directory of 224 entries of 32 bytes at \<open>root\<close>. Both are static
  arrays; their addresses, and the address of the array \<open>fname\<close> that a function keeps on its stack, are
  arguments. A loop along a chain of clusters is a partial function: on a table with a cycle it may not
  end.
\<close>

section \<open>Entries of the table\<close>

text \<open>The index of the byte at which the entry of a cluster starts, an \<open>unsigned short\<close>.\<close>

definition fat_entry_idx :: "u16 \<Rightarrow> u16" where
  "fat_entry_idx cluster = ucast (ucast cluster * 3 div 2 :: u32)"

text \<open>The entry number \<open>i\<close>, as all of these functions read it.\<close>

definition read_entry :: "bool \<Rightarrow> addr \<Rightarrow> memory \<Rightarrow> u16" where
  "read_entry is_odd p m =
     (let next_cluster = ld16 m p;
          next_cluster = (if is_odd then drop_bit 4 next_cluster else next_cluster)
      in next_cluster AND 0x0fff)"

definition mark_entry :: "bool \<Rightarrow> addr \<Rightarrow> memory \<Rightarrow> memory" where
  "mark_entry is_odd p m =
     (if is_odd then
        let m = st16 m p (ld16 m p AND 0x000f) in st16 m p (ld16 m p OR 0xff80)
      else
        let m = st16 m p (ld16 m p AND 0xf000) in st16 m p (ld16 m p OR 0x0ff8))"

function get_free_loop :: "nat \<Rightarrow> addr \<Rightarrow> memory \<Rightarrow> int \<times> memory" where
  "get_free_loop i fat m =
     (if i < 2730 then
        let p = fat + of_nat (i * 3 div 2);
            cluster = read_entry (odd i) p m
        in if cluster = 0 then (int i, mark_entry (odd i) p m) else get_free_loop (i + 1) fat m
      else (- 1, m))"
  by pat_completeness auto
termination by (relation "measure (\<lambda>(i, _). 2730 - i)") auto

declare get_free_loop.simps [simp del]

definition get_free_fat_entry :: "addr \<Rightarrow> memory \<Rightarrow> int \<times> memory" where
  "get_free_fat_entry fat m = get_free_loop 0 fat m"

section \<open>Chains\<close>

definition link_entry :: "bool \<Rightarrow> addr \<Rightarrow> u16 \<Rightarrow> memory \<Rightarrow> memory" where
  "link_entry is_odd p next_cluster m =
     (if is_odd then
        let m = st16 m p (ld16 m p AND 0x000f) in st16 m p (ld16 m p OR push_bit 4 next_cluster)
      else
        let m = st16 m p (ld16 m p AND 0xf000) in st16 m p (ld16 m p OR (next_cluster AND 0x0fff)))"

text \<open>The inner loop of \<open>resize\<close>: \<open>n\<close> clusters are appended behind \<open>cluster\<close>, whose entry is at \<open>p\<close>.\<close>

primrec extend_loop :: "nat \<Rightarrow> addr \<Rightarrow> u16 \<Rightarrow> addr \<Rightarrow> memory \<Rightarrow> memory" where
  "extend_loop 0 fat cluster p m = m"
| "extend_loop (Suc n) fat cluster p m =
     (case get_free_fat_entry fat m of (entry, m) \<Rightarrow>
        let next_cluster = word_of_int entry;
            m = link_entry (odd cluster) p next_cluster m;
            cluster = next_cluster
        in extend_loop n fat cluster (fat + ucast (fat_entry_idx cluster)) m)"

partial_function (option) resize_loop :: "addr \<Rightarrow> u16 \<Rightarrow> int \<Rightarrow> memory \<Rightarrow> memory option" where
  "resize_loop fat cluster sect_needed m =
     (let p = fat + ucast (fat_entry_idx cluster);
          next_cluster = read_entry (odd cluster) p m
      in if next_cluster \<ge> 0xff8 then Some (extend_loop (nat sect_needed) fat cluster p m)
         else resize_loop fat next_cluster sect_needed m)"

text \<open>
  \<open>resize\<close> on the tables in memory: the result says whether the code goes on to write the tables to the
  disk.
\<close>

definition resize_tables :: "addr \<Rightarrow> addr \<Rightarrow> u32 \<Rightarrow> memory \<Rightarrow> (bool \<times> memory) option" where
  "resize_tables fat dp newsize m =
     (let cluster = ld16 m (dp + 26);
          filesize = ld32 m (dp + 28);
          sect_needed = sint ((newsize + 512) div 512 - (filesize + 512) div 512);
          m = st32 m (dp + 28) newsize
      in if sect_needed = 0 then Some (False, m)
         else Option.bind (resize_loop fat cluster sect_needed m) (\<lambda>m. Some (True, m)))"

section \<open>The directory\<close>

text \<open>The name in eight characters, padded with blanks.\<close>

definition pad_name :: "addr \<Rightarrow> addr \<Rightarrow> memory \<Rightarrow> memory" where
  "pad_name fname filename m =
     (let m = memset fname 32 8 m; m = strncpy fname filename 8 m in m(fname + 8 := 0))"

primrec dir_find :: "nat \<Rightarrow> addr \<Rightarrow> addr \<Rightarrow> memory \<Rightarrow> addr option" where
  "dir_find 0 dp fname m = None"
| "dir_find (Suc n) dp fname m = (if strncmp dp fname 8 m = 0 then Some dp else dir_find n (dp + 32) fname m)"

primrec dir_slot :: "nat \<Rightarrow> addr \<Rightarrow> memory \<Rightarrow> addr option" where
  "dir_slot 0 dp m = None"
| "dir_slot (Suc n) dp m = (if m dp = 0 then Some dp else dir_slot n (dp + 32) m)"

definition fat12_create_aux :: "addr \<Rightarrow> addr \<Rightarrow> addr \<Rightarrow> addr \<Rightarrow> memory \<Rightarrow> memory option" where
  "fat12_create_aux fat fname dir_buf filename m =
     (let m = pad_name fname filename m
      in case dir_find 224 dir_buf fname m of Some _ \<Rightarrow> Some m
         | None \<Rightarrow>
             (case dir_slot 224 dir_buf m of None \<Rightarrow> Some m
              | Some dp2 \<Rightarrow>
                  let m = memset dp2 32 11 m
                  in Option.bind (strlen m filename) (\<lambda>n.
                       let m = memcpy dp2 filename n m
                       in case get_free_fat_entry fat m of (entry, m) \<Rightarrow>
                            let m = st16 m (dp2 + 26) (word_of_int entry)
                            in Some (st32 m (dp2 + 28) 0))))"

partial_function (option) free_chain :: "addr \<Rightarrow> u16 \<Rightarrow> memory \<Rightarrow> memory option" where
  "free_chain fat cluster m =
     (let p = fat + ucast (fat_entry_idx cluster);
          next_cluster = ld16 m p;
          next_cluster = (if odd cluster then drop_bit 4 next_cluster else next_cluster AND 0xfff);
          m = (if odd cluster then st16 m p (ld16 m p AND 0x000f) else st16 m p (ld16 m p AND 0xf000))
      in if next_cluster \<ge> 0xff8 then Some m else free_chain fat next_cluster m)"

primrec remove_loop :: "nat \<Rightarrow> addr \<Rightarrow> addr \<Rightarrow> addr \<Rightarrow> memory \<Rightarrow> memory option" where
  "remove_loop 0 fat dp fname m = Some m"
| "remove_loop (Suc n) fat dp fname m =
     (if strncmp dp fname 8 m = 0 then
        Option.bind (free_chain fat (ld16 m (dp + 26)) m)
          (\<lambda>m. remove_loop n fat (dp + 32) fname (memset_loop 32 dp 0 m))
      else remove_loop n fat (dp + 32) fname m)"

definition fat12_remove_aux :: "addr \<Rightarrow> addr \<Rightarrow> addr \<Rightarrow> addr \<Rightarrow> memory \<Rightarrow> memory option" where
  "fat12_remove_aux fat fname dir_buf filename m =
     remove_loop 224 fat dir_buf fname (pad_name fname filename m)"

definition fat12_create :: "addr \<Rightarrow> addr \<Rightarrow> addr \<Rightarrow> addr \<Rightarrow> memory \<Rightarrow> memory option" where
  "fat12_create fat root fname filename m = fat12_create_aux fat fname root filename m"

definition fat12_remove :: "addr \<Rightarrow> addr \<Rightarrow> addr \<Rightarrow> addr \<Rightarrow> memory \<Rightarrow> memory option" where
  "fat12_remove fat root fname filename m = fat12_remove_aux fat fname root filename m"

section \<open>The bits of the table\<close>

text \<open>Entry \<open>i\<close> is made of the bits \<open>12 * i, ..., 12 * i + 11\<close> of the table.\<close>

definition fat_bit :: "addr \<Rightarrow> nat \<Rightarrow> memory \<Rightarrow> bool" where
  "fat_bit fat n m = bit (m (fat + of_nat (n div 8))) (n mod 8)"

definition fat_entry :: "addr \<Rightarrow> nat \<Rightarrow> memory \<Rightarrow> u16" where
  "fat_entry fat i m = read_entry (odd i) (fat + of_nat (i * 3 div 2)) m"

definition fat_put :: "addr \<Rightarrow> nat \<Rightarrow> u16 \<Rightarrow> memory \<Rightarrow> memory" where
  "fat_put fat i v m = link_entry (odd i) (fat + of_nat (i * 3 div 2)) v m"

lemma bit_and_nibbles:
  "bit (z AND 0x0fff) b \<longleftrightarrow> b < 12 \<and> bit z b" "bit (z AND 0x000f) b \<longleftrightarrow> b < 4 \<and> bit z b"
  "bit (z AND 0xf000) b \<longleftrightarrow> 12 \<le> b \<and> bit z b" for z :: u16
proof -
  have e: "(0x0fff :: u16) = mask 12" "(0x000f :: u16) = mask 4" "(0xf000 :: u16) = NOT (mask 12)"
    by (simp_all add: mask_eq_exp_minus_1)
  show "bit (z AND 0x0fff) b \<longleftrightarrow> b < 12 \<and> bit z b" "bit (z AND 0x000f) b \<longleftrightarrow> b < 4 \<and> bit z b"
    "bit (z AND 0xf000) b \<longleftrightarrow> 12 \<le> b \<and> bit z b"
    unfolding bit_and_iff e bit_not_iff bit_mask_iff by (auto dest: bit_imp_le_length)
qed

lemma bit_ld16: "bit (ld16 m (fat + of_nat c)) b \<longleftrightarrow> b < 16 \<and> fat_bit fat (8 * c + b) m"
proof (cases "b < 8")
  case True
  then show ?thesis by (auto simp: ld16_def fat_bit_def bit_simps div_add1_eq)
next
  case False
  then show ?thesis
  proof (cases "b < 16")
    case True
    with False obtain j where j: "b = 8 + j" "j < 8" by (metis add_less_cancel_left le_Suc_ex not_less numeral_Bit0)
    then have "(8 * c + b) div 8 = Suc c" "(8 * c + b) mod 8 = j" by simp_all
    then show ?thesis using j
      by (auto simp: ld16_def fat_bit_def bit_simps ac_simps dest: bit_imp_le_length)
  qed (auto dest: bit_imp_le_length)
qed

lemma fat_bit_st16:
  assumes "c < 4095" "n < 32768"
  shows "fat_bit fat n (st16 m (fat + of_nat c) v) = (if n \<in> {8 * c..<8 * c + 16} then bit v (n - 8 * c) else fat_bit fat n m)"
proof -
  have inj: "fat + of_nat a = fat + (of_nat b :: addr) \<longleftrightarrow> a = b" if "a < 4096" "b < 4096" for a b
  proof -
    have "unat (of_nat a :: addr) = a" "unat (of_nat b :: addr) = b" using that by (simp_all add: unat_of_nat_32)
    then show ?thesis by (metis add_left_cancel)
  qed
  have d: "n div 8 < 4096" using assms(2) by simp
  have c1: "fat + of_nat c + 1 = fat + (of_nat (Suc c) :: addr)" by simp
  have e: "fat + of_nat (n div 8) = fat + (of_nat c :: addr) \<longleftrightarrow> n div 8 = c"
    "fat + of_nat (n div 8) = fat + (of_nat (Suc c) :: addr) \<longleftrightarrow> n div 8 = Suc c"
    using assms(1) d by (intro inj; simp)+
  consider "n div 8 = c" | "n div 8 = Suc c" | "n div 8 \<noteq> c" "n div 8 \<noteq> Suc c" by blast
  then show ?thesis
  proof cases
    case 1
    then have "n \<in> {8 * c..<8 * c + 16}" "n - 8 * c = n mod 8" "n mod 8 < 8"
      using minus_mult_div_eq_mod [of n 8] by auto
    then show ?thesis using 1 e unfolding fat_bit_def st16_def c1 by (simp add: bit_simps)
  next
    case 2
    then have "n \<in> {8 * c..<8 * c + 16}" "n - 8 * c = n mod 8 + 8" "n mod 8 < 8"
      using minus_mult_div_eq_mod [of n 8] by auto
    moreover have "bit (ucast (drop_bit 8 v) :: u8) j = bit v (j + 8)" if "j < 8" for j
      using that by (simp add: bit_simps ac_simps)
    ultimately show ?thesis using 2 e unfolding fat_bit_def st16_def c1 by simp
  next
    case 3
    then have "n \<notin> {8 * c..<8 * c + 16}" by auto
    moreover have "fat + of_nat (n div 8) \<noteq> fat + (of_nat c :: addr)" "fat + of_nat (n div 8) \<noteq> fat + (of_nat (Suc c) :: addr)"
      using 3 e by blast+
    ultimately show ?thesis unfolding fat_bit_def st16_def c1 by (simp only: fun_upd_apply if_False)
  qed
qed


lemma bit_fat_entry: "bit (fat_entry fat i m) b \<longleftrightarrow> b < 12 \<and> fat_bit fat (12 * i + b) m"
proof -
  show ?thesis
  proof (cases "odd i")
    case True
    then obtain k where k: "i = 2 * k + 1" by (elim oddE)
    then have c: "i * 3 div 2 = 3 * k + 1" and d: "8 * (3 * k + 1) + (b + 4) = 12 * i + b" by simp_all
    have "bit (fat_entry fat i m) b \<longleftrightarrow> bit (ld16 m (fat + of_nat (3 * k + 1))) (b + 4) \<and> b < 12"
      unfolding fat_entry_def c using True
      by (auto simp: read_entry_def Let_def bit_drop_bit_eq bit_and_nibbles add.commute [of b] simp del: of_nat_add of_nat_mult of_nat_Suc)
    then show ?thesis unfolding bit_ld16 d by auto
  next
    case False
    then have "even i" by simp
    then obtain k where k: "i = 2 * k" by (elim evenE)
    then have c: "i * 3 div 2 = 3 * k" and d: "8 * (3 * k) + b = 12 * i + b" by simp_all
    have "bit (fat_entry fat i m) b \<longleftrightarrow> bit (ld16 m (fat + of_nat (3 * k))) b \<and> b < 12"
      unfolding fat_entry_def c using False
      by (auto simp: read_entry_def Let_def bit_and_nibbles simp del: of_nat_add of_nat_mult)
    then show ?thesis unfolding bit_ld16 d by auto
  qed
qed

lemma st16_st16 [simp]: "st16 (st16 m p v) p w = st16 m p w"
  by (rule ext) (simp add: st16_def)


text \<open>Putting a value changes the twelve bits of the entry only, whatever its parity.\<close>

lemma fat_bit_put:
  assumes "i < 2730" "n < 32768"
  shows "fat_bit fat n (fat_put fat i v m) = (if n \<in> {12 * i..<12 * i + 12} then bit v (n - 12 * i) else fat_bit fat n m)"
proof (cases "odd i")
  case True
  then obtain k where k: "i = 2 * k + 1" by (elim oddE)
  then have c: "i * 3 div 2 = 3 * k + 1" "3 * k + 1 < 4095" using assms(1) by simp_all
  let ?p = "fat + of_nat (3 * k + 1) :: addr"
  have e: "fat_put fat i v m = st16 m ?p ((ld16 m ?p AND 0x000f) OR push_bit 4 v)"
    unfolding fat_put_def c(1) using True by (simp add: link_entry_def Let_def del: of_nat_add of_nat_mult)
  have w: "bit ((ld16 m ?p AND 0x000f) OR push_bit 4 v) b =
      (if b < 4 then fat_bit fat (8 * (3 * k + 1) + b) m else bit v (b - 4))" if "b < 16" for b
    using that by (auto simp: bit_or_iff bit_and_nibbles bit_ld16 bit_push_bit_iff simp del: of_nat_add of_nat_mult of_nat_Suc)
  have "n - 8 * (3 * k + 1) - 4 = n - 12 * i" using k by simp
  then show ?thesis
    unfolding e fat_bit_st16 [OF c(2) assms(2)] using w [of "n - 8 * (3 * k + 1)"] k by auto
next
  case False
  then have "even i" by simp
  then obtain k where k: "i = 2 * k" by (elim evenE)
  then have c: "i * 3 div 2 = 3 * k" "3 * k < 4095" using assms(1) by simp_all
  let ?p = "fat + of_nat (3 * k) :: addr"
  have e: "fat_put fat i v m = st16 m ?p ((ld16 m ?p AND 0xf000) OR (v AND 0x0fff))"
    unfolding fat_put_def c(1) using False by (simp add: link_entry_def Let_def del: of_nat_add of_nat_mult)
  have w: "bit ((ld16 m ?p AND 0xf000) OR (v AND 0x0fff)) b =
      (if b < 12 then bit v b else fat_bit fat (8 * (3 * k) + b) m)" if "b < 16" for b
    using that by (auto simp: bit_or_iff bit_and_nibbles bit_ld16 simp del: of_nat_mult)
  have "n - 8 * (3 * k) = n - 12 * i" using k by simp
  then show ?thesis
    unfolding e fat_bit_st16 [OF c(2) assms(2)] using w [of "n - 8 * (3 * k)"] k by auto
qed

lemma fat_entry_put:
  assumes "i < 2730" "j < 2730"
  shows "fat_entry fat j (fat_put fat i v m) = (if j = i then v AND 0xfff else fat_entry fat j m)"
proof (rule bit_eqI)
  fix b
  show "bit (fat_entry fat j (fat_put fat i v m)) b = bit (if j = i then v AND 0xfff else fat_entry fat j m) b"
  proof (cases "b < 12")
    case True
    then have n: "12 * j + b < 32768" using assms(2) by simp
    have "12 * j + b \<in> {12 * i..<12 * i + 12} \<longleftrightarrow> j = i" using True by auto
    then show ?thesis
      unfolding bit_fat_entry fat_bit_put [OF assms(1) n] using True by (auto simp: bit_fat_entry bit_and_nibbles)
  next
    case False
    then show ?thesis by (auto simp: bit_fat_entry bit_and_nibbles)
  qed
qed

lemma fat_put_out: "i < 2730 \<Longrightarrow> x \<notin> region (fat + of_nat (i * 3 div 2)) 2 \<Longrightarrow> fat_put fat i v m x = m x"
  unfolding fat_put_def link_entry_def Let_def by (simp add: st16_out)

end
