(* ===== verification/FatProps.thy ===== *)
theory FatProps
  imports Fat
begin

text \<open>
  What the table operations of \<open>kernel/fat12.c\<close> do to the entries and chains of the table: an entry is
  taken, a chain is extended or freed, and nothing else in the table changes.
\<close>

section \<open>Entries\<close>

lemma mark_entry_put: "mark_entry (odd i) (fat + of_nat (i * 3 div 2)) m = fat_put fat i 0xff8 m"
  by (simp add: mark_entry_def fat_put_def link_entry_def Let_def)

lemma get_free_loop_find:
  "get_free_loop i fat m = (case find (\<lambda>j. fat_entry fat j m = 0) [i..<2730] of None \<Rightarrow> (- 1, m)
     | Some j \<Rightarrow> (int j, fat_put fat j 0xff8 m))"
proof (induction i fat m rule: get_free_loop.induct)
  case (1 i fat m)
  show ?case
  proof (cases "i < 2730")
    case True
    then have u: "[i..<2730] = i # [Suc i..<2730]" by (rule upt_conv_Cons)
    show ?thesis
      using 1 [OF True refl refl] True
      by (subst get_free_loop.simps) (simp add: u mark_entry_put fat_entry_def [symmetric] Let_def)
  next
    case False
    then show ?thesis by (subst get_free_loop.simps) simp
  qed
qed

lemma find_upt_Some:
  "find P [0..<n] = Some i \<longleftrightarrow> i < n \<and> P i \<and> (\<forall>j<i. \<not> P j)"
  by (auto simp: find_Some_iff)

lemma find_upt_None: "find P [0..<n] = None \<longleftrightarrow> (\<forall>i<n. \<not> P i)"
  by (auto simp: find_None_iff)

definition free_entries :: "addr \<Rightarrow> memory \<Rightarrow> nat set" where
  "free_entries fat m = {j. j < 2730 \<and> fat_entry fat j m = 0}"

lemma free_entriesD: "j \<in> free_entries fat m \<longleftrightarrow> j < 2730 \<and> fat_entry fat j m = 0"
  by (simp add: free_entries_def)

lemma finite_free_entries [simp]: "finite (free_entries fat m)"
  by (simp add: free_entries_def)

lemma get_free_fat_entry_cases:
  obtains (full) "free_entries fat m = {}" "get_free_fat_entry fat m = (- 1, m)"
  | (found) i where "i \<in> free_entries fat m" "\<forall>j\<in>free_entries fat m. i \<le> j"
      "get_free_fat_entry fat m = (int i, fat_put fat i 0xff8 m)"
proof (cases "find (\<lambda>j. fat_entry fat j m = 0) [0..<2730]")
  case None
  then have "\<forall>i<2730. fat_entry fat i m \<noteq> 0" by (simp add: find_upt_None)
  then have "free_entries fat m = {}" by (auto simp: free_entries_def)
  then show ?thesis using None by (intro full) (simp_all add: get_free_fat_entry_def get_free_loop_find)
next
  case (Some i)
  then have "i < 2730" "fat_entry fat i m = 0" "\<forall>j<i. fat_entry fat j m \<noteq> 0" by (simp_all add: find_upt_Some)
  then show ?thesis using Some
    by (intro found [of i]) (auto simp: get_free_fat_entry_def get_free_loop_find free_entries_def not_less [symmetric])
qed

text \<open>All writes to the table stay in it.\<close>

lemma entry_region: "i < 2730 \<Longrightarrow> region (fat + of_nat (i * 3 div 2)) 2 \<subseteq> region fat 4096"
proof -
  assume "i < 2730"
  then have "i * 3 div 2 + 2 \<le> 4096" by simp
  moreover from this have "unat (of_nat (i * 3 div 2) :: addr) = i * 3 div 2" by (intro unat_of_nat_32) simp
  ultimately show ?thesis by (intro region_offset_subset) simp
qed

lemma fat_put_frame: "i < 2730 \<Longrightarrow> x \<notin> region fat 4096 \<Longrightarrow> fat_put fat i v m x = m x"
  using entry_region by (intro fat_put_out) blast+

lemma fat_entry_cong:
  assumes "\<And>x. x \<in> region fat 4096 \<Longrightarrow> m x = m' x" "i < 2730"
  shows "fat_entry fat i m = fat_entry fat i m'"
proof -
  have "ld16 m (fat + of_nat (i * 3 div 2)) = ld16 m' (fat + of_nat (i * 3 div 2))"
    using entry_region [OF assms(2)] by (intro ld16_cong assms(1)) blast
  then show ?thesis by (simp add: fat_entry_def read_entry_def)
qed

section \<open>Chains of clusters\<close>

text \<open>The cluster \<open>c\<close> is followed by the clusters \<open>ds\<close>, and the last one ends the file.\<close>

primrec fat_chain :: "addr \<Rightarrow> memory \<Rightarrow> nat \<Rightarrow> nat list \<Rightarrow> bool" where
  "fat_chain fat m c [] \<longleftrightarrow> c < 2730 \<and> 0xff8 \<le> fat_entry fat c m"
| "fat_chain fat m c (d # ds) \<longleftrightarrow> c < 2730 \<and> 0 < d \<and> d < 2730 \<and> fat_entry fat c m = of_nat d \<and> fat_chain fat m d ds"

lemma chain_bound: "fat_chain fat m c ds \<Longrightarrow> set (c # ds) \<subseteq> {..<2730}"
  by (induction ds arbitrary: c) auto

lemma of_nat_16_less: "d < 2730 \<Longrightarrow> \<not> 0xff8 \<le> (of_nat d :: u16)" "d < 2730 \<Longrightarrow> unat (of_nat d :: u16) = d"
proof -
  show u: "unat (of_nat d :: u16) = d" if "d < 2730" for d :: nat
    using that by (simp add: unat_of_nat)
  show "\<not> 0xff8 \<le> (of_nat d :: u16)" if "d < 2730" using u [OF that] that by (simp add: word_le_nat_alt)
qed

lemma of_nat_16_inj: "d < 2730 \<Longrightarrow> e < 2730 \<Longrightarrow> (of_nat d :: u16) = of_nat e \<longleftrightarrow> d = e"
  using of_nat_16_less(2) by metis

lemma of_nat_16_nonzero: "0 < d \<Longrightarrow> d < 2730 \<Longrightarrow> (of_nat d :: u16) \<noteq> 0"
  using of_nat_16_less(2) [of d] by (metis unat_0 less_irrefl)

lemma chain_unique: "fat_chain fat m c ds \<Longrightarrow> fat_chain fat m c es \<Longrightarrow> ds = es"
proof (induction ds arbitrary: c es)
  case Nil
  then show ?case by (cases es) (auto simp: of_nat_16_less(1))
next
  case (Cons d ds)
  then show ?case by (cases es) (auto simp: of_nat_16_less(1) of_nat_16_inj)
qed

lemma chain_suffix: "fat_chain fat m c (as @ d # bs) \<Longrightarrow> fat_chain fat m d bs"
  by (induction as arbitrary: c) auto

lemma chain_distinct: "fat_chain fat m c ds \<Longrightarrow> distinct (c # ds)"
proof (induction ds arbitrary: c)
  case (Cons d ds)
  have "c \<notin> set (d # ds)"
  proof
    assume "c \<in> set (d # ds)"
    then obtain as bs where "d # ds = as @ c # bs" by (meson split_list)
    then have "d # ds = bs" "length (d # ds) = length as + Suc (length bs)"
      using Cons.prems chain_suffix [of fat m c as c bs] chain_unique by (metis, metis length_append length_Cons)
    then show False by simp
  qed
  then show ?case using Cons.IH [of d] Cons.prems by simp
qed simp

lemma chain_used: "fat_chain fat m c ds \<Longrightarrow> j \<in> set (c # ds) \<Longrightarrow> fat_entry fat j m \<noteq> 0"
  by (induction ds arbitrary: c) (auto simp: of_nat_16_nonzero)

lemma chain_end: "fat_chain fat m c ds \<Longrightarrow> 0xff8 \<le> fat_entry fat (last (c # ds)) m"
  by (induction ds arbitrary: c) auto

lemma chain_cong:
  "fat_chain fat m c ds \<Longrightarrow> (\<And>j. j \<in> set (c # ds) \<Longrightarrow> fat_entry fat j m' = fat_entry fat j m) \<Longrightarrow> fat_chain fat m' c ds"
  by (induction ds arbitrary: c) auto

text \<open>The clusters in the \<open>unsigned short\<close> variables of the code.\<close>

lemma entry_at_cluster:
  assumes "c < 2730"
  shows "fat + ucast (fat_entry_idx (of_nat c)) = fat + (of_nat (c * 3 div 2) :: addr)" "odd (of_nat c :: u16) \<longleftrightarrow> odd c"
proof -
  have "unat (ucast (of_nat c :: u16) * 3 div 2 :: u32) = c * 3 div 2"
    using assms by (simp add: unat_div unat_word_ariths unsigned_ucast_eq of_nat_16_less(2) take_bit_nat_eq_self)
  then have "unat (fat_entry_idx (of_nat c)) = c * 3 div 2"
    using assms by (simp add: fat_entry_idx_def unsigned_ucast_eq take_bit_nat_eq_self)
  then have "ucast (fat_entry_idx (of_nat c)) = (of_nat (c * 3 div 2) :: addr)"
    by (metis unsigned_of_nat of_nat_unat ucast_id of_nat_eq_iff)
  then show "fat + ucast (fat_entry_idx (of_nat c)) = fat + (of_nat (c * 3 div 2) :: addr)" by (simp only:)
  show "odd (of_nat c :: u16) \<longleftrightarrow> odd c" by simp
qed

lemmas cluster_simps = entry_at_cluster fat_entry_def [symmetric] fat_put_def [symmetric]


lemma of_nat_16_entry: "d < 2730 \<Longrightarrow> (of_nat d :: u16) AND 0xfff = of_nat d"
proof -
  assume "d < 2730"
  then have d: "unat (of_nat d :: u16) = d" "d < 2 ^ 12" by (simp_all add: of_nat_16_less(2))
  have "(0xfff :: u16) = mask 12" by (simp add: mask_eq_exp_minus_1)
  then have "(of_nat d :: u16) AND 0xfff = take_bit 12 (of_nat d)" by (simp only: take_bit_eq_mask)
  also have "\<dots> = of_nat d" using d by (simp add: take_bit_of_nat take_bit_nat_eq_self)
  finally show ?thesis .
qed

section \<open>Extending a chain\<close>

lemma resize_loop_chain:
  "fat_chain fat m c ds \<Longrightarrow> resize_loop fat (of_nat c) n m =
    Some (extend_loop (nat n) fat (of_nat (last (c # ds))) (fat + of_nat (last (c # ds) * 3 div 2)) m)"
proof (induction ds arbitrary: c)
  case Nil
  then show ?case by (subst resize_loop.simps) (simp add: cluster_simps Let_def)
next
  case (Cons d ds)
  then show ?case by (subst resize_loop.simps) (simp add: cluster_simps of_nat_16_less(1) Let_def)
qed

text \<open>One step takes the first free entry \<open>e\<close> and links it behind \<open>l\<close>.\<close>

lemma extend_step:
  assumes "l < 2730" "fat_entry fat l m \<noteq> 0" "fat_entry fat 0 m \<noteq> 0" "e \<in> free_entries fat m"
  defines "m1 \<equiv> fat_put fat l (of_nat e) (fat_put fat e 0xff8 m)"
  shows "e < 2730" "e \<noteq> l" "0 < e" "fat_entry fat l m1 = of_nat e" "fat_entry fat e m1 = 0xff8"
    "j < 2730 \<Longrightarrow> j \<noteq> l \<Longrightarrow> j \<noteq> e \<Longrightarrow> fat_entry fat j m1 = fat_entry fat j m"
    "free_entries fat m1 = free_entries fat m - {e}" "fat_entry fat 0 m1 \<noteq> 0"
    "x \<notin> region fat 4096 \<Longrightarrow> m1 x = m x"
proof -
  have e: "e < 2730" "fat_entry fat e m = 0" using assms(4) by (simp_all add: free_entriesD)
  then have ne: "e \<noteq> l" "e \<noteq> 0" using assms(2,3) by metis+
  show "e < 2730" "e \<noteq> l" "0 < e" using e ne by simp_all
  note put = fat_entry_put [OF assms(1)] fat_entry_put [OF e(1)]
  show l: "fat_entry fat l m1 = of_nat e" using assms(1) e(1) by (simp add: m1_def put of_nat_16_entry)
  show "fat_entry fat e m1 = 0xff8" using e(1) ne by (simp add: m1_def put)
  show oth: "fat_entry fat j m1 = fat_entry fat j m" if "j < 2730" "j \<noteq> l" "j \<noteq> e" for j
    using that by (simp add: m1_def put)
  have nz: "(of_nat e :: u16) \<noteq> 0" using of_nat_16_nonzero ne(2) e(1) by simp
  show "fat_entry fat 0 m1 \<noteq> 0"
    using l nz oth [of 0] ne(2) assms(3) by (cases "l = 0") simp_all
  show "free_entries fat m1 = free_entries fat m - {e}"
  proof (rule set_eqI)
    fix j
    show "j \<in> free_entries fat m1 \<longleftrightarrow> j \<in> free_entries fat m - {e}"
      using l nz oth [of j] assms(2) \<open>fat_entry fat e m1 = 0xff8\<close>
      by (cases "j = l"; cases "j = e") (auto simp: free_entriesD)
  qed
  show "x \<notin> region fat 4096 \<Longrightarrow> m1 x = m x" using assms(1) e(1) by (simp add: m1_def fat_put_frame)
qed

lemma extend_loop_Suc:
  assumes "l < 2730" "e < 2730" "get_free_fat_entry fat m = (int e, m0)"
  shows "extend_loop (Suc k) fat (of_nat l) (fat + of_nat (l * 3 div 2)) m =
      extend_loop k fat (of_nat e) (fat + of_nat (e * 3 div 2)) (fat_put fat l (of_nat e) m0)"
  unfolding extend_loop.simps assms(3) prod.case Let_def of_int_of_nat_eq entry_at_cluster [OF assms(1)]
    entry_at_cluster [OF assms(2)] fat_put_def ..

lemma extend_loop_spec:
  assumes "l < 2730" "0xff8 \<le> fat_entry fat l m" "fat_entry fat 0 m \<noteq> 0" "n \<le> card (free_entries fat m)"
  defines "m' \<equiv> extend_loop n fat (of_nat l) (fat + of_nat (l * 3 div 2)) m"
  shows "\<exists>ns. length ns = n \<and> set ns \<subseteq> free_entries fat m \<and> fat_chain fat m' l ns \<and>
    (\<forall>j<2730. j \<noteq> l \<longrightarrow> j \<notin> set ns \<longrightarrow> fat_entry fat j m' = fat_entry fat j m) \<and>
    (\<forall>x. x \<notin> region fat 4096 \<longrightarrow> m' x = m x)"
  using assms(1-4) unfolding m'_def
proof (induction n arbitrary: l m)
  case 0
  then show ?case by simp
next
  case (Suc k)
  have lnz: "fat_entry fat l m \<noteq> 0" using Suc.prems(2) by auto
  have "free_entries fat m \<noteq> {}" using Suc.prems(4) by auto
  then obtain e where e: "e \<in> free_entries fat m" "get_free_fat_entry fat m = (int e, fat_put fat e 0xff8 m)"
    by (metis get_free_fat_entry_cases)
  let ?m1 = "fat_put fat l (of_nat e) (fat_put fat e 0xff8 m)"
  note st = extend_step [OF Suc.prems(1) lnz Suc.prems(3) e(1)]
  have eq: "extend_loop (Suc k) fat (of_nat l) (fat + of_nat (l * 3 div 2)) m =
      extend_loop k fat (of_nat e) (fat + of_nat (e * 3 div 2)) ?m1"
    by (rule extend_loop_Suc [OF Suc.prems(1) st(1) e(2)])
  have "card (free_entries fat ?m1) = card (free_entries fat m) - 1" using st(7) e(1) by simp
  then have cd: "k \<le> card (free_entries fat ?m1)" using Suc.prems(4) by simp
  have ff: "0xff8 \<le> fat_entry fat e ?m1" by (simp only: st(5) order_refl)
  define m' where "m' = extend_loop k fat (of_nat e) (fat + of_nat (e * 3 div 2)) ?m1"
  have "\<exists>ns. length ns = k \<and> set ns \<subseteq> free_entries fat ?m1 \<and> fat_chain fat m' e ns \<and>
    (\<forall>j<2730. j \<noteq> e \<longrightarrow> j \<notin> set ns \<longrightarrow> fat_entry fat j m' = fat_entry fat j ?m1) \<and>
    (\<forall>x. x \<notin> region fat 4096 \<longrightarrow> m' x = ?m1 x)"
    unfolding m'_def by (rule Suc.IH [OF st(1) ff st(8) cd])
  then obtain ns where ns: "length ns = k" "set ns \<subseteq> free_entries fat ?m1" "fat_chain fat m' e ns"
    "\<forall>j<2730. j \<noteq> e \<longrightarrow> j \<notin> set ns \<longrightarrow> fat_entry fat j m' = fat_entry fat j ?m1"
    "\<forall>x. x \<notin> region fat 4096 \<longrightarrow> m' x = ?m1 x" by blast
  have "l \<notin> free_entries fat m" using lnz by (simp add: free_entriesD)
  then have l: "l \<notin> set (e # ns)" using ns(2) [unfolded st(7)] st(2) by auto
  then have "fat_entry fat l m' = of_nat e" using ns(4) Suc.prems(1) st(4) by simp
  then have "fat_chain fat m' l (e # ns)" using ns(3) Suc.prems(1) st(1,3) by simp
  moreover have "set (e # ns) \<subseteq> free_entries fat m" using ns(2) e(1) unfolding st(7) by auto
  moreover have "fat_entry fat j m' = fat_entry fat j m" if "j < 2730" "j \<noteq> l" "j \<notin> set (e # ns)" for j
    using ns(4) st(6) [of j] that by simp
  moreover have "\<forall>x. x \<notin> region fat 4096 \<longrightarrow> m' x = m x" using ns(5) st(9) by simp
  moreover have "length (e # ns) = Suc k" using ns(1) by simp
  ultimately show ?case unfolding eq m'_def [symmetric] by blast
qed

section \<open>Freeing a chain\<close>

lemma free_chain_step:
  assumes "c < 2730"
  shows "free_chain fat (of_nat c) m =
    (if 0xff8 \<le> fat_entry fat c m then Some (fat_put fat c 0 m) else free_chain fat (fat_entry fat c m) (fat_put fat c 0 m))"
proof -
  let ?p = "fat + of_nat (c * 3 div 2) :: addr"
  have d: "drop_bit 4 x = drop_bit 4 x AND 0xfff" for x :: u16
  proof -
    have f: "(0xfff :: u16) = mask 12" by (simp add: mask_eq_exp_minus_1)
    show ?thesis unfolding f by (rule bit_word_eqI) (simp add: bit_and_iff bit_mask_iff bit_drop_bit_eq del: mask_numeral, auto dest: bit_imp_le_length)
  qed
  have n: "(if odd c then drop_bit 4 (ld16 m ?p) else ld16 m ?p AND 0xfff) = fat_entry fat c m"
    unfolding fat_entry_def read_entry_def Let_def using d by simp
  have p: "(if odd c then st16 m ?p (ld16 m ?p AND 0x000f) else st16 m ?p (ld16 m ?p AND 0xf000)) = fat_put fat c 0 m"
    unfolding fat_put_def link_entry_def Let_def by simp
  show ?thesis
    by (subst free_chain.simps) (simp only: Let_def entry_at_cluster [OF assms] n p)
qed

lemma free_chain_spec:
  assumes "fat_chain fat m c ds"
  shows "\<exists>m'. free_chain fat (of_nat c) m = Some m' \<and>
    (\<forall>j<2730. fat_entry fat j m' = (if j \<in> set (c # ds) then 0 else fat_entry fat j m)) \<and>
    (\<forall>x. x \<notin> region fat 4096 \<longrightarrow> m' x = m x)"
  using assms
proof (induction ds arbitrary: c m)
  case Nil
  then show ?case by (simp add: free_chain_step fat_entry_put fat_put_frame)
next
  case (Cons d ds)
  let ?m = "fat_put fat c 0 m"
  have c: "c < 2730" "d < 2730" "fat_entry fat c m = of_nat d" "fat_chain fat m d ds" using Cons.prems by simp_all
  have n: "c \<notin> set (d # ds)" using chain_distinct [OF Cons.prems] by simp
  have "fat_chain fat ?m d ds"
  proof (rule chain_cong [OF c(4)])
    fix j assume "j \<in> set (d # ds)"
    then show "fat_entry fat j ?m = fat_entry fat j m"
      using n chain_bound [OF c(4)] fat_entry_put [OF c(1), of j] by auto
  qed
  from Cons.IH [OF this] obtain m' where m': "free_chain fat (of_nat d) ?m = Some m'"
    "\<forall>j<2730. fat_entry fat j m' = (if j \<in> set (d # ds) then 0 else fat_entry fat j ?m)"
    "\<forall>x. x \<notin> region fat 4096 \<longrightarrow> m' x = ?m x" by blast
  have "free_chain fat (of_nat c) m = Some m'"
    using m'(1) by (simp add: free_chain_step [OF c(1)] c(3) of_nat_16_less(1) [OF c(2)])
  moreover have "fat_entry fat j m' = (if j \<in> set (c # d # ds) then 0 else fat_entry fat j m)" if "j < 2730" for j
    using m'(2) that by (simp add: fat_entry_put [OF c(1)])
  ultimately show ?case using m'(3) c(1) by (auto simp: fat_put_frame)
qed


section \<open>A formatted table\<close>

text \<open>The table of an empty disk at 0x10000: entries 0 and 1 are reserved, the others free.\<close>

definition fat0 :: memory where
  "fat0 = (\<lambda>_. 0)(0x10000 := 0xf0, 0x10001 := 0xff, 0x10002 := 0xff)"

lemma fat0_entry: "fat_entry 0x10000 0 fat0 = 0xff0" "fat_entry 0x10000 1 fat0 = 0xfff"
  by (simp_all add: fat_entry_def read_entry_def fat0_def ld16_def)

lemma fat0_free: "free_entries 0x10000 fat0 = {2..<2730}"
proof (rule set_eqI)
  fix j
  have z: "fat_entry 0x10000 j fat0 = 0" if j: "2 \<le> j" "j < 2730"
  proof -
    have b: "3 \<le> j * 3 div 2" "j * 3 div 2 < 4095" using j by simp_all
    have a: "fat0 (0x10000 + of_nat c) = 0" if "3 \<le> c" "c < 4096" for c
    proof -
      have "unat (of_nat c :: addr) = c" using that by (intro unat_of_nat_32) simp
      then have "(of_nat c :: addr) \<noteq> 0" "(of_nat c :: addr) \<noteq> 1" "(of_nat c :: addr) \<noteq> 2"
        using that by (metis not_numeral_le_zero unat_0, metis numeral_le_one_iff semiring_norm(70) unat_1, auto)
      moreover have "0x10000 + x = (0x10001 :: addr) \<longleftrightarrow> x = 1" "0x10000 + x = (0x10002 :: addr) \<longleftrightarrow> x = 2" for x
        by (auto simp: algebra_simps eq_diff_eq [symmetric])
      ultimately show ?thesis by (simp add: fat0_def)
    qed
    have s: "0x10000 + of_nat c + 1 = 0x10000 + (of_nat (Suc c) :: addr)" for c by simp
    have "ld16 fat0 (0x10000 + of_nat (j * 3 div 2)) = 0"
      unfolding ld16_def s using a [of "j * 3 div 2"] a [of "Suc (j * 3 div 2)"] b by simp
    then show ?thesis by (simp add: fat_entry_def read_entry_def)
  qed
  have "j \<noteq> 0 \<and> j \<noteq> 1" if "fat_entry 0x10000 j fat0 = 0"
    using that fat0_entry by (cases "j = 0"; cases "j = 1") simp_all
  then show "j \<in> free_entries 0x10000 fat0 \<longleftrightarrow> j \<in> {2..<2730}"
    using z by (cases "j = 0"; cases "j = 1") (auto simp: free_entriesD)
qed

lemma chain_append:
  "fat_chain fat m c ds \<Longrightarrow> fat_chain fat m' (last (c # ds)) ns \<Longrightarrow>
    (\<And>j. j \<in> set (butlast (c # ds)) \<Longrightarrow> fat_entry fat j m' = fat_entry fat j m) \<Longrightarrow> fat_chain fat m' c (ds @ ns)"
  by (induction ds arbitrary: c) auto

lemma chain_extended:
  assumes "fat_chain fat m c ds" "fat_entry fat 0 m \<noteq> 0" "n \<le> card (free_entries fat m)"
  shows "\<exists>ns m'. resize_loop fat (of_nat c) (int n) m = Some m' \<and> fat_chain fat m' c (ds @ ns) \<and>
    length ns = n \<and> set ns \<subseteq> free_entries fat m \<and>
    (\<forall>j<2730. j \<notin> set (c # ds @ ns) \<longrightarrow> fat_entry fat j m' = fat_entry fat j m) \<and>
    (\<forall>x. x \<notin> region fat 4096 \<longrightarrow> m' x = m x) \<and> (n = 0 \<longrightarrow> m' = m)"
proof -
  let ?l = "last (c # ds)"
  note b = chain_bound [OF assms(1)]
  have l: "?l < 2730" using b last_in_set [of "c # ds"] by auto
  define m' where "m' = extend_loop n fat (of_nat ?l) (fat + of_nat (?l * 3 div 2)) m"
  obtain ns where ns: "length ns = n" "set ns \<subseteq> free_entries fat m" "fat_chain fat m' ?l ns"
    "\<forall>j<2730. j \<noteq> ?l \<longrightarrow> j \<notin> set ns \<longrightarrow> fat_entry fat j m' = fat_entry fat j m"
    "\<forall>x. x \<notin> region fat 4096 \<longrightarrow> m' x = m x"
    using extend_loop_spec [OF l chain_end [OF assms(1)] assms(2,3), folded m'_def] by blast
  have nd: "\<forall>j\<in>set (c # ds). j \<notin> set ns" using ns(2) chain_used [OF assms(1)] by (auto simp: free_entriesD)
  have "fat_entry fat j m' = fat_entry fat j m" if "j \<in> set (butlast (c # ds))" for j
  proof -
    have "j < 2730" "j \<notin> set ns" using that nd b in_set_butlastD by fast+
    moreover have "distinct (butlast (c # ds) @ [?l])"
      using chain_distinct [OF assms(1)] by (subst append_butlast_last_id) simp_all
    then have "j \<noteq> ?l" using that by auto
    ultimately show ?thesis using ns(4) by blast
  qed
  then have "fat_chain fat m' c (ds @ ns)" using chain_append [OF assms(1) ns(3)] by blast
  moreover have "resize_loop fat (of_nat c) (int n) m = Some m'" using resize_loop_chain [OF assms(1), of "int n"] m'_def by simp
  moreover have "\<forall>j<2730. j \<notin> set (c # ds @ ns) \<longrightarrow> fat_entry fat j m' = fat_entry fat j m"
    using ns(4) last_in_set [of "c # ds"] by auto
  ultimately show ?thesis using ns m'_def by (intro exI [of _ ns] exI [of _ m']) simp
qed

lemma sectors_needed:
  assumes "oldsz \<le> newsz" "newsz < 2 ^ 31"
  shows "sint (((of_nat newsz :: u32) + 512) div 512 - (of_nat oldsz + 512) div 512) = int (newsz div 512 - oldsz div 512)"
proof -
  have q: "((of_nat n :: u32) + 512) div 512 = of_nat (n div 512 + 1)" if "n < 2 ^ 31" for n
  proof -
    have "n + 512 < 2 ^ 32" using that by simp
    then have "unat ((of_nat n :: u32) + 512) = n + 512" by (metis of_nat_add of_nat_numeral unat_of_nat_32)
    then have "unat (((of_nat n :: u32) + 512) div 512) = n div 512 + 1" by (simp add: unat_div)
    then show ?thesis by (metis of_nat_unat ucast_id)
  qed
  have "oldsz div 512 \<le> newsz div 512" using assms(1) by (rule div_le_mono)
  then have "((of_nat newsz :: u32) + 512) div 512 - (of_nat oldsz + 512) div 512 = of_nat (newsz div 512 - oldsz div 512)"
    using q assms by (simp add: of_nat_diff)
  moreover have "newsz div 512 - oldsz div 512 < 2 ^ 31" using assms(2) by simp
  ultimately show ?thesis by (simp only: sint_of_nat_32)
qed

section \<open>Properties\<close>

text \<open>
  \<open>get_free_fat_entry\<close> takes the first free entry of the packed table and marks it as the end of a
  chain; every other entry keeps its value, though each shares a byte with a neighbour. It reports
  failure exactly when no entry is free.
\<close>

theorem get_free_entry_first:
  "case get_free_fat_entry fat m of (r, m') \<Rightarrow>
    if free_entries fat m = {} then r = - 1 \<and> m' = m
    else \<exists>i. r = int i \<and> i \<in> free_entries fat m \<and> (\<forall>j\<in>free_entries fat m. i \<le> j) \<and>
      (\<forall>j<2730. fat_entry fat j m' = (if j = i then 0xff8 else fat_entry fat j m)) \<and>
      (\<forall>x. x \<notin> region fat 4096 \<longrightarrow> m' x = m x)"
proof (cases rule: get_free_fat_entry_cases [of fat m])
  case (found i)
  then have i: "i < 2730" "free_entries fat m \<noteq> {}" by (auto simp: free_entriesD)
  moreover have "fat_entry fat j (fat_put fat i 0xff8 m) = (if j = i then 0xff8 else fat_entry fat j m)" if "j < 2730" for j
    using fat_entry_put [OF i(1) that] by simp
  ultimately show ?thesis using found fat_put_frame [OF i(1)] by simp
qed simp

theorem get_free_entry_first_witness: "fst (get_free_fat_entry 0x10000 fat0) = 2"
proof -
  have "\<exists>i. fst (get_free_fat_entry 0x10000 fat0) = int i \<and> i \<in> {2..<2730} \<and> (\<forall>j\<in>{2..<2730}. i \<le> j)"
    using get_free_entry_first [of "0x10000" fat0] by (auto simp: fat0_free split: prod.splits)
  then obtain i where i: "fst (get_free_fat_entry 0x10000 fat0) = int i" "2 \<le> i" "\<forall>j\<in>{2..<2730}. i \<le> j" by auto
  have "i \<le> 2" using bspec [OF i(3), of 2] by simp
  then show ?thesis using i(1,2) by simp
qed


text \<open>
  C13. \<open>resize\<close> to a larger size appends as many free clusters to the chain of the file as its new size
  needs (one for each full or begun 512 bytes, and one more), sets the size, and leaves the chains of
  other files and all other memory alone; it asks for the tables to be written exactly when clusters
  were added.
\<close>

theorem resize_extends_chain:
  assumes "region dp 32 \<inter> region fat 4096 = {}" "fat_entry fat 0 m \<noteq> 0"
    "ld16 m (dp + 26) = of_nat c" "fat_chain fat m c ds" "ld32 m (dp + 28) = of_nat oldsz" "length ds = oldsz div 512"
    "oldsz \<le> newsz" "newsz < 2 ^ 31" "newsz div 512 - oldsz div 512 \<le> card (free_entries fat m)"
  shows "\<exists>ns m'. resize_tables fat dp (of_nat newsz) m = Some (ns \<noteq> [], m') \<and>
    fat_chain fat m' c (ds @ ns) \<and> length (ds @ ns) = newsz div 512 \<and> set ns \<subseteq> free_entries fat m \<and>
    ld16 m' (dp + 26) = of_nat c \<and> ld32 m' (dp + 28) = of_nat newsz \<and>
    (\<forall>j<2730. j \<notin> set (c # ds @ ns) \<longrightarrow> fat_entry fat j m' = fat_entry fat j m) \<and>
    (\<forall>x. x \<notin> region fat 4096 \<longrightarrow> x \<notin> region (dp + 28) 4 \<longrightarrow> m' x = m x)"
proof -
  let ?n = "newsz div 512 - oldsz div 512" and ?m = "st32 m (dp + 28) (of_nat newsz)"
  have "region (dp + 28) 4 \<subseteq> region dp 32" "region (dp + 26) 2 \<subseteq> region dp 32" by (rule region_offset_subset, simp)+
  then have r: "region (dp + 28) 4 \<inter> region fat 4096 = {}" "region (dp + 26) 2 \<inter> region fat 4096 = {}" using assms(1) by blast+
  have ap: "region (dp + 26) 2 \<inter> region (dp + 28) 4 = {}" by (rule region_apartI) simp_all
  have e: "fat_entry fat j ?m = fat_entry fat j m" if "j < 2730" for j
    by (intro fat_entry_cong st32_out that) (use r(1) in blast)
  then have fr: "free_entries fat ?m = free_entries fat m" by (auto simp: free_entries_def)
  have "fat_chain fat ?m c ds" by (rule chain_cong [OF assms(4)]) (use chain_bound [OF assms(4)] in \<open>auto intro: e\<close>)
  from chain_extended [OF this, of ?n] obtain ns m' where ns: "resize_loop fat (of_nat c) (int ?n) ?m = Some m'"
    "fat_chain fat m' c (ds @ ns)" "length ns = ?n" "set ns \<subseteq> free_entries fat ?m"
    "\<forall>j<2730. j \<notin> set (c # ds @ ns) \<longrightarrow> fat_entry fat j m' = fat_entry fat j ?m"
    "\<forall>x. x \<notin> region fat 4096 \<longrightarrow> m' x = ?m x" "?n = 0 \<longrightarrow> m' = ?m"
    using assms(2,9) e fr by auto
  have s: "sint (((of_nat newsz :: u32) + 512) div 512 - (ld32 m (dp + 28) + 512) div 512) = int ?n"
    unfolding assms(5) by (rule sectors_needed [OF assms(7,8)])
  have "(?n = 0) = (ns = [])" using ns(3) by auto
  then have "resize_tables fat dp (of_nat newsz) m = Some (ns \<noteq> [], m')"
    unfolding resize_tables_def Let_def s assms(3) using ns(1,7) by auto
  moreover have "m' x = m x" if "x \<in> region (dp + 26) 2" for x
  proof -
    have "x \<notin> region fat 4096" "x \<notin> region (dp + 28) 4" using that r(2) ap by blast+
    then show ?thesis using ns(6) by (simp add: st32_out)
  qed
  then have "ld16 m' (dp + 26) = ld16 m (dp + 26)" by (rule ld16_cong)
  moreover have "ld32 m' (dp + 28) = ld32 ?m (dp + 28)" using r(1) ns(6) by (intro ld32_cong) blast
  moreover have "\<forall>x. x \<notin> region fat 4096 \<longrightarrow> x \<notin> region (dp + 28) 4 \<longrightarrow> m' x = m x" using ns(6) by (simp add: st32_out)
  moreover have "length (ds @ ns) = newsz div 512" using ns(3) assms(6) div_le_mono [OF assms(7), of 512] by simp
  moreover have "\<forall>j<2730. j \<notin> set (c # ds @ ns) \<longrightarrow> fat_entry fat j m' = fat_entry fat j m" using ns(5) e by simp
  ultimately show ?thesis using ns(2) ns(4) [unfolded fr] assms(3) by (intro exI [of _ ns] exI [of _ m']) simp
qed

text \<open>A file with one cluster on an empty disk, whose directory entry is at 0x20000, grown to 1500 bytes.\<close>

definition fat1 :: memory where
  "fat1 = st16 (fat_put 0x10000 2 0xff8 fat0) (0x20000 + 26) 2"

theorem resize_extends_chain_witness:
  "\<exists>ns m'. resize_tables 0x10000 0x20000 (of_nat 1500) fat1 = Some (True, m') \<and> fat_chain 0x10000 m' 2 ns \<and> length ns = 2"
proof -
  have r: "region 0x20000 32 \<inter> region 0x10000 4096 = {}" by (rule region_apartI) simp_all
  have "region (0x20000 + 26) 2 \<subseteq> region 0x20000 32" by (rule region_offset_subset) simp
  then have r2: "region (0x20000 + 26) 2 \<inter> region 0x10000 4096 = {}" using r by blast
  have e: "fat_entry 0x10000 j fat1 = fat_entry 0x10000 j (fat_put 0x10000 2 0xff8 fat0)" if "j < 2730" for j
    unfolding fat1_def by (intro fat_entry_cong st16_out that) (use r2 in blast)
  have e2: "fat_entry 0x10000 j fat1 = (if j = 2 then 0xff8 else fat_entry 0x10000 j fat0)" if "j < 2730" for j
    using e that by (simp add: fat_entry_put)
  have fr: "free_entries 0x10000 fat1 = {3..<2730}"
  proof -
    have "j \<in> free_entries 0x10000 fat1 \<longleftrightarrow> j \<in> free_entries 0x10000 fat0 - {2}" for j
      using e2 [of j] by (cases "j < 2730"; cases "j = 2") (simp_all add: free_entriesD)
    moreover have "2 \<le> j \<and> j \<noteq> 2 \<longleftrightarrow> 3 \<le> j" for j :: nat by linarith
    ultimately show ?thesis
      unfolding fat0_free by (intro set_eqI) (simp only: Diff_iff atLeastLessThan_iff singleton_iff, blast)
  qed
  have z: "fat1 x = 0" if "x \<in> region (0x20000 + 28) 4" for x
  proof -
    have "region (0x20000 + 28) 4 \<subseteq> region 0x20000 32" by (rule region_offset_subset) simp
    then have o: "x \<notin> region 0x10000 4096" using that r by blast
    moreover have "x \<notin> region (0x20000 + 26) 2"
      using that region_apartI [of 2 "0x20000 + 28" "0x20000 + 26" 4] by fastforce
    moreover have "fat0 x = 0" using o by (auto simp: fat0_def in_region)
    ultimately show ?thesis by (simp add: fat1_def st16_out fat_put_frame)
  qed
  have "ld32 fat1 (0x20000 + 28) = ld32 (\<lambda>_. 0) (0x20000 + 28)" by (rule ld32_cong) (simp add: z)
  then have sz: "ld32 fat1 (0x20000 + 28) = of_nat 0" by (simp add: ld32_def)
  have c: "ld16 fat1 (0x20000 + 26) = of_nat 2" unfolding fat1_def ld16_st16_same by simp
  have ch: "fat_chain 0x10000 fat1 2 []" by (simp add: e2)
  have f0: "fat_entry 0x10000 0 fat1 \<noteq> 0" by (simp add: e2 fat0_entry)
  have n: "length ([] :: nat list) = 0 div 512" "(0 :: nat) \<le> 1500" "(1500 :: nat) < 2 ^ 31"
    "1500 div 512 - 0 div 512 \<le> card (free_entries 0x10000 fat1)" by (simp_all add: fr)
  from resize_extends_chain [OF r f0 c ch sz n] obtain ns m' where
    *: "resize_tables 0x10000 0x20000 (of_nat 1500) fat1 = Some (ns \<noteq> [], m')"
    "fat_chain 0x10000 m' 2 ([] @ ns)" "length ([] @ ns) = 1500 div 512" by blast
  have l: "length ns = 2" using *(3) by simp
  then have "ns \<noteq> []" by auto
  then show ?thesis using * l by (intro exI [of _ ns] exI [of _ m']) simp
qed

text \<open>
  When the table is full, \<open>resize\<close> takes the failure value of \<open>get_free_fat_entry\<close> for a cluster: it
  ends the chain with 0xfff, and for every further cluster it writes to byte 32766 from the start of
  the table, far behind its 4096 bytes.
\<close>

theorem resize_full_overrun:
  assumes "fat_chain fat m c ds" "free_entries fat m = {}"
  shows "\<exists>m'. resize_loop fat (of_nat c) 2 m = Some m' \<and> fat_entry fat (last (c # ds)) m' = 0xfff \<and>
    fat + 32766 \<notin> region fat 4096 \<and> ld16 m' (fat + 32766) = (ld16 m (fat + 32766) AND 0x000f) OR 0xfff0"
proof -
  let ?l = "last (c # ds)" and ?p = "fat + 32766"
  have l: "?l < 2730" using chain_bound [OF assms(1)] last_in_set [of "c # ds"] by auto
  let ?m1 = "fat_put fat ?l 0xffff m"
  have e1: "fat_entry fat j ?m1 = (if j = ?l then 0xfff else fat_entry fat j m)" if "j < 2730" for j
    using fat_entry_put [OF l that] by simp
  have full: "get_free_fat_entry fat m = (- 1, m)" using assms(2) by (metis get_free_fat_entry_cases emptyE)
  have "free_entries fat ?m1 = {}"
  proof (rule ccontr)
    assume "free_entries fat ?m1 \<noteq> {}"
    then obtain j where "j < 2730" "fat_entry fat j ?m1 = 0" by (auto simp: free_entriesD)
    then show False using e1 [of j] assms(2) by (auto simp: free_entriesD split: if_splits)
  qed
  then have full1: "get_free_fat_entry fat ?m1 = (- 1, ?m1)" by (metis get_free_fat_entry_cases emptyE)
  have pb: "push_bit 4 (0xffff :: u16) = 0xfff0" by simp
  have w: "(word_of_int (- 1) :: u16) = 0xffff" by simp
  have i: "fat + ucast (fat_entry_idx 0xffff) = ?p" by (simp add: fat_entry_idx_def)
  have "extend_loop (Suc (Suc 0)) fat (of_nat ?l) (fat + of_nat (?l * 3 div 2)) m = link_entry True ?p 0xffff ?m1"
    unfolding extend_loop.simps full prod.case Let_def w entry_at_cluster(2) [OF l] fat_put_def [symmetric] full1 i
    by simp
  then have r: "resize_loop fat (of_nat c) 2 m = Some (link_entry True ?p 0xffff ?m1)"
    using resize_loop_chain [OF assms(1), of 2] by (simp only: nat_numeral numeral_2_eq_2)
  have d: "region ?p 2 \<inter> region fat 4096 = {}" by (rule region_apartI) simp_all
  then have "ld16 ?m1 ?p = ld16 m ?p" by (intro ld16_cong fat_put_frame [OF l]) blast
  then have v: "ld16 (link_entry True ?p 0xffff ?m1) ?p = (ld16 m ?p AND 0x000f) OR 0xfff0"
    unfolding link_entry_def Let_def if_True pb by simp
  have "fat_entry fat ?l (link_entry True ?p 0xffff ?m1) = fat_entry fat ?l ?m1"
  proof (rule fat_entry_cong [OF _ l])
    fix x assume "x \<in> region fat 4096"
    then have "x \<notin> region ?p 2" using d by blast
    then show "link_entry True ?p 0xffff ?m1 x = ?m1 x" by (simp add: link_entry_def st16_out)
  qed
  moreover have "?p \<notin> region fat 4096" by (simp add: in_region)
  ultimately show ?thesis using r v e1 [OF l] by (intro exI [of _ "link_entry True ?p 0xffff ?m1"]) simp
qed

text \<open>A table in which every entry ends a chain.\<close>

lemma fat_full_entry: "j < 2730 \<Longrightarrow> fat_entry fat j (\<lambda>_. 0xff) = 0xfff"
  by (simp add: fat_entry_def read_entry_def ld16_def)

theorem resize_full_overrun_witness:
  "\<exists>m'. resize_loop 0x10000 2 2 (\<lambda>_. 0xff) = Some m' \<and> fat_entry 0x10000 2 m' = 0xfff"
proof -
  have "fat_chain 0x10000 (\<lambda>_. 0xff) 2 []" by (simp add: fat_full_entry)
  moreover have "free_entries 0x10000 (\<lambda>_. 0xff) = {}" by (auto simp: free_entriesD fat_full_entry)
  ultimately show ?thesis using resize_full_overrun [of "0x10000" "\<lambda>_. 0xff" 2 "[]"] by auto
qed

end
