(* ===== verification/FatDir.thy ===== *)
theory FatDir
  imports FatProps
begin

text \<open>
  The root directory of \<open>kernel/fat12.c\<close>: names are compared in the eight characters that \<open>strncpy\<close>
  leaves in a buffer of blanks; creating a file writes an entry and takes a cluster, removing it frees
  the chain and clears the entry.
\<close>

section \<open>Names\<close>

definition name8 :: "u8 list \<Rightarrow> u8 list" where
  "name8 cs = take 8 (cs @ replicate 8 32)"

definition dir_entry :: "addr \<Rightarrow> nat \<Rightarrow> addr" where
  "dir_entry root k = root + of_nat (32 * k)"

definition dir_name :: "addr \<Rightarrow> nat \<Rightarrow> memory \<Rightarrow> u8 list" where
  "dir_name root k m = bytes m (dir_entry root k) 8"

lemma strncpy_loop_memcpy:
  assumes "cstr m f cs" "region t n \<inter> region f (Suc (length cs)) = {}" "length cs < 2 ^ 32" "n \<le> 2 ^ 32"
  shows "strncpy_loop n t f m = memcpy_loop (min n (length cs)) t f m"
  using assms
proof (induction n arbitrary: t f m cs)
  case (Suc n)
  show ?case
  proof (cases cs)
    case Nil
    then show ?thesis using Suc.prems(1) by simp
  next
    case (Cons c cs')
    let ?m = "m(t := m f)"
    have sub: "region (t + 1) n \<subseteq> region t (Suc n)" "region (f + 1) (Suc (length cs')) \<subseteq> region f (Suc (length cs))"
      "t \<in> region t (Suc n)"
      using Suc.prems(3,4) region_Suc [of n t] region_Suc [of "Suc (length cs')" f] Cons by auto
    have d: "region (t + 1) n \<inter> region (f + 1) (Suc (length cs')) = {}" "t \<notin> region (f + 1) (Suc (length cs'))"
      using Suc.prems(2) sub by blast+
    have c: "m f \<noteq> 0" "cstr m (f + 1) cs'" "length cs' < 2 ^ 32" using Suc.prems(1,3) Cons by simp_all
    have "cstr ?m (f + 1) cs'" by (rule cstr_cong [OF c(2) _ c(3)]) (use d(2) in auto)
    then have "strncpy_loop n (t + 1) (f + 1) ?m = memcpy_loop (min n (length cs')) (t + 1) (f + 1) ?m"
      by (rule Suc.IH [OF _ d(1) c(3)]) (use Suc.prems(4) in simp)
    then show ?thesis using c(1) unfolding Cons list.size min_Suc_Suc add_Suc_right add_0_right strncpy_loop.simps memcpy_loop.simps by simp
  qed
qed simp

lemma pad_name_apply:
  assumes "cstr m filename cs" "region fname 9 \<inter> region filename (Suc (length cs)) = {}" "length cs < 2 ^ 32"
  shows "pad_name fname filename m x =
    (if x = fname + 8 then 0 else if x \<in> region fname (min 8 (length cs)) then m (filename + (x - fname))
     else if x \<in> region fname 8 then 32 else m x)"
proof -
  let ?m = "memset fname 32 8 m"
  have r: "region fname 8 \<subseteq> region fname 9" by (rule region_mono) simp
  then have d: "region fname 8 \<inter> region filename (Suc (length cs)) = {}" using assms(2) by blast
  have mm: "?m y = (if y \<in> region fname 8 then 32 else m y)" for y by (simp add: memset_apply)
  have c: "cstr ?m filename cs" by (rule cstr_cong [OF assms(1) _ assms(3)]) (use d mm in auto)
  have "strncpy fname filename 8 ?m = memcpy_loop (min 8 (length cs)) fname filename ?m"
    using strncpy_loop_memcpy [OF c _ assms(3), of fname 8] d by (simp add: strncpy_def)
  moreover have "region fname (min 8 (length cs)) \<inter> region filename (min 8 (length cs)) = {}"
    using d region_mono [of "min 8 (length cs)" 8 fname] region_mono [of "min 8 (length cs)" "Suc (length cs)" filename] by fastforce
  ultimately have s: "strncpy fname filename 8 ?m x =
      (if x \<in> region fname (min 8 (length cs)) then ?m (filename + (x - fname)) else ?m x)"
    by (simp add: memcpy_loop_apply)
  have "filename + (x - fname) \<notin> region fname 8" if "x \<in> region fname (min 8 (length cs))"
  proof -
    have "filename + (x - fname) \<in> region filename (Suc (length cs))" using that by (simp add: in_region)
    then show ?thesis using d by blast
  qed
  then show ?thesis unfolding pad_name_def Let_def fun_upd_apply s mm by (auto simp: in_region)
qed

lemma pad_name_bytes:
  assumes "cstr m filename cs" "region fname 9 \<inter> region filename (Suc (length cs)) = {}" "length cs < 2 ^ 32"
  shows "bytes (pad_name fname filename m) fname 8 = name8 cs"
proof (rule nth_equalityI)
  fix i assume "i < length (bytes (pad_name fname filename m) fname 8)"
  then have i: "i < 8" by simp
  have u: "unat (of_nat i :: addr) = i" using i by (intro unat_of_nat_32) simp
  have "fname + of_nat i \<noteq> fname + 8"
  proof
    assume "fname + of_nat i = fname + 8"
    then have "(of_nat i :: addr) = 8" by simp
    then have "unat (of_nat i :: addr) = 8" by simp
    then show False using u i by simp
  qed
  moreover have "m (filename + of_nat i) = cs ! i" if "i < length cs" using assms(1) that by (simp add: cstr_nth)
  ultimately have "pad_name fname filename m (fname + of_nat i) = (if i < length cs then cs ! i else 32)"
    unfolding pad_name_apply [OF assms] using u i by (simp add: in_region)
  then show "bytes (pad_name fname filename m) fname 8 ! i = name8 cs ! i"
    using i by (simp add: name8_def nth_append)
qed (simp add: name8_def)

lemma name8_nonzero: "cstr m p cs \<Longrightarrow> c \<in> set (name8 cs) \<Longrightarrow> c \<noteq> 0"
proof -
  assume "cstr m p cs" "c \<in> set (name8 cs)"
  then have "c \<in> set cs \<or> c = 32" using set_take_subset [of 8 "cs @ replicate 8 32"] by (auto simp: name8_def)
  moreover have "0 \<notin> set cs" using \<open>cstr m p cs\<close> by (induction cs arbitrary: p) auto
  ultimately show ?thesis by auto
qed

text \<open>Comparing with a padded name compares eight bytes.\<close>

lemma char_diff_0: "char_diff a b = 0 \<longleftrightarrow> a = b"
  by (auto simp: char_diff_def intro: signed_word_eqI)

lemma strncmp_loop_eq0:
  assumes "unat s1 + n < 2 ^ 32" "\<forall>i<n. m (s2 + of_nat i) \<noteq> 0"
  shows "strncmp_loop (s1 + of_nat n) s1 s2 m = 0 \<longleftrightarrow> bytes m s1 n = bytes m s2 n"
  using assms
proof (induction n arbitrary: s1 s2)
  case 0
  then show ?case by (subst strncmp_loop.simps) (simp add: bytes_def)
next
  case (Suc n)
  have "unat (s1 + of_nat (Suc n)) = unat s1 + Suc n" using Suc.prems(1) by (rule unat_add_32)
  then have lt: "s1 < s1 + of_nat (Suc n)" unfolding word_less_nat_alt by linarith
  have u: "unat (s1 + 1) = unat s1 + 1" using unat_add_32 [of s1 1] Suc.prems(1) by simp
  have z: "\<forall>i<n. m (s2 + 1 + of_nat i) \<noteq> 0" "m s2 \<noteq> 0"
    using Suc.prems(2) [rule_format, of "Suc _"] Suc.prems(2) [rule_format, of 0] by (simp_all add: ac_simps)
  have "strncmp_loop (s1 + 1 + of_nat n) (s1 + 1) (s2 + 1) m = 0 \<longleftrightarrow> bytes m (s1 + 1) n = bytes m (s2 + 1) n"
    by (rule Suc.IH) (use u Suc.prems(1) z in simp_all)
  moreover have "bytes m a (Suc n) = m a # bytes m (a + 1) n" for a
    by (rule nth_equalityI) (auto simp: nth_Cons ac_simps split: nat.splits)
  moreover have e: "s1 + of_nat (Suc n) = s1 + 1 + of_nat n" by simp
  ultimately show ?case
    using lt z(2) unfolding e by (subst strncmp_loop.simps) (simp add: Let_def char_diff_0)
qed

lemma strncmp_name:
  assumes "unat dp + 8 < 2 ^ 32" "0 \<notin> set (bytes m fname 8)"
  shows "strncmp dp fname 8 m = 0 \<longleftrightarrow> bytes m dp 8 = bytes m fname 8"
proof -
  have "\<forall>i<8. m (fname + of_nat i) \<noteq> 0"
    using assms(2) by (metis length_bytes nth_bytes nth_mem)
  from strncmp_loop_eq0 [OF assms(1) this] show ?thesis by (simp add: strncmp_def)
qed

section \<open>Searching the directory\<close>

lemma dir_entry_unat: "k < 224 \<Longrightarrow> unat root + 7168 < 2 ^ 32 \<Longrightarrow> unat (dir_entry root k) = unat root + 32 * k"
  unfolding dir_entry_def by (rule unat_add_32) simp

lemma dir_find_from:
  assumes "k + n \<le> 224" "unat root + 7168 < 2 ^ 32" "0 \<notin> set (bytes m fname 8)"
  shows "dir_find n (dir_entry root k) fname m =
    map_option (dir_entry root) (find (\<lambda>k. dir_name root k m = bytes m fname 8) [k..<k + n])"
  using assms(1)
proof (induction n arbitrary: k)
  case (Suc n)
  have "unat (dir_entry root k) + 8 < 2 ^ 32" using Suc.prems assms(2) by (subst dir_entry_unat) simp_all
  note s = strncmp_name [OF this assms(3)]
  have u: "[k..<k + Suc n] = k # [Suc k..<Suc k + n]" by (simp add: upt_rec)
  have e: "dir_entry root k + 32 = dir_entry root (Suc k)" by (simp add: dir_entry_def)
  show ?case unfolding u using Suc.IH [of "Suc k"] Suc.prems by (simp add: s e dir_name_def)
qed simp

lemma dir_slot_from:
  "dir_slot n (dir_entry root k) m = map_option (dir_entry root) (find (\<lambda>k. m (dir_entry root k) = 0) [k..<k + n])"
proof (induction n arbitrary: k)
  case (Suc n)
  have u: "[k..<k + Suc n] = k # [Suc k..<Suc k + n]" by (simp add: upt_rec)
  have e: "dir_entry root k + 32 = dir_entry root (Suc k)" by (simp add: dir_entry_def)
  show ?case unfolding u using Suc.IH [of "Suc k"] by (simp add: e)
qed simp

lemma dir_entry_0: "dir_entry root 0 = root"
  by (simp add: dir_entry_def)

lemma dir_find_root:
  "unat root + 7168 < 2 ^ 32 \<Longrightarrow> 0 \<notin> set (bytes m fname 8) \<Longrightarrow> dir_find 224 root fname m =
    map_option (dir_entry root) (find (\<lambda>k. dir_name root k m = bytes m fname 8) [0..<224])"
  using dir_find_from [of 0 224 root m fname] by (simp add: dir_entry_0)

lemma dir_slot_root: "dir_slot 224 root m = map_option (dir_entry root) (find (\<lambda>k. m (dir_entry root k) = 0) [0..<224])"
  using dir_slot_from [of 224 root 0 m] by (simp add: dir_entry_0)

section \<open>Where things are\<close>

text \<open>The name given, the buffer on the stack, the table and the directory do not overlap.\<close>

definition dir_layout :: "addr \<Rightarrow> addr \<Rightarrow> addr \<Rightarrow> addr \<Rightarrow> u8 list \<Rightarrow> memory \<Rightarrow> bool" where
  "dir_layout fat root fname filename cs m \<longleftrightarrow>
     cstr m filename cs \<and> length cs \<le> 11 \<and> unat root + 7168 < 2 ^ 32 \<and>
     region root 7168 \<inter> region fat 4096 = {} \<and>
     region fname 9 \<inter> (region root 7168 \<union> region fat 4096 \<union> region filename (Suc (length cs))) = {} \<and>
     region filename (Suc (length cs)) \<inter> (region root 7168 \<union> region fat 4096) = {}"

lemma dir_layoutD:
  assumes "dir_layout fat root fname filename cs m"
  shows "cstr m filename cs" "length cs \<le> 11" "length cs < 2 ^ 32" "unat root + 7168 < 2 ^ 32"
    "x \<in> region root 7168 \<Longrightarrow> x \<notin> region fat 4096 \<and> x \<notin> region fname 9 \<and> x \<notin> region filename (Suc (length cs))"
    "x \<in> region fname 9 \<Longrightarrow> x \<notin> region fat 4096"
    "region fname 9 \<inter> region filename (Suc (length cs)) = {}"
    "x \<in> region filename (Suc (length cs)) \<Longrightarrow> x \<notin> region fat 4096 \<and> x \<notin> region fname 9 \<and> x \<notin> region root 7168"
  using assms unfolding dir_layout_def by auto

lemma entry_in_root: "k < 224 \<Longrightarrow> region (dir_entry root k) 32 \<subseteq> region root 7168"
  unfolding dir_entry_def by (rule region_elem_array) simp_all

lemma entries_apart: "j \<noteq> k \<Longrightarrow> j < 224 \<Longrightarrow> k < 224 \<Longrightarrow> region (dir_entry root j) 32 \<inter> region (dir_entry root k) 32 = {}"
  unfolding dir_entry_def by (rule region_array) simp_all

lemma dir_name_cong:
  assumes "\<And>x. x \<in> region (dir_entry root k) 32 \<Longrightarrow> m x = m' x"
  shows "dir_name root k m = dir_name root k m'"
proof -
  have "region (dir_entry root k) 8 \<subseteq> region (dir_entry root k) 32" by (rule region_mono) simp
  then show ?thesis unfolding dir_name_def by (intro bytes_cong) (use assms in auto)
qed

text \<open>The effect of \<open>pad_name\<close>, which starts each of the operations.\<close>

lemma pad_name_layout:
  assumes "dir_layout fat root fname filename cs m"
  defines "m0 \<equiv> pad_name fname filename m"
  shows "bytes m0 fname 8 = name8 cs" "0 \<notin> set (bytes m0 fname 8)" "x \<notin> region fname 9 \<Longrightarrow> m0 x = m x"
    "dir_layout fat root fname filename cs m0"
proof -
  note L = dir_layoutD [OF assms(1)]
  show b: "bytes m0 fname 8 = name8 cs" unfolding m0_def by (rule pad_name_bytes [OF L(1,7,3)])
  show "0 \<notin> set (bytes m0 fname 8)" unfolding b using name8_nonzero [OF L(1)] by blast
  show o: "m0 x = m x" if "x \<notin> region fname 9" for x
  proof -
    have "region fname 8 \<subseteq> region fname 9" "region fname (min 8 (length cs)) \<subseteq> region fname 9" "fname + 8 \<in> region fname 9"
      by (rule region_mono, simp, rule region_mono, simp, simp add: in_region)
    then show ?thesis unfolding m0_def pad_name_apply [OF L(1,7,3)] using that by auto
  qed
  have "cstr m0 filename cs" by (rule cstr_cong [OF L(1) _ L(3)]) (use o L(8) in blast)
  then show "dir_layout fat root fname filename cs m0" using assms(1) unfolding dir_layout_def by blast
qed

section \<open>Creating a file\<close>

lemma create_steps:
  assumes L: "dir_layout fat root fname filename cs m" and new: "\<forall>k<224. dir_name root k m \<noteq> name8 cs"
    and j: "j < 224" "m (dir_entry root j) = 0" "\<forall>k<j. m (dir_entry root k) \<noteq> 0"
  defines "dp \<equiv> dir_entry root j"
  shows "\<exists>m2. bytes m2 dp 11 = cs @ replicate (11 - length cs) 32 \<and>
    (\<forall>x. x \<notin> region fname 9 \<union> region dp 11 \<longrightarrow> m2 x = m x) \<and>
    fat12_create fat root fname filename m =
      (case get_free_fat_entry fat m2 of (entry, m3) \<Rightarrow> Some (st32 (st16 m3 (dp + 26) (word_of_int entry)) (dp + 28) 0))"
proof -
  define m0 where "m0 = pad_name fname filename m"
  note P = pad_name_layout [OF L, folded m0_def] and D = dir_layoutD [OF L]
  have same: "m0 x = m x" if "x \<in> region (dir_entry root k) 32" "k < 224" for x k
    using P(3) D(5) entry_in_root [OF that(2)] that(1) by blast
  have "dir_name root k m0 = dir_name root k m" if "k < 224" for k by (rule dir_name_cong) (rule same [OF _ that])
  then have f: "dir_find 224 root fname m0 = None"
    using dir_find_root [OF D(4) P(2)] new by (simp add: find_upt_None P(1))
  have "m0 (dir_entry root k) = m (dir_entry root k)" if "k < 224" for k by (rule same [OF _ that]) simp
  then have s: "dir_slot 224 root m0 = Some dp"
    using dir_slot_root [of root m0] j find_upt_Some [of "\<lambda>k. m0 (dir_entry root k) = 0" 224 j] by (simp add: dp_def)
  define m1 where "m1 = memset dp 32 11 m0"
  have m1: "m1 x = (if x \<in> region dp 11 then 32 else m0 x)" for x by (simp add: m1_def memset_apply)
  have sub: "region dp 11 \<subseteq> region root 7168"
    using region_mono [of 11 32 dp] entry_in_root [OF j(1), of root] unfolding dp_def by auto
  have c1: "cstr m1 filename cs"
    by (rule cstr_cong [OF dir_layoutD(1) [OF P(4)] _ D(3)]) (use sub D(8) m1 in auto)
  define m2 where "m2 = memcpy dp filename (of_nat (length cs)) m1"
  have u: "unat (of_nat (length cs) :: u32) = length cs" using D(3) by (rule unat_of_nat_32)
  have r: "region dp (length cs) \<subseteq> region dp 11" "region filename (length cs) \<subseteq> region filename (Suc (length cs))"
    using D(2) by (simp_all add: region_mono)
  then have "region dp (length cs) \<inter> region filename (length cs) = {}" using sub D(5) by blast
  then have m2: "m2 x = (if x \<in> region dp (length cs) then m1 (filename + (x - dp)) else m1 x)" for x
    unfolding m2_def by (subst memcpy_apply) (simp_all add: u)
  have "bytes m2 dp 11 = cs @ replicate (11 - length cs) 32"
  proof (rule nth_equalityI)
    fix i assume "i < length (bytes m2 dp 11)"
    then have i: "i < 11" by simp
    then have ui: "unat (of_nat i :: addr) = i" by (intro unat_of_nat_32) simp
    have "m1 (filename + of_nat i) = cs ! i" if "i < length cs" using c1 that by (simp add: cstr_nth)
    then show "bytes m2 dp 11 ! i = (cs @ replicate (11 - length cs) 32) ! i"
      using i ui D(2) by (simp add: m2 in_region m1 nth_append)
  qed (use D(2) in simp)
  moreover have "m2 x = m x" if "x \<notin> region fname 9 \<union> region dp 11" for x
    using that r(1) P(3) [of x] by (auto simp: m2 m1)
  moreover have "fat12_create fat root fname filename m =
      (case get_free_fat_entry fat m2 of (entry, m3) \<Rightarrow> Some (st32 (st16 m3 (dp + 26) (word_of_int entry)) (dp + 28) 0))"
    unfolding fat12_create_def fat12_create_aux_def Let_def m0_def [symmetric] f option.case s m1_def [symmetric]
      strlen_length [OF c1] Option.bind.simps m2_def [symmetric] ..
  ultimately show ?thesis by (intro exI [of _ m2]) simp
qed


text \<open>The state after creating a file in slot \<open>j\<close>, in terms of the state before.\<close>

definition created :: "addr \<Rightarrow> addr \<Rightarrow> addr \<Rightarrow> nat \<Rightarrow> u8 list \<Rightarrow> memory \<Rightarrow> memory \<Rightarrow> bool" where
  "created fat root fname j cs m m' \<longleftrightarrow>
     bytes m' (dir_entry root j) 11 = cs @ replicate (11 - length cs) 32 \<and> ld32 m' (dir_entry root j + 28) = 0 \<and>
     (\<forall>x. x \<notin> region fat 4096 \<union> region fname 9 \<union> region (dir_entry root j) 32 \<longrightarrow> m' x = m x) \<and>
     (if free_entries fat m = {}
      then ld16 m' (dir_entry root j + 26) = 0xffff \<and> (\<forall>i<2730. fat_entry fat i m' = fat_entry fat i m)
      else \<exists>c\<in>free_entries fat m. ld16 m' (dir_entry root j + 26) = of_nat c \<and> fat_chain fat m' c [] \<and>
        (\<forall>i<2730. i \<noteq> c \<longrightarrow> fat_entry fat i m' = fat_entry fat i m))"

lemma created_cluster:
  assumes "created fat root fname j cs m m'" "free_entries fat m \<noteq> {}"
  obtains c where "c \<in> free_entries fat m" "ld16 m' (dir_entry root j + 26) = of_nat c" "fat_chain fat m' c []"
    "\<forall>i<2730. i \<noteq> c \<longrightarrow> fat_entry fat i m' = fat_entry fat i m"
  using assms unfolding created_def by auto

lemma ld16_st32_after: "ld16 (st32 m (a + 2) v) a = ld16 m a"
proof (rule ld16_cong)
  fix x assume "x \<in> region a 2"
  moreover have "region a 2 \<inter> region (a + 2) 4 = {}" by (rule region_apartI) simp_all
  ultimately show "st32 m (a + 2) v x = m x" by (intro st32_out) blast
qed

lemma create_correct:
  assumes L: "dir_layout fat root fname filename cs m" and new: "\<forall>k<224. dir_name root k m \<noteq> name8 cs"
    and j: "j < 224" "m (dir_entry root j) = 0" "\<forall>k<j. m (dir_entry root k) \<noteq> 0"
  shows "\<exists>m'. fat12_create fat root fname filename m = Some m' \<and> created fat root fname j cs m m'"
proof -
  let ?dp = "dir_entry root j"
  note D = dir_layoutD [OF L]
  have sub: "region ?dp 32 \<subseteq> region root 7168" by (rule entry_in_root [OF j(1)])
  have r: "region ?dp 11 \<subseteq> region ?dp 32" "region (?dp + 26) 2 \<subseteq> region ?dp 32" "region (?dp + 28) 4 \<subseteq> region ?dp 32"
    "region ?dp 11 \<inter> region (?dp + 26) 2 = {}" "region ?dp 11 \<inter> region (?dp + 28) 4 = {}"
    by (rule region_mono, simp, (rule region_offset_subset, simp)+, (rule region_apartI, simp_all)+)
  obtain m2 where m2: "bytes m2 ?dp 11 = cs @ replicate (11 - length cs) 32"
    "\<forall>x. x \<notin> region fname 9 \<union> region ?dp 11 \<longrightarrow> m2 x = m x"
    "fat12_create fat root fname filename m =
      (case get_free_fat_entry fat m2 of (entry, m3) \<Rightarrow> Some (st32 (st16 m3 (?dp + 26) (word_of_int entry)) (?dp + 28) 0))"
    using create_steps [OF L new j] by blast
  have e2: "fat_entry fat i m2 = fat_entry fat i m" if "i < 2730" for i
    by (rule fat_entry_cong [OF _ that]) (use m2(2) D(5,6) sub r(1) in blast)
  then have fr: "free_entries fat m2 = free_entries fat m" by (auto simp: free_entries_def)
  have core: "bytes m' ?dp 11 = cs @ replicate (11 - length cs) 32 \<and> ld32 m' (?dp + 28) = 0 \<and> ld16 m' (?dp + 26) = w \<and>
      (\<forall>x. x \<notin> region fat 4096 \<union> region fname 9 \<union> region ?dp 32 \<longrightarrow> m' x = m x) \<and>
      (\<forall>i<2730. fat_entry fat i m' = fat_entry fat i m3)"
    if m3: "\<forall>x. x \<notin> region fat 4096 \<longrightarrow> m3 x = m2 x" and m': "m' = st32 (st16 m3 (?dp + 26) w) (?dp + 28) 0" for m3 m' w
  proof -
    have o: "m' x = m3 x" if "x \<notin> region (?dp + 26) 2" "x \<notin> region (?dp + 28) 4" for x
      using that by (simp add: m' st32_out st16_out)
    have "bytes m' ?dp 11 = bytes m2 ?dp 11"
      by (rule bytes_cong) (use o m3 r sub D(5) in \<open>auto simp: disjoint_iff subset_iff\<close>)
    moreover have "fat_entry fat i m' = fat_entry fat i m3" if "i < 2730" for i
      by (rule fat_entry_cong [OF _ that], rule o) (use r(2,3) sub D(5) in blast)+
    moreover have "ld16 m' (?dp + 26) = w" using ld16_st32_after [of "st16 m3 (?dp + 26) w" "?dp + 26" 0] by (simp add: m' add.assoc)
    moreover have "m' x = m x" if "x \<notin> region fat 4096 \<union> region fname 9 \<union> region ?dp 32" for x
    proof -
      have "x \<notin> region ?dp 11" "x \<notin> region (?dp + 26) 2" "x \<notin> region (?dp + 28) 4" using that r(1-3) by blast+
      then show ?thesis using that o [of x] m3 m2(2) by simp
    qed
    ultimately show ?thesis using m2(1) by (simp add: m')
  qed
  show ?thesis
  proof (cases rule: get_free_fat_entry_cases [of fat m2])
    case full
    have w: "(word_of_int (- 1) :: u16) = 0xffff" by simp
    have "fat12_create fat root fname filename m = Some (st32 (st16 m2 (?dp + 26) 0xffff) (?dp + 28) 0)"
      unfolding m2(3) full(2) prod.case w ..
    then show ?thesis using core [OF _ refl, of m2 "0xffff"] e2 fr full(1) by (simp add: created_def)
  next
    case (found c)
    let ?m3 = "fat_put fat c 0xff8 m2"
    have c: "c < 2730" "c \<in> free_entries fat m" using found(1) fr by (simp_all add: free_entriesD)
    have cr: "fat12_create fat root fname filename m = Some (st32 (st16 ?m3 (?dp + 26) (of_nat c)) (?dp + 28) 0)"
      unfolding m2(3) found(3) by simp
    note k = core [OF _ refl, of ?m3 "of_nat c"]
    have "fat_entry fat i ?m3 = (if i = c then 0xff8 else fat_entry fat i m)" if "i < 2730" for i
      using fat_entry_put [OF c(1) that] e2 [OF that] by simp
    then show ?thesis unfolding cr created_def using k c fat_put_frame [OF c(1)]
      by (intro exI [of _ "st32 (st16 ?m3 (?dp + 26) (of_nat c)) (?dp + 28) 0"]) auto
  qed
qed


section \<open>Removing a file\<close>

lemma remove_loop_skip:
  assumes "k + n \<le> 224" "unat root + 7168 < 2 ^ 32" "0 \<notin> set (bytes m fname 8)"
    "\<forall>i\<in>{k..<k + n}. dir_name root i m \<noteq> bytes m fname 8"
  shows "remove_loop (n + r) fat (dir_entry root k) fname m = remove_loop r fat (dir_entry root (k + n)) fname m"
  using assms(1,4)
proof (induction n arbitrary: k)
  case (Suc n)
  have "unat (dir_entry root k) + 8 < 2 ^ 32" using Suc.prems(1) assms(2) by (subst dir_entry_unat) simp_all
  note s = strncmp_name [OF this assms(3)]
  have e: "dir_entry root k + 32 = dir_entry root (Suc k)" by (simp add: dir_entry_def)
  have "dir_name root k m \<noteq> bytes m fname 8" using Suc.prems(2) by simp
  then have "remove_loop (Suc n + r) fat (dir_entry root k) fname m = remove_loop (n + r) fat (dir_entry root (Suc k)) fname m"
    by (simp add: s e dir_name_def)
  then show ?case using Suc.IH [of "Suc k"] Suc.prems by simp
qed simp

lemma remove_correct:
  assumes L: "dir_layout fat root fname filename cs m"
    and k: "k < 224" "dir_name root k m = name8 cs" "\<forall>i<224. i \<noteq> k \<longrightarrow> dir_name root i m \<noteq> name8 cs"
    and ch: "ld16 m (dir_entry root k + 26) = of_nat c" "fat_chain fat m c ds"
  shows "\<exists>m'. fat12_remove fat root fname filename m = Some m' \<and>
    (\<forall>j<2730. fat_entry fat j m' = (if j \<in> set (c # ds) then 0 else fat_entry fat j m)) \<and>
    (\<forall>x\<in>region (dir_entry root k) 32. m' x = 0) \<and>
    (\<forall>x. x \<notin> region fat 4096 \<union> region fname 9 \<union> region (dir_entry root k) 32 \<longrightarrow> m' x = m x)"
proof -
  let ?dp = "dir_entry root k"
  define m0 where "m0 = pad_name fname filename m"
  note P = pad_name_layout [OF L, folded m0_def] and D = dir_layoutD [OF L]
  have sub: "region ?dp 32 \<subseteq> region root 7168" by (rule entry_in_root [OF k(1)])
  have same: "m0 x = m x" if "x \<in> region (dir_entry root i) 32" "i < 224" for x i
    using P(3) D(5) entry_in_root [OF that(2)] that(1) by blast
  have n0: "dir_name root i m0 = dir_name root i m" if "i < 224" for i by (rule dir_name_cong) (rule same [OF _ that])
  have e0: "fat_entry fat i m0 = fat_entry fat i m" if "i < 2730" for i
    by (rule fat_entry_cong [OF _ that], rule P(3)) (use D(6) in blast)
  have "region (?dp + 26) 2 \<subseteq> region ?dp 32" by (rule region_offset_subset) simp
  then have "ld16 m0 (?dp + 26) = ld16 m (?dp + 26)" by (intro ld16_cong same [OF _ k(1)]) blast
  then have c0: "ld16 m0 (?dp + 26) = of_nat c" using ch(1) by simp
  have "fat_chain fat m0 c ds" by (rule chain_cong [OF ch(2)]) (use chain_bound [OF ch(2)] in \<open>auto intro: e0\<close>)
  from free_chain_spec [OF this] obtain m1 where m1: "free_chain fat (of_nat c) m0 = Some m1"
    "\<forall>j<2730. fat_entry fat j m1 = (if j \<in> set (c # ds) then 0 else fat_entry fat j m0)"
    "\<forall>x. x \<notin> region fat 4096 \<longrightarrow> m1 x = m0 x" by blast
  define m2 where "m2 = memset_loop 32 ?dp 0 m1"
  have m2: "m2 x = (if x \<in> region ?dp 32 then 0 else m1 x)" for x by (simp add: m2_def memset_loop_apply)
  have "region fname 8 \<subseteq> region fname 9" by (rule region_mono) simp
  then have f2: "m2 x = m0 x" if "x \<in> region fname 8" for x
  proof -
    have "x \<notin> region ?dp 32" "x \<notin> region fat 4096" using that \<open>region fname 8 \<subseteq> region fname 9\<close> sub D(5,6) by blast+
    then show ?thesis using m1(3) by (simp add: m2)
  qed
  have b2: "bytes m2 fname 8 = bytes m0 fname 8" by (rule bytes_cong) (use f2 in simp_all)
  have n2: "dir_name root i m2 \<noteq> bytes m2 fname 8" if "i \<in> {Suc k..<Suc k + (224 - Suc k)}" for i
  proof -
    have i: "i < 224" "i \<noteq> k" using that by auto
    have "dir_name root i m2 = dir_name root i m0"
    proof (rule dir_name_cong)
      fix x assume x: "x \<in> region (dir_entry root i) 32"
      then have "x \<notin> region ?dp 32" using entries_apart [OF i(2,1) k(1), of root] by blast
      moreover have "x \<notin> region fat 4096" using x entry_in_root [OF i(1)] D(5) by blast
      ultimately show "m2 x = m0 x" using m1(3) by (simp add: m2)
    qed
    then show ?thesis unfolding b2 P(1) n0 [OF i(1)] using k(3) i by simp
  qed
  have "unat ?dp + 8 < 2 ^ 32" using k(1) D(4) by (subst dir_entry_unat) simp_all
  then have hit: "strncmp ?dp fname 8 m0 = 0"
    using strncmp_name [OF _ P(2), of ?dp] n0 [OF k(1)] k(2) by (simp add: dir_name_def P(1))
  have e: "?dp + 32 = dir_entry root (Suc k)" by (simp add: dir_entry_def)
  have "fat12_remove fat root fname filename m = remove_loop (k + Suc (223 - k)) fat (dir_entry root 0) fname m0"
    using k(1) by (simp add: fat12_remove_def fat12_remove_aux_def m0_def dir_entry_0)
  also have "\<dots> = remove_loop (Suc (223 - k)) fat ?dp fname m0"
    using remove_loop_skip [of 0 k root m0 fname "Suc (223 - k)" fat] k(1,3) D(4) P(1,2) n0 by simp
  also have "\<dots> = remove_loop (224 - Suc k + 0) fat (dir_entry root (Suc k)) fname m2"
    by (simp add: hit c0 m1(1) e m2_def)
  also have "\<dots> = remove_loop 0 fat (dir_entry root (Suc k + (224 - Suc k))) fname m2"
    by (rule remove_loop_skip) (use k(1) D(4) P(2) b2 n2 in auto)
  finally have r: "fat12_remove fat root fname filename m = Some m2" by simp
  have "fat_entry fat j m2 = fat_entry fat j m1" if "j < 2730" for j
    by (rule fat_entry_cong [OF _ that]) (use sub D(5) m2 in auto)
  then have "\<forall>j<2730. fat_entry fat j m2 = (if j \<in> set (c # ds) then 0 else fat_entry fat j m)" using m1(2) e0 by simp
  moreover have "m2 x = m x" if "x \<notin> region fat 4096 \<union> region fname 9 \<union> region ?dp 32" for x
    using that m2 m1(3) P(3) by simp
  ultimately show ?thesis using r m2 by (intro exI [of _ m2]) simp
qed


lemma created_layout:
  assumes L: "dir_layout fat root fname filename cs m" and new: "\<forall>k<224. dir_name root k m \<noteq> name8 cs"
    and j: "j < 224" and c: "created fat root fname j cs m m'"
  shows "dir_layout fat root fname filename cs m'" "dir_name root j m' = name8 cs"
    "\<forall>i<224. i \<noteq> j \<longrightarrow> dir_name root i m' \<noteq> name8 cs"
proof -
  note D = dir_layoutD [OF L]
  have out: "m' x = m x" if "x \<notin> region fat 4096 \<union> region fname 9 \<union> region (dir_entry root j) 32" for x
    using c that unfolding created_def by blast
  have "cstr m' filename cs"
    by (rule cstr_cong [OF D(1) _ D(3)], rule out) (use D(8) entry_in_root [OF j, of root] in blast)
  then show "dir_layout fat root fname filename cs m'" using L unfolding dir_layout_def by blast
  have b: "bytes m' (dir_entry root j) 11 = cs @ replicate (11 - length cs) 32" using c by (simp add: created_def)
  have "bytes m' (dir_entry root j) 8 = take 8 (bytes m' (dir_entry root j) 11)"
    by (rule nth_equalityI) simp_all
  also have "\<dots> = name8 cs" unfolding b name8_def by (rule nth_equalityI) (use D(2) in \<open>auto simp: nth_append\<close>)
  finally show "dir_name root j m' = name8 cs" by (simp add: dir_name_def)
  show "\<forall>i<224. i \<noteq> j \<longrightarrow> dir_name root i m' \<noteq> name8 cs"
  proof (intro allI impI)
    fix i assume i: "i < 224" "i \<noteq> j"
    have "dir_name root i m' = dir_name root i m"
      by (rule dir_name_cong, rule out) (use entries_apart [OF i(2,1) j, of root] entry_in_root [OF i(1), of root] D(5) in blast)
    then show "dir_name root i m' \<noteq> name8 cs" using new i(1) by simp
  qed
qed

section \<open>An empty disk\<close>

text \<open>The table at 0x10000, the directory at 0x20000, the buffer at 0x30000, and the name "A" at 0x40000.\<close>

definition disk0 :: memory where
  "disk0 = fat0(0x40000 := 65)"

lemma disk0_layout: "dir_layout 0x10000 0x20000 0x30000 0x40000 [65] disk0"
proof -
  have r: "region 0x20000 7168 \<inter> region 0x10000 4096 = {}" "region 0x30000 9 \<inter> region 0x20000 7168 = {}"
    "region 0x30000 9 \<inter> region 0x10000 4096 = {}" "region 0x30000 9 \<inter> region 0x40000 2 = {}"
    "region 0x40000 2 \<inter> region 0x20000 7168 = {}" "region 0x40000 2 \<inter> region 0x10000 4096 = {}"
    by (rule region_apartI; simp)+
  have "cstr disk0 0x40000 [65]" by (simp add: disk0_def fat0_def)
  moreover have s: "Suc (length [65 :: u8]) = 2" by simp
  ultimately show ?thesis unfolding dir_layout_def s Int_Un_distrib Un_empty using r by (intro conjI) simp_all
qed

lemma disk0_dir: "k < 224 \<Longrightarrow> disk0 (dir_entry 0x20000 k) = 0"
proof -
  assume "k < 224"
  then have u: "unat (dir_entry 0x20000 k) = 0x20000 + 32 * k" using dir_entry_unat [of k "0x20000"] by simp
  have "dir_entry 0x20000 k \<noteq> a" if "unat a < 0x20000 \<or> 0x22000 < unat a" for a
    using u that \<open>k < 224\<close> by auto
  then show ?thesis by (simp add: disk0_def fat0_def)
qed

lemma disk0_names: "\<forall>k<224. dir_name 0x20000 k disk0 \<noteq> name8 [65]"
proof (intro allI impI)
  fix k :: nat assume "k < 224"
  then have "dir_name 0x20000 k disk0 ! 0 = 0" unfolding dir_name_def using disk0_dir by simp
  moreover have "name8 [65] ! 0 = 65" by (simp add: name8_def)
  ultimately show "dir_name 0x20000 k disk0 \<noteq> name8 [65]" by auto
qed

lemma disk0_free: "free_entries 0x10000 disk0 = {2..<2730}"
proof -
  have "0x40000 \<notin> region 0x10000 4096" by (simp add: in_region)
  then have "fat_entry 0x10000 i disk0 = fat_entry 0x10000 i fat0" if "i < 2730" for i
    by (intro fat_entry_cong that) (auto simp: disk0_def)
  then have "free_entries 0x10000 disk0 = free_entries 0x10000 fat0" by (auto simp: free_entries_def)
  then show ?thesis by (simp only: fat0_free)
qed

section \<open>Properties\<close>

text \<open>
  C35. \<open>fat12_create\<close> of a name that is not in the directory fills the first unused entry with the name
  padded with blanks, the size 0 and a newly taken cluster that ends its chain; no other entry of the
  directory and no other chain changes. When the table is full the entry is written all the same, with
  the cluster number 0xffff.
\<close>

theorem create_writes_entry:
  assumes "dir_layout fat root fname filename cs m" "\<forall>k<224. dir_name root k m \<noteq> name8 cs"
    "j < 224" "m (dir_entry root j) = 0" "\<forall>k<j. m (dir_entry root k) \<noteq> 0"
  shows "\<exists>m'. fat12_create fat root fname filename m = Some m' \<and>
    bytes m' (dir_entry root j) 11 = cs @ replicate (11 - length cs) 32 \<and> ld32 m' (dir_entry root j + 28) = 0 \<and>
    (\<forall>x. x \<notin> region fat 4096 \<union> region fname 9 \<union> region (dir_entry root j) 32 \<longrightarrow> m' x = m x) \<and>
    (if free_entries fat m = {}
     then ld16 m' (dir_entry root j + 26) = 0xffff \<and> (\<forall>i<2730. fat_entry fat i m' = fat_entry fat i m)
     else \<exists>c\<in>free_entries fat m. ld16 m' (dir_entry root j + 26) = of_nat c \<and> fat_chain fat m' c [] \<and>
       (\<forall>i<2730. i \<noteq> c \<longrightarrow> fat_entry fat i m' = fat_entry fat i m))"
  using create_correct [OF assms] unfolding created_def .

theorem create_writes_entry_witness:
  "\<exists>m'. fat12_create 0x10000 0x20000 0x30000 0x40000 disk0 = Some m' \<and>
    bytes m' 0x20000 11 = 65 # replicate 10 32"
proof -
  have j: "(0 :: nat) < 224" "disk0 (dir_entry 0x20000 0) = 0" "\<forall>k<0. disk0 (dir_entry 0x20000 k) \<noteq> 0"
    using disk0_dir [of 0] by simp_all
  obtain m' where m': "fat12_create 0x10000 0x20000 0x30000 0x40000 disk0 = Some m'"
    "bytes m' (dir_entry 0x20000 0) 11 = [65] @ replicate (11 - length [65 :: u8]) 32"
    using create_writes_entry [OF disk0_layout disk0_names j] by blast
  have "[65] @ replicate (11 - length [65 :: u8]) 32 = 65 # replicate 10 (32 :: u8)" by simp
  then show ?thesis using m' unfolding dir_entry_0 by (intro exI [of _ m']) simp
qed

text \<open>
  C12. Creating a file and removing it again gives the table its old value, entry by entry, and leaves the
  directory as it was but for the slot used, which is cleared.
\<close>

theorem create_remove_roundtrip:
  assumes "dir_layout fat root fname filename cs m" "\<forall>k<224. dir_name root k m \<noteq> name8 cs"
    "j < 224" "m (dir_entry root j) = 0" "\<forall>k<j. m (dir_entry root k) \<noteq> 0" "free_entries fat m \<noteq> {}"
  shows "\<exists>m' m''. fat12_create fat root fname filename m = Some m' \<and> fat12_remove fat root fname filename m' = Some m'' \<and>
    (\<forall>i<2730. fat_entry fat i m'' = fat_entry fat i m) \<and> (\<forall>x\<in>region (dir_entry root j) 32. m'' x = 0) \<and>
    (\<forall>x. x \<notin> region fat 4096 \<union> region fname 9 \<union> region (dir_entry root j) 32 \<longrightarrow> m'' x = m x)"
proof -
  obtain m' where m': "fat12_create fat root fname filename m = Some m'" "created fat root fname j cs m m'"
    using create_correct [OF assms(1-5)] by blast
  note cl = created_layout [OF assms(1-3) m'(2)]
  obtain c where c: "c \<in> free_entries fat m" "ld16 m' (dir_entry root j + 26) = of_nat c" "fat_chain fat m' c []"
    "\<forall>i<2730. i \<noteq> c \<longrightarrow> fat_entry fat i m' = fat_entry fat i m"
    by (rule created_cluster [OF m'(2) assms(6)])
  obtain m'' where m'': "fat12_remove fat root fname filename m' = Some m''"
    "\<forall>i<2730. fat_entry fat i m'' = (if i \<in> set [c] then 0 else fat_entry fat i m')"
    "\<forall>x\<in>region (dir_entry root j) 32. m'' x = 0"
    "\<forall>x. x \<notin> region fat 4096 \<union> region fname 9 \<union> region (dir_entry root j) 32 \<longrightarrow> m'' x = m' x"
    using remove_correct [OF cl(1) assms(3) cl(2,3) c(2,3)] by blast
  have "\<forall>i<2730. fat_entry fat i m'' = fat_entry fat i m" using m''(2) c(1,4) by (auto simp: free_entriesD)
  moreover have "\<forall>x. x \<notin> region fat 4096 \<union> region fname 9 \<union> region (dir_entry root j) 32 \<longrightarrow> m'' x = m x"
    using m''(4) m'(2) by (simp add: created_def)
  ultimately show ?thesis using m'(1) m''(1,3) by blast
qed

theorem create_remove_roundtrip_witness:
  "\<exists>m' m''. fat12_create 0x10000 0x20000 0x30000 0x40000 disk0 = Some m' \<and>
    fat12_remove 0x10000 0x20000 0x30000 0x40000 m' = Some m'' \<and> fat_entry 0x10000 2 m'' = 0"
proof -
  have j: "(0 :: nat) < 224" "disk0 (dir_entry 0x20000 0) = 0" "\<forall>k<0. disk0 (dir_entry 0x20000 k) \<noteq> 0"
    using disk0_dir [of 0] by simp_all
  have f: "2 \<in> free_entries 0x10000 disk0" unfolding disk0_free by simp
  then have "free_entries 0x10000 disk0 \<noteq> {}" by blast
  from create_remove_roundtrip [OF disk0_layout disk0_names j this]
  obtain m' m'' where "fat12_create 0x10000 0x20000 0x30000 0x40000 disk0 = Some m'"
    "fat12_remove 0x10000 0x20000 0x30000 0x40000 m' = Some m''"
    "\<forall>i<2730. fat_entry 0x10000 i m'' = fat_entry 0x10000 i disk0" by blast
  then show ?thesis using f by (intro exI [of _ m'] exI [of _ m'']) (simp add: free_entriesD)
qed

text \<open>
  C34. \<open>fat12_remove\<close> frees exactly the clusters of the chain of the file, clears the 32 bytes of its
  directory entry, and changes nothing else.
\<close>

theorem remove_frees_chain:
  assumes "dir_layout fat root fname filename cs m" "k < 224" "dir_name root k m = name8 cs"
    "\<forall>i<224. i \<noteq> k \<longrightarrow> dir_name root i m \<noteq> name8 cs"
    "ld16 m (dir_entry root k + 26) = of_nat c" "fat_chain fat m c ds"
  shows "\<exists>m'. fat12_remove fat root fname filename m = Some m' \<and>
    free_entries fat m' = free_entries fat m \<union> set (c # ds) \<and>
    (\<forall>j<2730. j \<notin> set (c # ds) \<longrightarrow> fat_entry fat j m' = fat_entry fat j m) \<and>
    (\<forall>x\<in>region (dir_entry root k) 32. m' x = 0) \<and>
    (\<forall>x. x \<notin> region fat 4096 \<union> region fname 9 \<union> region (dir_entry root k) 32 \<longrightarrow> m' x = m x)"
proof -
  obtain m' where m': "fat12_remove fat root fname filename m = Some m'"
    "\<forall>j<2730. fat_entry fat j m' = (if j \<in> set (c # ds) then 0 else fat_entry fat j m)"
    "\<forall>x\<in>region (dir_entry root k) 32. m' x = 0"
    "\<forall>x. x \<notin> region fat 4096 \<union> region fname 9 \<union> region (dir_entry root k) 32 \<longrightarrow> m' x = m x"
    using remove_correct [OF assms] by blast
  have "j \<in> free_entries fat m' \<longleftrightarrow> j \<in> free_entries fat m \<union> set (c # ds)" for j
    using m'(2) chain_bound [OF assms(6)] by (cases "j \<in> set (c # ds)") (auto simp: free_entriesD)
  then have "free_entries fat m' = free_entries fat m \<union> set (c # ds)" by blast
  then show ?thesis using m' by (intro exI [of _ m']) simp
qed


theorem remove_frees_chain_witness:
  "\<exists>m' m''. fat12_create 0x10000 0x20000 0x30000 0x40000 disk0 = Some m' \<and>
    fat12_remove 0x10000 0x20000 0x30000 0x40000 m' = Some m'' \<and> free_entries 0x10000 m'' = {2..<2730}"
proof -
  have j: "(0 :: nat) < 224" "disk0 (dir_entry 0x20000 0) = 0" "\<forall>k<0. disk0 (dir_entry 0x20000 k) \<noteq> 0"
    using disk0_dir [of 0] by simp_all
  obtain m' where m': "fat12_create 0x10000 0x20000 0x30000 0x40000 disk0 = Some m'"
    "created 0x10000 0x20000 0x30000 0 [65] disk0 m'"
    using create_correct [OF disk0_layout disk0_names j] by blast
  note cl = created_layout [OF disk0_layout disk0_names j(1) m'(2)]
  have "2 \<in> free_entries 0x10000 disk0" unfolding disk0_free by simp
  then have "free_entries 0x10000 disk0 \<noteq> {}" by blast
  from created_cluster [OF m'(2) this] obtain c where c: "c \<in> free_entries 0x10000 disk0"
    "ld16 m' (dir_entry 0x20000 0 + 26) = of_nat c" "fat_chain 0x10000 m' c []"
    "\<forall>i<2730. i \<noteq> c \<longrightarrow> fat_entry 0x10000 i m' = fat_entry 0x10000 i disk0" .
  obtain m'' where m'': "fat12_remove 0x10000 0x20000 0x30000 0x40000 m' = Some m''"
    "free_entries 0x10000 m'' = free_entries 0x10000 m' \<union> set [c]"
    using remove_frees_chain [OF cl(1) j(1) cl(2,3) c(2,3)] by blast
  have "i \<in> free_entries 0x10000 m' \<union> set [c] \<longleftrightarrow> i \<in> free_entries 0x10000 disk0" for i
    using c(1,4) by (cases "i = c") (auto simp: free_entriesD)
  then have "free_entries 0x10000 m'' = free_entries 0x10000 disk0" unfolding m''(2) by blast
  then show ?thesis using m'(1) m''(1) disk0_free by metis
qed

end
