(* ===== verification/KMalloc.thy ===== *)
theory KMalloc
  imports PageAlloc
begin

text \<open>
  The kernel heap of \<open>kernel/mm_alloc.c\<close>. A node is a block of pages: a header of four words (order,
  first free area, first used area, next node) followed by areas, each with a header of two words (size
  and next area of its list). \<open>kmalloc\<close> takes the first free area that is large enough, or adds a node and
  tries again; \<open>kfree\<close> looks for the area among the used ones of every node. The loops over the lists
  are partial functions: on lists with a cycle they would not end.
\<close>

section \<open>State\<close>

record heap_state = mm_state +
  malloc_list :: addr

text \<open>Offsets of the fields of \<open>malloc_node_t\<close> and \<open>marea_t\<close>; \<open>order\<close> and \<open>size\<close> are at 0.\<close>

abbreviation (input) node_free :: "addr \<Rightarrow> addr" where "node_free mnp \<equiv> mnp + 4"
abbreviation (input) node_used :: "addr \<Rightarrow> addr" where "node_used mnp \<equiv> mnp + 8"
abbreviation (input) node_next :: "addr \<Rightarrow> addr" where "node_next mnp \<equiv> mnp + 12"
abbreviation (input) area_next :: "addr \<Rightarrow> addr" where "area_next ma \<equiv> ma + 4"

section \<open>Nodes\<close>

definition new_malloc_node :: "u32 \<Rightarrow> 'a mm_state_scheme \<Rightarrow> fault + addr \<times> 'a mm_state_scheme" where
  "new_malloc_node order s =
     bindE (alloc_pages order s) (\<lambda>(page, s).
       let mnp = page_to_vir page s;
           m = st32 (mem s) mnp order;
           m = st32 m (node_free mnp) (mnp + 16);
           m = st32 m (node_used mnp) 0;
           m = st32 m (node_next mnp) 0;
           ma = ld32 m (node_free mnp);
           m = st32 m ma (push_bit (unat order) PAGE_SIZE - 16);
           m = st32 m (area_next ma) 0
       in Inr (mnp, s\<lparr>mem := m\<rparr>))"

definition kmalloc_init :: "'a heap_state_scheme \<Rightarrow> fault + 'a heap_state_scheme" where
  "kmalloc_init s = bindE (new_malloc_node 0 s) (\<lambda>(mnp, s). Inr (s\<lparr>malloc_list := mnp\<rparr>))"

section \<open>kmalloc\<close>

text \<open>The inner search: the first large enough area from \<open>ma\<close> on with its predecessor, or 0.\<close>

partial_function (option) find_area :: "memory \<Rightarrow> u32 \<Rightarrow> addr \<Rightarrow> addr \<Rightarrow> (addr \<times> addr) option" where
  "find_area m real_size ma ma_last =
     (if ma = 0 then Some (0, ma_last)
      else if ld32 m ma \<ge> real_size then Some (ma, ma_last)
      else find_area m real_size (ld32 m (area_next ma)) ma)"

partial_function (option) find_node :: "memory \<Rightarrow> u32 \<Rightarrow> u32 \<Rightarrow> addr \<Rightarrow> (addr \<times> addr \<times> addr) option" where
  "find_node m order real_size mnp =
     (if mnp = 0 then Some (0, 0, 0)
      else if ld32 m mnp \<ge> order then
        Option.bind (find_area m real_size (ld32 m (node_free mnp)) 0) (\<lambda>(ma, ma_last).
          if ma \<noteq> 0 then Some (mnp, ma, ma_last) else find_node m order real_size (ld32 m (node_next mnp)))
      else find_node m order real_size (ld32 m (node_next mnp)))"

text \<open>The body of the search: the area is resized, moved to the used areas, and its rest is a free area.\<close>

definition take_area :: "addr \<Rightarrow> addr \<Rightarrow> addr \<Rightarrow> u32 \<Rightarrow> memory \<Rightarrow> memory" where
  "take_area mnp ma ma_last real_size m =
     (let old_size = ld32 m ma;
          old_next = ld32 m (area_next ma);
          m = st32 m ma real_size;
          m = st32 m (area_next ma) (ld32 m (node_used mnp));
          m = st32 m (node_used mnp) ma;
          rest = old_size - real_size
      in if rest > 8 then
           let nma = ma + ld32 m ma;
               m = st32 m nma rest;
               m = st32 m (area_next nma) old_next
           in if ma_last = 0 then st32 m (node_free mnp) nma else st32 m (area_next ma_last) nma
         else
           if ma_last = 0 then st32 m (node_free mnp) 0 else st32 m (area_next ma_last) 0)"

partial_function (option) kmalloc :: "u32 \<Rightarrow> 'a heap_state_scheme \<Rightarrow> (fault + addr \<times> 'a heap_state_scheme) option" where
  "kmalloc sz s =
     (let order = drop_bit 12 sz;
          real_size = LONG_ALIGN (sz + 8)
      in if malloc_list s = 0 then Some (Inl (Bug ''kmalloc''))
         else Option.bind (find_node (mem s) order real_size (malloc_list s)) (\<lambda>(mnp, ma, ma_last).
           if ma \<noteq> 0 then Some (Inr (ma + 8, s\<lparr>mem := take_area mnp ma ma_last real_size (mem s)\<rparr>))
           else (case new_malloc_node order s of
               Inl e \<Rightarrow> Some (Inl e)
             | Inr (mnp, s) \<Rightarrow>
                 if mnp \<noteq> 0 then
                   kmalloc sz (s\<lparr>mem := st32 (mem s) (node_next mnp) (malloc_list s), malloc_list := mnp\<rparr>)
                 else Some (Inr (0, s)))))"

section \<open>kfree\<close>

text \<open>The used area that holds \<open>up\<close>, with its predecessor, or 0; and the same over all nodes.\<close>

partial_function (option) find_used :: "memory \<Rightarrow> addr \<Rightarrow> addr \<Rightarrow> addr \<Rightarrow> (addr \<times> addr) option" where
  "find_used m up ma ma_last =
     (if ma = 0 then Some (0, ma_last)
      else if up = ma + 8 then Some (ma, ma_last)
      else find_used m up (ld32 m (area_next ma)) ma)"

partial_function (option) find_owner ::
  "memory \<Rightarrow> addr \<Rightarrow> addr \<Rightarrow> addr \<Rightarrow> (addr \<times> addr \<times> addr \<times> addr) option" where
  "find_owner m up mnp mnp_last =
     (if mnp = 0 then Some (0, 0, 0, 0)
      else Option.bind (find_used m up (ld32 m (node_used mnp)) 0) (\<lambda>(ma, ma_last).
        if ma \<noteq> 0 then Some (mnp, mnp_last, ma, ma_last)
        else find_owner m up (ld32 m (node_next mnp)) mnp))"

text \<open>The first free area above \<open>ma\<close>, or 0, with its predecessor.\<close>

partial_function (option) find_place :: "memory \<Rightarrow> addr \<Rightarrow> addr \<Rightarrow> addr \<Rightarrow> (addr \<times> addr) option" where
  "find_place m ma mb mb_last =
     (if mb \<noteq> 0 \<and> ma \<ge> mb then find_place m ma (ld32 m (area_next mb)) mb else Some (mb, mb_last))"

text \<open>
  The body of the search, from the removal of the area from the used areas on. When the area is below
  every free area, \<open>mb_last\<close> is null, and it is dereferenced when the area borders on the next one.
\<close>

definition put_area :: "addr \<Rightarrow> addr \<Rightarrow> addr \<Rightarrow> addr \<Rightarrow> memory \<Rightarrow> fault + memory" where
  "put_area mnp ma mb mb_last m =
     (let (ma, m) =
            (if mb_last = 0 then
               let m = st32 m (area_next ma) (ld32 m (node_free mnp)) in (ma, st32 m (node_free mnp) ma)
             else if mb_last + ld32 m mb_last = ma then (mb_last, st32 m mb_last (ld32 m mb_last + ld32 m ma))
             else (ma, m))
      in if ma + ld32 m ma = mb then
           let m = st32 m ma (ld32 m ma + ld32 m mb);
               m = st32 m (area_next ma) (ld32 m (area_next mb))
           in if ma \<noteq> mb_last then if mb_last = 0 then Inl NullDeref else Inr (st32 m (area_next mb_last) ma)
              else Inr m
         else Inr m)"

text \<open>Giving back a node that is all free, unless it is the first one.\<close>

definition recycle_node :: "addr \<Rightarrow> addr \<Rightarrow> 'a mm_state_scheme \<Rightarrow> 'a mm_state_scheme" where
  "recycle_node mnp mnp_last s =
     (if mnp_last \<noteq> 0 then
        let ma = ld32 (mem s) (node_free mnp)
        in if ld32 (mem s) ma + 16 = push_bit (unat (ld32 (mem s) mnp)) PAGE_SIZE then
             let s = s\<lparr>mem := st32 (mem s) (node_next mnp_last) (ld32 (mem s) (node_next mnp))\<rparr>
             in free_pages (vir_to_page mnp s) (ld32 (mem s) mnp) s
           else s
      else s)"

definition kfree :: "addr \<Rightarrow> 'a heap_state_scheme \<Rightarrow> (fault + 'a heap_state_scheme) option" where
  "kfree p s =
     Option.bind (find_owner (mem s) p (malloc_list s) 0) (\<lambda>(mnp, mnp_last, ma, ma_last).
       if mnp = 0 then Some (Inl (Bug ''kfree: illegal address''))
       else
         let m = (if ma_last = 0
              then st32 (mem s) (node_used mnp) (ld32 (mem s) (area_next (ld32 (mem s) (node_used mnp))))
              else st32 (mem s) (area_next ma_last) (ld32 (mem s) (area_next ma)))
         in Option.bind (find_place m ma (ld32 m (node_free mnp)) 0) (\<lambda>(mb, mb_last).
              case put_area mnp ma mb mb_last m of Inl e \<Rightarrow> Some (Inl e)
              | Inr m \<Rightarrow> Some (Inr (recycle_node mnp mnp_last (s\<lparr>mem := m\<rparr>)))))"

end
