(* ===== verification/KHeap.thy ===== *)
theory KHeap
  imports KMalloc
begin

text \<open>
  The heap of \<open>kernel/mm_alloc.c\<close> as a list of nodes with their free and used areas: what the memory
  must hold, and what the operations do to it.
\<close>

section \<open>Areas and nodes\<close>

type_synonym area = "addr \<times> u32"

record hnode =
  hn_addr :: addr
  hn_order :: nat
  hn_free :: "area list"
  hn_used :: "area list"

abbreviation astart :: "area \<Rightarrow> nat" where "astart x \<equiv> unat (fst x)"
abbreviation asize :: "area \<Rightarrow> nat" where "asize x \<equiv> unat (snd x)"

definition far :: "area \<Rightarrow> area \<Rightarrow> bool" where
  "far x y \<longleftrightarrow> astart x + asize x \<le> astart y \<or> astart y + asize y \<le> astart x"

lemma far_sym: "far x y \<longleftrightarrow> far y x"
  by (auto simp: far_def)

text \<open>The areas \<open>xs\<close> are linked from \<open>p\<close> on, up to \<open>q\<close>.\<close>

primrec aseg :: "memory \<Rightarrow> addr \<Rightarrow> area list \<Rightarrow> addr \<Rightarrow> bool" where
  "aseg m p [] q \<longleftrightarrow> p = q"
| "aseg m p (x # xs) q \<longleftrightarrow> p = fst x \<and> fst x \<noteq> 0 \<and> ld32 m (fst x) = snd x \<and> aseg m (ld32 m (area_next (fst x))) xs q"

lemma aseg_append: "aseg m p (xs @ ys) q \<longleftrightarrow> (\<exists>r. aseg m p xs r \<and> aseg m r ys q)"
  by (induction xs arbitrary: p) auto

definition node_rep :: "memory \<Rightarrow> hnode \<Rightarrow> bool" where
  "node_rep m n \<longleftrightarrow> ld32 m (hn_addr n) = of_nat (hn_order n) \<and>
     aseg m (ld32 m (node_free (hn_addr n))) (hn_free n) 0 \<and> aseg m (ld32 m (node_used (hn_addr n))) (hn_used n) 0"

primrec nodes :: "memory \<Rightarrow> addr \<Rightarrow> hnode list \<Rightarrow> bool" where
  "nodes m p [] \<longleftrightarrow> p = 0"
| "nodes m p (n # ns) \<longleftrightarrow> p = hn_addr n \<and> hn_addr n \<noteq> 0 \<and> node_rep m n \<and> nodes m (ld32 m (node_next (hn_addr n))) ns"

definition area_in :: "hnode \<Rightarrow> area \<Rightarrow> bool" where
  "area_in n x \<longleftrightarrow> unat (hn_addr n) + 16 \<le> astart x \<and> astart x + asize x \<le> unat (hn_addr n) + 4096 * 2 ^ hn_order n \<and>
     8 \<le> asize x \<and> 4 dvd astart x \<and> 4 dvd asize x"

definition node_wf :: "hnode \<Rightarrow> bool" where
  "node_wf n \<longleftrightarrow> hn_order n \<le> 10 \<and> 0 < unat (hn_addr n) \<and> unat (hn_addr n) + 4096 * 2 ^ hn_order n \<le> 2 ^ 32 \<and>
     (\<forall>x\<in>set (hn_free n @ hn_used n). area_in n x) \<and> sorted_wrt far (hn_free n @ hn_used n)"

lemma node_wfD:
  assumes "node_wf n"
  shows "hn_order n \<le> 10" "0 < unat (hn_addr n)" "unat (hn_addr n) + 4096 * 2 ^ hn_order n \<le> 2 ^ 32"
    "x \<in> set (hn_free n) \<union> set (hn_used n) \<Longrightarrow> area_in n x" "sorted_wrt far (hn_free n @ hn_used n)"
  using assms by (auto simp: node_wf_def)

section \<open>Stores and loads by position\<close>

lemma region_far:
  assumes "unat a + n \<le> unat b \<or> unat b + k \<le> unat a" "unat a + n \<le> 2 ^ 32" "unat b + k \<le> 2 ^ 32"
  shows "region a n \<inter> region b k = {}"
  using assms region_ordered [of a n b k] region_ordered [of b k a n] by blast

lemma ld32_st32_far:
  assumes "unat a + 4 \<le> unat b \<or> unat b + 4 \<le> unat a" "unat a + 4 \<le> 2 ^ 32" "unat b + 4 \<le> 2 ^ 32"
  shows "ld32 (st32 m b v) a = ld32 m a"
  by (rule ld32_st32_apart) (rule region_far [OF assms])

lemma aseg_st32:
  assumes "\<forall>x\<in>set xs. (unat b + 4 \<le> astart x \<or> astart x + 8 \<le> unat b) \<and> astart x + 8 \<le> 2 ^ 32" "unat b + 4 \<le> 2 ^ 32"
  shows "aseg (st32 m b v) p xs q \<longleftrightarrow> aseg m p xs q"
  using assms(1)
proof (induction xs arbitrary: p)
  case (Cons x xs)
  have x: "unat b + 4 \<le> astart x \<or> astart x + 8 \<le> unat b" "astart x + 8 \<le> 2 ^ 32" using Cons.prems by simp_all
  have "unat (fst x + of_nat 4) = astart x + 4" using x(2) by (intro unat_add_32) simp
  then have "unat (fst x + 4) = astart x + 4" by simp
  then have "ld32 (st32 m b v) (fst x) = ld32 m (fst x)" "ld32 (st32 m b v) (fst x + 4) = ld32 m (fst x + 4)"
    using x assms(2) by (intro ld32_st32_far; linarith)+
  then show ?case using Cons by auto
qed simp

lemma aseg_last:
  assumes "aseg m p (xs @ [l]) q" "\<forall>x\<in>set xs. (astart l + 8 \<le> astart x \<or> astart x + 8 \<le> astart l) \<and> astart x + 8 \<le> 2 ^ 32"
    "astart l + 8 \<le> 2 ^ 32"
  shows "aseg (st32 m (area_next (fst l)) r) p (xs @ [l]) r"
proof -
  have u: "unat (fst l + 4) = astart l + 4" using unat_add_32 [of "fst l" 4] assms(3) by simp
  have "aseg (st32 m (area_next (fst l)) r) p xs (fst l)"
    using assms u by (subst aseg_st32) (auto simp: aseg_append)
  moreover have "ld32 (st32 m (area_next (fst l)) r) (fst l) = ld32 m (fst l)"
    using u assms(3) by (intro ld32_st32_far; linarith)
  ultimately show ?thesis using assms(1) by (auto simp: aseg_append)
qed

section \<open>Searching\<close>

lemma find_area_none:
  "aseg m p xs 0 \<Longrightarrow> \<forall>x\<in>set xs. snd x < r \<Longrightarrow> \<exists>l. find_area m r p lst = Some (0, l)"
proof (induction xs arbitrary: p lst)
  case Nil
  then show ?case by (subst find_area.simps) simp
next
  case (Cons x xs)
  then have "\<not> r \<le> ld32 m p" by (simp add: not_le)
  then show ?case using Cons.IH [of "ld32 m (p + 4)" p] Cons.prems by (subst find_area.simps) auto
qed

lemma find_area_hit:
  "aseg m p (pre @ x # post) 0 \<Longrightarrow> \<forall>y\<in>set pre. snd y < r \<Longrightarrow> r \<le> snd x \<Longrightarrow>
    find_area m r p lst = Some (fst x, if pre = [] then lst else fst (last pre))"
proof (induction pre arbitrary: p lst)
  case Nil
  then show ?case by (subst find_area.simps) simp
next
  case (Cons y pre)
  then have "\<not> r \<le> ld32 m p" by (simp add: not_le)
  then show ?case using Cons.IH [of "ld32 m (p + 4)" p] Cons.prems by (subst find_area.simps) auto
qed

definition fits :: "u32 \<Rightarrow> u32 \<Rightarrow> hnode \<Rightarrow> bool" where
  "fits order r n \<longleftrightarrow> order \<le> of_nat (hn_order n) \<and> (\<exists>x\<in>set (hn_free n). r \<le> snd x)"

lemma find_node_none:
  "nodes m p ns \<Longrightarrow> \<forall>n\<in>set ns. \<not> fits order r n \<Longrightarrow> find_node m order r p = Some (0, 0, 0)"
proof (induction ns arbitrary: p)
  case Nil
  then show ?case by (subst find_node.simps) simp
next
  case (Cons n ns)
  have p: "p = hn_addr n" "p \<noteq> 0" "node_rep m n" "nodes m (ld32 m (p + 12)) ns" using Cons.prems by auto
  have ih: "find_node m order r (ld32 m (p + 12)) = Some (0, 0, 0)" using Cons.IH [OF p(4)] Cons.prems(2) by simp
  show ?case
  proof (cases "order \<le> of_nat (hn_order n)")
    case True
    then have "\<forall>x\<in>set (hn_free n). snd x < r" using Cons.prems(2) by (auto simp: fits_def not_le)
    then obtain l where "find_area m r (ld32 m (p + 4)) 0 = Some (0, l)"
      using find_area_none p(1,3) by (force simp: node_rep_def)
    then show ?thesis using True p(1-3) ih by (subst find_node.simps) (simp add: node_rep_def)
  next
    case False
    then show ?thesis using p(1-3) ih by (subst find_node.simps) (simp add: node_rep_def)
  qed
qed

lemma find_node_hit:
  assumes "nodes m p (as @ n # bs)" "\<forall>k\<in>set as. \<not> fits order r k" "order \<le> of_nat (hn_order n)"
    "hn_free n = pre @ x # post" "\<forall>y\<in>set pre. snd y < r" "r \<le> snd x"
  shows "find_node m order r p = Some (hn_addr n, fst x, if pre = [] then 0 else fst (last pre))"
  using assms(1,2)
proof (induction as arbitrary: p)
  case Nil
  then have p: "p = hn_addr n" "p \<noteq> 0" "node_rep m n" by auto
  have s: "aseg m (ld32 m (p + 4)) (pre @ x # post) 0" using p(1,3) assms(4) by (simp add: node_rep_def)
  note find_area_hit [OF s assms(5,6), of 0]
  moreover have "fst x \<noteq> 0" using s by (auto simp: aseg_append)
  ultimately show ?case using p assms(3) by (subst find_node.simps) (simp add: node_rep_def)
next
  case (Cons k as)
  then have p: "p = hn_addr k" "p \<noteq> 0" "node_rep m k" "nodes m (ld32 m (p + 12)) (as @ n # bs)" by auto
  have ih: "find_node m order r (ld32 m (p + 12)) = Some (hn_addr n, fst x, if pre = [] then 0 else fst (last pre))"
    using Cons.IH [OF p(4)] Cons.prems(2) by simp
  show ?case
  proof (cases "order \<le> of_nat (hn_order k)")
    case True
    then have "\<forall>x\<in>set (hn_free k). snd x < r" using Cons.prems(2) by (auto simp: fits_def not_le)
    then obtain l where "find_area m r (ld32 m (p + 4)) 0 = Some (0, l)"
      using find_area_none p(1,3) by (force simp: node_rep_def)
    then show ?thesis using True p(1-3) ih by (subst find_node.simps) (simp add: node_rep_def)
  next
    case False
    then show ?thesis using p(1-3) ih by (subst find_node.simps) (simp add: node_rep_def)
  qed
qed

text \<open>The first node and area that fit.\<close>

lemma first_fit:
  assumes "\<exists>n\<in>set ns. fits order r n"
  obtains as n bs pre x post where "ns = as @ n # bs" "\<forall>k\<in>set as. \<not> fits order r k" "order \<le> of_nat (hn_order n)"
    "hn_free n = pre @ x # post" "\<forall>y\<in>set pre. snd y < r" "r \<le> snd x"
proof -
  obtain as n bs where ns: "ns = as @ n # bs" "fits order r n" "\<forall>k\<in>set as. \<not> fits order r k"
    using split_list_first_prop [OF assms] by blast
  then have "\<exists>x\<in>set (hn_free n). r \<le> snd x" by (simp add: fits_def)
  then obtain pre x post where x: "hn_free n = pre @ x # post" "r \<le> snd x" "\<forall>y\<in>set pre. \<not> r \<le> snd y"
    using split_list_first_prop [of "hn_free n" "\<lambda>x. r \<le> snd x"] by blast
  have o: "order \<le> of_nat (hn_order n)" using ns(2) by (simp add: fits_def)
  have "\<forall>y\<in>set pre. snd y < r" using x(3) by (simp add: not_le)
  then show ?thesis by (rule that [OF ns(1,3) o x(1) _ x(2)])
qed


section \<open>Taking an area\<close>

text \<open>The node after the area \<open>x\<close> between \<open>pre\<close> and \<open>post\<close> is used for \<open>r\<close> bytes.\<close>

definition rest_areas :: "area \<Rightarrow> u32 \<Rightarrow> area list \<Rightarrow> area list" where
  "rest_areas x r post = (if snd x - r > 8 then (fst x + r, snd x - r) # post else [])"

definition take_node :: "area list \<Rightarrow> area \<Rightarrow> area list \<Rightarrow> u32 \<Rightarrow> hnode \<Rightarrow> hnode" where
  "take_node pre x post r n = n\<lparr>hn_free := pre @ rest_areas x r post, hn_used := (fst x, r) # hn_used n\<rparr>"

text \<open>The positions of the words of a node, for an area \<open>x\<close> of its.\<close>

lemma node_positions:
  assumes "node_wf n" "x \<in> set (hn_free n) \<union> set (hn_used n)"
  shows "unat (hn_addr n + 4) = unat (hn_addr n) + 4" "unat (hn_addr n + 8) = unat (hn_addr n) + 8"
    "unat (hn_addr n + 12) = unat (hn_addr n) + 12" "unat (fst x + 4) = astart x + 4"
    "unat (hn_addr n) + 16 \<le> astart x" "astart x + asize x \<le> 2 ^ 32" "8 \<le> asize x"
    "astart x + asize x \<le> unat (hn_addr n) + 4096 * 2 ^ hn_order n" "4 dvd astart x" "4 dvd asize x"
proof -
  note W = node_wfD(3) [OF assms(1)] node_wfD(4) [OF assms, unfolded area_in_def]
  then show p: "unat (hn_addr n) + 16 \<le> astart x" "astart x + asize x \<le> 2 ^ 32" "8 \<le> asize x"
    "astart x + asize x \<le> unat (hn_addr n) + 4096 * 2 ^ hn_order n" "4 dvd astart x" "4 dvd asize x" by linarith+
  have "unat (hn_addr n + of_nat 4) = unat (hn_addr n) + 4" "unat (hn_addr n + of_nat 8) = unat (hn_addr n) + 8"
    "unat (hn_addr n + of_nat 12) = unat (hn_addr n) + 12" "unat (fst x + of_nat 4) = astart x + 4"
    using p by (intro unat_add_32; linarith)+
  then show "unat (hn_addr n + 4) = unat (hn_addr n) + 4" "unat (hn_addr n + 8) = unat (hn_addr n) + 8"
    "unat (hn_addr n + 12) = unat (hn_addr n) + 12" "unat (fst x + 4) = astart x + 4" by simp_all
qed

lemma rest_positions:
  assumes "node_wf n" "x \<in> set (hn_free n)" "r \<le> snd x" "snd x - r > 8"
  shows "unat (fst x + r) = astart x + unat r" "unat (fst x + r + 4) = astart x + unat r + 4"
    "unat (snd x - r) = asize x - unat r" "astart x + unat r + 8 < astart x + asize x"
proof -
  note P = node_positions [OF assms(1) UnI1 [OF assms(2)]]
  have r: "unat r \<le> asize x" using assms(3) by (simp add: word_le_nat_alt)
  then show s: "unat (snd x - r) = asize x - unat r" using assms(3) by (simp add: unat_sub)
  then have g: "8 < asize x - unat r" using assms(4) by (simp add: word_less_nat_alt)
  then show "astart x + unat r + 8 < astart x + asize x" by linarith
  then have b: "astart x + unat r + 4 < 2 ^ 32" using P(6) by linarith
  have "unat (fst x + of_nat (unat r)) = astart x + unat r" by (rule unat_add_32) (use b in linarith)
  then show u: "unat (fst x + r) = astart x + unat r" by simp
  have "unat (fst x + r + of_nat 4) = unat (fst x + r) + 4" by (rule unat_add_32) (use u b in linarith)
  then show "unat (fst x + r + 4) = astart x + unat r + 4" using u by simp
qed

text \<open>An area that is not \<open>x\<close> is away from every word of \<open>x\<close> and of the node header.\<close>

lemma node_far:
  assumes "node_wf n" "hn_free n = pre @ x # post" "y \<in> set (pre @ post @ hn_used n)"
  shows "far x y" "astart x \<le> a \<Longrightarrow> a + 4 \<le> astart x + asize x \<Longrightarrow> a + 4 \<le> astart y \<or> astart y + 8 \<le> a"
    "a + 4 \<le> unat (hn_addr n) + 16 \<Longrightarrow> a + 4 \<le> astart y \<or> astart y + 8 \<le> a" "astart y + 8 \<le> 2 ^ 32"
proof -
  have "sorted_wrt far (pre @ x # post @ hn_used n)" using node_wfD(5) [OF assms(1)] assms(2) by simp
  then have "far x y \<or> far y x" using assms(3) unfolding sorted_wrt_append sorted_wrt.simps set_append Un_iff by auto
  then show f: "far x y" using far_sym [of x y] by blast
  have "y \<in> set (hn_free n) \<union> set (hn_used n)" using assms(2,3) by auto
  note Y = node_positions [OF assms(1) this]
  show "astart y + 8 \<le> 2 ^ 32" using Y by linarith
  show "a + 4 \<le> astart y \<or> astart y + 8 \<le> a" if "astart x \<le> a" "a + 4 \<le> astart x + asize x"
    using f that Y unfolding far_def by linarith
  show "a + 4 \<le> astart y \<or> astart y + 8 \<le> a" if "a + 4 \<le> unat (hn_addr n) + 16"
    using that Y by linarith
qed

text \<open>A store to the header of the node or into the area that is taken leaves the other areas alone.\<close>

definition take_place :: "hnode \<Rightarrow> area \<Rightarrow> addr \<Rightarrow> bool" where
  "take_place n x b \<longleftrightarrow> unat (hn_addr n) \<le> unat b \<and> unat b + 4 \<le> unat (hn_addr n) + 12 \<or> astart x \<le> unat b \<and> unat b + 4 \<le> astart x + asize x"

lemma aseg_take:
  assumes W: "node_wf n" and f: "hn_free n = pre @ x # post" and b: "take_place n x b"
    and ys: "set ys \<subseteq> set (pre @ post @ hn_used n)"
  shows "aseg (st32 m b v) p ys q \<longleftrightarrow> aseg m p ys q"
proof (rule aseg_st32)
  have "x \<in> set (hn_free n) \<union> set (hn_used n)" using f by simp
  note P = node_positions [OF W this]
  show "unat b + 4 \<le> 2 ^ 32" using b P unfolding take_place_def by linarith
  show "\<forall>y\<in>set ys. (unat b + 4 \<le> astart y \<or> astart y + 8 \<le> unat b) \<and> astart y + 8 \<le> 2 ^ 32"
  proof
    fix y assume "y \<in> set ys"
    then have y: "y \<in> set (pre @ post @ hn_used n)" using ys by blast
    show "(unat b + 4 \<le> astart y \<or> astart y + 8 \<le> unat b) \<and> astart y + 8 \<le> 2 ^ 32"
      using b node_far(2,3) [OF W f y, of "unat b"] node_far(4) [OF W f y] trans_le_add1 [of "unat b + 4" "unat (hn_addr n) + 12" 4]
      unfolding take_place_def by auto
  qed
qed

text \<open>The memory after the area is resized and moved to the used ones.\<close>

definition move_used :: "addr \<Rightarrow> addr \<Rightarrow> u32 \<Rightarrow> memory \<Rightarrow> memory" where
  "move_used mnp ma r m = st32 (st32 (st32 m ma r) (ma + 4) (ld32 (st32 m ma r) (mnp + 8))) (mnp + 8) ma"

lemma take_places:
  assumes "node_wf n" "hn_free n = pre @ x # post"
  shows "take_place n x (hn_addr n)" "take_place n x (hn_addr n + 4)" "take_place n x (hn_addr n + 8)"
    "take_place n x (fst x)" "take_place n x (fst x + 4)"
proof -
  have "x \<in> set (hn_free n) \<union> set (hn_used n)" using assms(2) by simp
  note P = node_positions [OF assms(1) this]
  show "take_place n x (hn_addr n)" "take_place n x (hn_addr n + 4)" "take_place n x (hn_addr n + 8)"
    "take_place n x (fst x)" "take_place n x (fst x + 4)"
    unfolding take_place_def using P by linarith+
qed

text \<open>The loads of the words of the node and of \<open>x\<close> see through stores to the other ones.\<close>

lemma node_words:
  assumes "node_wf n" "hn_free n = pre @ x # post"
  shows "ld32 (st32 m (fst x) v) (hn_addr n) = ld32 m (hn_addr n)" "ld32 (st32 m (fst x + 4) v) (hn_addr n) = ld32 m (hn_addr n)"
    "ld32 (st32 m (fst x) v) (hn_addr n + 4) = ld32 m (hn_addr n + 4)"
    "ld32 (st32 m (fst x + 4) v) (hn_addr n + 4) = ld32 m (hn_addr n + 4)"
    "ld32 (st32 m (fst x) v) (hn_addr n + 8) = ld32 m (hn_addr n + 8)"
    "ld32 (st32 m (fst x + 4) v) (hn_addr n + 8) = ld32 m (hn_addr n + 8)"
    "ld32 (st32 m (fst x + 4) v) (fst x) = ld32 m (fst x)" "ld32 (st32 m (fst x) v) (fst x + 4) = ld32 m (fst x + 4)"
    "ld32 (st32 m (hn_addr n + 8) v) (fst x) = ld32 m (fst x)" "ld32 (st32 m (hn_addr n + 8) v) (fst x + 4) = ld32 m (fst x + 4)"
    "ld32 (st32 m (hn_addr n + 8) v) (hn_addr n) = ld32 m (hn_addr n)"
    "ld32 (st32 m (hn_addr n + 8) v) (hn_addr n + 4) = ld32 m (hn_addr n + 4)"
    "ld32 (st32 m (hn_addr n + 4) v) (hn_addr n) = ld32 m (hn_addr n)"
    "ld32 (st32 m (hn_addr n + 4) v) (hn_addr n + 8) = ld32 m (hn_addr n + 8)"
proof -
  have "x \<in> set (hn_free n) \<union> set (hn_used n)" using assms(2) by simp
  note P = node_positions [OF assms(1) this]
  have ld: "ld32 (st32 m b v) a = ld32 m a" if "unat a + 4 \<le> unat b \<or> unat b + 4 \<le> unat a"
    "unat a + 4 \<le> 2 ^ 32" "unat b + 4 \<le> 2 ^ 32" for a b
    using that by (rule ld32_st32_far)
  show "ld32 (st32 m (fst x) v) (hn_addr n) = ld32 m (hn_addr n)" "ld32 (st32 m (fst x + 4) v) (hn_addr n) = ld32 m (hn_addr n)"
    "ld32 (st32 m (fst x) v) (hn_addr n + 4) = ld32 m (hn_addr n + 4)"
    "ld32 (st32 m (fst x + 4) v) (hn_addr n + 4) = ld32 m (hn_addr n + 4)"
    "ld32 (st32 m (fst x) v) (hn_addr n + 8) = ld32 m (hn_addr n + 8)"
    "ld32 (st32 m (fst x + 4) v) (hn_addr n + 8) = ld32 m (hn_addr n + 8)"
    "ld32 (st32 m (fst x + 4) v) (fst x) = ld32 m (fst x)" "ld32 (st32 m (fst x) v) (fst x + 4) = ld32 m (fst x + 4)"
    "ld32 (st32 m (hn_addr n + 8) v) (fst x) = ld32 m (fst x)" "ld32 (st32 m (hn_addr n + 8) v) (fst x + 4) = ld32 m (fst x + 4)"
    "ld32 (st32 m (hn_addr n + 8) v) (hn_addr n) = ld32 m (hn_addr n)"
    "ld32 (st32 m (hn_addr n + 8) v) (hn_addr n + 4) = ld32 m (hn_addr n + 4)"
    "ld32 (st32 m (hn_addr n + 4) v) (hn_addr n) = ld32 m (hn_addr n)"
    "ld32 (st32 m (hn_addr n + 4) v) (hn_addr n + 8) = ld32 m (hn_addr n + 8)"
    by (rule ld; (use P in linarith))+
qed

lemma move_used_loads:
  assumes W: "node_wf n" and f: "hn_free n = pre @ x # post" and rep: "node_rep m n"
  fixes r defines "m1 \<equiv> move_used (hn_addr n) (fst x) r m"
  shows "ld32 m1 (hn_addr n) = of_nat (hn_order n)" "ld32 m1 (hn_addr n + 4) = ld32 m (hn_addr n + 4)" "ld32 m1 (fst x) = r"
    "aseg m1 (ld32 m1 (hn_addr n + 8)) ((fst x, r) # hn_used n) 0"
    "aseg m1 (ld32 m1 (hn_addr n + 4)) pre (fst x)" "aseg m1 (ld32 m (fst x + 4)) post 0"
proof -
  let ?A = "hn_addr n" and ?X = "fst x"
  have fr: "aseg m (ld32 m (?A + 4)) pre ?X" "?X \<noteq> 0" "aseg m (ld32 m (?X + 4)) post 0"
    and us: "aseg m (ld32 m (?A + 8)) (hn_used n) 0" "ld32 m ?A = of_nat (hn_order n)"
    using rep f by (auto simp: node_rep_def aseg_append)
  note T = take_places [OF W f] and D = node_words [OF W f]
  have pres: "aseg m1 p ys q \<longleftrightarrow> aseg m p ys q" if "set ys \<subseteq> set (pre @ post @ hn_used n)" for p ys q
    unfolding m1_def move_used_def aseg_take [OF W f T(3) that] aseg_take [OF W f T(4) that] aseg_take [OF W f T(5) that] ..
  show "ld32 m1 ?A = of_nat (hn_order n)" and e: "ld32 m1 (?A + 4) = ld32 m (?A + 4)" and x: "ld32 m1 ?X = r"
    unfolding m1_def move_used_def by (simp_all only: D ld32_st32_same us)
  have "ld32 m1 (?A + 8) = ?X" "ld32 m1 (?X + 4) = ld32 m (?A + 8)"
    unfolding m1_def move_used_def by (simp_all only: D ld32_st32_same)
  moreover have "aseg m1 p (hn_used n) q \<longleftrightarrow> aseg m p (hn_used n) q" for p q by (rule pres) auto
  ultimately show "aseg m1 (ld32 m1 (?A + 8)) ((?X, r) # hn_used n) 0" using us(1) fr(2) x by simp
  show "aseg m1 (ld32 m1 (?A + 4)) pre ?X" "aseg m1 (ld32 m (?X + 4)) post 0"
    unfolding e using fr by (subst pres; auto)+
qed

text \<open>The node after the rest of the area is linked behind \<open>pre\<close>, from the node itself when \<open>pre\<close> is empty.\<close>

lemma link_rep:
  assumes W: "node_wf n" and f: "hn_free n = pre @ rs" and o: "ld32 m (hn_addr n) = of_nat (hn_order n)"
    and a: "aseg m (ld32 m (hn_addr n + 4)) pre l" "aseg m q rs 0" "aseg m (ld32 m (hn_addr n + 8)) (hn_used n) 0"
  shows "node_rep (if pre = [] then st32 m (hn_addr n + 4) q else st32 m (fst (List.last pre) + 4) q) n"
proof -
  let ?A = "hn_addr n"
  have b: "unat ?A + 16 \<le> astart y" "astart y + 8 \<le> 2 ^ 32" "unat (fst y + 4) = astart y + 4"
    if "y \<in> set (hn_free n) \<union> set (hn_used n)" for y
    using node_positions [OF W that] by linarith+
  have le: "unat ?A + 16 \<le> 2 ^ 32"
  proof -
    have "(1::nat) \<le> 2 ^ hn_order n" by simp
    then show ?thesis using node_wfD(3) [OF W] by linarith
  qed
  have "unat (?A + of_nat 4) = unat ?A + 4" "unat (?A + of_nat 8) = unat ?A + 8"
    using le by (intro unat_add_32; linarith)+
  then have u: "unat (?A + 4) = unat ?A + 4" "unat (?A + 8) = unat ?A + 8" by simp_all
  show ?thesis
  proof (cases "pre = []")
    case True
    have pres: "aseg (st32 m (?A + 4) q) p ys z \<longleftrightarrow> aseg m p ys z" if "set ys \<subseteq> set (hn_free n) \<union> set (hn_used n)" for p ys z
    proof (rule aseg_st32)
      show "unat (?A + 4) + 4 \<le> 2 ^ 32" using u le by linarith
      show "\<forall>y\<in>set ys. (unat (?A + 4) + 4 \<le> astart y \<or> astart y + 8 \<le> unat (?A + 4)) \<and> astart y + 8 \<le> 2 ^ 32"
      proof
        fix y assume "y \<in> set ys"
        then have "y \<in> set (hn_free n) \<union> set (hn_used n)" using that by blast
        from b [OF this] show "(unat (?A + 4) + 4 \<le> astart y \<or> astart y + 8 \<le> unat (?A + 4)) \<and> astart y + 8 \<le> 2 ^ 32"
          using u by linarith
      qed
    qed
    have "ld32 (st32 m (?A + 4) q) ?A = ld32 m ?A" "ld32 (st32 m (?A + 4) q) (?A + 8) = ld32 m (?A + 8)"
      using u le by (intro ld32_st32_far; linarith)+
    then show ?thesis using True f o a by (simp add: node_rep_def pres)
  next
    case False
    then obtain xs l where pre: "pre = xs @ [l]" by (metis append_butlast_last_id)
    have l: "l \<in> set (hn_free n) \<union> set (hn_used n)" using pre f by simp
    have S: "sorted_wrt far (xs @ l # rs @ hn_used n)" using node_wfD(5) [OF W] f pre by simp
    have fl: "astart l + 8 \<le> astart y \<or> astart y + 8 \<le> astart l" "astart y + 8 \<le> 2 ^ 32"
      if "y \<in> set (xs @ rs @ hn_used n)" for y
    proof -
      have y: "y \<in> set (hn_free n) \<union> set (hn_used n)" using that f pre by auto
      have "far l y \<or> far y l" using S that by (auto simp: sorted_wrt_append)
      then show "astart l + 8 \<le> astart y \<or> astart y + 8 \<le> astart l"
        unfolding far_def using node_positions [OF W y] node_positions [OF W l] by linarith
      show "astart y + 8 \<le> 2 ^ 32" using b(2) [OF y] .
    qed
    have "aseg (st32 m (fst l + 4) q) (ld32 m (?A + 4)) (xs @ [l]) q"
      using a(1) fl b(2) [OF l] unfolding pre by (intro aseg_last) auto
    moreover have "aseg (st32 m (fst l + 4) q) p ys z \<longleftrightarrow> aseg m p ys z" if "set ys \<subseteq> set (rs @ hn_used n)" for p ys z
    proof (rule aseg_st32)
      show "unat (fst l + 4) + 4 \<le> 2 ^ 32" using b(2,3) [OF l] by linarith
      show "\<forall>x\<in>set ys. (unat (fst l + 4) + 4 \<le> astart x \<or> astart x + 8 \<le> unat (fst l + 4)) \<and> astart x + 8 \<le> 2 ^ 32"
      proof
        fix y assume "y \<in> set ys"
        then have "y \<in> set (xs @ rs @ hn_used n)" using that by auto
        from fl [OF this] show "(unat (fst l + 4) + 4 \<le> astart y \<or> astart y + 8 \<le> unat (fst l + 4)) \<and> astart y + 8 \<le> 2 ^ 32"
          unfolding b(3) [OF l] by linarith
      qed
    qed
    moreover have "ld32 (st32 m (fst l + 4) q) ?A = ld32 m ?A" "ld32 (st32 m (fst l + 4) q) (?A + 4) = ld32 m (?A + 4)"
      "ld32 (st32 m (fst l + 4) q) (?A + 8) = ld32 m (?A + 8)"
      using u le b [OF l] by (intro ld32_st32_far; linarith)+
    ultimately show ?thesis using f o a(2,3) pre by (auto simp: node_rep_def aseg_append)
  qed
qed

lemma far_part:
  assumes "far x y" "astart x \<le> astart z" "astart z + asize z \<le> astart x + asize x"
  shows "far z y" "far y z"
  using assms unfolding far_def by linarith+

lemma take_node_wf:
  assumes W: "node_wf n" and f: "hn_free n = pre @ x # post" and r: "8 \<le> unat r" "r \<le> snd x" "4 dvd unat r"
  shows "node_wf (take_node pre x post r n)"
proof -
  have xin: "x \<in> set (hn_free n) \<union> set (hn_used n)" and xf: "x \<in> set (hn_free n)" using f by simp_all
  note P = node_positions [OF W xin]
  have le: "unat r \<le> asize x" using r(2) by (simp add: word_le_nat_alt)
  have S: "sorted_wrt far (pre @ x # post @ hn_used n)" using node_wfD(5) [OF W] f by simp
  have sub: "far z y" "far y z" if "y \<in> set (pre @ post @ hn_used n)" "astart x \<le> astart z"
    "astart z + asize z \<le> astart x + asize x" for y z
    using far_part [OF node_far(1) [OF W f that(1)] that(2,3)] .
  have old: "area_in n y" if "y \<in> set (hn_free n) \<union> set (hn_used n)" for y by (rule node_wfD(4) [OF W that])
  let ?u = "(fst x, r)" and ?f = "(fst x + r, snd x - r)"
  have u: "area_in n ?u" using P r le by (simp add: area_in_def)
  have fu: "far y ?u" "far ?u y" if "y \<in> set (pre @ post @ hn_used n)" for y
    using sub [OF that, of ?u] le by simp_all
  show ?thesis
  proof (cases "snd x - r > 8")
    case True
    note R = rest_positions [OF W xf r(2) True]
    have "4 dvd asize x - unat r" using P(10) r(3) by (rule dvd_diff_nat)
    then have "area_in n ?f" unfolding area_in_def fst_conv snd_conv R(1,3)
      using R(4) P r(3) by (intro conjI dvd_add) linarith+
    moreover have "far y ?f" "far ?f y" if "y \<in> set (pre @ post @ hn_used n)" for y
      using sub [OF that, of ?f] R by simp_all
    moreover have "far ?f ?u" using R by (simp add: far_def)
    ultimately show ?thesis using W S True f u old fu
      by (auto simp: node_wf_def take_node_def rest_areas_def sorted_wrt_append area_in_def)
  next
    case False
    then show ?thesis using W S f u old fu
      by (auto simp: node_wf_def take_node_def rest_areas_def sorted_wrt_append area_in_def)
  qed
qed

lemma take_area_alt:
  assumes W: "node_wf n" and f: "hn_free n = pre @ x # post" and rep: "node_rep m n"
  defines "lst \<equiv> (if pre = [] then 0 else fst (List.last pre))"
  fixes r defines "m1 \<equiv> move_used (hn_addr n) (fst x) r m"
  defines "m2 \<equiv> (if snd x - r > 8 then st32 (st32 m1 (fst x + r) (snd x - r)) (fst x + r + 4) (ld32 m (fst x + 4)) else m1)"
  defines "q \<equiv> (if snd x - r > 8 then fst x + r else 0)"
  shows "take_area (hn_addr n) (fst x) lst r m =
    (if pre = [] then st32 m2 (hn_addr n + 4) q else st32 m2 (fst (List.last pre) + 4) q)"
proof -
  have s: "aseg m (ld32 m (hn_addr n + 4)) (pre @ x # post) 0" using rep f by (simp add: node_rep_def)
  have x: "ld32 m (fst x) = snd x" using s by (auto simp: aseg_append)
  have l: "lst = 0 \<longleftrightarrow> pre = []"
  proof (cases "pre = []")
    case False
    then obtain xs z where "pre = xs @ [z]" by (metis append_butlast_last_id)
    then show ?thesis using s by (auto simp: lst_def aseg_append)
  qed (simp add: lst_def)
  have m1: "st32 (st32 (st32 m (fst x) r) (fst x + 4) (ld32 (st32 m (fst x) r) (hn_addr n + 8))) (hn_addr n + 8) (fst x) = m1"
    by (simp add: m1_def move_used_def)
  have r1: "ld32 m1 (fst x) = r" unfolding m1_def by (rule move_used_loads(3) [OF W f rep])
  show ?thesis
    unfolding take_area_def Let_def m1 x r1 l m2_def q_def by (cases "pre = []"; cases "snd x - r > 8") (simp_all add: lst_def)
qed

lemma take_area_rep:
  assumes W: "node_wf n" and f: "hn_free n = pre @ x # post" and rep: "node_rep m n"
    and r: "8 \<le> unat r" "r \<le> snd x" "4 dvd unat r"
  shows "node_rep (take_area (hn_addr n) (fst x) (if pre = [] then 0 else fst (List.last pre)) r m) (take_node pre x post r n)"
proof -
  note W' = take_node_wf [OF W f r]
  note M = move_used_loads [OF W f rep, of r]
  have f': "hn_free (take_node pre x post r n) = pre @ rest_areas x r post"
    and ot: "hn_used (take_node pre x post r n) = (fst x, r) # hn_used n"
      "hn_addr (take_node pre x post r n) = hn_addr n" "hn_order (take_node pre x post r n) = hn_order n"
    by (simp_all add: take_node_def)
  have xf: "x \<in> set (hn_free n)" and xin: "x \<in> set (hn_free n) \<union> set (hn_used n)" using f by simp_all
  let ?m1 = "move_used (hn_addr n) (fst x) r m"
  show ?thesis
  proof (cases "snd x - r > 8")
    case True
    note P = node_positions [OF W xin] and R = rest_positions [OF W xf r(2) True]
    let ?m2 = "st32 (st32 ?m1 (fst x + r) (snd x - r)) (fst x + r + 4) (ld32 m (fst x + 4))"
    have T: "take_place n x (fst x + r)" "take_place n x (fst x + r + 4)"
      unfolding take_place_def R(1,2) using R(4) by linarith+
    note A = aseg_take [OF W f T(1)] aseg_take [OF W f T(2)]
    have A': "aseg ?m2 p ys z \<longleftrightarrow> aseg ?m1 p ys z" if "set ys \<subseteq> set (pre @ post @ hn_used n)" for p ys z
      unfolding A(2) [OF that] A(1) [OF that] ..
    have D: "ld32 ?m2 a = ld32 ?m1 a" if "unat a + 4 \<le> astart x + unat r" for a
    proof -
      have "ld32 ?m2 a = ld32 (st32 ?m1 (fst x + r) (snd x - r)) a"
        by (rule ld32_st32_far) (use R P that in linarith)+
      also have "\<dots> = ld32 ?m1 a" by (rule ld32_st32_far) (use R P that in linarith)+
      finally show ?thesis .
    qed
    have hd: "ld32 ?m2 (hn_addr n) = ld32 ?m1 (hn_addr n)" "ld32 ?m2 (hn_addr n + 4) = ld32 ?m1 (hn_addr n + 4)"
      "ld32 ?m2 (hn_addr n + 8) = ld32 ?m1 (hn_addr n + 8)" "ld32 ?m2 (fst x) = ld32 ?m1 (fst x)"
      "ld32 ?m2 (fst x + 4) = ld32 ?m1 (fst x + 4)"
      by (rule D; (use P r(1) in linarith))+
    have n0: "ld32 ?m2 (fst x + r) = snd x - r"
      using ld32_st32_far [of "fst x + r" "fst x + r + 4" "st32 ?m1 (fst x + r) (snd x - r)" "ld32 m (fst x + 4)"] R P(6)
      by simp
    have nz: "fst x + r \<noteq> 0" using R(1) r(1) by auto
    have "aseg ?m2 (ld32 m (fst x + 4)) post 0" "aseg ?m2 (ld32 ?m1 (hn_addr n + 4)) pre (fst x)"
      using M(5,6) by (subst A'; auto)+
    moreover have "aseg ?m2 p (hn_used n) z \<longleftrightarrow> aseg ?m1 p (hn_used n) z" for p z by (rule A') auto
    then have "aseg ?m2 (ld32 ?m1 (hn_addr n + 8)) ((fst x, r) # hn_used n) 0"
      using M(4) hd(4,5) by auto
    ultimately show ?thesis
      unfolding take_area_alt [OF W f rep] if_P [OF True]
      by (intro link_rep [where l = "fst x", OF W' f', unfolded ot]) (simp_all only: hd M(1), auto simp: rest_areas_def True n0 nz)
  next
    case False
    show ?thesis
      unfolding take_area_alt [OF W f rep] if_not_P [OF False]
      by (rule link_rep [OF W' f', unfolded ot, OF M(1,5) _ M(4)]) (use False in \<open>simp add: rest_areas_def\<close>)
  qed
qed

text \<open>What taking an area may write to: the first three words of the node and its free areas.\<close>

definition node_room :: "hnode \<Rightarrow> addr set" where
  "node_room n = region (hn_addr n) 12 \<union> (\<Union>x\<in>set (hn_free n). region (fst x) (asize x))"

lemma st32_within:
  assumes "unat b \<le> unat a" "unat a + 4 \<le> unat b + k" "unat b + k \<le> 2 ^ 32" "y \<notin> region b k"
  shows "st32 m a v y = m y"
proof (rule st32_out)
  have "unat a + 4 \<le> 2 ^ 32" using assms by linarith
  then show "y \<notin> region a 4"
    using assms(1,2,4) region_linear [OF assms(3), of y] region_linear [of a 4 y] by linarith
qed

lemma take_place_frame:
  assumes W: "node_wf n" and x: "x \<in> set (hn_free n)" and b: "take_place n x b" and y: "y \<notin> node_room n"
  shows "st32 m b v y = m y"
proof -
  note P = node_positions [OF W UnI1 [OF x]]
  have "y \<notin> region (hn_addr n) 12" "y \<notin> region (fst x) (asize x)" using y x by (auto simp: node_room_def)
  moreover have "unat (hn_addr n) + 12 \<le> 2 ^ 32" using P by linarith
  ultimately show ?thesis
    using b P(6) st32_within [of "hn_addr n" b 12 y m v] st32_within [of "fst x" b "asize x" y m v]
    unfolding take_place_def by blast
qed

lemma take_area_frame:
  assumes W: "node_wf n" and f: "hn_free n = pre @ x # post" and rep: "node_rep m n" and r: "r \<le> snd x"
    and y: "y \<notin> node_room n"
  shows "take_area (hn_addr n) (fst x) (if pre = [] then 0 else fst (List.last pre)) r m y = m y"
proof -
  have xf: "x \<in> set (hn_free n)" using f by simp
  note P = node_positions [OF W UnI1 [OF xf]] and T = take_places [OF W f]
  note fr = take_place_frame [OF W xf _ y]
  have m1: "move_used (hn_addr n) (fst x) r m y = m y"
    unfolding move_used_def fr [OF T(3)] fr [OF T(5)] fr [OF T(4)] ..
  have rest: "take_place n x (fst x + r)" "take_place n x (fst x + r + 4)" if "snd x - r > 8"
    unfolding take_place_def rest_positions(1,2) [OF W xf r that] using rest_positions(4) [OF W xf r that] by linarith+
  have lst: "st32 k (fst (List.last pre) + 4) v y = k y" if "pre \<noteq> []" for k v
  proof -
    have l: "List.last pre \<in> set (hn_free n)" using f that by simp
    then have "y \<notin> region (fst (List.last pre)) (asize (List.last pre))" using y by (auto simp: node_room_def)
    then show ?thesis
      using node_positions [OF W UnI1 [OF l]] by (intro st32_within [of "fst (List.last pre)" _ "asize (List.last pre)"]) linarith+
  qed
  show ?thesis
    unfolding take_area_alt [OF W f rep]
    by (cases "pre = []"; cases "snd x - r > 8") (simp_all add: fr T lst rest m1)
qed

end
