(* ===== verification/PageFrame.thy ===== *)
theory PageFrame
  imports BuddyInit
begin

text \<open>
  What the clients of the page allocator need of it: its invariant depends only on its own tables, so a
  client may write to its pages; and the addresses of pages.
\<close>

section \<open>Writes outside the tables\<close>

text \<open>Two states with the same tables of the allocator.\<close>

definition mm_same :: "'a mm_state_scheme \<Rightarrow> 'b mm_state_scheme \<Rightarrow> bool" where
  "mm_same s s' \<longleftrightarrow> free_area s' = free_area s \<and> mem_map s' = mem_map s \<and> page_count s' = page_count s \<and>
     free_page_count s' = free_page_count s \<and> (\<forall>x\<in>mm_own s. mem s' x = mem s x)"

lemma crep_cong:
  assumes lay: "layout fa mm n bm" and wf: "wf_free n R" and rep: "crep fa mm n bm m R B"
    and e: "\<forall>x\<in>meta fa mm n bm. m' x = m x"
  shows "crep fa mm n bm m' R B"
proof -
  have own: "m' x = m x" if "x \<in> region l 12" "l \<in> links fa mm n" for x l
    using e link_bytes(1) [OF that(2) lay] that(1) by blast
  have "dll m' (ring_at fa k) (map (pg mm) (R k))" if k: "k < 11" for k
  proof (rule dll_byte_cong [OF crepD(1) [OF rep k]])
    fix a x assume "a \<in> set (ring_at fa k # map (pg mm) (R k))" "x \<in> region a 8"
    then show "m' x = m x" using own ring_subset [OF wf k, of fa mm] region_8_12 [of a] by blast
  qed
  moreover have "area_map m' (ring_at fa k) = bm k" if k: "k < 11" for k
  proof -
    have "ld32 m' (ring_at fa k + 8) = ld32 m (ring_at fa k + 8)"
      using own [OF _ ring_link [OF k]] region_map_field(1) by (intro ld32_cong) blast
    then show ?thesis using crepD(2) [OF rep k] by (simp add: area_map_def)
  qed
  moreover have "bitv m' (bm k) i = B k i" if "k < 10" "i \<le> (n - 1) div 2 ^ Suc k" for k i
  proof -
    have "bm k + of_nat (i div 8) \<in> region (bm k) (bsz n k)" by (rule pair_byte(1) [OF that(2) layoutD(2) [OF lay]])
    then have "bm k + of_nat (i div 8) \<in> meta fa mm n bm" using that(1) by (auto simp: meta_def)
    then show ?thesis using e crepD(3) [OF rep that] by (simp add: bitv_def)
  qed
  ultimately show ?thesis by (simp add: crep_def rings_def maps_def bits_rep_def)
qed

lemma mm_same_ok:
  fixes s s' :: "'a mm_state_scheme"
  assumes ok: "mm_ok s" and e: "mm_same s s'"
  shows "mm_ok s'" "frees s' = frees s" "mm_own s' = mm_own s" "avail_pages s' = avail_pages s" "total_pages s' = total_pages s"
proof -
  note E = e [unfolded mm_same_def] and I = buddy_invD [OF mm_ok_inv [OF ok]]
  let ?n = "unat (page_count s)"
  have c: "crep (free_area s) (mem_map s) ?n (bmaps s) (mem s') (frees s) (par (frees s))"
    using E by (intro crep_cong [OF I(1,3,2)]) (simp add: mm_own_def own_def)
  have bm: "bmaps s' k = bmaps s k" if "k < 11" for k
    using crepD(2) [OF c that] E by (simp add: bmaps_def)
  have "buddy_inv s' ?n (bmaps s) (frees s)"
    using I(1,3-5) c E by (simp add: buddy_inv_def)
  then have "mm_rep s' (frees s)"
    unfolding mm_rep_def using E bm by (simp add: buddy_inv_cong [of "bmaps s"])
  then show "mm_ok s'" and f: "frees s' = frees s" by (rule mm_okI, rule mm_rep_frees)
  show "mm_own s' = mm_own s"
    unfolding mm_own_def own_def meta_def using E bm by simp
  show "avail_pages s' = avail_pages s" "total_pages s' = total_pages s"
    using f E by (simp_all add: avail_pages_def total_pages_def)
qed

section \<open>Pages and their addresses\<close>

definition vpage :: "nat \<Rightarrow> addr" where
  "vpage j = KVM_BASE + of_nat (4096 * j)"

definition block_bytes :: "nat \<Rightarrow> nat \<Rightarrow> addr set" where
  "block_bytes j k = region (vpage j) (4096 * 2 ^ k)"

lemma unat_vpage:
  assumes "j < 2 ^ 18"
  shows "unat (vpage j) = 0xC0000000 + 4096 * j"
  using assms unat_add_32 [of KVM_BASE "4096 * j"] unfolding vpage_def by simp

lemma block_bytes_iff:
  assumes "j + 2 ^ k \<le> 2 ^ 18"
  shows "x \<in> block_bytes j k \<longleftrightarrow> 0xC0000000 + 4096 * j \<le> unat x \<and> unat x < 0xC0000000 + 4096 * (j + 2 ^ k)"
proof -
  have "(0::nat) < 2 ^ k" by simp
  then have "j < 2 ^ 18" using assms by linarith
  note u = unat_vpage [OF this]
  have "unat (vpage j) + 4096 * 2 ^ k \<le> 2 ^ 32" unfolding u using assms by simp
  from region_linear [OF this, of x] show ?thesis unfolding block_bytes_def u by (simp add: algebra_simps)
qed

lemma block_bytes_pages:
  assumes "j + 2 ^ k \<le> 2 ^ 18"
  shows "block_bytes j k = (\<Union>i\<in>blk j k. page_bytes i)"
proof (intro set_eqI iffI)
  fix x assume "x \<in> block_bytes j k"
  then have x: "0xC0000000 + 4096 * j \<le> unat x" "unat x < 0xC0000000 + 4096 * (j + 2 ^ k)"
    using block_bytes_iff [OF assms] by simp_all
  define i where "i = (unat x - 0xC0000000) div 4096"
  have i: "4096 * i \<le> unat x - 0xC0000000" "unat x - 0xC0000000 < 4096 * i + 4096"
    unfolding i_def by simp_all
  have "4096 * i < 4096 * (j + 2 ^ k)" using i(1) x by linarith
  then have "i < j + 2 ^ k" by (rule mult_less_cancel1 [THEN iffD1, THEN conjunct2])
  moreover have "j \<le> i" using i(2) x by linarith
  ultimately have ij: "j \<le> i" "i < j + 2 ^ k" by blast+
  then have "i < 2 ^ 18" using assms by linarith
  then have "x \<in> page_bytes i" using page_bytes_iff [of i x] i x by linarith
  moreover have "i \<in> blk j k" using ij by (simp add: blk_def)
  ultimately show "x \<in> (\<Union>i\<in>blk j k. page_bytes i)" by blast
next
  fix x assume "x \<in> (\<Union>i\<in>blk j k. page_bytes i)"
  then obtain i where i: "i \<in> blk j k" "x \<in> page_bytes i" by blast
  then have ij: "j \<le> i" "i < j + 2 ^ k" by (simp_all add: blk_def)
  then have "i < 2 ^ 18" using assms by linarith
  then show "x \<in> block_bytes j k" using i(2) ij page_bytes_iff [of i x] block_bytes_iff [OF assms, of x] by simp
qed

lemma page_bytes_disjoint:
  assumes "i < 2 ^ 18" "j < 2 ^ 18" "i \<noteq> j"
  shows "page_bytes i \<inter> page_bytes j = {}"
  using page_bytes_iff [OF assms(1)] page_bytes_iff [OF assms(2)] assms(3) by (auto simp: disjoint_iff)

lemma block_bytes_disjoint:
  assumes "j + 2 ^ k \<le> 2 ^ 18" "i + 2 ^ l \<le> 2 ^ 18" "blk j k \<inter> blk i l = {}"
  shows "block_bytes j k \<inter> block_bytes i l = {}"
proof -
  have "page_bytes a \<inter> page_bytes b = {}" if "a \<in> blk j k" "b \<in> blk i l" for a b
  proof -
    have "a < 2 ^ 18" "b < 2 ^ 18" using that assms(1,2) by (simp_all add: blk_def)
    then show ?thesis using that assms(3) by (intro page_bytes_disjoint) blast+
  qed
  then show ?thesis unfolding block_bytes_pages [OF assms(1)] block_bytes_pages [OF assms(2)] by blast
qed

lemma page_to_vir_pg:
  assumes "j < 2 ^ 20"
  shows "page_to_vir (pg (mem_map s) j) s = vpage j"
proof -
  have "push_bit 12 (of_nat j :: u32) = of_nat (4096 * j)"
    by (simp add: push_bit_eq_mult)
  then show ?thesis by (simp add: page_to_vir_def ptr_diff_pg [OF assms] vpage_def)
qed

lemma vir_to_page_vpage:
  assumes "j < 2 ^ 18"
  shows "vir_to_page (vpage j) s = pg (mem_map s) j"
proof -
  have "drop_bit 12 (of_nat (4096 * j) :: u32) = of_nat (4096 * j div 2 ^ 12)"
    using assms by (intro drop_bit_of_nat_32) simp
  then have "drop_bit 12 (of_nat (4096 * j) :: u32) = of_nat j" by simp
  then show ?thesis by (simp add: vir_to_page_def vpage_def pa_def pg_def)
qed

section \<open>The pages a kernel works with\<close>

text \<open>At most 1 GiB of pages, and the pages of \<open>U\<close> hold no byte of the tables.\<close>

definition usable :: "'a mm_state_scheme \<Rightarrow> nat set \<Rightarrow> bool" where
  "usable s U \<longleftrightarrow> total_pages s \<le> 2 ^ 18 \<and> (\<forall>i\<in>U. i < total_pages s \<and> page_bytes i \<inter> mm_own s = {})"

lemma usable_block:
  assumes "usable s U" "blk j k \<subseteq> U" "j + 2 ^ k \<le> total_pages s"
  shows "block_bytes j k \<inter> mm_own s = {}" "j + 2 ^ k \<le> 2 ^ 18"
proof -
  show b: "j + 2 ^ k \<le> 2 ^ 18" using assms(1,3) by (simp add: usable_def)
  show "block_bytes j k \<inter> mm_own s = {}"
    unfolding block_bytes_pages [OF b] using assms(1,2) by (force simp: usable_def)
qed

end
