(* ===== verification/KHeapOps.thy ===== *)
theory KHeapOps
  imports KHeap PageFrame "HOL-Library.Multiset"
begin

text \<open>
  \<open>kmalloc\<close> over the whole heap: the invariant that ties the nodes to the pages they are made of, the two
  ways a call goes (an area that fits, or a new node), termination, and what a client may rely on.
\<close>

section \<open>Nodes and memory outside of them\<close>

definition node_span :: "hnode \<Rightarrow> addr set" where
  "node_span n = region (hn_addr n) (4096 * 2 ^ hn_order n)"

definition area_data :: "area \<Rightarrow> addr set" where
  "area_data x = region (fst x + 8) (asize x - 8)"

lemma node_span_linear:
  "node_wf n \<Longrightarrow> y \<in> node_span n \<longleftrightarrow> unat (hn_addr n) \<le> unat y \<and> unat y < unat (hn_addr n) + 4096 * 2 ^ hn_order n"
  unfolding node_span_def by (rule region_linear) (rule node_wfD(3))

lemma area_span:
  assumes "node_wf n" "x \<in> set (hn_free n) \<union> set (hn_used n)"
  shows "region (fst x) (asize x) \<subseteq> node_span n"
proof
  fix y
  note P = node_positions [OF assms]
  assume "y \<in> region (fst x) (asize x)"
  then have "astart x \<le> unat y" "unat y < astart x + asize x" using region_linear [OF P(6), of y] by simp_all
  then show "y \<in> node_span n" unfolding node_span_linear [OF assms(1)] using P(5,8) by linarith
qed

lemma head_span:
  assumes "node_wf n" "k \<le> 16"
  shows "region (hn_addr n) k \<subseteq> node_span n"
proof -
  have "(1::nat) \<le> 2 ^ hn_order n" by simp
  then have "k \<le> 4096 * 2 ^ hn_order n" using assms(2) by linarith
  then show ?thesis unfolding node_span_def by (rule region_mono)
qed

lemma node_room_span:
  assumes "node_wf n"
  shows "node_room n \<subseteq> node_span n"
  unfolding node_room_def using head_span [OF assms, of 12] area_span [OF assms] by auto

lemma aseg_cong:
  assumes "\<forall>x\<in>set xs. \<forall>y\<in>region (fst x) 8. m y = m' y"
  shows "aseg m p xs q \<longleftrightarrow> aseg m' p xs q"
  using assms
proof (induction xs arbitrary: p)
  case (Cons x xs)
  have s: "region (fst x) 4 \<subseteq> region (fst x) 8" by (rule region_mono) simp
  have t: "region (fst x + 4) 4 \<subseteq> region (fst x) 8" by (rule region_offset_subset) simp
  have "ld32 m (fst x) = ld32 m' (fst x)" "ld32 m (fst x + 4) = ld32 m' (fst x + 4)"
    using Cons.prems s t by (intro ld32_cong; auto)+
  then show ?case using Cons by simp
qed simp

text \<open>The bytes that hold the lists of a node: its header and those of its areas.\<close>

definition node_meta :: "hnode \<Rightarrow> addr set" where
  "node_meta n = region (hn_addr n) 16 \<union> (\<Union>x\<in>set (hn_free n) \<union> set (hn_used n). region (fst x) 8)"

lemma node_meta_span:
  assumes "node_wf n"
  shows "node_meta n \<subseteq> node_span n"
proof -
  have "region (fst x) 8 \<subseteq> node_span n" if "x \<in> set (hn_free n) \<union> set (hn_used n)" for x
    using region_mono [OF node_positions(7) [OF assms that], of "fst x"] area_span [OF assms that] by blast
  then show ?thesis unfolding node_meta_def using head_span [OF assms, of 16] by blast
qed

lemma node_rep_cong:
  assumes "\<forall>y\<in>node_meta n. m y = m' y"
  shows "node_rep m n \<longleftrightarrow> node_rep m' n" "ld32 m (hn_addr n + 12) = ld32 m' (hn_addr n + 12)"
proof -
  have l: "ld32 m (hn_addr n + d) = ld32 m' (hn_addr n + d)" if "unat d + 4 \<le> 16" for d
    using region_offset_subset [OF that, of "hn_addr n"] assms by (intro ld32_cong) (auto simp: node_meta_def)
  then show "ld32 m (hn_addr n + 12) = ld32 m' (hn_addr n + 12)" by simp
  have "aseg m p (hn_free n) q \<longleftrightarrow> aseg m' p (hn_free n) q" "aseg m p (hn_used n) q \<longleftrightarrow> aseg m' p (hn_used n) q" for p q
    using assms by (intro aseg_cong; auto simp: node_meta_def)+
  then show "node_rep m n \<longleftrightarrow> node_rep m' n" unfolding node_rep_def using l [of 0] l [of 4] l [of 8] by simp
qed

lemma next_span:
  assumes "node_wf n"
  shows "region (hn_addr n + 12) 4 \<subseteq> node_span n"
  using region_offset_subset [of 12 4 16 "hn_addr n"] head_span [OF assms, of 16] by auto

lemma nodes_cong:
  assumes "\<forall>n\<in>set ns. \<forall>y\<in>node_meta n. m y = m' y"
  shows "nodes m p ns \<longleftrightarrow> nodes m' p ns"
  using assms
proof (induction ns arbitrary: p)
  case (Cons n ns)
  then show ?case using node_rep_cong [of n m m'] by auto
qed simp

lemma nodes_rep: "nodes m p ns \<Longrightarrow> n \<in> set ns \<Longrightarrow> node_rep m n \<and> hn_addr n \<noteq> 0"
  by (induction ns arbitrary: p) auto

text \<open>A change inside the room of one node is a change of that node only.\<close>

lemma nodes_update:
  assumes ns: "nodes m p (as @ n # bs)" and W: "\<forall>k\<in>set (as @ n # bs). node_wf k"
    and d: "\<forall>k\<in>set (as @ bs). node_span k \<inter> node_span n = {}"
    and e: "\<forall>y. y \<notin> node_room n \<longrightarrow> m' y = m y"
    and n': "node_rep m' n'" "hn_addr n' = hn_addr n"
  shows "nodes m' p (as @ n' # bs)"
proof -
  have Wn: "node_wf n" using W by simp
  have o: "\<forall>y\<in>node_meta k. m y = m' y" if "k \<in> set (as @ bs)" for k
  proof -
    have "node_wf k" using W that by auto
    then have "node_meta k \<inter> node_room n = {}" using d node_room_span [OF Wn] node_meta_span that by blast
    then show ?thesis using e by (metis disjoint_iff)
  qed
  have nx: "ld32 m' (hn_addr n + 12) = ld32 m (hn_addr n + 12)"
  proof (rule ld32_cong)
    fix y assume y: "y \<in> region (hn_addr n + 12) 4"
    have h: "unat (hn_addr n) + 16 \<le> 2 ^ 32"
    proof -
      have "(1::nat) \<le> 2 ^ hn_order n" by simp
      then show ?thesis using node_wfD(3) [OF Wn] by linarith
    qed
    have "unat (hn_addr n + of_nat 12) = unat (hn_addr n) + 12" using h by (intro unat_add_32) linarith
    then have u: "unat (hn_addr n + 12) = unat (hn_addr n) + 12" by simp
    have y': "unat (hn_addr n) + 12 \<le> unat y" "unat y < unat (hn_addr n) + 16"
      using y region_linear [of "hn_addr n + 12" 4 y] u h by simp_all
    have "y \<notin> region (fst x) (asize x)" if "x \<in> set (hn_free n)" for x
      using node_positions [OF Wn UnI1 [OF that]] region_linear [of "fst x" "asize x" y] y' by auto
    moreover have "y \<notin> region (hn_addr n) 12" using y' h region_linear [of "hn_addr n" 12 y] by auto
    ultimately show "m' y = m y" using e by (auto simp: node_room_def)
  qed
  have bs: "nodes m' q bs" if "nodes m q bs" for q
    using that nodes_cong [of bs m m'] o by auto
  show ?thesis using ns o
  proof (induction as arbitrary: p)
    case Nil
    then show ?case using n' nx bs by auto
  next
    case (Cons k as)
    then have "\<forall>y\<in>node_meta k. m y = m' y" by auto
    from node_rep_cong [OF this] show ?case using Cons by auto
  qed
qed

section \<open>A new node\<close>

definition fresh_node :: "addr \<Rightarrow> nat \<Rightarrow> hnode" where
  "fresh_node a k = \<lparr>hn_addr = a, hn_order = k, hn_free = [(a + 16, 4096 * 2 ^ k - 16)], hn_used = []\<rparr>"

definition fresh_mem :: "addr \<Rightarrow> u32 \<Rightarrow> u32 \<Rightarrow> memory \<Rightarrow> memory" where
  "fresh_mem a order len m =
     st32 (st32 (st32 (st32 (st32 (st32 m a order) (a + 4) (a + 16)) (a + 8) 0) (a + 12) 0) (a + 16) len) (a + 20) 0"

lemma fresh_mem_loads:
  "ld32 (fresh_mem a order len m) a = order" "ld32 (fresh_mem a order len m) (a + 4) = a + 16"
  "ld32 (fresh_mem a order len m) (a + 8) = 0" "ld32 (fresh_mem a order len m) (a + 12) = 0"
  "ld32 (fresh_mem a order len m) (a + 16) = len" "ld32 (fresh_mem a order len m) (a + 20) = 0"
  by (simp_all add: fresh_mem_def fields)

lemma fresh_mem_out:
  assumes "y \<notin> region a 24"
  shows "fresh_mem a order len m y = m y"
proof -
  have "y \<notin> region (a + d) 4" if "unat d + 4 \<le> 24" for d
    using region_offset_subset [OF that, of a] assms by blast
  note o = this [of 0] this [of 4] this [of 8] this [of 12] this [of 16] this [of 20]
  show ?thesis unfolding fresh_mem_def using o by (simp add: st32_out)
qed

lemma new_malloc_node_mem:
  assumes "alloc_pages order s = Inr (page, s1)" "page_to_vir page s1 = a"
  shows "new_malloc_node order s = Inr (a, s1\<lparr>mem := fresh_mem a order (push_bit (unat order) PAGE_SIZE - 16) (mem s1)\<rparr>)"
proof -
  have "ld32 (st32 (st32 (st32 (st32 m a order) (a + 4) (a + 16)) (a + 8) 0) (a + 12) 0) (a + 4) = a + 16" for m
    by (simp add: fields)
  then show ?thesis
    unfolding new_malloc_node_def assms bindE_simps prod.case assms(2) Let_def fresh_mem_def
    by (simp add: add.commute [of "20::u32"])
qed

lemma node_len:
  assumes "k \<le> 10"
  shows "unat (4096 * 2 ^ k - 16 :: u32) = 4096 * 2 ^ k - 16" "unat (2 ^ k :: u32) = 2 ^ k"
    "push_bit k PAGE_SIZE - 16 = (4096 * 2 ^ k - 16 :: u32)"
proof -
  have p: "(2::nat) ^ k \<le> 2 ^ 10" by (rule power_increasing) (use assms in simp_all)
  have q: "(1::nat) \<le> 2 ^ k" by simp
  have "unat (of_nat (2 ^ k) :: u32) = 2 ^ k" by (rule unat_of_nat_32) (use p in simp)
  then show "unat (2 ^ k :: u32) = 2 ^ k" by simp
  have u: "unat (of_nat (4096 * 2 ^ k) :: u32) = 4096 * 2 ^ k" by (rule unat_of_nat_32) (use p in simp)
  have "(16::u32) \<le> of_nat (4096 * 2 ^ k)" unfolding word_le_nat_alt u using q by simp
  then have "unat (of_nat (4096 * 2 ^ k) - 16 :: u32) = 4096 * 2 ^ k - 16" by (simp add: unat_sub u del: of_nat_mult)
  then show "unat (4096 * 2 ^ k - 16 :: u32) = 4096 * 2 ^ k - 16" by simp
  show "push_bit k PAGE_SIZE - 16 = (4096 * 2 ^ k - 16 :: u32)" by (simp add: push_bit_eq_mult ac_simps)
qed

lemma fresh_node_wf:
  assumes "k \<le> 10" "j + 2 ^ k \<le> 2 ^ 18"
  shows "node_wf (fresh_node (vpage j) k)" "node_span (fresh_node (vpage j) k) = block_bytes j k" "vpage j \<noteq> 0"
    "region (vpage j) 24 \<subseteq> block_bytes j k"
proof -
  have q: "(1::nat) \<le> 2 ^ k" by simp
  then have "j < 2 ^ 18" using assms(2) by linarith
  note u = unat_vpage [OF this]
  have e: "unat (vpage j) + 4096 * 2 ^ k \<le> 2 ^ 32" using u assms(2) by simp
  have "unat (vpage j + of_nat 16) = unat (vpage j) + 16" using e q by (intro unat_add_32) linarith
  then have v: "unat (vpage j + 16) = unat (vpage j) + 16" by simp
  have "4 dvd (4096 * 2 ^ k - 16 :: nat)" by (rule dvd_diff_nat) simp_all
  moreover have "4 dvd unat (vpage j) + 16" unfolding u by (intro dvd_add dvd_mult2) simp_all
  moreover have "16 \<le> (4096 * 2 ^ k :: nat)" using q by linarith
  then have "unat (vpage j) + 16 + (4096 * 2 ^ k - 16) \<le> unat (vpage j) + 4096 * 2 ^ k" by simp
  moreover have "8 \<le> (4096 * 2 ^ k - 16 :: nat)" using q by linarith
  ultimately have "area_in (fresh_node (vpage j) k) (vpage j + 16, 4096 * 2 ^ k - 16)"
    unfolding area_in_def fresh_node_def hnode.simps fst_conv snd_conv node_len(1) [OF assms(1)] v by simp
  then show "node_wf (fresh_node (vpage j) k)"
    using assms(1) e u by (simp add: node_wf_def fresh_node_def)
  show "node_span (fresh_node (vpage j) k) = block_bytes j k" by (simp add: node_span_def block_bytes_def fresh_node_def)
  show "vpage j \<noteq> 0" using u by auto
  show "region (vpage j) 24 \<subseteq> block_bytes j k" unfolding block_bytes_def using q by (intro region_mono) linarith
qed

lemma fresh_node_rep:
  assumes "k \<le> 10" "j + 2 ^ k \<le> 2 ^ 18"
  shows "node_rep (fresh_mem (vpage j) (of_nat k) (4096 * 2 ^ k - 16) m) (fresh_node (vpage j) k)"
proof -
  note P = node_positions [OF fresh_node_wf(1) [OF assms], of "(vpage j + 16, 4096 * 2 ^ k - 16)"]
  have "vpage j + 16 \<noteq> 0" using P(5) by (auto simp: fresh_node_def)
  then show ?thesis by (simp add: node_rep_def fresh_node_def fresh_mem_loads add.commute [of "20::u32"])
qed

section \<open>The heap and its pages\<close>

text \<open>The block of pages of a node; \<open>P\<close> are the blocks in the hands of other clients of the page allocator.\<close>

definition node_block :: "hnode \<Rightarrow> nat \<times> nat" where
  "node_block n = ((unat (hn_addr n) - 0xC0000000) div 4096, hn_order n)"

definition blocks_ok :: "'a mm_state_scheme \<Rightarrow> (nat \<times> nat) list \<Rightarrow> bool" where
  "blocks_ok s H \<longleftrightarrow> disjoint_blocks H \<and> held H \<inter> avail_pages s = {} \<and>
     (\<forall>(i, l)\<in>set H. l \<le> 10 \<and> 2 ^ l dvd i \<and> i + 2 ^ l \<le> total_pages s) \<and> usable s (held H \<union> avail_pages s)"

definition heap_inv :: "'a heap_state_scheme \<Rightarrow> hnode list \<Rightarrow> (nat \<times> nat) list \<Rightarrow> bool" where
  "heap_inv s ns P \<longleftrightarrow> mm_ok s \<and> nodes (mem s) (malloc_list s) ns \<and>
     (\<forall>n\<in>set ns. node_wf n \<and> hn_addr n = vpage (fst (node_block n))) \<and> blocks_ok s (map node_block ns @ P)"

lemma heap_invD:
  assumes "heap_inv s ns P"
  shows "mm_ok s" "nodes (mem s) (malloc_list s) ns" "blocks_ok s (map node_block ns @ P)"
    "n \<in> set ns \<Longrightarrow> node_wf n" "n \<in> set ns \<Longrightarrow> hn_addr n = vpage (fst (node_block n))"
  using assms by (simp_all add: heap_inv_def)

lemma blocks_okD:
  assumes "blocks_ok s H"
  shows "disjoint_blocks H" "held H \<inter> avail_pages s = {}" "usable s (held H \<union> avail_pages s)"
    "\<forall>(i, l)\<in>set H. l \<le> 10 \<and> 2 ^ l dvd i \<and> i + 2 ^ l \<le> total_pages s"
    "b \<in> set H \<Longrightarrow> fst b + 2 ^ snd b \<le> 2 ^ 18"
    "b \<in> set H \<Longrightarrow> block_bytes (fst b) (snd b) \<inter> mm_own s = {}"
proof -
  show 1: "disjoint_blocks H" "held H \<inter> avail_pages s = {}" "usable s (held H \<union> avail_pages s)"
    "\<forall>(i, l)\<in>set H. l \<le> 10 \<and> 2 ^ l dvd i \<and> i + 2 ^ l \<le> total_pages s"
    using assms by (simp_all add: blocks_ok_def)
  assume b: "b \<in> set H"
  then have "fst b + 2 ^ snd b \<le> total_pages s" using 1(4) by (cases b) auto
  moreover have "blk (fst b) (snd b) \<subseteq> held H \<union> avail_pages s" using b by (auto simp: held_def)
  ultimately show "fst b + 2 ^ snd b \<le> 2 ^ 18" "block_bytes (fst b) (snd b) \<inter> mm_own s = {}"
    using usable_block [OF 1(3)] by blast+
qed

lemma blocks_disjoint:
  assumes "blocks_ok s (as @ b # bs)" "c \<in> set (as @ bs)"
  shows "block_bytes (fst c) (snd c) \<inter> block_bytes (fst b) (snd b) = {}"
proof -
  have "disjoint_blocks (as @ b # bs) \<Longrightarrow> c \<in> set (as @ bs) \<Longrightarrow> blk (fst c) (snd c) \<inter> blk (fst b) (snd b) = {}"
  proof (induction as)
    case (Cons a as)
    then show ?case by (cases "c = a") auto
  qed auto
  then have "blk (fst c) (snd c) \<inter> blk (fst b) (snd b) = {}" using assms blocks_okD(1) by blast
  then show ?thesis
    using blocks_okD(5) [OF assms(1)] assms(2) by (intro block_bytes_disjoint) auto
qed

lemma node_span_block:
  assumes "heap_inv s ns P" "n \<in> set ns"
  shows "node_span n = block_bytes (fst (node_block n)) (snd (node_block n))"
  using heap_invD(5) [OF assms] by (simp add: node_span_def block_bytes_def node_block_def)

lemma blocks_ok_same:
  fixes s s' :: "'a mm_state_scheme"
  assumes "mm_ok s" "mm_same s s'"
  shows "blocks_ok s' H \<longleftrightarrow> blocks_ok s H"
  unfolding blocks_ok_def usable_def mm_same_ok(3-5) [OF assms] ..

text \<open>The bytes of the two allocators: their tables, the free pages, and all of the nodes but the used data.\<close>

definition heap_foot :: "'a mm_state_scheme \<Rightarrow> hnode list \<Rightarrow> addr set" where
  "heap_foot s ns = mm_own s \<union> (\<Union>i\<in>avail_pages s. page_bytes i) \<union> (\<Union>n\<in>set ns. node_room n \<union> node_meta n)"

definition used_areas :: "hnode list \<Rightarrow> area list" where
  "used_areas ns = concat (map hn_used ns)"

lemma take_node_foot:
  assumes W: "node_wf n" and f: "hn_free n = pre @ x # post" and r: "8 \<le> unat r" "r \<le> snd x"
  shows "node_room (take_node pre x post r n) \<union> node_meta (take_node pre x post r n) \<subseteq> node_room n \<union> node_meta n"
proof -
  have xin: "x \<in> set (hn_free n)" using f by simp
  note P = node_positions [OF W UnI1 [OF xin]]
  have le: "unat r \<le> asize x" using r(2) by (simp add: word_le_nat_alt)
  have u: "region (fst x) 8 \<subseteq> region (fst x) (asize x)" by (rule region_mono [OF P(7)])
  have v: "region (fst x + r) 8 \<subseteq> region (fst x) (asize x)" "region (fst x + r) (unat (snd x - r)) \<subseteq> region (fst x) (asize x)"
    if "snd x - r > 8"
  proof -
    note R = rest_positions(3,4) [OF W xin r(2) that]
    have "unat r + 8 \<le> asize x" using R(2) by linarith
    then show "region (fst x + r) 8 \<subseteq> region (fst x) (asize x)" by (rule region_offset_subset)
    have "unat r + unat (snd x - r) \<le> asize x" unfolding R(1) using le by simp
    then show "region (fst x + r) (unat (snd x - r)) \<subseteq> region (fst x) (asize x)" by (rule region_offset_subset)
  qed
  have o: "region (fst x) (asize x) \<subseteq> node_room n" using xin by (auto simp: node_room_def)
  have new: "z = (fst x + r, snd x - r) \<and> snd x - r > 8"
    if "z \<in> set (pre @ rest_areas x r post)" "z \<notin> set (hn_free n)" for z
  proof (cases "snd x - r > 8")
    case True
    have "z \<in> set (pre @ (fst x + r, snd x - r) # post)" using that(1) unfolding rest_areas_def if_P [OF True] .
    then have "z = (fst x + r, snd x - r)" using that(2) f by simp
    then show ?thesis using True by blast
  next
    case False
    have "z \<in> set (pre @ [])" using that(1) unfolding rest_areas_def if_not_P [OF False] .
    then show ?thesis using that(2) f by simp
  qed
  have a: "region (fst z) (asize z) \<subseteq> node_room n" if z: "z \<in> set (pre @ rest_areas x r post)" for z
  proof (cases "z \<in> set (hn_free n)")
    case True
    then show ?thesis by (auto simp: node_room_def)
  next
    case False
    from new [OF z this] have "fst z = fst x + r" "snd z = snd x - r" "snd x - r > 8" by simp_all
    then show ?thesis using v(2) o by simp
  qed
  have b: "region (fst z) 8 \<subseteq> node_room n \<union> node_meta n"
    if z: "z \<in> set (pre @ rest_areas x r post) \<union> set ((fst x, r) # hn_used n)" for z
  proof (cases "z \<in> set (hn_free n) \<union> set (hn_used n)")
    case True
    then show ?thesis by (auto simp: node_meta_def)
  next
    case False
    then have "z \<notin> set (hn_free n)" "z = (fst x, r) \<or> z \<in> set (pre @ rest_areas x r post)" using z by auto
    then have "z = (fst x, r) \<or> z = (fst x + r, snd x - r) \<and> snd x - r > 8" using new by blast
    then have "fst z = fst x \<or> fst z = fst x + r \<and> snd x - r > 8" by (elim disjE conjE) simp_all
    then have "region (fst z) 8 \<subseteq> region (fst x) (asize x)" using u v(1) by metis
    then show ?thesis using o by blast
  qed
  have t: "hn_free (take_node pre x post r n) = pre @ rest_areas x r post" "hn_addr (take_node pre x post r n) = hn_addr n"
    "hn_used (take_node pre x post r n) = (fst x, r) # hn_used n" by (simp_all add: take_node_def)
  have h: "region (hn_addr n) 12 \<subseteq> node_room n" "region (hn_addr n) 16 \<subseteq> node_meta n"
    by (simp_all add: node_room_def node_meta_def)
  show ?thesis
    unfolding node_room_def [of "take_node pre x post r n"] node_meta_def [of "take_node pre x post r n"] t
    using a b h by blast
qed

text \<open>A call that takes an area from a node.\<close>

lemma take_heap_inv:
  assumes I: "heap_inv s (as @ n # bs) P" and f: "hn_free n = pre @ x # post"
    and r: "8 \<le> unat r" "r \<le> snd x" "4 dvd unat r"
  defines "m \<equiv> take_area (hn_addr n) (fst x) (if pre = [] then 0 else fst (List.last pre)) r (mem s)"
  shows "heap_inv (s\<lparr>mem := m\<rparr>) (as @ take_node pre x post r n # bs) P"
    and "\<forall>y. y \<notin> node_room n \<longrightarrow> m y = mem s y"
    and "heap_foot (s\<lparr>mem := m\<rparr>) (as @ take_node pre x post r n # bs) \<subseteq> heap_foot s (as @ n # bs)"
proof -
  have nin: "n \<in> set (as @ n # bs)" by simp
  note W = heap_invD(4) [OF I nin] and B = heap_invD(3) [OF I]
  have rep: "node_rep (mem s) n" using nodes_rep [OF heap_invD(2) [OF I] nin] ..
  show fr: "\<forall>y. y \<notin> node_room n \<longrightarrow> m y = mem s y"
    unfolding m_def using take_area_frame [OF W f rep r(2)] by blast
  have sp: "node_span k \<inter> node_span n = {}" if "k \<in> set (as @ bs)" for k
  proof -
    have "k \<in> set (as @ n # bs)" using that by auto
    then show ?thesis
      unfolding node_span_block [OF I nin] node_span_block [OF I \<open>k \<in> set (as @ n # bs)\<close>]
      using B that by (intro blocks_disjoint [of s "map node_block as" _ "map node_block bs @ P"]) auto
  qed
  have "node_span n \<inter> mm_own s = {}"
    unfolding node_span_block [OF I nin] by (rule blocks_okD(6) [OF B]) simp
  then have "mm_same s (s\<lparr>mem := m\<rparr>)"
    unfolding mm_same_def using fr node_room_span [OF W] by auto
  note S = mm_same_ok [OF heap_invD(1) [OF I] this] and S' = blocks_ok_same [OF heap_invD(1) [OF I] this]
  show "heap_foot (s\<lparr>mem := m\<rparr>) (as @ take_node pre x post r n # bs) \<subseteq> heap_foot s (as @ n # bs)"
    unfolding heap_foot_def S(3,4) using take_node_foot [OF W f r(1,2)] by auto
  have "nodes m (malloc_list s) (as @ take_node pre x post r n # bs)"
    unfolding m_def
  proof (rule nodes_update [OF heap_invD(2) [OF I]])
    show "\<forall>k\<in>set (as @ n # bs). node_wf k" using heap_invD(4) [OF I] by blast
  qed (use sp fr take_area_rep [OF W f rep r] in \<open>auto simp: take_node_def m_def\<close>)
  moreover have "node_block (take_node pre x post r n) = node_block n" "hn_addr (take_node pre x post r n) = hn_addr n"
    by (simp_all add: node_block_def take_node_def)
  ultimately show "heap_inv (s\<lparr>mem := m\<rparr>) (as @ take_node pre x post r n # bs) P"
    unfolding heap_inv_def S' using S(1) B take_node_wf [OF W f r] heap_invD(4,5) [OF I] by auto
qed

section \<open>Adding a node\<close>

lemma heap_frame_list: "mm_frame s s' \<Longrightarrow> malloc_list s' = malloc_list s"
proof -
  assume "mm_frame s s'"
  then obtain m c where "s' = s\<lparr>mem := m, free_page_count := c\<rparr>" unfolding mm_frame_def by blast
  then show ?thesis by simp
qed

text \<open>What an allocation of pages gives, in bytes.\<close>

lemma alloc_block:
  assumes ok: "mm_ok s" and k: "k \<le> 10" and B: "blocks_ok s H" and al: "alloc_pages (of_nat k) s = Inr (page, s1)"
  obtains j where "page = pg (mem_map s) j" "page_to_vir page s1 = vpage j" "blk j k \<subseteq> avail_pages s" "j + 2 ^ k \<le> 2 ^ 18"
    "mm_ok s1" "mm_frame s s1" "avail_pages s1 = avail_pages s - blk j k" "blocks_ok s1 ((j, k) # H)"
    "block_bytes j k \<inter> mm_own s = {}"
proof -
  let ?j = "unat (ptr_diff page (mem_map s) 12)"
  have pa: "page_alloc k s = Some (?j, s1)" using al by (simp add: page_alloc_def)
  note a = pa.alloc_some [OF ok k pa] and e = page_alloc_eq(2) [OF ok k pa] and D = blocks_okD [OF B]
  note h = pa.alloc_held [OF ok k pa D(1,2,4)]
  have fr: "mm_frame s s1" "page = pg (mem_map s) ?j" using e al by auto
  have U: "held ((?j, k) # H) \<union> avail_pages s1 = held H \<union> avail_pages s" by (rule h(3))
  have bl: "?j + 2 ^ k \<le> total_pages s" using h(4) a by auto
  have sub: "blk ?j k \<subseteq> held H \<union> avail_pages s" using a by blast
  note ub = usable_block [OF D(3) sub bl]
  have us: "usable s1 (held ((?j, k) # H) \<union> avail_pages s1)"
    using D(3) a mm_frame_globals(11) [OF fr(1)] unfolding U usable_def by simp
  have "(1::nat) \<le> 2 ^ k" by simp
  then have "?j < 2 ^ 18" using ub(2) by linarith
  then have "?j < 2 ^ 20" by simp
  then have "page_to_vir page s1 = vpage ?j"
    using page_to_vir_pg [of ?j s1] fr mm_frame_globals(2) [OF fr(1)] by simp
  moreover have "blocks_ok s1 ((?j, k) # H)" unfolding blocks_ok_def using h us by blast
  ultimately show thesis using that [of ?j] fr a ub by blast
qed

lemma new_node_step:
  assumes ok: "mm_ok s" and k: "k \<le> 10" and B: "blocks_ok s H" and al: "alloc_pages (of_nat k) s = Inr (page, s1)"
  obtains j s2 where "new_malloc_node (of_nat k) s = Inr (vpage j, s2)" "blk j k \<subseteq> avail_pages s" "j + 2 ^ k \<le> 2 ^ 18"
    "mm_ok s2" "mm_own s2 = mm_own s" "avail_pages s2 = avail_pages s - blk j k" "blocks_ok s2 ((j, k) # H)"
    "block_bytes j k \<inter> mm_own s = {}" "malloc_list s2 = malloc_list s"
    "\<forall>y. y \<notin> mm_own s \<union> block_bytes j k \<longrightarrow> mem s2 y = mem s y"
    "node_rep (mem s2) (fresh_node (vpage j) k)" "ld32 (mem s2) (vpage j + 12) = 0"
proof -
  obtain j where j: "page = pg (mem_map s) j" "page_to_vir page s1 = vpage j" "blk j k \<subseteq> avail_pages s" "j + 2 ^ k \<le> 2 ^ 18"
    "mm_ok s1" "mm_frame s s1" "avail_pages s1 = avail_pages s - blk j k" "blocks_ok s1 ((j, k) # H)"
    "block_bytes j k \<inter> mm_own s = {}" by (rule alloc_block [OF assms])
  let ?m = "fresh_mem (vpage j) (of_nat k) (4096 * 2 ^ k - 16) (mem s1)"
  let ?s = "s1\<lparr>mem := ?m\<rparr>"
  have "unat (of_nat k :: u32) = k" by (rule unat_of_nat_32) (use k in simp)
  then have n: "new_malloc_node (of_nat k) s = Inr (vpage j, ?s)"
    using new_malloc_node_mem [OF al j(2)] node_len(3) [OF k] by simp
  have out: "?m y = mem s1 y" if "y \<notin> block_bytes j k" for y
    using fresh_mem_out fresh_node_wf(4) [OF k j(4)] that by blast
  have own: "mm_own s1 = mm_own s" by (rule mm_frame_globals(11) [OF j(6)])
  have "mm_same s1 ?s" unfolding mm_same_def own using out j(9) by auto
  note S = mm_same_ok [OF j(5) this] and S' = blocks_ok_same [OF j(5) this]
  have "\<forall>y. y \<notin> mm_own s \<union> block_bytes j k \<longrightarrow> mem ?s y = mem s y"
    using out mm_frame_globals(10) [OF j(6)] by simp
  moreover have "malloc_list ?s = malloc_list s" using heap_frame_list [OF j(6)] by simp
  moreover have "node_rep (mem ?s) (fresh_node (vpage j) k)" using fresh_node_rep [OF k j(4)] by simp
  moreover have "ld32 (mem ?s) (vpage j + 12) = 0" by (simp add: fresh_mem_loads)
  ultimately show thesis using that [OF n j(3,4) S(1)] S S' own j(7-9) by metis
qed

lemma fresh_block:
  assumes "j + 2 ^ k \<le> 2 ^ 18"
  shows "node_block (fresh_node (vpage j) k) = (j, k)"
proof -
  have "(1::nat) \<le> 2 ^ k" by simp
  then have "j < 2 ^ 18" using assms by linarith
  then show ?thesis using unat_vpage [of j] by (simp add: node_block_def fresh_node_def)
qed

lemma fresh_rep_next: "node_rep m (fresh_node a k) \<Longrightarrow> node_rep (st32 m (a + 12) v) (fresh_node a k)"
  by (simp add: node_rep_def fresh_node_def fields add.commute [of "20::u32"])

lemma link_new_node:
  assumes I: "heap_inv s ns P" and k: "k \<le> 10" and al: "alloc_pages (of_nat k) s = Inr (page, s1)"
  obtains j s2 where "new_malloc_node (of_nat k) s = Inr (vpage j, s2)" "vpage j \<noteq> 0" "malloc_list s2 = malloc_list s"
    "blk j k \<subseteq> avail_pages s" "j + 2 ^ k \<le> 2 ^ 18"
    "heap_inv (s2\<lparr>mem := st32 (mem s2) (vpage j + 12) (malloc_list s), malloc_list := vpage j\<rparr>) (fresh_node (vpage j) k # ns) P"
    "avail_pages (s2\<lparr>mem := st32 (mem s2) (vpage j + 12) (malloc_list s), malloc_list := vpage j\<rparr>) = avail_pages s - blk j k"
    "mm_own (s2\<lparr>mem := st32 (mem s2) (vpage j + 12) (malloc_list s), malloc_list := vpage j\<rparr>) = mm_own s"
    "\<forall>y. y \<notin> mm_own s \<union> block_bytes j k \<longrightarrow> st32 (mem s2) (vpage j + 12) (malloc_list s) y = mem s y"
proof -
  obtain j s2 where j: "new_malloc_node (of_nat k) s = Inr (vpage j, s2)" "blk j k \<subseteq> avail_pages s" "j + 2 ^ k \<le> 2 ^ 18"
    "mm_ok s2" "mm_own s2 = mm_own s" "avail_pages s2 = avail_pages s - blk j k"
    "blocks_ok s2 ((j, k) # map node_block ns @ P)" "block_bytes j k \<inter> mm_own s = {}" "malloc_list s2 = malloc_list s"
    "\<forall>y. y \<notin> mm_own s \<union> block_bytes j k \<longrightarrow> mem s2 y = mem s y"
    "node_rep (mem s2) (fresh_node (vpage j) k)" "ld32 (mem s2) (vpage j + 12) = 0"
    by (rule new_node_step [OF heap_invD(1) [OF I] k heap_invD(3) [OF I] al])
  note F = fresh_node_wf [OF k j(3)]
  let ?m = "st32 (mem s2) (vpage j + 12) (malloc_list s)"
  let ?s = "s2\<lparr>mem := ?m, malloc_list := vpage j\<rparr>"
  have "region (vpage j + 12) 4 \<subseteq> block_bytes j k" using next_span [OF F(1)] F(2) by (simp add: fresh_node_def)
  then have out: "?m y = mem s2 y" if "y \<notin> block_bytes j k" for y using that by (intro st32_out) blast
  have "mm_same s2 ?s" unfolding mm_same_def j(5) using out j(8) by auto
  note S = mm_same_ok [OF j(4) this] and S' = blocks_ok_same [OF j(4) this]
  have fr: "\<forall>y. y \<notin> mm_own s \<union> block_bytes j k \<longrightarrow> ?m y = mem s y" using out j(10) by auto
  have old: "\<forall>n\<in>set ns. \<forall>y\<in>node_meta n. mem s y = ?m y"
  proof
    fix n assume n: "n \<in> set ns"
    have "node_block n \<in> set (map node_block ns @ P)" using n by simp
    then have dj: "node_span n \<inter> mm_own s = {}" "node_span n \<inter> block_bytes j k = {}"
      unfolding node_span_block [OF I n]
      using blocks_okD(6) [OF heap_invD(3) [OF I]] blocks_disjoint [of s2 "[]" "(j, k)" "map node_block ns @ P"] j(7) by auto
    show "\<forall>y\<in>node_meta n. mem s y = ?m y"
    proof
      fix y assume "y \<in> node_meta n"
      then have "y \<notin> mm_own s \<union> block_bytes j k" using node_meta_span [OF heap_invD(4) [OF I n]] dj by blast
      then show "mem s y = ?m y" using fr by (simp only: simp_thms)
    qed
  qed
  have "nodes ?m (vpage j) (fresh_node (vpage j) k # ns)"
    using nodes_cong [OF old, of "malloc_list s"] heap_invD(2) [OF I] F(3) fresh_rep_next [OF j(11)] by (simp add: fresh_node_def)
  then have "heap_inv ?s (fresh_node (vpage j) k # ns) P"
    unfolding heap_inv_def S' using S(1) j(7) F(1) heap_invD(4,5) [OF I] fresh_block [OF j(3)]
    by (simp add: fresh_node_def)
  then show thesis using that [OF j(1) F(3) j(9) j(2,3)] S(3,4) j(5,6) fr by simp
qed

section \<open>kmalloc\<close>

definition real_size :: "u32 \<Rightarrow> u32" where
  "real_size sz = LONG_ALIGN (sz + 8)"

lemma real_size_bounds:
  assumes "unat sz < 45056"
  shows "unat (real_size sz) = (unat sz + 11) div 4 * 4" "8 \<le> unat (real_size sz)" "4 dvd unat (real_size sz)"
    "unat sz + 8 \<le> unat (real_size sz)"
proof -
  have "unat (sz + of_nat 8) = unat sz + 8" using assms by (intro unat_add_32) simp
  then show r: "unat (real_size sz) = (unat sz + 11) div 4 * 4"
    using unat_ALIGN [of 2 "sz + 8"] assms by (simp add: real_size_def)
  show "4 dvd unat (real_size sz)" unfolding r by simp
  show "unat sz + 8 \<le> unat (real_size sz)" unfolding r using div_mult_less [of 4 "unat sz + 11"] by linarith
  then show "8 \<le> unat (real_size sz)" by linarith
qed

lemma finite_avail:
  assumes "mm_ok s"
  shows "finite (avail_pages s)"
proof (rule finite_subset)
  show "avail_pages s \<subseteq> {..<total_pages s}" using pa.avail_bound [OF assms] by (intro subsetI) (simp only: lessThan_iff)
qed simp

lemma heap_foot_new:
  assumes "blk j k \<subseteq> avail_pages s" "j + 2 ^ k \<le> 2 ^ 18" "k \<le> 10"
    "avail_pages s' = avail_pages s - blk j k" "mm_own s' = mm_own s"
  shows "heap_foot s' (fresh_node (vpage j) k # ns) \<subseteq> heap_foot s ns"
proof -
  have "node_room (fresh_node (vpage j) k) \<union> node_meta (fresh_node (vpage j) k) \<subseteq> (\<Union>i\<in>avail_pages s. page_bytes i)"
    using node_room_span [OF fresh_node_wf(1) [OF assms(3,2)]] node_meta_span [OF fresh_node_wf(1) [OF assms(3,2)]] assms(1)
    unfolding fresh_node_wf(2) [OF assms(3,2)] block_bytes_pages [OF assms(2)] by blast
  then show ?thesis using assms(4,5) by (auto simp: heap_foot_def)
qed

text \<open>How a call ends: the area \<open>x\<close> is new among the used ones, and comes out of the bytes of the allocators.\<close>

definition kmalloc_gives ::
  "u32 \<Rightarrow> 'a heap_state_scheme \<Rightarrow> hnode list \<Rightarrow> (nat \<times> nat) list \<Rightarrow> area \<Rightarrow> 'a heap_state_scheme \<Rightarrow> hnode list \<Rightarrow> bool" where
  "kmalloc_gives sz s ns P x s' ns' \<longleftrightarrow>
     kmalloc sz s = Some (Inr (fst x + 8, s')) \<and> heap_inv s' ns' P \<and> ns' \<noteq> [] \<and> snd x = real_size sz \<and>
     mset (used_areas ns') = add_mset x (mset (used_areas ns)) \<and>
     region (fst x) (asize x) \<subseteq> heap_foot s ns \<and> heap_foot s' ns' \<subseteq> heap_foot s ns \<and>
     (\<forall>y. y \<notin> heap_foot s ns \<longrightarrow> mem s' y = mem s y)"

definition size_order :: "u32 \<Rightarrow> nat" where
  "size_order sz = unat sz div 4096"

lemma size_order:
  assumes "unat sz < 45056"
  shows "size_order sz \<le> 10" "drop_bit 12 sz = of_nat (size_order sz)"
proof -
  show "size_order sz \<le> 10" unfolding size_order_def using assms by linarith
  show "drop_bit 12 sz = of_nat (size_order sz)"
    unfolding size_order_def using drop_bit_of_nat_32 [of "unat sz" 12] assms by simp
qed

definition has_room :: "u32 \<Rightarrow> hnode list \<Rightarrow> bool" where
  "has_room sz ns \<longleftrightarrow> (\<exists>n\<in>set ns. fits (of_nat (size_order sz)) (real_size sz) n)"

lemma kmalloc_unfold:
  assumes "unat sz < 45056" "heap_inv s ns P" "ns \<noteq> []"
  shows "kmalloc sz s =
    Option.bind (find_node (mem s) (of_nat (size_order sz)) (real_size sz) (malloc_list s)) (\<lambda>(mnp, ma, ma_last).
      if ma \<noteq> 0 then Some (Inr (ma + 8, s\<lparr>mem := take_area mnp ma ma_last (real_size sz) (mem s)\<rparr>))
      else (case new_malloc_node (of_nat (size_order sz)) s of
          Inl e \<Rightarrow> Some (Inl e)
        | Inr (mnp, s) \<Rightarrow>
            if mnp \<noteq> 0 then kmalloc sz (s\<lparr>mem := st32 (mem s) (mnp + 12) (malloc_list s), malloc_list := mnp\<rparr>)
            else Some (Inr (0, s))))"
proof -
  have "malloc_list s \<noteq> 0" using heap_invD(2) [OF assms(2)] assms(3) by (cases ns) auto
  note ml = if_not_P [OF this]
  show ?thesis
    by (rule trans [OF kmalloc.simps [of sz s]]) (simp only: Let_def ml size_order(2) [OF assms(1)] real_size_def)
qed

text \<open>An area fits.\<close>

lemma kmalloc_fit:
  assumes sz: "unat sz < 45056" and I: "heap_inv s ns P" and room: "has_room sz ns"
  shows "\<exists>x s' ns'. kmalloc_gives sz s ns P x s' ns'"
proof -
  note R = real_size_bounds [OF sz]
  from first_fit [OF room [unfolded has_room_def]] obtain as n bs pre x post where
    f: "ns = as @ n # bs" "\<forall>k'\<in>set as. \<not> fits (of_nat (size_order sz)) (real_size sz) k'"
      "of_nat (size_order sz) \<le> (of_nat (hn_order n) :: u32)"
      "hn_free n = pre @ x # post" "\<forall>y\<in>set pre. snd y < real_size sz" "real_size sz \<le> snd x" by blast
  have ne: "ns \<noteq> []" and nin: "n \<in> set ns" and xin: "x \<in> set (hn_free n)" using f(1,4) by simp_all
  note h = find_node_hit [OF heap_invD(2) [OF I, unfolded f(1)] f(2-6)]
  have W: "node_wf n" by (rule heap_invD(4) [OF I nin])
  have x0: "fst x \<noteq> 0" using node_positions(5) [OF W UnI1 [OF xin]] by auto
  let ?m = "take_area (hn_addr n) (fst x) (if pre = [] then 0 else fst (List.last pre)) (real_size sz) (mem s)"
  note T = take_heap_inv [OF I [unfolded f(1)] f(4) R(2) f(6) R(3)]
  have e: "kmalloc sz s = Some (Inr (fst x + 8, s\<lparr>mem := ?m\<rparr>))" unfolding kmalloc_unfold [OF sz I ne] h using x0 by simp
  have "mset (used_areas (as @ take_node pre x post (real_size sz) n # bs)) =
      add_mset (fst x, real_size sz) (mset (used_areas ns))"
    unfolding f(1) used_areas_def by (simp add: take_node_def)
  moreover have "node_room n \<subseteq> heap_foot s ns" using nin by (auto simp: heap_foot_def)
  moreover have "region (fst x) (unat (real_size sz)) \<subseteq> node_room n"
    using region_mono [of "unat (real_size sz)" "asize x" "fst x"] f(6) xin
    unfolding node_room_def word_le_nat_alt by blast
  moreover have "heap_foot (s\<lparr>mem := ?m\<rparr>) (as @ take_node pre x post (real_size sz) n # bs) \<subseteq> heap_foot s ns"
    using T(3) f(1) by simp
  ultimately have "kmalloc_gives sz s ns P (fst x, real_size sz) (s\<lparr>mem := ?m\<rparr>) (as @ take_node pre x post (real_size sz) n # bs)"
    unfolding kmalloc_gives_def using e T(1,2) by auto
  then show ?thesis by blast
qed

text \<open>No area fits, and the page allocator has no pages, or it has: then the call goes on with a new node.\<close>

lemma kmalloc_no_room:
  assumes sz: "unat sz < 45056" and I: "heap_inv s ns P" "ns \<noteq> []" and no: "\<not> has_room sz ns"
  shows "alloc_pages (of_nat (size_order sz)) s = Inl e \<Longrightarrow> kmalloc sz s = Some (Inl (Bug ''memory alloc failed''))"
    "alloc_pages (of_nat (size_order sz)) s = Inr (page, s1) \<Longrightarrow>
      \<exists>j s3. blk j (size_order sz) \<subseteq> avail_pages s \<and> avail_pages s3 = avail_pages s - blk j (size_order sz) \<and>
        heap_inv s3 (fresh_node (vpage j) (size_order sz) # ns) P \<and> kmalloc sz s = kmalloc sz s3 \<and>
        heap_foot s3 (fresh_node (vpage j) (size_order sz) # ns) \<subseteq> heap_foot s ns \<and>
        (\<forall>y. y \<notin> heap_foot s ns \<longrightarrow> mem s3 y = mem s y)"
proof -
  let ?k = "size_order sz"
  have h: "find_node (mem s) (of_nat ?k) (real_size sz) (malloc_list s) = Some (0, 0, 0)"
    by (rule find_node_none [OF heap_invD(2) [OF I(1)]]) (use no in \<open>auto simp: has_room_def\<close>)
  note unf = kmalloc_unfold [OF sz I, unfolded h]
  show "kmalloc sz s = Some (Inl (Bug ''memory alloc failed''))" if "alloc_pages (of_nat ?k) s = Inl e"
  proof -
    have "e = Bug ''memory alloc failed''"
      using alloc_pages_eq [OF heap_invD(1) [OF I(1)] size_order(1) [OF sz]] that by (cases "aalloc (frees s) ?k") auto
    then show ?thesis unfolding unf using that by (simp add: new_malloc_node_def)
  qed
  assume al: "alloc_pages (of_nat ?k) s = Inr (page, s1)"
  obtain j s2 where j: "new_malloc_node (of_nat ?k) s = Inr (vpage j, s2)" "vpage j \<noteq> 0" "malloc_list s2 = malloc_list s"
    "blk j ?k \<subseteq> avail_pages s" "j + 2 ^ ?k \<le> 2 ^ 18"
    "heap_inv (s2\<lparr>mem := st32 (mem s2) (vpage j + 12) (malloc_list s), malloc_list := vpage j\<rparr>) (fresh_node (vpage j) ?k # ns) P"
    "avail_pages (s2\<lparr>mem := st32 (mem s2) (vpage j + 12) (malloc_list s), malloc_list := vpage j\<rparr>) = avail_pages s - blk j ?k"
    "mm_own (s2\<lparr>mem := st32 (mem s2) (vpage j + 12) (malloc_list s), malloc_list := vpage j\<rparr>) = mm_own s"
    "\<forall>y. y \<notin> mm_own s \<union> block_bytes j ?k \<longrightarrow> st32 (mem s2) (vpage j + 12) (malloc_list s) y = mem s y"
    by (rule link_new_node [OF I(1) size_order(1) [OF sz] al])
  let ?s = "s2\<lparr>mem := st32 (mem s2) (vpage j + 12) (malloc_list s), malloc_list := vpage j\<rparr>"
  have e: "kmalloc sz s = kmalloc sz ?s" unfolding unf using j(1-3) by simp
  have "block_bytes j ?k \<subseteq> heap_foot s ns" "mm_own s \<subseteq> heap_foot s ns"
    unfolding block_bytes_pages [OF j(5)] heap_foot_def using j(4) by blast+
  then have "\<forall>y. y \<notin> heap_foot s ns \<longrightarrow> mem ?s y = mem s y" using j(9) by auto
  then show "\<exists>j s3. blk j ?k \<subseteq> avail_pages s \<and> avail_pages s3 = avail_pages s - blk j ?k \<and>
      heap_inv s3 (fresh_node (vpage j) ?k # ns) P \<and> kmalloc sz s = kmalloc sz s3 \<and>
      heap_foot s3 (fresh_node (vpage j) ?k # ns) \<subseteq> heap_foot s ns \<and>
      (\<forall>y. y \<notin> heap_foot s ns \<longrightarrow> mem s3 y = mem s y)"
    using j(4,6,7) e heap_foot_new [OF j(4,5) size_order(1) [OF sz] j(7,8)] by blast
qed

text \<open>A new node has room unless the size is within 16 bytes below the next multiple of a page that matters.\<close>

definition node_holds :: "u32 \<Rightarrow> bool" where
  "node_holds sz \<longleftrightarrow> unat (real_size sz) \<le> 4096 * 2 ^ size_order sz - 16"

lemma has_room_new:
  assumes "unat sz < 45056"
  shows "has_room sz (fresh_node a (size_order sz) # ns) \<longleftrightarrow> node_holds sz \<or> has_room sz ns"
  using node_len(1) [OF size_order(1) [OF assms]]
  by (auto simp: has_room_def fits_def fresh_node_def node_holds_def word_le_nat_alt)

lemma kmalloc_gives_later:
  assumes "kmalloc_gives sz s3 (fresh_node a k # ns) P x s' ns'" "kmalloc sz s = kmalloc sz s3"
    "heap_foot s3 (fresh_node a k # ns) \<subseteq> heap_foot s ns" "\<forall>y. y \<notin> heap_foot s ns \<longrightarrow> mem s3 y = mem s y"
  shows "kmalloc_gives sz s ns P x s' ns'"
proof -
  have ua: "used_areas (fresh_node a k # ns) = used_areas ns" by (simp add: used_areas_def fresh_node_def)
  have "mem s' y = mem s y" if "y \<notin> heap_foot s ns" for y
    using assms(1,3,4) that unfolding kmalloc_gives_def by (metis subsetD)
  moreover have "region (fst x) (asize x) \<subseteq> heap_foot s ns" "heap_foot s' ns' \<subseteq> heap_foot s ns"
    using assms(1,3) unfolding kmalloc_gives_def by blast+
  ultimately show ?thesis using assms(1,2) unfolding kmalloc_gives_def ua by simp
qed

lemma kmalloc_outcome:
  assumes sz: "unat sz < 45056" and I: "heap_inv s ns P" "ns \<noteq> []"
  shows "if has_room sz ns \<or> node_holds sz \<and> (\<exists>j. 2 ^ size_order sz dvd j \<and> blk j (size_order sz) \<subseteq> avail_pages s)
    then \<exists>x s' ns'. kmalloc_gives sz s ns P x s' ns'
    else kmalloc sz s = Some (Inl (Bug ''memory alloc failed''))"
  using I
proof (induction "card (avail_pages s)" arbitrary: s ns rule: less_induct)
  case less
  let ?k = "size_order sz"
  note I = less.prems(1) and k = size_order(1) [OF sz]
  have al: "page_alloc ?k s = None \<longleftrightarrow> (\<exists>e. alloc_pages (of_nat ?k) s = Inl e)"
    by (simp add: page_alloc_def split: sum.split)
  show ?case
  proof (cases "has_room sz ns")
    case True
    then show ?thesis using kmalloc_fit [OF sz I] by simp
  next
    case no: False
    note N = kmalloc_no_room [OF sz I less.prems(2) no]
    show ?thesis
    proof (cases "alloc_pages (of_nat ?k) s")
      case (Inl e)
      then have "\<not> (has_room sz ns \<or> node_holds sz \<and> (\<exists>j. 2 ^ ?k dvd j \<and> blk j ?k \<subseteq> avail_pages s))"
        using al no pa.alloc_iff [OF heap_invD(1) [OF I] k] by blast
      then show ?thesis using N(1) [OF Inl] by (metis (no_types, lifting))
    next
      case (Inr r)
      then have ex: "\<exists>j. 2 ^ ?k dvd j \<and> blk j ?k \<subseteq> avail_pages s"
        using al pa.alloc_iff [OF heap_invD(1) [OF I] k] by auto
      obtain page s1 where "alloc_pages (of_nat ?k) s = Inr (page, s1)" using Inr by (cases r) auto
      from N(2) [OF this] obtain j s3 where j: "blk j ?k \<subseteq> avail_pages s" "avail_pages s3 = avail_pages s - blk j ?k"
        "heap_inv s3 (fresh_node (vpage j) ?k # ns) P" "kmalloc sz s = kmalloc sz s3"
        "heap_foot s3 (fresh_node (vpage j) ?k # ns) \<subseteq> heap_foot s ns"
        "\<forall>y. y \<notin> heap_foot s ns \<longrightarrow> mem s3 y = mem s y" by blast
      have "j \<in> blk j ?k" by (simp add: blk_def)
      then have "avail_pages s3 \<subset> avail_pages s" using j(1,2) by blast
      then have lt: "card (avail_pages s3) < card (avail_pages s)"
        by (rule psubset_card_mono [OF finite_avail [OF heap_invD(1) [OF I]]])
      have ih: "if node_holds sz then \<exists>x s' ns'. kmalloc_gives sz s3 (fresh_node (vpage j) ?k # ns) P x s' ns'
        else kmalloc sz s3 = Some (Inl (Bug ''memory alloc failed''))"
        using less.hyps [OF lt j(3) list.distinct(2)] no by (simp add: has_room_new [OF sz] split: if_splits)
      show ?thesis
      proof (cases "node_holds sz")
        case True
        then obtain x s' ns' where "kmalloc_gives sz s3 (fresh_node (vpage j) ?k # ns) P x s' ns'" using ih by (metis (no_types))
        then have "\<exists>x s' ns'. kmalloc_gives sz s ns P x s' ns'" using kmalloc_gives_later [OF _ j(4-6)] by blast
        then show ?thesis using True ex by simp
      next
        case False
        then show ?thesis using ih no j(4) by simp
      qed
    qed
  qed
qed

end
