(* ===== verification/KPool.thy ===== *)
theory KPool
  imports KHeapOps
begin

text \<open>
  What the kernel relies on from its two allocators, as one interface: blocks of bytes that are fresh,
  aligned and apart, that no later call touches, and that their owner may write to. \<open>kmalloc\<close> and
  \<open>alloc_pages\<close> provide it over the same invariant, so that a client may use both.
\<close>

section \<open>The interface\<close>

locale block_pool =
  fixes alloc :: "u32 \<Rightarrow> 's \<Rightarrow> (addr \<times> 's) option"
    and ok :: "u32 \<Rightarrow> bool"
    and len :: "u32 \<Rightarrow> nat"
    and inv :: "'s \<Rightarrow> (addr \<rightharpoonup> nat) \<Rightarrow> bool"
    and cells :: "'s \<Rightarrow> memory"
    and put :: "memory \<Rightarrow> 's \<Rightarrow> 's"
  assumes alloc_fresh: "inv s L \<Longrightarrow> ok sz \<Longrightarrow> alloc sz s = Some (p, s') \<Longrightarrow>
      inv s' (L(p \<mapsto> len sz)) \<and> L p = None \<and> (\<forall>q l. L q = Some l \<longrightarrow> (\<forall>y\<in>region q l. cells s' y = cells s y))"
    and inv_apart: "inv s L \<Longrightarrow> L p = Some n \<Longrightarrow> L q = Some l \<Longrightarrow> p \<noteq> q \<Longrightarrow> region p n \<inter> region q l = {}"
    and inv_linear: "inv s L \<Longrightarrow> L p = Some n \<Longrightarrow> 0 < n \<and> 0xC0000000 \<le> unat p \<and> unat p + n \<le> 2 ^ 32 \<and> 4 dvd unat p"
    and put_inv: "inv s L \<Longrightarrow> (\<forall>y. (\<forall>q l. L q = Some l \<longrightarrow> y \<notin> region q l) \<longrightarrow> m y = cells s y) \<Longrightarrow> inv (put m s) L"
    and cells_put: "cells (put m s) = m"
begin

text \<open>A client that takes a block and fills it in leaves every block it had before as it was.\<close>

lemma alloc_put:
  assumes "inv s L" "ok n" "alloc n s = Some (p, s')" "\<forall>y. y \<notin> region p (len n) \<longrightarrow> m y = cells s' y"
  shows "inv (put m s') (L(p \<mapsto> len n))" "L p = None"
    "L q = Some l \<Longrightarrow> y \<in> region q l \<Longrightarrow> cells (put m s') y = cells s y"
proof -
  note a = alloc_fresh [OF assms(1-3)]
  show "L p = None" using a by blast
  show "inv (put m s') (L(p \<mapsto> len n))" using a assms(4) by (intro put_inv) auto
  assume q: "L q = Some l" and y: "y \<in> region q l"
  then have "q \<noteq> p" using a by auto
  then have "region q l \<inter> region p (len n) = {}" using inv_apart [of s' "L(p \<mapsto> len n)" q l p "len n"] a q by simp
  then have "m y = cells s' y" using y assms(4) by blast
  then show "cells (put m s') y = cells s y" using a q y by (simp add: cells_put)
qed

lemma null_not_block: "inv s L \<Longrightarrow> L p = Some n \<Longrightarrow> p \<noteq> 0"
  using inv_linear [of s L p n] by auto

end

section \<open>The invariant\<close>

text \<open>\<open>L\<close> are the blocks of the clients: they are apart and no allocator owns a byte of them.\<close>

definition pool_inv :: "'a heap_state_scheme \<Rightarrow> (addr \<rightharpoonup> nat) \<Rightarrow> bool" where
  "pool_inv s L \<longleftrightarrow> (\<exists>ns P. heap_inv s ns P \<and> ns \<noteq> [] \<and>
     (\<forall>p n. L p = Some n \<longrightarrow> region p n \<inter> heap_foot s ns = {} \<and>
        0 < n \<and> 0xC0000000 \<le> unat p \<and> unat p + n \<le> 2 ^ 32 \<and> 4 dvd unat p) \<and>
     (\<forall>p n q l. L p = Some n \<longrightarrow> L q = Some l \<longrightarrow> p \<noteq> q \<longrightarrow> region p n \<inter> region q l = {}))"

lemma pool_invI:
  assumes "heap_inv s ns P" "ns \<noteq> []" "\<And>p n. L p = Some n \<Longrightarrow> region p n \<inter> heap_foot s ns = {}"
    "\<And>p n. L p = Some n \<Longrightarrow> 0 < n \<and> 0xC0000000 \<le> unat p \<and> unat p + n \<le> 2 ^ 32 \<and> 4 dvd unat p"
    "\<And>p n q l. L p = Some n \<Longrightarrow> L q = Some l \<Longrightarrow> p \<noteq> q \<Longrightarrow> region p n \<inter> region q l = {}"
  shows "pool_inv s L"
  unfolding pool_inv_def using assms by blast

lemma pool_invE:
  assumes "pool_inv s L"
  obtains ns P where "heap_inv s ns P" "ns \<noteq> []" "\<And>p n. L p = Some n \<Longrightarrow> region p n \<inter> heap_foot s ns = {}"
    "\<And>p n. L p = Some n \<Longrightarrow> 0 < n \<and> 0xC0000000 \<le> unat p \<and> unat p + n \<le> 2 ^ 32 \<and> 4 dvd unat p"
    "\<And>p n q l. L p = Some n \<Longrightarrow> L q = Some l \<Longrightarrow> p \<noteq> q \<Longrightarrow> region p n \<inter> region q l = {}"
  using assms unfolding pool_inv_def by (elim exE conjE) blast

lemma pool_inv_drop: "pool_inv s L \<Longrightarrow> L' \<subseteq>\<^sub>m L \<Longrightarrow> pool_inv s L'"
proof -
  assume a: "pool_inv s L" "L' \<subseteq>\<^sub>m L"
  have "L p = Some n" if "L' p = Some n" for p n using a(2) that by (force simp: map_le_def)
  with a(1) show ?thesis by (elim pool_invE, intro pool_invI) blast+
qed

lemma sorted_wrt_pair: "sorted_wrt R xs \<Longrightarrow> x \<in> set xs \<Longrightarrow> z \<in> set xs \<Longrightarrow> x \<noteq> z \<Longrightarrow> R x z \<or> R z x"
  by (induction xs) auto

text \<open>The data of a used area is nobody else's.\<close>

lemma area_data_pos:
  assumes "node_wf n" "x \<in> set (hn_free n) \<union> set (hn_used n)"
  shows "y \<in> area_data x \<Longrightarrow> astart x + 8 \<le> unat y \<and> unat y < astart x + asize x"
    "unat (fst x + 8) = (astart x + 8) mod 2 ^ 32"
proof -
  note P = node_positions [OF assms]
  show "unat (fst x + 8) = (astart x + 8) mod 2 ^ 32" by (simp add: unat_word_ariths)
  assume y: "y \<in> area_data x"
  show "astart x + 8 \<le> unat y \<and> unat y < astart x + asize x"
  proof (cases "asize x = 8")
    case False
    then have l: "astart x + 8 < 2 ^ 32" using P(6,7) by linarith
    have "unat (fst x + of_nat 8) = astart x + 8" by (rule unat_add_32 [OF l])
    then have u: "unat (fst x + 8) = astart x + 8" by simp
    then show ?thesis using y region_linear [of "fst x + 8" "asize x - 8" y] P(6,7) unfolding area_data_def by auto
  qed (use y in \<open>simp add: area_data_def\<close>)
qed

lemma own_data_clear:
  assumes W: "node_wf n" and x: "x \<in> set (hn_used n)"
  shows "area_data x \<inter> (node_room n \<union> node_meta n) = {}"
proof -
  have xin: "x \<in> set (hn_free n) \<union> set (hn_used n)" using x by simp
  note P = node_positions [OF W xin]
  have far: "far x z" if "z \<in> set (hn_free n) \<union> set (hn_used n)" "z \<noteq> x" for z
    using sorted_wrt_pair [OF node_wfD(5) [OF W], of x z] far_sym [of x z] that x by auto
  have "y \<notin> node_room n \<union> node_meta n" if y: "y \<in> area_data x" for y
  proof -
    note q = area_data_pos(1) [OF W xin y]
    have hd: "y \<notin> region (hn_addr n) k" if "k \<le> 16" for k
    proof
      assume "y \<in> region (hn_addr n) k"
      then have "y \<in> region (hn_addr n) 16" using region_mono [OF that] by blast
      moreover have "unat (hn_addr n) + 16 \<le> 2 ^ 32" using P(5-7) by linarith
      ultimately show False using region_linear [of "hn_addr n" 16 y] q P(5) by linarith
    qed
    have ar: "y \<notin> region (fst z) k" if z: "z \<in> set (hn_free n) \<union> set (hn_used n)" and k: "k \<le> asize z" "z = x \<Longrightarrow> k = 8" for z k
    proof -
      have "astart z + k \<le> 2 ^ 32" using node_positions(6) [OF W z] k(1) by linarith
      note l = region_linear [OF this, of y]
      show ?thesis
      proof (cases "z = x")
        case True
        then show ?thesis using l q k(2) by simp
      next
        case False
        then show ?thesis using far [OF z False] l q k(1) unfolding far_def by linarith
      qed
    qed
    have fz: "z \<noteq> x" if z: "z \<in> set (hn_free n)" for z
    proof
      assume "z = x"
      then have "far x x"
        using node_wfD(5) [OF W] z x by (auto simp: sorted_wrt_append)
      then show False using P(7) by (simp add: far_def)
    qed
    have "y \<notin> region (fst z) (asize z)" if "z \<in> set (hn_free n)" for z using ar [of z "asize z"] fz [OF that] that by blast
    moreover have "y \<notin> region (fst z) 8" if "z \<in> set (hn_free n) \<union> set (hn_used n)" for z
      using ar [OF that, of 8] node_positions(7) [OF W that] by blast
    ultimately show ?thesis using hd [of 12] hd [of 16] unfolding node_room_def node_meta_def by auto
  qed
  then show ?thesis by blast
qed

lemma used_data_clear:
  assumes I: "heap_inv s ns P" and x: "x \<in> set (used_areas ns)"
  shows "area_data x \<inter> heap_foot s ns = {}" "0xC0000000 \<le> astart x" "astart x + asize x \<le> 2 ^ 32" "4 dvd astart x" "8 \<le> asize x"
proof -
  obtain n where n: "n \<in> set ns" "x \<in> set (hn_used n)" using x by (auto simp: used_areas_def)
  have xin: "x \<in> set (hn_free n) \<union> set (hn_used n)" using n(2) by simp
  note W = heap_invD(4) [OF I n(1)] and B = heap_invD(3) [OF I]
  note Q = node_positions [OF W xin]
  show "4 dvd astart x" "astart x + asize x \<le> 2 ^ 32" "8 \<le> asize x" using Q by blast+
  let ?b = "node_block n"
  have b: "?b \<in> set (map node_block ns @ P)" using n(1) by simp
  note p18 = blocks_okD(5) [OF B b]
  have "(1::nat) \<le> 2 ^ snd ?b" by simp
  then have "fst ?b < 2 ^ 18" using p18 by linarith
  then have "unat (hn_addr n) = 0xC0000000 + 4096 * fst ?b" using unat_vpage heap_invD(5) [OF I n(1)] by metis
  then show "0xC0000000 \<le> astart x" using Q(5) by linarith
  have sub: "area_data x \<subseteq> node_span n"
  proof
    fix y assume "y \<in> area_data x"
    from area_data_pos(1) [OF W xin this] show "y \<in> node_span n"
      unfolding node_span_linear [OF W] using Q by linarith
  qed
  have own: "node_span n \<inter> mm_own s = {}" unfolding node_span_block [OF I n(1)] by (rule blocks_okD(6) [OF B b])
  have av: "node_span n \<inter> page_bytes i = {}" if i: "i \<in> avail_pages s" for i
  proof -
    have "blk (fst ?b) (snd ?b) \<subseteq> held (map node_block ns @ P)" using b by (auto simp: held_def)
    then have ni: "i \<notin> blk (fst ?b) (snd ?b)" using i blocks_okD(2) [OF B] by blast
    have "i < total_pages s" "total_pages s \<le> 2 ^ 18" using i blocks_okD(3) [OF B] unfolding usable_def by blast+
    then have "i < 2 ^ 18" by linarith
    then have "page_bytes a \<inter> page_bytes i = {}" if "a \<in> blk (fst ?b) (snd ?b)" for a
      using that ni p18 by (intro page_bytes_disjoint) (auto simp: blk_def)
    then show ?thesis unfolding node_span_block [OF I n(1)] block_bytes_pages [OF p18] by blast
  qed
  have ot: "area_data x \<inter> (node_room k \<union> node_meta k) = {}" if k: "k \<in> set ns" for k
  proof (cases "k = n")
    case True
    then show ?thesis using own_data_clear [OF W n(2)] by simp
  next
    case False
    obtain as bs where ns: "ns = as @ n # bs" using split_list [OF n(1)] by blast
    then have "k \<in> set (as @ bs)" using k False by auto
    then have k': "node_block k \<in> set (map node_block as @ map node_block bs @ P)" by auto
    have "blocks_ok s (map node_block as @ node_block n # (map node_block bs @ P))" using B unfolding ns by simp
    from blocks_disjoint [OF this k'] have "node_span k \<inter> node_span n = {}"
      unfolding node_span_block [OF I k] node_span_block [OF I n(1)] .
    then show ?thesis using sub node_room_span [OF heap_invD(4) [OF I k]] node_meta_span [OF heap_invD(4) [OF I k]] by blast
  qed
  show "area_data x \<inter> heap_foot s ns = {}" unfolding heap_foot_def using sub own av ot by blast
qed

section \<open>Writes by the owners\<close>

lemma heap_inv_put:
  assumes I: "heap_inv s ns P" and e: "\<forall>y\<in>heap_foot s ns. m y = mem s y"
  shows "heap_inv (s\<lparr>mem := m\<rparr>) ns P" "heap_foot (s\<lparr>mem := m\<rparr>) ns = heap_foot s ns"
proof -
  have "mm_same s (s\<lparr>mem := m\<rparr>)" using e by (simp add: mm_same_def heap_foot_def)
  note S = mm_same_ok [OF heap_invD(1) [OF I] this] and S' = blocks_ok_same [OF heap_invD(1) [OF I] this]
  have "\<forall>n\<in>set ns. \<forall>y\<in>node_meta n. mem s y = m y"
  proof (intro ballI)
    fix n y assume "n \<in> set ns" "y \<in> node_meta n"
    then have "y \<in> heap_foot s ns" unfolding heap_foot_def by blast
    then show "mem s y = m y" using e by (simp only: simp_thms)
  qed
  from nodes_cong [OF this, of "malloc_list s"] show "heap_inv (s\<lparr>mem := m\<rparr>) ns P"
    using I S(1) unfolding heap_inv_def S' by simp
  show "heap_foot (s\<lparr>mem := m\<rparr>) ns = heap_foot s ns" unfolding heap_foot_def S(3,4) ..
qed

definition set_mem :: "memory \<Rightarrow> 'a mach_scheme \<Rightarrow> 'a mach_scheme" where
  "set_mem m s = s\<lparr>mem := m\<rparr>"

lemma pool_inv_put:
  assumes I: "pool_inv s L" and e: "\<forall>y. (\<forall>q l. L q = Some l \<longrightarrow> y \<notin> region q l) \<longrightarrow> m y = mem s y"
  shows "pool_inv (set_mem m s) L"
  using I
proof (rule pool_invE)
  fix ns P
  assume H: "heap_inv s ns P" "ns \<noteq> []" and d: "\<And>p n. L p = Some n \<Longrightarrow> region p n \<inter> heap_foot s ns = {}"
    and l: "\<And>p n. L p = Some n \<Longrightarrow> 0 < n \<and> 0xC0000000 \<le> unat p \<and> unat p + n \<le> 2 ^ 32 \<and> 4 dvd unat p"
    and a: "\<And>p n q l. L p = Some n \<Longrightarrow> L q = Some l \<Longrightarrow> p \<noteq> q \<Longrightarrow> region p n \<inter> region q l = {}"
  have "\<forall>y\<in>heap_foot s ns. m y = mem s y" using d e by blast
  note h = heap_inv_put [OF H(1) this]
  show ?thesis unfolding set_mem_def by (rule pool_invI [OF h(1) H(2)]) (use d l a in \<open>simp_all add: h(2)\<close>)
qed

lemma pool_inv_apart: "pool_inv s L \<Longrightarrow> L p = Some n \<Longrightarrow> L q = Some l \<Longrightarrow> p \<noteq> q \<Longrightarrow> region p n \<inter> region q l = {}"
  by (rule pool_invE) assumption+

lemma pool_inv_linear:
  "pool_inv s L \<Longrightarrow> L p = Some n \<Longrightarrow> 0 < n \<and> 0xC0000000 \<le> unat p \<and> unat p + n \<le> 2 ^ 32 \<and> 4 dvd unat p"
  by (rule pool_invE) assumption+

section \<open>kmalloc provides it\<close>

definition kmalloc_res :: "u32 \<Rightarrow> 'a heap_state_scheme \<Rightarrow> (addr \<times> 'a heap_state_scheme) option" where
  "kmalloc_res sz s = (case kmalloc sz s of Some (Inr r) \<Rightarrow> Some r | _ \<Rightarrow> None)"

definition small_size :: "u32 \<Rightarrow> bool" where
  "small_size sz \<longleftrightarrow> 0 < unat sz \<and> unat sz < 45056"

lemma pool_extend:
  assumes H: "heap_inv s' ns' P'" "ns' \<noteq> []" and f: "heap_foot s' ns' \<subseteq> heap_foot s ns"
    and d: "\<And>q l. L q = Some l \<Longrightarrow> region q l \<inter> heap_foot s ns = {}"
    and l: "\<And>q l. L q = Some l \<Longrightarrow> 0 < l \<and> 0xC0000000 \<le> unat q \<and> unat q + l \<le> 2 ^ 32 \<and> 4 dvd unat q"
    and a: "\<And>p n q l. L p = Some n \<Longrightarrow> L q = Some l \<Longrightarrow> p \<noteq> q \<Longrightarrow> region p n \<inter> region q l = {}"
    and p: "region p n \<subseteq> heap_foot s ns" "region p n \<inter> heap_foot s' ns' = {}"
      "0 < n \<and> 0xC0000000 \<le> unat p \<and> unat p + n \<le> 2 ^ 32 \<and> 4 dvd unat p"
  shows "pool_inv s' (L(p \<mapsto> n))" "L p = None"
proof -
  have fr: "region q l \<inter> region p n = {}" if "L q = Some l" for q l using d [OF that] p(1) by blast
  show "L p = None"
  proof (rule ccontr)
    assume "L p \<noteq> None"
    then obtain l' where l': "L p = Some l'" by blast
    have "p \<in> region p l'" "p \<in> region p n" using l [OF l'] p(3) by simp_all
    then show False using fr [OF l'] by blast
  qed
  show "pool_inv s' (L(p \<mapsto> n))"
  proof (rule pool_invI [OF H])
    fix q k assume q: "(L(p \<mapsto> n)) q = Some k"
    show "region q k \<inter> heap_foot s' ns' = {}"
      using q d [of q k] f p(2) by (cases "q = p") auto
    show "0 < k \<and> 0xC0000000 \<le> unat q \<and> unat q + k \<le> 2 ^ 32 \<and> 4 dvd unat q"
      using q l [of q k] p(3) by (cases "q = p") auto
    fix q' k' assume q': "(L(p \<mapsto> n)) q' = Some k'" "q \<noteq> q'"
    show "region q k \<inter> region q' k' = {}"
    proof (cases "q = p")
      case True
      have "k = n" using q unfolding True by simp
      moreover have "L q' = Some k'" using q' unfolding True by simp
      ultimately show ?thesis using fr [of q' k'] True by (simp add: Int_commute)
    next
      case ne: False
      then have k: "L q = Some k" using q by simp
      show ?thesis
      proof (cases "q' = p")
        case True
        have "k' = n" using q' unfolding True by simp
        then show ?thesis using fr [OF k] True by simp
      next
        case False
        then have "L q' = Some k'" using q' by simp
        from a [OF k this q'(2)] show ?thesis .
      qed
    qed
  qed
qed

interpretation km: block_pool kmalloc_res small_size unat pool_inv mem set_mem
proof unfold_locales
  fix s s' :: "'a heap_state_scheme" and L :: "addr \<rightharpoonup> nat" and sz p :: u32
  assume I: "pool_inv s L" and sz: "small_size sz" and al: "kmalloc_res sz s = Some (p, s')"
  from I obtain ns P where H: "heap_inv s ns P" "ns \<noteq> []" and d: "\<And>p n. L p = Some n \<Longrightarrow> region p n \<inter> heap_foot s ns = {}"
    and l: "\<And>p n. L p = Some n \<Longrightarrow> 0 < n \<and> 0xC0000000 \<le> unat p \<and> unat p + n \<le> 2 ^ 32 \<and> 4 dvd unat p"
    and a: "\<And>p n q l. L p = Some n \<Longrightarrow> L q = Some l \<Longrightarrow> p \<noteq> q \<Longrightarrow> region p n \<inter> region q l = {}"
    by (rule pool_invE) blast
  have lt: "unat sz < 45056" using sz by (simp add: small_size_def)
  have "\<exists>x s' ns'. kmalloc_gives sz s ns P x s' ns'"
    using kmalloc_outcome [OF lt H] al by (auto simp: kmalloc_res_def split: if_splits)
  then obtain x s1 ns' where g: "kmalloc_gives sz s ns P x s1 ns'" by blast
  then have s1: "s1 = s'" "p = fst x + 8" using al by (simp_all add: kmalloc_gives_def kmalloc_res_def)
  note G = g [unfolded kmalloc_gives_def s1]
  have "set_mset (mset (used_areas ns')) = set_mset (add_mset x (mset (used_areas ns)))" using G by simp
  then have xin: "x \<in> set (used_areas ns')" by simp
  have H': "heap_inv s' ns' P" "ns' \<noteq> []" "heap_foot s' ns' \<subseteq> heap_foot s ns" using G by blast+
  note U = used_data_clear [OF H'(1) xin]
  have n: "unat sz + 8 \<le> asize x" "0 < unat sz" using G real_size_bounds(4) [OF lt] sz by (simp_all add: small_size_def)
  have "unat (fst x + of_nat 8) = astart x + 8" using U(3) n by (intro unat_add_32) linarith
  then have u: "unat p = astart x + 8" using s1 by simp
  have sub: "region p (unat sz) \<subseteq> area_data x" unfolding s1 area_data_def using n by (intro region_mono) linarith
  have sub': "area_data x \<subseteq> region (fst x) (asize x)" unfolding area_data_def using U(5) by (intro region_offset_subset) simp
  have "4 dvd unat p" unfolding u using U(4) by (intro dvd_add) simp_all
  then have lin: "0 < unat sz \<and> 0xC0000000 \<le> unat p \<and> unat p + unat sz \<le> 2 ^ 32 \<and> 4 dvd unat p"
    unfolding u using U(2,3) n by simp
  have r: "region p (unat sz) \<subseteq> heap_foot s ns" "region p (unat sz) \<inter> heap_foot s' ns' = {}"
    using sub sub' U(1) G by blast+
  note e = pool_extend [OF H' d l a r lin]
  have "\<forall>q l. L q = Some l \<longrightarrow> (\<forall>y\<in>region q l. mem s' y = mem s y)" using G d by blast
  then show "pool_inv s' (L(p \<mapsto> unat sz)) \<and> L p = None \<and> (\<forall>q l. L q = Some l \<longrightarrow> (\<forall>y\<in>region q l. mem s' y = mem s y))"
    using e by blast
qed (rule pool_inv_apart pool_inv_linear pool_inv_put; assumption | simp add: set_mem_def)+

section \<open>alloc_pages provides it\<close>

definition page_res :: "u32 \<Rightarrow> 'a heap_state_scheme \<Rightarrow> (addr \<times> 'a heap_state_scheme) option" where
  "page_res order s = (case alloc_pages order s of Inr (page, s') \<Rightarrow> Some (page_to_vir page s', s') | Inl e \<Rightarrow> None)"

definition small_order :: "u32 \<Rightarrow> bool" where
  "small_order order \<longleftrightarrow> unat order \<le> 10"

definition block_len :: "u32 \<Rightarrow> nat" where
  "block_len order = 4096 * 2 ^ unat order"

lemma disjoint_blocks_move: "disjoint_blocks (b # as @ bs) \<longleftrightarrow> disjoint_blocks (as @ b # bs)"
  by (induction as) (auto simp: Int_commute)

lemma blocks_ok_move: "blocks_ok s (b # as @ bs) \<longleftrightarrow> blocks_ok s (as @ b # bs)"
proof -
  have "held (b # as @ bs) = held (as @ b # bs)" by (auto simp: held_def)
  then show ?thesis unfolding blocks_ok_def disjoint_blocks_move by auto
qed

text \<open>An allocation of pages keeps the heap; its block leaves the bytes of the allocators.\<close>

lemma alloc_heap_inv:
  assumes I: "heap_inv s ns P" and k: "k \<le> 10" and al: "alloc_pages (of_nat k) s = Inr (page, s1)"
  obtains j where "page_to_vir page s1 = vpage j" "j + 2 ^ k \<le> 2 ^ 18" "heap_inv s1 ns ((j, k) # P)"
    "block_bytes j k \<subseteq> heap_foot s ns" "heap_foot s1 ns \<subseteq> heap_foot s ns" "block_bytes j k \<inter> heap_foot s1 ns = {}"
    "\<forall>y. y \<notin> mm_own s \<longrightarrow> mem s1 y = mem s y"
proof -
  obtain j where j: "page = pg (mem_map s) j" "page_to_vir page s1 = vpage j" "blk j k \<subseteq> avail_pages s" "j + 2 ^ k \<le> 2 ^ 18"
    "mm_ok s1" "mm_frame s s1" "avail_pages s1 = avail_pages s - blk j k" "blocks_ok s1 ((j, k) # map node_block ns @ P)"
    "block_bytes j k \<inter> mm_own s = {}" by (rule alloc_block [OF heap_invD(1) [OF I] k heap_invD(3) [OF I] al])
  have B: "blocks_ok s1 (map node_block ns @ (j, k) # P)" using j(8) by (simp add: blocks_ok_move)
  have own: "mm_own s1 = mm_own s" by (rule mm_frame_globals(11) [OF j(6)])
  have fr: "\<forall>y. y \<notin> mm_own s \<longrightarrow> mem s1 y = mem s y" using mm_frame_globals(10) [OF j(6)] by blast
  have sp: "node_span n \<inter> mm_own s = {}" "node_span n \<inter> block_bytes j k = {}" if n: "n \<in> set ns" for n
  proof -
    have "node_block n \<in> set (map node_block ns @ P)" using n by simp
    then show "node_span n \<inter> mm_own s = {}" "node_span n \<inter> block_bytes j k = {}"
      unfolding node_span_block [OF I n]
      using blocks_okD(6) [OF heap_invD(3) [OF I]] blocks_disjoint [of s1 "[]" "(j, k)" "map node_block ns @ P"] j(8) by auto
  qed
  have "\<forall>n\<in>set ns. \<forall>y\<in>node_meta n. mem s y = mem s1 y"
  proof (intro ballI)
    fix n y assume n: "n \<in> set ns" and y: "y \<in> node_meta n"
    then have "y \<notin> mm_own s" using node_meta_span [OF heap_invD(4) [OF I n]] sp(1) [OF n] by blast
    then show "mem s y = mem s1 y" using fr by simp
  qed
  from nodes_cong [OF this, of "malloc_list s"] have inv: "heap_inv s1 ns ((j, k) # P)"
    using I B j(5) heap_frame_list [OF j(6)] unfolding heap_inv_def by simp
  have sub: "block_bytes j k \<subseteq> heap_foot s ns" "heap_foot s1 ns \<subseteq> heap_foot s ns"
    using j(3,7) own unfolding block_bytes_pages [OF j(4)] heap_foot_def by blast+
  have av: "block_bytes j k \<inter> page_bytes i = {}" if "i \<in> avail_pages s1" for i
  proof -
    have i: "i \<in> avail_pages s" "i \<notin> blk j k" using that j(7) by blast+
    have "i < total_pages s" "total_pages s \<le> 2 ^ 18"
      using i(1) blocks_okD(3) [OF heap_invD(3) [OF I]] unfolding usable_def by blast+
    then have "i < 2 ^ 18" by linarith
    then have "page_bytes a \<inter> page_bytes i = {}" if "a \<in> blk j k" for a
      using that i(2) j(4) by (intro page_bytes_disjoint) (auto simp: blk_def)
    then show ?thesis unfolding block_bytes_pages [OF j(4)] by blast
  qed
  have nd: "block_bytes j k \<inter> (node_room n \<union> node_meta n) = {}" if n: "n \<in> set ns" for n
    using sp(2) [OF n] node_room_span [OF heap_invD(4) [OF I n]] node_meta_span [OF heap_invD(4) [OF I n]] by blast
  have "block_bytes j k \<inter> heap_foot s1 ns = {}" unfolding heap_foot_def own using j(9) av nd by blast
  then show thesis using that [OF j(2,4) inv sub _ fr] by blast
qed

interpretation pp: block_pool page_res small_order block_len pool_inv mem set_mem
proof unfold_locales
  fix s s' :: "'a heap_state_scheme" and L :: "addr \<rightharpoonup> nat" and sz p :: u32
  assume I: "pool_inv s L" and sz: "small_order sz" and al: "page_res sz s = Some (p, s')"
  from I obtain ns P where H: "heap_inv s ns P" "ns \<noteq> []" and d: "\<And>p n. L p = Some n \<Longrightarrow> region p n \<inter> heap_foot s ns = {}"
    and l: "\<And>p n. L p = Some n \<Longrightarrow> 0 < n \<and> 0xC0000000 \<le> unat p \<and> unat p + n \<le> 2 ^ 32 \<and> 4 dvd unat p"
    and a: "\<And>p n q l. L p = Some n \<Longrightarrow> L q = Some l \<Longrightarrow> p \<noteq> q \<Longrightarrow> region p n \<inter> region q l = {}"
    by (rule pool_invE) blast
  let ?k = "unat sz"
  have k: "?k \<le> 10" using sz by (simp add: small_order_def)
  obtain page where pg: "alloc_pages (of_nat ?k) s = Inr (page, s')" "p = page_to_vir page s'"
    using al by (auto simp: page_res_def split: sum.splits)
  obtain j where j: "page_to_vir page s' = vpage j" "j + 2 ^ ?k \<le> 2 ^ 18" "heap_inv s' ns ((j, ?k) # P)"
    "block_bytes j ?k \<subseteq> heap_foot s ns" "heap_foot s' ns \<subseteq> heap_foot s ns" "block_bytes j ?k \<inter> heap_foot s' ns = {}"
    "\<forall>y. y \<notin> mm_own s \<longrightarrow> mem s' y = mem s y" by (rule alloc_heap_inv [OF H(1) k pg(1)])
  have q: "(1::nat) \<le> 2 ^ ?k" by simp
  then have "j < 2 ^ 18" using j(2) by linarith
  from unat_vpage [OF this] have u: "unat p = 0xC0000000 + 4096 * j" using pg(2) j(1) by simp
  have bl: "region p (block_len sz) = block_bytes j ?k" using pg(2) j(1) by (simp add: block_bytes_def block_len_def)
  have "4 dvd unat p" unfolding u by (intro dvd_add dvd_mult2) simp_all
  then have lin: "0 < block_len sz \<and> 0xC0000000 \<le> unat p \<and> unat p + block_len sz \<le> 2 ^ 32 \<and> 4 dvd unat p"
    using j(2) unfolding block_len_def u by simp
  note e = pool_extend [OF j(3) H(2) j(5) d l a j(4) [folded bl] j(6) [folded bl] lin]
  have "mm_own s \<subseteq> heap_foot s ns" by (auto simp: heap_foot_def)
  then have "\<forall>q l. L q = Some l \<longrightarrow> (\<forall>y\<in>region q l. mem s' y = mem s y)" using j(7) d by blast
  then show "pool_inv s' (L(p \<mapsto> block_len sz)) \<and> L p = None \<and> (\<forall>q l. L q = Some l \<longrightarrow> (\<forall>y\<in>region q l. mem s' y = mem s y))"
    using e by blast
qed (rule pool_inv_apart pool_inv_linear pool_inv_put; assumption | simp add: set_mem_def)+

section \<open>States that differ elsewhere\<close>

text \<open>The invariant looks only at the memory and at the globals of the two allocators.\<close>

definition heap_same :: "'a heap_state_scheme \<Rightarrow> 'b heap_state_scheme \<Rightarrow> bool" where
  "heap_same s s' \<longleftrightarrow> mem s' = mem s \<and> free_area s' = free_area s \<and> mem_map s' = mem_map s \<and>
     page_count s' = page_count s \<and> free_page_count s' = free_page_count s \<and> malloc_list s' = malloc_list s"

lemma pool_inv_same:
  fixes s s' :: "'a heap_state_scheme"
  assumes I: "pool_inv s L" and e: "heap_same s s'"
  shows "pool_inv s' L"
  using I
proof (rule pool_invE)
  fix ns P
  assume H: "heap_inv s ns P" "ns \<noteq> []" and d: "\<And>p n. L p = Some n \<Longrightarrow> region p n \<inter> heap_foot s ns = {}"
    and l: "\<And>p n. L p = Some n \<Longrightarrow> 0 < n \<and> 0xC0000000 \<le> unat p \<and> unat p + n \<le> 2 ^ 32 \<and> 4 dvd unat p"
    and a: "\<And>p n q l. L p = Some n \<Longrightarrow> L q = Some l \<Longrightarrow> p \<noteq> q \<Longrightarrow> region p n \<inter> region q l = {}"
  have "mm_same s s'" using e by (simp add: mm_same_def heap_same_def)
  note S = mm_same_ok [OF heap_invD(1) [OF H(1)] this] and S' = blocks_ok_same [OF heap_invD(1) [OF H(1)] this]
  have "heap_inv s' ns P" using H(1) S(1) e unfolding heap_inv_def S' by (simp add: heap_same_def)
  then show ?thesis by (rule pool_invI [OF _ H(2)]) (use d l a in \<open>simp_all add: heap_foot_def S(3,4)\<close>)
qed

text \<open>A page of zeros.\<close>

lemma alloc_page_zero_block:
  assumes I: "pool_inv s L" and al: "alloc_page_zero s = Inr (page, s')"
  defines "p \<equiv> page_to_vir page s'"
  shows "pool_inv s' (L(p \<mapsto> 4096))" "L p = None" "y \<in> region p 4096 \<Longrightarrow> mem s' y = 0"
    "L q = Some l \<Longrightarrow> y \<in> region q l \<Longrightarrow> mem s' y = mem s y"
proof -
  obtain s1 where s1: "alloc_pages 0 s = Inr (page, s1)" "s' = s1\<lparr>mem := memset (page_to_vir page s1) 0 PAGE_SIZE (mem s1)\<rparr>"
    using al by (auto simp: alloc_page_zero_def bindE_def split: sum.splits)
  have p: "page_to_vir page s1 = p" unfolding p_def s1(2) by (simp add: page_to_vir_def)
  have r: "page_res 0 s = Some (p, s1)" using s1(1) p by (simp add: page_res_def)
  have ok: "small_order 0" by (simp add: small_order_def)
  have e: "s' = set_mem (memset p 0 PAGE_SIZE (mem s1)) s1" unfolding s1(2) p set_mem_def ..
  have ms: "memset p 0 PAGE_SIZE (mem s1) z = (if z \<in> region p 4096 then 0 else mem s1 z)" for z
    by (simp add: memset_apply)
  then have out: "\<forall>z. z \<notin> region p (block_len 0) \<longrightarrow> memset p 0 PAGE_SIZE (mem s1) z = mem s1 z"
    by (simp add: block_len_def)
  note a = pp.alloc_put [OF I ok r out, folded e]
  show "pool_inv s' (L(p \<mapsto> 4096))" "L p = None" using a(1,2) by (simp_all add: block_len_def)
  show "y \<in> region p 4096 \<Longrightarrow> mem s' y = 0" unfolding e set_mem_def using ms by simp
  show "L q = Some l \<Longrightarrow> y \<in> region q l \<Longrightarrow> mem s' y = mem s y" by (rule a(3))
qed

end
