(* ===== verification/PoolSteps.thy ===== *)
theory PoolSteps
  imports KPool
begin

text \<open>
  The two allocators for a client: each call either fails with the out-of-memory \<open>BUG\<close> or returns a fresh
  block, and it changes no global of its client.
\<close>

section \<open>Globals\<close>

definition heap_frame :: "'a heap_state_scheme \<Rightarrow> 'a heap_state_scheme \<Rightarrow> bool" where
  "heap_frame s s' \<longleftrightarrow> s' = s\<lparr>mem := mem s', free_page_count := free_page_count s', malloc_list := malloc_list s'\<rparr>"

lemma heap_frame_refl [simp]: "heap_frame s s"
  by (simp add: heap_frame_def)

lemma heap_frame_trans: "heap_frame s t \<Longrightarrow> heap_frame t u \<Longrightarrow> heap_frame s u"
proof -
  assume "heap_frame s t" "heap_frame t u"
  then obtain m c l m' c' l' where "t = s\<lparr>mem := m, free_page_count := c, malloc_list := l\<rparr>"
    "u = t\<lparr>mem := m', free_page_count := c', malloc_list := l'\<rparr>" unfolding heap_frame_def by blast
  then show "heap_frame s u" by (simp add: heap_frame_def)
qed

lemma heap_frame_mem [simp]: "heap_frame s (s\<lparr>mem := m\<rparr>)" "heap_frame s (s\<lparr>mem := m, malloc_list := l\<rparr>)" "heap_frame s (s\<lparr>malloc_list := l\<rparr>)"
  by (simp_all add: heap_frame_def)

lemma alloc_loop_frame:
  fixes s :: "'a mm_state_scheme"
  shows "\<exists>page m c. alloc_loop order curr_order area s = (page, s\<lparr>mem := m, free_page_count := c\<rparr>)"
proof (induction order curr_order area s rule: alloc_loop.induct)
  case (1 order curr_order area s)
  show ?case
  proof (cases "nxt (mem s) area \<noteq> area")
    case True
    have c: "\<exists>ma c. s\<lparr>free_page_count := x, mem := m\<rparr> = s\<lparr>mem := ma, free_page_count := c\<rparr>" for x m
      by (intro exI [of _ m] exI [of _ x]) simp
    show ?thesis using True by (subst alloc_loop.simps) (auto simp: Let_def c split: prod.split)
  next
    case False
    show ?thesis
    proof (cases "curr_order + 1 \<le> MAX_ORDER - 1")
      case True
      then show ?thesis using 1 [OF refl refl] False by (subst alloc_loop.simps) (simp add: Let_def)
    next
      case no: False
      have "alloc_loop order curr_order area s = (0, s)" using False no by (subst alloc_loop.simps) (simp add: Let_def)
      then show ?thesis by (intro exI [of _ 0] exI [of _ "mem s"] exI [of _ "free_page_count s"]) simp
    qed
  qed
qed

lemma alloc_pages_frame:
  fixes s :: "'a heap_state_scheme"
  assumes "alloc_pages order s = Inr (page, s')"
  shows "heap_frame s s'"
proof -
  obtain page m c where "alloc_loop order order (free_area s + 12 * order) s = (page, s\<lparr>mem := m, free_page_count := c\<rparr>)"
    using alloc_loop_frame by blast
  then have "s' = s\<lparr>mem := m, free_page_count := c\<rparr>"
    using assms by (simp add: alloc_pages_def alloc_pages_aux_def split: if_splits)
  then show ?thesis by (simp add: heap_frame_def)
qed

lemma new_malloc_node_frame:
  fixes s :: "'a heap_state_scheme"
  assumes "new_malloc_node order s = Inr (mnp, s')"
  shows "heap_frame s s'"
proof -
  obtain page s1 where s1: "alloc_pages order s = Inr (page, s1)" using assms by (auto simp: new_malloc_node_def bindE_Inr_iff)
  then have "\<exists>m. s' = s1\<lparr>mem := m\<rparr>" using assms by (auto simp: new_malloc_node_def Let_def)
  then show ?thesis using heap_frame_trans [OF alloc_pages_frame [OF s1]] by auto
qed

lemma kmalloc_frame:
  fixes s :: "'a heap_state_scheme"
  assumes "kmalloc sz s = Some (Inr (p, s'))"
  shows "heap_frame s s'"
proof -
  have "\<forall>p s'. r = Inr (p, s') \<longrightarrow> heap_frame s s'" if "kmalloc sz s = Some r" for r
    using that
  proof (induction rule: kmalloc.raw_induct [rotated, consumes 1, where P = "\<lambda>sz s r. \<forall>p s'. r = Inr (p, s') \<longrightarrow> heap_frame s s'"])
    case (1 km sz s r)
    show ?case
    proof (intro allI impI)
      fix p s' assume r: "r = Inr (p, s')"
      obtain mnp ma ma_last where f: "find_node (mem s) (drop_bit 12 sz) (LONG_ALIGN (sz + 8)) (malloc_list s) = Some (mnp, ma, ma_last)"
        "malloc_list s \<noteq> 0"
        using 1(2) r by (auto simp: Let_def bind_eq_Some_conv split: if_splits)
      show "heap_frame s s'"
      proof (cases "ma = 0")
        case False
        then show ?thesis using 1(2) r f by (auto simp: Let_def)
      next
        case True
        show ?thesis
        proof (cases "new_malloc_node (drop_bit 12 sz) s")
          case (Inl e)
          then show ?thesis using 1(2) r f True by (simp add: Let_def)
        next
          case (Inr x)
          obtain mnp s1 where x: "x = (mnp, s1)" by fastforce
          have s1: "heap_frame s s1" using Inr x new_malloc_node_frame by blast
          show ?thesis
          proof (cases "mnp = 0")
            case True
            then show ?thesis using 1(2) r f \<open>ma = 0\<close> Inr x s1 by (simp add: Let_def)
          next
            case False
            let ?s = "s1\<lparr>mem := st32 (mem s1) (node_next mnp) (malloc_list s1), malloc_list := mnp\<rparr>"
            have "km sz ?s = Some r" using 1(2) r f \<open>ma = 0\<close> Inr x False by (simp add: Let_def)
            then have "heap_frame ?s s'" using 1(1) r by blast
            then show ?thesis by (rule heap_frame_trans [OF heap_frame_trans [OF s1 heap_frame_mem(2)]])
          qed
        qed
      qed
    qed
  qed
  then show ?thesis using assms by blast
qed

section \<open>Calls\<close>

lemma kmalloc_returns:
  assumes I: "pool_inv s L" and sz: "small_size sz"
  obtains (fail) "kmalloc sz s = Some (Inl (Bug ''memory alloc failed''))"
  | (ok) p s' where "kmalloc sz s = Some (Inr (p, s'))" "pool_inv s' (L(p \<mapsto> unat sz))" "L p = None" "heap_frame s s'"
      "\<And>q l y. L q = Some l \<Longrightarrow> y \<in> region q l \<Longrightarrow> mem s' y = mem s y"
proof -
  obtain ns P where H: "heap_inv s ns P" "ns \<noteq> []" using I by (rule pool_invE)
  have "unat sz < 45056" using sz by (simp add: small_size_def)
  from kmalloc_outcome [OF this H] consider "kmalloc sz s = Some (Inl (Bug ''memory alloc failed''))"
    | x s' ns' where "kmalloc_gives sz s ns P x s' ns'" by (auto split: if_splits)
  then show thesis
  proof cases
    case 2
    then have k: "kmalloc sz s = Some (Inr (fst x + 8, s'))" by (simp add: kmalloc_gives_def)
    then have "kmalloc_res sz s = Some (fst x + 8, s')" by (simp add: kmalloc_res_def)
    from km.alloc_fresh [OF I sz this] show thesis using k kmalloc_frame [OF k] by (intro ok) blast+
  qed (rule fail)
qed

lemma alloc_pages_returns:
  assumes I: "pool_inv s L" and k: "small_order k"
  obtains (fail) "alloc_pages k s = Inl (Bug ''memory alloc failed'')"
  | (ok) page s' where "alloc_pages k s = Inr (page, s')" "pool_inv s' (L(page_to_vir page s' \<mapsto> block_len k))"
      "L (page_to_vir page s') = None" "heap_frame s s'"
      "\<And>q l y. L q = Some l \<Longrightarrow> y \<in> region q l \<Longrightarrow> mem s' y = mem s y"
proof (cases "alloc_pages k s")
  case (Inl e)
  have "unat k \<le> 10" using k by (simp add: small_order_def)
  then have "\<not> k > MAX_ORDER" by (simp add: word_less_nat_alt)
  then have "e = Bug ''memory alloc failed''" using Inl by (auto simp: alloc_pages_def split: prod.splits if_splits)
  then show thesis using Inl fail by simp
next
  case (Inr r)
  obtain page s' where r: "alloc_pages k s = Inr (page, s')" using Inr by (cases r) auto
  then have "page_res k s = Some (page_to_vir page s', s')" by (simp add: page_res_def)
  from pp.alloc_fresh [OF I k this] show thesis using r alloc_pages_frame [OF r] by (intro ok) blast+
qed

text \<open>A client writes to its blocks.\<close>

lemma pool_write:
  assumes "pool_inv s L" "\<And>y. (\<And>q l. L q = Some l \<Longrightarrow> y \<notin> region q l) \<Longrightarrow> m y = mem s y"
  shows "pool_inv (s\<lparr>mem := m\<rparr>) L"
  using pool_inv_put [of s L m] assms by (auto simp: set_mem_def)

end
