(* ===== verification/KHeapProps.thy ===== *)
theory KHeapProps
  imports PoolSteps PhysMap PageProps
begin

text \<open>
  The memory management as a whole: \<open>mm_init\<close> maps the memory, sets up the page allocator and gives the
  kernel heap its first node. The properties of \<open>kmalloc\<close> and \<open>kfree\<close> follow, with a machine of 16 MB
  that shows that their hypotheses hold.
\<close>

section \<open>Initialisation\<close>

definition mm_init :: "u32 \<Rightarrow> 'a heap_state_scheme \<Rightarrow> (fault + 'a heap_state_scheme) option" where
  "mm_init mem_size s =
     (let page_cnt = drop_bit 2 mem_size
      in Option.bind (map_all_memory page_cnt s) (\<lambda>s. Some (kmalloc_init (buddy_system_init page_cnt s))))"

lemma buddy_init_list:
  assumes "boot_ok page_cnt s"
  shows "malloc_list (buddy_system_init page_cnt s) = malloc_list s"
proof -
  obtain m where t: "boot_tables page_cnt s = s\<lparr>mem := m, mem_map := bm_at (LONG_ALIGN (img_end s)) page_cnt 11,
      mem_map_end := tables_end page_cnt s,
      img_end := PAGE_ALIGN (tables_end page_cnt s + 0xfff), page_count := page_cnt, free_page_count := 0\<rparr>"
    using boot_tables_mem [OF assms] by blast
  have "malloc_list (boot_tables page_cnt s) = malloc_list s" unfolding t by simp
  then show ?thesis using heap_frame_list [OF buddy_system_init_correct(5) [OF assms]] by simp
qed

lemma heap_start:
  assumes ok: "boot_ok page_cnt s" and z: "malloc_list s = 0"
  shows "heap_inv (buddy_system_init page_cnt s) [] []"
proof -
  let ?s = "buddy_system_init page_cnt s"
  note b = buddy_system_init_correct [OF ok]
  have "page_bytes i \<inter> mm_own ?s = {}" if "i \<in> avail_pages ?s" for i
    using free_pages_clear [OF ok] that b(2) by simp
  then have "usable ?s (avail_pages ?s)" using b(2,3) boot_bounds(2) [OF ok] by (simp add: usable_def)
  then show ?thesis
    using b(1) buddy_init_list [OF ok] z by (simp add: heap_inv_def blocks_ok_def held_def)
qed

text \<open>The first node.\<close>

lemma kmalloc_init_ok:
  assumes I: "heap_inv s [] []" and al: "alloc_pages 0 s = Inr (page, s1)"
  obtains j s' where "kmalloc_init s = Inr s'" "heap_inv s' [fresh_node (vpage j) 0] []" "j \<in> avail_pages s"
    "avail_pages s' = avail_pages s - {j}" "mm_own s' = mm_own s" "\<forall>y. y \<notin> mm_own s \<union> block_bytes j 0 \<longrightarrow> mem s' y = mem s y"
proof -
  have k: "(0::nat) \<le> 10" and al': "alloc_pages (of_nat 0) s = Inr (page, s1)" using al by simp_all
  obtain j s2 where j: "new_malloc_node (of_nat 0) s = Inr (vpage j, s2)" "blk j 0 \<subseteq> avail_pages s" "j + 2 ^ 0 \<le> (2 ^ 18 :: nat)"
    "mm_ok s2" "mm_own s2 = mm_own s" "avail_pages s2 = avail_pages s - blk j 0" "blocks_ok s2 ((j, 0) # map node_block [] @ [])"
    "block_bytes j 0 \<inter> mm_own s = {}" "malloc_list s2 = malloc_list s"
    "\<forall>y. y \<notin> mm_own s \<union> block_bytes j 0 \<longrightarrow> mem s2 y = mem s y"
    "node_rep (mem s2) (fresh_node (vpage j) 0)" "ld32 (mem s2) (vpage j + 12) = 0"
    by (rule new_node_step [OF heap_invD(1) [OF I] k heap_invD(3) [OF I] al'])
  let ?s = "s2\<lparr>malloc_list := vpage j\<rparr>"
  have b: "blk j 0 = {j}" by (auto simp: blk_def)
  have "mm_same s2 ?s" by (simp add: mm_same_def)
  note S = mm_same_ok [OF j(4) this] and S' = blocks_ok_same [OF j(4) this]
  have "nodes (mem ?s) (vpage j) [fresh_node (vpage j) 0]"
    using fresh_node_wf(3) [OF k j(3)] j(11,12) by (simp add: fresh_node_def)
  then have "heap_inv ?s [fresh_node (vpage j) 0] []"
    unfolding heap_inv_def S' using S(1) j(7) fresh_node_wf(1) [OF k j(3)] fresh_block [OF j(3)] by (simp add: fresh_node_def)
  moreover have "kmalloc_init s = Inr ?s" using j(1) by (simp add: kmalloc_init_def)
  ultimately show thesis using that [of ?s j] S(3,4) j(2,5,6,10) unfolding b by simp
qed

text \<open>The state \<open>buddy_system_init\<close> starts from: \<open>img_end\<close> is behind the page tables.\<close>

definition mapped_state :: "u32 \<Rightarrow> 'a mm_state_scheme \<Rightarrow> 'a mm_state_scheme" where
  "mapped_state page_cnt s = s\<lparr>img_end := PAGE_ALIGN (img_end_sym s) + of_nat (4096 * tables_for page_cnt)\<rparr>"

text \<open>
  The memory management starts up: with the page tables and the allocator's tables fitting behind the
  image, and at least one page left, \<open>mm_init\<close> returns with the heap's invariant: one node of one page,
  whose rest is one free area, and every other page above the tables is free. With no page left it ends in
  the out-of-memory \<open>BUG\<close>.
\<close>

theorem mm_init_establishes:
  assumes "image_ok (drop_bit 2 mem_size) s" "boot_ok (drop_bit 2 mem_size) (mapped_state (drop_bit 2 mem_size) s)"
    "malloc_list s = 0"
  defines "page_cnt \<equiv> drop_bit 2 mem_size"
  defines "f \<equiv> first_page page_cnt (mapped_state page_cnt s)"
  shows "if f < unat page_cnt
    then \<exists>s' j. mm_init mem_size s = Some (Inr s') \<and> heap_inv s' [fresh_node (vpage j) 0] [] \<and>
      j \<in> {f..<unat page_cnt} \<and> avail_pages s' = {f..<unat page_cnt} - {j}
    else mm_init mem_size s = Some (Inl (Bug ''memory alloc failed''))"
proof -
  obtain m where m: "map_all_memory page_cnt s = Some (s\<lparr>mem := m, img_end := img_end (mapped_state page_cnt s)\<rparr>)"
    using map_all_memory_ok(1) [OF assms(1), folded page_cnt_def] by (auto simp: mapped_state_def)
  let ?t = "s\<lparr>mem := m, img_end := img_end (mapped_state page_cnt s)\<rparr>"
  have ok: "boot_ok page_cnt ?t" using assms(2) by (simp add: boot_ok_def mapped_state_def page_cnt_def)
  have f: "first_page page_cnt ?t = f" by (simp add: f_def first_page_def tables_end_def mapped_state_def)
  let ?s = "buddy_system_init page_cnt ?t"
  have I: "heap_inv ?s [] []" using heap_start [OF ok] assms(3) by simp
  have av: "avail_pages ?s = {f..<unat page_cnt}" using buddy_system_init_correct(2) [OF ok] f by simp
  have e: "mm_init mem_size s = Some (kmalloc_init ?s)" by (simp add: mm_init_def m page_cnt_def [symmetric])
  note al = pa.alloc_iff [OF heap_invD(1) [OF I], of 0]
  have b: "blk j 0 = {j}" for j by (auto simp: blk_def)
  show ?thesis
  proof (cases "f < unat page_cnt")
    case True
    then have "page_alloc 0 ?s \<noteq> None" using al by (auto simp: b av)
    then obtain page s1 where pg: "alloc_pages 0 ?s = Inr (page, s1)" by (auto simp: page_alloc_def split: sum.splits)
    obtain j s' where "kmalloc_init ?s = Inr s'" "heap_inv s' [fresh_node (vpage j) 0] []" "j \<in> avail_pages ?s"
      "avail_pages s' = avail_pages ?s - {j}" by (rule kmalloc_init_ok [OF I pg]) blast
    then show ?thesis using True e av by auto
  next
    case False
    then have "\<not> (\<exists>j. 2 ^ 0 dvd j \<and> blk j 0 \<subseteq> avail_pages ?s)" by (simp add: b av)
    then have "page_alloc 0 ?s = None" using al by blast
    then have "alloc_pages 0 ?s = Inl (Bug ''memory alloc failed'')"
      using page_alloc_eq(1) [OF heap_invD(1) [OF I], of 0] alloc_pages_eq(1) [OF heap_invD(1) [OF I], of 0] by simp
    then show ?thesis using False e by (simp add: kmalloc_init_def new_malloc_node_def)
  qed
qed

text \<open>A machine with 16 MB.\<close>

definition heap16 :: heap_state where
  "heap16 = \<lparr>mem = (\<lambda>_. 0), io = [], dev = (\<lambda>_ _. 0), free_area = 0xC0011000, mem_map = 0, mem_map_end = 0,
     page_count = 0, free_page_count = 0, img_end = 0, kpagedir = 0xC0010000, img_end_sym = 0xC001FF00, malloc_list = 0\<rparr>"

lemma bm_off_4096: "bm_off 4096 11 = 524"
  by (simp add: bm_off_def numeral_eq_Suc) (simp add: bitmap_size_def ALIGN_def)

lemma heap16_ok: "image_ok 4096 heap16" "boot_ok 4096 (mapped_state 4096 heap16)"
  "first_page 4096 (mapped_state 4096 heap16) = 49"
  by (simp_all add: image_ok_def heap16_def tables_for_def mapped_state_def boot_ok_def bm_off_4096 ALIGN_def
      first_page_def tables_end_def bm_at_def)

theorem mm_init_establishes_witness:
  "\<exists>s' j. mm_init 16384 heap16 = Some (Inr s') \<and> heap_inv s' [fresh_node (vpage j) 0] [] \<and>
    j \<in> {49..<4096} \<and> avail_pages s' = {49..<4096} - {j}"
proof -
  have p: "drop_bit 2 (16384 :: u32) = 4096" by simp
  show ?thesis
    using mm_init_establishes [of 16384 heap16] heap16_ok unfolding p by (simp add: heap16_def)
qed

section \<open>Allocating bytes\<close>

text \<open>
  C9. \<open>kmalloc\<close> always ends, for every size below 11 pages: when an area is large enough, or when a new node
  would hold the size and the page allocator has a block for it, it returns an area of the size, aligned
  to words, taken from bytes of the allocators; every other used area stays, the heap's invariant
  holds, and no byte outside the allocators' own changes. Otherwise it ends in the out-of-memory
  \<open>BUG\<close>, after it has turned all free pages of the order into nodes that cannot hold the size.
\<close>

theorem kmalloc_correct:
  assumes "unat sz < 45056" "heap_inv s ns P" "ns \<noteq> []"
  shows "if has_room sz ns \<or> node_holds sz \<and> (\<exists>j. 2 ^ size_order sz dvd j \<and> blk j (size_order sz) \<subseteq> avail_pages s)
    then \<exists>x s' ns'. kmalloc sz s = Some (Inr (fst x + 8, s')) \<and> unat sz + 8 \<le> asize x \<and> 4 dvd astart x \<and>
      heap_inv s' ns' P \<and> mset (used_areas ns') = add_mset x (mset (used_areas ns)) \<and>
      region (fst x) (asize x) \<subseteq> heap_foot s ns \<and> heap_foot s' ns' \<subseteq> heap_foot s ns \<and>
      (\<forall>y. y \<notin> heap_foot s ns \<longrightarrow> mem s' y = mem s y)
    else kmalloc sz s = Some (Inl (Bug ''memory alloc failed''))"
proof -
  have "4 dvd astart x \<and> unat sz + 8 \<le> asize x" if g: "kmalloc_gives sz s ns P x s' ns'" for x s' ns'
  proof -
    have "set_mset (mset (used_areas ns')) = set_mset (add_mset x (mset (used_areas ns)))" "heap_inv s' ns' P" "snd x = real_size sz"
      using g by (simp_all add: kmalloc_gives_def)
    then show ?thesis using used_data_clear(4) [of s' ns' P x] real_size_bounds(4) [OF assms(1)] by simp
  qed
  then have "\<exists>x s' ns'. kmalloc sz s = Some (Inr (fst x + 8, s')) \<and> unat sz + 8 \<le> asize x \<and> 4 dvd astart x \<and>
      heap_inv s' ns' P \<and> mset (used_areas ns') = add_mset x (mset (used_areas ns)) \<and>
      region (fst x) (asize x) \<subseteq> heap_foot s ns \<and> heap_foot s' ns' \<subseteq> heap_foot s ns \<and>
      (\<forall>y. y \<notin> heap_foot s ns \<longrightarrow> mem s' y = mem s y)" if "\<exists>x s' ns'. kmalloc_gives sz s ns P x s' ns'"
    using that unfolding kmalloc_gives_def by blast
  then show ?thesis using kmalloc_outcome [OF assms] by presburger
qed

text \<open>The allocators of the 16 MB machine, started.\<close>

text \<open>Any state with a page behind the tables starts in the same way.\<close>

lemma heap_started:
  fixes s :: "'a heap_state_scheme" and page_cnt :: u32
  defines "f \<equiv> first_page page_cnt s"
  assumes ok: "boot_ok page_cnt s" "f < unat page_cnt" "malloc_list s = 0"
  obtains s' j where "kmalloc_init (buddy_system_init page_cnt s) = Inr s'"
    "heap_inv s' [fresh_node (vpage j) 0] []" "avail_pages s' = {f..<unat page_cnt} - {j}" "j \<in> {f..<unat page_cnt}"
    "mm_own s' = mm_own (buddy_system_init page_cnt s)" "heap_frame (buddy_system_init page_cnt s) s'"
    "\<forall>y. y \<notin> mm_own (buddy_system_init page_cnt s) \<union> block_bytes j 0 \<longrightarrow> mem s' y = mem (buddy_system_init page_cnt s) y"
proof -
  let ?s = "buddy_system_init page_cnt s"
  have I: "heap_inv ?s [] []" by (rule heap_start [OF ok(1,3)])
  have av: "avail_pages ?s = {f..<unat page_cnt}" using buddy_system_init_correct(2) [OF ok(1)] f_def by simp
  have "blk f 0 \<subseteq> avail_pages ?s" using ok(2) by (simp add: blk_def av)
  then have "page_alloc 0 ?s \<noteq> None" using pa.alloc_iff [OF heap_invD(1) [OF I], of 0] by auto
  then obtain page s1 where pg: "alloc_pages 0 ?s = Inr (page, s1)" by (auto simp: page_alloc_def split: sum.splits)
  obtain j s' where k: "kmalloc_init ?s = Inr s'" "heap_inv s' [fresh_node (vpage j) 0] []" "j \<in> avail_pages ?s"
    "avail_pages s' = avail_pages ?s - {j}" "mm_own s' = mm_own ?s" "\<forall>y. y \<notin> mm_own ?s \<union> block_bytes j 0 \<longrightarrow> mem s' y = mem ?s y"
    by (rule kmalloc_init_ok [OF I pg])
  then obtain r s2 where "new_malloc_node 0 ?s = Inr (r, s2)" "s' = s2\<lparr>malloc_list := r\<rparr>"
    by (auto simp: kmalloc_init_def bindE_Inr_iff)
  then have "heap_frame ?s s'" using heap_frame_trans [OF new_malloc_node_frame] by (metis heap_frame_mem(3))
  then show thesis using that [of s' j] k av by simp
qed

lemma heap16_started:
  obtains s j where "kmalloc_init (buddy_system_init 4096 (mapped_state 4096 heap16)) = Inr s"
    "heap_inv s [fresh_node (vpage j) 0] []" "avail_pages s = {49..<4096} - {j}"
  by (rule heap_started [OF heap16_ok(2), unfolded heap16_ok(3)]) (simp_all add: mapped_state_def heap16_def)

lemma fresh_has_room:
  assumes "unat sz < 4096" "unat (real_size sz) \<le> 4080"
  shows "has_room sz [fresh_node a 0]"
proof -
  have "size_order sz = 0" unfolding size_order_def using assms(1) by simp
  then show ?thesis using assms by (simp add: has_room_def fits_def fresh_node_def word_le_nat_alt)
qed

theorem kmalloc_correct_witness:
  "\<exists>s x s'. kmalloc_init (buddy_system_init 4096 (mapped_state 4096 heap16)) = Inr s \<and>
    kmalloc 312 s = Some (Inr (fst x + 8, s')) \<and> 320 \<le> asize x \<and> 4 dvd astart x"
proof -
  obtain s j where s: "kmalloc_init (buddy_system_init 4096 (mapped_state 4096 heap16)) = Inr s"
    "heap_inv s [fresh_node (vpage j) 0] []" "avail_pages s = {49..<4096} - {j}" by (rule heap16_started)
  have "has_room 312 [fresh_node (vpage j) 0]" using real_size_bounds(1) [of 312] by (intro fresh_has_room) simp_all
  then show ?thesis using kmalloc_correct [of 312, OF _ s(2)] s(1) by auto
qed

text \<open>
  C36. Sizes that no new node holds, such as those within 24 bytes below a page: on a heap that has only
  nodes of one page, a call of \<open>kmalloc\<close> never finds room and ends in the out-of-memory \<open>BUG\<close>, however
  many pages are free.
\<close>

theorem kmalloc_page_gap:
  assumes "heap_inv s ns P" "ns \<noteq> []" "\<forall>n\<in>set ns. hn_order n = 0" "4073 \<le> unat sz" "unat sz < 4096"
  shows "kmalloc sz s = Some (Inl (Bug ''memory alloc failed''))"
proof -
  have r: "4084 \<le> unat (real_size sz)" using real_size_bounds(1) [of sz] assms(4,5) by simp
  have k: "size_order sz = 0" unfolding size_order_def using assms(5) by simp
  have "asize x \<le> 4080" if n: "n \<in> set ns" "x \<in> set (hn_free n)" for n x
    using node_positions(5,8) [OF heap_invD(4) [OF assms(1) n(1)] UnI1 [OF n(2)]] assms(3) n(1) by simp
  then have "\<not> has_room sz ns" using r by (force simp: has_room_def fits_def word_le_nat_alt)
  moreover have "\<not> node_holds sz" using r k by (simp add: node_holds_def)
  ultimately show ?thesis using kmalloc_outcome [OF _ assms(1,2), of sz] assms(5) by simp
qed

theorem kmalloc_page_gap_witness:
  "\<exists>s j. kmalloc_init (buddy_system_init 4096 (mapped_state 4096 heap16)) = Inr s \<and> avail_pages s = {49..<4096} - {j} \<and>
    kmalloc 4080 s = Some (Inl (Bug ''memory alloc failed''))"
proof -
  obtain s j where s: "kmalloc_init (buddy_system_init 4096 (mapped_state 4096 heap16)) = Inr s"
    "heap_inv s [fresh_node (vpage j) 0] []" "avail_pages s = {49..<4096} - {j}" by (rule heap16_started)
  have "kmalloc 4080 s = Some (Inl (Bug ''memory alloc failed''))"
    by (rule kmalloc_page_gap [OF s(2)]) (simp_all add: fresh_node_def)
  then show ?thesis using s(1,3) by blast
qed

section \<open>Blocks in the hands of clients\<close>

text \<open>
  What clients do: take bytes, take pages, and write to their own blocks. The index carries the blocks
  and the addresses the owners wrote to.
\<close>

inductive mem_hist :: "'a heap_state_scheme \<Rightarrow> (addr \<rightharpoonup> nat) \<Rightarrow> 'a heap_state_scheme \<Rightarrow> (addr \<rightharpoonup> nat) \<Rightarrow> addr set \<Rightarrow> bool"
  for s0 L0 where
  start: "mem_hist s0 L0 s0 L0 {}"
| bytes: "mem_hist s0 L0 s L W \<Longrightarrow> small_size sz \<Longrightarrow> kmalloc sz s = Some (Inr (p, s')) \<Longrightarrow>
    mem_hist s0 L0 s' (L(p \<mapsto> unat sz)) W"
| pages: "mem_hist s0 L0 s L W \<Longrightarrow> small_order k \<Longrightarrow> alloc_pages k s = Inr (page, s') \<Longrightarrow>
    mem_hist s0 L0 s' (L(page_to_vir page s' \<mapsto> 4096 * 2 ^ unat k)) W"
| put: "mem_hist s0 L0 s L W \<Longrightarrow> L p = Some n \<Longrightarrow> a \<in> region p n \<Longrightarrow>
    mem_hist s0 L0 (s\<lparr>mem := (mem s)(a := v)\<rparr>) L (insert a W)"

lemma map_le_some: "L0 \<subseteq>\<^sub>m L \<Longrightarrow> L0 q = Some n \<Longrightarrow> L q = Some n"
  by (metis domI map_le_def)

lemma map_le_fresh: "L0 \<subseteq>\<^sub>m L \<Longrightarrow> L p = None \<Longrightarrow> L0 \<subseteq>\<^sub>m L(p \<mapsto> n)"
  unfolding map_le_def by (metis domIff fun_upd_other)

lemma mem_hist_inv:
  assumes "mem_hist s0 L0 s L W" "pool_inv s0 L0"
  shows "pool_inv s L \<and> L0 \<subseteq>\<^sub>m L \<and> (\<forall>p n. L0 p = Some n \<longrightarrow> (\<forall>y\<in>region p n - W. mem s y = mem s0 y))"
  using assms
proof induction
  case (bytes s L W sz p s')
  then have I: "pool_inv s L" "L0 \<subseteq>\<^sub>m L" and old: "\<And>q n y. L0 q = Some n \<Longrightarrow> y \<in> region q n - W \<Longrightarrow> mem s y = mem s0 y"
    by blast+
  have "kmalloc_res sz s = Some (p, s')" using bytes.hyps by (simp add: kmalloc_res_def)
  note a = km.alloc_fresh [OF I(1) bytes.hyps(2) this]
  note le = map_le_some [OF I(2)]
  have "L0 \<subseteq>\<^sub>m L(p \<mapsto> unat sz)" using a by (intro map_le_fresh [OF I(2)]) blast
  moreover have "mem s' y = mem s0 y" if "L0 q = Some n" "y \<in> region q n - W" for q n y
    using a le [OF that(1)] that(2) old [OF that] by auto
  ultimately show ?case using a by blast
next
  case (pages s L W k page s')
  then have I: "pool_inv s L" "L0 \<subseteq>\<^sub>m L" and old: "\<And>q n y. L0 q = Some n \<Longrightarrow> y \<in> region q n - W \<Longrightarrow> mem s y = mem s0 y"
    by blast+
  have "page_res k s = Some (page_to_vir page s', s')" using pages.hyps by (simp add: page_res_def)
  note a = pp.alloc_fresh [OF I(1) pages.hyps(2) this, unfolded block_len_def]
  note le = map_le_some [OF I(2)]
  have "L0 \<subseteq>\<^sub>m L(page_to_vir page s' \<mapsto> 4096 * 2 ^ unat k)" using a by (intro map_le_fresh [OF I(2)]) blast
  moreover have "mem s' y = mem s0 y" if "L0 q = Some n" "y \<in> region q n - W" for q n y
    using a le [OF that(1)] that(2) old [OF that] by auto
  ultimately show ?case using a by blast
next
  case (put s L W p n a v)
  then have I: "pool_inv s L" by blast
  have "pool_inv (set_mem ((mem s)(a := v)) s) L"
    by (rule km.put_inv [OF I]) (use put.hyps(2,3) in auto)
  then show ?case using put by (auto simp: set_mem_def)
qed simp

text \<open>
  C2. Safety of the kernel's memory: in any sequence of \<open>kmalloc\<close>, \<open>alloc_pages\<close> and writes of the clients to
  blocks they hold, the blocks stay pairwise apart, and a byte of a block keeps its value until the
  owner of a block writes to it: neither allocator ever touches it.
\<close>

theorem client_memory_safe:
  assumes "pool_inv s0 L0" "mem_hist s0 L0 s L W"
  shows "L0 \<subseteq>\<^sub>m L \<and> (\<forall>p n q l. L p = Some n \<and> L q = Some l \<and> p \<noteq> q \<longrightarrow> region p n \<inter> region q l = {}) \<and>
    (\<forall>p n. L0 p = Some n \<longrightarrow> (\<forall>y\<in>region p n - W. mem s y = mem s0 y)) \<and> pool_inv s L"
  using mem_hist_inv [OF assms(2,1)] pool_inv_apart by blast

lemma heap16_pool: "heap_inv s [fresh_node a 0] [] \<Longrightarrow> pool_inv s Map.empty"
  by (rule pool_invI [of s "[fresh_node a 0]" "[]"]) simp_all

theorem client_memory_safe_witness:
  "\<exists>s p s'. kmalloc_init (buddy_system_init 4096 (mapped_state 4096 heap16)) = Inr s \<and>
    mem_hist s Map.empty (s'\<lparr>mem := (mem s')(p := 7)\<rparr>) [p \<mapsto> 312] {p} \<and> pool_inv (s'\<lparr>mem := (mem s')(p := 7)\<rparr>) [p \<mapsto> 312]"
proof -
  obtain s j where s: "kmalloc_init (buddy_system_init 4096 (mapped_state 4096 heap16)) = Inr s"
    "heap_inv s [fresh_node (vpage j) 0] []" "avail_pages s = {49..<4096} - {j}" by (rule heap16_started)
  have sz: "unat (312 :: u32) < 45056" by simp
  have "has_room 312 [fresh_node (vpage j) 0]" using real_size_bounds(1) [of 312] by (intro fresh_has_room) simp_all
  then obtain x s' ns' where "kmalloc_gives 312 s [fresh_node (vpage j) 0] [] x s' ns'"
    using kmalloc_fit [OF sz s(2)] by blast
  then have k: "kmalloc 312 s = Some (Inr (fst x + 8, s'))" by (simp add: kmalloc_gives_def)
  have "small_size 312" by (simp add: small_size_def)
  from mem_hist.bytes [OF mem_hist.start this k]
  have h: "mem_hist s Map.empty s' [fst x + 8 \<mapsto> 312] {}" by simp
  have h': "mem_hist s Map.empty (s'\<lparr>mem := (mem s')(fst x + 8 := 7)\<rparr>) [fst x + 8 \<mapsto> 312] {fst x + 8}"
    by (rule mem_hist.put [OF h, of "fst x + 8" 312]) simp_all
  from client_memory_safe [OF heap16_pool [OF s(2)] h'] show ?thesis using s(1) h' by blast
qed

section \<open>Freeing bytes\<close>

lemma find_used_hit:
  "aseg m p (pre @ x # post) 0 \<Longrightarrow> \<forall>y\<in>set pre. fst y \<noteq> fst x \<Longrightarrow>
    find_used m (fst x + 8) p lst = Some (fst x, if pre = [] then lst else fst (last pre))"
proof (induction pre arbitrary: p lst)
  case Nil
  then show ?case by (subst find_used.simps) simp
next
  case (Cons y pre)
  then show ?case using Cons.IH [of "ld32 m (p + 4)" p] Cons.prems by (subst find_used.simps) auto
qed

lemma find_used_none: "aseg m p xs 0 \<Longrightarrow> \<forall>y\<in>set xs. fst y \<noteq> a \<Longrightarrow> \<exists>l. find_used m (a + 8) p lst = Some (0, l)"
proof (induction xs arbitrary: p lst)
  case Nil
  then show ?case by (subst find_used.simps) simp
next
  case (Cons y xs)
  then show ?case using Cons.IH [of "ld32 m (p + 4)" p] Cons.prems by (subst find_used.simps) auto
qed

lemma find_owner_hit:
  assumes "nodes m p (as @ n # bs)" "\<forall>k\<in>set as. \<forall>y\<in>set (hn_used k). fst y \<noteq> fst x" "hn_used n = pre @ x # post"
    "\<forall>y\<in>set pre. fst y \<noteq> fst x"
  shows "find_owner m (fst x + 8) p lst =
    Some (hn_addr n, if as = [] then lst else hn_addr (last as), fst x, if pre = [] then 0 else fst (last pre))"
  using assms(1,2)
proof (induction as arbitrary: p lst)
  case Nil
  then have p: "p = hn_addr n" "p \<noteq> 0" "node_rep m n" by auto
  have s: "aseg m (ld32 m (p + 8)) (pre @ x # post) 0" using p(1,3) assms(3) by (simp add: node_rep_def)
  note find_used_hit [OF s assms(4), of 0]
  moreover have "fst x \<noteq> 0" using s by (auto simp: aseg_append)
  ultimately show ?case using p by (subst find_owner.simps) simp
next
  case (Cons k as)
  then have p: "p = hn_addr k" "p \<noteq> 0" "node_rep m k" "nodes m (ld32 m (p + 12)) (as @ n # bs)" by auto
  obtain l where "find_used m (fst x + 8) (ld32 m (p + 8)) 0 = Some (0, l)"
    using find_used_none [of m "ld32 m (p + 8)" "hn_used k" "fst x" 0] p(1,3) Cons.prems(2) by (auto simp: node_rep_def)
  then show ?case using p Cons.IH [OF p(4), of p] Cons.prems(2) by (subst find_owner.simps) simp
qed

text \<open>The nodes of a heap hold every address once.\<close>

lemma used_apart:
  assumes I: "heap_inv s (as @ n # bs) P" and x: "x \<in> set (hn_used n)" and k: "k \<in> set as" "y \<in> set (hn_used k)"
  shows "fst y \<noteq> fst x"
proof
  assume e: "fst y = fst x"
  have W: "node_wf n" "node_wf k" and kin: "k \<in> set (as @ n # bs)" using heap_invD(4) [OF I] k(1) by auto
  have "fst x \<in> node_span n" using area_span [OF W(1), of x] x node_positions(7) [OF W(1), of x] by auto
  moreover have "fst y \<in> node_span k" using area_span [OF W(2), of y] k(2) node_positions(7) [OF W(2), of y] by auto
  moreover have "node_span k \<inter> node_span n = {}"
  proof -
    have "blocks_ok s (map node_block as @ node_block n # (map node_block bs @ P))" using heap_invD(3) [OF I] by simp
    moreover have "node_block k \<in> set (map node_block as @ map node_block bs @ P)" using k(1) by simp
    ultimately have "block_bytes (fst (node_block k)) (snd (node_block k)) \<inter> block_bytes (fst (node_block n)) (snd (node_block n)) = {}"
      by (rule blocks_disjoint)
    then show ?thesis using node_span_block [OF I kin] node_span_block [OF I, of n] by simp
  qed
  ultimately show False using e by auto
qed

text \<open>Taking an area off the used ones changes neither its size nor the first free area.\<close>

lemma unlink_used_loads:
  assumes W: "node_wf n" and rep: "node_rep m n" and u: "hn_used n = pre @ x # post"
  fixes v defines "m' \<equiv> (if pre = [] then st32 m (hn_addr n + 8) v else st32 m (fst (last pre) + 4) v)"
  shows "ld32 m' (hn_addr n + 4) = ld32 m (hn_addr n + 4)" "ld32 m' (fst x) = snd x"
proof -
  have xin: "x \<in> set (hn_free n) \<union> set (hn_used n)" using u by simp
  note P = node_positions [OF W xin]
  have sz: "ld32 m (fst x) = snd x" using rep u by (auto simp: node_rep_def aseg_append)
  show "ld32 m' (hn_addr n + 4) = ld32 m (hn_addr n + 4)" "ld32 m' (fst x) = snd x"
  proof (atomize (full), cases "pre = []")
    case True
    have "ld32 (st32 m (hn_addr n + 8) v) (hn_addr n + 4) = ld32 m (hn_addr n + 4)"
      "ld32 (st32 m (hn_addr n + 8) v) (fst x) = ld32 m (fst x)"
      using P by (intro ld32_st32_far; linarith)+
    then show "ld32 m' (hn_addr n + 4) = ld32 m (hn_addr n + 4) \<and> ld32 m' (fst x) = snd x" using True sz by (simp add: m'_def)
  next
    case False
    then obtain xs l where pre: "pre = xs @ [l]" by (metis append_butlast_last_id)
    have lin: "l \<in> set (hn_free n) \<union> set (hn_used n)" using u pre by simp
    note Q = node_positions [OF W lin]
    have "sorted_wrt far (hn_free n @ xs @ l # x # post)" using node_wfD(5) [OF W] u pre by simp
    then have "far l x" by (simp add: sorted_wrt_append)
    then have f: "astart l + asize l \<le> astart x \<or> astart x + asize x \<le> astart l" by (simp add: far_def)
    have "ld32 (st32 m (fst l + 4) v) (fst x) = ld32 m (fst x)"
      by (rule ld32_st32_far) (use f P Q in linarith)+
    moreover have "ld32 (st32 m (fst l + 4) v) (hn_addr n + 4) = ld32 m (hn_addr n + 4)"
      by (rule ld32_st32_far) (use P Q in linarith)+
    ultimately show "ld32 m' (hn_addr n + 4) = ld32 m (hn_addr n + 4) \<and> ld32 m' (fst x) = snd x"
      using False pre sz by (simp add: m'_def)
  qed
qed

text \<open>
  C37. \<open>kfree\<close> of a block that lies right below the first free area of its node dereferences a null pointer:
  the merge with the next area writes to the link of a previous area that does not exist. The block
  that was allocated last in a fresh node is always such a block.
\<close>

theorem kfree_below_first_free:
  assumes "heap_inv s ns P" "n \<in> set ns" "x \<in> set (hn_used n)" "hn_free n = z # fs" "astart x + asize x = astart z"
  shows "kfree (fst x + 8) s = Some (Inl NullDeref)"
proof -
  obtain as bs where ns: "ns = as @ n # bs" using split_list [OF assms(2)] by blast
  obtain pre post where u: "hn_used n = pre @ x # post" "x \<notin> set pre" using split_list_first [OF assms(3)] by blast
  note W = heap_invD(4) [OF assms(1,2)]
  have xin: "x \<in> set (hn_free n) \<union> set (hn_used n)" using assms(3) by simp
  note Q = node_positions [OF W xin]
  have rep: "node_rep (mem s) n" using nodes_rep [OF heap_invD(2) [OF assms(1)] assms(2)] ..
  have d1: "\<forall>k\<in>set as. \<forall>y\<in>set (hn_used k). fst y \<noteq> fst x" using used_apart assms(1,3) unfolding ns by blast
  have d2: "\<forall>y\<in>set pre. fst y \<noteq> fst x"
  proof
    fix y assume y: "y \<in> set pre"
    then have "far y x" using node_wfD(5) [OF W] u by (simp add: sorted_wrt_append)
    moreover have "8 \<le> asize y" using node_positions(7) [OF W, of y] u y by simp
    ultimately show "fst y \<noteq> fst x" using Q(7) by (auto simp: far_def)
  qed
  note ow = find_owner_hit [OF heap_invD(2) [OF assms(1), unfolded ns] d1 u(1) d2, of 0]
  have hd: "ld32 (mem s) (hn_addr n + 4) = fst z" "fst z \<noteq> 0" using rep assms(4) by (simp_all add: node_rep_def)
  have us: "pre = [] \<Longrightarrow> ld32 (mem s) (hn_addr n + 8) = fst x" using rep u by (simp add: node_rep_def)
  have pr: "(if pre = [] then 0 else fst (last pre)) = 0 \<longleftrightarrow> pre = []"
  proof (cases "pre = []")
    case False
    then have "last pre \<in> set (hn_free n) \<union> set (hn_used n)" using u by simp
    then have "unat (fst (last pre)) \<noteq> 0" using node_positions(5) [OF W] by fastforce
    then show ?thesis using False by auto
  qed simp
  have an: "hn_addr n \<noteq> 0" using node_wfD(2) [OF W] by auto
  have gt: "\<not> fst z \<le> fst x" using assms(5) Q(7) by (simp add: word_le_nat_alt)
  have "unat (fst x + snd x) = (astart x + asize x) mod 2 ^ 32" by (simp add: unat_word_ariths)
  also have "\<dots> = astart z" unfolding assms(5) by (rule mod_less) (rule order.strict_trans2 [OF unsigned_less], simp)
  finally have ad: "fst x + snd x = fst z" by (simp only: word_unat_eq_iff)
  define m where "m = (if pre = [] then st32 (mem s) (hn_addr n + 8) (ld32 (mem s) (fst x + 4))
    else st32 (mem s) (fst (last pre) + 4) (ld32 (mem s) (fst x + 4)))"
  note L = unlink_used_loads [OF W rep u(1), of "ld32 (mem s) (fst x + 4)", folded m_def]
  have m: "(if (if pre = [] then 0 else fst (last pre)) = 0
      then st32 (mem s) (hn_addr n + 8) (ld32 (mem s) (ld32 (mem s) (hn_addr n + 8) + 4))
      else st32 (mem s) ((if pre = [] then 0 else fst (last pre)) + 4) (ld32 (mem s) (fst x + 4))) = m"
    unfolding pr m_def using us by simp
  have fp: "find_place m (fst x) (ld32 m (hn_addr n + 4)) 0 = Some (fst z, 0)"
    unfolding L(1) hd(1) by (subst find_place.simps) (simp add: gt)
  have "ld32 (st32 (st32 m (fst x + 4) v) (hn_addr n + 4) w) (fst x) = snd x" for v w
  proof -
    have "ld32 (st32 (st32 m (fst x + 4) v) (hn_addr n + 4) w) (fst x) = ld32 (st32 m (fst x + 4) v) (fst x)"
      using Q by (intro ld32_st32_far; linarith)
    then show ?thesis using L(2) by (simp add: fields)
  qed
  then have "put_area (hn_addr n) (fst x) (fst z) 0 m = Inl NullDeref"
    using ad Q(5) an by (auto simp: put_area_def Let_def)
  then show ?thesis
    unfolding kfree_def ow Option.bind.simps prod.case Let_def m fp using an by simp
qed

text \<open>The first call on a heap of one fresh node takes the front of its only area.\<close>

lemma kmalloc_first:
  assumes I: "heap_inv s [fresh_node a 0] P" and sz: "unat sz < 4096" "unat (real_size sz) \<le> 4060"
  obtains s' where "kmalloc sz s = Some (Inr (a + 24, s'))"
    "heap_inv s' [\<lparr>hn_addr = a, hn_order = 0, hn_free = [(a + 16 + real_size sz, 4080 - real_size sz)], hn_used = [(a + 16, real_size sz)]\<rparr>] P"
proof -
  let ?n = "fresh_node a 0" and ?x = "(a + 16, 4080 :: u32)"
  have lt: "unat sz < 45056" using sz(1) by simp
  note R = real_size_bounds [OF lt]
  have k: "size_order sz = 0" unfolding size_order_def using sz(1) by simp
  have f: "hn_free ?n = [] @ ?x # []" by (simp add: fresh_node_def)
  have r: "real_size sz \<le> snd ?x" using sz(2) by (simp add: word_le_nat_alt)
  have I': "heap_inv s ([] @ ?n # []) P" using I by simp
  have h: "find_node (mem s) (of_nat (size_order sz)) (real_size sz) (malloc_list s) = Some (a, a + 16, 0)"
    using find_node_hit [OF heap_invD(2) [OF I'] _ _ f _ r, of "of_nat (size_order sz)"] unfolding k by (simp add: fresh_node_def)
  note P = node_positions(5) [OF heap_invD(4) [OF I, of ?n], of ?x]
  have "a + 16 \<noteq> 0" using P by (auto simp: fresh_node_def)
  then have e: "kmalloc sz s = Some (Inr (a + 24, s\<lparr>mem := take_area a (a + 16) 0 (real_size sz) (mem s)\<rparr>))"
    unfolding kmalloc_unfold [OF lt I list.distinct(2)] h by (simp add: add.commute [of "24::u32"])
  have "20 \<le> unat (4080 - real_size sz)" using sz(2) r by (simp add: unat_sub)
  then have "4080 - real_size sz > 8" by (simp add: word_less_nat_alt)
  then have "take_node [] ?x [] (real_size sz) ?n =
      \<lparr>hn_addr = a, hn_order = 0, hn_free = [(a + 16 + real_size sz, 4080 - real_size sz)], hn_used = [(a + 16, real_size sz)]\<rparr>"
    by (simp add: take_node_def fresh_node_def rest_areas_def)
  then show thesis
    using that [OF e] take_heap_inv(1) [OF I' f R(2) r R(3)] by (simp add: fresh_node_def)
qed

theorem kfree_below_first_free_witness:
  "\<exists>s p s'. kmalloc_init (buddy_system_init 4096 (mapped_state 4096 heap16)) = Inr s \<and>
    kmalloc 312 s = Some (Inr (p, s')) \<and> kfree p s' = Some (Inl NullDeref)"
proof -
  obtain s j where s: "kmalloc_init (buddy_system_init 4096 (mapped_state 4096 heap16)) = Inr s"
    "heap_inv s [fresh_node (vpage j) 0] []" "avail_pages s = {49..<4096} - {j}" by (rule heap16_started)
  have u: "unat (real_size 312) = 320" using real_size_bounds(1) [of 312] by simp
  then have r: "real_size 312 = 320" by (simp add: word_unat_eq_iff)
  let ?n = "\<lparr>hn_addr = vpage j, hn_order = 0, hn_free = [(vpage j + 16 + 320, 4080 - 320)], hn_used = [(vpage j + 16, 320)]\<rparr>"
  obtain s' where s': "kmalloc 312 s = Some (Inr (vpage j + 24, s'))" "heap_inv s' [?n] []"
    by (rule kmalloc_first [OF s(2), of 312, unfolded r]) simp_all
  have "unat (vpage j) + 4096 \<le> 2 ^ 32" using node_wfD(3) [OF heap_invD(4) [OF s'(2), of ?n]] by simp
  then have "unat (vpage j + of_nat 16) = unat (vpage j) + 16" "unat (vpage j + of_nat 336) = unat (vpage j) + 336"
    by (intro unat_add_32; linarith)+
  then have w: "unat (vpage j + 16) = unat (vpage j) + 16" "unat (vpage j + 336) = unat (vpage j) + 336" by simp_all
  have v: "vpage j + 16 + 320 = vpage j + 336" "unat (320 :: u32) = 320" by simp_all
  have "kfree (fst (vpage j + 16, 320 :: u32) + 8) s' = Some (Inl NullDeref)"
  proof (rule kfree_below_first_free [OF s'(2), of ?n "(vpage j + 16, 320)" "(vpage j + 16 + 320, 4080 - 320)" "[]"])
    show "astart (vpage j + 16, 320) + asize (vpage j + 16, 320) = astart (vpage j + 16 + 320, 4080 - 320)"
      unfolding fst_conv snd_conv v w by linarith
  qed simp_all
  then show ?thesis using s(1) s'(1) by (auto simp: add.commute [of "24::u32"])
qed

end
