(* ===== verification/DiskBuffer.thy ===== *)
theory DiskBuffer
  imports KPool Floppy
begin

text \<open>
  The cache of disk blocks (\<open>kernel/disk_buffer.c\<close>): 13 lists of nodes by block number, each node with a
  page that holds the block. The controller's transfer between the disk and \<open>dma_buffer\<close> is not code of
  the kernel: \<open>dma\<close> is a parameter of the state that says what memory and disk are after the port accesses
  made so far.
\<close>

type_synonym disk = "nat \<Rightarrow> u8"

record disk_state = heap_state +
  db_head :: addr
  dma_buffer :: addr
  disk :: disk
  dma :: "io_event list \<Rightarrow> memory \<times> disk \<Rightarrow> memory \<times> disk"

text \<open>Offsets of the fields of \<open>db_node_t\<close> (20 bytes); the link is at 0.\<close>

abbreviation (input) db_flags :: "addr \<Rightarrow> addr" where "db_flags dnode \<equiv> dnode + 8"
abbreviation (input) db_block_num :: "addr \<Rightarrow> addr" where "db_block_num dnode \<equiv> dnode + 12"
abbreviation (input) db_buffer :: "addr \<Rightarrow> addr" where "db_buffer dnode \<equiv> dnode + 16"

abbreviation (input) DISK_BUFFER_MOD :: u32 where "DISK_BUFFER_MOD \<equiv> 13"
abbreviation (input) DISK_BUFFER_BUSY :: u32 where "DISK_BUFFER_BUSY \<equiv> 2"
abbreviation (input) FD_BLOCK_SIZE :: u32 where "FD_BLOCK_SIZE \<equiv> 1024"
abbreviation (input) SECTORS_PER_BLOCK :: u32 where "SECTORS_PER_BLOCK \<equiv> 8"

section \<open>Transfers\<close>

text \<open>A call of \<open>fd_rw\<close> and the transfer it starts.\<close>

definition fd_transfer :: "u32 \<Rightarrow> u32 \<Rightarrow> 'a disk_state_scheme \<Rightarrow> fault + 'a disk_state_scheme" where
  "fd_transfer cmd sector s =
     bindE (fd_rw (dma_buffer s) cmd sector s) (\<lambda>s.
       case dma s (io s) (mem s, disk s) of (m, d) \<Rightarrow> Inr (s\<lparr>mem := m, disk := d\<rparr>))"

section \<open>The code\<close>

definition db_head_at :: "u32 \<Rightarrow> 'a disk_state_scheme \<Rightarrow> addr" where
  "db_head_at i s = db_head s + 8 * i"

primrec disk_buffer_init_loop :: "nat \<Rightarrow> 'a disk_state_scheme \<Rightarrow> 'a disk_state_scheme" where
  "disk_buffer_init_loop 0 s = s"
| "disk_buffer_init_loop (Suc i) s =
     (let s = disk_buffer_init_loop i s in s\<lparr>mem := link_init (db_head_at (of_nat i) s) (mem s)\<rparr>)"

definition disk_buffer_init :: "'a disk_state_scheme \<Rightarrow> 'a disk_state_scheme" where
  "disk_buffer_init s = disk_buffer_init_loop 13 s"

text \<open>The node of a block on the list at \<open>hd\<close>, from \<open>dnode\<close> on, or 0.\<close>

partial_function (option) find_dnode_loop :: "memory \<Rightarrow> addr \<Rightarrow> u32 \<Rightarrow> addr \<Rightarrow> addr option" where
  "find_dnode_loop m head block dnode =
     (if dnode = head then Some 0
      else if dnode \<noteq> 0 \<and> ld32 m (db_block_num dnode) = block then Some dnode
      else find_dnode_loop m head block (nxt m dnode))"

definition find_dnode :: "u32 \<Rightarrow> 'a disk_state_scheme \<Rightarrow> addr option" where
  "find_dnode block s =
     (let head = db_head_at (block mod DISK_BUFFER_MOD) s in find_dnode_loop (mem s) head block (nxt (mem s) head))"

text \<open>Writing the four parts of a block through \<open>dma_buffer\<close>; \<open>n\<close> parts are left.\<close>

primrec write_block :: "nat \<Rightarrow> u32 \<Rightarrow> addr \<Rightarrow> u32 \<Rightarrow> 'a disk_state_scheme \<Rightarrow> fault + 'a disk_state_scheme" where
  "write_block 0 i dnode sector_start s = Inr s"
| "write_block (Suc n) i dnode sector_start s =
     (let s = s\<lparr>mem := memcpy (dma_buffer s) (ld32 (mem s) (db_buffer dnode) + i * FD_BLOCK_SIZE) FD_BLOCK_SIZE (mem s)\<rparr>
      in bindE (fd_transfer DISK_WRITE (sector_start + i * 2) s) (write_block n (i + 1) dnode sector_start))"

primrec read_block :: "nat \<Rightarrow> u32 \<Rightarrow> addr \<Rightarrow> u32 \<Rightarrow> 'a disk_state_scheme \<Rightarrow> fault + 'a disk_state_scheme" where
  "read_block 0 i dnode sector_start s = Inr s"
| "read_block (Suc n) i dnode sector_start s =
     bindE (fd_transfer DISK_READ (sector_start + i * 2) s) (\<lambda>s.
       let s = s\<lparr>mem := memcpy (ld32 (mem s) (db_buffer dnode) + i * FD_BLOCK_SIZE) (dma_buffer s) FD_BLOCK_SIZE (mem s)\<rparr>
       in read_block n (i + 1) dnode sector_start s)"

definition disk_buffer_syc :: "u32 \<Rightarrow> 'a disk_state_scheme \<Rightarrow> (fault + 'a disk_state_scheme) option" where
  "disk_buffer_syc block s =
     Option.bind (find_dnode block s) (\<lambda>dnode_found.
       Some (if dnode_found \<noteq> 0 then write_block 4 0 dnode_found (block * SECTORS_PER_BLOCK) s else Inr s))"

definition disk_buffer_get :: "u32 \<Rightarrow> 'a disk_state_scheme \<Rightarrow> (fault + addr \<times> 'a disk_state_scheme) option" where
  "disk_buffer_get block s =
     (let head_idx = block mod DISK_BUFFER_MOD
      in Option.bind (find_dnode block s) (\<lambda>dnode_found.
        if dnode_found \<noteq> 0 then
          let m = st32 (mem s) (db_flags dnode_found) (ld32 (mem s) (db_flags dnode_found) OR DISK_BUFFER_BUSY);
              m = list_remove dnode_found m;
              m = list_insert_after dnode_found (db_head_at head_idx s) m
          in Some (Inr (dnode_found, s\<lparr>mem := m\<rparr>))
        else
          bindR (kmalloc 20 s) (\<lambda>(dnode, s).
            let s = s\<lparr>mem := st32 (mem s) (db_block_num dnode) block\<rparr>
            in bindR (Some (alloc_pages 0 s)) (\<lambda>(page, s).
              let m = st32 (mem s) (db_buffer dnode) (page_to_vir page s);
                  m = st32 m (db_flags dnode) (ld32 m (db_flags dnode) OR DISK_BUFFER_BUSY);
                  m = list_insert_after dnode (db_head_at head_idx s) m
              in bindR (Some (read_block 4 0 dnode (block * SECTORS_PER_BLOCK) (s\<lparr>mem := m\<rparr>))) (\<lambda>s.
                   Some (Inr (dnode, s)))))))"

definition disk_buffer_put :: "u32 \<Rightarrow> 'a disk_state_scheme \<Rightarrow> (fault + 'a disk_state_scheme) option" where
  "disk_buffer_put block s =
     Option.bind (find_dnode block s) (\<lambda>dnode_found.
       if dnode_found \<noteq> 0 then
         disk_buffer_syc block (s\<lparr>mem := st32 (mem s) (db_flags dnode_found)
           (ld32 (mem s) (db_flags dnode_found) AND NOT DISK_BUFFER_BUSY)\<rparr>)
       else Some (Inr s))"

end
