(* ===== verification/DiskTransfer.thy ===== *)
theory DiskTransfer
  imports DiskBuffer PoolSteps "HOL-Library.Sublist"
begin

text \<open>
  The transfer of two sectors that \<open>fd_rw\<close> starts. The controller is not code of the kernel: \<open>device_ok\<close>
  states what its data sheet promises, in terms of the bytes written to its ports.
\<close>

section \<open>The device\<close>

text \<open>DMA channel 2 is unmasked and set up for 1024 bytes at physical address \<open>a\<close>.\<close>

definition programmed :: "io_event list \<Rightarrow> nat \<Rightarrow> bool" where
  "programmed tr a \<longleftrightarrow> (\<exists>lo mid hi. suffix [lo, mid] (sent DMA_CHAN2_ADDR tr) \<and> suffix [hi] (sent 0x81 tr) \<and>
     a = unat lo + 256 * unat mid + 65536 * unat hi \<and>
     suffix [0xff, 3] (sent DMA_CHAN2_COUNT tr) \<and> suffix [2] (sent DMA_MASK_REG tr))"

text \<open>The last command, with the DMA mode, is for the sectors \<open>n\<close> and \<open>n + 1\<close> of one track.\<close>

definition commanded :: "io_event list \<Rightarrow> u8 \<Rightarrow> u8 \<Rightarrow> nat \<Rightarrow> bool" where
  "commanded tr cmd mode n \<longleftrightarrow> (\<exists>track head sector. suffix [mode] (sent DMA_MODE_REG tr) \<and>
     suffix [cmd, push_bit 2 head, track, head, sector, 2, 18, 0x1b, 0xff, 8] (sent FDC_FIFO tr) \<and>
     unat track < 80 \<and> unat head < 2 \<and> unat sector \<in> {1..<18} \<and>
     n = (unat track * 2 + unat head) * 18 + (unat sector - 1))"

text \<open>Memory after the sectors were read to \<open>buf\<close>, and the disk after they were written from there.\<close>

definition sectors_in :: "addr \<Rightarrow> nat \<Rightarrow> disk \<Rightarrow> memory \<Rightarrow> memory" where
  "sectors_in buf n d m y = (if y \<in> region buf 1024 then d (512 * n + unat (y - buf)) else m y)"

definition sectors_out :: "addr \<Rightarrow> nat \<Rightarrow> memory \<Rightarrow> disk \<Rightarrow> disk" where
  "sectors_out buf n m d k = (if 512 * n \<le> k \<and> k < 512 * n + 1024 then m (buf + of_nat (k - 512 * n)) else d k)"

definition device_ok :: "(io_event list \<Rightarrow> memory \<times> disk \<Rightarrow> memory \<times> disk) \<Rightarrow> bool" where
  "device_ok f \<longleftrightarrow> (\<forall>tr a n m d. programmed tr a \<and> a mod 65536 + 1024 \<le> 65536 \<longrightarrow>
     (commanded tr FDC_CMD_READ DMA_READ n \<longrightarrow> f tr (m, d) = (sectors_in (KVM_BASE + of_nat a) n d m, d)) \<and>
     (commanded tr FDC_CMD_WRITE DMA_WRITE n \<longrightarrow> f tr (m, d) = (m, sectors_out (KVM_BASE + of_nat a) n m d)))"

text \<open>A buffer the controller can reach: in the first 16 MB, and in one block of 64 KB.\<close>

definition dma_reach :: "addr \<Rightarrow> bool" where
  "dma_reach buf \<longleftrightarrow> unat (pa buf) < 2 ^ 24 \<and> unat (pa buf) mod 65536 + 1024 \<le> 65536"

section \<open>fd_rw\<close>

text \<open>A step that only accesses ports.\<close>

definition io_only :: "'a mach_scheme \<Rightarrow> 'a mach_scheme \<Rightarrow> bool" where
  "io_only s s' \<longleftrightarrow> s' = s\<lparr>io := io s'\<rparr>"

lemma io_only_refl: "io_only s s"
  by (simp add: io_only_def)

lemma io_only_emit: "io_only s t \<Longrightarrow> io_only s (emit e t)"
proof -
  assume "io_only s t"
  then obtain tr where "t = s\<lparr>io := tr\<rparr>" unfolding io_only_def by blast
  then show "io_only s (emit e t)" by (simp add: io_only_def emit_def)
qed

lemma io_only_outb: "io_only s t \<Longrightarrow> io_only s (outb v p t)"
  by (simp add: outb_def io_only_emit)

lemma io_only_drain: "io_only s t \<Longrightarrow> io_only s (drain n p t)"
  by (induction n arbitrary: t) (simp_all add: inb_def Let_def io_only_emit)

lemma fd_rw_io: "fd_rw buf cmd n s = Inr s' \<Longrightarrow> io_only s s'"
  by (auto simp: fd_rw_def Let_def dma_setup_def dma_read_mode_def dma_write_mode_def split: if_splits
      intro!: io_only_outb io_only_drain io_only_refl)

text \<open>What the ports of the DMA controller have received.\<close>

lemma drain_dma: "sent p (io (drain n q s)) = sent p (io s)"
  by simp

lemma fd_rw_programs:
  assumes b: "unat (pa buf) < 2 ^ 24" and f: "fd_rw buf cmd n s = Inr s'"
  shows "programmed (io s') (unat (pa buf))"
    "suffix [if cmd = DISK_READ then DMA_READ else DMA_WRITE] (sent DMA_MODE_REG (io s'))"
proof -
  from dma_setup_address [OF b, of s] obtain lo mid hi where
    d: "sent DMA_CHAN2_ADDR (io (dma_setup buf s)) = sent DMA_CHAN2_ADDR (io s) @ [lo, mid]"
      "sent 0x81 (io (dma_setup buf s)) = sent 0x81 (io s) @ [hi]"
      "unat (pa buf) = unat lo + 256 * unat mid + 65536 * unat hi"
      "sent DMA_CHAN2_COUNT (io (dma_setup buf s)) = sent DMA_CHAN2_COUNT (io s) @ [0xff, 0x03]" by blast
  have e: "sent DMA_CHAN2_ADDR (io s') = sent DMA_CHAN2_ADDR (io (dma_setup buf s))"
    "sent 0x81 (io s') = sent 0x81 (io (dma_setup buf s))"
    "sent DMA_CHAN2_COUNT (io s') = sent DMA_CHAN2_COUNT (io (dma_setup buf s))"
    "suffix [2] (sent DMA_MASK_REG (io s'))"
    "suffix [if cmd = DISK_READ then DMA_READ else DMA_WRITE] (sent DMA_MODE_REG (io s'))"
    using f by (auto simp: fd_rw_def Let_def dma_read_mode_def dma_write_mode_def suffix_appendI suffix_Cons split: if_splits)
  show "programmed (io s') (unat (pa buf))"
    unfolding programmed_def e(1-3) d(1,2,4) using d(3) e(4) by (rule_tac exI [of _ lo], rule_tac exI [of _ mid], rule_tac exI [of _ hi]) (simp add: suffix_def)
  show "suffix [if cmd = DISK_READ then DMA_READ else DMA_WRITE] (sent DMA_MODE_REG (io s'))" by (rule e(5))
qed

lemma fd_rw_commands:
  assumes c: "cmd = DISK_READ \<or> cmd = DISK_WRITE" and n: "n < 2880" "even n" and b: "dma_reach buf"
  obtains s' where "fd_rw buf cmd (of_nat n) s = Inr s'" "io_only s s'" "programmed (io s') (unat (pa buf))"
    "cmd = DISK_READ \<Longrightarrow> commanded (io s') FDC_CMD_READ DMA_READ n"
    "cmd = DISK_WRITE \<Longrightarrow> commanded (io s') FDC_CMD_WRITE DMA_WRITE n"
proof -
  have u: "unat (of_nat n :: u32) = n" by (rule unat_of_nat_32) (use n in simp)
  have "unat (of_nat n :: u32) < 2880" unfolding u by (rule n(1))
  from fd_rw_sends [OF c this, of buf s, unfolded u] obtain s' track head sector where
    f: "fd_rw buf cmd (of_nat n) s = Inr s'"
      "sent FDC_FIFO (io s') = sent FDC_FIFO (io s) @
        [if cmd = DISK_READ then FDC_CMD_READ else FDC_CMD_WRITE, push_bit 2 head, track, head, sector, 2, 18, 0x1b, 0xff, 8]"
      "n = (unat track * 2 + unat head) * 18 + (unat sector - 1)" "unat track < 80" "unat head < 2" "unat sector \<in> {1..18}"
    by (elim exE conjE) (rule that)
  have "unat sector \<noteq> 18" using f(3) n(2) by auto
  then have sec: "unat sector \<in> {1..<18}" using f(6) by auto
  note P = fd_rw_programs [OF _ f(1)]
  have b24: "unat (pa buf) < 2 ^ 24" using b by (simp add: dma_reach_def)
  show thesis
  proof (rule that [OF f(1) fd_rw_io [OF f(1)] P(1) [OF b24]])
    show "commanded (io s') FDC_CMD_READ DMA_READ n" if "cmd = DISK_READ"
      unfolding commanded_def f(2) using P(2) [OF b24] that f(3-5) sec
      by (rule_tac exI [of _ track], rule_tac exI [of _ head], rule_tac exI [of _ sector]) (simp add: suffix_def)
    show "commanded (io s') FDC_CMD_WRITE DMA_WRITE n" if "cmd = DISK_WRITE"
      unfolding commanded_def f(2) using P(2) [OF b24] that f(3-5) sec
      by (rule_tac exI [of _ track], rule_tac exI [of _ head], rule_tac exI [of _ sector]) (simp add: suffix_def)
  qed
qed

section \<open>Transfers\<close>

lemma pa_buf: "KVM_BASE + of_nat (unat (pa buf)) = buf"
  by (simp add: pa_def)

lemma fd_transfer_ok:
  assumes "device_ok (dma s)" "dma_reach (dma_buffer s)" "n < 2880" "even n"
  shows "\<exists>tr. fd_transfer DISK_READ (of_nat n) s = Inr (s\<lparr>io := tr, mem := sectors_in (dma_buffer s) n (disk s) (mem s)\<rparr>)"
    "\<exists>tr. fd_transfer DISK_WRITE (of_nat n) s = Inr (s\<lparr>io := tr, disk := sectors_out (dma_buffer s) n (mem s) (disk s)\<rparr>)"
proof -
  let ?b = "dma_buffer s"
  have r: "unat (pa ?b) mod 65536 + 1024 \<le> 65536" using assms(2) by (simp add: dma_reach_def)
  show "\<exists>tr. fd_transfer DISK_READ (of_nat n) s = Inr (s\<lparr>io := tr, mem := sectors_in ?b n (disk s) (mem s)\<rparr>)"
  proof -
    obtain s1 where s1: "fd_rw ?b DISK_READ (of_nat n) s = Inr s1" "io_only s s1" "programmed (io s1) (unat (pa ?b))"
      "commanded (io s1) FDC_CMD_READ DMA_READ n" by (rule fd_rw_commands [of DISK_READ, OF _ assms(3,4,2)]) simp_all
    have e: "s1 = s\<lparr>io := io s1\<rparr>" using s1(2) by (simp add: io_only_def)
    have D: "dma s (io s1) (m, d) = (sectors_in ?b n d m, d)" for m d
      using assms(1) s1(3,4) r unfolding device_ok_def by (metis pa_buf)
    have "dma s1 = dma s" "mem s1 = mem s" "disk s1 = disk s" by (subst e, simp)+
    then have "fd_transfer DISK_READ (of_nat n) s = Inr (s1\<lparr>mem := sectors_in ?b n (disk s) (mem s), disk := disk s\<rparr>)"
      using s1(1) D by (simp add: fd_transfer_def)
    then show ?thesis by (subst (asm) e) auto
  qed
  show "\<exists>tr. fd_transfer DISK_WRITE (of_nat n) s = Inr (s\<lparr>io := tr, disk := sectors_out ?b n (mem s) (disk s)\<rparr>)"
  proof -
    obtain s1 where s1: "fd_rw ?b DISK_WRITE (of_nat n) s = Inr s1" "io_only s s1" "programmed (io s1) (unat (pa ?b))"
      "commanded (io s1) FDC_CMD_WRITE DMA_WRITE n" by (rule fd_rw_commands [of DISK_WRITE, OF _ assms(3,4,2)]) simp_all
    have e: "s1 = s\<lparr>io := io s1\<rparr>" using s1(2) by (simp add: io_only_def)
    have D: "dma s (io s1) (m, d) = (m, sectors_out ?b n m d)" for m d
      using assms(1) s1(3,4) r unfolding device_ok_def by (metis pa_buf)
    have "dma s1 = dma s" "mem s1 = mem s" "disk s1 = disk s" by (subst e, simp)+
    then have "fd_transfer DISK_WRITE (of_nat n) s = Inr (s1\<lparr>mem := mem s, disk := sectors_out ?b n (mem s) (disk s)\<rparr>)"
      using s1(1) D by (simp add: fd_transfer_def)
    then show ?thesis by (subst (asm) e) auto
  qed
qed

section \<open>Blocks\<close>

lemma region_index:
  assumes "k < 2 ^ 32" "j + n \<le> 2 ^ 32"
  shows "B + of_nat k \<in> region (B + of_nat j) n \<longleftrightarrow> j \<le> k \<and> k < j + n"
proof (cases "j \<le> k")
  case True
  then have "B + of_nat k - (B + of_nat j) = (of_nat (k - j) :: u32)" by (simp add: of_nat_diff)
  then have "unat (B + of_nat k - (B + of_nat j) :: u32) = k - j" using assms(1) by (simp only: unat_of_nat_32)
  then show ?thesis using True by (auto simp: in_region)
next
  case False
  have j: "j < 2 ^ 32 \<or> n = 0" using assms(2) by linarith
  show ?thesis
  proof (cases "n = 0")
    case n: False
    then have u: "unat (of_nat (j - k) :: u32) = j - k" using j by (intro unat_of_nat_32) simp
    then have "of_nat (j - k) \<noteq> (0 :: u32)" using False by auto
    moreover have "B + of_nat k - (B + of_nat j) = (- of_nat (j - k) :: u32)" using False by (simp add: of_nat_diff)
    ultimately have "unat (B + of_nat k - (B + of_nat j) :: u32) = 2 ^ 32 - (j - k)"
      using unat_uminus_32 [of "of_nat (j - k)"] u by simp
    then show ?thesis using False assms(2) by (simp add: in_region)
  qed simp
qed

text \<open>A node \<open>dnode\<close> whose buffer \<open>B\<close>, the field that holds its address, and the transfer buffer are apart.\<close>

definition node_buffer :: "addr \<Rightarrow> addr \<Rightarrow> 'a disk_state_scheme \<Rightarrow> bool" where
  "node_buffer dnode B s \<longleftrightarrow> ld32 (mem s) (db_buffer dnode) = B \<and>
     region (db_buffer dnode) 4 \<inter> (region B 4096 \<union> region (dma_buffer s) 1024) = {} \<and>
     region B 4096 \<inter> region (dma_buffer s) 1024 = {} \<and> device_ok (dma s) \<and> dma_reach (dma_buffer s)"

lemma part_region: "i < 4 \<Longrightarrow> region (B + of_nat (1024 * i)) 1024 \<subseteq> region B 4096"
  by (rule region_elem_array) simp_all

lemma node_buffer_frame:
  assumes "node_buffer dnode B s" "\<And>y. y \<notin> region B 4096 \<Longrightarrow> y \<notin> region (dma_buffer s) 1024 \<Longrightarrow> m y = mem s y"
  shows "node_buffer dnode B (s\<lparr>io := tr, mem := m\<rparr>)" "node_buffer dnode B (s\<lparr>mem := m\<rparr>)"
    "node_buffer dnode B (s\<lparr>mem := m, io := tr, disk := d\<rparr>)"
proof -
  have "ld32 m (db_buffer dnode) = ld32 (mem s) (db_buffer dnode)"
    using assms by (intro ld32_cong) (auto simp: node_buffer_def)
  then show "node_buffer dnode B (s\<lparr>io := tr, mem := m\<rparr>)" "node_buffer dnode B (s\<lparr>mem := m\<rparr>)"
    "node_buffer dnode B (s\<lparr>mem := m, io := tr, disk := d\<rparr>)"
    using assms(1) by (simp_all add: node_buffer_def)
qed

lemma read_part:
  assumes N: "node_buffer dnode B s" and i: "i < 4" "b < 360"
  defines "m1 \<equiv> sectors_in (dma_buffer s) (8 * b + 2 * i) (disk s) (mem s)"
  defines "m2 \<equiv> memcpy (B + of_nat (1024 * i)) (dma_buffer s) FD_BLOCK_SIZE m1"
  shows "ld32 m1 (db_buffer dnode) = B"
    "1024 * i \<le> k \<Longrightarrow> k < 1024 * i + 1024 \<Longrightarrow> m2 (B + of_nat k) = disk s (4096 * b + k)"
    "y \<notin> region (B + of_nat (1024 * i)) 1024 \<Longrightarrow> y \<notin> region (dma_buffer s) 1024 \<Longrightarrow> m2 y = mem s y"
proof -
  let ?buf = "dma_buffer s" and ?P = "region (B + of_nat (1024 * i)) 1024"
  have "y \<notin> region ?buf 1024 \<Longrightarrow> m1 y = mem s y" for y by (simp add: m1_def sectors_in_def)
  then show "ld32 m1 (db_buffer dnode) = B" using node_buffer_frame(2) [OF N, of m1] by (simp add: node_buffer_def)
  have dj: "?P \<inter> region ?buf 1024 = {}" using N part_region [OF i(1), of B] by (auto simp: node_buffer_def)
  have m2: "m2 y = (if y \<in> ?P then m1 (?buf + (y - (B + of_nat (1024 * i)))) else m1 y)" for y
    unfolding m2_def by (subst memcpy_apply) (use dj in simp_all)
  show "y \<notin> ?P \<Longrightarrow> y \<notin> region ?buf 1024 \<Longrightarrow> m2 y = mem s y" unfolding m2 by (simp add: m1_def sectors_in_def)
  assume k: "1024 * i \<le> k" "k < 1024 * i + 1024"
  then have k4: "k < 4096" using i by simp
  have inP: "B + of_nat k \<in> ?P" by (subst region_index) (use k k4 i in auto)
  have "of_nat k - of_nat (1024 * i) = (of_nat (k - 1024 * i) :: u32)" using k(1) by (simp only: of_nat_diff)
  then have d: "B + of_nat k - (B + of_nat (1024 * i)) = (of_nat (k - 1024 * i) :: u32)" by (simp only: add_diff_cancel_left)
  have u: "unat (of_nat (k - 1024 * i) :: u32) = k - 1024 * i" using k4 by (intro unat_of_nat_32) simp
  have "m2 (B + of_nat k) = m1 (?buf + of_nat (k - 1024 * i))" unfolding m2 using inP d by simp
  also have "\<dots> = disk s (512 * (8 * b + 2 * i) + (k - 1024 * i))"
  proof -
    have "k - 1024 * i < 1024" using k by linarith
    then show ?thesis unfolding m1_def sectors_in_def using u by (simp add: in_region)
  qed
  also have "512 * (8 * b + 2 * i) + (k - 1024 * i) = 4096 * b + k" using k(1) by simp
  finally show "m2 (B + of_nat k) = disk s (4096 * b + k)" .
qed

lemma read_block_loop:
  assumes "node_buffer dnode B s" "b < 360" "i + n = 4"
  shows "\<exists>tr m. read_block n (of_nat i) dnode (of_nat (8 * b)) s = Inr (s\<lparr>io := tr, mem := m\<rparr>) \<and>
    (\<forall>k. 1024 * i \<le> k \<longrightarrow> k < 4096 \<longrightarrow> m (B + of_nat k) = disk s (4096 * b + k)) \<and>
    (\<forall>k. k < 1024 * i \<longrightarrow> m (B + of_nat k) = mem s (B + of_nat k)) \<and>
    (\<forall>y. y \<notin> region B 4096 \<longrightarrow> y \<notin> region (dma_buffer s) 1024 \<longrightarrow> m y = mem s y)"
  using assms
proof (induction n arbitrary: i s)
  case 0
  have "s = s\<lparr>io := io s, mem := mem s\<rparr>" by simp
  then show ?case using 0 by (intro exI [of _ "io s"] exI [of _ "mem s"]) simp
next
  case (Suc n)
  let ?P = "region (B + of_nat (1024 * i)) 1024" and ?buf = "dma_buffer s"
  note N = Suc.prems(1) and i = Suc.prems(3)
  have i4: "i < 4" using i by simp
  define m1 where "m1 = sectors_in ?buf (8 * b + 2 * i) (disk s) (mem s)"
  define m2 where "m2 = memcpy (B + of_nat (1024 * i)) ?buf FD_BLOCK_SIZE m1"
  note R = read_part [OF N i4 Suc.prems(2), folded m1_def, folded m2_def]
  have dv: "device_ok (dma s)" "dma_reach ?buf" using N by (simp_all add: node_buffer_def)
  have "8 * b + 2 * i < 2880" using i4 Suc.prems(2) by simp
  from fd_transfer_ok(1) [OF dv this] obtain tr
    where f: "fd_transfer DISK_READ (of_nat (8 * b + 2 * i)) s = Inr (s\<lparr>io := tr, mem := m1\<rparr>)" by (auto simp: m1_def)
  let ?s = "s\<lparr>io := tr, mem := m2\<rparr>"
  have sub: "?P \<subseteq> region B 4096" by (rule part_region [OF i4])
  have "node_buffer dnode B ?s" by (rule node_buffer_frame(1) [OF N]) (use R(3) sub in blast)
  from Suc.IH [OF this Suc.prems(2), of "Suc i"] i obtain tr' m' where
    ih: "read_block n (of_nat (Suc i)) dnode (of_nat (8 * b)) ?s = Inr (?s\<lparr>io := tr', mem := m'\<rparr>)"
      "\<forall>k. 1024 * Suc i \<le> k \<longrightarrow> k < 4096 \<longrightarrow> m' (B + of_nat k) = disk s (4096 * b + k)"
      "\<forall>k. k < 1024 * Suc i \<longrightarrow> m' (B + of_nat k) = m2 (B + of_nat k)"
      "\<forall>y. y \<notin> region B 4096 \<longrightarrow> y \<notin> region ?buf 1024 \<longrightarrow> m' y = m2 y" by auto
  have "read_block (Suc n) (of_nat i) dnode (of_nat (8 * b)) s = Inr (s\<lparr>io := tr', mem := m'\<rparr>)"
  proof -
    have e: "(of_nat (8 * b) + of_nat i * 2 :: u32) = of_nat (8 * b + 2 * i)" "(of_nat i + 1 :: u32) = of_nat (Suc i)"
      "(of_nat i * FD_BLOCK_SIZE :: u32) = of_nat (1024 * i)" by simp_all
    show ?thesis unfolding read_block.simps e f using ih(1) by (simp add: Let_def R(1) m2_def [symmetric] del: of_nat_Suc of_nat_mult)
  qed
  moreover have "m' (B + of_nat k) = disk s (4096 * b + k)" if k: "1024 * i \<le> k" "k < 4096" for k
  proof (cases "k < 1024 * Suc i")
    case True
    then show ?thesis using ih(3) R(2) [of k] k by simp
  qed (use ih(2) k in simp)
  moreover have "m' (B + of_nat k) = mem s (B + of_nat k)" if k: "k < 1024 * i" for k
  proof -
    have "B + of_nat k \<notin> ?P" by (subst region_index) (use k i4 in auto)
    moreover have "B + of_nat k \<in> region B 4096" using region_index [of k 0 4096 B] k i4 by simp
    then have "B + of_nat k \<notin> region ?buf 1024" using N by (auto simp: node_buffer_def)
    ultimately show ?thesis using R(3) ih(3) k by simp
  qed
  moreover have "m' y = mem s y" if "y \<notin> region B 4096" "y \<notin> region ?buf 1024" for y
  proof -
    have "y \<notin> ?P" using sub that(1) by blast
    then show ?thesis using ih(4) R(3) [of y] that by simp
  qed
  ultimately show ?case by blast
qed

lemma read_block_ok:
  assumes "node_buffer dnode B s" "b < 360"
  obtains tr m where "read_block 4 0 dnode (of_nat (8 * b)) s = Inr (s\<lparr>io := tr, mem := m\<rparr>)"
    "\<And>k. k < 4096 \<Longrightarrow> m (B + of_nat k) = disk s (4096 * b + k)"
    "\<And>y. y \<notin> region B 4096 \<Longrightarrow> y \<notin> region (dma_buffer s) 1024 \<Longrightarrow> m y = mem s y"
  using read_block_loop [OF assms, of 0 4] by auto

lemma write_block_loop:
  assumes "node_buffer dnode B s" "b < 360" "i + n = 4"
  shows "\<exists>tr m d. write_block n (of_nat i) dnode (of_nat (8 * b)) s = Inr (s\<lparr>mem := m, io := tr, disk := d\<rparr>) \<and>
    (\<forall>k. 1024 * i \<le> k \<longrightarrow> k < 4096 \<longrightarrow> d (4096 * b + k) = mem s (B + of_nat k)) \<and>
    (\<forall>k. k < 4096 * b + 1024 * i \<or> 4096 * b + 4096 \<le> k \<longrightarrow> d k = disk s k) \<and>
    (\<forall>y. y \<notin> region (dma_buffer s) 1024 \<longrightarrow> m y = mem s y)"
  using assms
proof (induction n arbitrary: i s)
  case 0
  have "s = s\<lparr>mem := mem s, io := io s, disk := disk s\<rparr>" by simp
  then show ?case using 0 by (intro exI [of _ "io s"] exI [of _ "mem s"] exI [of _ "disk s"]) simp
next
  case (Suc n)
  let ?P = "region (B + of_nat (1024 * i)) 1024" and ?buf = "dma_buffer s"
  note N = Suc.prems(1) and i = Suc.prems(3)
  have i4: "i < 4" using i by simp
  define m1 where "m1 = memcpy ?buf (B + of_nat (1024 * i)) FD_BLOCK_SIZE (mem s)"
  let ?s1 = "s\<lparr>mem := m1\<rparr>"
  define d1 where "d1 = sectors_out ?buf (8 * b + 2 * i) m1 (disk s)"
  have sub: "?P \<subseteq> region B 4096" by (rule part_region [OF i4])
  have dj: "region ?buf 1024 \<inter> ?P = {}" using N sub by (auto simp: node_buffer_def)
  have m1: "m1 y = (if y \<in> region ?buf 1024 then mem s (B + of_nat (1024 * i) + (y - ?buf)) else mem s y)" for y
    unfolding m1_def by (subst memcpy_apply) (use dj in simp_all)
  have dv: "device_ok (dma ?s1)" "dma_reach (dma_buffer ?s1)" using N by (simp_all add: node_buffer_def)
  have "8 * b + 2 * i < 2880" using i4 Suc.prems(2) by simp
  from fd_transfer_ok(2) [OF dv this] obtain tr
    where f: "fd_transfer DISK_WRITE (of_nat (8 * b + 2 * i)) ?s1 = Inr (s\<lparr>mem := m1, io := tr, disk := d1\<rparr>)"
    by (auto simp: d1_def)
  let ?s = "s\<lparr>mem := m1, io := tr, disk := d1\<rparr>"
  have "node_buffer dnode B ?s" by (rule node_buffer_frame(3) [OF N]) (simp add: m1)
  from Suc.IH [OF this Suc.prems(2), of "Suc i"] i obtain tr' m' d' where
    ih: "write_block n (of_nat (Suc i)) dnode (of_nat (8 * b)) ?s = Inr (?s\<lparr>mem := m', io := tr', disk := d'\<rparr>)"
      "\<forall>k. 1024 * Suc i \<le> k \<longrightarrow> k < 4096 \<longrightarrow> d' (4096 * b + k) = m1 (B + of_nat k)"
      "\<forall>k. k < 4096 * b + 1024 * Suc i \<or> 4096 * b + 4096 \<le> k \<longrightarrow> d' k = d1 k"
      "\<forall>y. y \<notin> region ?buf 1024 \<longrightarrow> m' y = m1 y" by auto
  have B: "m1 (B + of_nat k) = mem s (B + of_nat k)" if "k < 4096" for k
  proof -
    have "B + of_nat k \<in> region B 4096" using region_index [of k 0 4096 B] that by simp
    then show ?thesis using N by (auto simp: m1 node_buffer_def)
  qed
  have d1: "d1 (4096 * b + k) = mem s (B + of_nat k)" if k: "1024 * i \<le> k" "k < 1024 * Suc i" for k
  proof -
    have "512 * (8 * b + 2 * i) = 4096 * b + 1024 * i" by simp
    then have "d1 (4096 * b + k) = m1 (?buf + of_nat (k - 1024 * i))" using k by (simp add: d1_def sectors_out_def)
    moreover have "?buf + of_nat (k - 1024 * i) \<in> region ?buf 1024" using region_index [of "k - 1024 * i" 0 1024 ?buf] k i4 by simp
    ultimately have "d1 (4096 * b + k) = mem s (B + of_nat (1024 * i) + of_nat (k - 1024 * i))" by (simp add: m1)
    moreover have "of_nat (1024 * i) + of_nat (k - 1024 * i) = (of_nat k :: u32)" using k(1) by (metis le_add_diff_inverse of_nat_add)
    ultimately show ?thesis by (metis add.assoc)
  qed
  have dd: "d1 k = disk s k" if "k < 4096 * b + 1024 * i \<or> 4096 * b + 1024 * Suc i \<le> k" for k
    using that by (auto simp: d1_def sectors_out_def)
  have "write_block (Suc n) (of_nat i) dnode (of_nat (8 * b)) s = Inr (s\<lparr>mem := m', io := tr', disk := d'\<rparr>)"
  proof -
    have e: "(of_nat (8 * b) + of_nat i * 2 :: u32) = of_nat (8 * b + 2 * i)" "(of_nat i + 1 :: u32) = of_nat (Suc i)"
      "(of_nat i * FD_BLOCK_SIZE :: u32) = of_nat (1024 * i)" by simp_all
    have "ld32 (mem s) (db_buffer dnode) = B" using N by (simp add: node_buffer_def)
    then show ?thesis unfolding write_block.simps e Let_def m1_def [symmetric] using ih(1) f
      by (simp add: m1_def [symmetric] del: of_nat_Suc of_nat_mult)
  qed
  moreover have "d' (4096 * b + k) = mem s (B + of_nat k)" if k: "1024 * i \<le> k" "k < 4096" for k
  proof (cases "k < 1024 * Suc i")
    case True
    then show ?thesis using ih(3) d1 k by simp
  qed (use ih(2) B k in simp)
  moreover have "d' k = disk s k" if "k < 4096 * b + 1024 * i \<or> 4096 * b + 4096 \<le> k" for k
    using ih(3) dd that i4 by auto
  moreover have "m' y = mem s y" if "y \<notin> region ?buf 1024" for y using ih(4) that by (simp add: m1)
  ultimately show ?case by blast
qed

lemma write_block_ok:
  assumes "node_buffer dnode B s" "b < 360"
  obtains tr m d where "write_block 4 0 dnode (of_nat (8 * b)) s = Inr (s\<lparr>mem := m, io := tr, disk := d\<rparr>)"
    "\<And>k. k < 4096 \<Longrightarrow> d (4096 * b + k) = mem s (B + of_nat k)"
    "\<And>k. k < 4096 * b \<or> 4096 * b + 4096 \<le> k \<Longrightarrow> d k = disk s k"
    "\<And>y. y \<notin> region (dma_buffer s) 1024 \<Longrightarrow> m y = mem s y"
proof -
  have "0 + 4 = (4 :: nat)" by simp
  from write_block_loop [OF assms this] obtain tr m d where w: "write_block 4 (of_nat 0) dnode (of_nat (8 * b)) s = Inr (s\<lparr>mem := m, io := tr, disk := d\<rparr>)"
    "\<forall>k. 1024 * 0 \<le> k \<longrightarrow> k < 4096 \<longrightarrow> d (4096 * b + k) = mem s (B + of_nat k)"
    "\<forall>k. k < 4096 * b + 1024 * 0 \<or> 4096 * b + 4096 \<le> k \<longrightarrow> d k = disk s k"
    "\<forall>y. y \<notin> region (dma_buffer s) 1024 \<longrightarrow> m y = mem s y"
    by (elim exE conjE) (rule that)
  show thesis
  proof (rule that)
    show "write_block 4 0 dnode (of_nat (8 * b)) s = Inr (s\<lparr>mem := m, io := tr, disk := d\<rparr>)" using w(1) by simp
    show "d (4096 * b + k) = mem s (B + of_nat k)" if "k < 4096" for k using w(2) that by simp
    show "d k = disk s k" if "k < 4096 * b \<or> 4096 * b + 4096 \<le> k" for k using w(3) that by auto
    show "m y = mem s y" if "y \<notin> region (dma_buffer s) 1024" for y using w(4) that by simp
  qed
qed

end
