(* ===== verification/Cache.thy ===== *)
theory Cache
  imports DiskTransfer
begin

text \<open>
  The cache of disk blocks as its clients see it. \<open>V\<close> is the content of the disk by block and byte as the
  clients have written it; \<open>H\<close> are the blocks that were taken and not yet put back. A block in the cache has
  this content in its page, and a block that is not held has it on the disk.
\<close>

section \<open>The invariant\<close>

definition blkno :: "memory \<Rightarrow> addr \<Rightarrow> nat" where
  "blkno m n = unat (ld32 m (db_block_num n))"

definition bufaddr :: "memory \<Rightarrow> addr \<Rightarrow> addr" where
  "bufaddr m n = ld32 m (db_buffer n)"

definition busy :: "memory \<Rightarrow> addr \<Rightarrow> bool" where
  "busy m n \<longleftrightarrow> ld32 m (db_flags n) AND DISK_BUFFER_BUSY \<noteq> 0"

definition cached :: "(nat \<Rightarrow> addr list) \<Rightarrow> addr set" where
  "cached Q = (\<Union>i<13. set (Q i))"

text \<open>
  The 13 lists \<open>Q\<close> of nodes; nodes, pages, list heads and the transfer buffer are blocks of \<open>L\<close>, which keeps
  them apart from each other and from the allocators.
\<close>

definition cache_rep :: "'a disk_state_scheme \<Rightarrow> (addr \<rightharpoonup> nat) \<Rightarrow> (nat \<Rightarrow> addr list) \<Rightarrow> bool" where
  "cache_rep s L Q \<longleftrightarrow> pool_inv s L \<and> L (db_head s) = Some 104 \<and> L (dma_buffer s) = Some 1024 \<and>
     dma_reach (dma_buffer s) \<and> device_ok (dma s) \<and>
     (\<forall>i<13. dll (mem s) (db_head_at (of_nat i) s) (Q i)) \<and>
     (\<forall>i<13. \<forall>n\<in>set (Q i). L n = Some 20 \<and> L (bufaddr (mem s) n) = Some 4096 \<and>
        blkno (mem s) n < 360 \<and> blkno (mem s) n mod 13 = i) \<and>
     inj_on (bufaddr (mem s)) (cached Q) \<and> inj_on (blkno (mem s)) (cached Q)"

definition cache_holds :: "'a disk_state_scheme \<Rightarrow> (nat \<Rightarrow> addr list) \<Rightarrow> (nat \<Rightarrow> nat \<Rightarrow> u8) \<Rightarrow> nat set \<Rightarrow> bool" where
  "cache_holds s Q V H \<longleftrightarrow>
     (\<forall>b<360. \<forall>k<4096. b \<notin> H \<longrightarrow> disk s (4096 * b + k) = V b k) \<and>
     (\<forall>n\<in>cached Q. \<forall>k<4096. mem s (bufaddr (mem s) n + of_nat k) = V (blkno (mem s) n) k) \<and>
     (\<forall>n\<in>cached Q. busy (mem s) n \<longleftrightarrow> blkno (mem s) n \<in> H) \<and> H \<subseteq> blkno (mem s) ` cached Q"

definition cache_inv ::
  "'a disk_state_scheme \<Rightarrow> (addr \<rightharpoonup> nat) \<Rightarrow> (nat \<Rightarrow> addr list) \<Rightarrow> (nat \<Rightarrow> nat \<Rightarrow> u8) \<Rightarrow> nat set \<Rightarrow> bool" where
  "cache_inv s L Q V H \<longleftrightarrow> cache_rep s L Q \<and> cache_holds s Q V H"

lemma cache_repD:
  assumes "cache_rep s L Q"
  shows "pool_inv s L" "L (db_head s) = Some 104" "L (dma_buffer s) = Some 1024" "dma_reach (dma_buffer s)" "device_ok (dma s)"
    "i < 13 \<Longrightarrow> dll (mem s) (db_head_at (of_nat i) s) (Q i)" "inj_on (bufaddr (mem s)) (cached Q)" "inj_on (blkno (mem s)) (cached Q)"
    "i < 13 \<Longrightarrow> n \<in> set (Q i) \<Longrightarrow> blkno (mem s) n mod 13 = i"
  using assms unfolding cache_rep_def by blast+

lemma cached_node:
  assumes "cache_rep s L Q" "n \<in> cached Q"
  shows "L n = Some 20" "L (bufaddr (mem s) n) = Some 4096" "blkno (mem s) n < 360" "n \<in> set (Q (blkno (mem s) n mod 13))"
  using assms unfolding cache_rep_def cached_def by auto

section \<open>What is apart\<close>

lemma blocks_apart:
  "cache_rep s L Q \<Longrightarrow> L p = Some a \<Longrightarrow> L q = Some b \<Longrightarrow> p \<noteq> q \<Longrightarrow> region p a \<inter> region q b = {}"
  using pool_inv_apart cache_repD(1) by blast

lemma block_ne: "L p = Some a \<Longrightarrow> L q = Some b \<Longrightarrow> a \<noteq> b \<Longrightarrow> p \<noteq> q"
  by auto

lemma head_region:
  assumes "i < 13"
  shows "region (db_head_at (of_nat i) s) 8 \<subseteq> region (db_head s) 104"
    "j < 13 \<Longrightarrow> j \<noteq> i \<Longrightarrow> region (db_head_at (of_nat i) s) 8 \<inter> region (db_head_at (of_nat j) s) 8 = {}"
proof -
  have e: "db_head_at (of_nat k) s = db_head s + of_nat (8 * k)" for k by (simp add: db_head_at_def)
  show "region (db_head_at (of_nat i) s) 8 \<subseteq> region (db_head s) 104"
    unfolding e by (rule region_elem_array) (use assms in simp_all)
  show "j < 13 \<Longrightarrow> j \<noteq> i \<Longrightarrow> region (db_head_at (of_nat i) s) 8 \<inter> region (db_head_at (of_nat j) s) 8 = {}"
    unfolding e by (rule region_array) (use assms in simp_all)
qed

lemma node_parts: "region n 8 \<subseteq> region n 20" "region (n + 8) 4 \<subseteq> region n 20" "region (n + 12) 4 \<subseteq> region n 20"
    "region (n + 16) 4 \<subseteq> region n 20" "region n 8 \<inter> region (n + 8) 4 = {}" "region n 8 \<inter> region (n + 12) 4 = {}"
    "region n 8 \<inter> region (n + 16) 4 = {}" "region (n + 8) 4 \<inter> region (n + 12) 4 = {}" "region (n + 8) 4 \<inter> region (n + 16) 4 = {}"
    "region (n + 12) 4 \<inter> region (n + 16) 4 = {}"
  by (rule region_mono region_offset_subset region_apartI; simp)+

text \<open>The links of the cache: heads and nodes.\<close>

definition link_space :: "'a disk_state_scheme \<Rightarrow> (nat \<Rightarrow> addr list) \<Rightarrow> addr set" where
  "link_space s Q = region (db_head s) 104 \<union> (\<Union>n\<in>cached Q. region n 8)"

lemma ring_links:
  assumes "cache_rep s L Q" "i < 13" "l \<in> set (db_head_at (of_nat i) s # Q i)"
  shows "region l 8 \<subseteq> link_space s Q"
  using assms(2,3) head_region(1) [OF assms(2), of s] by (auto simp: link_space_def cached_def)

lemma fields_apart:
  assumes R: "cache_rep s L Q" and n: "L n = Some 20"
  shows "region (n + 8) 4 \<inter> link_space s Q = {}" "region (n + 12) 4 \<inter> link_space s Q = {}" "region (n + 16) 4 \<inter> link_space s Q = {}"
proof -
  have "n \<noteq> db_head s" by (rule block_ne [where L = L, OF n cache_repD(2) [OF R]]) simp
  then have h: "region n 20 \<inter> region (db_head s) 104 = {}" using blocks_apart [OF R n cache_repD(2) [OF R]] by blast
  have x: "x = n \<or> region x 8 \<inter> region n 20 = {}" if "x \<in> cached Q" for x
    using blocks_apart [OF R cached_node(1) [OF R that] n] node_parts(1) [of x] by blast
  show "region (n + 8) 4 \<inter> link_space s Q = {}" "region (n + 12) 4 \<inter> link_space s Q = {}" "region (n + 16) 4 \<inter> link_space s Q = {}"
    unfolding link_space_def using h x node_parts [of n] by blast+
qed

lemma block_apart_links:
  assumes R: "cache_rep s L Q" and q: "L q = Some l" "q \<noteq> db_head s" "q \<notin> cached Q"
  shows "region q l \<inter> link_space s Q = {}"
proof -
  have "region q l \<inter> region (db_head s) 104 = {}" using blocks_apart [OF R q(1) cache_repD(2) [OF R] q(2)] .
  moreover have "region q l \<inter> region x 8 = {}" if "x \<in> cached Q" for x
    using blocks_apart [OF R q(1) cached_node(1) [OF R that]] q(3) that node_parts(1) [of x] by blast
  ultimately show ?thesis unfolding link_space_def by blast
qed

lemma buffer_apart_links:
  assumes R: "cache_rep s L Q" and n: "n \<in> cached Q"
  shows "region (bufaddr (mem s) n) 4096 \<inter> link_space s Q = {}"
proof (rule block_apart_links [OF R cached_node(2) [OF R n]])
  show "bufaddr (mem s) n \<noteq> db_head s" by (rule block_ne [where L = L, OF cached_node(2) [OF R n] cache_repD(2) [OF R]]) simp
  show "bufaddr (mem s) n \<notin> cached Q"
  proof
    assume "bufaddr (mem s) n \<in> cached Q"
    then show False using cached_node(1) [OF R] cached_node(2) [OF R n] by fastforce
  qed
qed

lemma links_wsep:
  assumes R: "cache_rep s L Q"
  shows "wsep (cached Q \<union> (\<lambda>i. db_head_at (of_nat i) s) ` {..<13})"
  unfolding wsep_def
proof (intro ballI impI)
  let ?h = "\<lambda>i :: nat. db_head_at (of_nat i) s"
  have nn: "region a 8 \<inter> region b 8 = {}" if "a \<in> cached Q" "b \<in> cached Q" "a \<noteq> b" for a b
    using blocks_apart [OF R cached_node(1) [OF R that(1)] cached_node(1) [OF R that(2)] that(3)] node_parts(1) [of a] node_parts(1) [of b]
    by blast
  have nh: "region a 8 \<inter> region (?h i) 8 = {}" if "a \<in> cached Q" "i < 13" for a i
  proof -
    have "a \<noteq> db_head s" using cached_node(1) [OF R that(1)] cache_repD(2) [OF R] by auto
    then have "region a 20 \<inter> region (db_head s) 104 = {}"
      using blocks_apart [OF R cached_node(1) [OF R that(1)] cache_repD(2) [OF R]] by blast
    then show ?thesis using head_region(1) [OF that(2), of s] node_parts(1) [of a] by blast
  qed
  fix a b assume ab: "a \<in> cached Q \<union> ?h ` {..<13}" "b \<in> cached Q \<union> ?h ` {..<13}" "a \<noteq> b"
  then consider "a \<in> cached Q" "b \<in> cached Q" | i where "a \<in> cached Q" "b = ?h i" "i < 13"
    | i where "b \<in> cached Q" "a = ?h i" "i < 13" | i j where "a = ?h i" "b = ?h j" "i < 13" "j < 13" by blast
  then show "region a 8 \<inter> region b 8 = {}"
  proof cases
    case 1
    then show ?thesis using nn ab(3) by blast
  next
    case 2
    show ?thesis unfolding 2(2) by (rule nh [OF 2(1,3)])
  next
    case 3
    show ?thesis unfolding 3(2) using nh [OF 3(1,3)] by (simp only: Int_commute)
  next
    case 4
    then have "i \<noteq> j" using ab(3) by blast
    then show ?thesis unfolding 4(1,2) using head_region(2) [OF 4(3,4)] by blast
  qed
qed

section \<open>The search\<close>

lemma find_dnode_walk:
  assumes "successively (linked m) (xs @ [h])" "\<forall>x\<in>set xs. x \<noteq> h \<and> x \<noteq> 0"
  shows "find_dnode_loop m h block (hd (xs @ [h])) =
    Some (case List.find (\<lambda>n. ld32 m (db_block_num n) = block) xs of None \<Rightarrow> 0 | Some n \<Rightarrow> n)"
  using assms
proof (induction xs)
  case Nil
  show ?case by (subst find_dnode_loop.simps) simp
next
  case (Cons x xs)
  have "linked m x (hd (xs @ [h]))" "successively (linked m) (xs @ [h])" using Cons.prems(1) by (cases xs; simp)+
  then have "nxt m x = hd (xs @ [h])" "successively (linked m) (xs @ [h])" by (simp_all add: linked_def)
  then show ?case using Cons by (subst find_dnode_loop.simps) simp
qed

lemma block_index:
  assumes "b < 360"
  shows "(of_nat b :: u32) mod DISK_BUFFER_MOD = of_nat (b mod 13)" "unat (of_nat b :: u32) = b"
proof -
  show u: "unat (of_nat b :: u32) = b" by (rule unat_of_nat_32) (use assms in simp)
  show "(of_nat b :: u32) mod DISK_BUFFER_MOD = of_nat (b mod 13)"
    using u by (simp add: word_unat_eq_iff unat_mod unat_of_nat_32)
qed

lemma find_dnode_ring:
  assumes R: "cache_rep s L Q" and b: "b < 360"
  shows "find_dnode (of_nat b) s = Some (case List.find (\<lambda>n. blkno (mem s) n = b) (Q (b mod 13)) of None \<Rightarrow> 0 | Some n \<Rightarrow> n)"
proof -
  let ?i = "b mod 13" let ?h = "db_head_at (of_nat ?i) s"
  have i: "?i < 13" by simp
  note d = cache_repD(6) [OF R i]
  have "successively (linked (mem s)) (Q ?i @ [?h])" using d by (cases "Q ?i") (auto simp: dll_def)
  moreover have "x \<noteq> ?h \<and> x \<noteq> 0" if x: "x \<in> set (Q ?i)" for x
  proof -
    have "x \<in> cached Q" using x by (auto simp: cached_def)
    from cached_node(1) [OF R this] have "x \<noteq> 0" using km.null_not_block [OF cache_repD(1) [OF R]] by blast
    then show ?thesis using d x by (auto simp: dll_def)
  qed
  ultimately have "find_dnode_loop (mem s) ?h (of_nat b) (hd (Q ?i @ [?h])) =
      Some (case List.find (\<lambda>n. ld32 (mem s) (db_block_num n) = of_nat b) (Q ?i) of None \<Rightarrow> 0 | Some n \<Rightarrow> n)"
    by (intro find_dnode_walk) auto
  moreover have "nxt (mem s) ?h = hd (Q ?i @ [?h])" using dll_head [OF d] by blast
  moreover have "(ld32 (mem s) (db_block_num n) = of_nat b) = (blkno (mem s) n = b)" for n
    using block_index(2) [OF b] by (auto simp: blkno_def word_unat_eq_iff)
  ultimately show ?thesis using block_index(1) [OF b] by (simp add: find_dnode_def)
qed

lemma find_dnode_hit:
  assumes R: "cache_rep s L Q" and n: "n \<in> cached Q" "blkno (mem s) n = b"
  shows "find_dnode (of_nat b) s = Some n" "n \<noteq> 0" "b < 360" "n \<in> set (Q (b mod 13))"
proof -
  show b: "b < 360" using cached_node(3) [OF R n(1)] n(2) by simp
  show q: "n \<in> set (Q (b mod 13))" using cached_node(4) [OF R n(1)] n(2) by simp
  show "n \<noteq> 0" using km.null_not_block [OF cache_repD(1) [OF R] cached_node(1) [OF R n(1)]] .
  have "List.find (\<lambda>x. blkno (mem s) x = b) (Q (b mod 13)) = Some n"
  proof (cases "List.find (\<lambda>x. blkno (mem s) x = b) (Q (b mod 13))")
    case None
    then show ?thesis using q n(2) by (auto simp: find_None_iff)
  next
    case (Some x)
    then have "x \<in> set (Q (b mod 13))" "blkno (mem s) x = b" by (auto simp: find_Some_iff)
    then have "x \<in> cached Q" "blkno (mem s) x = blkno (mem s) n" using n(2) by (auto simp: cached_def)
    then have "x = n" using inj_onD [OF cache_repD(8) [OF R]] n(1) by blast
    then show ?thesis using Some by simp
  qed
  then show "find_dnode (of_nat b) s = Some n" using find_dnode_ring [OF R b] by simp
qed

lemma find_dnode_miss:
  assumes R: "cache_rep s L Q" and b: "b < 360" "b \<notin> blkno (mem s) ` cached Q"
  shows "find_dnode (of_nat b) s = Some 0"
proof -
  have "List.find (\<lambda>n. blkno (mem s) n = b) (Q (b mod 13)) = None"
    using b(2) unfolding find_None_iff cached_def by force
  then show ?thesis using find_dnode_ring [OF R b(1)] by simp
qed

section \<open>Moving and adding nodes\<close>

abbreviation head_at :: "'a disk_state_scheme \<Rightarrow> nat \<Rightarrow> addr" where "head_at s i \<equiv> db_head_at (of_nat i) s"

lemma region8_ne: "region a 8 \<inter> region b 8 = {} \<Longrightarrow> a \<noteq> b"
  using region_self [of 8 a] by (metis disjoint_iff zero_less_numeral)

lemma rings_disjoint:
  assumes R: "cache_rep s L Q"
  shows "\<forall>i<13. \<forall>j<13. i \<noteq> j \<longrightarrow> set (head_at s i # Q i) \<inter> set (head_at s j # Q j) = {}"
proof (intro allI impI)
  fix i j :: nat assume ij: "i < 13" "j < 13" "i \<noteq> j"
  have "set (Q i) \<inter> set (Q j) = {}" using cache_repD(9) [OF R ij(1)] cache_repD(9) [OF R ij(2)] ij(3) by force
  moreover have "head_at s i \<noteq> head_at s j" using region8_ne [OF head_region(2) [OF ij(1,2)]] ij(3) by blast
  moreover have "a \<noteq> head_at s k" if "a \<in> cached Q" "k < 13" for a k
  proof -
    have "a \<noteq> db_head s" by (rule block_ne [where L = L, OF cached_node(1) [OF R that(1)] cache_repD(2) [OF R]]) simp
    then have "region a 20 \<inter> region (db_head s) 104 = {}"
      using blocks_apart [OF R cached_node(1) [OF R that(1)] cache_repD(2) [OF R]] by blast
    then have "region a 8 \<inter> region (head_at s k) 8 = {}" using head_region(1) [OF that(2), of s] node_parts(1) [of a] by blast
    then show ?thesis by (rule region8_ne)
  qed
  then have "a \<noteq> head_at s k" if "a \<in> set (Q i) \<union> set (Q j)" "k < 13" for a k using that ij unfolding cached_def by blast
  ultimately show "set (head_at s i # Q i) \<inter> set (head_at s j # Q j) = {}" using ij by auto
qed

lemma rings_family:
  assumes R: "cache_rep s L Q" and m: "\<And>y. y \<in> link_space s Q \<Longrightarrow> m y = mem s y"
  shows "\<forall>i<13. dll m (head_at s i) (Q i) \<and> set (head_at s i # Q i) \<subseteq> cached Q \<union> head_at s ` {..<13}"
proof (intro allI impI conjI)
  fix i :: nat assume i: "i < 13"
  show "dll m (head_at s i) (Q i)"
    by (rule dll_byte_cong [OF cache_repD(6) [OF R i]]) (use ring_links [OF R i] m in blast)
  show "set (head_at s i # Q i) \<subseteq> cached Q \<union> head_at s ` {..<13}" using i by (auto simp: cached_def)
qed

lemma ring_bytes:
  assumes R: "cache_rep s L Q" and i: "i < 13" and d: "dll m (head_at s i) xs" "set xs \<subseteq> set (Q i)"
    and l: "l \<in> set (head_at s i # xs)" and y: "y \<notin> link_space s Q"
  shows "list_remove l m y = m y" "y \<notin> region n 8 \<Longrightarrow> list_insert_after n l m y = m y"
proof -
  have "y \<notin> region a 8" if "a \<in> set (head_at s i # xs)" for a
    using ring_links [OF R i, of a] that d(2) y by auto
  then have "y \<notin> region l 8" "y \<notin> region (nxt m l) 8" "y \<notin> region (prv m l) 8"
    using l dll_neighbours [OF d(1) l] by blast+
  then show "list_remove l m y = m y" "y \<notin> region n 8 \<Longrightarrow> list_insert_after n l m y = m y"
    by (simp_all add: list_remove_out list_insert_after_out)
qed

lemma move_front:
  assumes R: "cache_rep s L Q" and m: "\<And>y. y \<in> link_space s Q \<Longrightarrow> m y = mem s y"
    and i: "i < 13" "Q i = as @ n # bs"
  defines "m' \<equiv> list_insert_after n (head_at s i) (list_remove n m)"
  shows "\<forall>j<13. dll m' (head_at s j) ((Q(i := n # as @ bs)) j)" "y \<notin> link_space s Q \<Longrightarrow> m' y = m y"
proof -
  let ?S = "cached Q \<union> head_at s ` {..<13}" and ?Q = "Q(i := as @ bs)"
  note F = rings_family [OF R m] and D = rings_disjoint [OF R] and W = links_wsep [OF R]
  note r = lr.family_rem [OF F D W i]
  have ni: "n \<in> set (Q i)" using i(2) by simp
  have nc: "n \<in> cached Q" using ni i(1) by (auto simp: cached_def)
  have di: "dll m (head_at s i) (Q i)" using F i(1) by blast
  have nn: "\<forall>j<13. n \<notin> set (head_at s j # ?Q j)"
  proof (intro allI impI)
    fix j :: nat assume j: "j < 13"
    show "n \<notin> set (head_at s j # ?Q j)"
    proof (cases "j = i")
      case True
      then show ?thesis using lr.rep_distinct [OF di] i(2) by auto
    next
      case False
      then have "set (head_at s i # Q i) \<inter> set (head_at s j # Q j) = {}" using D i(1) j by blast
      then show ?thesis using ni False by auto
    qed
  qed
  have nS: "n \<in> ?S" using nc by blast
  note f = lr.family_ins_after [OF r W nS nn i(1)]
  have "(?Q(i := n # ?Q i)) = Q(i := n # as @ bs)" by simp
  then show "\<forall>j<13. dll m' (head_at s j) ((Q(i := n # as @ bs)) j)" using f(1) unfolding m'_def by presburger
  assume y: "y \<notin> link_space s Q"
  have d1: "dll (list_remove n m) (head_at s i) (as @ bs)" using r(1) i(1) by (metis fun_upd_same)
  have "region n 8 \<subseteq> link_space s Q" using nc by (auto simp: link_space_def)
  then have "y \<notin> region n 8" using y by blast
  then have "m' y = list_remove n m y"
    unfolding m'_def by (intro ring_bytes(2) [OF R i(1) d1 _ _ y]) (auto simp: i(2))
  also have "\<dots> = m y" by (rule ring_bytes(1) [OF R i(1) di subset_refl _ y]) (use ni in simp)
  finally show "m' y = m y" .
qed

lemma add_front:
  assumes R: "cache_rep s L Q" and m: "\<And>y. y \<in> link_space s Q \<Longrightarrow> m y = mem s y"
    and i: "i < 13" and n: "region n 8 \<inter> link_space s Q = {}"
  defines "m' \<equiv> list_insert_after n (head_at s i) m"
  shows "\<forall>j<13. dll m' (head_at s j) ((Q(i := n # Q i)) j)" "y \<notin> link_space s Q \<Longrightarrow> y \<notin> region n 8 \<Longrightarrow> m' y = m y"
proof -
  let ?S = "insert n (cached Q \<union> head_at s ` {..<13})"
  note F = rings_family [OF R m] and D = rings_disjoint [OF R] and W = links_wsep [OF R]
  have l: "region a 8 \<inter> region n 8 = {}" if "a \<in> cached Q \<union> head_at s ` {..<13}" for a
  proof -
    have "region a 8 \<subseteq> link_space s Q" using that head_region(1) by (fastforce simp: link_space_def)
    then show ?thesis using n by blast
  qed
  have W': "wsep ?S"
    unfolding wsep_def
  proof (intro ballI impI)
    fix a b assume ab: "a \<in> ?S" "b \<in> ?S" "a \<noteq> b"
    consider "a = n" "b \<noteq> n" | "b = n" "a \<noteq> n" | "a \<noteq> n" "b \<noteq> n" using ab(3) by blast
    then show "region a 8 \<inter> region b 8 = {}"
    proof cases
      case 1
      then show ?thesis using l [of b] ab(2) by auto
    next
      case 2
      then show ?thesis using l [of a] ab(1) by auto
    next
      case 3
      then show ?thesis using W ab unfolding wsep_def by blast
    qed
  qed
  have F': "\<forall>i<13. dll m (head_at s i) (Q i) \<and> set (head_at s i # Q i) \<subseteq> ?S" using F by blast
  have nn: "\<forall>j<13. n \<notin> set (head_at s j # Q j)"
  proof (intro allI impI notI)
    fix j :: nat assume "j < 13" "n \<in> set (head_at s j # Q j)"
    then have "n \<in> cached Q \<union> head_at s ` {..<13}" by (auto simp: cached_def)
    from region8_ne [OF l [OF this]] show False by simp
  qed
  show "\<forall>j<13. dll m' (head_at s j) ((Q(i := n # Q i)) j)"
    using lr.family_ins_after(1) [OF F' D W' insertI1 nn i] unfolding m'_def by blast
  have di: "dll m (head_at s i) (Q i)" using F i by blast
  show "y \<notin> link_space s Q \<Longrightarrow> y \<notin> region n 8 \<Longrightarrow> m' y = m y"
    unfolding m'_def by (rule ring_bytes(2) [OF R i di subset_refl]) simp_all
qed

section \<open>Steps that keep the cache\<close>

definition disk_frame :: "'a disk_state_scheme \<Rightarrow> 'a disk_state_scheme \<Rightarrow> bool" where
  "disk_frame s s' \<longleftrightarrow> s' = s\<lparr>mem := mem s', io := io s', free_page_count := free_page_count s', malloc_list := malloc_list s', disk := disk s'\<rparr>"

lemma disk_frameD:
  assumes "disk_frame s s'"
  shows "db_head s' = db_head s" "dma_buffer s' = dma_buffer s" "dma s' = dma s" "head_at s' i = head_at s i"
    "link_space s' Q = link_space s Q"
proof -
  obtain m t c l d where "s' = s\<lparr>mem := m, io := t, free_page_count := c, malloc_list := l, disk := d\<rparr>"
    using assms unfolding disk_frame_def by blast
  then show "db_head s' = db_head s" "dma_buffer s' = dma_buffer s" "dma s' = dma s" "head_at s' i = head_at s i"
    "link_space s' Q = link_space s Q"
    by (simp_all add: db_head_at_def link_space_def)
qed

lemma disk_frame_trans: "disk_frame s t \<Longrightarrow> disk_frame t u \<Longrightarrow> disk_frame s u"
proof -
  assume "disk_frame s t" "disk_frame t u"
  then obtain m i c l d m' i' c' l' d' where
    "t = s\<lparr>mem := m, io := i, free_page_count := c, malloc_list := l, disk := d\<rparr>"
    "u = t\<lparr>mem := m', io := i', free_page_count := c', malloc_list := l', disk := d'\<rparr>" unfolding disk_frame_def by blast
  then show "disk_frame s u" by (simp add: disk_frame_def)
qed

lemma disk_frame_updates:
  fixes s :: "'a disk_state_scheme"
  shows "disk_frame s s" "disk_frame s (s\<lparr>mem := m\<rparr>)" "disk_frame s (s\<lparr>io := t, mem := m\<rparr>)" "disk_frame s (s\<lparr>mem := m, io := t, disk := d\<rparr>)"
    "heap_frame s s' \<Longrightarrow> disk_frame s s'"
proof -
  show "disk_frame s s" "disk_frame s (s\<lparr>mem := m\<rparr>)" "disk_frame s (s\<lparr>io := t, mem := m\<rparr>)" "disk_frame s (s\<lparr>mem := m, io := t, disk := d\<rparr>)"
    by (simp_all add: disk_frame_def)
  assume "heap_frame s s'"
  then obtain m c l where "s' = s\<lparr>mem := m, free_page_count := c, malloc_list := l\<rparr>" unfolding heap_frame_def by blast
  then show "disk_frame s s'" by (simp add: disk_frame_def)
qed

lemma cache_rep_step:
  assumes R: "cache_rep s L Q" and fr: "disk_frame s s'" and P: "pool_inv s' L'" and le: "L \<subseteq>\<^sub>m L'"
    and d: "\<forall>i<13. dll (mem s') (head_at s i) (Q' i)" and Q: "\<And>i. i < 13 \<Longrightarrow> set (Q' i) = set (Q i)"
    and f: "\<And>n. n \<in> cached Q \<Longrightarrow> bufaddr (mem s') n = bufaddr (mem s) n \<and> blkno (mem s') n = blkno (mem s) n"
  shows "cache_rep s' L' Q'" "cached Q' = cached Q"
proof -
  have L: "L q = Some n \<Longrightarrow> L' q = Some n" for q n using le by (force simp: map_le_def)
  show c: "cached Q' = cached Q" using Q unfolding cached_def by simp
  note D = disk_frameD [OF fr]
  have "\<forall>i<13. \<forall>n\<in>set (Q' i). L' n = Some 20 \<and> L' (bufaddr (mem s') n) = Some 4096 \<and> blkno (mem s') n < 360 \<and> blkno (mem s') n mod 13 = i"
  proof (intro allI impI ballI)
    fix i n assume i: "i < 13" and "n \<in> set (Q' i)"
    then have n: "n \<in> set (Q i)" "n \<in> cached Q" using Q [OF i] by (auto simp: cached_def)
    show "L' n = Some 20 \<and> L' (bufaddr (mem s') n) = Some 4096 \<and> blkno (mem s') n < 360 \<and> blkno (mem s') n mod 13 = i"
      using L cached_node(1-3) [OF R n(2)] cache_repD(9) [OF R i n(1)] f [OF n(2)] by simp
  qed
  moreover have "inj_on (bufaddr (mem s')) (cached Q)" "inj_on (blkno (mem s')) (cached Q)"
    using f cache_repD(7,8) [OF R] by (simp_all add: inj_on_def)
  ultimately show "cache_rep s' L' Q'"
    unfolding cache_rep_def D c using P d L [OF cache_repD(2) [OF R]] L [OF cache_repD(3) [OF R]] cache_repD(4,5) [OF R] by blast
qed

lemma cache_holds_step:
  assumes h: "cache_holds s Q V H" and c: "cached Q' = cached Q"
    and f: "\<And>n. n \<in> cached Q \<Longrightarrow> bufaddr (mem s') n = bufaddr (mem s) n \<and> blkno (mem s') n = blkno (mem s) n"
    and B: "\<And>n y. n \<in> cached Q \<Longrightarrow> y \<in> region (bufaddr (mem s) n) 4096 \<Longrightarrow> mem s' y = mem s y"
    and D: "\<And>b k. b < 360 \<Longrightarrow> k < 4096 \<Longrightarrow> b \<notin> H' \<Longrightarrow> disk s' (4096 * b + k) = V b k"
    and F: "\<And>n. n \<in> cached Q \<Longrightarrow> busy (mem s') n \<longleftrightarrow> blkno (mem s) n \<in> H'" and H: "H' \<subseteq> blkno (mem s) ` cached Q"
  shows "cache_holds s' Q' V H'"
proof -
  have "mem s' (bufaddr (mem s') n + of_nat k) = V (blkno (mem s') n) k" if "n \<in> cached Q" "k < 4096" for n k
  proof -
    have "bufaddr (mem s) n + of_nat k \<in> region (bufaddr (mem s) n) 4096"
      using region_index [of k 0 4096 "bufaddr (mem s) n"] that(2) by simp
    then show ?thesis using B [OF that(1)] f [OF that(1)] h that unfolding cache_holds_def by simp
  qed
  moreover have "blkno (mem s') ` cached Q = blkno (mem s) ` cached Q" using f by (intro image_cong) auto
  ultimately show ?thesis using D F f H unfolding cache_holds_def c by simp
qed

lemma heap_same_io:
  fixes s :: "'a disk_state_scheme"
  shows "pool_inv s L \<Longrightarrow> pool_inv (s\<lparr>io := t\<rparr>) L" "pool_inv s L \<Longrightarrow> pool_inv (s\<lparr>io := t, disk := d\<rparr>) L"
  by (erule pool_inv_same, simp add: heap_same_def)+

lemma flag_bits: "(v OR DISK_BUFFER_BUSY) AND DISK_BUFFER_BUSY \<noteq> 0" "(v AND NOT DISK_BUFFER_BUSY) AND DISK_BUFFER_BUSY = 0"
proof -
  have "(v OR 2) AND 2 = (2 :: u32)" by (simp add: bit.conj_disj_distrib2)
  then show "(v OR DISK_BUFFER_BUSY) AND DISK_BUFFER_BUSY \<noteq> 0" by simp
  show "(v AND NOT DISK_BUFFER_BUSY) AND DISK_BUFFER_BUSY = 0" by (simp add: and.assoc)
qed

section \<open>Getting a block\<close>

text \<open>Memory that is neither the cache's own nor the transfer buffer: what a call leaves alone.\<close>

definition client_bytes :: "'a disk_state_scheme \<Rightarrow> (addr \<rightharpoonup> nat) \<Rightarrow> (nat \<Rightarrow> addr list) \<Rightarrow> addr set" where
  "client_bytes s L Q = {y. \<exists>q l. L q = Some l \<and> q \<noteq> db_head s \<and> q \<noteq> dma_buffer s \<and> q \<notin> cached Q \<and> y \<in> region q l}"

lemma client_bytes_links: "cache_rep s L Q \<Longrightarrow> y \<in> client_bytes s L Q \<Longrightarrow> y \<notin> link_space s Q"
  unfolding client_bytes_def using block_apart_links by blast

lemma client_bytes_node:
  assumes R: "cache_rep s L Q" and y: "y \<in> client_bytes s L Q" and n: "n \<in> cached Q"
  shows "y \<notin> region n 20"
proof -
  obtain q l where q: "L q = Some l" "q \<notin> cached Q" "y \<in> region q l" using y unfolding client_bytes_def by blast
  have "region q l \<inter> region n 20 = {}" using blocks_apart [OF R q(1) cached_node(1) [OF R n]] q(2) n by blast
  then show ?thesis using q(3) by blast
qed

lemma client_bytes_dma: "cache_rep s L Q \<Longrightarrow> y \<in> client_bytes s L Q \<Longrightarrow> y \<notin> region (dma_buffer s) 1024"
  unfolding client_bytes_def using blocks_apart cache_repD(3) by blast

lemma sub_disjoint: "A \<subseteq> A' \<Longrightarrow> B \<subseteq> B' \<Longrightarrow> A' \<inter> B' = {} \<Longrightarrow> A \<inter> B = {}"
  by blast

lemma other_node:
  assumes R: "cache_rep s L Q" and n: "L n = Some 20" and x: "x \<in> cached Q" "x \<noteq> n"
  shows "region n 20 \<inter> region x 20 = {}" "region n 20 \<inter> region (bufaddr (mem s) x) 4096 = {}"
proof -
  show "region n 20 \<inter> region x 20 = {}" using blocks_apart [OF R n cached_node(1) [OF R x(1)]] x(2) by blast
  have "n \<noteq> bufaddr (mem s) x" by (rule block_ne [where L = L, OF n cached_node(2) [OF R x(1)]]) simp
  then show "region n 20 \<inter> region (bufaddr (mem s) x) 4096 = {}" using blocks_apart [OF R n cached_node(2) [OF R x(1)]] by blast
qed

lemma own_buffer:
  assumes R: "cache_rep s L Q" and n: "n \<in> cached Q"
  shows "region n 20 \<inter> region (bufaddr (mem s) n) 4096 = {}" "region (bufaddr (mem s) n) 4096 \<inter> region (dma_buffer s) 1024 = {}"
    "region n 20 \<inter> region (dma_buffer s) 1024 = {}"
proof -
  note b = cached_node(1,2) [OF R n] and d = cache_repD(3) [OF R]
  have "n \<noteq> bufaddr (mem s) n" by (rule block_ne [where L = L, OF b]) simp
  then show "region n 20 \<inter> region (bufaddr (mem s) n) 4096 = {}" using blocks_apart [OF R b] by blast
  have "bufaddr (mem s) n \<noteq> dma_buffer s" by (rule block_ne [where L = L, OF b(2) d]) simp
  then show "region (bufaddr (mem s) n) 4096 \<inter> region (dma_buffer s) 1024 = {}" using blocks_apart [OF R b(2) d] by blast
  have "n \<noteq> dma_buffer s" by (rule block_ne [where L = L, OF b(1) d]) simp
  then show "region n 20 \<inter> region (dma_buffer s) 1024 = {}" using blocks_apart [OF R b(1) d] by blast
qed

text \<open>The fields of a node after a store to its flags and changes to links.\<close>

lemma node_fields_kept:
  assumes R: "cache_rep s L Q" and x: "x \<in> cached Q" and n: "n \<in> cached Q"
    and m: "\<And>y. y \<notin> link_space s Q \<Longrightarrow> y \<notin> region (n + 8) 4 \<Longrightarrow> y \<notin> region (dma_buffer s) 1024 \<Longrightarrow> m y = mem s y"
  shows "bufaddr m x = bufaddr (mem s) x \<and> blkno m x = blkno (mem s) x" "x \<noteq> n \<Longrightarrow> busy m x = busy (mem s) x"
    "y \<in> region (bufaddr (mem s) x) 4096 \<Longrightarrow> m y = mem s y"
proof -
  note nx = cached_node(1) [OF R x] and nn = cached_node(1) [OF R n]
  note fa = fields_apart [OF R nx] and o = own_buffer [OF R x]
  have p: "region (x + 12) 4 \<inter> region (n + 8) 4 = {}" "region (x + 16) 4 \<inter> region (n + 8) 4 = {}"
    "x \<noteq> n \<Longrightarrow> region (x + 8) 4 \<inter> region (n + 8) 4 = {}" "region (bufaddr (mem s) x) 4096 \<inter> region (n + 8) 4 = {}"
  proof -
    have d: "region x 20 \<inter> region n 20 = {}" "region (bufaddr (mem s) x) 4096 \<inter> region n 20 = {}" if "x \<noteq> n"
      using other_node [OF R nn x that] by (simp_all only: Int_commute)
    have b: "region (bufaddr (mem s) x) 4096 \<inter> region x 20 = {}" using o(1) by (simp only: Int_commute)
    have np: "region (n + 12) 4 \<inter> region (n + 8) 4 = {}" "region (n + 16) 4 \<inter> region (n + 8) 4 = {}"
      using node_parts(8,9) [of n] by (simp_all only: Int_commute)
    show "region (x + 12) 4 \<inter> region (n + 8) 4 = {}"
      by (cases "x = n") (simp only: np(1), rule sub_disjoint [OF node_parts(3,2) d(1)])
    show "region (x + 16) 4 \<inter> region (n + 8) 4 = {}"
      by (cases "x = n") (simp only: np(2), rule sub_disjoint [OF node_parts(4,2) d(1)])
    show "x \<noteq> n \<Longrightarrow> region (x + 8) 4 \<inter> region (n + 8) 4 = {}" by (rule sub_disjoint [OF node_parts(2,2) d(1)])
    show "region (bufaddr (mem s) x) 4096 \<inter> region (n + 8) 4 = {}"
    proof (cases "x = n")
      case True
      show ?thesis using sub_disjoint [OF subset_refl node_parts(2) b] unfolding True .
    next
      case False
      show ?thesis by (rule sub_disjoint [OF subset_refl node_parts(2) d(2) [OF False]])
    qed
  qed
  have k: "ld32 m a = ld32 (mem s) a" if "region a 4 \<inter> link_space s Q = {}" "region a 4 \<inter> region (n + 8) 4 = {}" "region a 4 \<subseteq> region x 20" for a
    using that o(3) by (intro ld32_cong m) blast+
  show "bufaddr m x = bufaddr (mem s) x \<and> blkno m x = blkno (mem s) x"
    unfolding bufaddr_def blkno_def using k [OF fa(2) p(1) node_parts(3)] k [OF fa(3) p(2) node_parts(4)] by simp
  show "x \<noteq> n \<Longrightarrow> busy m x = busy (mem s) x"
    unfolding busy_def using k [OF fa(1) p(3) node_parts(2)] by simp
  show "y \<in> region (bufaddr (mem s) x) 4096 \<Longrightarrow> m y = mem s y" using m [of y] p(4) o(2) buffer_apart_links [OF R x] by blast
qed

lemma get_hit:
  assumes I: "cache_inv s L Q V H" and n: "n \<in> cached Q" "blkno (mem s) n = b"
  shows "\<exists>s' Q'. disk_buffer_get (of_nat b) s = Some (Inr (n, s')) \<and> disk_frame s s' \<and> cache_inv s' L Q' V (insert b H) \<and>
    cached Q' = cached Q \<and> blkno (mem s') n = b \<and> (\<forall>x\<in>cached Q. bufaddr (mem s') x = bufaddr (mem s) x \<and> blkno (mem s') x = blkno (mem s) x) \<and>
    (\<forall>y\<in>client_bytes s L Q. mem s' y = mem s y) \<and> disk s' = disk s"
proof -
  have R: "cache_rep s L Q" and h: "cache_holds s Q V H" using I by (simp_all add: cache_inv_def)
  note fd = find_dnode_hit [OF R n]
  let ?i = "b mod 13"
  have i: "?i < 13" by simp
  obtain as bs where Q: "Q ?i = as @ n # bs" using split_list [OF fd(4)] by blast
  let ?m = "st32 (mem s) (db_flags n) (ld32 (mem s) (db_flags n) OR DISK_BUFFER_BUSY)" and ?Q = "Q(?i := n # as @ bs)"
  define m' where "m' = list_insert_after n (head_at s ?i) (list_remove n ?m)"
  note fa = fields_apart [OF R cached_node(1) [OF R n(1)]]
  have m1: "?m y = mem s y" if "y \<notin> region (n + 8) 4" for y using that by (rule st32_out)
  have "?m y = mem s y" if "y \<in> link_space s Q" for y using m1 fa(1) that by blast
  note M = move_front [OF R this i Q, folded m'_def]
  have out: "m' y = mem s y" if "y \<notin> link_space s Q" "y \<notin> region (n + 8) 4" for y using M(2) m1 that by simp
  note K = node_fields_kept [OF R _ n(1), of _ m', OF _ out]
  let ?s = "s\<lparr>mem := m'\<rparr>"
  have P: "pool_inv ?s L"
  proof (rule pool_write [OF cache_repD(1) [OF R]])
    fix y assume y: "\<And>q l. L q = Some l \<Longrightarrow> y \<notin> region q l"
    have "y \<notin> region x 8" if "x \<in> cached Q" for x using y cached_node(1) [OF R that] node_parts(1) [of x] by blast
    then have "y \<notin> link_space s Q" unfolding link_space_def using y cache_repD(2) [OF R] by blast
    moreover have "y \<notin> region (n + 8) 4" using y cached_node(1) [OF R n(1)] node_parts(2) [of n] by blast
    ultimately show "m' y = mem s y" by (rule out)
  qed
  have S: "set (?Q j) = set (Q j)" for j using Q by auto
  have rep: "cache_rep ?s L ?Q" "cached ?Q = cached Q"
    using cache_rep_step [OF R disk_frame_updates(2) P map_le_refl, of ?Q] M(1) S K(1) by auto
  have bz: "busy m' n"
  proof -
    have "ld32 m' (n + 8) = ld32 ?m (n + 8)" using M(2) fa(1) by (intro ld32_cong) blast
    then show ?thesis by (simp add: busy_def flag_bits(1))
  qed
  have "cache_holds ?s ?Q V (insert b H)"
  proof (rule cache_holds_step [OF h rep(2)])
    show "bufaddr (mem ?s) x = bufaddr (mem s) x \<and> blkno (mem ?s) x = blkno (mem s) x" if "x \<in> cached Q" for x using K(1) that by simp
    show "mem ?s y = mem s y" if "x \<in> cached Q" "y \<in> region (bufaddr (mem s) x) 4096" for x y using K(3) that by simp
    show "disk ?s (4096 * c + k) = V c k" if "c < 360" "k < 4096" "c \<notin> insert b H" for c k
      using h that by (simp add: cache_holds_def)
    show "busy (mem ?s) x \<longleftrightarrow> blkno (mem s) x \<in> insert b H" if x: "x \<in> cached Q" for x
    proof (cases "x = n")
      case False
      then have "blkno (mem s) x \<noteq> b" using inj_onD [OF cache_repD(8) [OF R], of x n] x n by auto
      then show ?thesis using K(2) [OF x] h x False by (simp add: cache_holds_def)
    qed (use bz n in simp)
    show "insert b H \<subseteq> blkno (mem s) ` cached Q" using h n unfolding cache_holds_def by blast
  qed
  moreover have "disk_buffer_get (of_nat b) s = Some (Inr (n, ?s))"
    using fd(1,2) block_index(1) [OF fd(3)] by (simp add: disk_buffer_get_def Let_def m'_def)
  moreover have "\<forall>y\<in>client_bytes s L Q. m' y = mem s y"
    using out client_bytes_links [OF R] client_bytes_node [OF R _ n(1)] node_parts(2) [of n] by blast
  ultimately show ?thesis
    using rep K(1) n disk_frame_updates(2) [of s m'] by (intro exI [of _ ?s] exI [of _ ?Q]) (simp add: cache_inv_def)
qed

text \<open>The allocators take nothing from the cache.\<close>

lemma cache_grow:
  assumes I: "cache_inv s L Q V H" and fr: "disk_frame s s'" "disk s' = disk s" and P: "pool_inv s' L'" and le: "L \<subseteq>\<^sub>m L'"
    and keep: "\<And>q l y. L q = Some l \<Longrightarrow> y \<in> region q l \<Longrightarrow> mem s' y = mem s y"
  shows "cache_inv s' L' Q V H" "x \<in> cached Q \<Longrightarrow> bufaddr (mem s') x = bufaddr (mem s) x \<and> blkno (mem s') x = blkno (mem s) x"
proof -
  have R: "cache_rep s L Q" and h: "cache_holds s Q V H" using I by (simp_all add: cache_inv_def)
  have nd: "ld32 (mem s') a = ld32 (mem s) a" if "x \<in> cached Q" "region a 4 \<subseteq> region x 20" for a x
    using keep [OF cached_node(1) [OF R that(1)]] that(2) by (intro ld32_cong) blast
  have f: "bufaddr (mem s') x = bufaddr (mem s) x \<and> blkno (mem s') x = blkno (mem s) x" "busy (mem s') x = busy (mem s) x"
    if "x \<in> cached Q" for x
    unfolding bufaddr_def blkno_def busy_def using nd [OF that] node_parts(2-4) [of x] by simp_all
  show "x \<in> cached Q \<Longrightarrow> bufaddr (mem s') x = bufaddr (mem s) x \<and> blkno (mem s') x = blkno (mem s) x" by (rule f(1))
  have "mem s' y = mem s y" if "y \<in> link_space s Q" for y
    using that keep [OF cache_repD(2) [OF R]] keep [OF cached_node(1) [OF R]] node_parts(1) unfolding link_space_def by blast
  from rings_family [OF R this] have d: "\<forall>i<13. dll (mem s') (head_at s i) (Q i)" by blast
  have "cache_rep s' L' Q" by (rule cache_rep_step(1) [OF R fr(1) P le d refl f(1)])
  moreover have "cache_holds s' Q V H"
    by (rule cache_holds_step [OF h refl f(1)])
      (use keep [OF cached_node(2) [OF R]] f(2) h fr(2) in \<open>auto simp: cache_holds_def\<close>)
  ultimately show "cache_inv s' L' Q V H" by (simp add: cache_inv_def)
qed

text \<open>A node that is filled in and put on its list.\<close>

lemma cache_rep_new:
  assumes R: "cache_rep s L Q" and fr: "disk_frame s s'" and P: "pool_inv s' L"
    and b: "b < 360" "b \<notin> blkno (mem s) ` cached Q" and n: "L n = Some 20" "blkno (mem s') n = b"
    and p: "L (bufaddr (mem s') n) = Some 4096" "bufaddr (mem s') n \<notin> bufaddr (mem s) ` cached Q"
    and d: "\<forall>i<13. dll (mem s') (head_at s i) ((Q(b mod 13 := n # Q (b mod 13))) i)"
    and f: "\<And>x. x \<in> cached Q \<Longrightarrow> bufaddr (mem s') x = bufaddr (mem s) x \<and> blkno (mem s') x = blkno (mem s) x"
  shows "cache_rep s' L (Q(b mod 13 := n # Q (b mod 13)))" "cached (Q(b mod 13 := n # Q (b mod 13))) = insert n (cached Q)"
proof -
  let ?Q = "Q(b mod 13 := n # Q (b mod 13))"
  have i: "b mod 13 \<in> {..<(13 :: nat)}" by simp
  show c: "cached ?Q = insert n (cached Q)"
  proof (intro equalityI subsetI)
    show "x \<in> insert n (cached Q)" if "x \<in> cached ?Q" for x using that by (auto simp: cached_def split: if_splits)
    show "x \<in> cached ?Q" if x: "x \<in> insert n (cached Q)" for x
    proof (cases "x = n")
      case True
      then show ?thesis unfolding cached_def by (intro UN_I [OF i]) simp
    next
      case False
      then obtain j where "j < 13" "x \<in> set (Q j)" using x False by (auto simp: cached_def)
      then show ?thesis unfolding cached_def by (intro UN_I [of j]) auto
    qed
  qed
  note D = disk_frameD [OF fr]
  have "\<forall>i<13. \<forall>x\<in>set (?Q i). L x = Some 20 \<and> L (bufaddr (mem s') x) = Some 4096 \<and> blkno (mem s') x < 360 \<and> blkno (mem s') x mod 13 = i"
  proof (intro allI impI ballI)
    fix i x assume i: "i < 13" and "x \<in> set (?Q i)"
    then have "x = n \<and> i = b mod 13 \<or> x \<in> set (Q i)" by (auto split: if_splits)
    then consider "x = n" "i = b mod 13" | "x \<in> set (Q i)" "x \<in> cached Q" using i unfolding cached_def by blast
    then show "L x = Some 20 \<and> L (bufaddr (mem s') x) = Some 4096 \<and> blkno (mem s') x < 360 \<and> blkno (mem s') x mod 13 = i"
    proof cases
      case 1
      then show ?thesis using n p b by simp
    next
      case 2
      then show ?thesis using cached_node(1-3) [OF R 2(2)] cache_repD(9) [OF R i 2(1)] f [OF 2(2)] by simp
    qed
  qed
  moreover have "inj_on (bufaddr (mem s')) (insert n (cached Q))" "inj_on (blkno (mem s')) (insert n (cached Q))"
  proof -
    have "bufaddr (mem s') ` cached Q = bufaddr (mem s) ` cached Q" "blkno (mem s') ` cached Q = blkno (mem s) ` cached Q"
      using f by (intro image_cong; simp)+
    then have "bufaddr (mem s') n \<notin> bufaddr (mem s') ` (cached Q - {n})" "blkno (mem s') n \<notin> blkno (mem s') ` (cached Q - {n})"
      using p(2) b(2) n(2) by auto
    moreover have "inj_on (bufaddr (mem s')) (cached Q)" "inj_on (blkno (mem s')) (cached Q)"
      using f cache_repD(7,8) [OF R] by (simp_all add: inj_on_def)
    ultimately show "inj_on (bufaddr (mem s')) (insert n (cached Q))" "inj_on (blkno (mem s')) (insert n (cached Q))"
      by (simp_all add: inj_on_insert)
  qed
  ultimately show "cache_rep s' L ?Q"
    unfolding cache_rep_def D c using P d cache_repD(2-5) [OF R] by blast
qed

lemma dma_apart_links:
  assumes R: "cache_rep s L Q"
  shows "region (dma_buffer s) 1024 \<inter> link_space s Q = {}"
proof (rule block_apart_links [OF R cache_repD(3) [OF R]])
  show "dma_buffer s \<noteq> db_head s" by (rule block_ne [where L = L, OF cache_repD(3,2) [OF R]]) simp
  show "dma_buffer s \<notin> cached Q"
  proof
    assume "dma_buffer s \<in> cached Q"
    then show False using cached_node(1) [OF R] cache_repD(3) [OF R] by fastforce
  qed
qed

text \<open>The last part of a miss: the node \<open>n\<close> and its page \<open>p\<close> are new blocks, and the number is stored.\<close>

lemma fill_node:
  fixes s :: "'a disk_state_scheme"
  assumes I: "cache_inv s L Q V H" and b: "b < 360" "b \<notin> blkno (mem s) ` cached Q"
    and n: "L n = Some 20" "n \<notin> cached Q" "blkno (mem s) n = b" and p: "L p = Some 4096" "p \<notin> bufaddr (mem s) ` cached Q"
  defines "m4 \<equiv> st32 (mem s) (db_buffer n) p"
  defines "m6 \<equiv> list_insert_after n (head_at s (b mod 13)) (st32 m4 (db_flags n) (ld32 m4 (db_flags n) OR DISK_BUFFER_BUSY))"
  shows "\<exists>s' Q'. read_block 4 0 n (of_nat (8 * b)) (s\<lparr>mem := m6\<rparr>) = Inr s' \<and> disk_frame s s' \<and> disk s' = disk s \<and>
    cache_inv s' L Q' V (insert b H) \<and> cached Q' = insert n (cached Q) \<and> blkno (mem s') n = b \<and> bufaddr (mem s') n = p \<and>
    (\<forall>x\<in>cached Q. bufaddr (mem s') x = bufaddr (mem s) x \<and> blkno (mem s') x = blkno (mem s) x) \<and>
    (\<forall>y. y \<notin> link_space s Q \<longrightarrow> y \<notin> region n 20 \<longrightarrow> y \<notin> region p 4096 \<longrightarrow> y \<notin> region (dma_buffer s) 1024 \<longrightarrow> mem s' y = mem s y)"
proof -
  have R: "cache_rep s L Q" and h: "cache_holds s Q V H" using I by (simp_all add: cache_inv_def)
  let ?i = "b mod 13" let ?Q = "Q(?i := n # Q ?i)" let ?dma = "region (dma_buffer s) 1024"
  have i: "?i < 13" by simp
  define m5 where "m5 = st32 m4 (db_flags n) (ld32 m4 (db_flags n) OR DISK_BUFFER_BUSY)"
  have m5: "m5 y = mem s y" if "y \<notin> region n 20" for y
    using that node_parts(2,4) [of n] unfolding m5_def m4_def by (subst st32_out, blast)+ (rule refl)
  have nh: "n \<noteq> db_head s" by (rule block_ne [where L = L, OF n(1) cache_repD(2) [OF R]]) simp
  have nl: "region n 20 \<inter> link_space s Q = {}" by (rule block_apart_links [OF R n(1) nh n(2)])
  have m5l: "m5 y = mem s y" if "y \<in> link_space s Q" for y using m5 nl that by blast
  have nl8: "region n 8 \<inter> link_space s Q = {}" by (rule sub_disjoint [OF node_parts(1) subset_refl nl])
  have A: "\<forall>j<13. dll m6 (head_at s j) (?Q j)" "\<And>y. y \<notin> link_space s Q \<Longrightarrow> y \<notin> region n 8 \<Longrightarrow> m6 y = m5 y"
    using add_front [OF R m5l i nl8] unfolding m6_def m5_def [symmetric] by blast+
  have m6: "m6 y = mem s y" if "y \<notin> link_space s Q" "y \<notin> region n 20" for y
  proof -
    have "y \<notin> region n 8" using that(2) node_parts(1) [of n] by blast
    then show ?thesis using A(2) [of y] m5 [of y] that by simp
  qed
  note pn = blocks_apart [OF R p(1) n(1)] and dn = blocks_apart [OF R cache_repD(3) [OF R] n(1)]
    and dp = blocks_apart [OF R cache_repD(3) [OF R] p(1)]
  have ne: "p \<noteq> n" "dma_buffer s \<noteq> n" "dma_buffer s \<noteq> p"
    by (rule block_ne [where L = L, OF p(1) n(1)] block_ne [where L = L, OF cache_repD(3) [OF R] n(1)]
        block_ne [where L = L, OF cache_repD(3) [OF R] p(1)]; simp)+
  have f6: "ld32 m6 (n + d) = ld32 m5 (n + d)" if "region (n + d) 4 \<inter> region n 8 = {}" "region (n + d) 4 \<subseteq> region n 20" for d
    using A(2) nl that by (intro ld32_cong) blast
  have np: "region (n + 8) 4 \<inter> region n 8 = {}" "region (n + 12) 4 \<inter> region n 8 = {}" "region (n + 16) 4 \<inter> region n 8 = {}"
    using node_parts(5-7) [of n] by (simp_all only: Int_commute)
  note f = f6 [OF np(1) node_parts(2)] f6 [OF np(2) node_parts(3)] f6 [OF np(3) node_parts(4)]
  have v: "ld32 m6 (n + 16) = p" "ld32 m6 (n + 12) = ld32 (mem s) (n + 12)" "busy m6 n"
    unfolding busy_def f unfolding m5_def m4_def by (simp_all add: fields flag_bits(1))
  let ?s4 = "s\<lparr>mem := m6\<rparr>"
  have N: "node_buffer n p ?s4"
    unfolding node_buffer_def
    using v(1) pn ne(1) dn ne(2) dp ne(3) node_parts(4) [of n] cache_repD(4,5) [OF R] by (simp add: Int_Un_distrib) blast
  obtain tr m7 where r: "read_block 4 0 n (of_nat (8 * b)) ?s4 = Inr (?s4\<lparr>io := tr, mem := m7\<rparr>)"
    "\<And>k. k < 4096 \<Longrightarrow> m7 (p + of_nat k) = disk ?s4 (4096 * b + k)"
    "\<And>y. y \<notin> region p 4096 \<Longrightarrow> y \<notin> region (dma_buffer ?s4) 1024 \<Longrightarrow> m7 y = mem ?s4 y"
    by (rule read_block_ok [OF N b(1)]) blast
  let ?s' = "s\<lparr>mem := m7, io := tr\<rparr>"
  have out67: "m7 y = m6 y" if "y \<notin> region p 4096" "y \<notin> ?dma" for y using r(3) that by simp
  have out: "m7 y = mem s y" if "y \<notin> link_space s Q" "y \<notin> region n 20" "y \<notin> region p 4096" "y \<notin> ?dma" for y
    using m6 out67 that by simp
  have pl: "region p 4096 \<inter> link_space s Q = {}"
  proof (rule block_apart_links [OF R p(1)])
    show "p \<noteq> db_head s" by (rule block_ne [where L = L, OF p(1) cache_repD(2) [OF R]]) simp
    show "p \<notin> cached Q"
    proof
      assume "p \<in> cached Q"
      then show False using cached_node(1) [OF R] p(1) by fastforce
    qed
  qed
  have fn: "ld32 m7 a = ld32 m6 a" if "region a 4 \<subseteq> region n 20" for a
    using out67 pn ne(1) dn ne(2) that by (intro ld32_cong) blast
  have w: "bufaddr m7 n = p" "blkno m7 n = b" "busy m7 n"
    unfolding bufaddr_def blkno_def busy_def using fn node_parts(2-4) [of n] v n(3) by (simp_all add: busy_def blkno_def)
  have P: "pool_inv ?s' L"
  proof -
    have "pool_inv (s\<lparr>mem := m7\<rparr>) L"
    proof (rule pool_write [OF cache_repD(1) [OF R]])
      fix y assume y: "\<And>q l. L q = Some l \<Longrightarrow> y \<notin> region q l"
      have "y \<notin> region x 8" if "x \<in> cached Q" for x using y cached_node(1) [OF R that] node_parts(1) [of x] by blast
      then have "y \<notin> link_space s Q" unfolding link_space_def using y cache_repD(2) [OF R] by blast
      then show "m7 y = mem s y" using out y n(1) p(1) cache_repD(3) [OF R] by blast
    qed
    then show ?thesis by (rule heap_same_io(1))
  qed
  have d: "\<forall>j<13. dll (mem ?s') (head_at s j) (?Q j)"
  proof (intro allI impI)
    fix j :: nat assume j: "j < 13"
    have "dll m6 (head_at s j) (?Q j)" using A(1) j by blast
    then have "dll m7 (head_at s j) (?Q j)"
    proof (rule dll_byte_cong)
      fix a y assume a: "a \<in> set (head_at s j # ?Q j)" "y \<in> region a 8"
      have "a = n \<or> region a 8 \<subseteq> link_space s Q" using ring_links [OF R j, of a] a(1) by (auto split: if_splits)
      then have "y \<in> region n 20 \<or> y \<in> link_space s Q" using a(2) node_parts(1) [of n] by blast
      then show "m7 y = m6 y" using out67 pn ne(1) dn ne(2) pl dma_apart_links [OF R] by blast
    qed
    then show "dll (mem ?s') (head_at s j) (?Q j)" by simp
  qed
  have xf: "ld32 m7 a = ld32 (mem s) a" if x: "x \<in> cached Q" and a: "region a 4 \<subseteq> region x 20" "region a 4 \<inter> link_space s Q = {}" for a x
  proof (rule ld32_cong)
    fix y assume y: "y \<in> region a 4"
    have "x \<noteq> n" "x \<noteq> p" using x n(2) cached_node(1) [OF R x] p(1) by auto
    then have "region p 4096 \<inter> region x 20 = {}" "region n 20 \<inter> region x 20 = {}"
      using blocks_apart [OF R p(1) cached_node(1) [OF R x]] other_node(1) [OF R n(1) x] by blast+
    then show "m7 y = mem s y" using out [of y] y a own_buffer(3) [OF R x] by blast
  qed
  have xx: "bufaddr m7 x = bufaddr (mem s) x \<and> blkno m7 x = blkno (mem s) x" "busy m7 x = busy (mem s) x" if x: "x \<in> cached Q" for x
    unfolding bufaddr_def blkno_def busy_def using xf [OF x] node_parts(2-4) [of x] fields_apart [OF R cached_node(1) [OF R x]] by simp_all
  have xb: "m7 y = mem s y" if x: "x \<in> cached Q" and y: "y \<in> region (bufaddr (mem s) x) 4096" for x y
  proof -
    note bx = cached_node(2) [OF R x]
    have "bufaddr (mem s) x \<noteq> p" using p(2) x by auto
    then have "region (bufaddr (mem s) x) 4096 \<inter> region p 4096 = {}" using blocks_apart [OF R bx p(1)] by blast
    moreover have "x \<noteq> n" using x n(2) by auto
    then have "region n 20 \<inter> region (bufaddr (mem s) x) 4096 = {}" using other_node(2) [OF R n(1) x] by blast
    ultimately show ?thesis using out [of y] y own_buffer(2) [OF R x] buffer_apart_links [OF R x] by blast
  qed
  have fr: "disk_frame s ?s'" by (simp add: disk_frame_def)
  have rep: "cache_rep ?s' L ?Q" "cached ?Q = insert n (cached Q)"
    using cache_rep_new [OF R fr P b n(1) _ _ _ d] w p xx(1) by auto
  have hold: "cache_holds ?s' ?Q V (insert b H)"
  proof -
    have H: "b \<notin> H" "H \<subseteq> blkno (mem s) ` cached Q" using h b(2) by (auto simp: cache_holds_def)
    have "m7 (p + of_nat k) = V b k" if "k < 4096" for k using r(2) [OF that] h b(1) H(1) that by (simp add: cache_holds_def)
    moreover have "m7 (bufaddr m7 x + of_nat k) = V (blkno m7 x) k" if "x \<in> cached Q" "k < 4096" for x k
    proof -
      have "bufaddr (mem s) x + of_nat k \<in> region (bufaddr (mem s) x) 4096"
        using region_index [of k 0 4096 "bufaddr (mem s) x"] that(2) by simp
      then show ?thesis using xb [OF that(1)] xx(1) [OF that(1)] h that by (simp add: cache_holds_def)
    qed
    moreover have "busy m7 x \<longleftrightarrow> blkno m7 x \<in> insert b H" if "x \<in> cached Q" for x
      using xx [OF that] h that b(2) by (auto simp: cache_holds_def)
    moreover have "blkno m7 ` cached Q = blkno (mem s) ` cached Q" using xx(1) by (intro image_cong) auto
    ultimately show ?thesis unfolding cache_holds_def rep(2) using w h H by (auto simp: cache_holds_def)
  qed
  have "cache_inv ?s' L ?Q V (insert b H)" using rep(1) hold by (simp add: cache_inv_def)
  moreover have "read_block 4 0 n (of_nat (8 * b)) ?s4 = Inr ?s'" using r(1) by simp
  ultimately show ?thesis using fr rep(2) w xx(1) out by (intro exI [of _ ?s'] exI [of _ ?Q]) simp
qed

lemma get_miss:
  assumes I: "cache_inv s L Q V H" and b: "b < 360" "b \<notin> blkno (mem s) ` cached Q"
  shows "disk_buffer_get (of_nat b) s = Some (Inl (Bug ''memory alloc failed'')) \<or>
    (\<exists>n s' L' Q'. disk_buffer_get (of_nat b) s = Some (Inr (n, s')) \<and> disk_frame s s' \<and> cache_inv s' L' Q' V (insert b H) \<and>
      L \<subseteq>\<^sub>m L' \<and> cached Q' = insert n (cached Q) \<and> L n = None \<and> L (bufaddr (mem s') n) = None \<and> blkno (mem s') n = b \<and>
      (\<forall>x\<in>cached Q. bufaddr (mem s') x = bufaddr (mem s) x \<and> blkno (mem s') x = blkno (mem s) x) \<and>
      (\<forall>y\<in>client_bytes s L Q. mem s' y = mem s y) \<and> disk s' = disk s)"
proof -
  have R: "cache_rep s L Q" and h: "cache_holds s Q V H" using I by (simp_all add: cache_inv_def)
  let ?i = "b mod 13" let ?b = "of_nat b :: u32"
  note fd = find_dnode_miss [OF R b] and bi = block_index [OF b(1)]
  have sz: "small_size 20" and od: "small_order 0" "block_len 0 = 4096" by (simp_all add: small_size_def small_order_def block_len_def)
  show ?thesis
  proof (rule kmalloc_returns [OF cache_repD(1) [OF R] sz])
    assume "kmalloc 20 s = Some (Inl (Bug ''memory alloc failed''))"
    then show ?thesis using fd bi by (simp add: disk_buffer_get_def Let_def)
  next
    fix n and s1 :: "'a disk_state_scheme"
    assume k: "kmalloc 20 s = Some (Inr (n, s1))" "pool_inv s1 (L(n \<mapsto> unat (20 :: u32)))" "L n = None" "heap_frame s s1"
      and keep1: "\<And>q l y. L q = Some l \<Longrightarrow> y \<in> region q l \<Longrightarrow> mem s1 y = mem s y"
    let ?m2 = "st32 (mem s1) (db_block_num n) ?b"
    let ?s2 = "s1\<lparr>mem := ?m2\<rparr>" and ?L2 = "L(n \<mapsto> 20)"
    have k2: "pool_inv s1 ?L2" using k(2) by simp
    have P2: "pool_inv ?s2 ?L2"
      by (rule pool_write [OF k2]) (use node_parts(3) [of n] in \<open>auto intro!: st32_out\<close>)
    have ap1: "region q l \<inter> region n 20 = {}" if "L q = Some l" for q l
    proof -
      have "q \<noteq> n" using that k(3) by auto
      then show ?thesis using pool_inv_apart [OF k2, of q l n 20] that by simp
    qed
    show ?thesis
    proof (rule alloc_pages_returns [OF P2 od(1)])
      assume "alloc_pages 0 ?s2 = Inl (Bug ''memory alloc failed'')"
      then show ?thesis using fd bi k(1) by (simp add: disk_buffer_get_def Let_def)
    next
      fix page and s3 :: "'a disk_state_scheme"
      let ?p = "page_to_vir page s3"
      assume a: "alloc_pages 0 ?s2 = Inr (page, s3)" "pool_inv s3 (?L2(?p \<mapsto> block_len 0))" "?L2 ?p = None" "heap_frame ?s2 s3"
        and keep3: "\<And>q l y. ?L2 q = Some l \<Longrightarrow> y \<in> region q l \<Longrightarrow> mem s3 y = mem ?s2 y"
      let ?L3 = "L(n \<mapsto> 20, ?p \<mapsto> 4096)"
      have P3: "pool_inv s3 ?L3" using a(2) od(2) by simp
      have pn: "?p \<noteq> n" "L ?p = None" using a(3) by (auto split: if_splits)
      have le: "L \<subseteq>\<^sub>m ?L3" using k(3) pn(2) by (auto simp: map_le_def)
      have fr3: "disk_frame s s3"
        using disk_frame_trans [OF disk_frame_updates(5) [OF k(4)] disk_frame_trans [OF disk_frame_updates(2) disk_frame_updates(5) [OF a(4)]]] .
      have dk: "disk s3 = disk s" "disk ?s2 = disk s"
      proof -
        obtain m c l where "s1 = s\<lparr>mem := m, free_page_count := c, malloc_list := l\<rparr>" using k(4) unfolding heap_frame_def by blast
        then show "disk ?s2 = disk s" by simp
        moreover obtain m c l where "s3 = ?s2\<lparr>mem := m, free_page_count := c, malloc_list := l\<rparr>" using a(4) unfolding heap_frame_def by blast
        ultimately show "disk s3 = disk s" by simp
      qed
      have keep: "mem s3 y = mem s y" if q: "L q = Some l" "y \<in> region q l" for q l y
      proof -
        have "?L2 q = Some l" using q(1) k(3) by auto
        then have "mem s3 y = ?m2 y" using keep3 q(2) by simp
        moreover have "y \<notin> region (n + 12) 4" using ap1 [OF q(1)] q(2) node_parts(3) [of n] by blast
        then have "?m2 y = mem s1 y" by (rule st32_out)
        ultimately show ?thesis using keep1 [OF q] by simp
      qed
      have G: "cache_inv s3 ?L3 Q V H" "\<And>x. x \<in> cached Q \<Longrightarrow> bufaddr (mem s3) x = bufaddr (mem s) x \<and> blkno (mem s3) x = blkno (mem s) x"
        using cache_grow [OF I fr3 dk(1) P3 le] keep by blast+
      have R3: "cache_rep s3 ?L3 Q" using G(1) by (simp add: cache_inv_def)
      have im: "blkno (mem s3) ` cached Q = blkno (mem s) ` cached Q" "bufaddr (mem s3) ` cached Q = bufaddr (mem s) ` cached Q"
        using G(2) by (intro image_cong; simp)+
      have nc: "n \<notin> cached Q" using cached_node(1) [OF R] k(3) by force
      have pc: "?p \<notin> bufaddr (mem s3) ` cached Q" unfolding im using cached_node(2) [OF R] pn(2) by force
      have nb: "blkno (mem s3) n = b"
      proof -
        have "ld32 (mem s3) (n + 12) = ld32 ?m2 (n + 12)"
          by (rule ld32_cong) (use keep3 [of n 20] node_parts(3) [of n] in auto)
        then show ?thesis using bi(2) by (simp add: blkno_def)
      qed
      have bm: "b \<notin> blkno (mem s3) ` cached Q" using b(2) im(1) by simp
      have Ln: "?L3 n = Some 20" "?L3 ?p = Some 4096" using pn(1) by simp_all
      obtain s' Q' where f: "read_block 4 0 n (of_nat (8 * b)) (s3\<lparr>mem := list_insert_after n (head_at s3 ?i)
          (st32 (st32 (mem s3) (db_buffer n) ?p) (db_flags n) (ld32 (st32 (mem s3) (db_buffer n) ?p) (db_flags n) OR DISK_BUFFER_BUSY))\<rparr>) = Inr s'"
        "disk_frame s3 s'" "disk s' = disk s3" "cache_inv s' ?L3 Q' V (insert b H)" "cached Q' = insert n (cached Q)" "blkno (mem s') n = b"
        "bufaddr (mem s') n = ?p" "\<forall>x\<in>cached Q. bufaddr (mem s') x = bufaddr (mem s3) x \<and> blkno (mem s') x = blkno (mem s3) x"
        "\<forall>y. y \<notin> link_space s3 Q \<longrightarrow> y \<notin> region n 20 \<longrightarrow> y \<notin> region ?p 4096 \<longrightarrow> y \<notin> region (dma_buffer s3) 1024 \<longrightarrow> mem s' y = mem s3 y"
        using fill_node [OF G(1) b(1) bm Ln(1) nc nb Ln(2) pc] by (elim exE conjE) (rule that)
      have "disk_buffer_get ?b s = Some (Inr (n, s'))"
      proof -
        have "of_nat (8 * b) = ?b * SECTORS_PER_BLOCK" by simp
        then show ?thesis using fd bi(1) k(1) a(1) f(1) by (simp add: disk_buffer_get_def Let_def disk_frameD(4) [OF fr3] mult.commute)
      qed
      moreover have "\<forall>y\<in>client_bytes s L Q. mem s' y = mem s y"
      proof
        fix y assume y: "y \<in> client_bytes s L Q"
        then obtain q l where q: "L q = Some l" "y \<in> region q l" unfolding client_bytes_def by blast
        have "y \<notin> link_space s3 Q" "y \<notin> region (dma_buffer s3) 1024"
          using client_bytes_links [OF R y] client_bytes_dma [OF R y] by (simp_all add: disk_frameD [OF fr3])
        moreover have "y \<notin> region n 20" using ap1 [OF q(1)] q(2) by blast
        moreover have "y \<notin> region ?p 4096"
        proof -
          have "q \<noteq> ?p" "?L3 q = Some l" using q(1) pn(2) k(3) by auto
          then show ?thesis using blocks_apart [OF R3 _ Ln(2)] q(2) by blast
        qed
        ultimately show "mem s' y = mem s y" using f(9) keep [OF q] by simp
      qed
      ultimately show ?thesis
        using f le k(3) pn(2) G(2) dk disk_frame_trans [OF fr3 f(2)]
        by (intro disjI2 exI [of _ n] exI [of _ s'] exI [of _ ?L3] exI [of _ Q']) simp
    qed
  qed
qed


section \<open>Putting a block back, and writing to it\<close>

lemma put_hit:
  assumes I: "cache_inv s L Q V H" and n: "n \<in> cached Q" "blkno (mem s) n = b"
  shows "\<exists>s'. disk_buffer_put (of_nat b) s = Some (Inr s') \<and> disk_frame s s' \<and> cache_inv s' L Q V (H - {b}) \<and>
    (\<forall>x\<in>cached Q. bufaddr (mem s') x = bufaddr (mem s) x \<and> blkno (mem s') x = blkno (mem s) x) \<and>
    (\<forall>y\<in>client_bytes s L Q. mem s' y = mem s y)"
proof -
  have R: "cache_rep s L Q" and h: "cache_holds s Q V H" using I by (simp_all add: cache_inv_def)
  note fd = find_dnode_hit [OF R n]
  define B where "B = bufaddr (mem s) n"
  let ?dma = "region (dma_buffer s) 1024"
  define m where "m = st32 (mem s) (db_flags n) (ld32 (mem s) (db_flags n) AND NOT DISK_BUFFER_BUSY)"
  have out1: "m y = mem s y" if "y \<notin> region (n + 8) 4" for y unfolding m_def using that by (rule st32_out)
  let ?s1 = "s\<lparr>mem := m\<rparr>"
  have Rm: "cache_rep (s\<lparr>mem := m', io := t, disk := d\<rparr>) L Q \<and> (\<forall>x\<in>cached Q. bufaddr m' x = bufaddr (mem s) x \<and> blkno m' x = blkno (mem s) x)"
    if m': "\<And>y. y \<notin> region (n + 8) 4 \<Longrightarrow> y \<notin> ?dma \<Longrightarrow> m' y = mem s y" for m' t d
  proof -
    have out: "m' y = mem s y" if "y \<notin> link_space s Q" "y \<notin> region (n + 8) 4" "y \<notin> ?dma" for y using m' that by simp
    note K = node_fields_kept [OF R _ n(1), of _ m', OF _ out]
    have "pool_inv (s\<lparr>mem := m'\<rparr>) L"
    proof (rule pool_write [OF cache_repD(1) [OF R]])
      fix y assume "\<And>q l. L q = Some l \<Longrightarrow> y \<notin> region q l"
      then show "m' y = mem s y" using cached_node(1) [OF R n(1)] cache_repD(3) [OF R] node_parts(2) [of n] by (intro m') blast+
    qed
    then have P: "pool_inv (s\<lparr>mem := m', io := t, disk := d\<rparr>) L" by (rule heap_same_io(2))
    have "m' y = mem s y" if "y \<in> link_space s Q" for y
      using m' that fields_apart(1) [OF R cached_node(1) [OF R n(1)]] dma_apart_links [OF R] by blast
    from rings_family [OF R this] have "\<forall>i<13. dll m' (head_at s i) (Q i)" by blast
    then have "cache_rep (s\<lparr>mem := m', io := t, disk := d\<rparr>) L Q"
      using K(1) by (intro cache_rep_step(1) [OF R disk_frame_updates(4) P map_le_refl]) auto
    then show ?thesis using K(1) by blast
  qed
  have R1: "cache_rep ?s1 L Q" "blkno m n = b"
    using Rm [of m "disk s" "io s"] out1 n by auto
  have N: "node_buffer n B ?s1"
  proof -
    have "bufaddr m n = B" using Rm [of m "disk s" "io s"] out1 n(1) by (simp add: B_def)
    then show ?thesis
      using own_buffer [OF R n(1)] node_parts(4) [of n] cache_repD(4,5) [OF R]
      by (simp add: node_buffer_def bufaddr_def B_def Int_Un_distrib) blast
  qed
  obtain tr m' d where w: "write_block 4 0 n (of_nat (8 * b)) ?s1 = Inr (?s1\<lparr>mem := m', io := tr, disk := d\<rparr>)"
    "\<And>k. k < 4096 \<Longrightarrow> d (4096 * b + k) = mem ?s1 (B + of_nat k)"
    "\<And>k. k < 4096 * b \<or> 4096 * b + 4096 \<le> k \<Longrightarrow> d k = disk ?s1 k"
    "\<And>y. y \<notin> region (dma_buffer ?s1) 1024 \<Longrightarrow> m' y = mem ?s1 y"
    by (rule write_block_ok [OF N fd(3)]) blast
  let ?s' = "s\<lparr>mem := m', io := tr, disk := d\<rparr>"
  have out: "m' y = mem s y" if "y \<notin> region (n + 8) 4" "y \<notin> ?dma" for y using w(4) out1 that by simp
  have "disk_buffer_put (of_nat b) s = Some (Inr ?s')"
  proof -
    have "find_dnode (of_nat b) ?s1 = Some n" using find_dnode_hit(1) [OF R1(1) n(1)] R1(2) by simp
    moreover have "of_nat (8 * b) = (of_nat b :: u32) * SECTORS_PER_BLOCK" by simp
    ultimately show ?thesis using fd(1,2) w(1)
      unfolding disk_buffer_put_def disk_buffer_syc_def fd(1) bind.bind_lunit if_P [OF fd(2)] m_def [symmetric]
      by (simp add: mult.commute)
  qed
  moreover have K: "bufaddr m' x = bufaddr (mem s) x \<and> blkno m' x = blkno (mem s) x" if "x \<in> cached Q" for x
    using Rm [of m' d tr] out that by blast
  moreover have "cache_inv ?s' L Q V (H - {b})"
  proof -
    have out3: "m' y = mem s y" if "y \<notin> link_space s Q" "y \<notin> region (n + 8) 4" "y \<notin> ?dma" for y using out that by simp
    note K3 = node_fields_kept [OF R _ n(1), of _ m', OF _ out3]
    have bz: "\<not> busy m' n"
    proof -
      have "region (n + 8) 4 \<inter> ?dma = {}" using own_buffer(3) [OF R n(1)] node_parts(2) [of n] by blast
      then have "ld32 m' (n + 8) = ld32 m (n + 8)" using w(4) by (intro ld32_cong) auto
      then show ?thesis unfolding busy_def m_def ld32_st32_same using flag_bits(2) by simp
    qed
    have dn: "d (4096 * b + k) = V b k" if "k < 4096" for k
    proof -
      have inB: "B + of_nat k \<in> region B 4096" using region_index [of k 0 4096 B] that by simp
      then have "B + of_nat k \<notin> region (n + 8) 4" using own_buffer(1) [OF R n(1)] node_parts(2) [of n] by (auto simp: B_def)
      then have "mem ?s1 (B + of_nat k) = mem s (B + of_nat k)" using out1 by simp
      then show ?thesis using w(2) [OF that] h n that by (simp add: cache_holds_def B_def)
    qed
    have "cache_holds ?s' Q V (H - {b})"
    proof (rule cache_holds_step [OF h refl])
      show "bufaddr (mem ?s') x = bufaddr (mem s) x \<and> blkno (mem ?s') x = blkno (mem s) x" if "x \<in> cached Q" for x using K that by simp
      show "mem ?s' y = mem s y" if "x \<in> cached Q" "y \<in> region (bufaddr (mem s) x) 4096" for x y using K3(3) that by simp
      show "disk ?s' (4096 * c + k) = V c k" if c: "c < 360" "k < 4096" "c \<notin> H - {b}" for c k
      proof (cases "c = b")
        case False
        then have "4096 * c + k < 4096 * b \<or> 4096 * b + 4096 \<le> 4096 * c + k" using c(2) by linarith
        then show ?thesis using w(3) h c False by (simp add: cache_holds_def)
      qed (use dn c in simp)
      show "busy (mem ?s') x \<longleftrightarrow> blkno (mem s) x \<in> H - {b}" if x: "x \<in> cached Q" for x
      proof (cases "x = n")
        case False
        then have "blkno (mem s) x \<noteq> b" using inj_onD [OF cache_repD(8) [OF R], of x n] x n by auto
        then show ?thesis using K3(2) [OF x] h x False by (simp add: cache_holds_def)
      qed (use bz n in simp)
      show "H - {b} \<subseteq> blkno (mem s) ` cached Q" using h unfolding cache_holds_def by blast
    qed
    then show ?thesis using Rm [of m' d tr] out by (simp add: cache_inv_def)
  qed
  moreover have "\<forall>y\<in>client_bytes s L Q. m' y = mem s y"
    using out client_bytes_dma [OF R] client_bytes_node [OF R _ n(1)] node_parts(2) [of n] by blast
  moreover have "disk_frame s ?s'" by (simp add: disk_frame_def)
  ultimately show ?thesis by (intro exI [of _ ?s']) simp
qed

lemma put_miss:
  assumes "cache_inv s L Q V H" "b < 360" "b \<notin> blkno (mem s) ` cached Q"
  shows "disk_buffer_put (of_nat b) s = Some (Inr s)"
  using find_dnode_miss [of s L Q b] assms by (simp add: cache_inv_def disk_buffer_put_def)

text \<open>A client writes to the pages of the blocks it holds, and to memory that is not the cache's.\<close>

lemma client_write:
  assumes I: "cache_inv s L Q V H"
    and keep: "\<And>y q l. L q = Some l \<Longrightarrow> q = db_head s \<or> q \<in> cached Q \<Longrightarrow> y \<in> region q l \<Longrightarrow> m y = mem s y"
    and out: "\<And>y. (\<And>q l. L q = Some l \<Longrightarrow> y \<notin> region q l) \<Longrightarrow> m y = mem s y"
    and V': "\<And>x k. x \<in> cached Q \<Longrightarrow> k < 4096 \<Longrightarrow> m (bufaddr (mem s) x + of_nat k) = V' (blkno (mem s) x) k"
      "\<And>c k. c < 360 \<Longrightarrow> k < 4096 \<Longrightarrow> c \<notin> H \<Longrightarrow> V' c k = V c k"
  shows "cache_inv (s\<lparr>mem := m\<rparr>) L Q V' H" "x \<in> cached Q \<Longrightarrow> bufaddr m x = bufaddr (mem s) x \<and> blkno m x = blkno (mem s) x"
proof -
  have R: "cache_rep s L Q" and h: "cache_holds s Q V H" using I by (simp_all add: cache_inv_def)
  have nd: "ld32 m a = ld32 (mem s) a" if "x \<in> cached Q" "region a 4 \<subseteq> region x 20" for a x
    using keep [OF cached_node(1) [OF R that(1)]] that by (intro ld32_cong) blast
  have f: "bufaddr m x = bufaddr (mem s) x \<and> blkno m x = blkno (mem s) x" "busy m x = busy (mem s) x" if "x \<in> cached Q" for x
    unfolding bufaddr_def blkno_def busy_def using nd [OF that] node_parts(2-4) [of x] by simp_all
  show "x \<in> cached Q \<Longrightarrow> bufaddr m x = bufaddr (mem s) x \<and> blkno m x = blkno (mem s) x" by (rule f(1))
  have "m y = mem s y" if "y \<in> link_space s Q" for y
    using that keep [OF cache_repD(2) [OF R]] keep [OF cached_node(1) [OF R]] node_parts(1) unfolding link_space_def by blast
  from rings_family [OF R this] have "\<forall>i<13. dll m (head_at s i) (Q i)" by blast
  then have "cache_rep (s\<lparr>mem := m\<rparr>) L Q"
    using f(1) by (intro cache_rep_step(1) [OF R disk_frame_updates(2) pool_write [OF cache_repD(1) [OF R] out] map_le_refl]) auto
  moreover have "blkno m ` cached Q = blkno (mem s) ` cached Q" using f(1) by (intro image_cong) auto
  then have "cache_holds (s\<lparr>mem := m\<rparr>) Q V' H" using h f V' unfolding cache_holds_def by simp
  ultimately show "cache_inv (s\<lparr>mem := m\<rparr>) L Q V' H" by (simp add: cache_inv_def)
qed

end
