(* ===== verification/CacheProps.thy ===== *)
theory CacheProps
  imports Cache KHeapProps
begin

text \<open>
  The cache in use: what its clients read is what they wrote last, and what is not held is on the disk. The
  machine at the end has a controller that reads its command from the bytes sent to its ports.
\<close>

section \<open>Initialisation\<close>

lemma disk_buffer_init_loop_ok:
  assumes "n \<le> 13"
  shows "\<exists>m. disk_buffer_init_loop n s = s\<lparr>mem := m\<rparr> \<and> (\<forall>i<n. dll m (head_at s i) []) \<and>
    (\<forall>y. y \<notin> region (db_head s) 104 \<longrightarrow> m y = mem s y)"
  using assms
proof (induction n)
  case 0
  have "s = s\<lparr>mem := mem s\<rparr>" by simp
  then show ?case by (metis disk_buffer_init_loop.simps(1) not_less_zero)
next
  case (Suc n)
  then obtain m where m: "disk_buffer_init_loop n s = s\<lparr>mem := m\<rparr>" "\<forall>i<n. dll m (head_at s i) []"
    "\<forall>y. y \<notin> region (db_head s) 104 \<longrightarrow> m y = mem s y" by auto
  let ?h = "head_at s n" and ?m = "link_init (head_at s n) m"
  have n: "n < 13" using Suc.prems by simp
  have "dll ?m (head_at s i) []" if i: "i < Suc n" for i
  proof (cases "i = n")
    case True
    then show ?thesis by (simp add: dll_link_init)
  next
    case False
    then have "region (head_at s i) 8 \<inter> region ?h 8 = {}" using head_region(2) [of i n s] i n by simp
    then have "\<forall>y\<in>region (head_at s i) 8. ?m y = m y" using link_init_out by blast
    then show ?thesis using dll_byte_cong [of m "head_at s i" "[]" ?m] m(2) i False by simp
  qed
  moreover have "?m y = mem s y" if "y \<notin> region (db_head s) 104" for y
  proof -
    have "y \<notin> region ?h 8" using that head_region(1) [OF n, of s] by blast
    then show ?thesis using link_init_out m(3) that by simp
  qed
  moreover have "disk_buffer_init_loop (Suc n) s = s\<lparr>mem := ?m\<rparr>" by (simp add: m(1) Let_def db_head_at_def)
  ultimately show ?case by blast
qed

lemma cache_start:
  assumes P: "pool_inv s L" and L: "L (db_head s) = Some 104" "L (dma_buffer s) = Some 1024"
    and d: "dma_reach (dma_buffer s)" "device_ok (dma s)"
  shows "cache_inv (disk_buffer_init s) L (\<lambda>_. []) (\<lambda>b k. disk s (4096 * b + k)) {}" "disk_frame s (disk_buffer_init s)"
    "y \<in> client_bytes s L (\<lambda>_. []) \<Longrightarrow> mem (disk_buffer_init s) y = mem s y"
proof -
  obtain m where m: "disk_buffer_init s = s\<lparr>mem := m\<rparr>" "\<forall>i<13. dll m (head_at s i) []"
    "\<forall>y. y \<notin> region (db_head s) 104 \<longrightarrow> m y = mem s y"
    using disk_buffer_init_loop_ok [of 13 s] unfolding disk_buffer_init_def by auto
  have "pool_inv (s\<lparr>mem := m\<rparr>) L" by (rule pool_write [OF P]) (use m(3) L(1) in blast)
  then have "cache_rep (s\<lparr>mem := m\<rparr>) L (\<lambda>_. [])"
    using L d m(2) by (simp add: cache_rep_def cached_def db_head_at_def)
  then show "cache_inv (disk_buffer_init s) L (\<lambda>_. []) (\<lambda>b k. disk s (4096 * b + k)) {}"
    unfolding m(1) by (simp add: cache_inv_def cache_holds_def cached_def)
  show "disk_frame s (disk_buffer_init s)" unfolding m(1) by (rule disk_frame_updates(2))
  assume "y \<in> client_bytes s L (\<lambda>_. [])"
  then obtain q l where "L q = Some l" "q \<noteq> db_head s" "y \<in> region q l" unfolding client_bytes_def by blast
  then show "mem (disk_buffer_init s) y = mem s y" using m(1,3) pool_inv_apart [OF P _ L(1)] by fastforce
qed

section \<open>The cache in use\<close>

text \<open>
  \<open>V\<close> is what the clients have written, \<open>G\<close> the blocks they hold with the node \<open>disk_buffer_get\<close> returned.
\<close>

inductive cache_run :: "'a disk_state_scheme \<Rightarrow> 'a disk_state_scheme \<Rightarrow> (nat \<Rightarrow> nat \<Rightarrow> u8) \<Rightarrow> (nat \<rightharpoonup> addr) \<Rightarrow> bool" for s0 where
  start: "cache_run s0 (disk_buffer_init s0) (\<lambda>b k. disk s0 (4096 * b + k)) Map.empty"
| get: "cache_run s0 s V G \<Longrightarrow> b < 360 \<Longrightarrow> disk_buffer_get (of_nat b) s = Some (Inr (n, s')) \<Longrightarrow>
    cache_run s0 s' V (G(b \<mapsto> n))"
| put: "cache_run s0 s V G \<Longrightarrow> b < 360 \<Longrightarrow> disk_buffer_put (of_nat b) s = Some (Inr s') \<Longrightarrow>
    cache_run s0 s' V (G(b := None))"
| store: "cache_run s0 s V G \<Longrightarrow> G b = Some n \<Longrightarrow> k < 4096 \<Longrightarrow>
    cache_run s0 (s\<lparr>mem := (mem s)(ld32 (mem s) (db_buffer n) + of_nat k := v)\<rparr>) (V(b := (V b)(k := v))) G"

definition run_inv :: "'a disk_state_scheme \<Rightarrow> (addr \<rightharpoonup> nat) \<Rightarrow> 'a disk_state_scheme \<Rightarrow> (nat \<Rightarrow> nat \<Rightarrow> u8) \<Rightarrow> (nat \<rightharpoonup> addr) \<Rightarrow>
    (addr \<rightharpoonup> nat) \<Rightarrow> (nat \<Rightarrow> addr list) \<Rightarrow> bool" where
  "run_inv s0 L0 s V G L Q \<longleftrightarrow> cache_inv s L Q V (dom G) \<and> L0 \<subseteq>\<^sub>m L \<and> disk_frame s0 s \<and>
     (\<forall>b n. G b = Some n \<longrightarrow> n \<in> cached Q \<and> blkno (mem s) n = b) \<and>
     (\<forall>q\<in>dom L0. q \<notin> cached Q \<and> q \<notin> bufaddr (mem s) ` cached Q) \<and>
     (\<forall>y\<in>client_bytes s0 L0 (\<lambda>_. []). mem s y = mem s0 y)"

lemma old_client_bytes:
  assumes "run_inv s0 L0 s V G L Q"
  shows "client_bytes s0 L0 (\<lambda>_. []) \<subseteq> client_bytes s L Q"
proof -
  have le: "L0 \<subseteq>\<^sub>m L" and f: "disk_frame s0 s" and n: "\<forall>q\<in>dom L0. q \<notin> cached Q" using assms by (auto simp: run_inv_def)
  show ?thesis
    unfolding client_bytes_def disk_frameD [OF f] using n map_le_some [OF le] by blast
qed

lemma run_inv_get:
  assumes R: "run_inv s0 L0 s V G L Q" and b: "b < 360"
  shows "disk_buffer_get (of_nat b) s = Some (Inl (Bug ''memory alloc failed'')) \<or>
    (\<exists>n s' L' Q'. disk_buffer_get (of_nat b) s = Some (Inr (n, s')) \<and> run_inv s0 L0 s' V (G(b \<mapsto> n)) L' Q' \<and>
      (\<forall>m. G b = Some m \<longrightarrow> m = n))"
proof -
  have I: "cache_inv s L Q V (dom G)" and le: "L0 \<subseteq>\<^sub>m L" and fr: "disk_frame s0 s"
    and G: "\<And>b n. G b = Some n \<Longrightarrow> n \<in> cached Q \<and> blkno (mem s) n = b"
    and A: "\<And>q. q \<in> dom L0 \<Longrightarrow> q \<notin> cached Q \<and> q \<notin> bufaddr (mem s) ` cached Q"
    and Y: "\<And>y. y \<in> client_bytes s0 L0 (\<lambda>_. []) \<Longrightarrow> mem s y = mem s0 y"
    using R unfolding run_inv_def by blast+
  have C: "cache_rep s L Q" using I by (simp add: cache_inv_def)
  note oc = old_client_bytes [OF R]
  have dm: "dom (G(b \<mapsto> n)) = insert b (dom G)" for n by auto
  show ?thesis
  proof (cases "b \<in> blkno (mem s) ` cached Q")
    case True
    then obtain n where n: "n \<in> cached Q" "blkno (mem s) n = b" by blast
    obtain s' Q' where g: "disk_buffer_get (of_nat b) s = Some (Inr (n, s'))" "disk_frame s s'" "cache_inv s' L Q' V (insert b (dom G))"
      "cached Q' = cached Q" "\<forall>x\<in>cached Q. bufaddr (mem s') x = bufaddr (mem s) x \<and> blkno (mem s') x = blkno (mem s) x"
      "\<forall>y\<in>client_bytes s L Q. mem s' y = mem s y"
      using get_hit [OF I n] by blast
    have "bufaddr (mem s') ` cached Q = bufaddr (mem s) ` cached Q" using g(5) by (intro image_cong) auto
    then have "run_inv s0 L0 s' V (G(b \<mapsto> n)) L Q'"
      unfolding run_inv_def dm g(4) using g(3,5,6) le G A Y oc n disk_frame_trans [OF fr g(2)] by (auto split: if_splits)
    moreover have "m = n" if "G b = Some m" for m
      using inj_onD [OF cache_repD(8) [OF C], of m n] G [OF that] n by simp
    ultimately show ?thesis using g(1) by blast
  next
    case False
    from get_miss [OF I b False] show ?thesis
    proof (elim disjE exE conjE)
      fix n s' L' Q'
      assume g: "disk_buffer_get (of_nat b) s = Some (Inr (n, s'))" "disk_frame s s'" "cache_inv s' L' Q' V (insert b (dom G))"
        "L \<subseteq>\<^sub>m L'" "cached Q' = insert n (cached Q)" "L n = None" "L (bufaddr (mem s') n) = None" "blkno (mem s') n = b"
        "\<forall>x\<in>cached Q. bufaddr (mem s') x = bufaddr (mem s) x \<and> blkno (mem s') x = blkno (mem s) x"
        "\<forall>y\<in>client_bytes s L Q. mem s' y = mem s y"
      have "bufaddr (mem s') ` cached Q' = insert (bufaddr (mem s') n) (bufaddr (mem s) ` cached Q)"
        unfolding g(5) image_insert using g(9) by (intro arg_cong [where f = "insert _"] image_cong) auto
      moreover have "q \<noteq> n \<and> q \<noteq> bufaddr (mem s') n" if "q \<in> dom L0" for q
        using map_le_some [OF le] that g(6,7) by fastforce
      moreover have "G b = None" using G [of b] False by (cases "G b") auto
      moreover have "L0 \<subseteq>\<^sub>m L'" using map_le_trans [OF le g(4)] .
      ultimately have "run_inv s0 L0 s' V (G(b \<mapsto> n)) L' Q'"
        unfolding run_inv_def dm using g(3,8,9,10) G A Y oc disk_frame_trans [OF fr g(2)] unfolding g(5)
        by (auto split: if_splits)
      then show ?thesis using g(1) \<open>G b = None\<close> by auto
    qed simp
  qed
qed

lemma run_inv_put:
  assumes R: "run_inv s0 L0 s V G L Q" and b: "b < 360"
  shows "\<exists>s'. disk_buffer_put (of_nat b) s = Some (Inr s') \<and> run_inv s0 L0 s' V (G(b := None)) L Q"
proof -
  have I: "cache_inv s L Q V (dom G)" and le: "L0 \<subseteq>\<^sub>m L" and fr: "disk_frame s0 s"
    and G: "\<And>b n. G b = Some n \<Longrightarrow> n \<in> cached Q \<and> blkno (mem s) n = b"
    and A: "\<And>q. q \<in> dom L0 \<Longrightarrow> q \<notin> cached Q \<and> q \<notin> bufaddr (mem s) ` cached Q"
    and Y: "\<And>y. y \<in> client_bytes s0 L0 (\<lambda>_. []) \<Longrightarrow> mem s y = mem s0 y"
    using R unfolding run_inv_def by blast+
  show ?thesis
  proof (cases "b \<in> blkno (mem s) ` cached Q")
    case True
    then obtain n where n: "n \<in> cached Q" "blkno (mem s) n = b" by blast
    obtain s' where g: "disk_buffer_put (of_nat b) s = Some (Inr s')" "disk_frame s s'" "cache_inv s' L Q V (dom G - {b})"
      "\<forall>x\<in>cached Q. bufaddr (mem s') x = bufaddr (mem s) x \<and> blkno (mem s') x = blkno (mem s) x"
      "\<forall>y\<in>client_bytes s L Q. mem s' y = mem s y"
      using put_hit [OF I n] by blast
    have "bufaddr (mem s') ` cached Q = bufaddr (mem s) ` cached Q" using g(4) by (intro image_cong) auto
    moreover have "dom (G(b := None)) = dom G - {b}" by auto
    ultimately have "run_inv s0 L0 s' V (G(b := None)) L Q"
      unfolding run_inv_def using g(3-5) le G A Y old_client_bytes [OF R] disk_frame_trans [OF fr g(2)] by (auto split: if_splits)
    then show ?thesis using g(1) by blast
  next
    case False
    then have "G b = None" using G [of b] by (cases "G b") auto
    then have "G(b := None) = G" by auto
    then show ?thesis using put_miss [OF I b False] R by simp
  qed
qed

text \<open>A client writes to the page of a block it holds.\<close>

lemma run_inv_write:
  assumes R: "run_inv s0 L0 s V G L Q" and n: "G b = Some n"
    and m: "\<And>y. y \<notin> region (ld32 (mem s) (db_buffer n)) 4096 \<Longrightarrow> m y = mem s y"
      "\<And>k. k < 4096 \<Longrightarrow> m (ld32 (mem s) (db_buffer n) + of_nat k) = V' b k"
    and V': "\<And>c. c \<noteq> b \<Longrightarrow> V' c = V c"
  shows "run_inv s0 L0 (s\<lparr>mem := m\<rparr>) V' G L Q"
proof -
  have I: "cache_inv s L Q V (dom G)" and le: "L0 \<subseteq>\<^sub>m L" and fr: "disk_frame s0 s"
    and G: "\<And>b n. G b = Some n \<Longrightarrow> n \<in> cached Q \<and> blkno (mem s) n = b"
    and A: "\<And>q. q \<in> dom L0 \<Longrightarrow> q \<notin> cached Q \<and> q \<notin> bufaddr (mem s) ` cached Q"
    and Y: "\<And>y. y \<in> client_bytes s0 L0 (\<lambda>_. []) \<Longrightarrow> mem s y = mem s0 y"
    using R unfolding run_inv_def by blast+
  have C: "cache_rep s L Q" and h: "cache_holds s Q V (dom G)" using I by (simp_all add: cache_inv_def)
  define B where "B = bufaddr (mem s) n"
  have m: "\<And>y. y \<notin> region B 4096 \<Longrightarrow> m y = mem s y" "\<And>k. k < 4096 \<Longrightarrow> m (B + of_nat k) = V' b k"
    using m by (simp_all add: B_def bufaddr_def)
  have nc: "n \<in> cached Q" "blkno (mem s) n = b" using G n by blast+
  note LB = cached_node(2) [OF C nc(1), folded B_def]
  have other: "m y = mem s y" if "L q = Some l" "q \<noteq> B" "y \<in> region q l" for q l y
    using blocks_apart [OF C that(1) LB that(2)] that(3) m(1) by blast
  have keep: "m y = mem s y" if q: "L q = Some l" "q = db_head s \<or> q \<in> cached Q" "y \<in> region q l" for y q l
  proof -
    have "l \<noteq> 4096" using q(1,2) cache_repD(2) [OF C] cached_node(1) [OF C] by auto
    then have "q \<noteq> B" using q(1) LB by auto
    then show ?thesis using other q by blast
  qed
  have out: "m y = mem s y" if "\<And>q l. L q = Some l \<Longrightarrow> y \<notin> region q l" for y
    using that [OF LB] m(1) by blast
  have V: "m (bufaddr (mem s) x + of_nat j) = V' (blkno (mem s) x) j" if x: "x \<in> cached Q" "j < 4096" for x j
  proof (cases "x = n")
    case True
    then show ?thesis using m(2) [OF x(2)] nc by (simp add: B_def)
  next
    case False
    have "blkno (mem s) x \<noteq> b" using inj_onD [OF cache_repD(8) [OF C], of x n] x nc False by auto
    moreover have "bufaddr (mem s) x \<noteq> B" using inj_onD [OF cache_repD(7) [OF C], of x n] x nc False by (auto simp: B_def)
    then have "m (bufaddr (mem s) x + of_nat j) = mem s (bufaddr (mem s) x + of_nat j)"
      using other [OF cached_node(2) [OF C x(1)]] region_index [of j 0 4096 "bufaddr (mem s) x"] x(2) by simp
    ultimately show ?thesis using h x V' by (simp add: cache_holds_def)
  qed
  have V0: "V' c j = V c j" if "c \<notin> dom G" for c j using that n V' [of c] by (cases "c = b") auto
  have W: "cache_inv (s\<lparr>mem := m\<rparr>) L Q V' (dom G)" "x \<in> cached Q \<Longrightarrow> bufaddr m x = bufaddr (mem s) x \<and> blkno m x = blkno (mem s) x" for x
    using client_write [OF I, of m V'] keep out V V0 by blast+
  note W(1)
  moreover have "bufaddr m ` cached Q = bufaddr (mem s) ` cached Q" using W(2) by (intro image_cong) auto
  moreover have "m y = mem s0 y" if y: "y \<in> client_bytes s0 L0 (\<lambda>_. [])" for y
  proof -
    obtain q l where q: "L0 q = Some l" "y \<in> region q l" using y unfolding client_bytes_def by blast
    then have "q \<noteq> B" using A [of q] nc(1) by (auto simp: B_def)
    then show ?thesis using other [OF map_le_some [OF le q(1)] _ q(2)] Y [OF y] by simp
  qed
  ultimately show "run_inv s0 L0 (s\<lparr>mem := m\<rparr>) V' G L Q"
    unfolding run_inv_def using le A G W(2) disk_frame_trans [OF fr disk_frame_updates(2)] by simp
qed

lemma run_inv_store:
  assumes R: "run_inv s0 L0 s V G L Q" and n: "G b = Some n" "k < 4096"
  shows "run_inv s0 L0 (s\<lparr>mem := (mem s)(ld32 (mem s) (db_buffer n) + of_nat k := v)\<rparr>) (V(b := (V b)(k := v))) G L Q"
proof (rule run_inv_write [OF R n(1)])
  let ?B = "ld32 (mem s) (db_buffer n)" and ?m = "(mem s)(ld32 (mem s) (db_buffer n) + of_nat k := v)"
  have "?B + of_nat k \<in> region ?B 4096" using region_index [of k 0 4096 ?B] n(2) by simp
  then show "?m y = mem s y" if "y \<notin> region ?B 4096" for y using that by auto
  fix j :: nat assume j: "j < 4096"
  have "(of_nat j :: addr) = of_nat k \<longleftrightarrow> unat (of_nat j :: addr) = unat (of_nat k :: addr)" by (simp only: word_unat_eq_iff)
  then have "(of_nat j :: addr) = of_nat k \<longleftrightarrow> j = k"
    using j n(2) unat_of_nat_32 [of j] unat_of_nat_32 [of k] by simp
  moreover have "mem s (?B + of_nat j) = V b j"
  proof -
    have "n \<in> cached Q" "blkno (mem s) n = b" "cache_holds s Q V (dom G)" using R n(1) unfolding run_inv_def cache_inv_def by blast+
    then show ?thesis using j unfolding cache_holds_def bufaddr_def by blast
  qed
  ultimately show "?m (?B + of_nat j) = (V(b := (V b)(k := v))) b j" by simp
qed simp

definition disk_boot :: "'a disk_state_scheme \<Rightarrow> (addr \<rightharpoonup> nat) \<Rightarrow> bool" where
  "disk_boot s L \<longleftrightarrow> pool_inv s L \<and> L (db_head s) = Some 104 \<and> L (dma_buffer s) = Some 1024 \<and>
     dma_reach (dma_buffer s) \<and> device_ok (dma s)"

lemma cache_run_inv:
  assumes "cache_run s0 s V G" "disk_boot s0 L0"
  shows "\<exists>L Q. run_inv s0 L0 s V G L Q"
  using assms
proof induction
  case start
  then have "pool_inv s0 L0" "L0 (db_head s0) = Some 104" "L0 (dma_buffer s0) = Some 1024"
    "dma_reach (dma_buffer s0)" "device_ok (dma s0)" by (simp_all add: disk_boot_def)
  note c = cache_start [OF this]
  then have "run_inv s0 L0 (disk_buffer_init s0) (\<lambda>b k. disk s0 (4096 * b + k)) Map.empty L0 (\<lambda>_. [])"
    by (simp add: run_inv_def cached_def)
  then show ?case by blast
next
  case (get s V G b n s')
  then obtain L Q where R: "run_inv s0 L0 s V G L Q" by blast
  from run_inv_get [OF R get.hyps(2)] obtain n2 s2 L2 Q2
    where "disk_buffer_get (of_nat b) s = Some (Inr (n2, s2))" "run_inv s0 L0 s2 V (G(b \<mapsto> n2)) L2 Q2"
    using get.hyps(3) by auto
  moreover from this(1) have "n2 = n" "s2 = s'" using get.hyps(3) by simp_all
  ultimately show ?case by blast
next
  case (put s V G b s')
  then obtain L Q where R: "run_inv s0 L0 s V G L Q" by blast
  from run_inv_put [OF R put.hyps(2)] obtain s2
    where "disk_buffer_put (of_nat b) s = Some (Inr s2)" "run_inv s0 L0 s2 V (G(b := None)) L Q" by blast
  moreover from this(1) have "s2 = s'" using put.hyps(3) by simp
  ultimately show ?case by blast
next
  case (store s V G b n k v)
  then show ?case using run_inv_store by blast
qed

text \<open>
  C4. Coherence of the disk cache. After any sequence of \<open>disk_buffer_get\<close>, \<open>disk_buffer_put\<close> and writes to
  the buffers of held blocks, with \<open>V\<close> what was written last: every block that is not held is on the disk
  as \<open>V\<close> has it; \<open>disk_buffer_get\<close> returns, on a miss and on a hit, a node whose page holds the block of
  \<open>V\<close>, the same node for a block that is held, or ends in the out-of-memory \<open>BUG\<close>; \<open>disk_buffer_put\<close> returns
  and the block is on the disk; and no byte of any other block of memory has changed.
\<close>

theorem cache_coherent:
  assumes "disk_boot s0 L0" "cache_run s0 s V G" "b < 360"
  shows "(b \<notin> dom G \<longrightarrow> (\<forall>k<4096. disk s (4096 * b + k) = V b k)) \<and>
    (disk_buffer_get (of_nat b) s = Some (Inl (Bug ''memory alloc failed'')) \<or>
     (\<exists>n s'. disk_buffer_get (of_nat b) s = Some (Inr (n, s')) \<and>
        (\<forall>k<4096. mem s' (ld32 (mem s') (db_buffer n) + of_nat k) = V b k) \<and> (\<forall>m. G b = Some m \<longrightarrow> m = n))) \<and>
    (\<exists>s'. disk_buffer_put (of_nat b) s = Some (Inr s') \<and> (\<forall>k<4096. disk s' (4096 * b + k) = V b k)) \<and>
    (\<forall>q l. L0 q = Some l \<and> q \<noteq> db_head s0 \<and> q \<noteq> dma_buffer s0 \<longrightarrow> (\<forall>y\<in>region q l. mem s y = mem s0 y))"
proof -
  obtain L Q where R: "run_inv s0 L0 s V G L Q" using cache_run_inv [OF assms(2,1)] by blast
  have D: "disk t (4096 * b + k) = W b k" if "run_inv s0 L0 t W K M P" "b \<notin> dom K" "k < 4096" for t W K M P k
    using that assms(3) by (simp add: run_inv_def cache_inv_def cache_holds_def)
  have P: "mem t (ld32 (mem t) (db_buffer n) + of_nat k) = W b k" if "run_inv s0 L0 t W K M P" "K b = Some n" "k < 4096" for t W K M P n k
  proof -
    have "cache_holds t P W (dom K)" "n \<in> cached P" "blkno (mem t) n = b" using that by (auto simp: run_inv_def cache_inv_def)
    then show ?thesis using that(3) unfolding cache_holds_def bufaddr_def by blast
  qed
  have "\<exists>n s'. disk_buffer_get (of_nat b) s = Some (Inr (n, s')) \<and>
        (\<forall>k<4096. mem s' (ld32 (mem s') (db_buffer n) + of_nat k) = V b k) \<and> (\<forall>m. G b = Some m \<longrightarrow> m = n)"
    if "disk_buffer_get (of_nat b) s \<noteq> Some (Inl (Bug ''memory alloc failed''))"
  proof -
    have "\<exists>n s' L' Q'. disk_buffer_get (of_nat b) s = Some (Inr (n, s')) \<and> run_inv s0 L0 s' V (G(b \<mapsto> n)) L' Q' \<and>
      (\<forall>m. G b = Some m \<longrightarrow> m = n)" by (rule disjE [OF run_inv_get [OF R assms(3)]]) (use that in simp_all)
    then obtain n s' L' Q' where g: "disk_buffer_get (of_nat b) s = Some (Inr (n, s'))" "run_inv s0 L0 s' V (G(b \<mapsto> n)) L' Q'"
      "\<forall>m. G b = Some m \<longrightarrow> m = n" by (elim exE conjE)
    show ?thesis using g(1,3) P [OF g(2)] by (intro exI [of _ n] exI [of _ s']) simp
  qed
  moreover have "\<exists>s'. disk_buffer_put (of_nat b) s = Some (Inr s') \<and> (\<forall>k<4096. disk s' (4096 * b + k) = V b k)"
  proof -
    obtain s' where p: "disk_buffer_put (of_nat b) s = Some (Inr s')" "run_inv s0 L0 s' V (G(b := None)) L Q"
      using run_inv_put [OF R assms(3)] by blast
    show ?thesis using p(1) D [OF p(2)] by (intro exI [of _ s']) simp
  qed
  moreover have "\<forall>y\<in>region q l. mem s y = mem s0 y" if "L0 q = Some l" "q \<noteq> db_head s0" "q \<noteq> dma_buffer s0" for q l
  proof
    fix y assume "y \<in> region q l"
    then have "y \<in> client_bytes s0 L0 (\<lambda>_. [])" using that unfolding client_bytes_def cached_def by auto
    then show "mem s y = mem s0 y" using R unfolding run_inv_def by blast
  qed
  moreover have "b \<notin> dom G \<longrightarrow> (\<forall>k<4096. disk s (4096 * b + k) = V b k)" using D [OF R] by simp
  ultimately show ?thesis by (intro conjI) blast+
qed

section \<open>A machine with a disk\<close>

text \<open>The bytes the ports have received last decide what the controller does.\<close>

definition chan2 :: "io_event list \<Rightarrow> nat" where
  "chan2 tr = (let as = rev (sent DMA_CHAN2_ADDR tr) in
     unat (as ! 1) + 256 * unat (as ! 0) + 65536 * unat (last (sent 0x81 tr)))"

definition fdc_sector :: "io_event list \<Rightarrow> nat" where
  "fdc_sector tr = (let cs = rev (sent FDC_FIFO tr) in
     (unat (cs ! 7) * 2 + unat (cs ! 6)) * 18 + (unat (cs ! 5) - 1))"

definition floppy_disk :: "io_event list \<Rightarrow> memory \<times> disk \<Rightarrow> memory \<times> disk" where
  "floppy_disk tr = (\<lambda>(m, d). let buf = KVM_BASE + of_nat (chan2 tr); n = fdc_sector tr in
     if last (sent DMA_MODE_REG tr) = DMA_READ then (sectors_in buf n d m, d) else (m, sectors_out buf n m d))"

lemma suffix_last: "suffix [x] xs \<Longrightarrow> last xs = x"
  by (auto simp: suffix_def)

lemma suffix_rev: "suffix ys xs \<Longrightarrow> i < length ys \<Longrightarrow> rev xs ! i = rev ys ! i"
  by (auto simp: suffix_def nth_append)

lemma floppy_disk_ok: "device_ok floppy_disk"
proof -
  have a: "chan2 tr = a" if p: "programmed tr a" for tr a
  proof -
    obtain lo mid hi where q: "suffix [lo, mid] (sent DMA_CHAN2_ADDR tr)" "suffix [hi] (sent 0x81 tr)"
      "a = unat lo + 256 * unat mid + 65536 * unat hi" using p unfolding programmed_def by blast
    show ?thesis using suffix_rev [OF q(1), of 0] suffix_rev [OF q(1), of 1] suffix_last [OF q(2)] q(3) by (simp add: chan2_def Let_def)
  qed
  have n: "fdc_sector tr = n" "last (sent DMA_MODE_REG tr) = mode" if c: "commanded tr cmd mode n" for tr cmd mode n
  proof -
    obtain track head sector where q: "suffix [mode] (sent DMA_MODE_REG tr)"
      "suffix [cmd, push_bit 2 head, track, head, sector, 2, 18, 0x1b, 0xff, 8] (sent FDC_FIFO tr)"
      "n = (unat track * 2 + unat head) * 18 + (unat sector - 1)" using c unfolding commanded_def by blast
    note r = suffix_rev [OF q(2)]
    show "fdc_sector tr = n" using r [of 5] r [of 6] r [of 7] q(3) by (simp add: fdc_sector_def Let_def)
    show "last (sent DMA_MODE_REG tr) = mode" by (rule suffix_last [OF q(1)])
  qed
  show ?thesis
    unfolding device_ok_def floppy_disk_def using a n by (auto simp: Let_def)
qed

definition disk16 :: disk_state where
  "disk16 = \<lparr>mem = (\<lambda>_. 0), io = [], dev = (\<lambda>_ _. 0), free_area = 0xC0011000, mem_map = 0, mem_map_end = 0,
     page_count = 0, free_page_count = 0, img_end = 0, kpagedir = 0xC0010000, img_end_sym = 0xC001FF00, malloc_list = 0,
     db_head = 0xC0012000, dma_buffer = 0xC0013000, disk = (\<lambda>k. of_nat k), dma = floppy_disk\<rparr>"

lemma disk16_ok: "boot_ok 4096 (mapped_state 4096 disk16)" "first_page 4096 (mapped_state 4096 disk16) = 49"
  by (simp_all add: disk16_def tables_for_def mapped_state_def boot_ok_def bm_off_4096 ALIGN_def
      first_page_def tables_end_def bm_at_def)

text \<open>Variables of the image are apart from what the allocators own.\<close>

lemma first_page_behind:
  assumes ok: "boot_ok page_cnt s"
  shows "unat (img_end s) \<le> 0xC0000000 + 4096 * first_page page_cnt s" "unat (img_end s) < 2 ^ 32"
    "unat (img_end s) \<le> unat (LONG_ALIGN (img_end s))"
proof -
  show s: "unat (img_end s) \<le> unat (LONG_ALIGN (img_end s))"
    using ok LONG_ALIGN_bounds [of "img_end s"] by (simp add: boot_ok_def)
  show "unat (img_end s) \<le> 0xC0000000 + 4096 * first_page page_cnt s"
    using s first_page_word(3) [OF ok] boot_bounds(7) [OF ok] by simp
  show "unat (img_end s) < 2 ^ 32" by (rule order.strict_trans2 [OF unsigned_less]) simp
qed

lemma image_clear:
  fixes s :: "'a heap_state_scheme" and page_cnt :: u32
  defines "f \<equiv> first_page page_cnt s"
  assumes ok: "boot_ok page_cnt s" and h: "heap_inv s' [fresh_node (vpage j) 0] []"
    and av: "avail_pages s' = {f..<unat page_cnt} - {j}" "j \<in> {f..<unat page_cnt}" and own: "mm_own s' = mm_own (buddy_system_init page_cnt s)"
    and r: "region p n \<inter> region (free_area s) 132 = {}" "unat p + n \<le> unat (img_end s)"
  shows "region p n \<inter> heap_foot s' [fresh_node (vpage j) 0] = {}"
proof -
  have c: "unat page_cnt \<le> 2 ^ 18" using ok by (simp add: boot_ok_def)
  have e: "unat (img_end s) \<le> 0xC0000000 + 4096 * f" "unat (img_end s) < 2 ^ 32" unfolding f_def using first_page_behind [OF ok] by blast+
  have lin: "unat y < unat p + n" if "y \<in> region p n" for y
    using region_linear [of p n y] r(2) e(2) that by simp
  have pg: "0xC0000000 + 4096 * f \<le> unat y" if "y \<in> page_bytes i" "f \<le> i" "i < unat page_cnt" for y i
    using page_bytes_iff [of i y] that c by simp
  have W: "node_wf (fresh_node (vpage j) 0)" using heap_invD(4) [OF h] by simp
  have nd: "0xC0000000 + 4096 * f \<le> unat y" if "y \<in> node_room (fresh_node (vpage j) 0) \<union> node_meta (fresh_node (vpage j) 0)" for y
  proof -
    have "y \<in> node_span (fresh_node (vpage j) 0)" using that node_room_span [OF W] node_meta_span [OF W] by blast
    then have "unat (vpage j) \<le> unat y" unfolding node_span_linear [OF W] by (simp add: fresh_node_def)
    moreover have "unat (vpage j) = 0xC0000000 + 4096 * j" using av(2) c unat_vpage [of j] by simp
    ultimately show ?thesis using av(2) by simp
  qed
  have "y \<notin> heap_foot s' [fresh_node (vpage j) 0]" if y: "y \<in> region p n" for y
  proof -
    have l: "unat y < unat (img_end s)" using lin [OF y] r(2) by simp
    have "y \<notin> mm_own s'" unfolding own using buddy_system_init_correct(6) [OF ok, of y] l r(1) y by auto
    moreover have "y \<notin> page_bytes i" if "i \<in> avail_pages s'" for i using pg [of y i] l e(1) that av(1) by auto
    ultimately show ?thesis using nd [of y] l e(1) unfolding heap_foot_def by auto
  qed
  then show ?thesis by blast
qed

text \<open>Any machine of this layout starts, with blocks \<open>L\<close> for the variables of the image.\<close>

definition image_has :: "'a mm_state_scheme \<Rightarrow> addr \<Rightarrow> (addr \<rightharpoonup> nat) \<Rightarrow> bool" where
  "image_has s e L \<longleftrightarrow> (\<forall>p n. L p = Some n \<longrightarrow> 0xC0000000 \<le> unat p \<and> unat p + n \<le> unat e \<and> 0 < n \<and> 4 dvd unat p \<and>
       region p n \<inter> region (free_area s) 132 = {}) \<and>
     (\<forall>p n q l. L p = Some n \<longrightarrow> L q = Some l \<longrightarrow> p \<noteq> q \<longrightarrow> region p n \<inter> region q l = {})"

lemma image_started:
  fixes s :: "'a disk_state_scheme" and L :: "addr \<rightharpoonup> nat" and page_cnt :: u32
  defines "t \<equiv> mapped_state page_cnt s"
  assumes ok: "boot_ok page_cnt t" "first_page page_cnt t < unat page_cnt" "malloc_list s = 0"
    and L: "image_has s (img_end t) L"
    and db: "L (db_head s) = Some 104" "L (dma_buffer s) = Some 1024" "dma_reach (dma_buffer s)" "device_ok (dma s)"
  obtains m c1 a b e c2 l where "kmalloc_init (buddy_system_init page_cnt t) = Inr (s\<lparr>mem := m, img_end := e, page_count := c1, mem_map := a,
      mem_map_end := b, free_page_count := c2, malloc_list := l\<rparr>)"
    "disk_boot (s\<lparr>mem := m, img_end := e, page_count := c1, mem_map := a, mem_map_end := b, free_page_count := c2, malloc_list := l\<rparr>) L"
    "\<forall>p n. L p = Some n \<longrightarrow> (\<forall>y\<in>region p n. m y = mem s y)"
proof -
  have ml: "malloc_list t = 0" using ok(3) by (simp add: t_def mapped_state_def)
  have fa: "free_area t = free_area s" by (simp add: t_def mapped_state_def)
  let ?f = "first_page page_cnt t"
  from heap_started [OF ok(1,2) ml] obtain s' j where s: "kmalloc_init (buddy_system_init page_cnt t) = Inr s'"
    "heap_inv s' [fresh_node (vpage j) 0] []" "avail_pages s' = {?f..<unat page_cnt} - {j}" "j \<in> {?f..<unat page_cnt}"
    "mm_own s' = mm_own (buddy_system_init page_cnt t)" "heap_frame (buddy_system_init page_cnt t) s'"
    "\<forall>y. y \<notin> mm_own (buddy_system_init page_cnt t) \<union> block_bytes j 0 \<longrightarrow> mem s' y = mem (buddy_system_init page_cnt t) y" by blast
  obtain m where b: "boot_tables page_cnt t = t\<lparr>mem := m, mem_map := bm_at (LONG_ALIGN (img_end t)) page_cnt 11,
      mem_map_end := tables_end page_cnt t, img_end := PAGE_ALIGN (tables_end page_cnt t + 0xfff), page_count := page_cnt, free_page_count := 0\<rparr>"
    "\<forall>y. y \<notin> region (free_area t) 132 \<and> (unat y < unat (LONG_ALIGN (img_end t)) \<or> unat (tables_end page_cnt t) \<le> unat y) \<longrightarrow> m y = mem t y"
    using boot_tables_mem [OF ok(1)] by blast
  obtain x y where e1: "buddy_system_init page_cnt t = (boot_tables page_cnt t)\<lparr>mem := x, free_page_count := y\<rparr>"
    using buddy_system_init_correct(5) [OF ok(1)] unfolding mm_frame_def by blast
  obtain x' y' z where e2: "s' = (buddy_system_init page_cnt t)\<lparr>mem := x', free_page_count := y', malloc_list := z\<rparr>"
    using s(6) unfolding heap_frame_def by blast
  obtain e a b' where g: "s' = s\<lparr>mem := x', img_end := e, page_count := page_cnt, mem_map := a, mem_map_end := b',
      free_page_count := y', malloc_list := z\<rparr>"
  proof
    show "s' = s\<lparr>mem := x', img_end := PAGE_ALIGN (tables_end page_cnt t + 0xfff), page_count := page_cnt,
        mem_map := bm_at (LONG_ALIGN (img_end t)) page_cnt 11, mem_map_end := tables_end page_cnt t, free_page_count := y', malloc_list := z\<rparr>"
      unfolding e2 e1 b by (simp add: t_def mapped_state_def)
  qed
  note L' = L [unfolded image_has_def, THEN conjunct1, rule_format] and apart = L [unfolded image_has_def, THEN conjunct2, rule_format]
  have le: "unat (img_end t) < 2 ^ 32" using first_page_behind(2) [OF ok(1)] .
  have clear: "region p n \<inter> heap_foot s' [fresh_node (vpage j) 0] = {}" if p: "L p = Some n" for p n
    by (rule image_clear [OF ok(1) s(2-5)]) (use L' [OF p] fa in simp_all)
  have "pool_inv s' L"
  proof (rule pool_invI [OF s(2) _ clear])
    show "0 < n \<and> 0xC0000000 \<le> unat p \<and> unat p + n \<le> 2 ^ 32 \<and> 4 dvd unat p" if "L p = Some n" for p n using L' [OF that] le by simp
  qed (use apart in simp_all)
  then have "disk_boot s' L" using db by (simp add: disk_boot_def g)
  moreover have "x' y = mem s y" if p: "L p = Some n" and y: "y \<in> region p n" for p n y
  proof -
    note R = L' [OF p] and FB = first_page_behind [OF ok(1)]
    have yl: "unat y < unat (img_end t)" using region_linear [of p n y] R le y by simp
    have yf: "y \<notin> region (free_area t) 132" unfolding fa using R y by blast
    have own: "y \<notin> mm_own (buddy_system_init page_cnt t)" using buddy_system_init_correct(6) [OF ok(1), of y] yf yl by auto
    have bt: "mem (buddy_system_init page_cnt t) y = mem (boot_tables page_cnt t) y"
      using buddy_system_init_correct(5) [OF ok(1)] own unfolding mm_frame_def by metis
    have j: "?f \<le> j" "j < 2 ^ 18" using s(4) boot_bounds(2) [OF ok(1)] by simp_all
    have "y \<notin> block_bytes j 0"
      using region_linear [of "vpage j" 4096 y] unat_vpage [OF j(2)] j yl FB(1) by (simp add: block_bytes_def)
    then have "mem s' y = mem (buddy_system_init page_cnt t) y" using s(7) own by blast
    also have "\<dots> = m y" unfolding bt b(1) by simp
    also have "\<dots> = mem t y" using b(2) yf yl FB(3) by simp
    finally show ?thesis by (simp add: g t_def mapped_state_def)
  qed
  ultimately show thesis using that s(1) unfolding g by blast
qed

lemma disk16_started:
  obtains s where "kmalloc_init (buddy_system_init 4096 (mapped_state 4096 disk16)) = Inr s"
    "disk_boot s [0xC0012000 \<mapsto> 104, 0xC0013000 \<mapsto> 1024]" "disk s = (\<lambda>k. of_nat k)"
proof -
  let ?L = "[0xC0012000 \<mapsto> 104, 0xC0013000 \<mapsto> 1024] :: addr \<rightharpoonup> nat"
  have ie: "unat (img_end (mapped_state 4096 disk16)) = 0xC0023000"
    by (simp add: mapped_state_def disk16_def tables_for_def ALIGN_def)
  have d: "region 0xC0012000 104 \<inter> region 0xC0013000 1024 = {}" "region 0xC0012000 104 \<inter> region 0xC0011000 132 = {}"
    "region 0xC0013000 1024 \<inter> region 0xC0011000 132 = {}" by (rule region_apartI; simp)+
  have L: "image_has disk16 (img_end (mapped_state 4096 disk16)) ?L"
    unfolding image_has_def using d ie by (auto simp: disk16_def split: if_splits)
  have r: "dma_reach (dma_buffer disk16)" "device_ok (dma disk16)" "malloc_list disk16 = 0" "?L (db_head disk16) = Some 104"
    "?L (dma_buffer disk16) = Some 1024"
    using floppy_disk_ok by (simp_all add: dma_reach_def pa_def disk16_def)
  have f: "first_page 4096 (mapped_state 4096 disk16) < unat (4096 :: u32)" using disk16_ok(2) by simp
  obtain m c1 a b e c2 l where s: "kmalloc_init (buddy_system_init 4096 (mapped_state 4096 disk16)) = Inr (disk16\<lparr>mem := m, img_end := e,
      page_count := c1, mem_map := a, mem_map_end := b, free_page_count := c2, malloc_list := l\<rparr>)"
    "disk_boot (disk16\<lparr>mem := m, img_end := e, page_count := c1, mem_map := a, mem_map_end := b, free_page_count := c2, malloc_list := l\<rparr>) ?L"
    by (rule image_started [OF disk16_ok(1) f r(3) L r(4,5,1,2)]) blast
  then show thesis by (rule that) (simp add: disk16_def)
qed

theorem cache_coherent_witness:
  "\<exists>s. kmalloc_init (buddy_system_init 4096 (mapped_state 4096 disk16)) = Inr s \<and>
    (\<exists>s'. disk_buffer_put 5 (disk_buffer_init s) = Some (Inr s') \<and> (\<forall>k<4096. disk s' (4096 * 5 + k) = of_nat (4096 * 5 + k)))"
proof -
  obtain s where s: "kmalloc_init (buddy_system_init 4096 (mapped_state 4096 disk16)) = Inr s"
    "disk_boot s [0xC0012000 \<mapsto> 104, 0xC0013000 \<mapsto> 1024]" "disk s = (\<lambda>k. of_nat k)" by (rule disk16_started)
  from cache_coherent [OF s(2) cache_run.start, of 5] show ?thesis using s(1,3) by (intro exI [of _ s]) simp
qed

end
