(* ===== verification/FatIO.thy ===== *)
theory FatIO
  imports DiskBuffer Fat
begin

text \<open>
  The FAT12 file system over the disk cache: the in-memory tables are filled from the disk and written
  back, sectors are read and written along the chain of a file, and open files share inodes. The static
  arrays and the list head of \<open>fat12.c\<close> are addresses of the state, and so is the array \<open>fname\<close> that
  \<open>fat12_get_inode\<close> keeps on its stack.
\<close>

record fat_state = disk_state +
  fat :: addr
  root :: addr
  inode_list :: addr
  fname_buf :: addr

text \<open>Offsets of the fields of \<open>inode_t\<close> (32 bytes) and of \<open>file_t\<close> (20 bytes); \<open>i_count\<close> is at 0.\<close>

abbreviation (input) i_list :: "addr \<Rightarrow> addr" where "i_list inode \<equiv> inode + 20"
abbreviation (input) i_data :: "addr \<Rightarrow> addr" where "i_data inode \<equiv> inode + 28"
abbreviation (input) f_inode :: "addr \<Rightarrow> addr" where "f_inode filp \<equiv> filp + 8"
abbreviation (input) f_pos :: "addr \<Rightarrow> addr" where "f_pos filp \<equiv> filp + 12"
abbreviation (input) f_ops :: "addr \<Rightarrow> addr" where "f_ops filp \<equiv> filp + 16"

abbreviation (input) SECTOR_SIZE :: u32 where "SECTOR_SIZE \<equiv> 512"
abbreviation (input) FAT12_READ :: int where "FAT12_READ \<equiv> 0"
abbreviation (input) FAT12_WRITE :: int where "FAT12_WRITE \<equiv> 1"
abbreviation (input) FAT12_INFO_READ :: int where "FAT12_INFO_READ \<equiv> 0"
abbreviation (input) FAT12_INFO_SYC :: int where "FAT12_INFO_SYC \<equiv> 1"

section \<open>Inodes\<close>

text \<open>The open inode whose directory entry starts with the name, from the link \<open>link\<close> on, or 0.\<close>

partial_function (option) find_inode :: "memory \<Rightarrow> addr \<Rightarrow> addr \<Rightarrow> addr \<Rightarrow> addr option" where
  "find_inode m head filename link =
     (if link = head then Some 0
      else let inode = link - 20 in
        Option.bind (strcmp m (ld32 m (i_data inode)) filename) (\<lambda>res.
          if res = 0 then Some inode else find_inode m head filename (nxt m (i_list inode))))"

definition fat12_get_inode :: "addr \<Rightarrow> 'a fat_state_scheme \<Rightarrow> (fault + addr \<times> 'a fat_state_scheme) option" where
  "fat12_get_inode filename s =
     Option.bind (find_inode (mem s) (inode_list s) filename (nxt (mem s) (inode_list s))) (\<lambda>inode.
       if inode \<noteq> 0 then Some (Inr (inode, s\<lparr>mem := st32 (mem s) inode (ld32 (mem s) inode + 1)\<rparr>))
       else
         let s = s\<lparr>mem := pad_name (fname_buf s) filename (mem s)\<rparr>
         in case dir_find 224 (root s) (fname_buf s) (mem s) of
              None \<Rightarrow> Some (Inr (0, s))
            | Some dp \<Rightarrow>
                bindR (kmalloc 32 s) (\<lambda>(inode, s).
                  let m = st32 (mem s) inode 1;
                      m = st32 m (i_data inode) dp;
                      m = list_insert_after (i_list inode) (inode_list s) m
                  in Some (Inr (inode, s\<lparr>mem := m\<rparr>))))"

text \<open>Whether an inode is on the list.\<close>

partial_function (option) inode_listed :: "memory \<Rightarrow> addr \<Rightarrow> addr \<Rightarrow> addr \<Rightarrow> bool option" where
  "inode_listed m head inode link =
     (if link = head then Some False
      else let pinode = link - 20 in
        if pinode = inode then Some True else inode_listed m head inode (nxt m (i_list pinode)))"

text \<open>The count is unsigned, so it is never below 0.\<close>

definition fat12_put_inode :: "addr \<Rightarrow> 'a fat_state_scheme \<Rightarrow> (fault + int \<times> 'a fat_state_scheme) option" where
  "fat12_put_inode inode s =
     Option.bind (inode_listed (mem s) (inode_list s) inode (nxt (mem s) (inode_list s))) (\<lambda>found.
       if found then
         let s = s\<lparr>mem := st32 (mem s) inode (ld32 (mem s) inode - 1)\<rparr>
         in if ld32 (mem s) inode < 0 then Some (Inl (Bug ''inode->i_count < 0''))
            else if ld32 (mem s) inode = 0 then
              bindR (kfree (ld32 (mem s) (i_data inode)) s) (\<lambda>s.
                bindR (kfree inode s) (\<lambda>s. Some (Inr (0, s))))
            else Some (Inr (0, s))
       else Some (Inl (Bug ''inode not found'')))"

section \<open>Sectors and tables\<close>

text \<open>The address of a sector in the cache, and the number of the block it is in.\<close>

definition read_sector :: "u16 \<Rightarrow> 'a fat_state_scheme \<Rightarrow> (fault + addr \<times> u32 \<times> 'a fat_state_scheme) option" where
  "read_sector sect_num s =
     (let block_num = ucast (sect_num div 8) :: u32;
          sect_num = sect_num mod 8
      in bindR (disk_buffer_get block_num s) (\<lambda>(dnode, s).
           Some (Inr (ld32 (mem s) (db_buffer dnode) + SECTOR_SIZE * ucast sect_num, block_num, s))))"

text \<open>The five copies between the tables and the buffers of the nodes \<open>d0, ..., d4\<close> of the first blocks.\<close>

definition info_read :: "addr \<Rightarrow> addr \<Rightarrow> addr \<Rightarrow> addr \<Rightarrow> addr \<Rightarrow> addr \<Rightarrow> addr \<Rightarrow> memory \<Rightarrow> memory" where
  "info_read ft rt d0 d1 d2 d3 d4 m =
     (let m = memcpy ft (ld32 m (db_buffer d0) + 512) 3584 m;
          m = memcpy (ft + 3584) (ld32 m (db_buffer d1)) 512 m;
          m = memcpy rt (ld32 m (db_buffer d2) + 1536) 2560 m;
          m = memcpy (rt + 2560) (ld32 m (db_buffer d3)) 4096 m
      in memcpy (rt + 6656) (ld32 m (db_buffer d4)) 512 m)"

definition info_syc :: "addr \<Rightarrow> addr \<Rightarrow> addr \<Rightarrow> addr \<Rightarrow> addr \<Rightarrow> addr \<Rightarrow> addr \<Rightarrow> memory \<Rightarrow> memory" where
  "info_syc ft rt d0 d1 d2 d3 d4 m =
     (let m = memcpy (ld32 m (db_buffer d0) + 512) ft 3584 m;
          m = memcpy (ld32 m (db_buffer d1)) (ft + 3584) 512 m;
          m = memcpy (ld32 m (db_buffer d2) + 1536) rt 2560 m;
          m = memcpy (ld32 m (db_buffer d3)) (rt + 2560) 4096 m
      in memcpy (ld32 m (db_buffer d4)) (rt + 6656) 512 m)"

definition fat12_set_info :: "int \<Rightarrow> 'a fat_state_scheme \<Rightarrow> (fault + 'a fat_state_scheme) option" where
  "fat12_set_info cmd s =
     bindR (disk_buffer_get 0 s) (\<lambda>(d0, s).
     bindR (disk_buffer_get 1 s) (\<lambda>(d1, s).
     bindR (disk_buffer_get 2 s) (\<lambda>(d2, s).
     bindR (disk_buffer_get 3 s) (\<lambda>(d3, s).
     bindR (disk_buffer_get 4 s) (\<lambda>(d4, s).
       let m = (if cmd = FAT12_INFO_READ then info_read (fat s) (root s) d0 d1 d2 d3 d4 (mem s)
                else if cmd = FAT12_INFO_SYC then info_syc (fat s) (root s) d0 d1 d2 d3 d4 (mem s)
                else mem s)
       in bindR (disk_buffer_put 0 (s\<lparr>mem := m\<rparr>)) (\<lambda>s.
          bindR (disk_buffer_put 1 s) (\<lambda>s.
          bindR (disk_buffer_put 2 s) (\<lambda>s.
          bindR (disk_buffer_put 3 s) (disk_buffer_put 4)))))))))"

definition fat12_init :: "'a fat_state_scheme \<Rightarrow> (fault + 'a fat_state_scheme) option" where
  "fat12_init s =
     bindR (fat12_set_info FAT12_INFO_READ s) (\<lambda>s. Some (Inr (s\<lparr>mem := link_init (inode_list s) (mem s)\<rparr>)))"

text \<open>\<open>resize\<close>: the tables in memory, and then the disk.\<close>

definition resize :: "addr \<Rightarrow> u32 \<Rightarrow> 'a fat_state_scheme \<Rightarrow> (fault + 'a fat_state_scheme) option" where
  "resize dp newsize s =
     Option.bind (resize_tables (fat s) dp newsize (mem s)) (\<lambda>(sync, m).
       if sync then fat12_set_info FAT12_INFO_SYC (s\<lparr>mem := m\<rparr>) else Some (Inr (s\<lparr>mem := m\<rparr>)))"

section \<open>Reading and writing files\<close>

text \<open>The copy between a sector and the caller's buffer, and the position in the buffer behind it.\<close>

definition rw_copy ::
  "int \<Rightarrow> int \<Rightarrow> int \<Rightarrow> int \<Rightarrow> int \<Rightarrow> int \<Rightarrow> u32 \<Rightarrow> addr \<Rightarrow> addr \<Rightarrow> memory \<Rightarrow> fault + addr \<times> memory" where
  "rw_copy cmd curr_sect start_sect end_sect start_byte end_byte len sect_buf bufp m =
     (let copy = (\<lambda>off n. if cmd = FAT12_READ then Inr (memcpy bufp (sect_buf + off) n m)
                          else if cmd = FAT12_WRITE then Inr (memcpy (sect_buf + off) bufp n m)
                          else Inl (Bug ''FAT12 cmd error.''))
      in if curr_sect = start_sect then
           let cpysize = (if len + word_of_int start_byte > SECTOR_SIZE then SECTOR_SIZE - word_of_int start_byte else len)
           in bindE (copy (word_of_int start_byte) cpysize) (\<lambda>m. Inr (bufp + cpysize, m))
         else if curr_sect < end_sect then bindE (copy 0 SECTOR_SIZE) (\<lambda>m. Inr (bufp + SECTOR_SIZE, m))
         else if curr_sect = end_sect then bindE (copy 0 (word_of_int end_byte)) (\<lambda>m. Inr (bufp, m))
         else Inr (bufp, m))"

partial_function (option) rw_loop ::
  "int \<Rightarrow> int \<Rightarrow> int \<Rightarrow> int \<Rightarrow> int \<Rightarrow> u32 \<Rightarrow> u16 \<Rightarrow> int \<Rightarrow> addr \<Rightarrow> 'a fat_state_scheme \<Rightarrow> (fault + 'a fat_state_scheme) option" where
  "rw_loop cmd start_sect end_sect start_byte end_byte len cluster curr_sect bufp s =
     (let sect_num = cluster + 31;
          next_cluster = read_entry (odd cluster) (fat s + ucast (fat_entry_idx cluster)) (mem s)
      in bindR
        (if curr_sect \<ge> start_sect \<and> curr_sect \<le> end_sect then
           bindR (read_sector sect_num s) (\<lambda>(sect_buf, block_num, s).
             bindR (Some (rw_copy cmd curr_sect start_sect end_sect start_byte end_byte len sect_buf bufp (mem s))) (\<lambda>(bufp, m).
               bindR (disk_buffer_put block_num (s\<lparr>mem := m\<rparr>)) (\<lambda>s. Some (Inr (bufp, s)))))
         else Some (Inr (bufp, s)))
        (\<lambda>(bufp, s).
          if next_cluster \<ge> 0xff8 then Some (Inr s)
          else rw_loop cmd start_sect end_sect start_byte end_byte len next_cluster (curr_sect + 1) bufp s))"

text \<open>\<open>offset\<close> is an \<open>int\<close>; the sums with \<open>len\<close> are unsigned, and their quotients are taken as \<open>int\<close>.\<close>

definition fat12_rw_aux ::
  "int \<Rightarrow> addr \<Rightarrow> u32 \<Rightarrow> addr \<Rightarrow> u32 \<Rightarrow> 'a fat_state_scheme \<Rightarrow> (fault + 'a fat_state_scheme) option" where
  "fat12_rw_aux cmd inode offset buf len s =
     (let rp = ld32 (mem s) (i_data inode);
          start_sect = sint offset sdiv 512;
          end_sect = sint ((offset + len) div SECTOR_SIZE);
          start_byte = sint offset smod 512;
          end_byte = sint ((offset + len) mod SECTOR_SIZE);
          filesize = ld32 (mem s) (rp + 28);
          first_cluster = ld16 (mem s) (rp + 26)
      in bindR (if offset + len > filesize then resize rp (offset + len) s else Some (Inr s))
           (rw_loop cmd start_sect end_sect start_byte end_byte len first_cluster 0 buf))"

section \<open>Operations on files\<close>

definition fat12_open :: "addr \<Rightarrow> addr \<Rightarrow> 'a fat_state_scheme \<Rightarrow> int \<times> 'a fat_state_scheme" where
  "fat12_open inode filp s = (0, s\<lparr>mem := st32 (mem s) (f_inode filp) inode\<rparr>)"

definition fat12_close :: "addr \<Rightarrow> addr \<Rightarrow> 'a fat_state_scheme \<Rightarrow> int \<times> 'a fat_state_scheme" where
  "fat12_close inode filp s = (0, s\<lparr>mem := st32 (mem s) (f_inode filp) 0\<rparr>)"

text \<open>\<open>offset += size\<close> moves the pointer, not the position it points to.\<close>

definition fat12_read :: "addr \<Rightarrow> addr \<Rightarrow> u32 \<Rightarrow> addr \<Rightarrow> 'a fat_state_scheme \<Rightarrow> (fault + u32 \<times> 'a fat_state_scheme) option" where
  "fat12_read filp buf sz offset s =
     (let inode = ld32 (mem s) (f_inode filp)
      in bindR (fat12_rw_aux FAT12_READ inode (ld32 (mem s) offset) buf sz s) (\<lambda>s.
           let offset = offset + 4 * sz in Some (Inr (sz, s))))"

definition fat12_write :: "addr \<Rightarrow> addr \<Rightarrow> u32 \<Rightarrow> addr \<Rightarrow> 'a fat_state_scheme \<Rightarrow> (fault + u32 \<times> 'a fat_state_scheme) option" where
  "fat12_write filp buf sz offset s =
     (let inode = ld32 (mem s) (f_inode filp)
      in bindR (fat12_rw_aux FAT12_WRITE inode (ld32 (mem s) offset) buf sz s) (\<lambda>s.
           let offset = offset + 4 * sz in Some (Inr (sz, s))))"

end
