(* ===== verification/CacheView.thy ===== *)
theory CacheView
  imports CacheProps FatIO FatProps
begin

text \<open>
  The cache for code that takes a block, works on its page and puts it back, as the file system does: the
  disk is \<open>V\<close>, and the caller's own blocks are \<open>L\<close>.
\<close>

section \<open>The view\<close>

abbreviation client :: "'a disk_state_scheme \<Rightarrow> (addr \<rightharpoonup> nat) \<Rightarrow> addr set" where
  "client s L \<equiv> client_bytes s L (\<lambda>_. [])"

definition cache_view :: "'a disk_state_scheme \<Rightarrow> (addr \<rightharpoonup> nat) \<Rightarrow> (nat \<Rightarrow> nat \<Rightarrow> u8) \<Rightarrow> (nat \<rightharpoonup> addr) \<Rightarrow> bool" where
  "cache_view s L V G \<longleftrightarrow> L (db_head s) = Some 104 \<and> L (dma_buffer s) = Some 1024 \<and> (\<exists>L' Q. run_inv s L s V G L' Q)"

lemma run_inv_view:
  assumes "run_inv s0 L s V G L' Q" "L (db_head s0) = Some 104" "L (dma_buffer s0) = Some 1024"
  shows "cache_view s L V G"
proof -
  have "run_inv s L s V G L' Q" using assms(1) disk_frame_updates(1) unfolding run_inv_def by blast
  moreover have "disk_frame s0 s" using assms(1) by (simp add: run_inv_def)
  ultimately show ?thesis using assms(2,3) disk_frameD(1,2) unfolding cache_view_def by metis
qed

lemma cache_viewE:
  assumes "cache_view s L V G"
  obtains L' Q where "run_inv s L s V G L' Q" "L (db_head s) = Some 104" "L (dma_buffer s) = Some 1024"
  using assms unfolding cache_view_def by blast

lemma run_cache_view: "cache_run s0 s V G \<Longrightarrow> disk_boot s0 L \<Longrightarrow> cache_view s L V G"
  using cache_run_inv run_inv_view unfolding disk_boot_def by blast

lemma client_frame: "disk_frame s s' \<Longrightarrow> client s' L = client s L"
  using disk_frameD(1,2) [of s s'] by (simp add: client_bytes_def)

lemma client_block: "L q = Some n \<Longrightarrow> q \<noteq> db_head s \<Longrightarrow> q \<noteq> dma_buffer s \<Longrightarrow> region q n \<subseteq> client s L"
  unfolding client_bytes_def cached_def by auto

lemma view_disk: "cache_view s L V G \<Longrightarrow> b < 360 \<Longrightarrow> k < 4096 \<Longrightarrow> b \<notin> dom G \<Longrightarrow> disk s (4096 * b + k) = V b k"
  by (elim cache_viewE) (simp add: run_inv_def cache_inv_def cache_holds_def)

lemma view_blocks:
  assumes "cache_view s L V G" "L p = Some n" "L q = Some l" "p \<noteq> q"
  shows "region p n \<inter> region q l = {}"
proof -
  obtain L' Q where "run_inv s L s V G L' Q" using assms(1) by (rule cache_viewE)
  then have "cache_rep s L' Q" and le: "L \<subseteq>\<^sub>m L'" unfolding run_inv_def cache_inv_def by blast+
  moreover have "L' p = Some n" "L' q = Some l" using map_le_some [OF le] assms(2,3) by simp_all
  ultimately show ?thesis using blocks_apart assms(4) by blast
qed

text \<open>The caller's blocks are apart from what the cache uses.\<close>

lemma client_apart:
  assumes R: "run_inv s L s V G L' Q" and q: "L' q = Some l" "q = db_head s \<or> q \<in> cached Q \<or> q \<in> bufaddr (mem s) ` cached Q"
    and h: "L (db_head s) = Some 104"
  shows "region q l \<inter> client s L = {}"
proof -
  have C: "cache_rep s L' Q" and le: "L \<subseteq>\<^sub>m L'" and A: "\<And>q. q \<in> dom L \<Longrightarrow> q \<notin> cached Q \<and> q \<notin> bufaddr (mem s) ` cached Q"
    using R unfolding run_inv_def cache_inv_def by blast+
  have "y \<notin> region q l" if y: "y \<in> client s L" for y
  proof -
    obtain p n where p: "L p = Some n" "p \<noteq> db_head s" "y \<in> region p n" using y unfolding client_bytes_def by blast
    have "p \<noteq> q" using q(2) p(2) A [of p] p(1) by blast
    then show ?thesis using blocks_apart [OF C map_le_some [OF le p(1)] q(1)] p(3) by blast
  qed
  then show ?thesis by blast
qed

section \<open>Operations on the view\<close>

lemma view_get:
  assumes "cache_view s L V G" "b < 360"
  obtains (fail) "disk_buffer_get (of_nat b) s = Some (Inl (Bug ''memory alloc failed''))"
  | (ok) n s' where "disk_buffer_get (of_nat b) s = Some (Inr (n, s'))" "cache_view s' L V (G(b \<mapsto> n))" "disk_frame s s'"
      "\<And>y. y \<in> client s L \<Longrightarrow> mem s' y = mem s y"
proof -
  obtain L' Q where R: "run_inv s L s V G L' Q" and h: "L (db_head s) = Some 104" "L (dma_buffer s) = Some 1024"
    using assms(1) by (rule cache_viewE)
  from run_inv_get [OF R assms(2)] show thesis
  proof (elim disjE exE conjE)
    fix n s' L2 Q2 assume g: "disk_buffer_get (of_nat b) s = Some (Inr (n, s'))" "run_inv s L s' V (G(b \<mapsto> n)) L2 Q2"
    then have "disk_frame s s'" "\<And>y. y \<in> client s L \<Longrightarrow> mem s' y = mem s y" unfolding run_inv_def by blast+
    then show thesis using ok [OF g(1) run_inv_view [OF g(2) h]] by blast
  qed (rule fail)
qed

lemma view_put:
  assumes "cache_view s L V G" "b < 360"
  obtains s' where "disk_buffer_put (of_nat b) s = Some (Inr s')" "cache_view s' L V (G(b := None))" "disk_frame s s'"
      "\<And>y. y \<in> client s L \<Longrightarrow> mem s' y = mem s y"
proof -
  obtain L' Q where R: "run_inv s L s V G L' Q" and h: "L (db_head s) = Some 104" "L (dma_buffer s) = Some 1024"
    using assms(1) by (rule cache_viewE)
  from run_inv_put [OF R assms(2)] obtain s' where g: "disk_buffer_put (of_nat b) s = Some (Inr s')" "run_inv s L s' V (G(b := None)) L' Q"
    by blast
  then have "disk_frame s s'" "\<And>y. y \<in> client s L \<Longrightarrow> mem s' y = mem s y" unfolding run_inv_def by blast+
  then show thesis using that [OF g(1) run_inv_view [OF g(2) h]] by blast
qed

lemma view_page:
  assumes "cache_view s L V G" "G b = Some n"
  defines "B \<equiv> ld32 (mem s) (db_buffer n)"
  shows "k < 4096 \<Longrightarrow> mem s (B + of_nat k) = V b k" "region B 4096 \<inter> client s L = {}"
proof -
  obtain L' Q where R: "run_inv s L s V G L' Q" and h: "L (db_head s) = Some 104" using assms(1) by (rule cache_viewE)
  have I: "cache_rep s L' Q" "cache_holds s Q V (dom G)" and n: "n \<in> cached Q" "blkno (mem s) n = b"
    using R assms(2) unfolding run_inv_def cache_inv_def by blast+
  have B: "B = bufaddr (mem s) n" by (simp add: B_def bufaddr_def)
  show "k < 4096 \<Longrightarrow> mem s (B + of_nat k) = V b k" using I(2) n unfolding cache_holds_def B by blast
  show "region B 4096 \<inter> client s L = {}"
    unfolding B by (rule client_apart [OF R cached_node(2) [OF I(1) n(1)] _ h]) (use n(1) in blast)
qed

lemma view_write_client:
  assumes "cache_view s L V G" and m: "\<And>y. y \<notin> client s L \<Longrightarrow> m y = mem s y"
  shows "cache_view (s\<lparr>mem := m\<rparr>) L V G"
proof -
  obtain L' Q where R: "run_inv s L s V G L' Q" and h: "L (db_head s) = Some 104" "L (dma_buffer s) = Some 1024"
    using assms(1) by (rule cache_viewE)
  have I: "cache_inv s L' Q V (dom G)" and le: "L \<subseteq>\<^sub>m L'" using R unfolding run_inv_def by blast+
  have C: "cache_rep s L' Q" and H: "cache_holds s Q V (dom G)" using I by (simp_all add: cache_inv_def)
  note ap = client_apart [OF R _ _ h(1)]
  have keep: "m y = mem s y" if "L' q = Some l" "q = db_head s \<or> q \<in> cached Q" "y \<in> region q l" for y q l
    using m ap [OF that(1)] that(2,3) by blast
  have out: "m y = mem s y" if y: "\<And>q l. L' q = Some l \<Longrightarrow> y \<notin> region q l" for y
  proof (rule m)
    show "y \<notin> client s L" using y map_le_some [OF le] unfolding client_bytes_def by blast
  qed
  have buf: "m (bufaddr (mem s) x + of_nat k) = V (blkno (mem s) x) k" if x: "x \<in> cached Q" "k < 4096" for x k
  proof -
    have "bufaddr (mem s) x + of_nat k \<in> region (bufaddr (mem s) x) 4096"
      using region_index [of k 0 4096 "bufaddr (mem s) x"] x(2) by simp
    then have "bufaddr (mem s) x + of_nat k \<notin> client s L" using ap [OF cached_node(2) [OF C x(1)]] x(1) by blast
    then show ?thesis using m H x by (simp add: cache_holds_def)
  qed
  have W: "cache_inv (s\<lparr>mem := m\<rparr>) L' Q V (dom G)" "x \<in> cached Q \<Longrightarrow> bufaddr m x = bufaddr (mem s) x \<and> blkno m x = blkno (mem s) x" for x
    using client_write [OF I, of m V] keep out buf by blast+
  have "bufaddr m ` cached Q = bufaddr (mem s) ` cached Q" using W(2) by (intro image_cong) auto
  then have "run_inv (s\<lparr>mem := m\<rparr>) L (s\<lparr>mem := m\<rparr>) V G L' Q"
    using W R disk_frame_updates(1) [of "s\<lparr>mem := m\<rparr>"] unfolding run_inv_def by simp
  then show ?thesis unfolding cache_view_def using h by auto
qed

lemma view_write_page:
  assumes "cache_view s L V G" "G b = Some n"
    and m: "\<And>y. y \<notin> region (ld32 (mem s) (db_buffer n)) 4096 \<Longrightarrow> m y = mem s y"
      "\<And>k. k < 4096 \<Longrightarrow> m (ld32 (mem s) (db_buffer n) + of_nat k) = V' b k"
    and V': "\<And>c. c \<noteq> b \<Longrightarrow> V' c = V c"
  shows "cache_view (s\<lparr>mem := m\<rparr>) L V' G"
proof -
  obtain L' Q where R: "run_inv s L s V G L' Q" and h: "L (db_head s) = Some 104" "L (dma_buffer s) = Some 1024"
    using assms(1) by (rule cache_viewE)
  have "run_inv s L (s\<lparr>mem := m\<rparr>) V' G L' Q" by (rule run_inv_write [OF R assms(2) m V'])
  then show ?thesis by (rule run_inv_view [OF _ h])
qed

section \<open>Copies between a page and the caller's memory\<close>

lemma index_in_region: "i < n \<Longrightarrow> n \<le> 4096 \<Longrightarrow> a + of_nat i \<in> region a n"
  by (subst region_elem) auto

lemma page_part: "j + n \<le> 4096 \<Longrightarrow> region (B + of_nat j) n \<subseteq> region B 4096"
  by (rule region_offset_subset) (simp add: unat_of_nat_32)

lemma view_copy_in:
  fixes s :: "'a disk_state_scheme"
  assumes W: "cache_view s L V G" "G b = Some n" and j: "j + l \<le> 4096" and dst: "region dst l \<subseteq> client s L"
  defines "m \<equiv> memcpy dst (ld32 (mem s) (db_buffer n) + of_nat j) (of_nat l) (mem s)"
  shows "cache_view (s\<lparr>mem := m\<rparr>) L V G"
    "m y = (if y \<in> region dst l then V b (j + unat (y - dst)) else mem s y)"
proof -
  let ?B = "ld32 (mem s) (db_buffer n)"
  note P = view_page [OF W]
  have un: "unat (of_nat l :: u32) = l" using j by (intro unat_of_nat_32) simp
  have "region dst l \<inter> region (?B + of_nat j) l = {}" using dst page_part [OF j, of ?B] P(2) by blast
  then have m: "m y = (if y \<in> region dst l then mem s (?B + of_nat j + (y - dst)) else mem s y)" for y
    unfolding m_def by (rule memcpy_apply [of dst "of_nat l", unfolded un])
  show "cache_view (s\<lparr>mem := m\<rparr>) L V G" by (rule view_write_client [OF W(1)]) (use m dst in auto)
  show "m y = (if y \<in> region dst l then V b (j + unat (y - dst)) else mem s y)"
  proof (cases "y \<in> region dst l")
    case True
    then have k: "unat (y - dst) < l" by (simp add: in_region)
    have e: "?B + of_nat j + (y - dst) = ?B + of_nat (j + unat (y - dst))" by simp
    have "mem s (?B + of_nat j + (y - dst)) = V b (j + unat (y - dst))"
      unfolding e by (rule P(1)) (use k j in linarith)
    then show ?thesis using True m by simp
  qed (use m in simp)
qed

lemma view_copy_out:
  fixes s :: "'a disk_state_scheme"
  assumes W: "cache_view s L V G" "G b = Some n" and j: "j + l \<le> 4096" and src: "region src l \<subseteq> client s L"
  defines "m \<equiv> memcpy (ld32 (mem s) (db_buffer n) + of_nat j) src (of_nat l) (mem s)"
  shows "cache_view (s\<lparr>mem := m\<rparr>) L (V(b := \<lambda>k. if j \<le> k \<and> k < j + l then mem s (src + of_nat (k - j)) else V b k)) G"
    "y \<in> client s L \<Longrightarrow> m y = mem s y"
proof -
  let ?B = "ld32 (mem s) (db_buffer n)"
  note P = view_page [OF W]
  have un: "unat (of_nat l :: u32) = l" using j by (intro unat_of_nat_32) simp
  have sub: "region (?B + of_nat j) l \<subseteq> region ?B 4096" by (rule page_part [OF j])
  have "region (?B + of_nat j) l \<inter> region src l = {}" using src sub P(2) by blast
  then have m: "m y = (if y \<in> region (?B + of_nat j) l then mem s (src + (y - (?B + of_nat j))) else mem s y)" for y
    unfolding m_def by (rule memcpy_apply [of _ "of_nat l", unfolded un])
  show "y \<in> client s L \<Longrightarrow> m y = mem s y" using m sub P(2) by auto
  show "cache_view (s\<lparr>mem := m\<rparr>) L (V(b := \<lambda>k. if j \<le> k \<and> k < j + l then mem s (src + of_nat (k - j)) else V b k)) G"
  proof (rule view_write_page [OF W])
    show "m y = mem s y" if "y \<notin> region ?B 4096" for y using m sub that by auto
    fix k :: nat assume k: "k < 4096"
    have iff: "?B + of_nat k \<in> region (?B + of_nat j) l \<longleftrightarrow> j \<le> k \<and> k < j + l"
      by (rule region_index) (use k j in simp_all)
    have "m (?B + of_nat k) = mem s (src + of_nat (k - j))" if "j \<le> k \<and> k < j + l"
    proof -
      have "?B + of_nat k - (?B + of_nat j) = (of_nat (k - j) :: u32)" using that by (simp add: of_nat_diff)
      then show ?thesis using m iff that by simp
    qed
    moreover have "m (?B + of_nat k) = V b k" if "\<not> (j \<le> k \<and> k < j + l)" using m iff that P(1) [OF k] by simp
    ultimately show "m (?B + of_nat k) = (V(b := \<lambda>k. if j \<le> k \<and> k < j + l then mem s (src + of_nat (k - j)) else V b k)) b k" by simp
  qed simp
qed

end
