(* ===== verification/FileRW.thy ===== *)
theory FileRW
  imports CacheView
begin

text \<open>
  Reading and writing files: \<open>fat12_rw_aux\<close> moves the bytes between the caller's buffer and the sectors of the
  file's chain, each through the disk cache.
\<close>

section \<open>Sectors of the view\<close>

definition sector_byte :: "(nat \<Rightarrow> nat \<Rightarrow> u8) \<Rightarrow> nat \<Rightarrow> nat \<Rightarrow> u8" where
  "sector_byte V sn k = V (sn div 8) (512 * (sn mod 8) + k)"

definition put_sector :: "(nat \<Rightarrow> nat \<Rightarrow> u8) \<Rightarrow> nat \<Rightarrow> nat \<Rightarrow> nat \<Rightarrow> (nat \<Rightarrow> u8) \<Rightarrow> nat \<Rightarrow> nat \<Rightarrow> u8" where
  "put_sector V sn off n f b k =
     (if b = sn div 8 \<and> 512 * (sn mod 8) + off \<le> k \<and> k < 512 * (sn mod 8) + off + n
      then f (k - (512 * (sn mod 8) + off)) else V b k)"

lemma sector_byte_put:
  assumes "off + n \<le> 512" "k < 512"
  shows "sector_byte (put_sector V sn off n f) t k = (if t = sn \<and> off \<le> k \<and> k < off + n then f (k - off) else sector_byte V t k)"
proof (cases "t = sn")
  case True
  then show ?thesis by (auto simp: sector_byte_def put_sector_def)
next
  case False
  show ?thesis
  proof (cases "t div 8 = sn div 8")
    case True
    then have "t mod 8 \<noteq> sn mod 8" using False by (metis div_mult_mod_eq)
    then have "512 * (t mod 8) + k < 512 * (sn mod 8) \<or> 512 * (sn mod 8) + 512 \<le> 512 * (t mod 8) + k" using assms(2) by linarith
    then show ?thesis using False assms(1) by (auto simp: sector_byte_def put_sector_def)
  qed (use False in \<open>simp add: sector_byte_def put_sector_def\<close>)
qed

lemma read_sector_view:
  fixes s :: "'a fat_state_scheme"
  assumes W: "cache_view s L V G" and sn: "sn < 2880"
  obtains (fail) "read_sector (of_nat sn) s = Some (Inl (Bug ''memory alloc failed''))"
  | (ok) n s' where "read_sector (of_nat sn) s =
        Some (Inr (ld32 (mem s') (db_buffer n) + of_nat (512 * (sn mod 8)), of_nat (sn div 8), s'))"
      "cache_view s' L V (G(sn div 8 \<mapsto> n))" "disk_frame s s'" "\<And>y. y \<in> client s L \<Longrightarrow> mem s' y = mem s y"
proof -
  have b: "sn div 8 < 360" using sn by simp
  have u: "unat (of_nat sn :: u16) = sn" using sn by (simp add: unat_of_nat)
  have "unat (ucast (of_nat sn div 8 :: u16) :: u32) = sn div 8"
    using sn u by (simp add: unsigned_ucast_eq unat_div take_bit_nat_eq_self)
  then have e1: "ucast (of_nat sn div 8 :: u16) = (of_nat (sn div 8) :: u32)" by (metis of_nat_unat ucast_id)
  have "unat (ucast (of_nat sn mod 8 :: u16) :: u32) = sn mod 8"
    using sn u by (simp add: unsigned_ucast_eq unat_mod take_bit_nat_eq_self)
  then have "ucast (of_nat sn mod 8 :: u16) = (of_nat (sn mod 8) :: u32)" by (metis of_nat_unat ucast_id)
  then have e2: "SECTOR_SIZE * ucast (of_nat sn mod 8 :: u16) = of_nat (512 * (sn mod 8))" by simp
  note d = read_sector_def [of "of_nat sn" s, unfolded Let_def e1 e2]
  from W b show thesis
  proof (rule view_get)
    assume "disk_buffer_get (of_nat (sn div 8)) s = Some (Inl (Bug ''memory alloc failed''))"
    then show thesis using fail unfolding d by simp
  next
    fix n s' assume g: "disk_buffer_get (of_nat (sn div 8)) s = Some (Inr (n, s'))" "cache_view s' L V (G(sn div 8 \<mapsto> n))"
      "disk_frame s s'" "\<And>y. y \<in> client s L \<Longrightarrow> mem s' y = mem s y"
    then show thesis using ok [of s' n] unfolding d by simp
  qed
qed

text \<open>A sector is taken, copied from or to, and put back.\<close>

definition with_sector ::
  "(addr \<Rightarrow> memory \<Rightarrow> fault + addr \<times> memory) \<Rightarrow> u16 \<Rightarrow> 'a fat_state_scheme \<Rightarrow> (fault + addr \<times> 'a fat_state_scheme) option" where
  "with_sector copy sect_num s =
     bindR (read_sector sect_num s) (\<lambda>(sect_buf, block_num, s).
       bindR (Some (copy sect_buf (mem s))) (\<lambda>(bufp, m).
         bindR (disk_buffer_put block_num (s\<lparr>mem := m\<rparr>)) (\<lambda>s. Some (Inr (bufp, s)))))"

lemma put_sector_upd:
  "put_sector V sn off n f = V(sn div 8 := \<lambda>k. if 512 * (sn mod 8) + off \<le> k \<and> k < 512 * (sn mod 8) + off + n
     then f (k - (512 * (sn mod 8) + off)) else V (sn div 8) k)"
  by (simp add: put_sector_def fun_eq_iff)

lemma sector_read:
  fixes s :: "'a fat_state_scheme"
  assumes W: "cache_view s L V Map.empty" and sn: "sn < 2880"
    and c: "\<And>sb m. copy sb m = Inr (bufp', memcpy dst (sb + of_nat off) (of_nat n) m)" "off + n \<le> 512"
    and dst: "region dst n \<subseteq> client s L"
  shows "with_sector copy (of_nat sn) s = Some (Inl (Bug ''memory alloc failed'')) \<or>
    (\<exists>s'. with_sector copy (of_nat sn) s = Some (Inr (bufp', s')) \<and> cache_view s' L V Map.empty \<and> disk_frame s s' \<and>
      (\<forall>y\<in>client s L. mem s' y = (if y \<in> region dst n then sector_byte V sn (off + unat (y - dst)) else mem s y)))"
  using W sn
proof (rule read_sector_view)
  assume "read_sector (of_nat sn) s = Some (Inl (Bug ''memory alloc failed''))"
  then show ?thesis by (simp add: with_sector_def)
next
  fix nd and s1 :: "'a fat_state_scheme"
  let ?b = "sn div 8" and ?j = "512 * (sn mod 8) + off" and ?B = "ld32 (mem s1) (db_buffer nd)"
  assume r: "read_sector (of_nat sn) s = Some (Inr (?B + of_nat (512 * (sn mod 8)), of_nat ?b, s1))"
    "cache_view s1 L V [?b \<mapsto> nd]" "disk_frame s s1" "\<And>y. y \<in> client s L \<Longrightarrow> mem s1 y = mem s y"
  let ?m = "memcpy dst (?B + of_nat ?j) (of_nat n) (mem s1)"
  have cl: "client s1 L = client s L" by (rule client_frame [OF r(3)])
  have "sn mod 8 < 8" by simp
  then have j: "?j + n \<le> 4096" using c(2) by linarith
  have b: "?b < 360" using sn by simp
  have G: "[?b \<mapsto> nd] ?b = Some nd" by simp
  note I = view_copy_in [OF r(2) G j dst [folded cl]]
  obtain s' where p: "disk_buffer_put (of_nat ?b) (s1\<lparr>mem := ?m\<rparr>) = Some (Inr s')" "cache_view s' L V ([?b \<mapsto> nd](?b := None))"
    "disk_frame (s1\<lparr>mem := ?m\<rparr>) s'" "\<And>y. y \<in> client (s1\<lparr>mem := ?m\<rparr>) L \<Longrightarrow> mem s' y = mem (s1\<lparr>mem := ?m\<rparr>) y"
    using I(1) b by (rule view_put) (rule that)
  have "with_sector copy (of_nat sn) s = Some (Inr (bufp', s'))"
  proof -
    have "?B + of_nat (512 * (sn mod 8)) + of_nat off = ?B + of_nat ?j" by simp
    then show ?thesis using r(1) p(1) by (simp add: with_sector_def c(1) add.assoc)
  qed
  moreover have "cache_view s' L V Map.empty" using p(2) by simp
  moreover have "disk_frame s s'" using disk_frame_trans [OF disk_frame_trans [OF r(3) disk_frame_updates(2)] p(3)] .
  moreover have "mem s' y = (if y \<in> region dst n then sector_byte V sn (off + unat (y - dst)) else mem s y)" if "y \<in> client s L" for y
    using that p(4) I(2) r(4) cl by (simp add: sector_byte_def add.assoc client_frame [OF disk_frame_updates(2)])
  ultimately show ?thesis by blast
qed

lemma sector_write:
  fixes s :: "'a fat_state_scheme"
  assumes W: "cache_view s L V Map.empty" and sn: "sn < 2880"
    and c: "\<And>sb m. copy sb m = Inr (bufp', memcpy (sb + of_nat off) src (of_nat n) m)" "off + n \<le> 512"
    and src: "region src n \<subseteq> client s L"
  shows "with_sector copy (of_nat sn) s = Some (Inl (Bug ''memory alloc failed'')) \<or>
    (\<exists>s'. with_sector copy (of_nat sn) s = Some (Inr (bufp', s')) \<and> disk_frame s s' \<and>
      cache_view s' L (put_sector V sn off n (\<lambda>k. mem s (src + of_nat k))) Map.empty \<and> (\<forall>y\<in>client s L. mem s' y = mem s y))"
  using W sn
proof (rule read_sector_view)
  assume "read_sector (of_nat sn) s = Some (Inl (Bug ''memory alloc failed''))"
  then show ?thesis by (simp add: with_sector_def)
next
  fix nd and s1 :: "'a fat_state_scheme"
  let ?b = "sn div 8" and ?j = "512 * (sn mod 8) + off" and ?B = "ld32 (mem s1) (db_buffer nd)"
  assume r: "read_sector (of_nat sn) s = Some (Inr (?B + of_nat (512 * (sn mod 8)), of_nat ?b, s1))"
    "cache_view s1 L V [?b \<mapsto> nd]" "disk_frame s s1" "\<And>y. y \<in> client s L \<Longrightarrow> mem s1 y = mem s y"
  let ?m = "memcpy (?B + of_nat ?j) src (of_nat n) (mem s1)" and ?V = "put_sector V sn off n (\<lambda>k. mem s1 (src + of_nat k))"
  have cl: "client s1 L = client s L" by (rule client_frame [OF r(3)])
  have "sn mod 8 < 8" by simp
  then have j: "?j + n \<le> 4096" using c(2) by linarith
  have b: "?b < 360" using sn by simp
  have G: "[?b \<mapsto> nd] ?b = Some nd" by simp
  note I = view_copy_out [OF r(2) G j src [folded cl], folded put_sector_upd [of V sn off n "\<lambda>k. mem s1 (src + of_nat k)"]]
  obtain s' where p: "disk_buffer_put (of_nat ?b) (s1\<lparr>mem := ?m\<rparr>) = Some (Inr s')" "cache_view s' L ?V ([?b \<mapsto> nd](?b := None))"
    "disk_frame (s1\<lparr>mem := ?m\<rparr>) s'" "\<And>y. y \<in> client (s1\<lparr>mem := ?m\<rparr>) L \<Longrightarrow> mem s' y = mem (s1\<lparr>mem := ?m\<rparr>) y"
    using I(1) b by (rule view_put) (rule that)
  have "with_sector copy (of_nat sn) s = Some (Inr (bufp', s'))"
  proof -
    have "?B + of_nat (512 * (sn mod 8)) + of_nat off = ?B + of_nat ?j" by simp
    then show ?thesis using r(1) p(1) by (simp add: with_sector_def c(1) add.assoc)
  qed
  moreover have "put_sector V sn off n (\<lambda>k. mem s (src + of_nat k)) = ?V"
  proof -
    have e: "mem s1 (src + of_nat k) = mem s (src + of_nat k)" if "k < n" for k
      using index_in_region [OF that, of src] src c(2) r(4) by auto
    show ?thesis
    proof (intro ext)
      fix d k
      show "put_sector V sn off n (\<lambda>k. mem s (src + of_nat k)) d k = ?V d k"
        unfolding put_sector_def by (rule if_cong [OF refl e [symmetric] refl]) linarith
    qed
  qed
  then have "cache_view s' L (put_sector V sn off n (\<lambda>k. mem s (src + of_nat k))) Map.empty" using p(2) by simp
  moreover have "disk_frame s s'" using disk_frame_trans [OF disk_frame_trans [OF r(3) disk_frame_updates(2)] p(3)] .
  moreover have "mem s' y = mem s y" if "y \<in> client s L" for y
    using that p(4) I(2) r(4) cl by (simp add: client_frame [OF disk_frame_updates(2)])
  ultimately show ?thesis by blast
qed

section \<open>Spans\<close>

text \<open>The part of the positions \<open>p0, ..., p1 - 1\<close> that lies in sector \<open>i\<close> of the file.\<close>

abbreviation span_lo :: "nat \<Rightarrow> nat \<Rightarrow> nat" where "span_lo p0 i \<equiv> max (512 * i) p0"
abbreviation span_hi :: "nat \<Rightarrow> nat \<Rightarrow> nat" where "span_hi p1 i \<equiv> min (512 * i + 512) p1"

definition rw_result :: "int \<Rightarrow> addr \<Rightarrow> nat \<Rightarrow> nat \<Rightarrow> addr \<Rightarrow> memory \<Rightarrow> memory" where
  "rw_result cmd bufp off n sb m =
     (if cmd = FAT12_READ then memcpy bufp (sb + of_nat off) (of_nat n) m else memcpy (sb + of_nat off) bufp (of_nat n) m)"

lemma rw_copy_span:
  assumes c: "cmd = FAT12_READ \<or> cmd = FAT12_WRITE" and p: "p0 \<le> p1" "p1 < 2 ^ 31" and i: "p0 div 512 \<le> i" "i \<le> p1 div 512"
  shows "\<exists>bufp'. (\<forall>sb m. rw_copy cmd (int i) (int (p0 div 512)) (int (p1 div 512)) (int (p0 mod 512)) (int (p1 mod 512))
      (of_nat (p1 - p0)) sb bufp m = Inr (bufp', rw_result cmd bufp (span_lo p0 i - 512 * i) (span_hi p1 i - span_lo p0 i) sb m)) \<and>
    (i < p1 div 512 \<longrightarrow> bufp' = bufp + of_nat (span_hi p1 i - span_lo p0 i))"
proof -
  let ?lo = "span_lo p0 i" and ?hi = "span_hi p1 i"
  have woi: "word_of_int (int n) = (of_nat n :: u32)" for n by simp
  consider "i = p0 div 512" | "i \<noteq> p0 div 512" "i < p1 div 512" | "i \<noteq> p0 div 512" "i = p1 div 512" using i(2) by linarith
  then show ?thesis
  proof cases
    case 1
    have b: "512 * i \<le> p0" "p0 < 512 * i + 512" "p0 mod 512 = p0 - 512 * i" unfolding 1 by (simp_all add: minus_mult_div_eq_mod)
    have lo: "?lo = p0" using b by simp
    have "of_nat (p1 - p0) + word_of_int (int (p0 mod 512)) = (of_nat (p1 - 512 * i) :: u32)"
    proof -
      have "p1 - 512 * i = (p1 - p0) + p0 mod 512" using b p(1) by simp
      then show ?thesis by (simp only: of_nat_add woi)
    qed
    moreover have "unat (of_nat (p1 - 512 * i) :: u32) = p1 - 512 * i" using p(2) by (intro unat_of_nat_32) simp
    then have "(SECTOR_SIZE < of_nat (p1 - 512 * i)) = (512 < p1 - 512 * i)" by (simp add: word_less_nat_alt)
    ultimately have s: "(if of_nat (p1 - p0) + word_of_int (int (p0 mod 512)) > SECTOR_SIZE then SECTOR_SIZE - word_of_int (int (p0 mod 512)) else of_nat (p1 - p0))
        = (of_nat (?hi - ?lo) :: u32)"
    proof (cases "512 < p1 - 512 * i")
      case True
      have "?hi - ?lo = 512 - p0 mod 512" "p0 mod 512 \<le> 512" using True b by auto
      then have "(of_nat (?hi - ?lo) :: u32) = of_nat 512 - of_nat (p0 mod 512)" by (simp only: of_nat_diff)
      then show ?thesis using True \<open>(SECTOR_SIZE < of_nat (p1 - 512 * i)) = _\<close> \<open>of_nat (p1 - p0) + _ = _\<close> by simp
    next
      case False
      then have "?hi - ?lo = p1 - p0" using b p(1) by auto
      then show ?thesis using False \<open>(SECTOR_SIZE < of_nat (p1 - 512 * i)) = _\<close> \<open>of_nat (p1 - p0) + _ = _\<close> by simp
    qed
    have w: "word_of_int (int (p0 mod 512)) = (of_nat (p0 mod 512) :: u32)" by (rule woi)
    have o: "?lo - 512 * i = p0 mod 512" using b lo by simp
    show ?thesis
      using c unfolding rw_copy_def Let_def w s [unfolded w] rw_result_def o 1 [symmetric] by (intro exI [of _ "bufp + of_nat (?hi - ?lo)"]) auto
  next
    case 2
    have "p0 < 512 * i" using 2(1) i(1) by (metis div_less_iff_less_mult le_neq_implies_less mult.commute zero_less_numeral)
    moreover have "512 * i + 512 \<le> p1" using 2(2) by linarith
    ultimately have "?lo = 512 * i" "?hi - ?lo = 512" by auto
    then show ?thesis
      using c 2 unfolding rw_copy_def Let_def rw_result_def by (intro exI [of _ "bufp + SECTOR_SIZE"]) auto
  next
    case 3
    have "p0 < 512 * i" using 3(1) i(1) by (metis div_less_iff_less_mult le_neq_implies_less mult.commute zero_less_numeral)
    moreover have "512 * i \<le> p1" "p1 < 512 * i + 512" "p1 mod 512 = p1 - 512 * i" unfolding 3(2) by (simp_all add: minus_mult_div_eq_mod)
    ultimately have l: "?lo = 512 * i" "?hi - ?lo = p1 mod 512" by auto
    have w: "word_of_int (int (p1 mod 512)) = (of_nat (p1 mod 512) :: u32)" by (rule woi)
    have o: "?lo - 512 * i = 0" using l by simp
    show ?thesis
      using c 3 unfolding rw_copy_def Let_def w rw_result_def o l(2) by (intro exI [of _ bufp]) auto
  qed
qed

section \<open>The loop\<close>

lemma chain_drop: "fat_chain F m c ds \<Longrightarrow> i < length (c # ds) \<Longrightarrow> fat_chain F m ((c # ds) ! i) (drop (Suc i) (c # ds))"
proof (induction ds arbitrary: c i)
  case (Cons d ds)
  show ?case
  proof (cases i)
    case (Suc j)
    then show ?thesis using Cons.IH [of d j] Cons.prems by simp
  qed (use Cons.prems in simp)
qed simp

lemma rw_loop_rule:
  fixes Inv :: "nat \<Rightarrow> addr \<Rightarrow> 'a fat_state_scheme \<Rightarrow> bool"
  assumes ch: "\<And>i bufp s. Inv i bufp s \<Longrightarrow> i < length cs \<Longrightarrow> fat_chain (fat s) (mem s) (cs ! i) (drop (Suc i) cs)"
    and skip: "\<And>i bufp s. Inv i bufp s \<Longrightarrow> i < length cs \<Longrightarrow> i < st \<or> en < i \<Longrightarrow> Inv (Suc i) bufp s"
    and step: "\<And>i bufp s. Inv i bufp s \<Longrightarrow> i < length cs \<Longrightarrow> st \<le> i \<Longrightarrow> i \<le> en \<Longrightarrow>
      with_sector (\<lambda>sb m. rw_copy cmd (int i) (int st) (int en) sb0 eb0 len sb bufp m) (of_nat (cs ! i + 31)) s = Some (Inl E) \<or>
      (\<exists>bufp' s'. with_sector (\<lambda>sb m. rw_copy cmd (int i) (int st) (int en) sb0 eb0 len sb bufp m) (of_nat (cs ! i + 31)) s =
        Some (Inr (bufp', s')) \<and> Inv (Suc i) bufp' s')"
  shows "Inv i bufp s \<Longrightarrow> i < length cs \<Longrightarrow>
    rw_loop cmd (int st) (int en) sb0 eb0 len (of_nat (cs ! i)) (int i) bufp s = Some (Inl E) \<or>
    (\<exists>bufp' s'. rw_loop cmd (int st) (int en) sb0 eb0 len (of_nat (cs ! i)) (int i) bufp s = Some (Inr s') \<and> Inv (length cs) bufp' s')"
proof (induction "length cs - i" arbitrary: i bufp s)
  case (Suc n)
  let ?c = "cs ! i"
  note C = ch [OF Suc.prems]
  have c: "?c < 2730" using C by (cases "drop (Suc i) cs") simp_all
  let ?nx = "fat_entry (fat s) ?c (mem s)"
  let ?body = "if int i \<ge> int st \<and> int i \<le> int en then
      with_sector (\<lambda>sb m. rw_copy cmd (int i) (int st) (int en) sb0 eb0 len sb bufp m) (of_nat (?c + 31)) s else Some (Inr (bufp, s))"
  have e: "(of_nat ?c + 31 :: u16) = of_nat (?c + 31)" "int i + 1 = int (Suc i)" by simp_all
  have U: "rw_loop cmd (int st) (int en) sb0 eb0 len (of_nat ?c) (int i) bufp s =
      bindR ?body (\<lambda>(bufp, t). if ?nx \<ge> 0xff8 then Some (Inr t) else rw_loop cmd (int st) (int en) sb0 eb0 len ?nx (int (Suc i)) bufp t)"
    by (subst rw_loop.simps) (simp only: Let_def with_sector_def entry_at_cluster [OF c] fat_entry_def e)
  have body: "?body = Some (Inl E) \<or> (\<exists>bufp' t. ?body = Some (Inr (bufp', t)) \<and> Inv (Suc i) bufp' t)"
  proof (cases "st \<le> i \<and> i \<le> en")
    case True
    then show ?thesis using step [OF Suc.prems] by simp
  next
    case False
    then have "i < st \<or> en < i" by linarith
    then show ?thesis using skip [OF Suc.prems] False by auto
  qed
  then show ?case
  proof (elim disjE exE conjE)
    assume "?body = Some (Inl E)"
    then show ?thesis unfolding U by simp
  next
    fix bufp' t assume b: "?body = Some (Inr (bufp', t))" "Inv (Suc i) bufp' t"
    show ?thesis
    proof (cases "drop (Suc i) cs")
      case Nil
      then have "?nx \<ge> 0xff8" "Suc i = length cs" using C Suc.prems(2) by auto
      then show ?thesis unfolding U b(1) using b(2) by auto
    next
      case (Cons d ds)
      then have l: "Suc i < length cs" "cs ! Suc i = d"
        by (metis drop_eq_Nil list.distinct(1) not_le, metis drop_eq_Nil list.distinct(1) not_le hd_drop_conv_nth list.sel(1))
      have d: "?nx = of_nat (cs ! Suc i)" "\<not> ?nx \<ge> 0xff8" using C of_nat_16_less(1) [of d] by (simp_all add: Cons l(2))
      have "rw_loop cmd (int st) (int en) sb0 eb0 len (of_nat ?c) (int i) bufp s =
          rw_loop cmd (int st) (int en) sb0 eb0 len (of_nat (cs ! Suc i)) (int (Suc i)) bufp' t"
        unfolding U b(1) using d by simp
      moreover have "n = length cs - Suc i" using Suc.hyps(2) by simp
      ultimately show ?thesis using Suc.hyps(1) [OF _ b(2) l(1)] by presburger
    qed
  qed
qed simp

section \<open>Files\<close>

text \<open>Where the byte at position \<open>p\<close> of a file with the clusters \<open>cs\<close> is on the disk.\<close>

definition file_addr :: "nat list \<Rightarrow> nat \<Rightarrow> nat" where
  "file_addr cs p = 512 * (cs ! (p div 512) + 31) + p mod 512"

definition file_byte :: "(nat \<Rightarrow> nat \<Rightarrow> u8) \<Rightarrow> nat list \<Rightarrow> nat \<Rightarrow> u8" where
  "file_byte V cs p = sector_byte V (cs ! (p div 512) + 31) (p mod 512)"

lemma sector_byte_disk:
  assumes "cache_view s L V Map.empty" "sn < 2880" "k < 512"
  shows "disk s (512 * sn + k) = sector_byte V sn k"
proof -
  have "sn = 8 * (sn div 8) + sn mod 8" "sn mod 8 < 8" by simp_all
  then have "512 * sn + k = 4096 * (sn div 8) + (512 * (sn mod 8) + k)" "512 * (sn mod 8) + k < 4096" using assms(3) by linarith+
  moreover have "sn div 8 < 360" using assms(2) by simp
  ultimately show ?thesis using view_disk [OF assms(1), of "sn div 8" "512 * (sn mod 8) + k"] by (simp add: sector_byte_def add.assoc)
qed

lemma disk_frame_fat:
  fixes s t :: "'a fat_state_scheme"
  assumes "disk_frame s t"
  shows "fat t = fat s" "root t = root s" "inode_list t = inode_list s" "fname_buf t = fname_buf s"
proof -
  obtain m i c l d where "t = s\<lparr>mem := m, io := i, free_page_count := c, malloc_list := l, disk := d\<rparr>"
    using assms unfolding disk_frame_def by blast
  then show "fat t = fat s" "root t = root s" "inode_list t = inode_list s" "fname_buf t = fname_buf s" by simp_all
qed

lemma span_facts:
  assumes "p0 \<le> p1" "p0 div 512 \<le> i" "i \<le> p1 div 512"
  shows "span_lo p0 i \<le> span_hi p1 i" "512 * i \<le> span_lo p0 i" "span_hi p1 i \<le> 512 * i + 512" "p0 \<le> span_lo p0 i" "span_hi p1 i \<le> p1"
    "512 * i - p0 = span_lo p0 i - p0" "p0 \<le> p \<Longrightarrow> p < p1 \<Longrightarrow> p < 512 * Suc i \<Longrightarrow> p < 512 * i \<or> span_lo p0 i \<le> p \<and> p < span_hi p1 i"
proof -
  have "p0 < 512 * i + 512" "512 * i \<le> p1" using assms by linarith+
  then show "span_lo p0 i \<le> span_hi p1 i" using assms(1) by simp
qed auto

lemma chain_at:
  assumes "fat_chain F m c ds" "i < length (c # ds)" "\<And>y. y \<in> region F 4096 \<Longrightarrow> m' y = m y"
  shows "fat_chain F m' ((c # ds) ! i) (drop (Suc i) (c # ds))"
  using chain_drop [OF assms(1,2)] 
proof (rule chain_cong)
  fix j assume "j \<in> set ((c # ds) ! i # drop (Suc i) (c # ds))"
  then have "j \<in> set (c # ds)" using assms(2) by (metis in_set_dropD nth_mem set_ConsD)
  then have "j < 2730" using chain_bound [OF assms(1)] by auto
  then show "fat_entry F j m' = fat_entry F j m" by (intro fat_entry_cong assms(3))
qed

lemma following_sector:
  assumes "p0 \<le> p1" "p0 div 512 \<le> i" "i \<le> p1 div 512" "bufp = buf + (of_nat (span_lo p0 i - p0) :: addr)"
    "i < p1 div 512 \<Longrightarrow> bufp' = bufp + of_nat (span_hi p1 i - span_lo p0 i)"
  shows "Suc i \<le> p1 div 512 \<Longrightarrow> bufp' = buf + of_nat (512 * Suc i - p0)"
proof -
  assume i: "Suc i \<le> p1 div 512"
  then have "i < p1 div 512" by simp
  then have "512 * i + 512 \<le> p1" by linarith
  then have "512 * Suc i \<le> p1" by simp
  moreover have "p0 < 512 * i + 512" using assms(2) by linarith
  ultimately have "512 * Suc i - p0 = (span_lo p0 i - p0) + (span_hi p1 i - span_lo p0 i)" by auto
  moreover have "bufp' = bufp + of_nat (span_hi p1 i - span_lo p0 i)" using assms(5) i by simp
  ultimately show ?thesis using assms(4) by (simp only: of_nat_add add.assoc)
qed

abbreviation span_copy :: "int \<Rightarrow> nat \<Rightarrow> nat \<Rightarrow> nat \<Rightarrow> addr \<Rightarrow> addr \<Rightarrow> memory \<Rightarrow> fault + addr \<times> memory" where
  "span_copy cmd p0 p1 i bufp \<equiv> \<lambda>sb m. rw_copy cmd (int i) (int (p0 div 512)) (int (p1 div 512)) (int (p0 mod 512)) (int (p1 mod 512))
     (of_nat (p1 - p0)) sb bufp m"

abbreviation span_loop ::
  "int \<Rightarrow> nat \<Rightarrow> nat \<Rightarrow> nat \<Rightarrow> nat \<Rightarrow> addr \<Rightarrow> 'a fat_state_scheme \<Rightarrow> (fault + 'a fat_state_scheme) option" where
  "span_loop cmd p0 p1 c i buf \<equiv> rw_loop cmd (int (p0 div 512)) (int (p1 div 512)) (int (p0 mod 512)) (int (p1 mod 512))
     (of_nat (p1 - p0)) (of_nat c) (int i) buf"

text \<open>Sectors before and behind the span.\<close>

lemma skip_span:
  assumes "i < p0 div 512 \<or> p1 div 512 < i"
  shows "Suc i \<le> p1 div 512 \<Longrightarrow> 512 * Suc i - p0 = 512 * i - p0" "p0 \<le> p \<Longrightarrow> p < p1 \<Longrightarrow> p < 512 * Suc i \<Longrightarrow> p < 512 * i"
proof -
  show "512 * Suc i - p0 = 512 * i - p0" if "Suc i \<le> p1 div 512"
  proof -
    have "i < p0 div 512" using assms that by auto
    then have "512 * i + 512 \<le> p0" by linarith
    then show ?thesis by simp
  qed
  show "p < 512 * i" if "p0 \<le> p" "p < p1" "p < 512 * Suc i"
    using assms
  proof
    assume "i < p0 div 512"
    then have "512 * i + 512 \<le> p0" by linarith
    then show ?thesis using that by simp
  next
    assume "p1 div 512 < i"
    then have "p1 < 512 * i" by linarith
    then show ?thesis using that by simp
  qed
qed

lemma read_file_loop:
  fixes s :: "'a fat_state_scheme"
  assumes W: "cache_view s L V Map.empty" and F: "L (fat s) = Some 4096"
    and q: "L q = Some N" "q \<noteq> fat s" "q \<noteq> db_head s" "q \<noteq> dma_buffer s" "region buf (p1 - p0) \<subseteq> region q N"
    and ch: "fat_chain (fat s) (mem s) c ds" and p: "p0 \<le> p1" "p1 < 512 * length (c # ds)"
  shows "span_loop FAT12_READ p0 p1 c 0 buf s = Some (Inl (Bug ''memory alloc failed'')) \<or>
    (\<exists>t. span_loop FAT12_READ p0 p1 c 0 buf s = Some (Inr t) \<and> cache_view t L V Map.empty \<and> disk_frame s t \<and>
      (\<forall>y\<in>client s L. y \<notin> region buf (p1 - p0) \<longrightarrow> mem t y = mem s y) \<and>
      (\<forall>k<p1 - p0. mem t (buf + of_nat k) = file_byte V (c # ds) (p0 + k)))"
proof -
  let ?cs = "c # ds" and ?R = "region buf (p1 - p0)"
  have len: "length ?cs \<le> 2730"
    using card_mono [OF _ chain_bound [OF ch]] distinct_card [OF chain_distinct [OF ch]] by simp
  have p31: "p1 < 2 ^ 31" and p32: "p1 < 2 ^ 32" using p(2) len by simp_all
  have fd: "fat s \<noteq> db_head s" "fat s \<noteq> dma_buffer s" using F W by (auto elim!: cache_viewE)
  have Fc: "region (fat s) 4096 \<subseteq> client s L" by (rule client_block [of L "fat s", OF F fd])
  have qc: "?R \<subseteq> client s L" using q(5) client_block [of L q, OF q(1,3,4)] by blast
  have FR: "region (fat s) 4096 \<inter> ?R = {}" using view_blocks [OF W F q(1)] q(2,5) by blast
  define Inv where "Inv i bufp t \<longleftrightarrow> cache_view t L V Map.empty \<and> disk_frame s t \<and>
    (i \<le> p1 div 512 \<longrightarrow> bufp = buf + of_nat (512 * i - p0)) \<and> (\<forall>y\<in>client s L. y \<notin> ?R \<longrightarrow> mem t y = mem s y) \<and>
    (\<forall>p. p0 \<le> p \<longrightarrow> p < p1 \<longrightarrow> p < 512 * i \<longrightarrow> mem t (buf + of_nat (p - p0)) = file_byte V ?cs p)"
    for i bufp and t :: "'a fat_state_scheme"
  have C: "fat_chain (fat t) (mem t) (?cs ! i) (drop (Suc i) ?cs)" if I: "Inv i bufp t" and i: "i < length ?cs" for i bufp t
  proof -
    have "fat t = fat s" using I disk_frame_fat(1) unfolding Inv_def by blast
    moreover have "mem t y = mem s y" if "y \<in> region (fat s) 4096" for y
      using I that Fc FR unfolding Inv_def by blast
    ultimately show ?thesis using chain_at [OF ch i] by metis
  qed
  have skip: "Inv (Suc i) bufp t" if I: "Inv i bufp t" and i: "i < p0 div 512 \<or> p1 div 512 < i" for i bufp t
  proof -
    show ?thesis using I skip_span [OF i] unfolding Inv_def by simp
  qed
  have step: "with_sector (span_copy FAT12_READ p0 p1 i bufp) (of_nat (?cs ! i + 31)) t = Some (Inl (Bug ''memory alloc failed'')) \<or>
      (\<exists>bufp' t'. with_sector (span_copy FAT12_READ p0 p1 i bufp) (of_nat (?cs ! i + 31)) t = Some (Inr (bufp', t')) \<and> Inv (Suc i) bufp' t')"
    if I: "Inv i bufp t" and i: "i < length ?cs" "p0 div 512 \<le> i" "i \<le> p1 div 512" for i bufp t
  proof -
    let ?lo = "span_lo p0 i" and ?hi = "span_hi p1 i"
    note S = span_facts [OF p(1) i(2,3)]
    obtain bufp' where b: "span_copy FAT12_READ p0 p1 i bufp sb m
        = Inr (bufp', memcpy bufp (sb + of_nat (?lo - 512 * i)) (of_nat (?hi - ?lo)) m)"
      "i < p1 div 512 \<Longrightarrow> bufp' = bufp + of_nat (?hi - ?lo)" for sb m
      using rw_copy_span [OF _ p(1) p31 i(2,3), of FAT12_READ bufp] unfolding rw_result_def by auto
    have W': "cache_view t L V Map.empty" and fr: "disk_frame s t" and bp: "bufp = buf + of_nat (?lo - p0)"
      and old: "\<forall>y\<in>client s L. y \<notin> ?R \<longrightarrow> mem t y = mem s y"
      and got: "\<forall>p. p0 \<le> p \<longrightarrow> p < p1 \<longrightarrow> p < 512 * i \<longrightarrow> mem t (buf + of_nat (p - p0)) = file_byte V ?cs p"
      using I i(3) S(6) unfolding Inv_def by auto
    have cl: "client t L = client s L" by (rule client_frame [OF fr])
    have sn: "?cs ! i + 31 < 2880" using chain_bound [OF ch] nth_mem [OF i(1)] by fastforce
    have u: "unat (of_nat (?lo - p0) :: addr) = ?lo - p0"
      by (rule unat_of_nat_32, rule le_less_trans [OF _ p32]) (use S(1,5) in linarith)
    have dR: "region bufp (?hi - ?lo) \<subseteq> ?R"
      unfolding bp by (rule region_offset_subset, unfold u) (use S(1,4,5) in linarith)
    have "?lo - 512 * i + (?hi - ?lo) \<le> 512" using S(1-3) by linarith
    from sector_read [OF W' sn b(1) this] dR qc cl
    have "with_sector (span_copy FAT12_READ p0 p1 i bufp) (of_nat (?cs ! i + 31)) t = Some (Inl (Bug ''memory alloc failed'')) \<or>
      (\<exists>t'. with_sector (span_copy FAT12_READ p0 p1 i bufp) (of_nat (?cs ! i + 31)) t = Some (Inr (bufp', t')) \<and> cache_view t' L V Map.empty \<and> disk_frame t t' \<and>
      (\<forall>y\<in>client s L. mem t' y = (if y \<in> region bufp (?hi - ?lo) then sector_byte V (?cs ! i + 31) (?lo - 512 * i + unat (y - bufp)) else mem t y)))"
      by simp
    then show ?thesis
    proof (elim disjE exE conjE)
      fix t' assume t': "cache_view t' L V Map.empty" "disk_frame t t'"
        "\<forall>y\<in>client s L. mem t' y = (if y \<in> region bufp (?hi - ?lo) then sector_byte V (?cs ! i + 31) (?lo - 512 * i + unat (y - bufp)) else mem t y)"
      have "mem t' (buf + of_nat (p - p0)) = file_byte V ?cs p" if pp: "p0 \<le> p" "p < p1" "p < 512 * Suc i" for p
      proof -
        let ?y = "buf + of_nat (p - p0) :: addr"
        have "?y \<in> ?R" using region_index [of "p - p0" 0 "p1 - p0" buf] pp p31 by simp
        then have yc: "?y \<in> client s L" using qc by blast
        have iff: "?y \<in> region bufp (?hi - ?lo) \<longleftrightarrow> ?lo - p0 \<le> p - p0 \<and> p - p0 < ?lo - p0 + (?hi - ?lo)"
          unfolding bp
        proof (rule region_index)
          show "p - p0 < 2 ^ 32" by (rule le_less_trans [OF _ p32]) (use pp in linarith)
          show "?lo - p0 + (?hi - ?lo) \<le> 2 ^ 32"
            by (rule order.trans [OF _ less_imp_le [OF p32]]) (use S(1,4,5) in linarith)
        qed
        show ?thesis
        proof (cases "p < 512 * i")
          case True
          then have "?y \<notin> region bufp (?hi - ?lo)" unfolding iff using S(2,4) pp(1) by linarith
          then show ?thesis using t'(3) yc got pp True by simp
        next
          case False
          then have l: "?lo \<le> p" "p < ?hi" using S(7) [of p] pp by simp_all
          then have "?y \<in> region bufp (?hi - ?lo)" unfolding iff using S(4) by linarith
          moreover have "unat (?y - bufp) = p - ?lo"
          proof -
            have "p - p0 = (?lo - p0) + (p - ?lo)" using l(1) S(4) by linarith
            then have "?y - bufp = of_nat (p - ?lo)" unfolding bp by (simp only: of_nat_add) simp
            moreover have "p - ?lo < 2 ^ 32" by (rule le_less_trans [OF _ p32]) (use pp in linarith)
            ultimately show ?thesis by (simp only: unat_of_nat_32)
          qed
          moreover have d: "p div 512 = i" using False pp(3) by (intro div_nat_eqI) simp_all
          moreover have "?lo - 512 * i + (p - ?lo) = p mod 512"
            using l(1) S(2) d minus_mult_div_eq_mod [of p 512] by linarith
          ultimately show ?thesis using t'(3) yc by (simp add: file_byte_def)
        qed
      qed
      moreover have "\<forall>y\<in>client s L. y \<notin> ?R \<longrightarrow> mem t' y = mem s y" using t'(3) old dR by auto
      moreover have "Suc i \<le> p1 div 512 \<longrightarrow> bufp' = buf + of_nat (512 * Suc i - p0)"
        using following_sector [OF p(1) i(2,3) bp b(2)] by blast
      ultimately have "Inv (Suc i) bufp' t'" unfolding Inv_def using t'(1) disk_frame_trans [OF fr t'(2)] by blast
      then show ?thesis if "with_sector (span_copy FAT12_READ p0 p1 i bufp) (of_nat (?cs ! i + 31)) t = Some (Inr (bufp', t'))" using that by blast
    qed simp
  qed
  have I0: "Inv 0 buf s" unfolding Inv_def using W disk_frame_updates(1) by simp
  have l0: "0 < length ?cs" by simp
  have "span_loop FAT12_READ p0 p1 (?cs ! 0) 0 buf s = Some (Inl (Bug ''memory alloc failed'')) \<or>
    (\<exists>bufp' t. span_loop FAT12_READ p0 p1 (?cs ! 0) 0 buf s = Some (Inr t) \<and> Inv (length ?cs) bufp' t)"
    by (rule rw_loop_rule [where Inv = Inv, OF _ _ _ I0 l0]) (rule C skip step; assumption)+
  moreover have "cache_view t L V Map.empty \<and> disk_frame s t \<and> (\<forall>y\<in>client s L. y \<notin> ?R \<longrightarrow> mem t y = mem s y) \<and>
      (\<forall>k<p1 - p0. mem t (buf + of_nat k) = file_byte V ?cs (p0 + k))" if I: "Inv (length ?cs) bufp' t" for bufp' t
  proof (intro conjI allI impI)
    show "cache_view t L V Map.empty" "disk_frame s t" "\<forall>y\<in>client s L. y \<notin> ?R \<longrightarrow> mem t y = mem s y"
      using I unfolding Inv_def by blast+
    fix k assume "k < p1 - p0"
    then have "p0 \<le> p0 + k" "p0 + k < p1" "p0 + k < 512 * length ?cs" using p(2) by linarith+
    then have "mem t (buf + of_nat (p0 + k - p0)) = file_byte V ?cs (p0 + k)" using I unfolding Inv_def by blast
    then show "mem t (buf + of_nat k) = file_byte V ?cs (p0 + k)" by simp
  qed
  ultimately show ?thesis unfolding nth_Cons_0 by blast
qed

text \<open>Writing: \<open>V'\<close> is the disk once the positions below \<open>512 * i\<close> are written.\<close>

definition written :: "(nat \<Rightarrow> nat \<Rightarrow> u8) \<Rightarrow> nat list \<Rightarrow> nat \<Rightarrow> nat \<Rightarrow> (nat \<Rightarrow> u8) \<Rightarrow> nat \<Rightarrow> (nat \<Rightarrow> nat \<Rightarrow> u8) \<Rightarrow> bool" where
  "written V cs p0 p1 f i V' \<longleftrightarrow>
     (\<forall>p. p0 \<le> p \<longrightarrow> p < p1 \<longrightarrow> p < 512 * i \<longrightarrow> file_byte V' cs p = f (p - p0)) \<and>
     (\<forall>sn<2880. \<forall>k<512. (\<forall>p. p0 \<le> p \<longrightarrow> p < p1 \<longrightarrow> file_addr cs p \<noteq> 512 * sn + k) \<longrightarrow> sector_byte V' sn k = sector_byte V sn k)"

lemma written_step:
  assumes w: "written V cs p0 p1 f i V1" and cs: "distinct cs" "i < length cs"
    and p: "p0 \<le> p1" "p0 div 512 \<le> i" "i \<le> p1 div 512"
    and g: "\<And>k. k < span_hi p1 i - span_lo p0 i \<Longrightarrow> g k = f (span_lo p0 i - p0 + k)"
  shows "written V cs p0 p1 f (Suc i) (put_sector V1 (cs ! i + 31) (span_lo p0 i - 512 * i) (span_hi p1 i - span_lo p0 i) g)"
proof -
  let ?lo = "span_lo p0 i" and ?hi = "span_hi p1 i"
  let ?off = "?lo - 512 * i" and ?n = "?hi - ?lo"
  note S = span_facts [OF p]
  have on: "?off + ?n \<le> 512" using S(1-3) by linarith
  note P = sector_byte_put [OF on]
  have "file_byte (put_sector V1 (cs ! i + 31) ?off ?n g) cs q = f (q - p0)" if q: "p0 \<le> q" "q < p1" "q < 512 * Suc i" for q
  proof (cases "q < 512 * i")
    case True
    then have "q div 512 < i" by (simp add: div_less_iff_less_mult mult.commute)
    then have "cs ! (q div 512) \<noteq> cs ! i" using cs by (metis less_trans nat_neq_iff nth_eq_iff_index_eq)
    then have "file_byte (put_sector V1 (cs ! i + 31) ?off ?n g) cs q = file_byte V1 cs q"
      unfolding file_byte_def using P [of "q mod 512" V1 "cs ! i + 31" g "cs ! (q div 512) + 31"] by auto
    then show ?thesis using w True q(1,2) unfolding written_def by simp
  next
    case False
    then have l: "?lo \<le> q" "q < ?hi" using S(7) [of q] q by simp_all
    have d: "q div 512 = i" using False q(3) by (intro div_nat_eqI) simp_all
    then have m: "q mod 512 = q - 512 * i" using minus_mult_div_eq_mod [of q 512] by simp
    have b: "?off \<le> q mod 512" "q mod 512 < ?off + ?n" "q mod 512 - ?off = q - ?lo" "q - ?lo < ?n" "?lo - p0 + (q - ?lo) = q - p0"
      unfolding m using l S(1,2,4) by linarith+
    have "file_byte (put_sector V1 (cs ! i + 31) ?off ?n g) cs q = g (q - ?lo)"
      unfolding file_byte_def d using b(1-3) P [of "q mod 512"] by simp
    then show ?thesis using g [OF b(4)] b(5) by simp
  qed
  moreover have "sector_byte (put_sector V1 (cs ! i + 31) ?off ?n g) sn k = sector_byte V sn k"
    if k: "sn < 2880" "k < 512" "\<forall>q. p0 \<le> q \<longrightarrow> q < p1 \<longrightarrow> file_addr cs q \<noteq> 512 * sn + k" for sn k
  proof -
    have "\<not> (sn = cs ! i + 31 \<and> ?off \<le> k \<and> k < ?off + ?n)"
    proof
      assume a: "sn = cs ! i + 31 \<and> ?off \<le> k \<and> k < ?off + ?n"
      have "p0 \<le> 512 * i + k" "512 * i + k < p1" using a S(1-5) by linarith+
      moreover have "file_addr cs (512 * i + k) = 512 * sn + k" using a k(2) by (simp add: file_addr_def)
      ultimately show False using k(3) by blast
    qed
    then show ?thesis using P [OF k(2)] w k by (auto simp: written_def)
  qed
  ultimately show ?thesis by (simp add: written_def)
qed

lemma written_skip: "written V cs p0 p1 f i V' \<Longrightarrow> i < p0 div 512 \<or> p1 div 512 < i \<Longrightarrow> written V cs p0 p1 f (Suc i) V'"
  using skip_span(2) unfolding written_def by blast

lemma write_file_loop:
  fixes s :: "'a fat_state_scheme"
  assumes W: "cache_view s L V Map.empty" and F: "L (fat s) = Some 4096" and q: "region buf (p1 - p0) \<subseteq> client s L"
    and ch: "fat_chain (fat s) (mem s) c ds" and p: "p0 \<le> p1" "p1 < 512 * length (c # ds)"
  shows "span_loop FAT12_WRITE p0 p1 c 0 buf s = Some (Inl (Bug ''memory alloc failed'')) \<or>
    (\<exists>t V'. span_loop FAT12_WRITE p0 p1 c 0 buf s = Some (Inr t) \<and> cache_view t L V' Map.empty \<and> disk_frame s t \<and>
      (\<forall>y\<in>client s L. mem t y = mem s y) \<and>
      written V (c # ds) p0 p1 (\<lambda>k. mem s (buf + of_nat k)) (length (c # ds)) V')"
proof -
  let ?cs = "c # ds" and ?f = "\<lambda>k. mem s (buf + of_nat k)"
  have len: "length ?cs \<le> 2730"
    using card_mono [OF _ chain_bound [OF ch]] distinct_card [OF chain_distinct [OF ch]] by simp
  have p31: "p1 < 2 ^ 31" and p32: "p1 < 2 ^ 32" using p(2) len by simp_all
  have fd: "fat s \<noteq> db_head s" "fat s \<noteq> dma_buffer s" using F W by (auto elim!: cache_viewE)
  have Fc: "region (fat s) 4096 \<subseteq> client s L" by (rule client_block [of L "fat s", OF F fd])
  define Inv where "Inv i bufp t \<longleftrightarrow> disk_frame s t \<and> (i \<le> p1 div 512 \<longrightarrow> bufp = buf + of_nat (512 * i - p0)) \<and>
    (\<forall>y\<in>client s L. mem t y = mem s y) \<and> (\<exists>V'. cache_view t L V' Map.empty \<and> written V ?cs p0 p1 ?f i V')"
    for i bufp and t :: "'a fat_state_scheme"
  have C: "fat_chain (fat t) (mem t) (?cs ! i) (drop (Suc i) ?cs)" if I: "Inv i bufp t" and i: "i < length ?cs" for i bufp t
  proof -
    have "fat t = fat s" using I disk_frame_fat(1) unfolding Inv_def by blast
    moreover have "mem t y = mem s y" if "y \<in> region (fat s) 4096" for y using I that Fc unfolding Inv_def by blast
    ultimately show ?thesis using chain_at [OF ch i] by metis
  qed
  have skip: "Inv (Suc i) bufp t" if I: "Inv i bufp t" and i: "i < p0 div 512 \<or> p1 div 512 < i" for i bufp t
    using I skip_span(1) [OF i] written_skip [OF _ i] unfolding Inv_def by auto
  have step: "with_sector (span_copy FAT12_WRITE p0 p1 i bufp) (of_nat (?cs ! i + 31)) t = Some (Inl (Bug ''memory alloc failed'')) \<or>
      (\<exists>bufp' t'. with_sector (span_copy FAT12_WRITE p0 p1 i bufp) (of_nat (?cs ! i + 31)) t = Some (Inr (bufp', t')) \<and> Inv (Suc i) bufp' t')"
    if I: "Inv i bufp t" and i: "i < length ?cs" "p0 div 512 \<le> i" "i \<le> p1 div 512" for i bufp t
  proof -
    let ?lo = "span_lo p0 i" and ?hi = "span_hi p1 i"
    note S = span_facts [OF p(1) i(2,3)]
    obtain bufp' where b: "span_copy FAT12_WRITE p0 p1 i bufp sb m
        = Inr (bufp', memcpy (sb + of_nat (?lo - 512 * i)) bufp (of_nat (?hi - ?lo)) m)"
      "i < p1 div 512 \<Longrightarrow> bufp' = bufp + of_nat (?hi - ?lo)" for sb m
      using rw_copy_span [OF _ p(1) p31 i(2,3), of FAT12_WRITE bufp] unfolding rw_result_def by auto
    obtain V1 where fr: "disk_frame s t" and bp: "bufp = buf + of_nat (?lo - p0)" and old: "\<forall>y\<in>client s L. mem t y = mem s y"
      and V1: "cache_view t L V1 Map.empty" "written V ?cs p0 p1 ?f i V1"
      using I i(3) S(6) unfolding Inv_def by auto
    have cl: "client t L = client s L" by (rule client_frame [OF fr])
    have sn: "?cs ! i + 31 < 2880" using chain_bound [OF ch] nth_mem [OF i(1)] by fastforce
    have u: "unat (of_nat (?lo - p0) :: addr) = ?lo - p0"
      by (rule unat_of_nat_32, rule le_less_trans [OF _ p32]) (use S(1,5) in linarith)
    have dR: "region bufp (?hi - ?lo) \<subseteq> region buf (p1 - p0)"
      unfolding bp by (rule region_offset_subset, unfold u) (use S(1,4,5) in linarith)
    let ?g = "\<lambda>k. mem t (bufp + of_nat k)"
    have on: "?lo - 512 * i + (?hi - ?lo) \<le> 512" using S(1-3) by linarith
    have g: "?g k = ?f (?lo - p0 + k)" if k: "k < ?hi - ?lo" for k
    proof -
      have "bufp + of_nat k \<in> client s L" using index_in_region [OF k, of bufp] dR q S(1-3) on by auto
      moreover have "bufp + of_nat k = buf + of_nat (?lo - p0 + k)" unfolding bp by (simp only: of_nat_add add.assoc)
      ultimately show ?thesis using old by metis
    qed
    have W2: "written V ?cs p0 p1 ?f (Suc i) (put_sector V1 (?cs ! i + 31) (?lo - 512 * i) (?hi - ?lo) ?g)"
      by (rule written_step [OF V1(2) chain_distinct [OF ch] i(1) p(1) i(2,3) g])
    have bR: "region bufp (?hi - ?lo) \<subseteq> client t L" using dR q unfolding cl by blast
    from sector_write [OF V1(1) sn b(1) on bR] show ?thesis
    proof (elim disjE exE conjE)
      fix t' assume t': "with_sector (span_copy FAT12_WRITE p0 p1 i bufp) (of_nat (?cs ! i + 31)) t = Some (Inr (bufp', t'))" "disk_frame t t'"
        "cache_view t' L (put_sector V1 (?cs ! i + 31) (?lo - 512 * i) (?hi - ?lo) ?g) Map.empty" "\<forall>y\<in>client t L. mem t' y = mem t y"
      have "Suc i \<le> p1 div 512 \<longrightarrow> bufp' = buf + of_nat (512 * Suc i - p0)"
        using following_sector [OF p(1) i(2,3) bp b(2)] by blast
      moreover have "\<forall>y\<in>client s L. mem t' y = mem s y" using t'(4) old unfolding cl by simp
      ultimately have "Inv (Suc i) bufp' t'" unfolding Inv_def using t'(3) W2 disk_frame_trans [OF fr t'(2)] by blast
      then show ?thesis using t'(1) by blast
    qed simp
  qed
  have "written V ?cs p0 p1 ?f 0 V" by (simp add: written_def)
  then have I0: "Inv 0 buf s" unfolding Inv_def using W disk_frame_updates(1) by auto
  have l0: "0 < length ?cs" by simp
  have "span_loop FAT12_WRITE p0 p1 (?cs ! 0) 0 buf s = Some (Inl (Bug ''memory alloc failed'')) \<or>
    (\<exists>bufp' t. span_loop FAT12_WRITE p0 p1 (?cs ! 0) 0 buf s = Some (Inr t) \<and> Inv (length ?cs) bufp' t)"
    by (rule rw_loop_rule [where Inv = Inv, OF _ _ _ I0 l0]) (rule C skip step; assumption)+
  then show ?thesis unfolding nth_Cons_0 Inv_def by blast
qed

end
