(* ===== verification/Vm.thy ===== *)
theory Vm
  imports KPool PhysMap
begin

text \<open>
  The address space of a process (\<open>kernel/mm_vm.c\<close>): the list of its areas, sorted by address, and the page
  tables below its page directory. The process is given by the address of its \<open>proc_t\<close>; an area is a
  \<open>vm_area_t\<close> from \<open>kmalloc\<close>. The loops over page tables count and end; those over the list are partial.
\<close>

section \<open>Structures\<close>

text \<open>Offsets of the fields of \<open>vm_area_t\<close> (16 bytes), and of \<open>vm_info.vm_area_list\<close> and \<open>page_dir\<close> in \<open>proc_t\<close>.\<close>

abbreviation (input) vma_next :: "addr \<Rightarrow> addr" where "vma_next vma \<equiv> vma + 4"
abbreviation (input) vma_start :: "addr \<Rightarrow> addr" where "vma_start vma \<equiv> vma + 8"
abbreviation (input) vma_end :: "addr \<Rightarrow> addr" where "vma_end vma \<equiv> vma + 12"
abbreviation (input) vm_area_list :: "addr \<Rightarrow> addr" where "vm_area_list proc \<equiv> proc + 4"
abbreviation (input) proc_page_dir :: "addr \<Rightarrow> addr" where "proc_page_dir proc \<equiv> proc + 16"

section \<open>Mapping an area\<close>

text \<open>The range of page indices of an area: directory and table index of its first and last page.\<close>

definition vma_indices :: "memory \<Rightarrow> addr \<Rightarrow> int \<times> int \<times> int \<times> int" where
  "vma_indices m vma =
     (let start = ld32 m (vma_start vma) AND NOT 0xfff;
          end' = ((ld32 m (vma_end vma) + 0xfff) AND NOT 0xfff) - 1;
          pd_idx = uint (drop_bit 22 start);
          pd_idx_end = uint (drop_bit 22 end');
          pt_idx = uint (drop_bit 12 start AND 0x3ff);
          pt_idx_end = uint (drop_bit 12 end' AND 0x3ff) + (pd_idx_end - pd_idx) * 1024
      in (pd_idx, pd_idx_end, pt_idx, pt_idx_end))"

abbreviation (input) entry_at :: "addr \<Rightarrow> int \<Rightarrow> addr" where "entry_at base i \<equiv> base + 4 * word_of_int i"

definition pagetable_of :: "u32 \<Rightarrow> addr" where
  "pagetable_of pagedir_entry = (pagedir_entry AND NOT 0xfff) + KVM_BASE"

text \<open>The inner loop: pages for the entries from \<open>pt_idx\<close> on, to the end of the table or of the area.\<close>

function map_pt_loop :: "addr \<Rightarrow> int \<Rightarrow> int \<Rightarrow> 'a mm_state_scheme \<Rightarrow> fault + int \<times> 'a mm_state_scheme" where
  "map_pt_loop pagetable_base pt_idx pt_idx_end s =
     bindE (if \<not> PAGE_PRESENT (ld32 (mem s) (entry_at pagetable_base pt_idx))
            then bindE (alloc_page_zero s) (\<lambda>(page, s).
              Inr (s\<lparr>mem := st32 (mem s) (entry_at pagetable_base (pt_idx mod 1024)) (pa (page_to_vir page s) OR 0x07)\<rparr>))
            else Inr s)
       (\<lambda>s. if (pt_idx + 1) mod 1024 \<noteq> 0 \<and> pt_idx + 1 \<le> pt_idx_end
            then map_pt_loop pagetable_base (pt_idx + 1) pt_idx_end s
            else Inr (pt_idx + 1, s))"
  by pat_completeness auto
termination by (relation "measure (\<lambda>(base, i, e, s). nat (e - i))") auto

declare map_pt_loop.simps [simp del]

function map_pd_loop :: "addr \<Rightarrow> int \<Rightarrow> int \<Rightarrow> int \<Rightarrow> int \<Rightarrow> 'a mm_state_scheme \<Rightarrow> fault + 'a mm_state_scheme" where
  "map_pd_loop pagedir_base pd_idx pd_idx_end pt_idx pt_idx_end s =
     (if pd_idx \<le> pd_idx_end then
        bindE (if \<not> PAGE_PRESENT (ld32 (mem s) (entry_at pagedir_base pd_idx))
               then bindE (alloc_page_zero s) (\<lambda>(page, s).
                 Inr (s\<lparr>mem := st32 (mem s) (entry_at pagedir_base pd_idx) (pa (page_to_vir page s) OR 0x07)\<rparr>))
               else Inr s)
          (\<lambda>s. let pagedir_entry = ld32 (mem s) (entry_at pagedir_base pd_idx);
                   pagetable_base = pagetable_of pagedir_entry
               in bindE (map_pt_loop pagetable_base pt_idx pt_idx_end s) (\<lambda>(pt_idx, s).
                    map_pd_loop pagedir_base (pd_idx + 1) pd_idx_end pt_idx pt_idx_end s))
      else Inr s)"
  by pat_completeness auto
termination by (relation "measure (\<lambda>(base, i, e, r). nat (e - i + 1))") auto

declare map_pd_loop.simps [simp del]

definition map_vm_area :: "addr \<Rightarrow> addr \<Rightarrow> 'a mm_state_scheme \<Rightarrow> fault + 'a mm_state_scheme" where
  "map_vm_area proc vma s =
     (let pagedir_base = ld32 (mem s) (proc_page_dir proc)
      in case vma_indices (mem s) vma of (pd_idx, pd_idx_end, pt_idx, pt_idx_end) \<Rightarrow>
           map_pd_loop pagedir_base pd_idx pd_idx_end pt_idx pt_idx_end s)"

section \<open>Allocating an area\<close>

text \<open>The search for a gap: the area behind it, the area before it, and the last address used before it.\<close>

partial_function (option) find_gap :: "memory \<Rightarrow> u32 \<Rightarrow> addr \<Rightarrow> addr \<Rightarrow> u32 \<Rightarrow> (addr \<times> addr \<times> u32) option" where
  "find_gap m sz vma old_vma end' =
     (if vma = 0 \<or> ld32 m (vma_start vma) - end' > sz then Some (vma, old_vma, end')
      else find_gap m sz (ld32 m (vma_next vma)) vma (ld32 m (vma_end vma)))"

text \<open>A new area between \<open>old_vma\<close> (or the head of the list) and \<open>vma\<close>.\<close>

definition link_vma :: "addr \<Rightarrow> addr \<Rightarrow> addr \<Rightarrow> addr \<Rightarrow> u32 \<Rightarrow> u32 \<Rightarrow> memory \<Rightarrow> memory" where
  "link_vma proc vmb vma old_vma start end' m =
     (let m = st32 m (vma_next vmb) vma;
          m = (if old_vma = 0 then st32 m (vm_area_list proc) vmb else st32 m (vma_next old_vma) vmb);
          m = st32 m (vma_start vmb) start
      in st32 m (vma_end vmb) end')"

definition insert_free_vma :: "addr \<Rightarrow> u32 \<Rightarrow> 'a heap_state_scheme \<Rightarrow> (fault + addr \<times> 'a heap_state_scheme) option" where
  "insert_free_vma proc sz s =
     Option.bind (find_gap (mem s) sz (ld32 (mem s) (vm_area_list proc)) 0 (-1)) (\<lambda>(vma, old_vma, end').
       bindR (kmalloc 16 s) (\<lambda>(vmb, s).
         Some (Inr (vmb, s\<lparr>mem := link_vma proc vmb vma old_vma (end' + 1) (end' + sz) (mem s)\<rparr>))))"

text \<open>The first area that does not start below \<open>ustart\<close>, or 0, with its predecessor.\<close>

partial_function (option) find_vma :: "memory \<Rightarrow> u32 \<Rightarrow> addr \<Rightarrow> addr \<Rightarrow> (addr \<times> addr) option" where
  "find_vma m ustart vma old_vma =
     (if vma \<noteq> 0 \<and> ustart > ld32 m (vma_start vma) then find_vma m ustart (ld32 m (vma_next vma)) vma
      else Some (vma, old_vma))"

text \<open>
  At the head of the list the code stores the bounds before it links the area, at a later place the other
  way round. When the list is not empty and the area overlaps or precedes the first one without
  fitting before it, \<open>old_vma\<close> is null and its end is read.
\<close>

definition do_vm_alloc :: "addr \<Rightarrow> addr \<Rightarrow> u32 \<Rightarrow> 'a heap_state_scheme \<Rightarrow> (fault + addr \<times> 'a heap_state_scheme) option" where
  "do_vm_alloc proc start sz s =
     (let ustart = start;
          uend = ustart + sz - 1;
          vma = ld32 (mem s) (vm_area_list proc)
      in if vma = 0 \<or> uend < ld32 (mem s) (vma_start vma) then
           bindR (kmalloc 16 s) (\<lambda>(vmb, s).
             let m = st32 (mem s) (vma_next vmb) vma;
                 m = st32 m (vma_start vmb) ustart;
                 m = st32 m (vma_end vmb) uend;
                 m = st32 m (vm_area_list proc) vmb
             in bindR (Some (map_vm_area proc vmb (s\<lparr>mem := m\<rparr>))) (\<lambda>s. Some (Inr (start, s))))
         else Option.bind (find_vma (mem s) ustart vma 0) (\<lambda>(vma, old_vma).
           if old_vma = 0 then Some (Inl NullDeref)
           else if ustart > ld32 (mem s) (vma_end old_vma) \<and> (vma = 0 \<or> uend < ld32 (mem s) (vma_start vma)) then
             bindR (kmalloc 16 s) (\<lambda>(vmb, s).
               bindR (Some (map_vm_area proc vmb (s\<lparr>mem := link_vma proc vmb vma old_vma ustart uend (mem s)\<rparr>))) (\<lambda>s.
                 Some (Inr (start, s))))
           else
             bindR (insert_free_vma proc sz s) (\<lambda>(vma, s).
               if vma = 0 then Some (Inl (Bug ''no more free vma.''))
               else bindR (Some (map_vm_area proc vma s)) (\<lambda>s. Some (Inr (ld32 (mem s) (vma_start vma), s))))))"

definition alloc_page_dir :: "'a mm_state_scheme \<Rightarrow> fault + addr \<times> 'a mm_state_scheme" where
  "alloc_page_dir s = bindE (alloc_page_zero s) (\<lambda>(dir, s). Inr (page_to_vir dir s, s))"

section \<open>Unmapping and freeing\<close>

text \<open>The entries of an area in one table: each is cleared and the page it led to is freed.\<close>

function unmap_pt_loop :: "addr \<Rightarrow> int \<Rightarrow> int \<Rightarrow> 'a mm_state_scheme \<Rightarrow> int \<times> 'a mm_state_scheme" where
  "unmap_pt_loop pagetable_base pt_idx pt_idx_end s =
     (let pagetable_entry = ld32 (mem s) (entry_at pagetable_base (pt_idx mod 1024));
          s = s\<lparr>mem := st32 (mem s) (entry_at pagetable_base (pt_idx mod 1024)) 0\<rparr>;
          page_base = (pagetable_entry AND NOT 0xfff) + KVM_BASE;
          s = free_pages (vir_to_page page_base s) 0 s
      in if (pt_idx + 1) mod 1024 \<noteq> 0 \<and> pt_idx + 1 \<le> pt_idx_end
         then unmap_pt_loop pagetable_base (pt_idx + 1) pt_idx_end s
         else (pt_idx + 1, s))"
  by pat_completeness auto
termination by (relation "measure (\<lambda>(base, i, e, s). nat (e - i))") auto

declare unmap_pt_loop.simps [simp del]

text \<open>The number of entries in use.\<close>

definition used_entries :: "addr \<Rightarrow> memory \<Rightarrow> nat" where
  "used_entries pagetable_base m = length (filter (\<lambda>i. ld32 m (pagetable_base + 4 * of_nat i) \<noteq> 0) [0..<1024])"

function unmap_pd_loop :: "addr \<Rightarrow> int \<Rightarrow> int \<Rightarrow> int \<Rightarrow> int \<Rightarrow> 'a mm_state_scheme \<Rightarrow> 'a mm_state_scheme" where
  "unmap_pd_loop pagedir_base pd_idx pd_idx_end pt_idx pt_idx_end s =
     (if pd_idx \<le> pd_idx_end then
        let pagedir_entry = ld32 (mem s) (entry_at pagedir_base pd_idx);
            pagetable_base = pagetable_of pagedir_entry
        in case unmap_pt_loop pagetable_base pt_idx pt_idx_end s of (pt_idx, s) \<Rightarrow>
             let s = (if used_entries pagetable_base (mem s) = 0 then free_pages (vir_to_page pagetable_base s) 0 s else s)
             in unmap_pd_loop pagedir_base (pd_idx + 1) pd_idx_end pt_idx pt_idx_end s
      else s)"
  by pat_completeness auto
termination by (relation "measure (\<lambda>(base, i, e, r). nat (e - i + 1))") auto

declare unmap_pd_loop.simps [simp del]

definition unmap_vm_area :: "addr \<Rightarrow> addr \<Rightarrow> 'a mm_state_scheme \<Rightarrow> 'a mm_state_scheme" where
  "unmap_vm_area proc vma s =
     (let pagedir_base = ld32 (mem s) (proc_page_dir proc)
      in case vma_indices (mem s) vma of (pd_idx, pd_idx_end, pt_idx, pt_idx_end) \<Rightarrow>
           unmap_pd_loop pagedir_base pd_idx pd_idx_end pt_idx pt_idx_end s)"

text \<open>The loop goes on from the area it has freed: its link is read after \<open>kfree\<close>.\<close>

partial_function (option) vm_free_loop ::
  "addr \<Rightarrow> u32 \<Rightarrow> addr \<Rightarrow> addr \<Rightarrow> 'a heap_state_scheme \<Rightarrow> (fault + 'a heap_state_scheme) option" where
  "vm_free_loop proc start vma old_vma s =
     (if vma = 0 then Some (Inr s)
      else bindR
        (if start = ld32 (mem s) (vma_start vma) then
           let s = unmap_vm_area proc vma s;
               m = (if old_vma = 0 then st32 (mem s) (vm_area_list proc) (ld32 (mem s) (vma_next vma))
                    else st32 (mem s) (vma_next old_vma) (ld32 (mem s) (vma_next vma)))
           in kfree vma (s\<lparr>mem := m\<rparr>)
         else Some (Inr s))
        (\<lambda>s. vm_free_loop proc start (ld32 (mem s) (vma_next vma)) vma s))"

definition vm_free_area :: "addr \<Rightarrow> addr \<Rightarrow> 'a heap_state_scheme \<Rightarrow> (fault + 'a heap_state_scheme) option" where
  "vm_free_area proc p s = vm_free_loop proc p (ld32 (mem s) (vm_area_list proc)) 0 s"

text \<open>The list is emptied first, and \<open>vm_free_area\<close> gets the address of each area for its start.\<close>

partial_function (option) vm_free_all ::
  "addr \<Rightarrow> addr \<Rightarrow> 'a heap_state_scheme \<Rightarrow> (fault + 'a heap_state_scheme) option" where
  "vm_free_all proc vma s =
     (if vma = 0 then Some (Inr s)
      else bindR (vm_free_area proc vma s) (\<lambda>s. vm_free_all proc (ld32 (mem s) (vma_next vma)) s))"

definition do_vm_free :: "addr \<Rightarrow> 'a heap_state_scheme \<Rightarrow> (fault + 'a heap_state_scheme) option" where
  "do_vm_free proc s =
     (let vma = ld32 (mem s) (vm_area_list proc)
      in vm_free_all proc vma (s\<lparr>mem := st32 (mem s) (vm_area_list proc) 0\<rparr>))"

end
