(* ===== verification/Proc.thy ===== *)
theory Proc
  imports Vm FatIO
begin

text \<open>
  Processes and the scheduler (\<open>kernel/proc.c\<close>, \<open>kernel/schedule.c\<close>, \<open>kernel/syscall.c\<close>, the timer of
  \<open>kernel/intr.c\<close>) and the system calls on files (\<open>kernel/fs.c\<close>). The state has the globals of these files and
  the registers that a switch of processes moves. What the kernel prints on the way is left out.
\<close>

section \<open>State\<close>

text \<open>
  \<open>run_queue\<close>, \<open>fat12_fops\<close>, \<open>start_code\<close> and \<open>switch_label\<close> are addresses the linker gives: the 32 ring
  heads, the table of the file operations, \<open>load_executable\<close>, and the label 1 of \<open>switch_to\<close>.
\<close>

record kern_state = fat_state +
  current :: addr
  idle_proc :: addr
  pid_idx :: u32
  run_queue :: addr
  fat12_fops :: addr
  start_code :: addr
  switch_label :: addr
  tss_esp0 :: u32
  tss_ss0 :: u32
  fd_irq_done :: u32
  cr3 :: u32
  esp :: u32
  ebp :: u32
  eip :: u32
  eflags :: u32

text \<open>Offsets of the fields of \<open>proc_t\<close> (312 bytes); \<open>pid\<close> is at 0.\<close>

abbreviation (input) p_text_base :: "addr \<Rightarrow> addr" where "p_text_base proc \<equiv> proc + 8"
abbreviation (input) p_stack_base :: "addr \<Rightarrow> addr" where "p_stack_base proc \<equiv> proc + 12"
abbreviation (input) p_page_dir :: "addr \<Rightarrow> addr" where "p_page_dir proc \<equiv> proc + 16"
abbreviation (input) p_list :: "addr \<Rightarrow> addr" where "p_list proc \<equiv> proc + 20"
abbreviation (input) p_prio :: "addr \<Rightarrow> addr" where "p_prio proc \<equiv> proc + 28"
abbreviation (input) p_name :: "addr \<Rightarrow> addr" where "p_name proc \<equiv> proc + 32"
abbreviation (input) p_filename :: "addr \<Rightarrow> addr" where "p_filename proc \<equiv> proc + 36"
abbreviation (input) p_esp0 :: "addr \<Rightarrow> addr" where "p_esp0 proc \<equiv> proc + 40"
abbreviation (input) p_esp :: "addr \<Rightarrow> addr" where "p_esp proc \<equiv> proc + 44"
abbreviation (input) p_eip :: "addr \<Rightarrow> addr" where "p_eip proc \<equiv> proc + 48"
abbreviation (input) p_tick_left :: "addr \<Rightarrow> addr" where "p_tick_left proc \<equiv> proc + 52"
abbreviation (input) p_filp :: "addr \<Rightarrow> int \<Rightarrow> addr" where "p_filp proc fd \<equiv> proc + 56 + 4 * word_of_int fd"

abbreviation (input) MAX_PRIO :: nat where "MAX_PRIO \<equiv> 31"
abbreviation (input) TICK_QUANTUM :: u32 where "TICK_QUANTUM \<equiv> 100"
abbreviation (input) EXEC_TEXT_BASE :: u32 where "EXEC_TEXT_BASE \<equiv> 0x08048000"
abbreviation (input) EXEC_STACK_BASE :: u32 where "EXEC_STACK_BASE \<equiv> 0xc0000000"
abbreviation (input) EXEC_INIT_STACK_SIZE :: u32 where "EXEC_INIT_STACK_SIZE \<equiv> 0x1000"

definition run_queue_at :: "'a kern_state_scheme \<Rightarrow> u32 \<Rightarrow> addr" where
  "run_queue_at s prio = run_queue s + 8 * prio"

section \<open>Switching\<close>

definition push :: "u32 \<Rightarrow> 'a kern_state_scheme \<Rightarrow> 'a kern_state_scheme" where
  "push v s = s\<lparr>esp := esp s - 4, mem := st32 (mem s) (esp s - 4) v\<rparr>"

definition pop :: "'a kern_state_scheme \<Rightarrow> u32 \<times> 'a kern_state_scheme" where
  "pop s = (ld32 (mem s) (esp s), s\<lparr>esp := esp s + 4\<rparr>)"

text \<open>\<open>__switch_to\<close>, entered by a jump: its return takes the address from the new stack.\<close>

definition switch_to_body :: "addr \<Rightarrow> addr \<Rightarrow> 'a kern_state_scheme \<Rightarrow> 'a kern_state_scheme" where
  "switch_to_body prev next s =
     (let s = s\<lparr>tss_esp0 := ld32 (mem s) (p_esp0 next)\<rparr>
      in case pop s of (ret, s) \<Rightarrow> s\<lparr>eip := ret\<rparr>)"

text \<open>The macro \<open>switch_to\<close>, up to the return of \<open>__switch_to\<close> into the next process.\<close>

definition switch_to :: "addr \<Rightarrow> addr \<Rightarrow> 'a kern_state_scheme \<Rightarrow> 'a kern_state_scheme" where
  "switch_to prev next s =
     (let s = push (eflags s) s;
          s = push (ebp s) s;
          s = s\<lparr>mem := st32 (mem s) (p_esp prev) (esp s)\<rparr>;
          s = s\<lparr>esp := ld32 (mem s) (p_esp next)\<rparr>;
          s = s\<lparr>mem := st32 (mem s) (p_eip prev) (switch_label s)\<rparr>;
          s = push (ld32 (mem s) (p_eip next)) s
      in switch_to_body prev next s)"

text \<open>The code at the label, where a process that was switched out goes on.\<close>

definition switch_resume :: "'a kern_state_scheme \<Rightarrow> 'a kern_state_scheme" where
  "switch_resume s =
     (case pop s of (v, s) \<Rightarrow> let s = s\<lparr>ebp := v\<rparr> in case pop s of (v, s) \<Rightarrow> s\<lparr>eflags := v\<rparr>)"

definition context_switch :: "addr \<Rightarrow> addr \<Rightarrow> 'a kern_state_scheme \<Rightarrow> 'a kern_state_scheme" where
  "context_switch prev next s = switch_to prev next (s\<lparr>cr3 := pa (ld32 (mem s) (p_page_dir next)) OR 0x03\<rparr>)"

text \<open>The loop of \<open>schedule\<close> over the priorities below \<open>n\<close>, from the highest down.\<close>

primrec schedule_loop :: "nat \<Rightarrow> addr \<Rightarrow> 'a kern_state_scheme \<Rightarrow> 'a kern_state_scheme" where
  "schedule_loop 0 prev s = s"
| "schedule_loop (Suc i) prev s =
     (let p = run_queue_at s (of_nat i)
      in if \<not> list_empty p (mem s) then
           let next = nxt (mem s) p - 20 in context_switch prev next (s\<lparr>current := next\<rparr>)
         else schedule_loop i prev s)"

definition schedule :: "'a kern_state_scheme \<Rightarrow> 'a kern_state_scheme" where
  "schedule s = schedule_loop 32 (current s) s"

section \<open>The timer\<close>

text \<open>The second argument of \<open>list_insert_before\<close> is \<open>current\<close> itself, not its link.\<close>

definition tick_advance :: "'a kern_state_scheme \<Rightarrow> bool \<times> 'a kern_state_scheme" where
  "tick_advance s =
     (let cur = current s;
          s = s\<lparr>mem := st32 (mem s) (p_tick_left cur) (ld32 (mem s) (p_tick_left cur) - 1)\<rparr>
      in if sint (ld32 (mem s) (p_tick_left cur)) < 0 then
           let prio = ld32 (mem s) (p_prio cur);
               m = st32 (mem s) (p_tick_left cur) TICK_QUANTUM;
               m = list_remove (p_list cur) m;
               m = list_insert_before (run_queue_at s prio) cur m
           in (True, s\<lparr>mem := m\<rparr>)
         else (False, s))"

definition do_timer :: "'a kern_state_scheme \<Rightarrow> 'a kern_state_scheme" where
  "do_timer s = (case tick_advance s of (need_resched, s) \<Rightarrow> if need_resched then schedule s else s)"

definition do_floppy :: "'a kern_state_scheme \<Rightarrow> 'a kern_state_scheme" where
  "do_floppy s = s\<lparr>fd_irq_done := 1\<rparr>"

definition do_tty_interrupt :: "'a kern_state_scheme \<Rightarrow> 'a kern_state_scheme" where
  "do_tty_interrupt s = s"

section \<open>System calls on files\<close>

primrec get_free_fd_loop :: "nat \<Rightarrow> addr \<Rightarrow> int \<Rightarrow> memory \<Rightarrow> int" where
  "get_free_fd_loop 0 proc i m = - 1"
| "get_free_fd_loop (Suc n) proc i m = (if ld32 m (p_filp proc i) = 0 then i else get_free_fd_loop n proc (i + 1) m)"

definition get_free_fd :: "addr \<Rightarrow> memory \<Rightarrow> int" where
  "get_free_fd proc m = get_free_fd_loop 64 proc 0 m"

text \<open>
  The file is allocated and its operations are set before \<open>fd\<close> is looked at: without a free descriptor
  the pointer goes to \<open>filp[-1]\<close>. The position of a new file is not set.
\<close>

definition sys_open :: "addr \<Rightarrow> 'a kern_state_scheme \<Rightarrow> (fault + int \<times> 'a kern_state_scheme) option" where
  "sys_open filename s =
     bindR (fat12_get_inode filename s) (\<lambda>(inode, s).
       let fd = get_free_fd (current s) (mem s)
       in bindR (kmalloc 20 s) (\<lambda>(filp, s).
            let m = st32 (mem s) (p_filp (current s) fd) filp;
                filp = ld32 m (p_filp (current s) fd);
                m = st32 m (f_ops filp) (fat12_fops s);
                s = s\<lparr>mem := m\<rparr>
            in if fd \<ge> 0 then
                 (case fat12_open inode filp s of (res, s) \<Rightarrow> Some (Inr (fd, s)))
               else Some (Inr (- 1, s))))"

text \<open>A call through the operations of a file: only the table of FAT12 exists.\<close>

definition with_file :: "int \<Rightarrow> (addr \<Rightarrow> (fault + 'b) option) \<Rightarrow> 'a kern_state_scheme \<Rightarrow> (fault + 'b) option" where
  "with_file fd f s =
     (let filp = ld32 (mem s) (p_filp (current s) fd)
      in if filp = 0 then Some (Inl NullDeref)
         else if ld32 (mem s) (f_ops filp) \<noteq> fat12_fops s then Some (Inl OutOfRange)
         else f filp)"

definition sys_read :: "int \<Rightarrow> addr \<Rightarrow> u32 \<Rightarrow> 'a kern_state_scheme \<Rightarrow> (fault + u32 \<times> 'a kern_state_scheme) option" where
  "sys_read fd buf cnt s = with_file fd (\<lambda>filp. fat12_read filp buf cnt (f_pos filp) s) s"

definition sys_write :: "int \<Rightarrow> addr \<Rightarrow> u32 \<Rightarrow> 'a kern_state_scheme \<Rightarrow> (fault + u32 \<times> 'a kern_state_scheme) option" where
  "sys_write fd buf cnt s = with_file fd (\<lambda>filp. fat12_write filp buf cnt (f_pos filp) s) s"

definition sys_close :: "int \<Rightarrow> 'a kern_state_scheme \<Rightarrow> (fault + int \<times> 'a kern_state_scheme) option" where
  "sys_close fd s = with_file fd (\<lambda>filp.
     let inode = ld32 (mem s) (f_inode filp)
     in case fat12_close inode filp s of (res, s) \<Rightarrow>
          bindR (fat12_put_inode inode s) (\<lambda>(r, s).
            bindR (kfree filp s) (\<lambda>s.
              Some (Inr (res, s\<lparr>mem := st32 (mem s) (p_filp (current s) fd) 0\<rparr>))))) s"

section \<open>Processes\<close>

text \<open>The kernel's entries of the page directory: 0x300 to 1023.\<close>

primrec copy_kernel_vm_loop :: "nat \<Rightarrow> addr \<Rightarrow> addr \<Rightarrow> memory \<Rightarrow> memory" where
  "copy_kernel_vm_loop 0 kpd page_dir m = m"
| "copy_kernel_vm_loop (Suc n) kpd page_dir m =
     (let m = copy_kernel_vm_loop n kpd page_dir m;
          i = of_nat (0x300 + n)
      in st32 m (page_dir + 4 * i) (ld32 m (kpd + 4 * i)))"

definition copy_kernel_vm :: "addr \<Rightarrow> 'a kern_state_scheme \<Rightarrow> 'a kern_state_scheme" where
  "copy_kernel_vm page_dir s = s\<lparr>mem := copy_kernel_vm_loop 256 (kpagedir s) page_dir (mem s)\<rparr>"

primrec clear_filp :: "nat \<Rightarrow> addr \<Rightarrow> memory \<Rightarrow> memory" where
  "clear_filp 0 proc m = m"
| "clear_filp (Suc i) proc m = st32 (clear_filp i proc m) (p_filp proc (int i)) 0"

text \<open>\<open>BUG_ON\<close> gets a string, which is never null, for its condition.\<close>

definition create_proc :: "addr \<Rightarrow> addr \<Rightarrow> u32 \<Rightarrow> 'a kern_state_scheme \<Rightarrow> (fault + u32 \<times> 'a kern_state_scheme) option" where
  "create_proc name filename prio s =
     bindR (kmalloc 312 s) (\<lambda>(proc, s).
       let m = st32 (mem s) (p_name proc) name;
           m = st32 m (p_filename proc) filename;
           m = st32 m proc (pid_idx s);
           m = st32 m (p_prio proc) prio;
           m = st32 m (p_tick_left proc) TICK_QUANTUM;
           s = s\<lparr>pid_idx := pid_idx s + 1, mem := m\<rparr>
       in bindR (Some (alloc_page_dir s)) (\<lambda>(dir, s).
         let s = s\<lparr>mem := st32 (mem s) (p_page_dir proc) dir\<rparr>;
             s = copy_kernel_vm (ld32 (mem s) (p_page_dir proc)) s;
             s = s\<lparr>mem := st32 (mem s) (p_text_base proc) EXEC_TEXT_BASE\<rparr>
         in bindR (do_vm_alloc proc (ld32 (mem s) (p_text_base proc)) PAGE_SIZE s) (\<lambda>(r, s).
           let s = s\<lparr>mem := st32 (mem s) (p_stack_base proc) EXEC_STACK_BASE\<rparr>
           in bindR (do_vm_alloc proc (ld32 (mem s) (p_stack_base proc) - EXEC_INIT_STACK_SIZE) EXEC_INIT_STACK_SIZE s) (\<lambda>(r, s).
             bindR (Some (alloc_pages 1 s)) (\<lambda>(page, s).
               let m = st32 (mem s) (p_esp proc) (page_to_vir page s + 0x2000);
                   m = st32 m (p_esp0 proc) (ld32 m (p_esp proc));
                   m = st32 m (p_eip proc) (start_code s);
                   m = clear_filp 64 proc m;
                   m = link_init (p_list proc) m
               in if 0 \<le> sint prio \<and> sint prio \<le> int MAX_PRIO
                  then Some (Inr (0, s\<lparr>mem := list_insert_after (p_list proc) (run_queue_at s prio) m\<rparr>))
                  else Some (Inl (Bug ''create_proc'')))))))"

definition destroy_proc :: "addr \<Rightarrow> 'a kern_state_scheme \<Rightarrow> (fault + 'a kern_state_scheme) option" where
  "destroy_proc proc s =
     bindR (do_vm_free proc s) (\<lambda>s.
       kfree proc (free_pages (vir_to_page (ld32 (mem s) (p_page_dir proc)) s) 0 s))"

primrec init_run_queue :: "nat \<Rightarrow> 'a kern_state_scheme \<Rightarrow> 'a kern_state_scheme" where
  "init_run_queue 0 s = s"
| "init_run_queue (Suc i) s =
     (let s = init_run_queue i s in s\<lparr>mem := link_init (run_queue_at s (of_nat i)) (mem s)\<rparr>)"

text \<open>The arguments are the addresses of the strings of the code.\<close>

definition proc_init ::
  "addr \<Rightarrow> addr \<Rightarrow> addr \<Rightarrow> addr \<Rightarrow> 'a kern_state_scheme \<Rightarrow> (fault + 'a kern_state_scheme) option" where
  "proc_init idle_str IDLE_str proc1_str TEST_str s =
     (let s = s\<lparr>pid_idx := 0, current := 0\<rparr>;
          s = init_run_queue 32 s
      in bindR (create_proc idle_str IDLE_str 0 s) (\<lambda>(r, s).
           let proc = nxt (mem s) (run_queue_at s 0) - 20;
               s = s\<lparr>current := proc, idle_proc := proc\<rparr>;
               s = s\<lparr>tss_esp0 := ld32 (mem s) (p_esp (current s)), tss_ss0 := 0x10\<rparr>
           in bindR (create_proc proc1_str TEST_str 10 s) (\<lambda>(r, s). Some (Inr s))))"

definition switch_to_user :: "'a kern_state_scheme \<Rightarrow> 'a kern_state_scheme" where
  "switch_to_user s =
     s\<lparr>esp := ld32 (mem s) (p_esp (current s)),
       cr3 := pa (ld32 (mem s) (p_page_dir (current s))) OR 0x07,
       eip := start_code s\<rparr>"

text \<open>\<open>load_executable\<close> up to the jump to \<open>start_proc\<close>.\<close>

definition load_executable :: "'a kern_state_scheme \<Rightarrow> (fault + 'a kern_state_scheme) option" where
  "load_executable s =
     bindR (sys_open (ld32 (mem s) (p_filename (current s))) s) (\<lambda>(fd, s).
       bindR (sys_read fd EXEC_TEXT_BASE PAGE_SIZE s) (\<lambda>(r, s). Some (Inr s)))"

section \<open>System calls on processes\<close>

text \<open>
  \<open>idle_name\<close> is the address of the string to compare with. The process is destroyed before the switch
  saves its registers into its \<open>proc_t\<close>.
\<close>

definition do_sys_exit :: "addr \<Rightarrow> 'a kern_state_scheme \<Rightarrow> (fault + 'a kern_state_scheme) option" where
  "do_sys_exit idle_name s =
     (let proc = current s
      in Option.bind (strcmp (mem s) (ld32 (mem s) (p_name (current s))) idle_name) (\<lambda>res.
           if res = 0 then Some (Inl (Bug ''idle can't exit.''))
           else
             let s = s\<lparr>mem := list_remove (p_list (current s)) (mem s)\<rparr>
             in bindR (destroy_proc (current s) s) (\<lambda>s.
                  let s = s\<lparr>current := idle_proc s\<rparr>
                  in Some (Inr (context_switch proc (idle_proc s) s)))))"

text \<open>\<open>sti; hlt\<close>.\<close>

definition do_sys_idle :: "'a kern_state_scheme \<Rightarrow> 'a kern_state_scheme" where
  "do_sys_idle s = sti s"

abbreviation (input) SYS_EXIT :: u32 where "SYS_EXIT \<equiv> 1"
abbreviation (input) SYS_IDLE :: u32 where "SYS_IDLE \<equiv> 2"

definition do_syscall :: "addr \<Rightarrow> u32 \<Rightarrow> 'a kern_state_scheme \<Rightarrow> (fault + 'a kern_state_scheme) option" where
  "do_syscall idle_name sys_num s =
     (if sys_num = SYS_EXIT then do_sys_exit idle_name s
      else if sys_num = SYS_IDLE then Some (Inr (do_sys_idle s))
      else Some (Inr s))"

end
