(* ===== verification/Sched.thy ===== *)
theory Sched
  imports Proc
begin

text \<open>
  The scheduler: which process runs next, what a switch does to the registers and to memory, that a process
  switched out goes on where it was, and what the timer does to the run queue.
\<close>

section \<open>The run queues\<close>

text \<open>The 32 rings of links of the ready processes.\<close>

definition queues :: "'a kern_state_scheme \<Rightarrow> (nat \<Rightarrow> addr list) \<Rightarrow> bool" where
  "queues s Q \<longleftrightarrow> (\<forall>i<32. dll (mem s) (run_queue_at s (of_nat i)) (Q i))"

text \<open>The scheduler takes the first link of the highest queue that is not empty.\<close>

lemma schedule_loop_first:
  assumes "i < n" "\<not> list_empty (run_queue_at s (of_nat i)) (mem s)"
    "\<And>j. i < j \<Longrightarrow> j < n \<Longrightarrow> list_empty (run_queue_at s (of_nat j)) (mem s)"
  defines "next \<equiv> nxt (mem s) (run_queue_at s (of_nat i)) - 20"
  shows "schedule_loop n prev s = context_switch prev next (s\<lparr>current := next\<rparr>)"
  using assms(1,3)
proof (induction n)
  case (Suc n)
  show ?case
  proof (cases "i = n")
    case True
    then show ?thesis using assms(2) by (simp add: Let_def next_def)
  next
    case False
    then have "list_empty (run_queue_at s (of_nat n)) (mem s)" using Suc.prems by simp
    moreover have "schedule_loop n prev s = context_switch prev next (s\<lparr>current := next\<rparr>)"
      by (rule Suc.IH) (use False Suc.prems in simp_all)
    ultimately show ?thesis by simp
  qed
qed simp

lemma schedule_queues:
  assumes "queues s Q" "i < 32" "Q i = l # ls" "\<And>j. i < j \<Longrightarrow> j < 32 \<Longrightarrow> Q j = []"
  shows "schedule s = context_switch (current s) (l - 20) (s\<lparr>current := l - 20\<rparr>)"
proof -
  have d: "dll (mem s) (run_queue_at s (of_nat j)) (Q j)" if "j < 32" for j using assms(1) that by (simp add: queues_def)
  have "\<not> list_empty (run_queue_at s (of_nat i)) (mem s)" using dll_empty_iff [OF d [OF assms(2)]] assms(3) by simp
  moreover have "list_empty (run_queue_at s (of_nat j)) (mem s)" if "i < j" "j < 32" for j
    using dll_empty_iff [OF d [OF that(2)]] assms(4) [OF that] by simp
  ultimately have "schedule_loop 32 (current s) s = context_switch (current s) (nxt (mem s) (run_queue_at s (of_nat i)) - 20)
      (s\<lparr>current := nxt (mem s) (run_queue_at s (of_nat i)) - 20\<rparr>)"
    by (intro schedule_loop_first assms(2))
  moreover have "nxt (mem s) (run_queue_at s (of_nat i)) = l" using dll_head [OF d [OF assms(2)]] assms(3) by simp
  ultimately show ?thesis by (simp add: schedule_def)
qed

text \<open>Queues whose links are apart, so that a process can be added.\<close>

definition ready :: "'a kern_state_scheme \<Rightarrow> (nat \<Rightarrow> addr list) \<Rightarrow> bool" where
  "ready s Q \<longleftrightarrow> queues s Q \<and> (\<forall>i<32. \<forall>l\<in>set (Q i). region l 8 \<inter> region (run_queue s) 256 = {}) \<and>
     wsep (\<Union>i<32. set (Q i)) \<and> (\<forall>i<32. \<forall>j<32. i \<noteq> j \<longrightarrow> set (Q i) \<inter> set (Q j) = {})"

lemma run_queue_region:
  assumes "i < 32"
  shows "region (run_queue_at s (of_nat i)) 8 \<subseteq> region (run_queue s) 256"
    "j < 32 \<Longrightarrow> j \<noteq> i \<Longrightarrow> region (run_queue_at s (of_nat i)) 8 \<inter> region (run_queue_at s (of_nat j)) 8 = {}"
proof -
  have e: "run_queue_at s (of_nat k) = run_queue s + of_nat (8 * k)" for k by (simp add: run_queue_at_def)
  show "region (run_queue_at s (of_nat i)) 8 \<subseteq> region (run_queue s) 256"
    unfolding e by (rule region_elem_array) (use assms in simp_all)
  show "j < 32 \<Longrightarrow> j \<noteq> i \<Longrightarrow> region (run_queue_at s (of_nat i)) 8 \<inter> region (run_queue_at s (of_nat j)) 8 = {}"
    unfolding e by (rule region_array) (use assms in simp_all)
qed

lemma run_queue_at_mem [simp]: "run_queue_at (s\<lparr>mem := m\<rparr>) i = run_queue_at s i"
  by (simp add: run_queue_at_def)

lemma init_run_queue_state: "\<exists>m. init_run_queue n s = s\<lparr>mem := m\<rparr>"
proof (induction n)
  case 0
  show ?case by (rule exI [of _ "mem s"]) simp
next
  case (Suc n)
  then show ?case by (auto simp: Let_def)
qed

lemma init_run_queue_rings:
  assumes "n \<le> 32"
  shows "\<forall>i<n. dll (mem (init_run_queue n s)) (run_queue_at s (of_nat i)) []"
  using assms
proof (induction n)
  case (Suc n)
  obtain m where m: "init_run_queue n s = s\<lparr>mem := m\<rparr>" using init_run_queue_state by blast
  let ?h = "run_queue_at s (of_nat n)"
  have e: "mem (init_run_queue (Suc n) s) = link_init ?h m" by (simp add: m Let_def)
  show ?case
  proof (intro allI impI)
    fix i assume i: "i < Suc n"
    show "dll (mem (init_run_queue (Suc n) s)) (run_queue_at s (of_nat i)) []"
    proof (cases "i = n")
      case False
      then have "dll m (run_queue_at s (of_nat i)) []" using Suc i m by simp
      then show ?thesis unfolding e
      proof (rule dll_byte_cong)
        fix a x assume "a \<in> set [run_queue_at s (of_nat i)]" "x \<in> region a 8"
        then have "x \<notin> region ?h 8" using run_queue_region(2) [of i n s] False i Suc.prems by auto
        then show "link_init ?h m x = m x" by (rule link_init_out)
      qed
    qed (simp only: e dll_link_init)
  qed
qed simp

lemma ready_init: "ready (init_run_queue 32 s) (\<lambda>_. [])"
proof -
  obtain m where "init_run_queue 32 s = s\<lparr>mem := m\<rparr>" using init_run_queue_state by blast
  then have "run_queue_at (init_run_queue 32 s) i = run_queue_at s i" for i by simp
  then show ?thesis using init_run_queue_rings [of 32 s] by (simp add: ready_def queues_def wsep_def)
qed

lemma ready_insert:
  assumes r: "ready s Q" and i: "i < 32" and n: "region n 8 \<inter> region (run_queue s) 256 = {}"
    "\<And>j l. j < 32 \<Longrightarrow> l \<in> set (Q j) \<Longrightarrow> region l 8 \<inter> region n 8 = {}"
  defines "s' \<equiv> s\<lparr>mem := list_insert_after n (run_queue_at s (of_nat i)) (mem s)\<rparr>"
  shows "ready s' (Q(i := n # Q i))"
proof -
  let ?h = "\<lambda>j. run_queue_at s (of_nat j)" and ?L = "\<Union>j<32. set (Q j)"
  let ?S = "insert n (?L \<union> ?h ` {..<32})"
  have l: "region l 8 \<inter> region (run_queue s) 256 = {}" if "l \<in> ?L" for l using r that by (auto simp: ready_def)
  have h: "region (?h j) 8 \<subseteq> region (run_queue s) 256" if "j < 32" for j using run_queue_region(1) [OF that] .
  have lh: "region l 8 \<inter> region (?h j) 8 = {}" if "l \<in> insert n ?L" "j < 32" for l j
    using h [OF that(2)] n(1) l [of l] that(1) by blast
  have ne: "l \<noteq> l'" if "region l 8 \<inter> region l' 8 = {}" for l l'
    using that region_self [of 8 l] by (metis disjoint_iff zero_less_numeral)
  have sL: "region a 8 \<inter> region b 8 = {}" if "a \<in> ?L" "b \<in> ?L" "a \<noteq> b" for a b
    using r that unfolding ready_def wsep_def by blast
  have nL: "region l 8 \<inter> region n 8 = {}" if "l \<in> ?L" for l using n(2) that by blast
  have hh: "region (?h j) 8 \<inter> region (?h k) 8 = {}" if "j < 32" "k < 32" "?h j \<noteq> ?h k" for j k
    using run_queue_region(2) [OF that(1), of k s] that(2,3) by metis
  have S: "wsep ?S"
    unfolding wsep_def
  proof (intro ballI impI)
    fix a b assume ab: "a \<in> ?S" "b \<in> ?S" "a \<noteq> b"
    consider "a \<in> insert n ?L" "b \<in> insert n ?L" | j where "a \<in> insert n ?L" "b = ?h j" "j < 32"
      | j where "b \<in> insert n ?L" "a = ?h j" "j < 32" | j k where "a = ?h j" "b = ?h k" "j < 32" "k < 32"
      using ab(1,2) by blast
    then show "region a 8 \<inter> region b 8 = {}"
    proof cases
      case 1
      then show ?thesis using sL [of a b] nL [of a] nL [of b] ab(3) by auto
    next
      case 2
      show ?thesis unfolding 2(2) by (rule lh [OF 2(1,3)])
    next
      case 3
      show ?thesis unfolding 3(2) using lh [OF 3(1,3)] by (simp only: Int_commute)
    next
      case 4
      show ?thesis using hh [OF 4(3,4)] ab(3) unfolding 4(1,2) by blast
    qed
  qed
  have fam: "\<forall>j<32. dll (mem s) (?h j) (Q j) \<and> set (?h j # Q j) \<subseteq> ?S"
    using r by (auto simp: ready_def queues_def)
  have dj: "\<forall>j<32. \<forall>k<32. j \<noteq> k \<longrightarrow> set (?h j # Q j) \<inter> set (?h k # Q k) = {}"
  proof (intro allI impI)
    fix j k assume jk: "j < 32" "k < (32 :: nat)" "j \<noteq> k"
    have "set (Q j) \<inter> set (Q k) = {}" using r jk by (simp add: ready_def)
    moreover have "?h j \<noteq> ?h k" using run_queue_region(2) [OF jk(1,2)] jk(3) ne by blast
    moreover have "l \<noteq> ?h a" if "l \<in> set (Q b)" "a < 32" "b < 32" for l a b using lh [of l a] that ne by blast
    ultimately show "set (?h j # Q j) \<inter> set (?h k # Q k) = {}" using jk by auto
  qed
  have nn: "\<forall>j<32. n \<notin> set (?h j # Q j)"
  proof (intro allI impI)
    fix j :: nat assume j: "j < 32"
    have "n \<noteq> ?h j" using lh [of n j] j ne by blast
    moreover have "n \<notin> set (Q j)" using n(2) [OF j, of n] ne [of n n] by blast
    ultimately show "n \<notin> set (?h j # Q j)" by simp
  qed
  note F = lr.family_ins_after [OF fam dj S _ nn i]
  show ?thesis unfolding ready_def queues_def
  proof (intro conjI)
    show "\<forall>j<32. dll (mem s') (run_queue_at s' (of_nat j)) ((Q(i := n # Q i)) j)" using F(1) by (simp add: s'_def)
    show "\<forall>j<32. \<forall>l\<in>set ((Q(i := n # Q i)) j). region l 8 \<inter> region (run_queue s') 256 = {}"
      using l n(1) by (auto simp: s'_def)
    show "wsep (\<Union>j<32. set ((Q(i := n # Q i)) j))" by (rule wsep_subset [OF S]) (auto split: if_splits)
    show "\<forall>j<32. \<forall>k<32. j \<noteq> k \<longrightarrow> set ((Q(i := n # Q i)) j) \<inter> set ((Q(i := n # Q i)) k) = {}"
      using F(2) by auto
  qed
qed

lemma init_run_queue_out:
  assumes "n \<le> 32" "y \<notin> region (run_queue s) 256"
  shows "mem (init_run_queue n s) y = mem s y"
  using assms(1)
proof (induction n)
  case (Suc n)
  obtain m where m: "init_run_queue n s = s\<lparr>mem := m\<rparr>" using init_run_queue_state by blast
  have "y \<notin> region (run_queue_at s (of_nat n)) 8" using assms(2) run_queue_region(1) [of n s] Suc.prems by auto
  then have "link_init (run_queue_at s (of_nat n)) m y = m y" by (rule link_init_out)
  then show ?case using Suc m by (simp add: Let_def)
qed simp

lemma ready_cong:
  assumes "ready s Q" "\<And>y. y \<in> region (run_queue s) 256 \<Longrightarrow> m y = mem s y"
    "\<And>j l y. j < 32 \<Longrightarrow> l \<in> set (Q j) \<Longrightarrow> y \<in> region l 8 \<Longrightarrow> m y = mem s y"
  shows "ready (s\<lparr>mem := m\<rparr>) Q"
proof -
  have "dll m (run_queue_at s (of_nat j)) (Q j)" if j: "j < 32" for j
  proof (rule dll_byte_cong)
    show "dll (mem s) (run_queue_at s (of_nat j)) (Q j)" using assms(1) j by (simp add: ready_def queues_def)
    fix a y assume "a \<in> set (run_queue_at s (of_nat j) # Q j)" "y \<in> region a 8"
    then consider "y \<in> region (run_queue_at s (of_nat j)) 8" | "a \<in> set (Q j)" "y \<in> region a 8" by auto
    then show "m y = mem s y"
      by cases (use assms(2) run_queue_region(1) [OF j, of s] in blast, use assms(3) j in blast)
  qed
  then show ?thesis using assms(1) by (simp add: ready_def queues_def)
qed

section \<open>The switch\<close>

text \<open>
  What a switch needs to be kept apart: the two \<open>proc_t\<close>, the eight bytes below the stack pointer, and the
  four below the stack pointer of the next process.
\<close>

definition switch_apart :: "addr \<Rightarrow> addr \<Rightarrow> 'a kern_state_scheme \<Rightarrow> bool" where
  "switch_apart prev next s \<longleftrightarrow>
     region prev 312 \<inter> region next 312 = {} \<and>
     region (esp s - 8) 8 \<inter> (region prev 312 \<union> region next 312) = {} \<and>
     region (ld32 (mem s) (p_esp next) - 4) 4 \<inter> (region prev 312 \<union> region next 312 \<union> region (esp s - 8) 8) = {}"

lemma field_region: "unat d + 4 \<le> 312 \<Longrightarrow> region (p + d) 4 \<subseteq> region p 312"
  by (rule region_offset_subset)

lemma stack_words: "region (e - 8) 4 \<subseteq> region (e - 8) 8" "region (e - 4) 4 \<subseteq> region (e - 8) 8"
  "region (e - 8) 4 \<inter> region (e - 4) 4 = {}"
proof -
  have "region (e - 8 + 4) 4 \<subseteq> region (e - 8) 8" by (rule region_offset_subset) simp
  then show "region (e - 4) 4 \<subseteq> region (e - 8) 8" by simp
  show "region (e - 8) 4 \<subseteq> region (e - 8) 8" by (rule region_mono) simp
  show "region (e - 8) 4 \<inter> region (e - 4) 4 = {}" by (rule region_apartI) simp_all
qed

text \<open>All that a switch writes, and the registers after it.\<close>

lemma context_switch_effect:
  assumes "switch_apart prev next s"
  defines "s' \<equiv> context_switch prev next s"
  shows "eip s' = ld32 (mem s) (p_eip next)" "esp s' = ld32 (mem s) (p_esp next)"
    "cr3 s' = pa (ld32 (mem s) (p_page_dir next)) OR 3" "tss_esp0 s' = ld32 (mem s) (p_esp0 next)"
    "ebp s' = ebp s" "eflags s' = eflags s" "current s' = current s" "switch_label s' = switch_label s"
    "ld32 (mem s') (p_esp prev) = esp s - 8" "ld32 (mem s') (p_eip prev) = switch_label s"
    "ld32 (mem s') (esp s - 4) = eflags s" "ld32 (mem s') (esp s - 8) = ebp s"
    "y \<notin> region (p_esp prev) 8 \<union> region (esp s - 8) 8 \<union> region (ld32 (mem s) (p_esp next) - 4) 4 \<Longrightarrow> mem s' y = mem s y"
proof -
  let ?e = "esp s" and ?ne = "ld32 (mem s) (p_esp next)"
  note A = assms(1)[unfolded switch_apart_def]
  have f: "region (prev + d) 4 \<inter> region (next + e) 4 = {}" "region (?e - 4) 4 \<inter> region (next + e) 4 = {}"
    "region (?e - 8) 4 \<inter> region (next + e) 4 = {}" "region (?e - 4) 4 \<inter> region (prev + d) 4 = {}"
    "region (?e - 8) 4 \<inter> region (prev + d) 4 = {}" "region (?ne - 4) 4 \<inter> region (prev + d) 4 = {}"
    "region (?ne - 4) 4 \<inter> region (next + e) 4 = {}" "region (?ne - 4) 4 \<inter> region (?e - 4) 4 = {}"
    "region (?ne - 4) 4 \<inter> region (?e - 8) 4 = {}"
    if "unat d + 4 \<le> 312" "unat e + 4 \<le> 312" for d e
    using A field_region [OF that(1), of prev] field_region [OF that(2), of "next"] stack_words(1,2) [of ?e] by blast+
  define m1 where "m1 = st32 (st32 (mem s) (?e - 4) (eflags s)) (?e - 8) (ebp s)"
  define m2 where "m2 = st32 m1 (p_esp prev) (?e - 8)"
  define m3 where "m3 = st32 m2 (p_eip prev) (switch_label s)"
  define m4 where "m4 = st32 m3 (?ne - 4) (ld32 m3 (p_eip next))"
  have l2: "ld32 m2 (next + e) = ld32 (mem s) (next + e)" if "unat e + 4 \<le> 312" for e
    unfolding m2_def m1_def using f [of 44 e] that by (simp add: mem_simps Int_commute)
  have l3: "ld32 m3 (next + e) = ld32 (mem s) (next + e)" if "unat e + 4 \<le> 312" for e
    unfolding m3_def using f [of 48 e] that l2 [OF that] by (simp add: mem_simps Int_commute)
  have l4: "ld32 m4 (next + e) = ld32 (mem s) (next + e)" if "unat e + 4 \<le> 312" for e
    unfolding m4_def using f [of 0 e] that l3 [OF that] by (simp add: mem_simps Int_commute)
  have s': "s' = s\<lparr>cr3 := pa (ld32 (mem s) (p_page_dir next)) OR 3, esp := ?ne, mem := m4,
      tss_esp0 := ld32 m4 (p_esp0 next), eip := ld32 m4 (?ne - 4)\<rparr>"
    unfolding s'_def context_switch_def switch_to_def switch_to_body_def push_def pop_def Let_def
    using l2 [of 44] by (simp add: m1_def [symmetric] m2_def [symmetric] m3_def [symmetric] m4_def [symmetric])
  show "eip s' = ld32 (mem s) (p_eip next)" using l3 [of 48] by (simp add: s' m4_def)
  show "esp s' = ?ne" "cr3 s' = pa (ld32 (mem s) (p_page_dir next)) OR 3" "ebp s' = ebp s" "eflags s' = eflags s"
    "current s' = current s" "switch_label s' = switch_label s"
    by (simp_all add: s')
  show "tss_esp0 s' = ld32 (mem s) (p_esp0 next)" using l4 [of 40] by (simp add: s')
  have m: "mem s' = m4" by (simp add: s')
  show "ld32 (mem s') (p_esp prev) = ?e - 8"
    unfolding m m4_def m3_def m2_def using f [of 44 0] by (simp add: mem_simps fields Int_commute)
  show "ld32 (mem s') (p_eip prev) = switch_label s"
    unfolding m m4_def m3_def using f [of 48 0] by (simp add: mem_simps Int_commute)
  show "ld32 (mem s') (?e - 4) = eflags s" "ld32 (mem s') (?e - 8) = ebp s"
    unfolding m m4_def m3_def m2_def m1_def using f [of 44 0] f [of 48 0] stack_words(3) [of ?e]
    by (simp_all add: mem_simps Int_commute)
  assume y: "y \<notin> region (p_esp prev) 8 \<union> region (esp s - 8) 8 \<union> region (ld32 (mem s) (p_esp next) - 4) 4"
  have "region (prev + 44 + 4) 4 \<subseteq> region (prev + 44) 8" by (rule region_offset_subset) simp
  then have "y \<notin> region (p_esp prev) 4" "y \<notin> region (p_eip prev) 4"
    using y region_mono [of 4 8 "p_esp prev"] by (auto simp: add.commute [of "48::u32"])
  moreover have "y \<notin> region (?e - 4) 4" "y \<notin> region (?e - 8) 4" using y stack_words(1,2) [of ?e] by blast+
  ultimately show "mem s' y = mem s y" unfolding m m4_def m3_def m2_def m1_def using y by (simp add: st32_out)
qed

lemma switch_apart_current [simp]: "switch_apart prev next (s\<lparr>current := p\<rparr>) = switch_apart prev next s"
  by (simp add: switch_apart_def)

section \<open>Properties of the switch\<close>

text \<open>
  C7. \<open>schedule\<close> switches to the first process of the highest queue that is not empty, whatever runs: the
  registers are then those that process has saved, the processor uses its page directory and its kernel
  stack, the registers of the process that ran are in its \<open>proc_t\<close> and on its stack, and no other byte of
  memory changes.
\<close>

theorem schedule_highest:
  assumes "queues s Q" "i < 32" "Q i = l # ls" "\<And>j. i < j \<Longrightarrow> j < 32 \<Longrightarrow> Q j = []"
    and "switch_apart (current s) (l - 20) s"
  defines "s' \<equiv> schedule s" and "next \<equiv> l - 20" and "prev \<equiv> current s"
  shows "current s' = next \<and> eip s' = ld32 (mem s) (p_eip next) \<and> esp s' = ld32 (mem s) (p_esp next) \<and>
    cr3 s' = pa (ld32 (mem s) (p_page_dir next)) OR 3 \<and> tss_esp0 s' = ld32 (mem s) (p_esp0 next) \<and>
    ld32 (mem s') (p_esp prev) = esp s - 8 \<and> ld32 (mem s') (p_eip prev) = switch_label s \<and>
    ld32 (mem s') (esp s - 4) = eflags s \<and> ld32 (mem s') (esp s - 8) = ebp s \<and>
    (\<forall>y. y \<notin> region (p_esp prev) 8 \<union> region (esp s - 8) 8 \<union> region (ld32 (mem s) (p_esp next) - 4) 4 \<longrightarrow> mem s' y = mem s y)"
proof -
  have "s' = context_switch prev next (s\<lparr>current := next\<rparr>)"
    unfolding s'_def next_def prev_def using assms(1-4) by (rule schedule_queues)
  moreover have "switch_apart prev next (s\<lparr>current := next\<rparr>)" using assms(5) by (simp add: next_def prev_def)
  ultimately show ?thesis using context_switch_effect [of prev "next" "s\<lparr>current := next\<rparr>"] by simp
qed

text \<open>
  C38. A process goes on where it was: when \<open>a\<close> is switched out for \<open>b\<close>, and later, after whatever ran, some \<open>c\<close>
  switches back to \<open>a\<close>, then the processor continues at the label behind the switch, and the code there
  restores the frame pointer, the flags and the stack pointer \<open>a\<close> had. It is enough that the two words
  saved in the \<open>proc_t\<close> of \<open>a\<close> and the two on its stack were left alone.
\<close>

theorem switch_roundtrip:
  assumes "switch_apart a b s" "switch_apart c a s2"
    and kept: "\<forall>y\<in>region (p_esp a) 8 \<union> region (esp s - 8) 8. mem s2 y = mem (context_switch a b s) y"
    and stacks: "region (esp s - 8) 8 \<inter> (region c 312 \<union> region (esp s2 - 8) 8) = {}"
  defines "s3 \<equiv> context_switch c a s2"
  shows "eip s3 = switch_label s \<and> ebp (switch_resume s3) = ebp s \<and> eflags (switch_resume s3) = eflags s \<and>
    esp (switch_resume s3) = esp s"
proof -
  let ?e = "esp s"
  note S = context_switch_effect [OF assms(1)] and T = context_switch_effect [OF assms(2), folded s3_def]
  have ld: "ld32 (mem s2) x = ld32 (mem (context_switch a b s)) x" if "region x 4 \<subseteq> region (p_esp a) 8 \<union> region (?e - 8) 8" for x
    using kept that by (intro ld32_cong) blast
  have "region (a + 44 + 4) 4 \<subseteq> region (p_esp a) 8" by (rule region_offset_subset) simp
  then have "region (p_eip a) 4 \<subseteq> region (p_esp a) 8" by (simp add: add.commute [of "48::u32"])
  then have eip: "ld32 (mem s2) (p_eip a) = switch_label s" using ld S(10) by (metis le_supI1)
  have "region (p_esp a) 4 \<subseteq> region (p_esp a) 8" by (rule region_mono) simp
  then have esp: "ld32 (mem s2) (p_esp a) = ?e - 8" using ld S(9) by (metis le_supI1)
  have "region (c + 44) 8 \<subseteq> region c 312" by (rule region_offset_subset) simp
  moreover have "region (?e - 8) 8 \<inter> region (?e - 8 - 4) 4 = {}" by (rule region_apartI) simp_all
  ultimately have out: "mem s3 y = mem s2 y" if y: "y \<in> region (?e - 8) 8" for y
    using y stacks by (intro T(13)) (simp only: esp, blast)
  have st: "ld32 (mem s3) x = ld32 (mem (context_switch a b s)) x" if "region x 4 \<subseteq> region (?e - 8) 8" for x
  proof -
    have "ld32 (mem s3) x = ld32 (mem s2) x" using out that by (intro ld32_cong) blast
    then show ?thesis using ld [of x] that by auto
  qed
  have "ld32 (mem s3) (?e - 8) = ebp s" "ld32 (mem s3) (?e - 4) = eflags s"
    using st stack_words(1,2) [of ?e] S(11,12) by auto
  moreover have "esp s3 = ?e - 8" using T(2) esp by simp
  ultimately show ?thesis using T(1) eip by (simp add: switch_resume_def pop_def Let_def)
qed

section \<open>The timer\<close>

text \<open>A tick that does not use up the quantum only counts.\<close>

lemma do_timer_counts:
  assumes "0 < sint (ld32 (mem s) (p_tick_left (current s)))"
  shows "do_timer s = s\<lparr>mem := st32 (mem s) (p_tick_left (current s)) (ld32 (mem s) (p_tick_left (current s)) - 1)\<rparr>"
proof -
  let ?t = "ld32 (mem s) (p_tick_left (current s))"
  have "0 \<le> sint (?t - 1)"
  proof -
    have "sint ?t < 2 ^ 31" using sint_lt [of ?t] by simp
    then have "sint (?t - 1) = sint ?t - 1" using assms by (simp add: sint_word_ariths signed_take_bit_int_eq_self_iff)
    then show ?thesis using assms by simp
  qed
  then show ?thesis by (simp add: do_timer_def tick_advance_def Let_def)
qed

lemma current_context_switch [simp]: "current (context_switch a b s) = current s"
  by (simp add: context_switch_def switch_to_def switch_to_body_def push_def pop_def Let_def)

text \<open>What the timer needs to be kept apart: the \<open>proc_t\<close> that runs, the queue heads, the other links, the first area.\<close>

definition timer_apart :: "'a kern_state_scheme \<Rightarrow> addr list \<Rightarrow> bool" where
  "timer_apart s ls \<longleftrightarrow>
     (let cur = region (current s) 312; R = region (run_queue s) 256; V = region (ld32 (mem s) (vm_area_list (current s))) 8
      in cur \<inter> R = {} \<and> V \<inter> R = {} \<and> V \<inter> cur = {} \<and>
         (\<forall>l\<in>set ls. region l 8 \<inter> R = {} \<and> (l = p_list (current s) \<or> region l 8 \<inter> cur = {})))"

lemma requeue_corrupts:
  fixes s :: "'a kern_state_scheme"
  assumes Q: "queues s Q" "i < 32" "p_list (current s) \<in> set (Q i)" and ap: "timer_apart s (Q i)"
    and t: "ld32 (mem s) (p_tick_left (current s)) = 0" and pr: "ld32 (mem s) (p_prio (current s)) = of_nat i"
  defines "h \<equiv> run_queue_at s (of_nat i)"
  obtains m where "tick_advance s = (True, s\<lparr>mem := m\<rparr>)" "nxt m h = current s" "ld32 m (vm_area_list (current s)) = h"
    "\<And>j y. j < 32 \<Longrightarrow> j \<noteq> i \<Longrightarrow> y \<in> region (run_queue_at s (of_nat j)) 8 \<Longrightarrow> m y = mem s y" "h \<noteq> current s"
proof -
  define cur where "cur = current s"
  define V where "V = ld32 (mem s) (cur + 4)"
  note A = ap[unfolded timer_apart_def Let_def, folded cur_def, folded V_def]
  define m2 where "m2 = st32 (st32 (mem s) (cur + 52) (- 1)) (cur + 52) 100"
  define m3 where "m3 = list_remove (cur + 20) m2"
  define m4 where "m4 = list_insert_before h cur m3"
  have f: "region (cur + d) n \<subseteq> region cur 312" if "unat d + n \<le> 312" for d n using that by (rule region_offset_subset)
  have hR: "region h 8 \<subseteq> region (run_queue s) 256" unfolding h_def by (rule run_queue_region(1) [OF Q(2)])
  have m2: "m2 y = mem s y" if "y \<notin> region (cur + 52) 4" for y
    using that by (simp add: m2_def st32_out)
  have lk: "region l 8 \<inter> region (cur + 52) 4 = {}" "region l 8 \<inter> region (cur + 4) 4 = {}" if "l \<in> set (h # Q i)" for l
  proof -
    have "region l 8 \<inter> region (cur + 52) 4 = {} \<and> region l 8 \<inter> region (cur + 4) 4 = {}"
    proof (cases "l = cur + 20")
      case True
      then show ?thesis using region_apartI [of 8 "cur + 52" "cur + 20" 4] region_apartI [of 8 "cur + 4" "cur + 20" 4] by simp
    next
      case False
      have "region l 8 \<inter> region cur 312 = {}"
      proof (cases "l = h")
        case True
        then show ?thesis using A hR by blast
      next
        case False
        then have "l \<in> set (Q i)" using that by simp
        then show ?thesis using A \<open>l \<noteq> cur + 20\<close> by blast
      qed
      then show ?thesis using f [of 52 4] f [of 4 4] by auto
    qed
    then show "region l 8 \<inter> region (cur + 52) 4 = {}" "region l 8 \<inter> region (cur + 4) 4 = {}" by simp_all
  qed
  have d2: "dll m2 h (Q i)"
  proof (rule dll_byte_cong)
    show "dll (mem s) h (Q i)" using Q(1,2) by (simp add: queues_def h_def)
    show "m2 y = mem s y" if "l \<in> set (h # Q i)" "y \<in> region l 8" for l y
      using lk(1) [OF that(1)] that(2) by (intro m2) blast
  qed
  have c: "cur + 20 \<in> set (h # Q i)" using Q(3) by (simp add: cur_def)
  note nb = dll_neighbours [OF d2 c]
  have m3: "m3 y = m2 y" if "\<And>l. l \<in> set (h # Q i) \<Longrightarrow> y \<notin> region l 8" for y
    unfolding m3_def by (rule list_remove_out) (rule that [OF c] that [OF nb(1)] that [OF nb(2)])+
  have V: "prv m3 cur = V"
  proof -
    have r: "region (cur + 4) 4 \<inter> region (cur + 52) 4 = {}" by (rule region_apartI) simp_all
    have "m3 y = mem s y" if y: "y \<in> region (cur + 4) 4" for y
    proof -
      have "m3 y = m2 y" by (rule m3) (use lk(2) y in blast)
      moreover have "m2 y = mem s y" by (rule m2) (use r y in blast)
      ultimately show ?thesis by simp
    qed
    then show ?thesis unfolding prv_def V_def by (rule ld32_cong)
  qed
  have hc: "h \<noteq> cur"
  proof
    assume "h = cur"
    moreover have "h \<in> region h 8" "cur \<in> region cur 312" by simp_all
    ultimately show False using A hR by blast
  qed
  have V4: "region V 4 \<subseteq> region V 8" by (rule region_mono) simp
  have c4: "region (cur + 4) 4 \<subseteq> region cur 312" by (rule f) simp
  have h8: "region h 4 \<subseteq> region (run_queue s) 256" "region (h + 4) 4 \<subseteq> region (run_queue s) 256"
    using hR region_lo [of h] region_hi [of h] by (rule_tac [!] subset_trans)
  have A1: "region cur 312 \<inter> region (run_queue s) 256 = {}" "region V 8 \<inter> region (run_queue s) 256 = {}"
    "region V 8 \<inter> region cur 312 = {}" using A by simp_all
  have d4: "region h 4 \<inter> region V 4 = {}" "region h 4 \<inter> region (cur + 4) 4 = {}" "region (cur + 4) 4 \<inter> region V 4 = {}"
    "region (cur + 4) 4 \<inter> region (h + 4) 4 = {}" "region h 4 \<inter> region (h + 4) 4 = {}"
    using A1(2) V4 h8(1) apply blast
    using A1(1) c4 h8(1) apply blast
    using A1(3) V4 c4 apply blast
    using A1(1) c4 h8(2) apply blast
    by (rule region_lo_hi)
  have m4: "m4 = st32 (st32 (st32 (st32 m3 h cur) (cur + 4) h) (h + 4) V) V h"
    by (simp add: m4_def list_insert_before_def Let_def V set_nxt_def set_prv_def)
  show ?thesis
  proof (rule that)
    have "ld32 (st32 (mem s) (cur + 52) (- 1)) (cur + 28) = of_nat i" using pr by (simp add: fields cur_def)
    then show "tick_advance s = (True, s\<lparr>mem := m4\<rparr>)"
      using t by (simp add: tick_advance_def Let_def m4_def m3_def m2_def h_def cur_def run_queue_at_def)
    show "nxt m4 h = current s" using d4 by (simp add: m4 nxt_def mem_simps cur_def)
    show "ld32 m4 (vm_area_list (current s)) = h" using d4 by (simp add: m4 mem_simps cur_def [symmetric] Int_commute)
    show "h \<noteq> current s" using hc by (simp add: cur_def)
    show "m4 y = mem s y" if "j < 32" "j \<noteq> i" "y \<in> region (run_queue_at s (of_nat j)) 8" for j y
    proof -
      have R: "y \<in> region (run_queue s) 256" using run_queue_region(1) [OF that(1), of s] that(3) by blast
      have h: "y \<notin> region h 8" using run_queue_region(2) [OF Q(2) that(1,2), of s] that(3) unfolding h_def by blast
      have l: "y \<notin> region l 8" if "l \<in> set (h # Q i)" for l using that h A R by (cases "l = h") auto
      have "y \<notin> region cur 312" "y \<notin> region V 8" using A R by blast+
      moreover have "region cur 8 \<subseteq> region cur 312" by (rule region_mono) simp
      ultimately have "m4 y = m3 y" unfolding m4_def using h by (intro list_insert_before_out) (auto simp: V)
      then show ?thesis using m3 [OF l] m2 \<open>y \<notin> region cur 312\<close> f [of 52 4] by auto
    qed
  qed
qed

text \<open>
  C39. The timer loses the run queue. When the quantum of the running process is used up, the call
  \<open>list_insert_before(&run_queue[prio], current)\<close> has its arguments the wrong way round and takes the
  \<open>proc_t\<close> itself for a link: the queue head is linked behind the first word of the process, the list of its
  areas is overwritten with the address of the queue head, and \<open>schedule\<close> then runs what lies 20 bytes
  below the \<open>proc_t\<close>, which is no process.
\<close>

theorem timer_loses_queue:
  assumes "queues s Q" "i < 32" "p_list (current s) \<in> set (Q i)" "timer_apart s (Q i)"
    and "ld32 (mem s) (p_tick_left (current s)) = 0" "ld32 (mem s) (p_prio (current s)) = of_nat i"
    and "\<And>j. i < j \<Longrightarrow> j < 32 \<Longrightarrow> Q j = []"
  shows "\<exists>m. tick_advance s = (True, s\<lparr>mem := m\<rparr>) \<and> nxt m (run_queue_at s (of_nat i)) = current s \<and>
    ld32 m (vm_area_list (current s)) = run_queue_at s (of_nat i) \<and> current (do_timer s) = current s - 20"
proof -
  obtain m where m: "tick_advance s = (True, s\<lparr>mem := m\<rparr>)" "nxt m (run_queue_at s (of_nat i)) = current s"
    "ld32 m (vm_area_list (current s)) = run_queue_at s (of_nat i)" "run_queue_at s (of_nat i) \<noteq> current s"
    "\<And>j y. j < 32 \<Longrightarrow> j \<noteq> i \<Longrightarrow> y \<in> region (run_queue_at s (of_nat j)) 8 \<Longrightarrow> m y = mem s y"
    by (rule requeue_corrupts [OF assms(1-6)]) blast
  have e: "list_empty (run_queue_at s (of_nat j)) m" if j: "i < j" "j < 32" for j
  proof -
    have "dll (mem s) (run_queue_at s (of_nat j)) []" using assms(1,7) j by (metis queues_def)
    then have "dll m (run_queue_at s (of_nat j)) []" by (rule dll_byte_cong) (use m(5) [of j] j in auto)
    then show ?thesis by (simp add: dll_empty_iff)
  qed
  have "\<not> list_empty (run_queue_at s (of_nat i)) m" using m(2,4) by (simp add: list_empty_def)
  then have "schedule_loop 32 (current s) (s\<lparr>mem := m\<rparr>) = context_switch (current s) (current s - 20) (s\<lparr>mem := m, current := current s - 20\<rparr>)"
    using schedule_loop_first [of i 32 "s\<lparr>mem := m\<rparr>" "current s"] e m(2) assms(2) by simp
  then show ?thesis using m(1-3) by (intro exI [of _ m]) (simp add: do_timer_def schedule_def)
qed

section \<open>Witnesses\<close>

text \<open>The kernel before \<open>proc_init\<close>, with addresses for its globals.\<close>

definition kern0 :: kern_state where
  "kern0 = \<lparr>mem = (\<lambda>_. 0), io = [], dev = (\<lambda>_ _. 0), free_area = 0xC0011000, mem_map = 0, mem_map_end = 0,
     page_count = 0, free_page_count = 0, img_end = 0, kpagedir = 0xC0010000, img_end_sym = 0xC001FF00, malloc_list = 0,
     db_head = 0xC0012000, dma_buffer = 0xC0013000, disk = (\<lambda>_. 0), dma = (\<lambda>_ r. r),
     fat = 0xC0014000, root = 0xC0015000, inode_list = 0xC0017000, fname_buf = 0xC0018000,
     current = 0xC0100000, idle_proc = 0, pid_idx = 0, run_queue = 0xC0012100, fat12_fops = 0xC0012200,
     start_code = 0xC0001000, switch_label = 0xC0002000, tss_esp0 = 0, tss_ss0 = 0, fd_irq_done = 0, cr3 = 0,
     esp = 0xC0200000, ebp = 7, eip = 0, eflags = 0x202\<rparr>"

text \<open>Process \<open>0xC0100000\<close> runs with priority 10, a queue of one.\<close>

definition kern1 :: kern_state where
  "kern1 = (let s = init_run_queue 32 kern0
     in s\<lparr>mem := list_insert_after 0xC0100014 (run_queue_at s 10) (mem s)\<rparr>)"

lemma kern1_ready: "ready kern1 (\<lambda>j. if j = 10 then [0xC0100014] else [])"
proof -
  obtain m where m: "init_run_queue 32 kern0 = kern0\<lparr>mem := m\<rparr>" using init_run_queue_state by blast
  have "region 0xC0100014 8 \<inter> region (run_queue (kern0\<lparr>mem := m\<rparr>)) 256 = {}"
    by (rule region_apartI) (simp_all add: kern0_def)
  from ready_insert [OF ready_init [of kern0, unfolded m], of 10, OF _ this]
  have "ready kern1 ((\<lambda>_. [])(10 := [0xC0100014]))" by (simp add: kern1_def m Let_def)
  moreover have "(\<lambda>_. [])(10 := [0xC0100014]) = (\<lambda>j. if j = (10 :: nat) then [0xC0100014 :: u32] else [])" by auto
  ultimately show ?thesis by simp
qed

lemma kern1_simps [simp]:
  "current kern1 = 0xC0100000" "run_queue kern1 = 0xC0012100" "esp kern1 = 0xC0200000" "ebp kern1 = 7"
  "switch_label kern1 = 0xC0002000" "eflags kern1 = 0x202"
proof -
  obtain m where "init_run_queue 32 kern0 = kern0\<lparr>mem := m\<rparr>" using init_run_queue_state by blast
  then show "current kern1 = 0xC0100000" "run_queue kern1 = 0xC0012100" "esp kern1 = 0xC0200000" "ebp kern1 = 7"
    "switch_label kern1 = 0xC0002000" "eflags kern1 = 0x202"
    by (simp_all add: kern1_def Let_def kern0_def)
qed

lemma kern1_zero:
  assumes "region a 4 \<inter> region 0xC0012100 256 = {}" "region a 4 \<inter> region 0xC0100014 8 = {}"
  shows "ld32 (mem kern1) a = 0"
proof -
  obtain m where m: "init_run_queue 32 kern0 = kern0\<lparr>mem := m\<rparr>" using init_run_queue_state by blast
  let ?h = "run_queue_at kern0 10"
  have "(10 :: nat) < 32" "(32 :: nat) \<le> 32" by simp_all
  then have "dll (mem (init_run_queue 32 kern0)) (run_queue_at kern0 (of_nat 10)) []" using init_run_queue_rings by blast
  then have "dll (mem (init_run_queue 32 kern0)) ?h []" by simp
  then have n: "nxt m ?h = ?h" using dll_head by (fastforce simp: m)
  have h: "region ?h 8 \<subseteq> region 0xC0012100 256" using run_queue_region(1) [of 10 kern0] by (simp add: kern0_def run_queue_at_def)
  have "mem kern1 y = 0" if y: "y \<in> region a 4" for y
  proof -
    have "y \<notin> region ?h 8" "y \<notin> region 0xC0100014 8" using y h assms by blast+
    then have "mem kern1 y = m y" by (simp add: kern1_def m Let_def list_insert_after_out n)
    moreover have "y \<notin> region (run_queue kern0) 256" using y assms(1) by (auto simp: kern0_def)
    then have "m y = mem kern0 y" using init_run_queue_out [of 32 y kern0] m by simp
    ultimately show ?thesis by (simp add: kern0_def)
  qed
  then have "ld32 (mem kern1) a = ld32 (\<lambda>_. 0) a" by (rule ld32_cong)
  then show ?thesis by (simp add: ld32_def)
qed

lemma kern1_store:
  assumes "region a 4 \<inter> region 0xC0012100 256 = {}" "region a 4 \<inter> region 0xC0100014 8 = {}"
  shows "ready (kern1\<lparr>mem := st32 (mem kern1) a v\<rparr>) (\<lambda>j. if j = 10 then [0xC0100014] else [])"
  by (rule ready_cong [OF kern1_ready]) (use assms in \<open>auto intro!: st32_out split: if_splits\<close>)

theorem timer_loses_queue_witness:
  "\<exists>s :: kern_state. current s = 0xC0100000 \<and> current (do_timer s) = 0xC00FFFEC"
proof -
  let ?s = "kern1\<lparr>mem := st32 (mem kern1) 0xC010001C 10\<rparr>" and ?Q = "\<lambda>j :: nat. if j = 10 then [0xC0100014] else []"
  have "region 0xC010001C 4 \<inter> region 0xC0012100 256 = {}" "region 0xC010001C 4 \<inter> region 0xC0100014 8 = {}"
    by (rule region_apartI; simp)+
  then have r: "ready ?s ?Q" by (rule kern1_store)
  have a: "region 0xC0100000 312 \<inter> region 0xC0012100 256 = {}" "region 0 8 \<inter> region 0xC0012100 256 = {}"
    "region 0 8 \<inter> region 0xC0100000 312 = {}" "region 0xC0100014 8 \<inter> region 0xC0012100 256 = {}"
    by (rule region_apartI; simp)+
  have z: "ld32 (mem ?s) b = 0" if "region b 4 \<inter> region 0xC0012100 256 = {}" "region b 4 \<inter> region 0xC0100014 8 = {}"
    "region b 4 \<inter> region 0xC010001C 4 = {}" for b
    using kern1_zero [OF that(1,2)] that(3) by (simp add: mem_simps)
  have v: "ld32 (mem ?s) 0xC0100004 = 0" "ld32 (mem ?s) 0xC0100034 = 0"
    by (rule z; rule region_apartI; simp)+
  have "timer_apart ?s (?Q 10)" using a v(1) by (simp add: timer_apart_def Let_def)
  then have "\<exists>m. tick_advance ?s = (True, ?s\<lparr>mem := m\<rparr>) \<and> nxt m (run_queue_at ?s (of_nat 10)) = current ?s \<and>
    ld32 m (vm_area_list (current ?s)) = run_queue_at ?s (of_nat 10) \<and> current (do_timer ?s) = current ?s - 20"
    using r v(2) by (intro timer_loses_queue [where Q = ?Q]) (simp_all add: ready_def)
  then show ?thesis by (intro exI [of _ ?s]) auto
qed

text \<open>Another process is switched out for \<open>0xC0100000\<close>.\<close>

definition kern2 :: kern_state where
  "kern2 = kern1\<lparr>current := 0xC0300000, mem := st32 (mem kern1) 0xC010002C 0xC0201000\<rparr>"

lemma kern2_apart: "switch_apart 0xC0300000 0xC0100000 kern2"
proof -
  have "region 0xC0300000 312 \<inter> region 0xC0100000 312 = {}" "region 0xC01FFFF8 8 \<inter> region 0xC0300000 312 = {}"
    "region 0xC01FFFF8 8 \<inter> region 0xC0100000 312 = {}" "region 0xC0200FFC 4 \<inter> region 0xC0300000 312 = {}"
    "region 0xC0200FFC 4 \<inter> region 0xC0100000 312 = {}" "region 0xC0200FFC 4 \<inter> region 0xC01FFFF8 8 = {}"
    by (rule region_apartI; simp)+
  then show ?thesis by (simp add: switch_apart_def kern2_def Int_Un_distrib)
qed

theorem schedule_highest_witness: "current (schedule kern2) = 0xC0100000 \<and> esp (schedule kern2) = 0xC0201000"
proof -
  have "region 0xC010002C 4 \<inter> region 0xC0012100 256 = {}" "region 0xC010002C 4 \<inter> region 0xC0100014 8 = {}"
    by (rule region_apartI; simp)+
  from kern1_store [OF this] have q: "queues kern2 (\<lambda>j. if j = 10 then [0xC0100014] else [])"
    by (simp add: ready_def queues_def kern2_def run_queue_at_def)
  have "switch_apart (current kern2) (0xC0100014 - 20) kern2" using kern2_apart by (simp add: kern2_def)
  from schedule_highest [OF q, of 10, OF _ _ _ this] show ?thesis by (simp add: kern2_def)
qed

theorem switch_roundtrip_witness:
  "ebp (switch_resume (context_switch 0xC0100000 0xC0300000 (context_switch 0xC0300000 0xC0100000 kern2))) = 7"
proof -
  let ?s = "context_switch 0xC0300000 0xC0100000 kern2"
  note S = context_switch_effect [OF kern2_apart]
  have e: "esp ?s = 0xC0201000" "ld32 (mem ?s) 0xC030002C = 0xC01FFFF8" using S(2,9) by (simp_all add: kern2_def)
  have "region 0xC0300000 312 \<inter> region 0xC0100000 312 = {}" "region 0xC0200FF8 8 \<inter> region 0xC0300000 312 = {}"
    "region 0xC0200FF8 8 \<inter> region 0xC0100000 312 = {}" "region 0xC01FFFF4 4 \<inter> region 0xC0300000 312 = {}"
    "region 0xC01FFFF4 4 \<inter> region 0xC0100000 312 = {}" "region 0xC01FFFF4 4 \<inter> region 0xC0200FF8 8 = {}"
    by (rule region_apartI; simp)+
  then have "switch_apart 0xC0100000 0xC0300000 ?s" using e by (simp add: switch_apart_def Int_Un_distrib Int_commute)
  moreover have "region 0xC01FFFF8 8 \<inter> region 0xC0100000 312 = {}" "region 0xC01FFFF8 8 \<inter> region 0xC0200FF8 8 = {}"
    by (rule region_apartI; simp)+
  ultimately show ?thesis using switch_roundtrip [OF kern2_apart, of "0xC0100000" ?s] e by (simp add: kern2_def Int_Un_distrib)
qed

end
