(* ===== verification/FileProps.thy ===== *)
theory FileProps
  imports FileRW Sched
begin

text \<open>
  The properties of reading and writing files, for a file that is long enough and a disk cache in which no
  block is held.
\<close>

section \<open>Calls\<close>

definition cache_idle :: "'a disk_state_scheme \<Rightarrow> (addr \<rightharpoonup> nat) \<Rightarrow> bool" where
  "cache_idle s L \<longleftrightarrow> (\<exists>V. cache_view s L V Map.empty)"

text \<open>The inode is for a file of \<open>n\<close> bytes with the clusters \<open>cs\<close>.\<close>

definition file_of :: "addr \<Rightarrow> 'a fat_state_scheme \<Rightarrow> nat list \<Rightarrow> nat \<Rightarrow> bool" where
  "file_of inode s cs n \<longleftrightarrow> (case cs of [] \<Rightarrow> False | c # ds \<Rightarrow>
     ld16 (mem s) (ld32 (mem s) (i_data inode) + 26) = of_nat c \<and> fat_chain (fat s) (mem s) c ds) \<and>
     unat (ld32 (mem s) (ld32 (mem s) (i_data inode) + 28)) = n \<and> n < 512 * length cs"

lemma file_ofE:
  assumes "file_of inode s cs n"
  obtains c ds where "cs = c # ds" "ld16 (mem s) (ld32 (mem s) (i_data inode) + 26) = of_nat c" "fat_chain (fat s) (mem s) c ds"
    "unat (ld32 (mem s) (ld32 (mem s) (i_data inode) + 28)) = n" "n < 512 * length cs"
  using assms by (cases cs) (auto simp: file_of_def)

lemma file_of_bound: "file_of inode s cs n \<Longrightarrow> length cs \<le> 2730"
proof (elim file_ofE)
  fix c ds assume "cs = c # ds" "fat_chain (fat s) (mem s) c ds"
  then show ?thesis
    using card_mono [OF _ chain_bound] distinct_card [OF chain_distinct] by (metis card_lessThan finite_lessThan)
qed

lemma rw_aux_span:
  assumes "ld16 (mem s) (ld32 (mem s) (i_data inode) + 26) = of_nat c"
    "unat offset + unat len \<le> unat (ld32 (mem s) (ld32 (mem s) (i_data inode) + 28))" "unat offset + unat len < 2 ^ 31"
  shows "fat12_rw_aux cmd inode offset buf len s = span_loop cmd (unat offset) (unat offset + unat len) c 0 buf s"
proof -
  have u: "unat (offset + len) = unat offset + unat len" using assms(3) by (simp add: unat_word_ariths)
  have o: "sint offset = int (unat offset)" using assms(3) by (intro small_signed) simp
  have "sint offset sdiv 512 = int (unat offset div 512)" "sint offset smod 512 = int (unat offset mod 512)"
    unfolding o using sdiv_int [of "unat offset" 512] smod_int [of "unat offset" 512] by simp_all
  moreover have "sint ((offset + len) div SECTOR_SIZE) = int ((unat offset + unat len) div 512)"
    using small_signed [of "(offset + len) div SECTOR_SIZE"] assms(3) u by (simp add: unat_div)
  moreover have "sint ((offset + len) mod SECTOR_SIZE) = int ((unat offset + unat len) mod 512)"
    using small_signed [of "(offset + len) mod SECTOR_SIZE"] assms(3) u by (simp add: unat_mod)
  moreover have "\<not> offset + len > ld32 (mem s) (ld32 (mem s) (i_data inode) + 28)" using assms(2) u by (simp add: word_less_nat_alt)
  ultimately show ?thesis by (simp add: fat12_rw_aux_def Let_def assms(1))
qed

lemma file_byte_disk:
  assumes "cache_view s L V Map.empty" "file_of inode s cs n" "p < n"
  shows "disk s (file_addr cs p) = file_byte V cs p"
proof -
  obtain c ds where c: "cs = c # ds" "fat_chain (fat s) (mem s) c ds" using assms(2) by (rule file_ofE)
  have "p div 512 < length cs" using assms(2,3) by (elim file_ofE) simp
  then have "cs ! (p div 512) < 2730" using chain_bound [OF c(2)] nth_mem unfolding c(1) by blast
  then show ?thesis unfolding file_addr_def file_byte_def by (intro sector_byte_disk [OF assms(1)]) simp_all
qed

lemma disk_sectors:
  assumes "cache_view s L V Map.empty" "cache_view t L V' Map.empty" "a < 1474560"
    "sector_byte V' (a div 512) (a mod 512) = sector_byte V (a div 512) (a mod 512)"
  shows "disk t a = disk s a"
proof -
  have a: "a div 512 < 2880" "a mod 512 < 512" "512 * (a div 512) + a mod 512 = a" using assms(3) by simp_all
  show ?thesis
    using sector_byte_disk [OF assms(1) a(1,2)] sector_byte_disk [OF assms(2) a(1,2)] assms(4) unfolding a(3) by simp
qed

text \<open>The arguments of a call: a buffer in one of the caller's blocks, and a file that has the bytes.\<close>

definition io_args :: "'a fat_state_scheme \<Rightarrow> (addr \<rightharpoonup> nat) \<Rightarrow> addr \<Rightarrow> nat list \<Rightarrow> nat \<Rightarrow> u32 \<Rightarrow> addr \<Rightarrow> u32 \<Rightarrow> bool" where
  "io_args s L inode cs n offset buf len \<longleftrightarrow> cache_idle s L \<and> L (fat s) = Some 4096 \<and> file_of inode s cs n \<and>
     unat offset + unat len \<le> n \<and>
     (\<exists>q N. L q = Some N \<and> q \<notin> {fat s, db_head s, dma_buffer s} \<and> region buf (unat len) \<subseteq> region q N)"

lemma read_ok:
  fixes s :: "'a fat_state_scheme"
  assumes "io_args s L inode cs n offset buf len"
  shows "fat12_rw_aux FAT12_READ inode offset buf len s = Some (Inl (Bug ''memory alloc failed'')) \<or>
    (\<exists>t. fat12_rw_aux FAT12_READ inode offset buf len s = Some (Inr t) \<and> cache_idle t L \<and> disk_frame s t \<and>
      (\<forall>k<unat len. mem t (buf + of_nat k) = disk s (file_addr cs (unat offset + k))) \<and>
      (\<forall>y\<in>client s L. y \<notin> region buf (unat len) \<longrightarrow> mem t y = mem s y) \<and> (\<forall>a<1474560. disk t a = disk s a))"
proof -
  obtain V q N where W: "cache_view s L V Map.empty" and F: "L (fat s) = Some 4096" and f: "file_of inode s cs n"
    and n: "unat offset + unat len \<le> n"
    and q: "L q = Some N" "q \<noteq> fat s" "q \<noteq> db_head s" "q \<noteq> dma_buffer s" "region buf (unat len) \<subseteq> region q N"
    using assms unfolding io_args_def cache_idle_def by auto
  from f obtain c ds where c: "cs = c # ds" "ld16 (mem s) (ld32 (mem s) (i_data inode) + 26) = of_nat c" "fat_chain (fat s) (mem s) c ds"
    "unat (ld32 (mem s) (ld32 (mem s) (i_data inode) + 28)) = n" "n < 512 * length cs" by (rule file_ofE)
  let ?p0 = "unat offset" and ?p1 = "unat offset + unat len"
  have lt: "?p1 < 512 * length (c # ds)" "?p1 < 2 ^ 31" using n c(1,5) file_of_bound [OF f] by simp_all
  have e: "fat12_rw_aux FAT12_READ inode offset buf len s = span_loop FAT12_READ ?p0 ?p1 c 0 buf s"
    by (rule rw_aux_span [OF c(2) _ lt(2)]) (use n c(4) in simp)
  have d: "?p1 - ?p0 = unat len" by simp
  have "?p0 \<le> ?p1" by simp
  from read_file_loop [of s L V q N buf ?p1 ?p0 c ds, unfolded d, OF W F q c(3) this lt(1)] show ?thesis
  proof (elim disjE exE conjE)
    fix t assume t: "rw_loop FAT12_READ (int (?p0 div 512)) (int (?p1 div 512)) (int (?p0 mod 512)) (int (?p1 mod 512)) (of_nat (unat len)) (of_nat c) (int 0) buf s = Some (Inr t)"
      "cache_view t L V Map.empty" "disk_frame s t" "\<forall>y\<in>client s L. y \<notin> region buf (unat len) \<longrightarrow> mem t y = mem s y"
      "\<forall>k<unat len. mem t (buf + of_nat k) = file_byte V (c # ds) (?p0 + k)"
    have "mem t (buf + of_nat k) = disk s (file_addr cs (?p0 + k))" if "k < unat len" for k
      using t(5) that file_byte_disk [OF W f, of "?p0 + k"] n unfolding c(1) by simp
    moreover have "disk t a = disk s a" if "a < 1474560" for a by (rule disk_sectors [OF W t(2) that refl])
    moreover have "cache_idle t L" using t(2) unfolding cache_idle_def by blast
    moreover have "fat12_rw_aux FAT12_READ inode offset buf len s = Some (Inr t)" using t(1) unfolding e d .
    ultimately show ?thesis using t(3,4) by blast
  qed (unfold e d, simp)
qed

lemma write_ok:
  fixes s :: "'a fat_state_scheme"
  assumes "io_args s L inode cs n offset buf len"
  shows "fat12_rw_aux FAT12_WRITE inode offset buf len s = Some (Inl (Bug ''memory alloc failed'')) \<or>
    (\<exists>t. fat12_rw_aux FAT12_WRITE inode offset buf len s = Some (Inr t) \<and> cache_idle t L \<and> disk_frame s t \<and>
      (\<forall>k<unat len. disk t (file_addr cs (unat offset + k)) = mem s (buf + of_nat k)) \<and>
      (\<forall>a<1474560. (\<forall>k<unat len. file_addr cs (unat offset + k) \<noteq> a) \<longrightarrow> disk t a = disk s a) \<and>
      (\<forall>y\<in>client s L. mem t y = mem s y))"
proof -
  obtain V q N where W: "cache_view s L V Map.empty" and F: "L (fat s) = Some 4096" and f: "file_of inode s cs n"
    and n: "unat offset + unat len \<le> n"
    and q: "L q = Some N" "q \<noteq> fat s" "q \<noteq> db_head s" "q \<noteq> dma_buffer s" "region buf (unat len) \<subseteq> region q N"
    using assms unfolding io_args_def cache_idle_def by auto
  from f obtain c ds where c: "cs = c # ds" "ld16 (mem s) (ld32 (mem s) (i_data inode) + 26) = of_nat c" "fat_chain (fat s) (mem s) c ds"
    "unat (ld32 (mem s) (ld32 (mem s) (i_data inode) + 28)) = n" "n < 512 * length cs" by (rule file_ofE)
  let ?p0 = "unat offset" and ?p1 = "unat offset + unat len"
  have lt: "?p1 < 512 * length (c # ds)" "?p1 < 2 ^ 31" using n c(1,5) file_of_bound [OF f] by simp_all
  have e: "fat12_rw_aux FAT12_WRITE inode offset buf len s = span_loop FAT12_WRITE ?p0 ?p1 c 0 buf s"
    by (rule rw_aux_span [OF c(2) _ lt(2)]) (use n c(4) in simp)
  have d: "?p1 - ?p0 = unat len" by simp
  have qc: "region buf (unat len) \<subseteq> client s L" using q(5) client_block [of L q, OF q(1,3,4)] by blast
  have "?p0 \<le> ?p1" by simp
  from write_file_loop [of s L V buf ?p1 ?p0 c ds, unfolded d, OF W F qc c(3) this lt(1)] show ?thesis
  proof (elim disjE exE conjE)
    fix t V' assume t: "rw_loop FAT12_WRITE (int (?p0 div 512)) (int (?p1 div 512)) (int (?p0 mod 512)) (int (?p1 mod 512)) (of_nat (unat len)) (of_nat c) (int 0) buf s = Some (Inr t)"
      "cache_view t L V' Map.empty" "disk_frame s t" "\<forall>y\<in>client s L. mem t y = mem s y"
      "written V (c # ds) ?p0 ?p1 (\<lambda>k. mem s (buf + of_nat k)) (length (c # ds)) V'"
    have "disk t (file_addr cs (?p0 + k)) = mem s (buf + of_nat k)" if k: "k < unat len" for k
    proof -
      have "(?p0 + k) div 512 < length cs" "?p0 + k < 512 * length (c # ds)" using lt(1) k unfolding c(1) by simp_all
      moreover have "cs ! ((?p0 + k) div 512) < 2730" using chain_bound [OF c(3)] nth_mem [OF calculation(1)] unfolding c(1) by blast
      ultimately have "disk t (file_addr cs (?p0 + k)) = file_byte V' cs (?p0 + k)"
        unfolding file_addr_def file_byte_def by (intro sector_byte_disk [OF t(2)]) simp_all
      moreover have "file_byte V' cs (?p0 + k) = mem s (buf + of_nat (?p0 + k - ?p0))"
        using t(5) k \<open>?p0 + k < 512 * length (c # ds)\<close> unfolding written_def c(1) by auto
      ultimately show ?thesis by simp
    qed
    moreover have "disk t a = disk s a" if a: "a < 1474560" "\<forall>k<unat len. file_addr cs (?p0 + k) \<noteq> a" for a
    proof (rule disk_sectors [OF W t(2) a(1)])
      have "file_addr cs p \<noteq> 512 * (a div 512) + a mod 512" if "?p0 \<le> p" "p < ?p1" for p
        using a(2) [rule_format, of "p - ?p0"] that by simp
      moreover have "a div 512 < 2880" using a(1) by simp
      ultimately show "sector_byte V' (a div 512) (a mod 512) = sector_byte V (a div 512) (a mod 512)"
        using t(5) unfolding written_def c(1) by simp
    qed
    moreover have "cache_idle t L" using t(2) unfolding cache_idle_def by blast
    moreover have "fat12_rw_aux FAT12_WRITE inode offset buf len s = Some (Inr t)" using t(1) unfolding e d .
    ultimately show ?thesis using t(3,4) by blast
  qed (unfold e d, simp)
qed

section \<open>System calls\<close>

text \<open>The descriptor \<open>fd\<close> of the running process is for the inode; the structures are the caller's.\<close>

definition open_file :: "'a kern_state_scheme \<Rightarrow> (addr \<rightharpoonup> nat) \<Rightarrow> int \<Rightarrow> addr \<Rightarrow> addr \<Rightarrow> bool" where
  "open_file s L fd filp inode \<longleftrightarrow> ld32 (mem s) (p_filp (current s) fd) = filp \<and> filp \<noteq> 0 \<and>
     ld32 (mem s) (f_ops filp) = fat12_fops s \<and> ld32 (mem s) (f_inode filp) = inode \<and>
     region (p_filp (current s) fd) 4 \<union> region filp 20 \<union> region inode 32 \<union> region (ld32 (mem s) (i_data inode)) 32 \<subseteq> client s L"

lemma sys_read_call:
  assumes "open_file s L fd filp inode"
  shows "sys_read fd buf cnt s = bindR (fat12_rw_aux FAT12_READ inode (ld32 (mem s) (f_pos filp)) buf cnt s) (\<lambda>s. Some (Inr (cnt, s)))"
  using assms by (simp add: sys_read_def with_file_def fat12_read_def Let_def open_file_def)

lemma sys_write_call:
  assumes "open_file s L fd filp inode"
  shows "sys_write fd buf cnt s = bindR (fat12_rw_aux FAT12_WRITE inode (ld32 (mem s) (f_pos filp)) buf cnt s) (\<lambda>s. Some (Inr (cnt, s)))"
  using assms by (simp add: sys_write_def with_file_def fat12_write_def Let_def open_file_def)

lemma disk_frame_kern:
  fixes s t :: "'a kern_state_scheme"
  assumes "disk_frame s t"
  shows "current t = current s" "fat12_fops t = fat12_fops s"
proof -
  obtain m i c l d where "t = s\<lparr>mem := m, io := i, free_page_count := c, malloc_list := l, disk := d\<rparr>"
    using assms unfolding disk_frame_def by blast
  then show "current t = current s" "fat12_fops t = fat12_fops s" by simp_all
qed

lemma fields_in_32: "region (a + 28) 4 \<subseteq> region a 32" "region (a + 26) 2 \<subseteq> region a 32"
  by (rule region_offset_subset; simp)+

lemma fields_in_20: "region (a + 8) 4 \<subseteq> region a 20" "region (a + 12) 4 \<subseteq> region a 20" "region (a + 16) 4 \<subseteq> region a 20"
  by (rule region_offset_subset; simp)+

lemma open_file_kept:
  fixes s t :: "'a kern_state_scheme"
  assumes o: "open_file s L fd filp inode" and fr: "disk_frame s t" and m: "\<forall>y\<in>client s L. mem t y = mem s y"
  shows "open_file t L fd filp inode" "ld32 (mem t) (f_pos filp) = ld32 (mem s) (f_pos filp)"
    "ld32 (mem t) (i_data inode) = ld32 (mem s) (i_data inode)"
    "ld16 (mem t) (ld32 (mem s) (i_data inode) + 26) = ld16 (mem s) (ld32 (mem s) (i_data inode) + 26)"
    "ld32 (mem t) (ld32 (mem s) (i_data inode) + 28) = ld32 (mem s) (ld32 (mem s) (i_data inode) + 28)"
proof -
  note K = disk_frame_kern [OF fr] and C = client_frame [OF fr]
  have r: "region (p_filp (current s) fd) 4 \<subseteq> client s L" "region filp 20 \<subseteq> client s L" "region inode 32 \<subseteq> client s L"
    "region (ld32 (mem s) (i_data inode)) 32 \<subseteq> client s L" using o unfolding open_file_def by blast+
  have ld: "ld32 (mem t) a = ld32 (mem s) a" if "region a 4 \<subseteq> client s L" for a using m that by (intro ld32_cong) blast
  have l16: "ld16 (mem t) a = ld16 (mem s) a" if "region a 2 \<subseteq> client s L" for a using m that by (intro ld16_cong) blast
  show i: "ld32 (mem t) (i_data inode) = ld32 (mem s) (i_data inode)" by (rule ld [OF order.trans [OF fields_in_32(1) r(3)]])
  show "ld32 (mem t) (f_pos filp) = ld32 (mem s) (f_pos filp)" by (rule ld [OF order.trans [OF fields_in_20(2) r(2)]])
  show "ld16 (mem t) (ld32 (mem s) (i_data inode) + 26) = ld16 (mem s) (ld32 (mem s) (i_data inode) + 26)"
    by (rule l16 [OF order.trans [OF fields_in_32(2) r(4)]])
  show "ld32 (mem t) (ld32 (mem s) (i_data inode) + 28) = ld32 (mem s) (ld32 (mem s) (i_data inode) + 28)"
    by (rule ld [OF order.trans [OF fields_in_32(1) r(4)]])
  show "open_file t L fd filp inode"
    using o ld [OF r(1)] ld [OF order.trans [OF fields_in_20(3) r(2)]] ld [OF order.trans [OF fields_in_20(1) r(2)]]
    unfolding open_file_def K C i by simp
qed

lemma io_args_kept:
  fixes s t :: "'a kern_state_scheme"
  assumes a: "io_args s L inode cs n offset buf len" and o: "open_file s L fd filp inode" and fr: "disk_frame s t"
    and m: "\<forall>y\<in>client s L. mem t y = mem s y" and c: "cache_idle t L"
    and q: "L q = Some N" "q \<notin> {fat s, db_head s, dma_buffer s}" "region buf2 (unat len) \<subseteq> region q N"
  shows "io_args t L inode cs n offset buf2 len"
proof -
  note K = open_file_kept [OF o fr m] and D = disk_frameD(1,2) [OF fr] and F = disk_frame_fat(1) [OF fr]
  obtain V where W: "cache_view s L V Map.empty" using a unfolding io_args_def cache_idle_def by blast
  have f: "file_of inode s cs n" and Lf: "L (fat s) = Some 4096" and n: "unat offset + unat len \<le> n"
    using a unfolding io_args_def by simp_all
  obtain c ds where e: "cs = c # ds" "ld16 (mem s) (ld32 (mem s) (i_data inode) + 26) = of_nat c" "fat_chain (fat s) (mem s) c ds"
    "unat (ld32 (mem s) (ld32 (mem s) (i_data inode) + 28)) = n" "n < 512 * length cs" using f by (rule file_ofE)
  have "fat s \<noteq> db_head s" "fat s \<noteq> dma_buffer s" using Lf W by (auto elim!: cache_viewE)
  then have "region (fat s) 4096 \<subseteq> client s L" by (rule client_block [of L "fat s", OF Lf])
  then have "fat_chain (fat s) (mem t) ((c # ds) ! 0) (drop (Suc 0) (c # ds))" using m by (intro chain_at [OF e(3)]) auto
  then have "file_of inode t cs n" using e unfolding file_of_def K(3-5) F by simp
  then show ?thesis using c Lf n q unfolding io_args_def F D by blast
qed

text \<open>
  C5. \<open>sys_read\<close> on an open file with enough bytes returns the count it was asked for, with the file's
  bytes from the position on in the buffer, read along the chain of clusters, through the cache, from the
  disk; no other byte of the caller's memory changes, nor any byte of the disk. It can only fail with
  the out-of-memory \<open>BUG\<close>.
\<close>

theorem sys_read_bytes:
  fixes s :: "'a kern_state_scheme"
  assumes "open_file s L fd filp inode" "offset = ld32 (mem s) (f_pos filp)" "io_args s L inode cs n offset buf cnt"
  shows "sys_read fd buf cnt s = Some (Inl (Bug ''memory alloc failed'')) \<or>
    (\<exists>t. sys_read fd buf cnt s = Some (Inr (cnt, t)) \<and>
      (\<forall>k<unat cnt. mem t (buf + of_nat k) = disk s (file_addr cs (unat offset + k))) \<and>
      (\<forall>y\<in>client_bytes s L (\<lambda>_. []). y \<notin> region buf (unat cnt) \<longrightarrow> mem t y = mem s y) \<and>
      (\<forall>a<1474560. disk t a = disk s a) \<and> cache_idle t L)"
  unfolding sys_read_call [OF assms(1)] assms(2) [symmetric] using read_ok [OF assms(3)] by auto

text \<open>
  C6. \<open>sys_write\<close> inside an open file returns the count, with the bytes of the buffer on the disk in the
  sectors of the file's clusters from the position on; no other byte of the disk changes, nor any byte
  of the caller's memory. It can only fail with the out-of-memory \<open>BUG\<close>.
\<close>

theorem sys_write_bytes:
  fixes s :: "'a kern_state_scheme"
  assumes "open_file s L fd filp inode" "offset = ld32 (mem s) (f_pos filp)" "io_args s L inode cs n offset buf cnt"
  shows "sys_write fd buf cnt s = Some (Inl (Bug ''memory alloc failed'')) \<or>
    (\<exists>t. sys_write fd buf cnt s = Some (Inr (cnt, t)) \<and>
      (\<forall>k<unat cnt. disk t (file_addr cs (unat offset + k)) = mem s (buf + of_nat k)) \<and>
      (\<forall>a<1474560. (\<forall>k<unat cnt. file_addr cs (unat offset + k) \<noteq> a) \<longrightarrow> disk t a = disk s a) \<and>
      (\<forall>y\<in>client_bytes s L (\<lambda>_. []). mem t y = mem s y) \<and> cache_idle t L)"
  unfolding sys_write_call [OF assms(1)] assms(2) [symmetric] using write_ok [OF assms(3)] by auto

text \<open>
  C14. What is written is read back, by the next call: \<open>sys_write\<close> and \<open>sys_read\<close> leave the position of the
  file where it is, so that a read right after a write of the same length returns the bytes that were
  written, and a second write would overwrite them.
\<close>

theorem sys_write_read_back:
  fixes s :: "'a kern_state_scheme"
  assumes "open_file s L fd filp inode" "offset = ld32 (mem s) (f_pos filp)" "io_args s L inode cs n offset buf cnt"
    "L q = Some N" "q \<notin> {fat s, db_head s, dma_buffer s}" "region buf2 (unat cnt) \<subseteq> region q N"
  shows "sys_write fd buf cnt s = Some (Inl (Bug ''memory alloc failed'')) \<or>
    (\<exists>t. sys_write fd buf cnt s = Some (Inr (cnt, t)) \<and> ld32 (mem t) (f_pos filp) = offset \<and>
      (sys_read fd buf2 cnt t = Some (Inl (Bug ''memory alloc failed'')) \<or>
       (\<exists>u. sys_read fd buf2 cnt t = Some (Inr (cnt, u)) \<and> (\<forall>k<unat cnt. mem u (buf2 + of_nat k) = mem s (buf + of_nat k)))))"
proof -
  from write_ok [OF assms(3)] show ?thesis
  proof (elim disjE exE conjE)
    fix t assume t: "fat12_rw_aux FAT12_WRITE inode offset buf cnt s = Some (Inr t)" "cache_idle t L" "disk_frame s t"
      "\<forall>k<unat cnt. disk t (file_addr cs (unat offset + k)) = mem s (buf + of_nat k)" "\<forall>y\<in>client s L. mem t y = mem s y"
    note K = open_file_kept [OF assms(1) t(3,5)]
    have W: "sys_write fd buf cnt s = Some (Inr (cnt, t))" unfolding sys_write_call [OF assms(1)] assms(2) [symmetric] t(1) by simp
    have o: "ld32 (mem t) (f_pos filp) = offset" using K(2) assms(2) by simp
    from read_ok [OF io_args_kept [OF assms(3,1) t(3,5,2) assms(4-6)]]
    have "sys_read fd buf2 cnt t = Some (Inl (Bug ''memory alloc failed'')) \<or>
       (\<exists>u. sys_read fd buf2 cnt t = Some (Inr (cnt, u)) \<and> (\<forall>k<unat cnt. mem u (buf2 + of_nat k) = mem s (buf + of_nat k)))"
      unfolding sys_read_call [OF K(1)] o using t(4) by auto
    then show ?thesis using W o by blast
  qed (simp add: sys_write_call [OF assms(1)] assms(2) [symmetric])
qed

section \<open>A machine with a file\<close>

text \<open>The memory of the variables and blocks of the kernel, all in the image.\<close>

definition image_blocks :: "(addr \<times> nat) list" where
  "image_blocks = [(0xC0012000, 104), (0xC0013000, 1024), (0xC0014000, 4096), (0xC0015000, 7168), (0xC0019000, 312),
     (0xC0010000, 4096), (0xC0017000, 8), (0xC001B000, 2048), (0xC0020000, 12288), (0xC0019200, 20), (0xC0019300, 32), (0xC001A000, 256), (0xC001A200, 256)]"

definition kern16 :: kern_state where
  "kern16 = kern0\<lparr>mem := st32 (\<lambda>_. 0) 0x9000 16384, current := 0xC0019000, disk := (\<lambda>k. of_nat k), dma := floppy_disk\<rparr>"

text \<open>Descriptor 0 is open for a file of 100 bytes in cluster 2, at position 10.\<close>

definition put_file :: "memory \<Rightarrow> memory" where
  "put_file m = st32 (st32 (st32 (st32 (st32 (st32 (st16 (st16 m 0xC0014003 0x0ff8) 0xC001501A 2) 0xC001501C 100)
     0xC001931C 0xC0015000) 0xC001920C 10) 0xC0019208 0xC0019300) 0xC0019210 0xC0012200) 0xC0019038 0xC0019200"

lemma far_loads:
  "4 \<le> unat (b - a) \<Longrightarrow> 4 \<le> unat (a - b) \<Longrightarrow> ld32 (st32 m b v) a = ld32 m a"
  "2 \<le> unat (b - a) \<Longrightarrow> 4 \<le> unat (a - b) \<Longrightarrow> ld16 (st32 m b v) a = ld16 m a"
  "2 \<le> unat (b - a) \<Longrightarrow> 2 \<le> unat (a - b) \<Longrightarrow> ld16 (st16 m b w) a = ld16 m a"
proof -
  show "4 \<le> unat (b - a) \<Longrightarrow> 4 \<le> unat (a - b) \<Longrightarrow> ld32 (st32 m b v) a = ld32 m a"
    by (rule ld32_st32_apart) (rule region_apartI)
  show "2 \<le> unat (b - a) \<Longrightarrow> 4 \<le> unat (a - b) \<Longrightarrow> ld16 (st32 m b v) a = ld16 m a"
    using region_apartI [of 2 b a 4] by (intro ld16_cong st32_out) blast
  show "2 \<le> unat (b - a) \<Longrightarrow> 2 \<le> unat (a - b) \<Longrightarrow> ld16 (st16 m b w) a = ld16 m a"
    using region_apartI [of 2 b a 2] by (intro ld16_cong st16_out) blast
qed

lemma put_file_loads:
  "ld32 (put_file m) 0xC0019038 = 0xC0019200" "ld32 (put_file m) 0xC0019210 = 0xC0012200" "ld32 (put_file m) 0xC0019208 = 0xC0019300"
  "ld32 (put_file m) 0xC001920C = 10" "ld32 (put_file m) 0xC001931C = 0xC0015000" "ld32 (put_file m) 0xC001501C = 100"
  "ld16 (put_file m) 0xC001501A = 2" "ld16 (put_file m) 0xC0014003 = 0x0ff8"
  unfolding put_file_def by (simp_all add: far_loads)

lemma region_within: "unat (b - a) + k \<le> n \<Longrightarrow> region b k \<subseteq> region (a :: addr) n"
  using region_offset_subset [of "b - a" k n a] by simp

lemma put_file_out:
  assumes "y \<notin> region 0xC0014000 4096" "y \<notin> region 0xC0015000 7168" "y \<notin> region 0xC0019000 312" "y \<notin> region 0xC0019200 20" "y \<notin> region 0xC0019300 32"
  shows "put_file m y = m y"
proof -
  have "region 0xC0014003 2 \<subseteq> region (0xC0014000 :: addr) 4096" "region 0xC001501A 2 \<subseteq> region (0xC0015000 :: addr) 7168"
    "region 0xC001501C 4 \<subseteq> region (0xC0015000 :: addr) 7168" "region 0xC001931C 4 \<subseteq> region (0xC0019300 :: addr) 32"
    "region 0xC001920C 4 \<subseteq> region (0xC0019200 :: addr) 20" "region 0xC0019208 4 \<subseteq> region (0xC0019200 :: addr) 20"
    "region 0xC0019210 4 \<subseteq> region (0xC0019200 :: addr) 20" "region 0xC0019038 4 \<subseteq> region (0xC0019000 :: addr) 312"
    by (rule region_within; simp)+
  with assms show ?thesis unfolding put_file_def by (subst st32_out st16_out, blast)+ (rule refl)
qed

lemma kern16_ok: "boot_ok 4096 (mapped_state 4096 kern16)" "first_page 4096 (mapped_state 4096 kern16) = 49"
    "unat (img_end (mapped_state 4096 kern16)) = 0xC0023000"
  by (simp_all add: kern16_def kern0_def tables_for_def mapped_state_def boot_ok_def bm_off_4096 ALIGN_def
      first_page_def tables_end_def bm_at_def)

lemma image_blocks_apart:
  assumes "map_of image_blocks p = Some n" "map_of image_blocks q = Some l" "p \<noteq> q"
  shows "region p n \<inter> region q l = {}"
proof -
  have "unat p + n \<le> unat q \<or> unat q + l \<le> unat p" "unat p + n \<le> 2 ^ 32" "unat q + l \<le> 2 ^ 32"
    using map_of_SomeD [OF assms(1)] map_of_SomeD [OF assms(2)] assms(3) unfolding image_blocks_def by auto
  then show ?thesis using region_ordered [of p n q l] region_ordered [of q l p n] by blast
qed

lemma image16: "image_has kern16 (img_end (mapped_state 4096 kern16)) (map_of image_blocks)"
  unfolding image_has_def
proof (intro conjI allI impI)
  fix p n assume "map_of image_blocks p = Some n"
  from map_of_SomeD [OF this]
  have p: "0xC0000000 \<le> unat p \<and> unat p + n \<le> 0xC0023000 \<and> 0 < n \<and> 4 dvd unat p"
    "unat p + n \<le> 0xC0011000 \<or> 0xC0011084 \<le> unat p" by (auto simp: image_blocks_def)
  have fa: "unat (free_area kern16) = 0xC0011000" by (simp add: kern16_def kern0_def)
  show "region p n \<inter> region (free_area kern16) 132 = {}"
    using p region_ordered [of p n "free_area kern16" 132] region_ordered [of "free_area kern16" 132 p n] unfolding fa by auto
  show "0xC0000000 \<le> unat p" "unat p + n \<le> unat (img_end (mapped_state 4096 kern16))" "0 < n" "4 dvd unat p"
    using p unfolding kern16_ok(3) by simp_all
qed (rule image_blocks_apart)

text \<open>The machine after it has started, with the file in place.\<close>

lemma kern16_started:
  obtains s :: kern_state where
    "open_file s (map_of image_blocks) 0 0xC0019200 0xC0019300" "ld32 (mem s) (f_pos 0xC0019200) = 10"
    "io_args s (map_of image_blocks) 0xC0019300 [2] 100 10 0xC001A000 50" "fat s = 0xC0014000" "db_head s = 0xC0012000"
    "dma_buffer s = 0xC0013000" "\<forall>a<1474560. disk s a = of_nat a" "root s = 0xC0015000" "inode_list s = 0xC0017000"
proof -
  let ?L = "map_of image_blocks"
  have db: "?L (db_head kern16) = Some 104" "?L (dma_buffer kern16) = Some 1024" "dma_reach (dma_buffer kern16)" "device_ok (dma kern16)"
    "malloc_list kern16 = 0"
    using floppy_disk_ok by (simp_all add: image_blocks_def kern16_def kern0_def dma_reach_def pa_def)
  have f: "first_page 4096 (mapped_state 4096 kern16) < unat (4096 :: u32)" using kern16_ok(2) by simp
  obtain m e c1 a b c2 l where
    s0: "kmalloc_init (buddy_system_init 4096 (mapped_state 4096 kern16)) = Inr (kern16\<lparr>mem := m, img_end := e, page_count := c1, mem_map := a,
      mem_map_end := b, free_page_count := c2, malloc_list := l\<rparr>)"
    "disk_boot (kern16\<lparr>mem := m, img_end := e, page_count := c1, mem_map := a, mem_map_end := b, free_page_count := c2, malloc_list := l\<rparr>) ?L"
    by (rule image_started [OF kern16_ok(1) f db(5) image16 db(1-4)]) blast
  define s0' where "s0' = kern16\<lparr>mem := m, img_end := e, page_count := c1, mem_map := a, mem_map_end := b, free_page_count := c2, malloc_list := l\<rparr>"
  note s0 = s0 [folded s0'_def]
  let ?s1 = "disk_buffer_init s0'"
  let ?s = "?s1\<lparr>mem := put_file (mem ?s1)\<rparr>"
  have V: "cache_view ?s1 ?L (\<lambda>b k. disk s0' (4096 * b + k)) Map.empty" by (rule run_cache_view [OF cache_run.start s0(2)])
  have fr: "disk_frame s0' ?s" 
    using disk_frame_trans [OF _ disk_frame_updates(2)] cache_start(2) s0(2) unfolding disk_boot_def by blast
  have G: "current ?s = 0xC0019000" "fat12_fops ?s = 0xC0012200" "fat ?s = 0xC0014000" "db_head ?s = 0xC0012000" "dma_buffer ?s = 0xC0013000"
    "root ?s = 0xC0015000" "inode_list ?s = 0xC0017000"
    using disk_frame_kern [OF fr] disk_frame_fat [OF fr] disk_frameD [OF fr] by (simp_all add: s0'_def kern16_def kern0_def)
  have cl: "region p n \<subseteq> client ?s ?L" if "(p, n) \<in> set image_blocks" "p \<noteq> 0xC0012000" "p \<noteq> 0xC0013000" for p n
  proof -
    have "distinct (map fst image_blocks)" by (simp add: image_blocks_def)
    then have "?L p = Some n" using that(1) by simp
    then show ?thesis by (rule client_block [of ?L p]) (use that(2,3) G in auto)
  qed
  have R: "region 0xC0014000 4096 \<subseteq> client ?s ?L" "region 0xC0015000 7168 \<subseteq> client ?s ?L" "region 0xC0019000 312 \<subseteq> client ?s ?L"
    "region 0xC0019200 20 \<subseteq> client ?s ?L" "region 0xC0019300 32 \<subseteq> client ?s ?L"
    by (rule cl; simp add: image_blocks_def)+
  have c1: "client ?s ?L = client ?s1 ?L" by (rule client_frame [OF disk_frame_updates(2)])
  have V2: "cache_view ?s ?L (\<lambda>b k. disk s0' (4096 * b + k)) Map.empty"
    by (rule view_write_client [OF V], rule put_file_out) (use R c1 in blast)+
  note ld = put_file_loads [of "mem ?s1"]
  have f: "file_of 0xC0019300 ?s [2] 100"
  proof -
    have "fat_entry 0xC0014000 2 (mem ?s) = 0xff8" using ld(8) by (simp add: fat_entry_def read_entry_def)
    then show ?thesis using ld G by (simp add: file_of_def)
  qed
  have o: "open_file ?s ?L 0 0xC0019200 0xC0019300"
  proof -
    have "region 0xC0019038 4 \<subseteq> region (0xC0019000 :: addr) 312" "region 0xC0015000 32 \<subseteq> region (0xC0015000 :: addr) 7168"
      by (rule region_within; simp)+
    then have "region 0xC0019038 4 \<subseteq> client ?s ?L" "region 0xC0015000 32 \<subseteq> client ?s ?L" using R by blast+
    then show ?thesis using R ld G unfolding open_file_def by simp
  qed
  have q: "?L 0xC001A000 = Some 256" by (simp add: image_blocks_def)
  have io: "io_args ?s ?L 0xC0019300 [2] 100 10 0xC001A000 50"
  proof -
    have "?L 0xC0014000 = Some 4096" by (simp add: image_blocks_def)
    moreover have "region 0xC001A000 50 \<subseteq> region (0xC001A000 :: addr) 256" by (rule region_mono) simp
    then have "\<exists>q N. ?L q = Some N \<and> q \<notin> {fat ?s, db_head ?s, dma_buffer ?s} \<and> region 0xC001A000 (unat (50 :: u32)) \<subseteq> region q N"
      using q G by (intro exI [of _ "0xC001A000"] exI [of _ 256]) simp
    ultimately show ?thesis unfolding io_args_def using V2 f G(3) unfolding cache_idle_def by simp blast
  qed
  have d: "disk ?s a = of_nat a" if a: "a < 1474560" for a
  proof -
    have "4096 * (a div 4096) + a mod 4096 = a" "a div 4096 < 360" "a mod 4096 < 4096" using a by simp_all
    then have "disk ?s a = disk s0' a" using view_disk [OF V2, of "a div 4096" "a mod 4096"] by simp
    then show ?thesis by (simp add: s0'_def kern16_def)
  qed
  show thesis
  proof (rule that [OF o _ io G(3-5)])
    show "ld32 (mem ?s) (f_pos 0xC0019200) = 10" using ld(4) by simp
    show "\<forall>a<1474560. disk ?s a = of_nat a" using d by blast
    show "root ?s = 0xC0015000" "inode_list ?s = 0xC0017000" by (rule G)+
  qed
qed

theorem sys_read_bytes_witness:
  "\<exists>s :: kern_state. open_file s (map_of image_blocks) 0 0xC0019200 0xC0019300 \<and>
    (sys_read 0 0xC001A000 50 s = Some (Inl (Bug ''memory alloc failed'')) \<or>
     (\<exists>t. sys_read 0 0xC001A000 50 s = Some (Inr (50, t)) \<and> (\<forall>k<50. mem t (0xC001A000 + of_nat k) = of_nat (16906 + k))))"
proof -
  obtain s :: kern_state where s: "open_file s (map_of image_blocks) 0 0xC0019200 0xC0019300" "ld32 (mem s) (f_pos 0xC0019200) = 10"
    "io_args s (map_of image_blocks) 0xC0019300 [2] 100 10 0xC001A000 50" "fat s = 0xC0014000" "db_head s = 0xC0012000" "dma_buffer s = 0xC0013000"
    "\<forall>a<1474560. disk s a = of_nat a" by (rule kern16_started) blast
  have "disk s (file_addr [2] (unat (10 :: u32) + k)) = of_nat (16906 + k)" if "k < 50" for k
  proof -
    have "file_addr [2] (unat (10 :: u32) + k) = 16906 + k" using that by (simp add: file_addr_def)
    then show ?thesis using s(7) that by simp
  qed
  with sys_read_bytes [OF s(1) s(2) [symmetric] s(3)] show ?thesis using s(1) by (intro exI [of _ s]) auto
qed

theorem sys_write_bytes_witness:
  "\<exists>s :: kern_state. open_file s (map_of image_blocks) 0 0xC0019200 0xC0019300 \<and>
    (sys_write 0 0xC001A000 50 s = Some (Inl (Bug ''memory alloc failed'')) \<or>
     (\<exists>t. sys_write 0 0xC001A000 50 s = Some (Inr (50, t)) \<and> disk t 16906 = mem s 0xC001A000 \<and> disk t 16905 = of_nat 16905))"
proof -
  obtain s :: kern_state where s: "open_file s (map_of image_blocks) 0 0xC0019200 0xC0019300" "ld32 (mem s) (f_pos 0xC0019200) = 10"
    "io_args s (map_of image_blocks) 0xC0019300 [2] 100 10 0xC001A000 50" "fat s = 0xC0014000" "db_head s = 0xC0012000" "dma_buffer s = 0xC0013000"
    "\<forall>a<1474560. disk s a = of_nat a" by (rule kern16_started) blast
  have a: "file_addr [2] (unat (10 :: u32) + k) = 16906 + k" if "k < 50" for k using that by (simp add: file_addr_def)
  from sys_write_bytes [OF s(1) s(2) [symmetric] s(3)]
  have "sys_write 0 0xC001A000 50 s = Some (Inl (Bug ''memory alloc failed'')) \<or>
     (\<exists>t. sys_write 0 0xC001A000 50 s = Some (Inr (50, t)) \<and> disk t 16906 = mem s 0xC001A000 \<and> disk t 16905 = disk s 16905)"
  proof (elim disjE exE conjE)
    fix t assume t: "sys_write 0 0xC001A000 50 s = Some (Inr (50, t))"
      "\<forall>k<unat (50 :: u32). disk t (file_addr [2] (unat (10 :: u32) + k)) = mem s (0xC001A000 + of_nat k)"
      "\<forall>b<1474560. (\<forall>k<unat (50 :: u32). file_addr [2] (unat (10 :: u32) + k) \<noteq> b) \<longrightarrow> disk t b = disk s b"
    have "disk t 16906 = mem s 0xC001A000" using t(2) [rule_format, of 0] a [of 0] by simp
    moreover have "\<forall>k<unat (50 :: u32). file_addr [2] (unat (10 :: u32) + k) \<noteq> 16905" using a by simp
    then have "disk t 16905 = disk s 16905" using t(3) by simp
    ultimately show ?thesis using t(1) by blast
  qed simp
  then show ?thesis using s(1,7) by (intro exI [of _ s]) auto
qed

theorem sys_write_read_back_witness:
  "\<exists>s :: kern_state. open_file s (map_of image_blocks) 0 0xC0019200 0xC0019300 \<and>
    (sys_write 0 0xC001A000 50 s = Some (Inl (Bug ''memory alloc failed'')) \<or>
     (\<exists>t. sys_write 0 0xC001A000 50 s = Some (Inr (50, t)) \<and>
       (sys_read 0 0xC001A200 50 t = Some (Inl (Bug ''memory alloc failed'')) \<or>
        (\<exists>u. sys_read 0 0xC001A200 50 t = Some (Inr (50, u)) \<and>
          (\<forall>k<50. mem u (0xC001A200 + of_nat k) = mem s (0xC001A000 + of_nat k))))))"
proof -
  obtain s :: kern_state where s: "open_file s (map_of image_blocks) 0 0xC0019200 0xC0019300" "ld32 (mem s) (f_pos 0xC0019200) = 10"
    "io_args s (map_of image_blocks) 0xC0019300 [2] 100 10 0xC001A000 50" "fat s = 0xC0014000" "db_head s = 0xC0012000" "dma_buffer s = 0xC0013000"
    "\<forall>a<1474560. disk s a = of_nat a" by (rule kern16_started) blast
  have q: "map_of image_blocks 0xC001A200 = Some 256" "(0xC001A200 :: addr) \<notin> {fat s, db_head s, dma_buffer s}"
    "region 0xC001A200 (unat (50 :: u32)) \<subseteq> region (0xC001A200 :: addr) 256"
    using s(4-6) region_mono [of 50 256] by (simp_all add: image_blocks_def)
  from sys_write_read_back [OF s(1) s(2) [symmetric] s(3) q] show ?thesis using s(1) by (intro exI [of _ s]) auto
qed

end
