(* ===== verification/FatTables.thy ===== *)
theory FatTables
  imports FileProps
begin

text \<open>
  The tables of the file system between memory and disk: \<open>fat12_set_info\<close> takes the first five blocks, copies
  the table of clusters (sectors 1 to 8) and the root directory (sectors 19 to 32), and puts the blocks back.
\<close>

section \<open>Calls in sequence\<close>

text \<open>What a step keeps: the globals, and the caller's memory.\<close>

definition quiet :: "'a disk_state_scheme \<Rightarrow> (addr \<rightharpoonup> nat) \<Rightarrow> 'a disk_state_scheme \<Rightarrow> bool" where
  "quiet s L s' \<longleftrightarrow> disk_frame s s' \<and> (\<forall>y\<in>client s L. mem s' y = mem s y)"

lemma quiet_refl: "quiet s L s"
  by (simp add: quiet_def disk_frame_updates(1))

lemma quiet_step: "quiet s L t \<Longrightarrow> disk_frame t u \<Longrightarrow> (\<And>y. y \<in> client t L \<Longrightarrow> mem u y = mem t y) \<Longrightarrow> quiet s L u"
proof -
  assume a: "quiet s L t" "disk_frame t u" "\<And>y. y \<in> client t L \<Longrightarrow> mem u y = mem t y"
  have f: "disk_frame s t" using a(1) by (simp add: quiet_def)
  then show "quiet s L u" using a disk_frame_trans [OF f a(2)] client_frame [OF f, of L] by (simp add: quiet_def)
qed

text \<open>A property of a sequence of calls follows from what holds behind the first one.\<close>

lemma get_then:
  assumes "cache_view s L V G" "quiet s0 L s" "b < 360" "block = of_nat b" "P (Some (Inl (Bug ''memory alloc failed'')))"
    "\<And>n s'. cache_view s' L V (G(b \<mapsto> n)) \<Longrightarrow> quiet s0 L s' \<Longrightarrow> P (f (n, s'))"
  shows "P (bindR (disk_buffer_get block s) f)"
  using assms(1,3)
proof (rule view_get)
  assume "disk_buffer_get (of_nat b) s = Some (Inl (Bug ''memory alloc failed''))"
  then show ?thesis using assms(4,5) by simp
next
  fix n s' assume g: "disk_buffer_get (of_nat b) s = Some (Inr (n, s'))" "cache_view s' L V (G(b \<mapsto> n))" "disk_frame s s'"
    "\<And>y. y \<in> client s L \<Longrightarrow> mem s' y = mem s y"
  show ?thesis using assms(6) [OF g(2) quiet_step [OF assms(2) g(3,4)]] g(1) assms(4) by simp
qed

lemma put_then:
  assumes "cache_view s L V G" "quiet s0 L s" "b < 360" "block = of_nat b"
    "\<And>s'. cache_view s' L V (G(b := None)) \<Longrightarrow> quiet s0 L s' \<Longrightarrow> P (f s')"
  shows "P (bindR (disk_buffer_put block s) f)"
  using assms(1,3)
proof (rule view_put)
  fix s' assume g: "disk_buffer_put (of_nat b) s = Some (Inr s')" "cache_view s' L V (G(b := None))" "disk_frame s s'"
    "\<And>y. y \<in> client s L \<Longrightarrow> mem s' y = mem s y"
  show ?thesis using assms(5) [OF g(2) quiet_step [OF assms(2) g(3,4)]] g(1) assms(4) by simp
qed

lemma block_numbers: "(0 :: u32) = of_nat 0" "(1 :: u32) = of_nat 1" "(2 :: u32) = of_nat 2" "(3 :: u32) = of_nat 3" "(4 :: u32) = of_nat 4"
  by simp_all

definition info_copy :: "int \<Rightarrow> 'a fat_state_scheme \<Rightarrow> addr \<Rightarrow> addr \<Rightarrow> addr \<Rightarrow> addr \<Rightarrow> addr \<Rightarrow> memory" where
  "info_copy cmd s d0 d1 d2 d3 d4 =
     (if cmd = FAT12_INFO_READ then info_read (fat s) (root s) d0 d1 d2 d3 d4 (mem s)
      else if cmd = FAT12_INFO_SYC then info_syc (fat s) (root s) d0 d1 d2 d3 d4 (mem s) else mem s)"

lemma set_info_steps:
  assumes W: "cache_view s L V Map.empty" and fail: "P (Some (Inl (Bug ''memory alloc failed'')))"
    and C: "\<And>t d0 d1 d2 d3 d4. cache_view t L V [0 \<mapsto> d0, 1 \<mapsto> d1, 2 \<mapsto> d2, 3 \<mapsto> d3, 4 \<mapsto> d4] \<Longrightarrow> quiet s L t \<Longrightarrow>
      cache_view (t\<lparr>mem := info_copy cmd t d0 d1 d2 d3 d4\<rparr>) L (V' t) [0 \<mapsto> d0, 1 \<mapsto> d1, 2 \<mapsto> d2, 3 \<mapsto> d3, 4 \<mapsto> d4]"
    and R: "\<And>t d0 d1 d2 d3 d4 u. cache_view t L V [0 \<mapsto> d0, 1 \<mapsto> d1, 2 \<mapsto> d2, 3 \<mapsto> d3, 4 \<mapsto> d4] \<Longrightarrow> quiet s L t \<Longrightarrow>
      cache_view u L (V' t) Map.empty \<Longrightarrow> quiet (t\<lparr>mem := info_copy cmd t d0 d1 d2 d3 d4\<rparr>) L u \<Longrightarrow> P (Some (Inr u))"
  shows "P (fat12_set_info cmd s)"
proof -
  have G: "[0 \<mapsto> d0, 1 \<mapsto> d1, 2 \<mapsto> d2, 3 \<mapsto> d3, 4 \<mapsto> d4 :: addr](0 := None, 1 := None, 2 := None, 3 := None, 4 := None) = (Map.empty :: nat \<rightharpoonup> addr)"
    for d0 d1 d2 d3 d4 by (simp add: fun_eq_iff)
  have last: "disk_buffer_put 4 u = bindR (disk_buffer_put 4 u) (\<lambda>s. Some (Inr s))" for u :: "'a fat_state_scheme"
    by (cases "disk_buffer_put 4 u") (auto simp: bindR_def split: sum.splits)
  note get = get_then [where P = P] and put = put_then [where P = P]
  show ?thesis
    unfolding fat12_set_info_def Let_def info_copy_def [symmetric]
    apply (rule get [where b = 0 and ?s0.0 = s, OF W quiet_refl _ _ fail], simp, simp, simp only: prod.case)
    apply (rule get [where b = 1 and ?s0.0 = s], assumption, assumption, simp, simp, rule fail, simp only: prod.case)
    apply (rule get [where b = 2 and ?s0.0 = s], assumption, assumption, simp, simp, rule fail, simp only: prod.case)
    apply (rule get [where b = 3 and ?s0.0 = s], assumption, assumption, simp, simp, rule fail, simp only: prod.case)
    apply (rule get [where b = 4 and ?s0.0 = s], assumption, assumption, simp, simp, rule fail, simp only: prod.case)
    apply (rule put [where b = 0], erule C, assumption, rule quiet_refl, simp, simp)
    apply (rule put [where b = 1], assumption, assumption, simp, simp)
    apply (rule put [where b = 2], assumption, assumption, simp, simp)
    apply (rule put [where b = 3], assumption, assumption, simp, simp)
    apply (subst last, rule put [where b = 4], assumption, assumption, simp, simp)
    apply (rule R, assumption, assumption, simp only: G, assumption)
    done
qed

section \<open>The copies\<close>

text \<open>The caller's memory is changed at \<open>m\<close>; a page is copied to it or from it.\<close>

lemma view_in:
  fixes s :: "'a disk_state_scheme"
  assumes W: "cache_view (s\<lparr>mem := m\<rparr>) L V G" "G b = Some n" and j: "j + l \<le> 4096" and dst: "region dst l \<subseteq> client s L"
  defines "m' \<equiv> memcpy dst (ld32 m (db_buffer n) + of_nat j) (of_nat l) m"
  shows "cache_view (s\<lparr>mem := m'\<rparr>) L V G \<and> (\<forall>y. m' y = (if y \<in> region dst l then V b (j + unat (y - dst)) else m y))"
proof -
  have dst': "region dst l \<subseteq> client (s\<lparr>mem := m\<rparr>) L" using dst by (simp add: client_frame [OF disk_frame_updates(2)])
  show ?thesis using view_copy_in [OF W j dst'] unfolding m'_def by simp
qed

definition page_put :: "(nat \<Rightarrow> nat \<Rightarrow> u8) \<Rightarrow> nat \<Rightarrow> nat \<Rightarrow> nat \<Rightarrow> (nat \<Rightarrow> u8) \<Rightarrow> nat \<Rightarrow> nat \<Rightarrow> u8" where
  "page_put V b j l f = V(b := \<lambda>k. if j \<le> k \<and> k < j + l then f (k - j) else V b k)"

lemma view_out:
  fixes s :: "'a disk_state_scheme"
  assumes W: "cache_view (s\<lparr>mem := m\<rparr>) L V G" "G b = Some n" and j: "j + l \<le> 4096" and src: "region src l \<subseteq> client s L"
    and same: "\<forall>y\<in>client s L. m y = mem s y"
  defines "m' \<equiv> memcpy (ld32 m (db_buffer n) + of_nat j) src (of_nat l) m"
  shows "cache_view (s\<lparr>mem := m'\<rparr>) L (page_put V b j l (\<lambda>k. mem s (src + of_nat k))) G \<and> (\<forall>y\<in>client s L. m' y = mem s y)"
proof -
  have cl: "client (s\<lparr>mem := m\<rparr>) L = client s L" by (rule client_frame [OF disk_frame_updates(2)])
  have e: "mem (s\<lparr>mem := m\<rparr>) = m" "(s\<lparr>mem := m\<rparr>)\<lparr>mem := m''\<rparr> = s\<lparr>mem := m''\<rparr>" for m'' by simp_all
  have f: "m (src + of_nat k) = mem s (src + of_nat k)" if "k < l" for k
    using index_in_region [OF that, of src] j src same by auto
  have "page_put V b j l (\<lambda>k. mem s (src + of_nat k)) = page_put V b j l (\<lambda>k. m (src + of_nat k))"
    unfolding page_put_def by (intro arg_cong [where f = "fun_upd V b"] ext if_cong [OF refl f [symmetric] refl]) linarith
  then show ?thesis
    using view_copy_out [OF W j src [folded cl], unfolded e cl] same
    unfolding m'_def page_put_def [of V b j l "\<lambda>k. m (src + of_nat k)"] by simp
qed

text \<open>The memory of the tables: \<open>fat\<close> has 4096 bytes and \<open>root\<close> 7168.\<close>

definition tables_at :: "addr \<Rightarrow> addr \<Rightarrow> (nat \<Rightarrow> u8) \<Rightarrow> memory \<Rightarrow> bool" where
  "tables_at ft rt d m \<longleftrightarrow> (\<forall>k<4096. m (ft + of_nat k) = d (512 + k)) \<and> (\<forall>k<7168. m (rt + of_nat k) = d (9728 + k))"

lemma part_offset:
  assumes "j + l \<le> 7168" "k < 7168"
  shows "a + of_nat k \<in> region (a + of_nat j) l \<longleftrightarrow> j \<le> k \<and> k < j + l"
    "j \<le> k \<Longrightarrow> unat (a + of_nat k - (a + of_nat j) :: addr) = k - j"
proof -
  show "a + of_nat k \<in> region (a + of_nat j) l \<longleftrightarrow> j \<le> k \<and> k < j + l" by (rule region_index) (use assms in simp_all)
  assume "j \<le> k"
  then have "a + of_nat k - (a + of_nat j) = (of_nat (k - j) :: addr)" by (simp add: of_nat_diff)
  moreover have "k - j < 2 ^ 32" using assms(2) by simp
  ultimately show "unat (a + of_nat k - (a + of_nat j) :: addr) = k - j" by (simp only: unat_of_nat_32)
qed

lemma info_read_copies:
  fixes t :: "'a fat_state_scheme"
  assumes W: "cache_view t L V [0 \<mapsto> d0, 1 \<mapsto> d1, 2 \<mapsto> d2, 3 \<mapsto> d3, 4 \<mapsto> d4]"
    and ft: "region ft 4096 \<subseteq> client t L" and rt: "region rt 7168 \<subseteq> client t L" and fr: "region ft 4096 \<inter> region rt 7168 = {}"
  defines "m \<equiv> info_read ft rt d0 d1 d2 d3 d4 (mem t)"
  shows "cache_view (t\<lparr>mem := m\<rparr>) L V [0 \<mapsto> d0, 1 \<mapsto> d1, 2 \<mapsto> d2, 3 \<mapsto> d3, 4 \<mapsto> d4]"
    "tables_at ft rt (\<lambda>a. V (a div 4096) (a mod 4096)) m" "y \<notin> region ft 4096 \<Longrightarrow> y \<notin> region rt 7168 \<Longrightarrow> m y = mem t y"
proof -
  let ?G = "[0 \<mapsto> d0, 1 \<mapsto> d1, 2 \<mapsto> d2, 3 \<mapsto> d3, 4 \<mapsto> d4]"
  define m0 where "m0 = mem t"
  define m1 where "m1 = memcpy ft (ld32 m0 (db_buffer d0) + of_nat 512) (of_nat 3584) m0"
  define m2 where "m2 = memcpy (ft + of_nat 3584) (ld32 m1 (db_buffer d1) + of_nat 0) (of_nat 512) m1"
  define m3 where "m3 = memcpy rt (ld32 m2 (db_buffer d2) + of_nat 1536) (of_nat 2560) m2"
  define m4 where "m4 = memcpy (rt + of_nat 2560) (ld32 m3 (db_buffer d3) + of_nat 0) (of_nat 4096) m3"
  have m: "m = memcpy (rt + of_nat 6656) (ld32 m4 (db_buffer d4) + of_nat 0) (of_nat 512) m4"
    by (simp add: m_def info_read_def Let_def m4_def m3_def m2_def m1_def m0_def)
  have sub: "region ft 3584 \<subseteq> region ft 4096" "region (ft + of_nat 3584) 512 \<subseteq> region ft 4096" "region rt 2560 \<subseteq> region rt 7168"
    "region (rt + of_nat 2560) 4096 \<subseteq> region rt 7168" "region (rt + of_nat 6656) 512 \<subseteq> region rt 7168"
    by (rule region_mono region_offset_subset; simp)+
  have W0: "cache_view (t\<lparr>mem := m0\<rparr>) L V ?G" using W by (simp add: m0_def)
  have 1: "cache_view (t\<lparr>mem := m1\<rparr>) L V ?G \<and> (\<forall>y. m1 y = (if y \<in> region ft 3584 then V 0 (512 + unat (y - ft)) else m0 y))"
    unfolding m1_def by (rule view_in [OF W0]) (use sub ft in auto)
  have 2: "cache_view (t\<lparr>mem := m2\<rparr>) L V ?G \<and>
      (\<forall>y. m2 y = (if y \<in> region (ft + of_nat 3584) 512 then V 1 (0 + unat (y - (ft + of_nat 3584))) else m1 y))"
    unfolding m2_def by (rule view_in [OF conjunct1 [OF 1]]) (use sub ft in auto)
  have 3: "cache_view (t\<lparr>mem := m3\<rparr>) L V ?G \<and> (\<forall>y. m3 y = (if y \<in> region rt 2560 then V 2 (1536 + unat (y - rt)) else m2 y))"
    unfolding m3_def by (rule view_in [OF conjunct1 [OF 2]]) (use sub rt in auto)
  have 4: "cache_view (t\<lparr>mem := m4\<rparr>) L V ?G \<and>
      (\<forall>y. m4 y = (if y \<in> region (rt + of_nat 2560) 4096 then V 3 (0 + unat (y - (rt + of_nat 2560))) else m3 y))"
    unfolding m4_def by (rule view_in [OF conjunct1 [OF 3]]) (use sub rt in auto)
  have 5: "cache_view (t\<lparr>mem := m\<rparr>) L V ?G \<and>
      (\<forall>y. m y = (if y \<in> region (rt + of_nat 6656) 512 then V 4 (0 + unat (y - (rt + of_nat 6656))) else m4 y))"
    unfolding m by (rule view_in [OF conjunct1 [OF 4]]) (use sub rt in auto)
  show "cache_view (t\<lparr>mem := m\<rparr>) L V ?G" using 5 by blast
  have e: "m y = (if y \<in> region (rt + of_nat 6656) 512 then V 4 (unat (y - (rt + of_nat 6656)))
      else if y \<in> region (rt + of_nat 2560) 4096 then V 3 (unat (y - (rt + of_nat 2560)))
      else if y \<in> region rt 2560 then V 2 (1536 + unat (y - rt))
      else if y \<in> region (ft + of_nat 3584) 512 then V 1 (unat (y - (ft + of_nat 3584)))
      else if y \<in> region ft 3584 then V 0 (512 + unat (y - ft)) else mem t y)" for y
    using 1 2 3 4 5 unfolding m0_def by simp
  show "y \<notin> region ft 4096 \<Longrightarrow> y \<notin> region rt 7168 \<Longrightarrow> m y = mem t y" unfolding e using sub by auto
  show "tables_at ft rt (\<lambda>a. V (a div 4096) (a mod 4096)) m"
    unfolding tables_at_def
  proof (intro conjI allI impI)
    fix k :: nat assume k: "k < 4096"
    let ?y = "ft + of_nat k :: addr"
    have "?y \<in> region ft 4096" using k by (intro index_in_region) simp_all
    then have nr: "?y \<notin> region rt 7168" using fr by blast
    then have n: "?y \<notin> region (rt + of_nat 6656) 512" "?y \<notin> region (rt + of_nat 2560) 4096" "?y \<notin> region rt 2560" using sub by blast+
    note p = part_offset [of 3584 512 k ft] part_offset [of 0 3584 k ft]
    show "m ?y = V ((512 + k) div 4096) ((512 + k) mod 4096)"
    proof (cases "k < 3584")
      case True
      then show ?thesis unfolding e using n p k by simp
    next
      case False
      then have "512 + k = k - 3584 + 4096" by simp
      then have "(512 + k) div 4096 = 1" "(512 + k) mod 4096 = k - 3584" using k by (simp_all add: div_nat_eqI mod_nat_eqI)
      then show ?thesis unfolding e using n p k False by simp
    qed
  next
    fix k :: nat assume k: "k < 7168"
    let ?y = "rt + of_nat k :: addr"
    note p = part_offset [of 6656 512 k rt] part_offset [of 2560 4096 k rt] part_offset [of 0 2560 k rt]
    consider "k < 2560" | "2560 \<le> k" "k < 6656" | "6656 \<le> k" by linarith
    then show "m ?y = V ((9728 + k) div 4096) ((9728 + k) mod 4096)"
    proof cases
      case 1
      then have "(9728 + k) div 4096 = 2" "(9728 + k) mod 4096 = 1536 + k" by (simp_all add: div_nat_eqI mod_nat_eqI)
      then show ?thesis unfolding e using p k 1 by simp
    next
      case 2
      then have "9728 + k = k - 2560 + 3 * 4096" by simp
      then have "(9728 + k) div 4096 = 3" "(9728 + k) mod 4096 = k - 2560" using 2 by (simp_all add: div_nat_eqI mod_nat_eqI)
      then show ?thesis unfolding e using p k 2 by simp
    next
      case 3
      then have "9728 + k = k - 6656 + 4 * 4096" by simp
      then have "(9728 + k) div 4096 = 4" "(9728 + k) mod 4096 = k - 6656" using k 3 by (simp_all add: div_nat_eqI mod_nat_eqI)
      then show ?thesis unfolding e using p k 3 by simp
    qed
  qed
qed

text \<open>The pages with the tables in them.\<close>

definition synced :: "addr \<Rightarrow> addr \<Rightarrow> memory \<Rightarrow> (nat \<Rightarrow> nat \<Rightarrow> u8) \<Rightarrow> nat \<Rightarrow> nat \<Rightarrow> u8" where
  "synced ft rt m V =
     (let V = page_put V 0 512 3584 (\<lambda>k. m (ft + of_nat k));
          V = page_put V 1 0 512 (\<lambda>k. m (ft + of_nat 3584 + of_nat k));
          V = page_put V 2 1536 2560 (\<lambda>k. m (rt + of_nat k));
          V = page_put V 3 0 4096 (\<lambda>k. m (rt + of_nat 2560 + of_nat k))
      in page_put V 4 0 512 (\<lambda>k. m (rt + of_nat 6656 + of_nat k)))"

lemma synced_byte:
  assumes k: "k < 4096"
  shows "synced ft rt m V b k =
    (if 512 \<le> 4096 * b + k \<and> 4096 * b + k < 4608 then m (ft + of_nat (4096 * b + k - 512))
     else if 9728 \<le> 4096 * b + k \<and> 4096 * b + k < 16896 then m (rt + of_nat (4096 * b + k - 9728)) else V b k)"
proof -
  have a: "ft + of_nat 3584 + of_nat k = ft + of_nat (3584 + k)" "rt + of_nat 2560 + of_nat k = rt + of_nat (2560 + k)"
    "rt + of_nat 6656 + of_nat k = rt + of_nat (6656 + k)" for k by (simp_all only: of_nat_add add.assoc)
  consider "b = 0" | "b = 1" | "b = 2" | "b = 3" | "b = 4" | "5 \<le> b" by linarith
  then show ?thesis
  proof cases
    case 6
    then have "16896 \<le> 4096 * b + k" by linarith
    then show ?thesis using 6 by (simp add: synced_def Let_def page_put_def)
  qed (use k in \<open>unfold synced_def Let_def page_put_def a, simp_all del: of_nat_add of_nat_diff\<close>)
qed

lemma info_syc_copies:
  fixes t :: "'a fat_state_scheme"
  assumes W: "cache_view t L V [0 \<mapsto> d0, 1 \<mapsto> d1, 2 \<mapsto> d2, 3 \<mapsto> d3, 4 \<mapsto> d4]"
    and ft: "region ft 4096 \<subseteq> client t L" and rt: "region rt 7168 \<subseteq> client t L"
  defines "m \<equiv> info_syc ft rt d0 d1 d2 d3 d4 (mem t)"
  shows "cache_view (t\<lparr>mem := m\<rparr>) L (synced ft rt (mem t) V) [0 \<mapsto> d0, 1 \<mapsto> d1, 2 \<mapsto> d2, 3 \<mapsto> d3, 4 \<mapsto> d4]"
    "\<forall>y\<in>client t L. m y = mem t y"
proof -
  let ?G = "[0 \<mapsto> d0, 1 \<mapsto> d1, 2 \<mapsto> d2, 3 \<mapsto> d3, 4 \<mapsto> d4]"
  define m0 where "m0 = mem t"
  define m1 where "m1 = memcpy (ld32 m0 (db_buffer d0) + of_nat 512) ft (of_nat 3584) m0"
  define m2 where "m2 = memcpy (ld32 m1 (db_buffer d1) + of_nat 0) (ft + of_nat 3584) (of_nat 512) m1"
  define m3 where "m3 = memcpy (ld32 m2 (db_buffer d2) + of_nat 1536) rt (of_nat 2560) m2"
  define m4 where "m4 = memcpy (ld32 m3 (db_buffer d3) + of_nat 0) (rt + of_nat 2560) (of_nat 4096) m3"
  have m: "m = memcpy (ld32 m4 (db_buffer d4) + of_nat 0) (rt + of_nat 6656) (of_nat 512) m4"
    by (simp add: m_def info_syc_def Let_def m4_def m3_def m2_def m1_def m0_def)
  have "region ft 3584 \<subseteq> region ft 4096" "region (ft + of_nat 3584) 512 \<subseteq> region ft 4096" "region rt 2560 \<subseteq> region rt 7168"
    "region (rt + of_nat 2560) 4096 \<subseteq> region rt 7168" "region (rt + of_nat 6656) 512 \<subseteq> region rt 7168"
    by (rule region_mono region_offset_subset; simp)+
  then have sub: "region ft 3584 \<subseteq> client t L" "region (ft + of_nat 3584) 512 \<subseteq> client t L" "region rt 2560 \<subseteq> client t L"
    "region (rt + of_nat 2560) 4096 \<subseteq> client t L" "region (rt + of_nat 6656) 512 \<subseteq> client t L" using ft rt by blast+
  let ?V1 = "page_put V 0 512 3584 (\<lambda>k. mem t (ft + of_nat k))"
  let ?V2 = "page_put ?V1 1 0 512 (\<lambda>k. mem t (ft + of_nat 3584 + of_nat k))"
  let ?V3 = "page_put ?V2 2 1536 2560 (\<lambda>k. mem t (rt + of_nat k))"
  let ?V4 = "page_put ?V3 3 0 4096 (\<lambda>k. mem t (rt + of_nat 2560 + of_nat k))"
  let ?V5 = "page_put ?V4 4 0 512 (\<lambda>k. mem t (rt + of_nat 6656 + of_nat k))"
  have W0: "cache_view (t\<lparr>mem := m0\<rparr>) L V ?G \<and> (\<forall>y\<in>client t L. m0 y = mem t y)" using W by (simp add: m0_def)
  have 1: "cache_view (t\<lparr>mem := m1\<rparr>) L ?V1 ?G \<and> (\<forall>y\<in>client t L. m1 y = mem t y)"
    unfolding m1_def by (rule view_out [OF conjunct1 [OF W0] _ _ sub(1) conjunct2 [OF W0]]) simp_all
  have 2: "cache_view (t\<lparr>mem := m2\<rparr>) L ?V2 ?G \<and> (\<forall>y\<in>client t L. m2 y = mem t y)"
    unfolding m2_def by (rule view_out [OF conjunct1 [OF 1] _ _ sub(2) conjunct2 [OF 1]]) simp_all
  have 3: "cache_view (t\<lparr>mem := m3\<rparr>) L ?V3 ?G \<and> (\<forall>y\<in>client t L. m3 y = mem t y)"
    unfolding m3_def by (rule view_out [OF conjunct1 [OF 2] _ _ sub(3) conjunct2 [OF 2]]) simp_all
  have 4: "cache_view (t\<lparr>mem := m4\<rparr>) L ?V4 ?G \<and> (\<forall>y\<in>client t L. m4 y = mem t y)"
    unfolding m4_def by (rule view_out [OF conjunct1 [OF 3] _ _ sub(4) conjunct2 [OF 3]]) simp_all
  have 5: "cache_view (t\<lparr>mem := m\<rparr>) L ?V5 ?G \<and> (\<forall>y\<in>client t L. m y = mem t y)"
    unfolding m by (rule view_out [OF conjunct1 [OF 4] _ _ sub(5) conjunct2 [OF 4]]) simp_all
  show "cache_view (t\<lparr>mem := m\<rparr>) L (synced ft rt (mem t) V) ?G" using 5 unfolding synced_def Let_def by blast
  show "\<forall>y\<in>client t L. m y = mem t y" using 5 by blast
qed

section \<open>Loading and writing back\<close>

definition tables_in :: "'a fat_state_scheme \<Rightarrow> (addr \<rightharpoonup> nat) \<Rightarrow> bool" where
  "tables_in s L \<longleftrightarrow> cache_idle s L \<and> L (fat s) = Some 4096 \<and> L (root s) = Some 7168 \<and>
     (\<exists>N\<ge>8. L (inode_list s) = Some N) \<and> distinct [fat s, root s, inode_list s, db_head s, dma_buffer s]"

lemma tables_inE:
  assumes "tables_in s L"
  obtains V where "cache_view s L V Map.empty" "region (fat s) 4096 \<subseteq> client s L" "region (root s) 7168 \<subseteq> client s L"
    "region (inode_list s) 8 \<subseteq> client s L" "region (fat s) 4096 \<inter> region (root s) 7168 = {}"
    "region (inode_list s) 8 \<inter> (region (fat s) 4096 \<union> region (root s) 7168) = {}"
proof -
  obtain V N where V: "cache_view s L V Map.empty" and F: "L (fat s) = Some 4096" and R: "L (root s) = Some 7168"
    and N: "L (inode_list s) = Some N" "8 \<le> N" and d: "distinct [fat s, root s, inode_list s, db_head s, dma_buffer s]"
    using assms unfolding tables_in_def cache_idle_def by blast
  have i: "region (inode_list s) 8 \<subseteq> region (inode_list s) N" by (rule region_mono [OF N(2)])
  have b: "region (fat s) 4096 \<subseteq> client s L" "region (root s) 7168 \<subseteq> client s L" "region (inode_list s) N \<subseteq> client s L"
    by (rule client_block, rule F R N(1); use d in simp)+
  have a: "region (fat s) 4096 \<inter> region (root s) 7168 = {}" "region (inode_list s) N \<inter> region (fat s) 4096 = {}"
    "region (inode_list s) N \<inter> region (root s) 7168 = {}"
    by (rule view_blocks [OF V F R] view_blocks [OF V N(1) F] view_blocks [OF V N(1) R]; use d in \<open>simp add: eq_commute\<close>)+
  show thesis by (rule that [OF V b(1,2) _ a(1)]) (use i b(3) a(2,3) in blast)+
qed

text \<open>The tables are those of the disk, whose pages are \<open>V\<close>.\<close>

lemma tables_at_disk:
  assumes "cache_view s L V Map.empty" "tables_at ft rt (\<lambda>a. V (a div 4096) (a mod 4096)) m"
  shows "tables_at ft rt (disk s) m"
proof -
  have "V (a div 4096) (a mod 4096) = disk s a" if "a < 16896" for a
    using view_disk [OF assms(1), of "a div 4096" "a mod 4096"] that by simp
  then show ?thesis using assms(2) unfolding tables_at_def by simp
qed

lemma tables_at_cong:
  assumes "tables_at ft rt d m" "\<And>y. y \<in> region ft 4096 \<union> region rt 7168 \<Longrightarrow> m' y = m y"
  shows "tables_at ft rt d m'"
proof -
  have "ft + of_nat k \<in> region ft 4096" if "k < 4096" for k using index_in_region [OF that] by simp
  moreover have "rt + of_nat k \<in> region rt 7168" if "k < 7168" for k using region_index [of k 0 7168 rt] that by simp
  ultimately show ?thesis using assms unfolding tables_at_def by simp
qed

lemma view_same_disk:
  assumes "cache_view s L V Map.empty" "cache_view t L V' Map.empty" "a < 1474560" "V' (a div 4096) (a mod 4096) = V (a div 4096) (a mod 4096)"
  shows "disk t a = disk s a"
  using view_disk [OF assms(1), of "a div 4096" "a mod 4096"] view_disk [OF assms(2), of "a div 4096" "a mod 4096"] assms(3,4) by simp

lemma quiet_mem:
  assumes "disk_frame s t" "quiet (t\<lparr>mem := m\<rparr>) L u"
  shows "disk_frame t u" "\<forall>y\<in>client s L. mem u y = m y"
proof -
  have f: "disk_frame (t\<lparr>mem := m\<rparr>) u" using assms(2) by (simp add: quiet_def)
  show "disk_frame t u" by (rule disk_frame_trans [OF disk_frame_updates(2) f])
  show "\<forall>y\<in>client s L. mem u y = m y"
    using assms(2) client_frame [OF disk_frame_trans [OF assms(1) disk_frame_updates(2)], where L = L] by (simp add: quiet_def)
qed

lemma info_loaded:
  fixes s :: "'a fat_state_scheme"
  assumes T: "tables_in s L"
  shows "fat12_set_info FAT12_INFO_READ s = Some (Inl (Bug ''memory alloc failed'')) \<or>
    (\<exists>t. fat12_set_info FAT12_INFO_READ s = Some (Inr t) \<and> disk_frame s t \<and> tables_at (fat s) (root s) (disk s) (mem t) \<and>
      (\<forall>y\<in>client s L. y \<notin> region (fat s) 4096 \<longrightarrow> y \<notin> region (root s) 7168 \<longrightarrow> mem t y = mem s y) \<and>
      (\<forall>a<1474560. disk t a = disk s a) \<and> cache_idle t L)"
proof -
  obtain V where W: "cache_view s L V Map.empty" and b: "region (fat s) 4096 \<subseteq> client s L" "region (root s) 7168 \<subseteq> client s L"
    and a: "region (fat s) 4096 \<inter> region (root s) 7168 = {}" using T by (rule tables_inE)
  show ?thesis
  proof (rule set_info_steps [OF W, where V' = "\<lambda>_. V" and cmd = FAT12_INFO_READ and P = "\<lambda>r. r = Some (Inl (Bug ''memory alloc failed'')) \<or>
      (\<exists>t. r = Some (Inr t) \<and> disk_frame s t \<and> tables_at (fat s) (root s) (disk s) (mem t) \<and>
      (\<forall>y\<in>client s L. y \<notin> region (fat s) 4096 \<longrightarrow> y \<notin> region (root s) 7168 \<longrightarrow> mem t y = mem s y) \<and>
      (\<forall>a<1474560. disk t a = disk s a) \<and> cache_idle t L)"])
    fix t :: "'a fat_state_scheme" and d0 d1 d2 d3 d4
    assume t: "cache_view t L V [0 \<mapsto> d0, 1 \<mapsto> d1, 2 \<mapsto> d2, 3 \<mapsto> d3, 4 \<mapsto> d4]" "quiet s L t"
    have f: "disk_frame s t" and q: "\<forall>y\<in>client s L. mem t y = mem s y" using t(2) by (simp_all add: quiet_def)
    note F = disk_frame_fat [OF f] and cl = client_frame [OF f, of L]
    have e: "info_copy FAT12_INFO_READ t d0 d1 d2 d3 d4 = info_read (fat s) (root s) d0 d1 d2 d3 d4 (mem t)"
      by (simp add: info_copy_def F)
    note I = info_read_copies [OF t(1) b [folded cl] a, folded e]
    show "cache_view (t\<lparr>mem := info_copy FAT12_INFO_READ t d0 d1 d2 d3 d4\<rparr>) L V [0 \<mapsto> d0, 1 \<mapsto> d1, 2 \<mapsto> d2, 3 \<mapsto> d3, 4 \<mapsto> d4]"
      by (rule I(1))
    fix u :: "'a fat_state_scheme"
    assume u: "cache_view u L V Map.empty" "quiet (t\<lparr>mem := info_copy FAT12_INFO_READ t d0 d1 d2 d3 d4\<rparr>) L u"
    note g = quiet_mem [OF f u(2)]
    have "disk_frame s u" by (rule disk_frame_trans [OF f g(1)])
    moreover have "tables_at (fat s) (root s) (disk s) (mem u)"
      by (rule tables_at_cong [OF tables_at_disk [OF W I(2)]]) (use g(2) b in blast)
    moreover have "mem u y = mem s y" if "y \<in> client s L" "y \<notin> region (fat s) 4096" "y \<notin> region (root s) 7168" for y
      using that I(3) g(2) q by simp
    moreover have "disk u a = disk s a" if "a < 1474560" for a by (rule view_same_disk [OF W u(1) that refl])
    moreover have "cache_idle u L" using u(1) unfolding cache_idle_def by blast
    ultimately show "Some (Inr u) = Some (Inl (Bug ''memory alloc failed'')) \<or>
      (\<exists>t. Some (Inr u) = Some (Inr t) \<and> disk_frame s t \<and> tables_at (fat s) (root s) (disk s) (mem t) \<and>
      (\<forall>y\<in>client s L. y \<notin> region (fat s) 4096 \<longrightarrow> y \<notin> region (root s) 7168 \<longrightarrow> mem t y = mem s y) \<and>
      (\<forall>a<1474560. disk t a = disk s a) \<and> cache_idle t L)" by blast
  qed simp
qed

lemma synced_disk:
  fixes s :: "'a fat_state_scheme"
  assumes W: "cache_view s L V Map.empty" and u: "cache_view u L (synced ft rt m V) Map.empty"
  shows "tables_at ft rt (disk u) m" "a < 1474560 \<Longrightarrow> a \<notin> {512..<4608} \<union> {9728..<16896} \<Longrightarrow> disk u a = disk s a"
proof -
  have e: "4096 * (a div 4096) + a mod 4096 = a" "a mod 4096 < 4096" for a :: nat by simp_all
  have d: "disk u a = synced ft rt m V (a div 4096) (a mod 4096)" if "a < 1474560" for a
    using view_disk [OF u, of "a div 4096" "a mod 4096"] that by simp
  have "disk u (512 + k) = m (ft + of_nat k)" if "k < 4096" for k
    using d [of "512 + k"] that unfolding synced_byte [OF e(2)] e by simp
  moreover have "disk u (9728 + k) = m (rt + of_nat k)" if "k < 7168" for k
    using d [of "9728 + k"] that unfolding synced_byte [OF e(2)] e by simp
  ultimately show "tables_at ft rt (disk u) m" unfolding tables_at_def by simp
  assume a: "a < 1474560" "a \<notin> {512..<4608} \<union> {9728..<16896}"
  then have "disk u a = V (a div 4096) (a mod 4096)" using d [OF a(1)] unfolding synced_byte [OF e(2)] e by auto
  then show "disk u a = disk s a" using view_disk [OF W, of "a div 4096" "a mod 4096"] a(1) by simp
qed

lemma info_synced:
  fixes s :: "'a fat_state_scheme"
  assumes T: "tables_in s L"
  shows "fat12_set_info FAT12_INFO_SYC s = Some (Inl (Bug ''memory alloc failed'')) \<or>
    (\<exists>t. fat12_set_info FAT12_INFO_SYC s = Some (Inr t) \<and> disk_frame s t \<and> tables_at (fat s) (root s) (disk t) (mem s) \<and>
      (\<forall>a<1474560. a \<notin> {512..<4608} \<union> {9728..<16896} \<longrightarrow> disk t a = disk s a) \<and>
      (\<forall>y\<in>client s L. mem t y = mem s y) \<and> cache_idle t L)"
proof -
  obtain V where W: "cache_view s L V Map.empty" and b: "region (fat s) 4096 \<subseteq> client s L" "region (root s) 7168 \<subseteq> client s L"
    using T by (rule tables_inE)
  show ?thesis
  proof (rule set_info_steps [OF W, where V' = "\<lambda>t. synced (fat s) (root s) (mem t) V" and cmd = FAT12_INFO_SYC and
      P = "\<lambda>r. r = Some (Inl (Bug ''memory alloc failed'')) \<or>
      (\<exists>t. r = Some (Inr t) \<and> disk_frame s t \<and> tables_at (fat s) (root s) (disk t) (mem s) \<and>
      (\<forall>a<1474560. a \<notin> {512..<4608} \<union> {9728..<16896} \<longrightarrow> disk t a = disk s a) \<and>
      (\<forall>y\<in>client s L. mem t y = mem s y) \<and> cache_idle t L)"])
    fix t :: "'a fat_state_scheme" and d0 d1 d2 d3 d4
    assume t: "cache_view t L V [0 \<mapsto> d0, 1 \<mapsto> d1, 2 \<mapsto> d2, 3 \<mapsto> d3, 4 \<mapsto> d4]" "quiet s L t"
    have f: "disk_frame s t" and q: "\<forall>y\<in>client s L. mem t y = mem s y" using t(2) by (simp_all add: quiet_def)
    note cl = client_frame [OF f, of L]
    have e: "info_copy FAT12_INFO_SYC t d0 d1 d2 d3 d4 = info_syc (fat s) (root s) d0 d1 d2 d3 d4 (mem t)"
      by (simp add: info_copy_def disk_frame_fat [OF f])
    note I = info_syc_copies [OF t(1) b [folded cl], folded e]
    show "cache_view (t\<lparr>mem := info_copy FAT12_INFO_SYC t d0 d1 d2 d3 d4\<rparr>) L (synced (fat s) (root s) (mem t) V)
        [0 \<mapsto> d0, 1 \<mapsto> d1, 2 \<mapsto> d2, 3 \<mapsto> d3, 4 \<mapsto> d4]"
      by (rule I(1))
    fix u :: "'a fat_state_scheme"
    assume u: "cache_view u L (synced (fat s) (root s) (mem t) V) Map.empty"
      "quiet (t\<lparr>mem := info_copy FAT12_INFO_SYC t d0 d1 d2 d3 d4\<rparr>) L u"
    note g = quiet_mem [OF f u(2)] and d = synced_disk [OF W u(1)]
    have c: "mem t y = mem s y" if "y \<in> region (fat s) 4096 \<union> region (root s) 7168" for y using q b that by blast
    have "disk_frame s u" by (rule disk_frame_trans [OF f g(1)])
    moreover have "tables_at (fat s) (root s) (disk u) (mem s)"
      by (rule tables_at_cong [OF d(1)]) (rule c [symmetric])
    moreover have "mem u y = mem s y" if "y \<in> client s L" for y using that I(2) g(2) q cl by simp
    moreover have "cache_idle u L" using u(1) unfolding cache_idle_def by blast
    ultimately show "Some (Inr u) = Some (Inl (Bug ''memory alloc failed'')) \<or>
      (\<exists>t. Some (Inr u) = Some (Inr t) \<and> disk_frame s t \<and> tables_at (fat s) (root s) (disk t) (mem s) \<and>
      (\<forall>a<1474560. a \<notin> {512..<4608} \<union> {9728..<16896} \<longrightarrow> disk t a = disk s a) \<and>
      (\<forall>y\<in>client s L. mem t y = mem s y) \<and> cache_idle t L)" using d(2) by blast
  qed simp
qed

text \<open>\<open>fat12_init\<close>: the tables, then the list of inodes.\<close>

lemma init_loaded:
  fixes s :: "'a fat_state_scheme"
  assumes "tables_in s L"
  shows "fat12_init s = Some (Inl (Bug ''memory alloc failed'')) \<or>
    (\<exists>t. fat12_init s = Some (Inr t) \<and> disk_frame s t \<and> tables_at (fat s) (root s) (disk s) (mem t) \<and> dll (mem t) (inode_list s) [] \<and>
      (\<forall>y\<in>client_bytes s L (\<lambda>_. []). y \<notin> region (fat s) 4096 \<union> region (root s) 7168 \<union> region (inode_list s) 8 \<longrightarrow> mem t y = mem s y) \<and>
      (\<forall>a<1474560. disk t a = disk s a) \<and> cache_idle t L)"
proof -
  obtain V where b: "region (inode_list s) 8 \<subseteq> client s L"
    "region (inode_list s) 8 \<inter> (region (fat s) 4096 \<union> region (root s) 7168) = {}" using assms by (rule tables_inE)
  from info_loaded [OF assms] show ?thesis
  proof (elim disjE exE conjE)
    fix t assume t: "fat12_set_info FAT12_INFO_READ s = Some (Inr t)" "disk_frame s t" "tables_at (fat s) (root s) (disk s) (mem t)"
      "\<forall>y\<in>client s L. y \<notin> region (fat s) 4096 \<longrightarrow> y \<notin> region (root s) 7168 \<longrightarrow> mem t y = mem s y"
      "\<forall>a<1474560. disk t a = disk s a" "cache_idle t L"
    note F = disk_frame_fat [OF t(2)] and out = link_init_out [of _ "inode_list s" "mem t"]
    let ?u = "t\<lparr>mem := link_init (inode_list s) (mem t)\<rparr>"
    obtain V where "cache_view t L V Map.empty" using t(6) unfolding cache_idle_def by blast
    then have "cache_view ?u L V Map.empty"
      by (rule view_write_client) (use out b(1) client_frame [OF t(2), of L] in blast)
    then have "cache_idle ?u L" unfolding cache_idle_def by blast
    moreover have "tables_at (fat s) (root s) (disk s) (mem ?u)"
      by (rule tables_at_cong [OF t(3)]) (use out b(2) in \<open>simp, blast\<close>)
    moreover have "disk_frame s ?u" by (rule disk_frame_trans [OF t(2) disk_frame_updates(2)])
    moreover have "fat12_init s = Some (Inr ?u)" by (simp add: fat12_init_def t(1) F)
    moreover have "dll (mem ?u) (inode_list s) []" by simp
    moreover have "\<forall>y\<in>client s L. y \<notin> region (fat s) 4096 \<union> region (root s) 7168 \<union> region (inode_list s) 8 \<longrightarrow> mem ?u y = mem s y"
      using t(4) out by simp
    ultimately show ?thesis using t(5) by (intro disjI2 exI [of _ ?u]) simp
  qed (simp add: fat12_init_def)
qed

section \<open>Properties\<close>

text \<open>
  C16. \<open>fat12_init\<close> fills the two tables of the file system with the sectors of the disk, the table of clusters
  with sectors 1 to 8 and the root directory with sectors 19 to 32, empties the list of inodes, and changes
  no other byte of the caller's memory and no byte of the disk. It can only fail with the
  out-of-memory \<open>BUG\<close>.
\<close>

theorem fat_tables_loaded:
  fixes s :: "'a fat_state_scheme"
  assumes "tables_in s L"
  shows "fat12_init s = Some (Inl (Bug ''memory alloc failed'')) \<or>
    (\<exists>t. fat12_init s = Some (Inr t) \<and> tables_at (fat s) (root s) (disk s) (mem t) \<and> dll (mem t) (inode_list s) [] \<and>
      (\<forall>y\<in>client_bytes s L (\<lambda>_. []). y \<notin> region (fat s) 4096 \<union> region (root s) 7168 \<union> region (inode_list s) 8 \<longrightarrow> mem t y = mem s y) \<and>
      (\<forall>a<1474560. disk t a = disk s a) \<and> cache_idle t L)"
  using init_loaded [OF assms] by blast

text \<open>
  C15. Writing the tables back puts the table of clusters in sectors 1 to 8 of the disk and the root
  directory in sectors 19 to 32, and changes no other byte of the disk nor any byte of the caller's memory:
  the boot sector, the second copy of the table and every file stay. It can only fail with the
  out-of-memory \<open>BUG\<close>.
\<close>

theorem fat_tables_synced:
  fixes s :: "'a fat_state_scheme"
  assumes "tables_in s L"
  shows "fat12_set_info FAT12_INFO_SYC s = Some (Inl (Bug ''memory alloc failed'')) \<or>
    (\<exists>t. fat12_set_info FAT12_INFO_SYC s = Some (Inr t) \<and> tables_at (fat s) (root s) (disk t) (mem s) \<and>
      (\<forall>a<1474560. a \<notin> {512..<4608} \<union> {9728..<16896} \<longrightarrow> disk t a = disk s a) \<and>
      (\<forall>y\<in>client_bytes s L (\<lambda>_. []). mem t y = mem s y) \<and> cache_idle t L)"
  using info_synced [OF assms] by blast

lemma kern16_tables:
  obtains s :: kern_state where "tables_in s (map_of image_blocks)" "fat s = 0xC0014000" "root s = 0xC0015000"
    "\<forall>a<1474560. disk s a = of_nat a"
proof -
  obtain s :: kern_state where s: "io_args s (map_of image_blocks) 0xC0019300 [2] 100 10 0xC001A000 50" "fat s = 0xC0014000"
    "db_head s = 0xC0012000" "dma_buffer s = 0xC0013000" "\<forall>a<1474560. disk s a = of_nat a" "root s = 0xC0015000" "inode_list s = 0xC0017000"
    by (rule kern16_started) blast
  have "tables_in s (map_of image_blocks)"
    using s(1) by (simp add: io_args_def tables_in_def s(2-4,6,7)) (simp add: image_blocks_def)
  with s(2,5,6) show thesis by (rule_tac that)
qed

theorem fat_tables_loaded_witness:
  "\<exists>s :: kern_state. fat s = 0xC0014000 \<and> (fat12_init s = Some (Inl (Bug ''memory alloc failed'')) \<or>
    (\<exists>t. fat12_init s = Some (Inr t) \<and> mem t 0xC0014003 = 3 \<and> mem t 0xC0015010 = 16))"
proof -
  obtain s :: kern_state where s: "tables_in s (map_of image_blocks)" "fat s = 0xC0014000" "root s = 0xC0015000"
    "\<forall>a<1474560. disk s a = of_nat a" by (rule kern16_tables)
  have "mem t 0xC0014003 = 3 \<and> mem t 0xC0015010 = 16" if "tables_at (fat s) (root s) (disk s) (mem t)" for t :: kern_state
  proof -
    have "mem t (0xC0014000 + of_nat 3) = disk s (512 + 3)" "mem t (0xC0015000 + of_nat 16) = disk s (9728 + 16)"
      using that [unfolded tables_at_def s(2,3), THEN conjunct1, rule_format, of 3]
        that [unfolded tables_at_def s(2,3), THEN conjunct2, rule_format, of 16] by simp_all
    then show ?thesis using s(4) by simp
  qed
  with fat_tables_loaded [OF s(1)] s(2) show ?thesis by (intro exI [of _ s]) blast
qed

theorem fat_tables_synced_witness:
  "\<exists>s :: kern_state. fat s = 0xC0014000 \<and> (fat12_set_info FAT12_INFO_SYC s = Some (Inl (Bug ''memory alloc failed'')) \<or>
    (\<exists>t. fat12_set_info FAT12_INFO_SYC s = Some (Inr t) \<and> disk t 515 = mem s 0xC0014003 \<and> disk t 511 = 255))"
proof -
  obtain s :: kern_state where s: "tables_in s (map_of image_blocks)" "fat s = 0xC0014000" "root s = 0xC0015000"
    "\<forall>a<1474560. disk s a = of_nat a" by (rule kern16_tables)
  have "disk t 515 = mem s 0xC0014003" if "tables_at (fat s) (root s) (disk t) (mem s)" for t :: kern_state
  proof -
    have "mem s (0xC0014000 + of_nat 3) = disk t (512 + 3)" using that [unfolded tables_at_def s(2), THEN conjunct1, rule_format, of 3] by simp
    then show ?thesis by simp
  qed
  moreover have "disk t 511 = 255" if "\<forall>a<1474560. a \<notin> {512..<4608} \<union> {9728..<16896} \<longrightarrow> disk t a = disk s a" for t :: kern_state
    using that [rule_format, of 511] s(4) by simp
  ultimately show ?thesis using fat_tables_synced [OF s(1)] s(2) by (intro exI [of _ s]) blast
qed

end
