(* ===== verification/Boot.thy ===== *)
theory Boot
  imports FatTables Interrupts Setup Console
begin

text \<open>
  The start of the kernel, \<open>main\<close> of \<open>kernel/main.c\<close>: the memory management, the interrupt table, the disk
  cache and the file system one after the other on one machine, and then the first processes and the console.
\<close>

section \<open>The start\<close>

text \<open>\<open>idt\<close> is the address of the interrupt table and \<open>ent\<close> that of each entry point.\<close>

definition main_files :: "addr \<Rightarrow> (handler \<Rightarrow> addr) \<Rightarrow> 'a fat_state_scheme \<Rightarrow> (fault + 'a fat_state_scheme) option" where
  "main_files idt ent s =
     bindR (mm_init (get_boot_info (mem s)) s) (\<lambda>s.
       let s = intr_init idt ent s;
           s = except_init idt ent s;
           s = disk_buffer_init s
       in fat12_init s)"

text \<open>
  The console has its globals in a record of its own, \<open>c\<close>, and works on the same memory and ports. The four
  strings of \<open>proc_init\<close> are given by their addresses. This is the state in which the first process starts.
\<close>

definition main ::
  "addr \<Rightarrow> (handler \<Rightarrow> addr) \<Rightarrow> addr \<Rightarrow> addr \<Rightarrow> addr \<Rightarrow> addr \<Rightarrow> 'b con_state_scheme \<Rightarrow> 'a kern_state_scheme \<Rightarrow>
    (fault + 'b con_state_scheme \<times> 'a kern_state_scheme) option" where
  "main idt ent idle_str IDLE_str proc1_str TEST_str c s =
     bindR (main_files idt ent s) (\<lambda>s.
     bindR (proc_init idle_str IDLE_str proc1_str TEST_str s) (\<lambda>s.
       let c = con_init (c\<lparr>mem := mem s, io := io s, dev := dev s\<rparr>);
           s = s\<lparr>mem := mem c, io := io c\<rparr>
       in Some (Inr (c, switch_to_user s))))"

section \<open>The pieces\<close>

lemma set_idt_entry_frame: "\<exists>m. set_idt_entry idt n g s = s\<lparr>mem := m\<rparr>"
  by (auto simp: set_idt_entry_def Let_def)

lemma set_gates_frame: "\<exists>m. set_gates idt ent gs s = s\<lparr>mem := m\<rparr>"
proof (induction gs arbitrary: s)
  case Nil
  show ?case by (intro exI [of _ "mem s"]) (simp add: set_gates_def)
next
  case (Cons g gs)
  obtain n f h where g: "g = (n, f, h)" by (cases g)
  obtain m where m: "set_idt_entry idt (of_nat n) \<lparr>gd_flags = f, gd_handler = ent h\<rparr> s = s\<lparr>mem := m\<rparr>"
    using set_idt_entry_frame by blast
  obtain m' where "set_gates idt ent gs (s\<lparr>mem := m\<rparr>) = s\<lparr>mem := m\<rparr>\<lparr>mem := m'\<rparr>" using Cons.IH by blast
  then show ?case using m by (auto simp: set_gates_def g)
qed

lemma idt_frame:
  obtains m i where "except_init idt ent (intr_init idt ent s) = s\<lparr>io := i, mem := m\<rparr>"
    "\<forall>x. x \<notin> region idt 2048 \<longrightarrow> m x = mem s x"
proof -
  obtain i where i: "mask_irq 0x43 s = s\<lparr>io := i\<rparr>" by (simp add: mask_irq_def outb_def emit_def Let_def)
  obtain m where m: "set_gates idt ent (intr_gates @ except_gates) (s\<lparr>io := i\<rparr>) = s\<lparr>io := i\<rparr>\<lparr>mem := m\<rparr>"
    using set_gates_frame by blast
  have e: "except_init idt ent (intr_init idt ent s) = s\<lparr>io := i, mem := m\<rparr>"
    using m unfolding except_init_gates intr_init_gates set_gates_append i by simp
  have "m x = mem s x" if "x \<notin> region idt 2048" for x
    using conjunct2 [OF idt_installed [OF refl, of idt ent s]] that unfolding e by simp
  then show thesis using that e by blast
qed

lemma disk_boot_write:
  assumes B: "disk_boot s L" and m: "\<And>y. (\<And>q l. L q = Some l \<Longrightarrow> y \<notin> region q l) \<Longrightarrow> m y = mem s y"
  shows "disk_boot (s\<lparr>io := i, mem := m\<rparr>) L"
proof -
  have "pool_inv (s\<lparr>io := i\<rparr>) L" by (rule heap_same_io(1)) (use B in \<open>simp add: disk_boot_def\<close>)
  then have "pool_inv (s\<lparr>io := i\<rparr>\<lparr>mem := m\<rparr>) L" by (rule pool_write) (simp add: m)
  then show ?thesis using B by (simp add: disk_boot_def)
qed

lemma mapped_cong:
  assumes "mapped d t j m" "\<And>y. y \<in> region d (4 * j) \<union> region t (4096 * j) \<Longrightarrow> m' y = m y" "4096 * j < 2 ^ 32"
  shows "mapped d t j m'"
proof -
  have "ld32 m' (d + of_nat (4 * i)) = ld32 m (d + of_nat (4 * i))" if i: "i < j" for i
  proof (rule ld32_cong)
    have "region (d + of_nat (4 * i)) 4 \<subseteq> region d (4 * j)"
      using i assms(3) by (intro region_offset_subset) (simp add: unat_of_nat_32 del: of_nat_mult)
    then show "x \<in> region (d + of_nat (4 * i)) 4 \<Longrightarrow> m' x = m x" for x using assms(2) by blast
  qed
  moreover have "ld32 m' (t + of_nat (4096 * i) + of_nat (4 * k)) = ld32 m (t + of_nat (4096 * i) + of_nat (4 * k))"
    if i: "i < j" and k: "k < 1024" for i k
  proof (rule ld32_cong)
    have e: "t + of_nat (4096 * i) + of_nat (4 * k) = t + of_nat (4096 * i + 4 * k)" by (simp only: of_nat_add add.assoc)
    have l: "4096 * i + 4 * k + 4 \<le> 4096 * j" using i k by linarith
    then have "unat (of_nat (4096 * i + 4 * k) :: u32) = 4096 * i + 4 * k" using assms(3) by (intro unat_of_nat_32) linarith
    then have "region (t + of_nat (4096 * i + 4 * k)) 4 \<subseteq> region t (4096 * j)"
      using l by (intro region_offset_subset) simp
    then show "x \<in> region (t + of_nat (4096 * i) + of_nat (4 * k)) 4 \<Longrightarrow> m' x = m x" for x unfolding e using assms(2) by blast
  qed
  ultimately show ?thesis using assms(1) unfolding mapped_def by simp
qed

section \<open>The machine before the start\<close>

text \<open>The 24 gates that the kernel sets, as the processor reads them.\<close>

definition gates_ok :: "addr \<Rightarrow> (handler \<Rightarrow> addr) \<Rightarrow> memory \<Rightarrow> bool" where
  "gates_ok idt ent m \<longleftrightarrow> (\<forall>(n, f, h)\<in>set (intr_gates @ except_gates). gate_at m (idt + of_nat n * 8) =
     \<lparr>g_offset = ent h, g_sel = KCODE_SEL, g_dpl = (if h = syscall then 3 else 0), g_present = True,
      g_type = (if n < 20 then 0x0F else 0x0E)\<rparr>)"

lemma gate_region: "(n, f, h) \<in> set (intr_gates @ except_gates) \<Longrightarrow> region (idt + of_nat n * 8) 8 \<subseteq> region idt 2048"
proof -
  assume "(n, f, h) \<in> set (intr_gates @ except_gates)"
  then have n: "n < 256" by (auto simp: intr_gates_def except_gates_def)
  have "region (idt + of_nat (8 * n)) 8 \<subseteq> region idt 2048"
    using n by (intro region_offset_subset) (simp add: unat_of_nat_32 del: of_nat_mult)
  then show ?thesis by (simp add: mult.commute)
qed

lemma gates_ok_cong:
  assumes "gates_ok idt ent m" "\<And>y. y \<in> region idt 2048 \<Longrightarrow> m' y = m y"
  shows "gates_ok idt ent m'"
proof -
  have "gate_at m' (idt + of_nat n * 8) = gate_at m (idt + of_nat n * 8)" if "(n, f, h) \<in> set (intr_gates @ except_gates)" for n f h
    using gate_region [OF that, of idt] assms(2) by (intro gate_cong) blast
  then show ?thesis using assms(1) unfolding gates_ok_def by fastforce
qed

text \<open>
  The image of the kernel: the tables of the allocators fit behind it and leave a page, and the variables and
  tables that the start fills lie apart in it, the page tables behind it. \<open>L\<close> gives the size of each.
\<close>

definition kernel_image :: "addr \<Rightarrow> u32 \<Rightarrow> 'a fat_state_scheme \<Rightarrow> (addr \<rightharpoonup> nat) \<Rightarrow> bool" where
  "kernel_image idt page_cnt s L \<longleftrightarrow>
     image_ok page_cnt s \<and> boot_ok page_cnt (mapped_state page_cnt s) \<and>
     first_page page_cnt (mapped_state page_cnt s) < unat page_cnt \<and> malloc_list s = 0 \<and>
     image_has s (img_end (mapped_state page_cnt s)) L \<and> dma_reach (dma_buffer s) \<and> device_ok (dma s) \<and>
     L (db_head s) = Some 104 \<and> L (dma_buffer s) = Some 1024 \<and> L (fat s) = Some 4096 \<and> L (root s) = Some 7168 \<and>
     L (inode_list s) = Some 8 \<and> L idt = Some 2048 \<and> L (kpagedir s) = Some 4096 \<and>
     L (PAGE_ALIGN (img_end_sym s)) = Some (4096 * tables_for page_cnt) \<and>
     distinct [fat s, root s, inode_list s, db_head s, dma_buffer s, idt, kpagedir s, PAGE_ALIGN (img_end_sym s)]"

text \<open>The memory management, with the page tables it leaves.\<close>

lemma mm_start:
  fixes s :: "'a fat_state_scheme"
  assumes K: "kernel_image idt page_cnt s L"
  obtains m e c1 a b c2 l where "map_all_memory page_cnt s \<noteq> None"
    "kmalloc_init (buddy_system_init page_cnt (the (map_all_memory page_cnt s))) = Inr (s\<lparr>mem := m, img_end := e, page_count := c1,
      mem_map := a, mem_map_end := b, free_page_count := c2, malloc_list := l\<rparr>)"
    "disk_boot (s\<lparr>mem := m, img_end := e, page_count := c1, mem_map := a, mem_map_end := b, free_page_count := c2, malloc_list := l\<rparr>) L"
    "mapped (kpagedir s + 0xc04) (PAGE_ALIGN (img_end_sym s)) (tables_for page_cnt) m"
proof -
  let ?t = "PAGE_ALIGN (img_end_sym s)" and ?d = "kpagedir s + 0xc04" and ?n = "tables_for page_cnt"
  have I: "image_ok page_cnt s" using K by (simp add: kernel_image_def)
  note M = map_all_memory_ok [OF I]
  obtain m0 where m0: "map_all_memory page_cnt s = Some (s\<lparr>mem := m0, img_end := ?t + of_nat (4096 * ?n)\<rparr>)" "mapped ?d ?t ?n m0"
    using M(1) by blast
  let ?s = "s\<lparr>mem := m0\<rparr>"
  have t: "the (map_all_memory page_cnt s) = mapped_state page_cnt ?s" unfolding m0(1) by (simp add: mapped_state_def)
  have k: "boot_ok page_cnt (mapped_state page_cnt ?s)" "first_page page_cnt (mapped_state page_cnt ?s) < unat page_cnt" "malloc_list ?s = 0"
    "image_has ?s (img_end (mapped_state page_cnt ?s)) L" "L (db_head ?s) = Some 104" "L (dma_buffer ?s) = Some 1024"
    "dma_reach (dma_buffer ?s)" "device_ok (dma ?s)" and Lt: "L (kpagedir s) = Some 4096" "L ?t = Some (4096 * ?n)"
    using K by (simp_all add: kernel_image_def boot_ok_def mapped_state_def first_page_def tables_end_def image_has_def)
  obtain m c1 a b e c2 l where s: "kmalloc_init (buddy_system_init page_cnt (mapped_state page_cnt ?s)) = Inr (?s\<lparr>mem := m, img_end := e,
      page_count := c1, mem_map := a, mem_map_end := b, free_page_count := c2, malloc_list := l\<rparr>)"
    "disk_boot (?s\<lparr>mem := m, img_end := e, page_count := c1, mem_map := a, mem_map_end := b, free_page_count := c2, malloc_list := l\<rparr>) L"
    "\<forall>p n. L p = Some n \<longrightarrow> (\<forall>y\<in>region p n. m y = mem ?s y)"
    by (rule image_started [OF k])
  have "mapped ?d ?t ?n m"
  proof (rule mapped_cong [OF m0(2)])
    have "region ?d (4 * ?n) \<subseteq> region (kpagedir s) 4096" using M(5) by (intro region_offset_subset) simp
    then show "m y = m0 y" if "y \<in> region ?d (4 * ?n) \<union> region ?t (4096 * ?n)" for y using that s(3) Lt by auto
    show "4096 * ?n < 2 ^ 32" using M(5) by simp
  qed
  moreover have "map_all_memory page_cnt s \<noteq> None" using m0(1) by simp
  ultimately show thesis using that s(1,2) unfolding t by simp
qed

lemma disk_frame_pd: "disk_frame s t \<Longrightarrow> kpagedir t = kpagedir s"
proof -
  assume "disk_frame s t"
  then obtain m i c l d where "t = s\<lparr>mem := m, io := i, free_page_count := c, malloc_list := l, disk := d\<rparr>"
    unfolding disk_frame_def by blast
  then show ?thesis by simp
qed

text \<open>The rest of the start, on a machine whose memory management runs.\<close>

lemma files_start:
  fixes s :: "'a fat_state_scheme" and idt :: addr and ent :: "handler \<Rightarrow> addr"
  assumes B: "disk_boot s L" and L: "L (fat s) = Some 4096" "L (root s) = Some 7168" "L (inode_list s) = Some 8" "L idt = Some 2048"
    and d: "distinct [fat s, root s, inode_list s, db_head s, dma_buffer s, idt]"
  defines "u \<equiv> disk_buffer_init (except_init idt ent (intr_init idt ent s))"
  obtains V where "cache_view u L V Map.empty" "disk_frame s u" "tables_in u L" "\<forall>a<1474560. disk u a = disk s a"
    "\<forall>y\<in>client_bytes s L (\<lambda>_. []). y \<notin> region idt 2048 \<longrightarrow> mem u y = mem s y"
    "gates_ok idt ent (mem u)"
proof -
  obtain m i where m: "except_init idt ent (intr_init idt ent s) = s\<lparr>io := i, mem := m\<rparr>" "\<forall>x. x \<notin> region idt 2048 \<longrightarrow> m x = mem s x"
    by (rule idt_frame)
  let ?t = "s\<lparr>io := i, mem := m\<rparr>"
  have u: "u = disk_buffer_init ?t" by (simp add: u_def m(1))
  have B': "disk_boot ?t L" by (rule disk_boot_write [OF B]) (use m(2) L(4) in blast)
  have V: "cache_view u L (\<lambda>b k. disk ?t (4096 * b + k)) Map.empty"
    unfolding u by (rule run_cache_view [OF cache_run.start B'])
  note S = cache_start [OF B' [unfolded disk_boot_def, THEN conjunct1]]
  have st: "disk_frame ?t u" "\<And>y. y \<in> client_bytes ?t L (\<lambda>_. []) \<Longrightarrow> mem u y = m y"
    using S(2,3) B' unfolding disk_boot_def u by simp_all
  have fr: "disk_frame s u" by (rule disk_frame_trans [OF disk_frame_updates(3) st(1)])
  have c: "client_bytes ?t L (\<lambda>_. []) = client_bytes s L (\<lambda>_. [])" by (rule client_frame [OF disk_frame_updates(3)])
  have T: "tables_in u L"
    using V L d disk_frame_fat [OF fr] disk_frameD(1,2) [OF fr] unfolding tables_in_def cache_idle_def by auto
  have D: "disk u a = disk s a" if "a < 1474560" for a
    using view_disk [OF V, of "a div 4096" "a mod 4096"] that by simp
  have I: "region idt 2048 \<subseteq> client_bytes s L (\<lambda>_. [])" by (rule client_block [of L idt, OF L(4)]) (use d in auto)
  have out: "mem u y = mem s y" if "y \<in> client_bytes s L (\<lambda>_. [])" "y \<notin> region idt 2048" for y
    using st(2) [unfolded c, OF that(1)] m(2) that(2) by simp
  have "gates_ok idt ent m" using conjunct1 [OF idt_installed [OF m(1) [symmetric]]] unfolding gates_ok_def by simp
  then have G: "gates_ok idt ent (mem u)" by (rule gates_ok_cong) (use I st(2) in \<open>unfold c, blast\<close>)
  show thesis
  proof (rule that [OF V fr T])
    show "\<forall>a<1474560. disk u a = disk s a" using D by blast
    show "\<forall>y\<in>client_bytes s L (\<lambda>_. []). y \<notin> region idt 2048 \<longrightarrow> mem u y = mem s y" using out by blast
    show "gates_ok idt ent (mem u)" by (rule G)
  qed
qed

lemma tables_start:
  fixes s :: "'a fat_state_scheme" and idt :: addr and ent :: "handler \<Rightarrow> addr"
  assumes B: "disk_boot s L" and L: "L (fat s) = Some 4096" "L (root s) = Some 7168" "L (inode_list s) = Some 8" "L idt = Some 2048"
    and d: "distinct [fat s, root s, inode_list s, db_head s, dma_buffer s, idt]"
  defines "u \<equiv> disk_buffer_init (except_init idt ent (intr_init idt ent s))"
  shows "fat12_init u = Some (Inl (Bug ''memory alloc failed'')) \<or>
    (\<exists>t. fat12_init u = Some (Inr t) \<and> kpagedir t = kpagedir s \<and> gates_ok idt ent (mem t) \<and>
      tables_at (fat s) (root s) (disk s) (mem t) \<and> dll (mem t) (inode_list s) [] \<and>
      (\<forall>a<1474560. disk t a = disk s a) \<and> cache_idle t L \<and>
      (\<forall>q n y. L q = Some n \<longrightarrow> q \<notin> {db_head s, dma_buffer s, fat s, root s, inode_list s, idt} \<longrightarrow> y \<in> region q n \<longrightarrow> mem t y = mem s y))"
proof -
  obtain V where u: "cache_view u L V Map.empty" "disk_frame s u" "tables_in u L" "\<forall>a<1474560. disk u a = disk s a"
    "\<forall>y\<in>client_bytes s L (\<lambda>_. []). y \<notin> region idt 2048 \<longrightarrow> mem u y = mem s y" "gates_ok idt ent (mem u)"
    by (rule files_start [OF assms(1-6), of ent, folded u_def])
  note F = disk_frame_fat [OF u(2)] and cl = client_frame [OF u(2), of L]
  from init_loaded [OF u(3)] show ?thesis
  proof (elim disjE exE conjE)
    fix t assume t: "fat12_init u = Some (Inr t)" "disk_frame u t" "tables_at (fat u) (root u) (disk u) (mem t)"
      "dll (mem t) (inode_list u) []"
      "\<forall>y\<in>client_bytes u L (\<lambda>_. []). y \<notin> region (fat u) 4096 \<union> region (root u) 7168 \<union> region (inode_list u) 8 \<longrightarrow> mem t y = mem u y"
      "\<forall>a<1474560. disk t a = disk u a" "cache_idle t L"
    have keep: "mem t y = mem u y \<and> y \<in> client_bytes s L (\<lambda>_. [])"
      if "L q = Some n" "q \<notin> {db_head s, dma_buffer s, fat s, root s, inode_list s}" "y \<in> region q n" for q n y
    proof -
      have c: "y \<in> client_bytes s L (\<lambda>_. [])" using client_block [of L q n s, OF that(1)] that(2,3) by auto
      have "y \<notin> region (fat s) 4096 \<union> region (root s) 7168 \<union> region (inode_list s) 8"
        using view_blocks [OF u(1) that(1)] L(1-3) that(2,3) by blast
      then show ?thesis using t(5) c unfolding F cl by blast
    qed
    have "mem t y = mem s y" if "L q = Some n" "q \<notin> {db_head s, dma_buffer s, fat s, root s, inode_list s, idt}" "y \<in> region q n" for q n y
      using keep [OF that(1) _ that(3)] u(5) view_blocks [OF u(1) that(1) L(4)] that(2,3) by auto
    moreover have "gates_ok idt ent (mem t)" by (rule gates_ok_cong [OF u(6)]) (use keep [OF L(4)] d in auto)
    moreover have "tables_at (fat s) (root s) (disk s) (mem t)" using t(3) u(4) unfolding F tables_at_def by simp
    moreover have "\<forall>a<1474560. disk t a = disk s a" using t(6) u(4) by simp
    ultimately show ?thesis using t(1,4,7) disk_frame_pd [OF disk_frame_trans [OF u(2) t(2)]] unfolding F by blast
  qed simp
qed

section \<open>Properties\<close>

text \<open>
  C3. The kernel starts: from an image that fits, \<open>main\<close> gets through the memory management, the interrupt table,
  the disk cache and the file system, or stops with the out-of-memory \<open>BUG\<close>. Behind it all physical
  memory from 4 MB on is still mapped at \<open>KVM_BASE\<close>, all 24 gates of the interrupt table lead to their handlers, the
  table of clusters and the root directory are those of the disk, no inode is in use, no byte of the disk
  has changed, and the heap and the disk cache are in order: no part has damaged what another set up.
\<close>

theorem kernel_starts:
  fixes s :: "'a fat_state_scheme"
  assumes "kernel_image idt page_cnt s L" "page_cnt = drop_bit 2 (get_boot_info (mem s))"
  shows "main_files idt ent s = Some (Inl (Bug ''memory alloc failed'')) \<or>
    (\<exists>t. main_files idt ent s = Some (Inr t) \<and>
      (\<forall>a. 0x400000 \<le> unat a \<and> unat a < unat page_cnt * 4096 \<longrightarrow> translate (mem t) (kpagedir t) (a + KVM_BASE) = Some a) \<and>
      gates_ok idt ent (mem t) \<and> tables_at (fat s) (root s) (disk s) (mem t) \<and> dll (mem t) (inode_list s) [] \<and>
      (\<forall>a<1474560. disk t a = disk s a) \<and> cache_idle t L)"
proof -
  let ?t = "PAGE_ALIGN (img_end_sym s)" and ?d = "kpagedir s + 0xc04" and ?n = "tables_for page_cnt"
  have I: "image_ok page_cnt s" and L: "L (fat s) = Some 4096" "L (root s) = Some 7168" "L (inode_list s) = Some 8" "L idt = Some 2048"
    "L (kpagedir s) = Some 4096" "L ?t = Some (4096 * ?n)"
    and d: "distinct [fat s, root s, inode_list s, db_head s, dma_buffer s, idt, kpagedir s, ?t]"
    using assms(1) by (simp_all add: kernel_image_def)
  note M = map_all_memory_ok [OF I]
  obtain m e c1 a b c2 l where mm: "map_all_memory page_cnt s \<noteq> None"
    "kmalloc_init (buddy_system_init page_cnt (the (map_all_memory page_cnt s))) = Inr (s\<lparr>mem := m, img_end := e, page_count := c1,
      mem_map := a, mem_map_end := b, free_page_count := c2, malloc_list := l\<rparr>)"
    "disk_boot (s\<lparr>mem := m, img_end := e, page_count := c1, mem_map := a, mem_map_end := b, free_page_count := c2, malloc_list := l\<rparr>) L"
    "mapped ?d ?t ?n m" by (rule mm_start [OF assms(1)])
  define s2 where "s2 = s\<lparr>mem := m, img_end := e, page_count := c1, mem_map := a, mem_map_end := b, free_page_count := c2, malloc_list := l\<rparr>"
  have g: "fat s2 = fat s" "root s2 = root s" "inode_list s2 = inode_list s" "db_head s2 = db_head s" "dma_buffer s2 = dma_buffer s"
    "disk s2 = disk s" "kpagedir s2 = kpagedir s" "mem s2 = m" by (simp_all add: s2_def)
  have mi: "mm_init (get_boot_info (mem s)) s = Some (Inr s2)"
    using mm(1,2) unfolding mm_init_def assms(2) s2_def by (auto simp: Let_def)
  have L2: "L (fat s2) = Some 4096" "L (root s2) = Some 7168" "L (inode_list s2) = Some 8" "L idt = Some 2048"
    "distinct [fat s2, root s2, inode_list s2, db_head s2, dma_buffer s2, idt]" unfolding g using L d by simp_all
  have go: "main_files idt ent s = fat12_init (disk_buffer_init (except_init idt ent (intr_init idt ent s2)))"
    unfolding main_files_def mi by (simp add: Let_def)
  have tr: "\<forall>a. 0x400000 \<le> unat a \<and> unat a < unat page_cnt * 4096 \<longrightarrow> translate m' (kpagedir s) (a + KVM_BASE) = Some a"
    if "\<forall>q n y. L q = Some n \<longrightarrow> q \<notin> {db_head s, dma_buffer s, fat s, root s, inode_list s, idt} \<longrightarrow> y \<in> region q n \<longrightarrow> m' y = m y" for m'
  proof -
    have "mapped ?d ?t ?n m'"
    proof (rule mapped_cong [OF mm(4)])
      have "region ?d (4 * ?n) \<subseteq> region (kpagedir s) 4096" using M(5) by (intro region_offset_subset) simp
      then show "m' y = m y" if "y \<in> region ?d (4 * ?n) \<union> region ?t (4096 * ?n)" for y
        using that \<open>\<forall>q n y. _\<close> L(5,6) d by auto
      show "4096 * ?n < 2 ^ 32" using M(5) by simp
    qed
    from mapped_translate [OF this M(4,3)] show ?thesis using I by (simp add: image_ok_def)
  qed
  from tables_start [OF mm(3) [folded s2_def] L2, of ent, unfolded g, folded go] show ?thesis
  proof (elim disjE exE conjE)
    fix t assume t: "main_files idt ent s = Some (Inr t)"
      "kpagedir t = kpagedir s" "gates_ok idt ent (mem t)" "tables_at (fat s) (root s) (disk s) (mem t)" "dll (mem t) (inode_list s) []"
      "\<forall>a<1474560. disk t a = disk s a" "cache_idle t L"
      "\<forall>q n y. L q = Some n \<longrightarrow> q \<notin> {db_head s, dma_buffer s, fat s, root s, inode_list s, idt} \<longrightarrow> y \<in> region q n \<longrightarrow> mem t y = m y"
    show ?thesis by (rule disjI2, rule exI [of _ t], unfold t(2), intro conjI t(1,3-7) tr [OF t(8)])
  qed (rule disjI1)
qed

text \<open>The 16 MB machine, which finds its memory size at \<open>0x9000\<close>.\<close>

lemma kern16_image: "kernel_image 0xC001B000 4096 kern16 (map_of image_blocks)"
proof -
  have "image_ok 4096 kern16" by (simp add: image_ok_def kern16_def kern0_def tables_for_def)
  moreover have "PAGE_ALIGN (img_end_sym kern16) = 0xC0020000" by (simp add: kern16_def kern0_def ALIGN_def)
  moreover have "dma_reach (dma_buffer kern16)" "device_ok (dma kern16)" "malloc_list kern16 = 0"
    using floppy_disk_ok by (simp_all add: kern16_def kern0_def dma_reach_def pa_def)
  ultimately show ?thesis
    unfolding kernel_image_def using kern16_ok(1,2) image16 by (simp add: image_blocks_def kern16_def kern0_def tables_for_def)
qed

theorem kernel_starts_witness:
  "main_files 0xC001B000 (\<lambda>_. 0xC0000100) kern16 = Some (Inl (Bug ''memory alloc failed'')) \<or>
    (\<exists>t. main_files 0xC001B000 (\<lambda>_. 0xC0000100) kern16 = Some (Inr t) \<and>
      translate (mem t) (kpagedir t) (0x876543 + KVM_BASE) = Some 0x876543 \<and> mem t 0xC0014003 = 3)"
proof -
  have n: "4096 = drop_bit 2 (get_boot_info (mem kern16))" by (simp add: get_boot_info_def kern16_def ld32_st32_same)
  have t: "mem t 0xC0014003 = 3" if "tables_at (fat kern16) (root kern16) (disk kern16) (mem t)" for t :: kern_state
    using that [unfolded tables_at_def, THEN conjunct1, rule_format, of 3] by (simp add: kern16_def kern0_def)
  from kernel_starts [OF kern16_image n, of "\<lambda>_. 0xC0000100"] show ?thesis
  proof (elim disjE exE conjE)
    fix t assume a: "main_files 0xC001B000 (\<lambda>_. 0xC0000100) kern16 = Some (Inr t)"
      "\<forall>a. 0x400000 \<le> unat a \<and> unat a < unat (4096 :: u32) * 4096 \<longrightarrow> translate (mem t) (kpagedir t) (a + KVM_BASE) = Some a"
      "tables_at (fat kern16) (root kern16) (disk kern16) (mem t)"
    have "translate (mem t) (kpagedir t) (0x876543 + KVM_BASE) = Some 0x876543" by (rule a(2) [rule_format]) simp
    then show ?thesis using a(1) t [OF a(3)] by blast
  qed simp
qed

end
