(* ===== verification/VmProps.thy ===== *)
theory VmProps
  imports Vm FileProps
begin

text \<open>
  The list of areas of a process: the search for a gap and the insertion of an area, against lists of areas.
\<close>

section \<open>Lists of areas\<close>

text \<open>An area is the address of its structure, its first and its last address.\<close>

type_synonym varea = "addr \<times> u32 \<times> u32"

abbreviation va_start :: "varea \<Rightarrow> u32" where "va_start v \<equiv> fst (snd v)"
abbreviation va_end :: "varea \<Rightarrow> u32" where "va_end v \<equiv> snd (snd v)"

primrec vma_seg :: "memory \<Rightarrow> addr \<Rightarrow> varea list \<Rightarrow> addr \<Rightarrow> bool" where
  "vma_seg m a [] b \<longleftrightarrow> a = b"
| "vma_seg m a (v # vs) b \<longleftrightarrow> a = fst v \<and> a \<noteq> 0 \<and> ld32 m (vma_start a) = va_start v \<and> ld32 m (vma_end a) = va_end v \<and>
     vma_seg m (ld32 m (vma_next a)) vs b"

text \<open>Sorted, without an overlap, from the address \<open>lo\<close> on.\<close>

primrec areas_from :: "nat \<Rightarrow> varea list \<Rightarrow> bool" where
  "areas_from lo [] \<longleftrightarrow> True"
| "areas_from lo (v # vs) \<longleftrightarrow> lo \<le> unat (va_start v) \<and> va_start v \<le> va_end v \<and> areas_from (unat (va_end v) + 1) vs"

text \<open>The first gap of \<open>sz\<close> bytes: its address, the areas before it and those behind it.\<close>

fun first_gap :: "nat \<Rightarrow> nat \<Rightarrow> varea list \<Rightarrow> nat \<times> varea list \<times> varea list" where
  "first_gap lo sz [] = (lo, [], [])"
| "first_gap lo sz (v # vs) =
     (if lo + sz \<le> unat (va_start v) then (lo, [], v # vs)
      else case first_gap (unat (va_end v) + 1) sz vs of (g, ps, qs) \<Rightarrow> (g, v # ps, qs))"

lemma first_gap_split: "first_gap lo sz vs = (g, ps, qs) \<Longrightarrow> vs = ps @ qs"
  by (induction lo sz vs arbitrary: g ps rule: first_gap.induct) (auto split: if_splits prod.splits)

text \<open>The new area fits between its neighbours.\<close>

lemma first_gap_areas:
  assumes "first_gap lo sz vs = (g, ps, qs)" "areas_from lo vs" "unat s = g" "unat e = g + sz - 1" "0 < sz"
  shows "areas_from lo (ps @ (a, s, e) # qs)"
  using assms
proof (induction lo sz vs arbitrary: g ps rule: first_gap.induct)
  case (1 lo sz)
  then show ?case by (auto simp: word_le_nat_alt)
next
  case (2 lo sz v vs)
  show ?case
  proof (cases "lo + sz \<le> unat (va_start v)")
    case True
    then show ?thesis using 2 by (auto simp: word_le_nat_alt)
  next
    case False
    then show ?thesis using 2 by (auto split: prod.splits)
  qed
qed

lemma first_gap_fits:
  assumes "first_gap lo sz vs = (g, ps, qs)" "lo + sz \<le> b" "\<forall>v\<in>set vs. unat (va_end v) + 1 + sz \<le> b"
  shows "g + sz \<le> b"
  using assms by (induction lo sz vs arbitrary: g ps rule: first_gap.induct) (auto split: if_splits prod.splits)

section \<open>The search\<close>

text \<open>Nothing in the list is behind the last address that still leaves room for \<open>sz\<close> bytes.\<close>

lemma find_gap_ok:
  assumes "vma_seg m vma vs 0" "areas_from lo vs" "lo = unat (e + 1)" "lo + unat sz \<le> 2 ^ 32"
    "\<forall>v\<in>set vs. unat (va_end v) + 1 + unat sz \<le> 2 ^ 32" "0 < unat sz" "first_gap lo (unat sz) vs = (g, ps, qs)"
  shows "find_gap m sz vma old e =
    Some (if qs = [] then 0 else fst (hd qs), if ps = [] then old else fst (last ps), if ps = [] then e else va_end (last ps)) \<and>
    unat ((if ps = [] then e else va_end (last ps)) + 1) = g"
  using assms
proof (induction vs arbitrary: vma old e lo g ps)
  case Nil
  then show ?case by (subst find_gap.simps) simp
next
  case (Cons v vs)
  have v: "vma = fst v" "vma \<noteq> 0" "ld32 m (vma_start vma) = va_start v" "ld32 m (vma_end vma) = va_end v"
    "vma_seg m (ld32 m (vma_next vma)) vs 0" using Cons.prems(1) unfolding vma_seg.simps by blast+
  have lo: "lo \<le> unat (va_start v)" "va_start v \<le> va_end v" "areas_from (unat (va_end v) + 1) vs" using Cons.prems(2) by simp_all
  have se: "unat (va_start v) + 1 < 2 ^ 32" using lo(2) Cons.prems(5,6) by (simp add: word_le_nat_alt)
  have u1: "unat (va_end v + 1) = unat (va_end v) + 1" using Cons.prems(5,6) unat_add_32 [of "va_end v" 1] by simp
  have "unat (va_start v + 1) = unat (va_start v) + 1" using se unat_add_32 [of "va_start v" 1] by simp
  moreover have "va_start v - e = va_start v + 1 - (e + 1)" by simp
  moreover have "e + 1 \<le> va_start v + 1" using calculation(1) lo(1) Cons.prems(3) by (simp add: word_le_nat_alt)
  ultimately have d: "unat (va_start v - e) = unat (va_start v) + 1 - lo" using Cons.prems(3) unat_sub [of "e + 1" "va_start v + 1"] by metis
  have c: "va_start v - e > sz \<longleftrightarrow> lo + unat sz \<le> unat (va_start v)"
    unfolding word_less_nat_alt d using lo(1) by linarith
  show ?case
  proof (cases "lo + unat sz \<le> unat (va_start v)")
    case True
    then have "ps = []" "qs = v # vs" "g = lo" using Cons.prems(7) by simp_all
    then show ?thesis using v c True Cons.prems(3) by (subst find_gap.simps) simp
  next
    case False
    then obtain ps' where p: "first_gap (unat (va_end v) + 1) (unat sz) vs = (g, ps', qs)" "ps = v # ps'"
      using Cons.prems(7) by (auto split: prod.splits)
    have ih: "find_gap m sz (ld32 m (vma_next vma)) vma (va_end v) =
      Some (if qs = [] then 0 else fst (hd qs), if ps' = [] then vma else fst (last ps'), if ps' = [] then va_end v else va_end (last ps')) \<and>
      unat ((if ps' = [] then va_end v else va_end (last ps')) + 1) = g"
      by (rule Cons.IH [OF v(5) lo(3) u1 [symmetric] _ _ Cons.prems(6) p(1)]) (use Cons.prems(5) in simp_all)
    have "find_gap m sz vma old e = find_gap m sz (ld32 m (vma_next vma)) vma (va_end v)"
      using v(2-4) c False by (subst find_gap.simps) simp
    then show ?thesis using ih v(1) p(2) by (cases "ps' = []") simp_all
  qed
qed

section \<open>The insertion\<close>

lemma vma_seg_append: "vma_seg m a (ps @ qs) b \<longleftrightarrow> (\<exists>c. vma_seg m a ps c \<and> vma_seg m c qs b)"
  by (induction ps arbitrary: a) auto

lemma vma_seg_cong:
  assumes "vma_seg m a vs b" "\<And>x y. x \<in> set vs \<Longrightarrow> y \<in> region (fst x) 16 \<Longrightarrow> m' y = m y"
  shows "vma_seg m' a vs b"
  using assms
proof (induction vs arbitrary: a)
  case (Cons v vs)
  have r: "region (a + 4) 4 \<subseteq> region a 16" "region (a + 8) 4 \<subseteq> region a 16" "region (a + 12) 4 \<subseteq> region a 16"
    by (rule region_offset_subset; simp)+
  have a: "a = fst v" and v: "a \<noteq> 0" "ld32 m (vma_start a) = va_start v" "ld32 m (vma_end a) = va_end v" "vma_seg m (ld32 m (vma_next a)) vs b"
    using Cons.prems(1) unfolding vma_seg.simps by blast+
  have "vma_seg m' (ld32 m (vma_next a)) vs b" by (rule Cons.IH [OF v(4)], rule Cons.prems(2)) auto
  moreover have "ld32 m' (a + 4) = ld32 m (a + 4)" "ld32 m' (a + 8) = ld32 m (a + 8)" "ld32 m' (a + 12) = ld32 m (a + 12)"
    using r Cons.prems(2) [of v] a by (auto intro!: ld32_cong)
  ultimately show ?case using v unfolding vma_seg.simps by (simp add: a [symmetric])
qed simp

lemma vma_seg_nonzero: "vma_seg m a vs b \<Longrightarrow> x \<in> set vs \<Longrightarrow> fst x \<noteq> 0"
  by (induction vs arbitrary: a) auto

lemma vma_seg_head: "vma_seg m a vs 0 \<Longrightarrow> a = (if vs = [] then 0 else fst (hd vs))"
  by (cases vs) simp_all

text \<open>The fields of a structure do not overlap.\<close>

lemma vma_fields:
  "region (a + 4) 4 \<inter> region (a + 8) 4 = {}" "region (a + 4) 4 \<inter> region (a + 12) 4 = {}" "region (a + 8) 4 \<inter> region (a + 12) 4 = {}"
  for a :: addr
  by (rule region_apartI; simp)+

lemma link_vma_seg:
  fixes s e :: u32
  assumes seg: "vma_seg m (ld32 m (vm_area_list proc)) (ps @ qs) 0" and v: "v \<noteq> 0"
    and V: "region v 16 \<inter> region (vm_area_list proc) 4 = {}"
    and N: "\<And>x. x \<in> set (ps @ qs) \<Longrightarrow> region (fst x) 16 \<inter> region v 16 = {} \<and> region (fst x) 16 \<inter> region (vm_area_list proc) 4 = {}"
    and P: "\<And>x y. x \<in> set (ps @ qs) \<Longrightarrow> y \<in> set (ps @ qs) \<Longrightarrow> fst x \<noteq> fst y \<Longrightarrow> region (fst x) 16 \<inter> region (fst y) 16 = {}"
    and d: "distinct (map fst (ps @ qs))"
  defines "m' \<equiv> link_vma proc v (if qs = [] then 0 else fst (hd qs)) (if ps = [] then 0 else fst (last ps)) s e m"
  shows "vma_seg m' (ld32 m' (vm_area_list proc)) (ps @ (v, s, e) # qs) 0"
    "y \<notin> region v 16 \<Longrightarrow> y \<notin> region (if ps = [] then vm_area_list proc else vma_next (fst (last ps))) 4 \<Longrightarrow> m' y = m y"
proof -
  let ?h = "vm_area_list proc"
  define w where "w = (if ps = [] then ?h else vma_next (fst (last ps)))"
  define c where "c = (if qs = [] then 0 else fst (hd qs))"
  have fv: "region (v + 4) 4 \<subseteq> region v 16" "region (v + 8) 4 \<subseteq> region v 16" "region (v + 12) 4 \<subseteq> region v 16"
    by (rule region_offset_subset; simp)+
  have "(if ps = [] then 0 else fst (last ps)) = 0 \<longleftrightarrow> ps = []"
    using vma_seg_nonzero [OF seg, of "last ps"] by (cases "ps = []") simp_all
  then have m': "m' = st32 (st32 (st32 (st32 m (v + 4) c) w v) (v + 8) s) (v + 12) e"
    unfolding m'_def link_vma_def c_def w_def by (simp add: Let_def)
  show out: "m' y = m y" if "y \<notin> region v 16" "y \<notin> region w 4" for y
    using that fv unfolding m' by (subst st32_out, blast)+ (rule refl)
  have wsub: "ps \<noteq> [] \<Longrightarrow> region w 4 \<subseteq> region (fst (last ps)) 16" unfolding w_def by (simp add: region_offset_subset)
  have wv: "region w 4 \<inter> region v 16 = {}"
  proof (cases "ps = []")
    case False
    then show ?thesis using wsub N [of "last ps"] by auto
  qed (use V w_def in auto)
  have W: "ld32 m' w = v" unfolding m' using wv fv by (subst ld32_st32_apart, blast)+ (rule ld32_st32_same)
  have F: "ld32 m' (v + 4) = c" "ld32 m' (v + 8) = s" "ld32 m' (v + 12) = e"
  proof -
    show "ld32 m' (v + 12) = e" unfolding m' by (rule ld32_st32_same)
    show "ld32 m' (v + 8) = s" unfolding m' using vma_fields(3) [of v] by (subst ld32_st32_apart, blast) (rule ld32_st32_same)
    have a: "region (v + 4) 4 \<inter> region w 4 = {}" using wv fv(1) by blast
    show "ld32 m' (v + 4) = c"
      unfolding m' ld32_st32_apart [OF vma_fields(2)] ld32_st32_apart [OF vma_fields(1)] ld32_st32_apart [OF a] by (rule ld32_st32_same)
  qed
  obtain c' where c': "vma_seg m (ld32 m ?h) ps c'" "vma_seg m c' qs 0" using seg unfolding vma_seg_append by blast
  have "c' = c" using vma_seg_head [OF c'(2)] by (simp add: c_def)
  have "vma_seg m' c qs 0"
  proof (rule vma_seg_cong [OF c'(2) [unfolded \<open>c' = c\<close>]])
    fix x y assume x: "x \<in> set qs" and y: "y \<in> region (fst x) 16"
    have xin: "x \<in> set (ps @ qs)" using x by simp
    have "region w 4 \<inter> region (fst x) 16 = {}"
    proof (cases "ps = []")
      case True
      then show ?thesis using N [OF xin] by (simp add: w_def Int_commute)
    next
      case False
      have lin: "last ps \<in> set ps" by (rule last_in_set [OF False])
      have "fst (last ps) \<noteq> fst x" using d x lin by force
      then show ?thesis using P [OF _ xin, of "last ps"] lin wsub [OF False] by auto
    qed
    then show "m' y = m y" using N [OF xin] y by (intro out) blast+
  qed
  then have S: "vma_seg m' v ((v, s, e) # qs) 0" using F v by simp
  show "vma_seg m' (ld32 m' ?h) (ps @ (v, s, e) # qs) 0"
  proof (cases "ps = []")
    case True
    then show ?thesis using S W by (simp add: w_def)
  next
    case False
    then obtain ps0 u where ps: "ps = ps0 @ [u]" by (metis append_butlast_last_id)
    have w: "w = vma_next (fst u)" by (simp add: w_def ps)
    have uin: "u \<in> set (ps @ qs)" by (simp add: ps)
    have wu: "region w 4 \<subseteq> region (fst u) 16" using wsub False by (simp add: ps)
    have h: "ld32 m' ?h = ld32 m ?h"
    proof (rule ld32_cong, rule out)
      fix y assume "y \<in> region ?h 4"
      then show "y \<notin> region v 16" "y \<notin> region w 4" using V N [OF uin] wu by blast+
    qed
    obtain a where a: "vma_seg m (ld32 m ?h) ps0 a" "vma_seg m a [u] c'" using c'(1) unfolding ps vma_seg_append by blast
    have "vma_seg m' (ld32 m ?h) ps0 a"
    proof (rule vma_seg_cong [OF a(1)])
      fix x y assume x: "x \<in> set ps0" and y: "y \<in> region (fst x) 16"
      have xin: "x \<in> set (ps @ qs)" using x by (simp add: ps)
      have "fst u \<noteq> fst x" using d x unfolding ps by force
      then show "m' y = m y" using P [OF uin xin] wu N [OF xin] y by (intro out) blast+
    qed
    moreover have "vma_seg m' a [u] v"
    proof -
      have f: "region (fst u + 8) 4 \<subseteq> region (fst u) 16" "region (fst u + 12) 4 \<subseteq> region (fst u) 16" by (rule region_offset_subset; simp)+
      have "m' y = m y" if "y \<in> region (fst u + 8) 4 \<union> region (fst u + 12) 4" for y
        using that N [OF uin] f vma_fields(1,2) [of "fst u"] by (intro out) (unfold w, blast+)
      then have "ld32 m' (fst u + 8) = ld32 m (fst u + 8)" "ld32 m' (fst u + 12) = ld32 m (fst u + 12)"
        by (intro ld32_cong, blast)+
      moreover have "a = fst u" "a \<noteq> 0" "ld32 m (fst u + 8) = va_start u" "ld32 m (fst u + 12) = va_end u"
        using a(2) unfolding vma_seg.simps by blast+
      ultimately show ?thesis using W [unfolded w] by simp
    qed
    ultimately show ?thesis using S unfolding h ps vma_seg_append by auto
  qed
qed

section \<open>Properties\<close>

text \<open>
  The list of a process: sorted areas without an overlap, the process and each area in a block of its own.
\<close>

definition vm_list_ok :: "'a heap_state_scheme \<Rightarrow> (addr \<rightharpoonup> nat) \<Rightarrow> addr \<Rightarrow> varea list \<Rightarrow> bool" where
  "vm_list_ok s L proc vs \<longleftrightarrow> pool_inv s L \<and> vma_seg (mem s) (ld32 (mem s) (vm_area_list proc)) vs 0 \<and> areas_from 0 vs \<and>
     distinct (map fst vs) \<and> (\<exists>n\<ge>8. L proc = Some n) \<and> (\<forall>v\<in>set vs. fst v \<noteq> proc \<and> (\<exists>n\<ge>16. L (fst v) = Some n))"

lemma vm_list_blocks:
  assumes "vm_list_ok s L proc vs"
  shows "\<exists>n. L proc = Some n \<and> region (vm_area_list proc) 4 \<subseteq> region proc n"
    "x \<in> set vs \<Longrightarrow> \<exists>n. L (fst x) = Some n \<and> region (fst x) 16 \<subseteq> region (fst x) n"
proof -
  obtain n where "8 \<le> n" "L proc = Some n" using assms unfolding vm_list_ok_def by blast
  then show "\<exists>n. L proc = Some n \<and> region (vm_area_list proc) 4 \<subseteq> region proc n"
    by (intro exI [of _ n] conjI region_offset_subset) simp_all
  assume "x \<in> set vs"
  then obtain n where "16 \<le> n" "L (fst x) = Some n" using assms unfolding vm_list_ok_def by blast
  then show "\<exists>n. L (fst x) = Some n \<and> region (fst x) 16 \<subseteq> region (fst x) n" using region_mono by blast
qed

lemma vm_list_apart:
  assumes W: "vm_list_ok s L proc vs" and x: "x \<in> set vs"
  shows "region (fst x) 16 \<inter> region (vm_area_list proc) 4 = {}"
    "y \<in> set vs \<Longrightarrow> fst x \<noteq> fst y \<Longrightarrow> region (fst x) 16 \<inter> region (fst y) 16 = {}"
    "L q = Some l \<Longrightarrow> q \<noteq> fst x \<Longrightarrow> region (fst x) 16 \<inter> region q l = {}"
proof -
  have I: "pool_inv s L" and p: "fst x \<noteq> proc" using W x unfolding vm_list_ok_def by blast+
  obtain n where n: "L (fst x) = Some n" "region (fst x) 16 \<subseteq> region (fst x) n" using vm_list_blocks(2) [OF W x] by blast
  obtain k where k: "L proc = Some k" "region (vm_area_list proc) 4 \<subseteq> region proc k" using vm_list_blocks(1) [OF W] by blast
  show o: "region (fst x) 16 \<inter> region q l = {}" if "L q = Some l" "q \<noteq> fst x" for q l
    using pool_inv_apart [OF I n(1) that(1)] that(2) n(2) by blast
  show "region (fst x) 16 \<inter> region (vm_area_list proc) 4 = {}" using o [OF k(1)] p k(2) by blast
  show "region (fst x) 16 \<inter> region (fst y) 16 = {}" if y: "y \<in> set vs" "fst x \<noteq> fst y"
  proof -
    obtain j where j: "L (fst y) = Some j" "region (fst y) 16 \<subseteq> region (fst y) j" using vm_list_blocks(2) [OF W y(1)] by blast
    show ?thesis using o [OF j(1) y(2) [symmetric]] j(2) by blast
  qed
qed

text \<open>
  C17. \<open>insert_free_vma\<close> puts a new area into the first gap of the list that is large enough: it finds the gap of
  the reference definition, the new area fills it from its start, the list stays sorted and without an
  overlap, its structure is a fresh block, and no other block of memory changes; it can only fail with the
  out-of-memory \<open>BUG\<close>. The areas must leave room behind the last one, because the code does not check for an
  end of the address space.
\<close>

theorem insert_free_vma_first_gap:
  fixes s :: "'a heap_state_scheme"
  assumes "vm_list_ok s L proc vs" "0 < unat sz" "\<forall>v\<in>set vs. unat (va_end v) + 1 + unat sz \<le> 2 ^ 32"
    "first_gap 0 (unat sz) vs = (g, ps, qs)"
  shows "insert_free_vma proc sz s = Some (Inl (Bug ''memory alloc failed'')) \<or>
    (\<exists>v t. insert_free_vma proc sz s = Some (Inr (v, t)) \<and> L v = None \<and>
      vm_list_ok t (L(v \<mapsto> 16)) proc (ps @ (v, of_nat g, of_nat (g + unat sz - 1)) # qs) \<and>
      (\<forall>q l y. L q = Some l \<longrightarrow> q \<noteq> proc \<longrightarrow> q \<notin> fst ` set vs \<longrightarrow> y \<in> region q l \<longrightarrow> mem t y = mem s y))"
proof -
  have I: "pool_inv s L" and seg: "vma_seg (mem s) (ld32 (mem s) (vm_area_list proc)) vs 0" and ar: "areas_from 0 vs"
    and di: "distinct (map fst vs)" using assms(1) by (simp_all add: vm_list_ok_def)
  have vs: "vs = ps @ qs" by (rule first_gap_split [OF assms(4)])
  let ?vma = "if qs = [] then 0 else fst (hd qs)" and ?old = "if ps = [] then 0 else fst (last ps)"
  let ?e = "if ps = [] then - 1 else va_end (last ps)"
  have "unat sz < 2 ^ 32" by (rule order.strict_trans2 [OF unsigned_less]) simp
  then have z: "(0 :: nat) = unat (- 1 + 1 :: u32)" "(0 :: nat) + unat sz \<le> 2 ^ 32" by simp_all
  note F = find_gap_ok [OF seg ar z assms(3,2,4), of 0]
  have gb: "g + unat sz \<le> 2 ^ 32" by (rule first_gap_fits [OF assms(4) _ assms(3)]) (use z(2) in simp)
  have e: "?e + 1 = of_nat g" using F by (metis of_nat_unat ucast_id)
  have e2: "?e + sz = of_nat (g + unat sz - 1)"
  proof -
    have "?e + sz = (?e + 1) + sz - 1" by simp
    also have "\<dots> = of_nat (g + unat sz) - 1" unfolding e by simp
    also have "\<dots> = of_nat (g + unat sz - 1)" using assms(2) by (simp add: of_nat_diff)
    finally show ?thesis .
  qed
  have go: "insert_free_vma proc sz s = bindR (kmalloc 16 s) (\<lambda>(vmb, s).
      Some (Inr (vmb, s\<lparr>mem := link_vma proc vmb ?vma ?old (of_nat g) (of_nat (g + unat sz - 1)) (mem s)\<rparr>)))"
    unfolding insert_free_vma_def using F e e2 by simp
  have "small_size 16" by (simp add: small_size_def)
  with I show ?thesis
  proof (cases rule: kmalloc_returns)
    case (ok v t)
    let ?x = "(v, of_nat g, of_nat (g + unat sz - 1)) :: varea"
    let ?m = "link_vma proc v ?vma ?old (of_nat g) (of_nat (g + unat sz - 1)) (mem t)"
    let ?t = "t\<lparr>mem := ?m\<rparr>" and ?L = "L(v \<mapsto> 16)"
    have R: "region v 16 \<inter> region q l = {}" if "L q = Some l" for q l
      using pool_inv_apart [OF ok(2), of v 16 q l] that ok(3) by (cases "q = v") simp_all
    have nl: "v \<noteq> 0" using km.null_not_block [OF ok(2), of v] by simp
    obtain k where k: "L proc = Some k" "region (vm_area_list proc) 4 \<subseteq> region proc k" using vm_list_blocks(1) [OF assms(1)] by blast
    note B = vm_list_blocks(2) [OF assms(1)] and A = vm_list_apart [OF assms(1)]
    have pv: "proc \<noteq> v" and nv: "x \<in> set vs \<Longrightarrow> fst x \<noteq> v" for x using k(1) B [of x] ok(3) by auto
    have h: "ld32 (mem t) (vm_area_list proc) = ld32 (mem s) (vm_area_list proc)" using ok(5) [OF k(1)] k(2) by (intro ld32_cong) blast
    have "vma_seg (mem t) (ld32 (mem t) (vm_area_list proc)) vs 0"
      unfolding h using B ok(5) by (intro vma_seg_cong [OF seg]) blast
    note S = link_vma_seg [OF this [unfolded vs] nl, where s = "of_nat g" and e = "of_nat (g + unat sz - 1)"]
    have l1: "region v 16 \<inter> region (vm_area_list proc) 4 = {}" using R [OF k(1)] k(2) by blast
    have l2: "region (fst x) 16 \<inter> region v 16 = {} \<and> region (fst x) 16 \<inter> region (vm_area_list proc) 4 = {}" if x: "x \<in> set (ps @ qs)" for x
      using A(1) [of x] B [of x] R x unfolding vs by blast
    have l3: "region (fst x) 16 \<inter> region (fst y) 16 = {}" if "x \<in> set (ps @ qs)" "y \<in> set (ps @ qs)" "fst x \<noteq> fst y" for x y
      using A(2) [of x y] that unfolding vs by blast
    note S = S [OF l1 l2 l3 di [unfolded vs]]
    have w: "region (if ps = [] then vm_area_list proc else vma_next (fst (last ps))) 4 \<subseteq>
        (if ps = [] then region (vm_area_list proc) 4 else region (fst (last ps)) 16)" by (simp add: region_offset_subset)
    have out: "?m y = mem t y" if "L q = Some l" "q \<noteq> proc" "q \<notin> fst ` set vs" "y \<in> region q l" for q l y
    proof (rule S(2))
      show "y \<notin> region v 16" using R [OF that(1)] that(4) by blast
      show "y \<notin> region (if ps = [] then vm_area_list proc else vma_next (fst (last ps))) 4"
      proof (cases "ps = []")
        case True
        then show ?thesis using pool_inv_apart [OF I that(1) k(1) that(2)] k(2) that(4) by auto
      next
        case False
        then have "last ps \<in> set vs" unfolding vs by simp
        then show ?thesis using A(3) [of "last ps", OF _ that(1)] that(3,4) w False by auto
      qed
    qed
    have "pool_inv t ?L" using ok(2) by simp
    then have "pool_inv ?t ?L"
    proof (rule pool_write, intro S(2))
      fix y assume y: "\<And>q l. ?L q = Some l \<Longrightarrow> y \<notin> region q l"
      show "y \<notin> region v 16" using y [of v 16] by simp
      show "y \<notin> region (if ps = [] then vm_area_list proc else vma_next (fst (last ps))) 4"
      proof (cases "ps = []")
        case True
        then show ?thesis using y [of proc k] k pv by auto
      next
        case False
        then have "last ps \<in> set vs" unfolding vs by simp
        then obtain n where "L (fst (last ps)) = Some n" "region (fst (last ps)) 16 \<subseteq> region (fst (last ps)) n" "fst (last ps) \<noteq> v"
          using B nv by blast
        then show ?thesis using y [of "fst (last ps)" n] w False by auto
      qed
    qed
    moreover have "areas_from 0 (ps @ ?x # qs)"
    proof (rule first_gap_areas [OF assms(4) ar _ _ assms(2)])
      show "unat (of_nat g :: u32) = g" "unat (of_nat (g + unat sz - 1) :: u32) = g + unat sz - 1"
        using gb assms(2) by (intro unat_of_nat_32; linarith)+
    qed
    moreover have "distinct (map fst (ps @ ?x # qs))" using di nv unfolding vs by auto
    moreover have "\<exists>n\<ge>8. ?L proc = Some n" using assms(1) pv unfolding vm_list_ok_def by simp
    moreover have "\<forall>x\<in>set (ps @ ?x # qs). fst x \<noteq> proc \<and> (\<exists>n\<ge>16. ?L (fst x) = Some n)"
      using assms(1) pv unfolding vm_list_ok_def vs by auto
    ultimately have "vm_list_ok ?t ?L proc (ps @ ?x # qs)" using S(1) unfolding vm_list_ok_def by simp
    moreover have "\<forall>q l y. L q = Some l \<longrightarrow> q \<noteq> proc \<longrightarrow> q \<notin> fst ` set vs \<longrightarrow> y \<in> region q l \<longrightarrow> mem ?t y = mem s y"
      using out ok(5) by simp
    moreover have "insert_free_vma proc sz s = Some (Inr (v, ?t))" unfolding go ok(1) by simp
    ultimately show ?thesis using ok(3) by blast
  qed (simp add: go)
qed

text \<open>A machine with a process that has the area from \<open>0x1000\<close> to \<open>0x1fff\<close>.\<close>

definition put_area1 :: "memory \<Rightarrow> memory" where
  "put_area1 m = st32 (st32 (st32 (st32 m 0xC0019004 0xC001A000) 0xC001A004 0) 0xC001A008 0x1000) 0xC001A00C 0x1fff"

lemma area1_started:
  obtains s :: kern_state where "vm_list_ok s (map_of image_blocks) 0xC0019000 [(0xC001A000, 0x1000, 0x1fff)]"
proof -
  let ?L = "map_of image_blocks"
  have db: "?L (db_head kern16) = Some 104" "?L (dma_buffer kern16) = Some 1024" "dma_reach (dma_buffer kern16)" "device_ok (dma kern16)"
    "malloc_list kern16 = 0" "first_page 4096 (mapped_state 4096 kern16) < unat (4096 :: u32)"
    using floppy_disk_ok kern16_ok(2) by (simp_all add: image_blocks_def kern16_def kern0_def dma_reach_def pa_def)
  obtain m e c1 a b c2 l where
    "disk_boot (kern16\<lparr>mem := m, img_end := e, page_count := c1, mem_map := a, mem_map_end := b, free_page_count := c2, malloc_list := l\<rparr>) ?L"
    by (rule image_started [OF kern16_ok(1) db(6,5) image16 db(1-4)]) blast
  then obtain s :: kern_state where I: "pool_inv s ?L" unfolding disk_boot_def by blast
  let ?s = "s\<lparr>mem := put_area1 (mem s)\<rparr>"
  have b: "?L 0xC0019000 = Some 312" "?L 0xC001A000 = Some 256" by (simp_all add: image_blocks_def)
  have r: "region 0xC0019004 4 \<subseteq> region (0xC0019000 :: addr) 312" "region 0xC001A004 4 \<subseteq> region (0xC001A000 :: addr) 256"
    "region 0xC001A008 4 \<subseteq> region (0xC001A000 :: addr) 256" "region 0xC001A00C 4 \<subseteq> region (0xC001A000 :: addr) 256"
    by (rule region_within; simp)+
  have "pool_inv ?s ?L"
  proof (rule pool_write [OF I])
    fix y assume "\<And>q l. ?L q = Some l \<Longrightarrow> y \<notin> region q l"
    from this [OF b(1)] this [OF b(2)] show "put_area1 (mem s) y = mem s y"
      unfolding put_area1_def using r by (subst st32_out, blast)+ (rule refl)
  qed
  moreover have "ld32 (mem ?s) 0xC0019004 = 0xC001A000" "ld32 (mem ?s) 0xC001A004 = 0" "ld32 (mem ?s) 0xC001A008 = 0x1000"
    "ld32 (mem ?s) 0xC001A00C = 0x1fff" by (simp_all add: put_area1_def far_loads)
  ultimately have "vm_list_ok ?s ?L 0xC0019000 [(0xC001A000, 0x1000, 0x1fff)]"
    using b unfolding vm_list_ok_def by (simp add: exI [of _ "312 :: nat"])
  then show thesis by (rule that)
qed

theorem insert_free_vma_first_gap_witness:
  "\<exists>s :: kern_state. vm_list_ok s (map_of image_blocks) 0xC0019000 [(0xC001A000, 0x1000, 0x1fff)] \<and>
    (insert_free_vma 0xC0019000 0x2000 s = Some (Inl (Bug ''memory alloc failed'')) \<or>
     (\<exists>v t. insert_free_vma 0xC0019000 0x2000 s = Some (Inr (v, t)) \<and>
       vma_seg (mem t) (ld32 (mem t) 0xC0019004) [(0xC001A000, 0x1000, 0x1fff), (v, 0x2000, 0x3fff)] 0))"
proof -
  obtain s :: kern_state where s: "vm_list_ok s (map_of image_blocks) 0xC0019000 [(0xC001A000, 0x1000, 0x1fff)]" by (rule area1_started)
  have "first_gap 0 (unat (0x2000 :: u32)) [(0xC001A000, 0x1000, 0x1fff)] = (0x2000, [(0xC001A000, 0x1000, 0x1fff)], [])" by simp
  from insert_free_vma_first_gap [OF s _ _ this] show ?thesis
    using s by (intro exI [of _ s]) (auto simp: vm_list_ok_def)
qed

end
