(* ===== verification/Spec2Isabelle.thy ===== *)
theory Spec2Isabelle
  imports PageProps ConsoleProps CType Except PhysMap Floppy Setup FatDir KHeapProps Boot VmProps
begin

text \<open>
  A verification development for nros, a small 32-bit x86 kernel.

  THE PROGRAM. \<open>boot/\<close> and \<open>setup/\<close> load the kernel, ask the BIOS for the memory size and enter
  protected mode. \<open>kernel/main.c\<close> then maps physical memory at \<open>KVM_BASE\<close> and sets up the buddy
  allocator and the heap (\<open>mm.c\<close>, \<open>mm_alloc.c\<close>), the interrupt table (\<open>intr.c\<close>, \<open>except.c\<close>), the cache of
  disk blocks (\<open>disk_buffer.c\<close>) over the floppy driver (\<open>floppy.c\<close>), the FAT12 file system (\<open>fat12.c\<close>), two
  processes with address spaces of their own (\<open>proc.c\<close>, \<open>mm_vm.c\<close>) and the console (\<open>console.c\<close>,
  \<open>keyboard.c\<close>), and jumps into the first process. The timer switches processes (\<open>schedule.c\<close>); processes
  enter the kernel by \<open>syscall.c\<close> and \<open>fs.c\<close>.

  THE MODEL. Memory is one function from 32-bit addresses to bytes; every struct of the code is read and
  written at the offsets a 32-bit compiler gives its fields, so that aliasing, uninitialised memory and
  writes outside an array are what they are on the machine. Each part has a record of its globals; the
  records extend one another along the calls: \<open>mach\<close> (memory, port trace), \<open>mm_state\<close>, \<open>heap_state\<close>,
  \<open>disk_state\<close>, \<open>fat_state\<close>, \<open>kern_state\<close>; the console, the display and the set-up program extend \<open>mach\<close> on
  their own. Addresses that the linker chooses are fields of these records or arguments. A routine that
  can fail to return gives a \<open>fault\<close>: \<open>BUG\<close> (which prints and spins), a null dereference, an index outside
  an array, or divergence. \<open>panic\<close>, whose message and final \<open>for(;;)\<close> are modelled, gives the state in which it
  spins (\<open>Spins\<close>), apart from that of a return (\<open>Returns\<close>), and what follows its call is not executed. Loops that count are primitive recursive or have a termination proof; loops
  along links in memory are \<open>partial_function (option)\<close>, and the properties state that they return. No fuel
  is used. Integers are words of the width the code has; signed \<open>int\<close>s are read with \<open>sint\<close> where the code
  compares or divides them.

  THEORIES. Prelude: words, memory, faults, regions of addresses. LinkList: \<open>include/list.h\<close> as sequences,
  with the interface \<open>link_ring\<close>, interpreted as \<open>lr\<close>. CString, CType: \<open>lib/libc/string.c\<close>,
  \<open>include/ctype.h\<close>, \<open>include/bit.h\<close>. Machine: ports.
  BuddySpec, Buddy, BuddyRefine, PageAlloc, BuddyInit, PageProps: \<open>mm.c\<close>; BuddySpec is the abstract
  allocator on sets of blocks, BuddyRefine shows that bitmaps and rings implement it, PageAlloc states the
  interface \<open>page_allocator\<close> (interpreted as \<open>pa\<close>). PhysMap: \<open>map_all_memory\<close> against the translation of
  the processor. KMalloc: \<open>mm_alloc.c\<close>; KHeap, KHeapOps: the heap as lists of nodes and areas; PageFrame:
  what a client of the page allocator may write; KPool: the interface \<open>block_pool\<close> that both allocators
  implement (interpretations \<open>km\<close> and \<open>pp\<close>); KHeapProps: the properties of the memory management.
  Tty, Console, Screen, ConsoleOps, ConsoleRun, Terminal, ConsoleFeed, ConsoleProps: \<open>tty.h\<close>, \<open>console.c\<close>,
  \<open>keyboard.c\<close>; Tty has the interface \<open>byte_queue\<close> (interpreted as \<open>tq\<close>), Terminal the abstract terminal of rows
  and cells, ConsoleFeed the console on characters without the queue. Interrupts: \<open>intr.c\<close> and the tables of
  \<open>except.c\<close>; Except: the handlers of \<open>except.c\<close> and their entry points in \<open>except_asm.S\<close>. Floppy: \<open>floppy.c\<close>. Setup: \<open>setup/main.c\<close>. Display,
  DisplayProps: \<open>lib/libc/display.c\<close>. Fat, FatProps, FatDir: the tables and the directory of \<open>fat12.c\<close> in
  memory. Vm: \<open>mm_vm.c\<close>; VmProps: the list of
  areas of a process and its gaps. PoolSteps: calls of the allocators as their clients see them. DiskBuffer:
  \<open>disk_buffer.c\<close>; DiskTransfer: what the floppy controller does with the commands it is sent (the
  hypothesis \<open>device_ok\<close>) and the transfer of a block; Cache, CacheProps: the cache keeps what its clients
  wrote, with a machine whose controller satisfies the hypothesis. FatIO: the disk side of \<open>fat12.c\<close>. Proc:
  \<open>proc.c\<close>, \<open>schedule.c\<close>, \<open>syscall.c\<close>, \<open>fs.c\<close> and the timer of \<open>intr.c\<close>; Sched: the run queues and the switch.
  CacheView: the cache for code that takes a block, works on its page and puts it back. FileRW, FileProps:
  files read and written by the calls of \<open>fs.c\<close> through \<open>fat12.c\<close>, \<open>disk_buffer.c\<close> and \<open>floppy.c\<close>, down to
  the bytes on the disk. FatTables: the tables of \<open>fat12.c\<close> loaded from the disk and written back. Boot: \<open>main\<close>, the start of the kernel
  part by part on one machine.

  NOT MODELLED. The other assembly files (entry points, the boot sector, the keyboard's scan code tables), as
  they are no C; \<open>kthread.c\<close>, which is not
  built and does not compile; functions that only print for a developer; the text that the memory, file
  and process code prints. A null pointer is taken to fault, although the kernel runs with page 0 mapped.
  Interrupts are taken between operations only.
\<close>

end
